(* ===== verification/Prelude.thy ===== *)
theory Prelude
  imports Main "HOL-Library.Word" "HOL-Library.AList" "HOL-Library.Multiset"
    "HOL-Library.List_Lexorder"
begin

text \<open>
  Shared vocabulary of the development: bytes and JavaScript strings, JavaScript's
  insertion-ordered \<open>Map\<close>, its stable \<open>Array.prototype.sort\<close>, and the generic list
  lemmas the component theories use.

  \<^item> A \<open>Buffer\<close> is a \<open>byte list\<close>.
  \<^item> A JavaScript string is the list of its UTF-16 code units, a \<open>16 word list\<close>; the
    literal \<open>'abc'\<close> of the source is \<open>js ''abc''\<close>.
  \<^item> A \<open>Map<K, V>\<close> is an association list with distinct keys in insertion order;
    \<open>Map.set\<close> is \<open>AList.update\<close>, which overwrites a present key in place and appends
    an absent one, exactly as ECMAScript orders a \<open>Map\<close>.
  \<^item> \<open>xs.sort(cmp)\<close> is \<open>js_sort cmp xs\<close>, a stable sort by a three-way comparison.
\<close>

named_theorems list_simps \<open>generic facts on lists, maps and sums used by several components\<close>
named_theorems inv_intros \<open>an operation keeps its component's invariant\<close>
named_theorems key_simps \<open>distinctness of map keys and string literals\<close>

type_synonym byte = "8 word"
type_synonym jstr = "16 word list"
type_synonym ('k, 'v) jmap = "('k \<times> 'v) list"

section \<open>Strings\<close>

definition js :: "string \<Rightarrow> jstr" where
  "js s = map of_char s"

lemma js_Nil [simp]: "js [] = []"
  and js_Cons [simp]: "js (c # cs) = of_char c # js cs"
  and length_js [simp]: "length (js s) = length s"
  by (simp_all add: js_def)

text \<open>\<open>Array.prototype.join\<close> and \<open>String.prototype.split\<close> on one code unit.\<close>

fun js_join :: "jstr \<Rightarrow> jstr list \<Rightarrow> jstr" where
  "js_join sep [] = []"
| "js_join sep [x] = x"
| "js_join sep (x # y # ys) = x @ sep @ js_join sep (y # ys)"

fun js_split :: "16 word \<Rightarrow> jstr \<Rightarrow> jstr list" where
  "js_split c [] = [[]]"
| "js_split c (x # xs) =
     (if x = c then [] # js_split c xs
      else (case js_split c xs of [] \<Rightarrow> [[x]] | p # ps \<Rightarrow> (x # p) # ps))"

lemma js_split_nonempty [simp]: "js_split c s \<noteq> []"
  by (induction s) (auto split: list.splits)

lemma js_join_Cons:
  "js_join sep (x # xs) = (if xs = [] then x else x @ sep @ js_join sep xs)"
  by (cases xs) simp_all

lemma js_join_split: "js_join [c] (js_split c s) = s"
  by (induction s) (auto simp: js_join_Cons split: list.splits if_splits)

definition js_ends_with :: "jstr \<Rightarrow> jstr \<Rightarrow> bool" where
  "js_ends_with s suf = (length suf \<le> length s \<and> drop (length s - length suf) s = suf)"

lemma js_ends_with_iff: "js_ends_with s suf \<longleftrightarrow> (\<exists>p. s = p @ suf)"
  by (auto simp: js_ends_with_def) (metis append_take_drop_id)

text \<open>The code unit of a space, and the separator a slash-joined path uses.\<close>

abbreviation sp :: "16 word" where "sp \<equiv> 0x20"
abbreviation slash :: "16 word" where "slash \<equiv> 0x2F"

text \<open>Splitting a string at the first and at the last occurrence of a code unit.\<close>

lemma append_sep_eq_left:
  assumes "a @ c # x = b @ c # y" and "c \<notin> set a" and "c \<notin> set b"
  shows "a = b \<and> x = y"
  using assms
proof (induction a arbitrary: b)
  case Nil
  then show ?case by (cases b) auto
next
  case (Cons z zs)
  then show ?case by (cases b) auto
qed

lemma append_sep_eq_right:
  assumes "x @ c # a = y @ c # b" and "c \<notin> set a" and "c \<notin> set b"
  shows "x = y \<and> a = b"
proof -
  from assms(1) have "rev (x @ c # a) = rev (y @ c # b)" by simp
  then have "rev a @ c # rev x = rev b @ c # rev y" by simp
  with assms(2,3) show ?thesis using append_sep_eq_left [of "rev a" c "rev x" "rev b" "rev y"]
    by simp
qed

section \<open>Maps\<close>

abbreviation jm_set :: "'k \<Rightarrow> 'v \<Rightarrow> ('k, 'v) jmap \<Rightarrow> ('k, 'v) jmap" where
  "jm_set \<equiv> AList.update"

abbreviation jm_get :: "('k, 'v) jmap \<Rightarrow> 'k \<Rightarrow> 'v option" where
  "jm_get \<equiv> map_of"

definition jm_get_or :: "'v \<Rightarrow> ('k, 'v) jmap \<Rightarrow> 'k \<Rightarrow> 'v" where
  "jm_get_or d m k = (case jm_get m k of None \<Rightarrow> d | Some v \<Rightarrow> v)"

definition jm_ok :: "('k, 'v) jmap \<Rightarrow> bool" where
  "jm_ok m = distinct (map fst m)"

lemma jm_ok_Nil [simp]: "jm_ok []"
  by (simp add: jm_ok_def)

lemma jm_ok_set [simp, inv_intros]: "jm_ok m \<Longrightarrow> jm_ok (jm_set k v m)"
  by (simp add: jm_ok_def distinct_update)

lemma jm_ok_Cons: "jm_ok ((k, v) # m) \<longleftrightarrow> k \<notin> fst ` set m \<and> jm_ok m"
  by (auto simp: jm_ok_def)

lemma jm_get_set [simp]: "jm_get (jm_set k v m) = (jm_get m)(k \<mapsto> v)"
  by (rule update_conv')

lemma jm_get_or_set [list_simps]:
  "jm_get_or d (jm_set k v m) k' = (if k' = k then v else jm_get_or d m k')"
  by (simp add: jm_get_or_def)

lemma keys_jm_set: "fst ` set (jm_set k v m) = insert k (fst ` set m)"
  by (induction m) auto

lemma length_jm_set:
  "length (jm_set k v m) = (if k \<in> fst ` set m then length m else Suc (length m))"
  by (induction m) auto

text \<open>
  A sum over the entries after one entry has been bumped: the fact behind every counter
  kept in a map.
\<close>

lemma sum_list_jm_set:
  fixes f :: "'k \<times> 'v \<Rightarrow> 'a :: ab_group_add"
  assumes "jm_ok m"
  shows "(\<Sum>e \<leftarrow> jm_set k v m. f e) =
    (\<Sum>e \<leftarrow> m. f e) + f (k, v) - (case jm_get m k of None \<Rightarrow> 0 | Some w \<Rightarrow> f (k, w))"
  using assms
proof (induction m)
  case Nil
  then show ?case by simp
next
  case (Cons e m)
  obtain k' w where e: "e = (k', w)" by fastforce
  show ?case
  proof (cases "k' = k")
    case True
    with Cons.prems show ?thesis by (simp add: e algebra_simps)
  next
    case False
    with Cons show ?thesis by (simp add: e jm_ok_Cons algebra_simps)
  qed
qed

section \<open>Stable sorting by a comparison function\<close>

fun insort_cmp :: "('a \<Rightarrow> 'a \<Rightarrow> int) \<Rightarrow> 'a \<Rightarrow> 'a list \<Rightarrow> 'a list" where
  "insort_cmp c x [] = [x]"
| "insort_cmp c x (y # ys) = (if c x y \<le> 0 then x # y # ys else y # insort_cmp c x ys)"

definition js_sort :: "('a \<Rightarrow> 'a \<Rightarrow> int) \<Rightarrow> 'a list \<Rightarrow> 'a list" where
  "js_sort c xs = foldr (insort_cmp c) xs []"

lemma js_sort_Nil [simp]: "js_sort c [] = []"
  and js_sort_Cons: "js_sort c (x # xs) = insort_cmp c x (js_sort c xs)"
  by (simp_all add: js_sort_def)

lemma mset_insort_cmp: "mset (insort_cmp c x xs) = add_mset x (mset xs)"
  by (induction xs) auto

lemma mset_js_sort [simp]: "mset (js_sort c xs) = mset xs"
  by (induction xs) (simp_all add: js_sort_Cons mset_insort_cmp)

lemma set_js_sort [simp]: "set (js_sort c xs) = set xs"
  by (rule mset_eq_setD) simp

lemma length_js_sort [simp]: "length (js_sort c xs) = length xs"
  by (rule mset_eq_length) simp

lemma sum_list_js_sort [simp]:
  fixes f :: "'a \<Rightarrow> 'b :: comm_monoid_add"
  shows "(\<Sum>x \<leftarrow> js_sort c xs. f x) = (\<Sum>x \<leftarrow> xs. f x)"
  by (metis mset_js_sort mset_map sum_mset_sum_list)

lemma distinct_map_js_sort [simp]: "distinct (map f (js_sort c xs)) = distinct (map f xs)"
  by (metis mset_js_sort mset_eq_imp_distinct_iff mset_map)

text \<open>
  A comparison of integer keys by subtraction, \<open>(a, b) => f(a) - f(b)\<close>, sorts as the
  library's stable \<open>sort_key\<close>.
\<close>

definition cmp_by :: "('a \<Rightarrow> int) \<Rightarrow> 'a \<Rightarrow> 'a \<Rightarrow> int" where
  "cmp_by f a b = f a - f b"

lemma insort_cmp_by: "insort_cmp (cmp_by f) x xs = insort_key f x xs"
  by (induction xs) (auto simp: cmp_by_def)

lemma js_sort_by: "js_sort (cmp_by f) xs = sort_key f xs"
  by (induction xs) (simp_all add: js_sort_Cons insort_cmp_by)

text \<open>
  The contract ECMAScript asks of a sort's comparison: a consistent three-way comparison.
  Under it the result is sorted. \<open>js_sort\<close> is a permutation whatever the comparison does.
\<close>

locale consistent_cmp =
  fixes cmp :: "'a \<Rightarrow> 'a \<Rightarrow> int"
  assumes cmp_total: "cmp a b \<le> 0 \<or> cmp b a \<le> 0"
    and cmp_trans: "cmp a b \<le> 0 \<Longrightarrow> cmp b d \<le> 0 \<Longrightarrow> cmp a d \<le> 0"
begin

lemma insort_cmp_sorted:
  "sorted_wrt (\<lambda>a b. cmp a b \<le> 0) xs \<Longrightarrow> sorted_wrt (\<lambda>a b. cmp a b \<le> 0) (insort_cmp cmp x xs)"
proof (induction xs)
  case Nil
  then show ?case by simp
next
  case (Cons y ys)
  show ?case
  proof (cases "cmp x y \<le> 0")
    case True
    with Cons.prems show ?thesis by (auto intro: cmp_trans)
  next
    case False
    then have "cmp y x \<le> 0" using cmp_total by blast
    moreover have "set (insort_cmp cmp x ys) = insert x (set ys)"
      by (metis mset_insort_cmp set_mset_add_mset_insert set_mset_mset)
    ultimately show ?thesis using Cons False by auto
  qed
qed

lemma js_sort_sorted: "sorted_wrt (\<lambda>a b. cmp a b \<le> 0) (js_sort cmp xs)"
  by (induction xs) (simp_all add: js_sort_Cons insort_cmp_sorted)

end

interpretation by_key: consistent_cmp "cmp_by f" for f :: "'a \<Rightarrow> int"
  by unfold_locales (auto simp: cmp_by_def)

text \<open>
  The comparison \<open>a < b ? -1 : a > b ? 1 : 0\<close> on strings: code units, lexicographically.
\<close>

definition cmp_units :: "jstr \<Rightarrow> jstr \<Rightarrow> int" where
  "cmp_units a b = (if a < b then -1 else if a > b then 1 else 0)"

interpretation by_units: consistent_cmp cmp_units
  by unfold_locales (auto simp: cmp_units_def split: if_splits)

text \<open>Two comparisons in sequence: \<open>first(a, b) || second(a, b)\<close>.\<close>

definition cmp_then :: "('a \<Rightarrow> 'a \<Rightarrow> int) \<Rightarrow> ('a \<Rightarrow> 'a \<Rightarrow> int) \<Rightarrow> 'a \<Rightarrow> 'a \<Rightarrow> int" where
  "cmp_then c d a b = (if c a b \<noteq> 0 then c a b else d a b)"

section \<open>Lists of integers\<close>

lemma sum_list_const_map [list_simps]: "(\<Sum>x \<leftarrow> xs. (c :: int)) = c * int (length xs)"
  by (induction xs) (simp_all add: algebra_simps)

lemma length_filter_sum [list_simps]:
  "int (length (filter P xs)) = (\<Sum>x \<leftarrow> xs. if P x then 1 else 0)"
  by (induction xs) auto

lemma sum_list_if_filter [list_simps]:
  "(\<Sum>x \<leftarrow> xs. if P x then f x else (0 :: 'b :: comm_monoid_add)) = (\<Sum>x \<leftarrow> filter P xs. f x)"
  by (induction xs) auto

text \<open>Halving an index twice is quartering it: why coalescing in steps equals coalescing once.\<close>

lemma div_div_two_pow: "(i div 2 ^ k) div 2 = i div (2 ^ Suc k :: int)"
  by (simp add: zdiv_zmult2_eq [symmetric] mult.commute)

end
