(* ===== verification/JsNumber.thy ===== *)
theory JsNumber
  imports Prelude Complex_Main "HOL-Library.Log_Nat"
begin

text \<open>
  JavaScript numbers. An integer-valued number the program keeps below \<open>2^53\<close> in absolute
  value (a count, a sum of milliseconds, an epoch time) is an \<open>int\<close>, whose arithmetic IEEE
  doubles perform exactly. A fractional double is the rational it denotes, and every
  floating-point operation of the source is the exact operation followed by \<open>rnd\<close>,
  round-to-nearest-even to 53 significant bits. The four special values a decoded double
  can have beyond that are the constructors of \<open>jnum\<close>.
\<close>

section \<open>Rounding to a double\<close>

definition floor_log2 :: "rat \<Rightarrow> int" where
  "floor_log2 x = (case quotient_of x of (p, q) \<Rightarrow>
     let k = bitlen p - bitlen q in if 2 powi k \<le> x then k else k - 1)"

definition round_half_even :: "rat \<Rightarrow> int" where
  "round_half_even y = (let f = \<lfloor>y\<rfloor>; d = y - of_int f in
     if d < 1 / 2 then f else if d > 1 / 2 then f + 1 else if even f then f else f + 1)"

definition ulp_exp :: "rat \<Rightarrow> int" where
  "ulp_exp x = max (floor_log2 \<bar>x\<bar> - 52) (- 1074)"

definition rnd :: "rat \<Rightarrow> rat" where
  "rnd x = (if x = 0 then 0
     else of_int (round_half_even (x / 2 powi ulp_exp x)) * 2 powi ulp_exp x)"

definition is_double :: "rat \<Rightarrow> bool" where
  "is_double x \<longleftrightarrow> (\<exists>m e. x = of_int m * 2 powi e \<and> \<bar>m\<bar> < 2 ^ 53 \<and> - 1074 \<le> e)"


lemma powi2_pos [simp]: "0 < (2 :: rat) powi e"
  by simp

lemma powi2_mono: "a \<le> b \<Longrightarrow> (2 :: rat) powi a \<le> 2 powi b"
  by (simp add: power_int_increasing)

lemma powi2_add: "(2 :: rat) powi (a + b) = 2 powi a * 2 powi b"
  by (simp add: power_int_add)

lemma powi2_nat: "0 \<le> a \<Longrightarrow> (2 :: rat) powi a = of_int (2 ^ nat a)"
  by (simp add: power_int_def)

lemma powi2_div: "(2 :: rat) powi a / 2 powi b = 2 powi (a - b)"
  by (simp add: power_int_diff)

lemma bitlen_powi:
  assumes "0 < p"
  shows "0 < bitlen p" and "(2 :: rat) powi (bitlen p - 1) \<le> of_int p"
    and "of_int p < (2 :: rat) powi bitlen p"
proof -
  have b: "2 ^ nat (bitlen p - 1) \<le> p" "p < 2 ^ nat (bitlen p)"
    using bitlen_bounds [OF assms] by auto
  show pos: "0 < bitlen p"
  proof (rule ccontr)
    assume "\<not> 0 < bitlen p"
    with b(2) assms show False by simp
  qed
  have "(of_int (2 ^ nat (bitlen p - 1)) :: rat) \<le> of_int p"
    using b(1) by (simp only: of_int_le_iff)
  moreover have "(2 :: rat) powi (bitlen p - 1) = of_int (2 ^ nat (bitlen p - 1))"
    using pos by (intro powi2_nat) simp
  ultimately show "(2 :: rat) powi (bitlen p - 1) \<le> of_int p" by (simp only:)
  have "(of_int p :: rat) < of_int (2 ^ nat (bitlen p))"
    using b(2) by (simp only: of_int_less_iff)
  moreover have "(2 :: rat) powi bitlen p = of_int (2 ^ nat (bitlen p))"
    using pos by (intro powi2_nat) simp
  ultimately show "of_int p < (2 :: rat) powi bitlen p" by (simp only:)
qed

lemma floor_log2_bounds:
  assumes "0 < x"
  shows "2 powi floor_log2 x \<le> x" and "x < 2 powi (floor_log2 x + 1)"
proof -
  obtain p q where pq: "quotient_of x = (p, q)" by fastforce
  have q: "0 < q" using pq by (rule quotient_of_denom_pos)
  have x: "x = of_int p / of_int q" using pq by (rule quotient_of_div)
  have p: "0 < p" using assms q unfolding x by (simp add: zero_less_divide_iff)
  define bp bq where "bp = bitlen p" and "bq = bitlen q"
  note pb = bitlen_powi [OF p, folded bp_def] and qb = bitlen_powi [OF q, folded bq_def]
  have q': "0 < (of_int q :: rat)" using q by simp
  have lo: "2 powi (bp - bq - 1) \<le> x"
  proof -
    have "(2::rat) powi (bp - bq - 1) * of_int q \<le> 2 powi (bp - bq - 1) * 2 powi bq"
      using qb by (intro mult_left_mono) auto
    also have "\<dots> = 2 powi (bp - 1)" by (simp flip: powi2_add)
    also have "\<dots> \<le> of_int p" by (rule pb)
    finally show ?thesis using q' by (simp add: x field_simps)
  qed
  have hi: "x < 2 powi (bp - bq + 1)"
  proof -
    have "of_int p < (2::rat) powi bp" by (rule pb)
    also have "\<dots> = 2 powi (bp - bq + 1) * 2 powi (bq - 1)" by (simp flip: powi2_add)
    also have "\<dots> \<le> 2 powi (bp - bq + 1) * of_int q"
      using qb by (intro mult_left_mono) auto
    finally show ?thesis using q' by (simp add: x field_simps)
  qed
  have "floor_log2 x = (if 2 powi (bp - bq) \<le> x then bp - bq else bp - bq - 1)"
    by (simp add: floor_log2_def pq bp_def bq_def Let_def)
  then show "2 powi floor_log2 x \<le> x" and "x < 2 powi (floor_log2 x + 1)"
    using lo hi by (simp_all split: if_splits)
qed

lemma floor_log2_less:
  assumes "0 < x" and "x < 2 powi L"
  shows "floor_log2 x < L"
proof (rule ccontr)
  assume "\<not> floor_log2 x < L"
  then have "(2::rat) powi L \<le> 2 powi floor_log2 x" by (simp add: powi2_mono)
  also have "\<dots> \<le> x" using assms(1) by (rule floor_log2_bounds)
  finally show False using assms(2) by simp
qed

lemma floor_log2_mono:
  assumes "0 < x" and "x \<le> y"
  shows "floor_log2 x \<le> floor_log2 y"
proof -
  have "x < 2 powi (floor_log2 y + 1)" using assms floor_log2_bounds(2) [of y] by linarith
  with assms(1) have "floor_log2 x < floor_log2 y + 1" by (rule floor_log2_less)
  then show ?thesis by simp
qed

lemma round_half_even_of_int [simp]: "round_half_even (of_int k) = k"
  by (simp add: round_half_even_def)

lemma round_half_even_floor:
  "\<lfloor>y\<rfloor> \<le> round_half_even y" "round_half_even y \<le> \<lfloor>y\<rfloor> + 1"
  by (simp_all add: round_half_even_def Let_def)

lemma round_half_even_close:
  "\<bar>of_int (round_half_even y) - y\<bar> \<le> 1 / 2"
  using of_int_floor_le [of y] real_of_int_floor_add_one_gt
  unfolding round_half_even_def Let_def abs_le_iff by (simp; linarith)

lemma round_half_even_mono:
  assumes "x \<le> y"
  shows "round_half_even x \<le> round_half_even y"
proof (cases "\<lfloor>x\<rfloor> = \<lfloor>y\<rfloor>")
  case True
  then show ?thesis using assms unfolding round_half_even_def Let_def by auto
next
  case False
  with assms have "\<lfloor>x\<rfloor> + 1 \<le> \<lfloor>y\<rfloor>" using floor_mono [OF assms] by linarith
  then show ?thesis using round_half_even_floor [of x] round_half_even_floor [of y] by linarith
qed

lemma round_half_even_le: "y \<le> of_int k \<Longrightarrow> round_half_even y \<le> k"
  using round_half_even_mono [of y "of_int k"] by simp

lemma round_half_even_ge: "of_int k \<le> y \<Longrightarrow> k \<le> round_half_even y"
  using round_half_even_mono [of "of_int k" y] by simp

lemma round_half_even_minus: "round_half_even (- y) = - round_half_even y"
proof (cases "y = of_int \<lfloor>y\<rfloor>")
  case True
  then show ?thesis by (metis of_int_minus round_half_even_of_int)
next
  case False
  then have c: "\<lceil>y\<rceil> = \<lfloor>y\<rfloor> + 1" by (metis ceiling_altdef)
  show ?thesis
    unfolding round_half_even_def Let_def floor_minus c by auto
qed

lemma ulp_exp_minus [simp]: "ulp_exp (- x) = ulp_exp x"
  by (simp add: ulp_exp_def)

lemma rnd_0 [simp]: "rnd 0 = 0"
  by (simp add: rnd_def)

lemma rnd_minus [simp]: "rnd (- x) = - rnd x"
  by (simp add: rnd_def round_half_even_minus)

lemma rnd_nonneg: "0 \<le> x \<Longrightarrow> 0 \<le> rnd x"
  unfolding rnd_def by (auto intro!: mult_nonneg_nonneg round_half_even_ge)

text \<open>A rounded value lies on the same side of every power of two its argument lies on.\<close>

lemma rnd_le_powi:
  assumes "0 < x" and "x \<le> 2 powi L" and "ulp_exp x \<le> L"
  shows "rnd x \<le> 2 powi L"
proof -
  let ?e = "ulp_exp x"
  have "x / 2 powi ?e \<le> 2 powi L / 2 powi ?e"
    using assms(2) by (simp add: divide_right_mono)
  also have "\<dots> = of_int (2 ^ nat (L - ?e))"
    using assms(3) by (simp only: powi2_div powi2_nat diff_ge_0_iff_ge)
  finally have "round_half_even (x / 2 powi ?e) \<le> 2 ^ nat (L - ?e)"
    by (rule round_half_even_le)
  then have "(of_int (round_half_even (x / 2 powi ?e)) :: rat) \<le> of_int (2 ^ nat (L - ?e))"
    by (simp only: of_int_le_iff)
  also have "\<dots> = 2 powi (L - ?e)" using assms(3) by (simp add: powi2_nat)
  finally have "rnd x \<le> 2 powi (L - ?e) * 2 powi ?e"
    using assms(1) by (simp add: rnd_def)
  then show ?thesis by (simp flip: powi2_add)
qed

lemma rnd_ge_powi:
  assumes "2 powi L \<le> x" and "ulp_exp x \<le> L"
  shows "2 powi L \<le> rnd x"
proof -
  let ?e = "ulp_exp x"
  have x: "0 < x" using assms(1) powi2_pos [of L] by linarith
  have "of_int (2 ^ nat (L - ?e)) = (2::rat) powi L / 2 powi ?e"
    using assms(2) by (simp only: powi2_div powi2_nat diff_ge_0_iff_ge)
  also have "\<dots> \<le> x / 2 powi ?e"
    using assms(1) by (simp add: divide_right_mono)
  finally have "2 ^ nat (L - ?e) \<le> round_half_even (x / 2 powi ?e)"
    by (rule round_half_even_ge)
  then have int_le: "of_int (2 ^ nat (L - ?e)) \<le> (of_int (round_half_even (x / 2 powi ?e)) :: rat)"
    by (simp only: of_int_le_iff)
  have "2 powi (L - ?e) = (of_int (2 ^ nat (L - ?e)) :: rat)"
    using assms(2) by (simp add: powi2_nat)
  also note int_le
  finally have "2 powi (L - ?e) \<le> (of_int (round_half_even (x / 2 powi ?e)) :: rat)" .
  then have "2 powi (L - ?e) * 2 powi ?e \<le> rnd x"
    using x by (simp add: rnd_def)
  then show ?thesis by (simp flip: powi2_add)
qed

lemma rnd_mono_pos:
  assumes "0 < x" and "x \<le> y"
  shows "rnd x \<le> rnd y"
proof -
  have y: "0 < y" using assms by simp
  have le: "floor_log2 x \<le> floor_log2 y" using assms by (rule floor_log2_mono)
  show ?thesis
  proof (cases "ulp_exp x = ulp_exp y")
    case True
    have "x / 2 powi ulp_exp y \<le> y / 2 powi ulp_exp y"
      using assms(2) by (simp add: divide_right_mono)
    then show ?thesis using assms y True
      by (simp add: rnd_def round_half_even_mono)
  next
    case False
    define L where "L = floor_log2 y"
    have L: "L = ulp_exp y + 52" and lt: "ulp_exp x < ulp_exp y"
      using False le assms y by (auto simp: ulp_exp_def L_def)
    then have "floor_log2 x < L" using assms y by (auto simp: ulp_exp_def L_def)
    then have "x < 2 powi L"
      using floor_log2_bounds(2) [OF assms(1)] powi2_mono [of "floor_log2 x + 1" L] by simp
    then have "rnd x \<le> 2 powi L"
      using assms(1) lt L by (intro rnd_le_powi) simp_all
    also have "\<dots> \<le> rnd y"
      using floor_log2_bounds(1) [OF y] L by (intro rnd_ge_powi) (simp_all add: L_def)
    finally show ?thesis .
  qed
qed

theorem rnd_mono: "x \<le> y \<Longrightarrow> rnd x \<le> rnd y"
proof -
  assume le: "x \<le> y"
  consider "0 < x" | "x \<le> 0" "0 \<le> y" | "y < 0" by linarith
  then show ?thesis
  proof cases
    case 1
    then show ?thesis using le by (rule rnd_mono_pos)
  next
    case 2
    then have "rnd (- x) \<ge> 0" "rnd y \<ge> 0" by (auto intro!: rnd_nonneg simp del: rnd_minus)
    then show ?thesis by simp
  next
    case 3
    then have "rnd (- y) \<le> rnd (- x)" using le by (intro rnd_mono_pos) auto
    then show ?thesis by simp
  qed
qed

text \<open>Every value with a 53-bit significand is kept; in particular every safe integer.\<close>

lemma rnd_double_pos:
  assumes "x = of_int m * 2 powi e" and "0 < m" and "m < 2 ^ 53" and "- 1074 \<le> e"
  shows "rnd x = x"
proof -
  have x: "0 < x" using assms by simp
  have "(of_int m :: rat) < of_int (2 ^ 53)" using assms(3) by (simp only: of_int_less_iff)
  also have "\<dots> = 2 powi 53" by (simp add: power_int_def)
  finally have "x < 2 powi 53 * 2 powi e" unfolding assms(1) by (simp add: mult_strict_right_mono)
  then have "x < 2 powi (53 + e)" by (simp add: powi2_add)
  with x have "floor_log2 x < 53 + e" by (rule floor_log2_less)
  then have le: "ulp_exp x \<le> e" using x assms(4) by (simp add: ulp_exp_def)
  define k where "k = m * 2 ^ nat (e - ulp_exp x)"
  have "x / 2 powi ulp_exp x = of_int m * (2 powi e / 2 powi ulp_exp x)"
    by (simp add: assms(1))
  also have "\<dots> = of_int k"
    using le by (simp only: powi2_div powi2_nat diff_ge_0_iff_ge k_def of_int_mult)
  finally have k: "x / 2 powi ulp_exp x = of_int k" .
  then have "rnd x = of_int k * 2 powi ulp_exp x" using x by (simp add: rnd_def)
  also have "\<dots> = x" unfolding k [symmetric] by simp
  finally show ?thesis .
qed

lemma rnd_double: "is_double x \<Longrightarrow> rnd x = x"
proof -
  assume "is_double x"
  then obtain m e where x: "x = of_int m * 2 powi e" and m: "\<bar>m\<bar> < 2 ^ 53" and e: "- 1074 \<le> e"
    by (auto simp: is_double_def)
  consider "0 < m" | "m = 0" | "m < 0" by linarith
  then show ?thesis
  proof cases
    case 1
    then show ?thesis using x m e by (intro rnd_double_pos) auto
  next
    case 2
    then show ?thesis by (simp add: x)
  next
    case 3
    then have "rnd (- x) = - x" using m e by (intro rnd_double_pos [of _ "- m" e]) (auto simp: x)
    then show ?thesis by simp
  qed
qed

lemma is_double_of_int: "\<bar>k\<bar> < 2 ^ 53 \<Longrightarrow> is_double (of_int k)"
  unfolding is_double_def by (rule exI [of _ k], rule exI [of _ 0]) simp

lemma is_double_2_53: "is_double (of_int (2 ^ 53))"
  unfolding is_double_def by (rule exI [of _ "2 ^ 52"], rule exI [of _ 1]) simp

lemma rnd_of_int [simp]:
  assumes "\<bar>k\<bar> \<le> 2 ^ 53"
  shows "rnd (of_int k) = of_int k"
proof -
  consider "\<bar>k\<bar> < 2 ^ 53" | "k = 2 ^ 53" | "k = - (2 ^ 53)" using assms by linarith
  then show ?thesis
  proof cases
    case 1
    then show ?thesis by (rule rnd_double [OF is_double_of_int])
  next
    case 2
    then show ?thesis using rnd_double [OF is_double_2_53] by (simp only:)
  next
    case 3
    then show ?thesis using rnd_double [OF is_double_2_53] by (simp only: of_int_minus rnd_minus)
  qed
qed

text \<open>
  Rounding keeps a value within its integer bounds, and \<open>ceil\<close> of a rounded quotient is
  the quotient's own ceiling while numerator and denominator are small.
\<close>

lemma rnd_between:
  assumes "of_int a \<le> x" and "x \<le> of_int b" and "\<bar>a\<bar> \<le> 2 ^ 53" and "\<bar>b\<bar> \<le> 2 ^ 53"
  shows "of_int a \<le> rnd x" and "rnd x \<le> of_int b"
  using rnd_mono [OF assms(1)] rnd_mono [OF assms(2)] assms(3,4) by simp_all

section \<open>The operations of the source\<close>

definition fadd :: "rat \<Rightarrow> rat \<Rightarrow> rat" where "fadd a b = rnd (a + b)"
definition fsub :: "rat \<Rightarrow> rat \<Rightarrow> rat" where "fsub a b = rnd (a - b)"
definition fmul :: "rat \<Rightarrow> rat \<Rightarrow> rat" where "fmul a b = rnd (a * b)"
definition fdiv :: "rat \<Rightarrow> rat \<Rightarrow> rat" where "fdiv a b = rnd (a / b)"

text \<open>
  \<open>Math.round\<close> (half up), and \<open>Math.sqrt\<close>: the integer square root of the argument scaled
  to at least 61 significant bits, with half a unit added when a remainder was dropped, so
  that rounding to 53 bits sees on which side of every tie the true root lies.
\<close>

definition js_round :: "rat \<Rightarrow> int" where
  "js_round x = \<lfloor>x + 1 / 2\<rfloor>"

lemma js_round_of_int [simp]: "js_round (of_int k) = k"
  by (simp add: js_round_def floor_eq_iff)

function isqrt :: "int \<Rightarrow> int" where
  "isqrt n = (if n \<le> 0 then 0
     else let r = 2 * isqrt (n div 4) in if (r + 1) * (r + 1) \<le> n then r + 1 else r)"
  by pat_completeness auto
termination by (relation "measure nat") auto

declare isqrt.simps [simp del]

lemma isqrt_bounds:
  "0 \<le> n \<Longrightarrow> 0 \<le> isqrt n \<and> isqrt n * isqrt n \<le> n \<and> n < (isqrt n + 1) * (isqrt n + 1)"
proof (induction n rule: isqrt.induct)
  case (1 n)
  show ?case
  proof (cases "n = 0")
    case True
    then show ?thesis by (simp add: isqrt.simps [of 0])
  next
    case False
    with 1 have IH: "0 \<le> isqrt (n div 4)" "isqrt (n div 4) * isqrt (n div 4) \<le> n div 4"
      "n div 4 < (isqrt (n div 4) + 1) * (isqrt (n div 4) + 1)"
      by simp_all
    define s where "s = isqrt (n div 4)"
    have lo: "4 * (s * s) \<le> n" and hi: "n < 4 * ((s + 1) * (s + 1))" and s: "0 \<le> s"
      using IH unfolding s_def by linarith+
    have eq: "isqrt n = (if (2 * s + 1) * (2 * s + 1) \<le> n then 2 * s + 1 else 2 * s)"
      using False 1(2) by (subst isqrt.simps) (simp add: s_def Let_def)
    show ?thesis
    proof (cases "(2 * s + 1) * (2 * s + 1) \<le> n")
      case True
      with eq have "isqrt n = 2 * s + 1" by simp
      with True hi s show ?thesis by (simp add: algebra_simps)
    next
      case False
      with eq have "isqrt n = 2 * s" by simp
      with False lo s show ?thesis by (simp add: algebra_simps)
    qed
  qed
qed

definition fsqrt :: "rat \<Rightarrow> rat" where
  "fsqrt x = (if x \<le> 0 then 0
     else let s = 60 - floor_log2 x div 2;
              X = x * 4 powi s;
              r = isqrt \<lfloor>X\<rfloor>;
              y = (if of_int (r * r) = X then of_int r else of_int r + 1 / 2)
          in rnd (y * 2 powi (- s)))"

lemma fsqrt_nonneg: "0 \<le> fsqrt x"
proof (cases "x \<le> 0")
  case True
  then show ?thesis by (simp add: fsqrt_def)
next
  case False
  define s where "s = 60 - floor_log2 x div 2"
  have "0 \<le> isqrt \<lfloor>x * 4 powi s\<rfloor>" using False isqrt_bounds [of "\<lfloor>x * 4 powi s\<rfloor>"] by simp
  then show ?thesis using False
    by (auto simp: fsqrt_def s_def [symmetric] Let_def intro!: rnd_nonneg)
qed

section \<open>Number to string\<close>

text \<open>
  \<open>Number::toString\<close> of ECMAScript: among the decimals \<open>s * 10 ^ (n - k)\<close> that round to the
  number, the one with the fewest digits \<open>k\<close>, and the closest of those. Every double is
  determined by 17 significant digits, which bounds the search.
\<close>

function digs :: "int \<Rightarrow> jstr" where
  "digs n = (if n < 10 then [0x30 + of_int n] else digs (n div 10) @ [0x30 + of_int (n mod 10)])"
  by pat_completeness auto
termination by (relation "measure nat") auto

declare digs.simps [simp del]

fun dec_shift :: "nat \<Rightarrow> rat \<Rightarrow> int" where
  "dec_shift 0 x = 0"
| "dec_shift (Suc fuel) x = (if 1 \<le> x then 0 else 1 + dec_shift fuel (x * 10))"

text \<open>The smallest positive double is above \<open>10 ^ -324\<close>, so 400 steps reach 1.\<close>

definition dec_exp :: "rat \<Rightarrow> int" where
  "dec_exp x = (if 1 \<le> x then int (length (digs \<lfloor>x\<rfloor>)) else 1 - dec_shift 400 x)"

fun shortest :: "nat \<Rightarrow> nat \<Rightarrow> rat \<Rightarrow> int \<Rightarrow> int \<times> nat \<times> int" where
  "shortest fuel k x n =
     (let u = 10 powi (n - int k); lo = \<lfloor>x / u\<rfloor>; hi = lo + 1;
          okl = (rnd (of_int lo * u) = x); okh = (rnd (of_int hi * u) = x);
          dl = x - of_int lo * u; dh = of_int hi * u - x;
          s = (if okl \<and> (\<not> okh \<or> dl < dh \<or> (dl = dh \<and> even lo)) then lo else hi)
      in if okl \<or> okh \<or> fuel = 0
         then (if s = 10 ^ k then (1, 1, n + 1) else (s, k, n))
         else shortest (fuel - 1) (Suc k) x n)"

declare shortest.simps [simp del]

definition js_pos_string :: "rat \<Rightarrow> jstr" where
  "js_pos_string x = (case shortest 16 1 x (dec_exp x) of (s, k, n) \<Rightarrow>
     let d = digs s in
     if int k \<le> n \<and> n \<le> 21 then d @ replicate (nat n - k) 0x30
     else if 0 < n \<and> n \<le> 21 then take (nat n) d @ js ''.'' @ drop (nat n) d
     else if - 6 < n \<and> n \<le> 0 then js ''0.'' @ replicate (nat (- n)) 0x30 @ d
     else (let e = n - 1; es = (if e < 0 then js ''e-'' @ digs (- e) else js ''e+'' @ digs e)
           in if k = 1 then d @ es else take 1 d @ js ''.'' @ drop 1 d @ es))"

definition js_num :: "rat \<Rightarrow> jstr" where
  "js_num x = (if x = 0 then js ''0''
     else if x < 0 then js ''-'' @ js_pos_string (- x) else js_pos_string x)"

text \<open>\<open>String(k)\<close> of an integer the program keeps exact.\<close>

definition js_int :: "int \<Rightarrow> jstr" where
  "js_int k = js_num (of_int k)"

section \<open>Special values\<close>

datatype jnum = JNaN | JInf | JNegInf | JFin rat

fun jlt :: "jnum \<Rightarrow> jnum \<Rightarrow> bool" where
  "jlt JNaN b = False"
| "jlt a JNaN = False"
| "jlt (JFin a) (JFin b) = (a < b)"
| "jlt JNegInf b = (b \<noteq> JNegInf)"
| "jlt a JInf = (a \<noteq> JInf)"
| "jlt a b = False"

fun jeq :: "jnum \<Rightarrow> jnum \<Rightarrow> bool" where
  "jeq JNaN b = False"
| "jeq a JNaN = False"
| "jeq a b = (a = b)"

definition jle :: "jnum \<Rightarrow> jnum \<Rightarrow> bool" where
  "jle a b = (jlt a b \<or> jeq a b)"

fun jnum_string :: "jnum \<Rightarrow> jstr" where
  "jnum_string JNaN = js ''NaN''"
| "jnum_string JInf = js ''Infinity''"
| "jnum_string JNegInf = js ''-Infinity''"
| "jnum_string (JFin x) = js_num x"

text \<open>The IEEE 754 double of 64 bits: sign, 11 exponent bits, 52 fraction bits.\<close>

definition decode_double :: "64 word \<Rightarrow> jnum" where
  "decode_double w =
     (let u = uint w; f = u mod 2 ^ 52; e = (u div 2 ^ 52) mod 2 ^ 11; neg = (2 ^ 63 \<le> u);
          v = (if e = 0 then of_int f * 2 powi (- 1074)
               else of_int (2 ^ 52 + f) * 2 powi (e - 1075))
      in if e = 2047 then (if f \<noteq> 0 then JNaN else if neg then JNegInf else JInf)
         else JFin (if neg then - v else v))"

text \<open>\<open>Number(v)\<close> of a 64-bit integer: exact below \<open>2 ^ 53\<close>, rounded above.\<close>

definition number_of_bigint :: "64 word \<Rightarrow> int" where
  "number_of_bigint w = \<lfloor>rnd (of_int (sint w))\<rfloor>"

text \<open>Integer addition as the double it is: exact while the result stays safe.\<close>

definition int_add :: "int \<Rightarrow> int \<Rightarrow> int" where
  "int_add a b = \<lfloor>rnd (of_int (a + b))\<rfloor>"

lemma int_add_exact [simp]: "\<bar>a + b\<bar> \<le> 2 ^ 53 \<Longrightarrow> int_add a b = a + b"
  using rnd_of_int [of "a + b"] by (simp add: int_add_def del: rnd_of_int of_int_add)

end
