(* ===== verification/Rank.thy ===== *)
theory Rank
  imports JsNumber
begin

text \<open>
  \<open>packages/statistics/src/rank.ts\<close>: the one nearest-rank formula. The percentile is a double;
  its decimal expansion gives an exact fraction, and the only rounding left is one division.
\<close>

datatype stat_error =
    PercentileRange rat        \<comment> \<open>\<open>RangeError\<close> of \<open>nearestRankIndex\<close>\<close>
  | FrozenHistogram
  | CrossesOverflow int
  | LegacyNotSerializable
  | TruncatedVarint
  | UnsupportedVersion "int option"
  | EndpointCardinality "jstr list"
  | UnknownStatKey jstr
  | NotCallable jstr  \<comment> \<open>the \<open>TypeError\<close> of an inherited member called as a scalar metric\<close>
  | NotANumber jstr   \<comment> \<open>an inherited member that answers, but not with a number\<close>

definition rank_decimals :: "rat \<Rightarrow> nat" where
  "rank_decimals p = (case js_split 0x2E (js_num p) of _ # d # _ \<Rightarrow> length d | _ \<Rightarrow> 0)"

definition rank_num :: "rat \<Rightarrow> int" where
  "rank_num p = js_round (fmul p (of_int (10 ^ rank_decimals p)))"

definition rank_den :: "rat \<Rightarrow> rat" where
  "rank_den p = fmul 100 (of_int (10 ^ rank_decimals p))"

text \<open>The index; the range check only runs for a population.\<close>

definition nearestRankIndex :: "rat \<Rightarrow> int \<Rightarrow> stat_error + int" where
  "nearestRankIndex p n =
     (if n \<le> 0 then Inr (- 1)
      else if \<not> (0 \<le> p \<and> p \<le> 100) then Inl (PercentileRange p)
      else let rank = \<lceil>fdiv (fmul (of_int (rank_num p)) (of_int n)) (rank_den p)\<rceil>
        in Inr (min n (max 1 rank) - 1))"

section \<open>The division rounds to the same ceiling\<close>

lemma rnd_error:
  assumes "2 powi (- 1022) \<le> x"
  shows "\<bar>rnd x - x\<bar> \<le> x / 2 ^ 53"
proof -
  have pos: "0 < x" using assms powi2_pos [of "- 1022"] by linarith
  define u where "u = ulp_exp x"
  have "- 1022 \<le> floor_log2 x"
  proof (rule ccontr)
    assume "\<not> - 1022 \<le> floor_log2 x"
    then have "(2 :: rat) powi (floor_log2 x + 1) \<le> 2 powi (- 1022)" by (intro powi2_mono) simp
    with assms floor_log2_bounds [OF pos] show False by linarith
  qed
  then have u: "u = floor_log2 x - 52" using pos by (simp add: u_def ulp_exp_def)
  have "\<bar>of_int (round_half_even (x / 2 powi u)) - x / 2 powi u\<bar> \<le> 1 / 2"
    by (rule round_half_even_close)
  then have "\<bar>of_int (round_half_even (x / 2 powi u)) - x / 2 powi u\<bar> * 2 powi u \<le> 1 / 2 * 2 powi u"
    by (intro mult_right_mono) (simp_all add: less_imp_le)
  moreover have "rnd x - x = (of_int (round_half_even (x / 2 powi u)) - x / 2 powi u) * 2 powi u"
    using pos by (simp add: rnd_def u_def left_diff_distrib)
  ultimately have "\<bar>rnd x - x\<bar> \<le> 1 / 2 * 2 powi u" by (simp add: abs_mult)
  also have "1 / 2 * 2 powi u = (2 :: rat) powi floor_log2 x / 2 ^ 53"
    unfolding u by (simp add: power_int_diff)
  also have "\<dots> \<le> x / 2 ^ 53"
    using floor_log2_bounds [OF pos] by (simp add: divide_right_mono)
  finally show ?thesis .
qed

lemma ceil_fdiv:
  assumes "0 \<le> a" and "a < 2 ^ 53" and "0 < b" and "b \<le> 2 ^ 53"
  shows "\<lceil>fdiv (of_int a) (of_int b)\<rceil> = \<lceil>of_int a / (of_int b :: rat)\<rceil>"
proof (cases "a = 0")
  case True
  then show ?thesis by (simp add: fdiv_def)
next
  case False
  define x :: rat where "x = of_int a / of_int b"
  define k where "k = \<lceil>x\<rceil>"
  have b: "0 < (of_int b :: rat)" using assms(3) by simp
  have "1 / of_int b \<le> x" unfolding x_def using assms(1,3) False by (intro divide_right_mono) simp_all
  moreover have "(1 :: rat) / 2 ^ 53 \<le> 1 / of_int b"
    using assms(3,4) by (intro divide_left_mono) simp_all
  moreover have "(2 :: rat) powi (- 1022) \<le> 2 powi (- 53)" by (rule powi2_mono) simp
  ultimately have x: "2 powi (- 1022) \<le> x" by (simp add: power_int_minus field_simps)
  have k: "of_int (k - 1) < x" "x \<le> of_int k" unfolding k_def by linarith+
  have "x \<le> of_int a" unfolding x_def using assms(1,3) by (simp add: field_simps mult_le_cancel_left1)
  then have "k \<le> a" unfolding k_def by (simp add: ceiling_le_iff)
  have "0 \<le> k" using k(2) x powi2_pos [of "- 1022"] by linarith
  then have "\<bar>k\<bar> \<le> 2 ^ 53" using \<open>k \<le> a\<close> assms(2) by simp
  then have upper: "rnd x \<le> of_int k" using rnd_mono [OF k(2)] by simp
  have "of_int ((k - 1) * b) < x * of_int b" using k(1) b by simp
  moreover have "x * of_int b = of_int a" unfolding x_def using b by simp
  ultimately have "of_int ((k - 1) * b) < (of_int a :: rat)" by simp
  then have "(k - 1) * b < a" by (simp only: of_int_less_iff)
  then have "of_int ((k - 1) * b + 1) \<le> (of_int a :: rat)" by (simp only: of_int_le_iff)
  then have "of_int ((k - 1) * b + 1) / of_int b \<le> x"
    unfolding x_def using b by (intro divide_right_mono) simp_all
  then have "of_int (k - 1) + 1 / of_int b \<le> x"
    using b by (simp add: add_divide_distrib)
  moreover have "x / 2 ^ 53 < 1 / of_int b"
    unfolding x_def using assms(2) b by (simp add: field_simps)
  ultimately have "of_int (k - 1) < rnd x" using rnd_error [OF x] by linarith
  with upper have "\<lceil>rnd x\<rceil> = k" by linarith
  then show ?thesis by (simp add: fdiv_def x_def k_def)
qed

text \<open>
  \<open>Math.floor(a / b)\<close> of safe integers is the integer quotient: the rounding of the division
  never carries it over the next integer. The models of the time axis write \<open>a div b\<close>.
\<close>

lemma floor_fdiv_nonneg:
  assumes "0 < a" and "a < 2 ^ 53" and "0 < b" and "b \<le> 2 ^ 53"
  shows "\<lfloor>fdiv (of_int a) (of_int b)\<rfloor> = a div b"
proof -
  define x :: rat where "x = of_int a / of_int b"
  define q where "q = a div b"
  have b: "0 < (of_int b :: rat)" using assms(3) by simp
  have xb: "x * of_int b = of_int a" unfolding x_def using b by simp
  have "1 / of_int b \<le> x" unfolding x_def using assms(1,3) by (intro divide_right_mono) simp_all
  moreover have "(1 :: rat) / 2 ^ 53 \<le> 1 / of_int b"
    using assms(3,4) by (intro divide_left_mono) simp_all
  moreover have "(2 :: rat) powi (- 1022) \<le> 2 powi (- 53)" by (rule powi2_mono) simp
  ultimately have x: "2 powi (- 1022) \<le> x" by (simp add: power_int_minus field_simps)
  have "q \<le> a" unfolding q_def using assms by (simp add: zdiv_mono2 [of a 1 b, simplified])
  moreover have "0 \<le> q" unfolding q_def using assms(1,3) by (simp add: pos_imp_zdiv_nonneg_iff)
  ultimately have q: "\<bar>q\<bar> \<le> 2 ^ 53" using assms(2) by simp
  have "q * b \<le> a" using assms(3) by (simp add: q_def minus_mod_eq_div_mult [symmetric])
  then have "of_int (q * b) \<le> (of_int a :: rat)" by (simp only: of_int_le_iff)
  then have "of_int q \<le> x" unfolding x_def using b by (simp add: field_simps)
  from rnd_mono [OF this] q have lower: "of_int q \<le> rnd x" by simp
  have "a mod b < b" using assms(3) by simp
  then have "a + 1 \<le> (q + 1) * b"
    unfolding q_def distrib_right using div_mult_mod_eq [of a b] by linarith
  then have "of_int (a + 1) \<le> (of_int ((q + 1) * b) :: rat)" by (simp only: of_int_le_iff)
  then have "x + 1 / of_int b \<le> of_int (q + 1)" unfolding x_def using b by (simp add: field_simps)
  moreover have "x / 2 ^ 53 < 1 / of_int b"
    unfolding x_def using assms(2) b by (simp add: field_simps)
  ultimately have "rnd x < of_int (q + 1)" using rnd_error [OF x] by linarith
  with lower have "\<lfloor>rnd x\<rfloor> = q" by linarith
  then show ?thesis by (simp add: fdiv_def x_def q_def)
qed

lemma floor_fdiv:
  assumes "\<bar>a\<bar> < 2 ^ 53" and "0 < b" and "b \<le> 2 ^ 53"
  shows "\<lfloor>fdiv (of_int a) (of_int b)\<rfloor> = a div b"
proof -
  consider "0 < a" | "a = 0" | "a < 0" by linarith
  then show ?thesis
  proof cases
    case 1
    then show ?thesis using assms by (intro floor_fdiv_nonneg) simp_all
  next
    case 2
    then show ?thesis by (simp add: fdiv_def)
  next
    case 3
    have "fdiv (of_int a) (of_int b) = - fdiv (of_int (- a)) (of_int b)"
      by (simp add: fdiv_def)
    then have "\<lfloor>fdiv (of_int a) (of_int b)\<rfloor> = - \<lceil>fdiv (of_int (- a)) (of_int b)\<rceil>"
      by (simp add: floor_minus)
    also have "\<lceil>fdiv (of_int (- a)) (of_int b)\<rceil> = \<lceil>of_int (- a) / (of_int b :: rat)\<rceil>"
      using 3 assms by (intro ceil_fdiv) simp_all
    also have "- \<dots> = \<lfloor>of_int a / (of_int b :: rat)\<rfloor>"
      by (simp add: ceiling_def)
    also have "\<dots> = a div b" by (rule floor_divide_of_int_eq)
    finally show ?thesis .
  qed
qed

text \<open>The bounds under which every operation of the formula is exact but the division.\<close>

definition rank_safe :: "rat \<Rightarrow> int \<Rightarrow> bool" where
  "rank_safe p n \<longleftrightarrow> 0 \<le> rank_num p * n \<and> rank_num p * n < 2 ^ 53 \<and>
     rank_num p \<le> 2 ^ 53 \<and> 0 \<le> rank_num p \<and> rank_decimals p \<le> 13"

lemma pow10_le: "d \<le> 13 \<Longrightarrow> 100 * (10 :: int) ^ d \<le> 2 ^ 53"
proof -
  assume "d \<le> 13"
  then have "(10 :: int) ^ d \<le> 10 ^ 13" by (intro power_increasing) simp_all
  then show ?thesis by simp
qed

lemma nearestRankIndex_exact:
  assumes "0 < n" and "n \<le> 2 ^ 53" and "0 \<le> p" and "p \<le> 100" and "rank_safe p n"
  shows "nearestRankIndex p n = Inr (min n (max 1
    \<lceil>of_int (rank_num p * n) / (of_int (100 * 10 ^ rank_decimals p) :: rat)\<rceil>) - 1)"
proof -
  have den: "100 * (10 :: int) ^ rank_decimals p \<le> 2 ^ 53"
    using assms(5) by (intro pow10_le) (simp add: rank_safe_def)
  then have "rank_den p = of_int (100 * 10 ^ rank_decimals p)"
    using rnd_of_int [of "100 * 10 ^ rank_decimals p"] by (simp add: rank_den_def fmul_def)
  moreover have "fmul (of_int (rank_num p)) (of_int n) = of_int (rank_num p * n)"
    using rnd_of_int [of "rank_num p * n"] assms(5) by (simp add: fmul_def rank_safe_def)
  moreover have "\<lceil>fdiv (of_int (rank_num p * n)) (of_int (100 * 10 ^ rank_decimals p))\<rceil> =
      \<lceil>of_int (rank_num p * n) / (of_int (100 * 10 ^ rank_decimals p) :: rat)\<rceil>"
    using assms(5) den by (intro ceil_fdiv) (simp_all add: rank_safe_def)
  ultimately show ?thesis
    using assms(1,3,4) by (simp add: nearestRankIndex_def Let_def)
qed

lemma nearestRankIndex_range:
  assumes "nearestRankIndex p n = Inr i" and "0 < n"
  shows "0 \<le> i" and "i < n"
  using assms by (auto simp: nearestRankIndex_def Let_def split: if_splits)

lemma nearestRankIndex_empty [simp]: "n \<le> 0 \<Longrightarrow> nearestRankIndex p n = Inr (- 1)"
  by (simp add: nearestRankIndex_def)

text \<open>The percentile as an index, defined on every percentile in range.\<close>

definition rank_index :: "rat \<Rightarrow> int \<Rightarrow> int" where
  "rank_index p n = (case nearestRankIndex p n of Inr i \<Rightarrow> i | Inl _ \<Rightarrow> - 1)"

lemma nearestRankIndex_Inr: "0 \<le> p \<Longrightarrow> p \<le> 100 \<Longrightarrow> nearestRankIndex p n = Inr (rank_index p n)"
  by (auto simp: rank_index_def nearestRankIndex_def Let_def)

lemma rank_index_range: "0 \<le> p \<Longrightarrow> p \<le> 100 \<Longrightarrow> 0 < n \<Longrightarrow> 0 \<le> rank_index p n \<and> rank_index p n < n"
  using nearestRankIndex_range [OF nearestRankIndex_Inr] by blast

section \<open>The percentile as it is written\<close>

text \<open>The decimal \<open>a / 10 ^ d\<close>, written with \<open>d\<close> digits after the point.\<close>

fun frac_digits :: "nat \<Rightarrow> int \<Rightarrow> jstr" where
  "frac_digits 0 a = []"
| "frac_digits (Suc d) a = frac_digits d (a div 10) @ [0x30 + of_int (a mod 10)]"

definition decimal_text :: "int \<Rightarrow> nat \<Rightarrow> jstr" where
  "decimal_text a d = digs (a div 10 ^ d) @ (if d = 0 then [] else 0x2E # frac_digits d a)"

lemma digit_no_dot: "0 \<le> k \<Longrightarrow> k < 10 \<Longrightarrow> 0x30 + of_int k \<noteq> (0x2E :: 16 word)"
proof -
  assume "0 \<le> k" "k < 10"
  then have "k = 0 \<or> k = 1 \<or> k = 2 \<or> k = 3 \<or> k = 4 \<or> k = 5 \<or> k = 6 \<or> k = 7 \<or> k = 8 \<or> k = 9" by presburger
  then show ?thesis by (elim disjE) simp_all
qed

lemma digs_no_dot: "0 \<le> n \<Longrightarrow> 0x2E \<notin> set (digs n)"
proof (induction n rule: digs.induct)
  case (1 n)
  then show ?case using digit_no_dot [of n] digit_no_dot [of "n mod 10"] by (subst digs.simps) auto
qed

lemma frac_no_dot: "0x2E \<notin> set (frac_digits d a)"
  using digit_no_dot by (induction d arbitrary: a) force+

lemma frac_length [simp]: "length (frac_digits d a) = d"
  by (induction d arbitrary: a) auto

lemma js_split_none: "c \<notin> set s \<Longrightarrow> js_split c s = [s]"
  by (induction s) auto

lemma js_split_first: "c \<notin> set s \<Longrightarrow> js_split c (s @ c # t) = s # js_split c t"
  by (induction s) auto

lemma decimals_written:
  assumes "0 \<le> a" and "js_num p = decimal_text a d"
  shows "rank_decimals p = d"
proof -
  have "0x2E \<notin> set (digs (a div 10 ^ d))" using assms(1) by (intro digs_no_dot) (simp add: pos_imp_zdiv_nonneg_iff)
  then show ?thesis unfolding rank_decimals_def assms(2) decimal_text_def
    by (cases "d = 0") (simp_all add: js_split_first js_split_none frac_no_dot)
qed

text \<open>Scaling the double back up comes out next to the digits it was written with.\<close>

lemma scaled_back:
  assumes "0 \<le> a" and "a < 2 ^ 50" and "d \<le> 13"
  shows "js_round (fmul (rnd (of_int a / 10 ^ d)) (of_int (10 ^ d))) = a"
proof (cases "a = 0")
  case True
  then show ?thesis using js_round_of_int [of 0] by (simp add: fmul_def)
next
  case False
  define x :: rat where "x = of_int a / 10 ^ d"
  define y where "y = rnd x * 10 ^ d"
  have a: "1 \<le> (of_int a :: rat)" using assms(1) False by simp
  have "(10 :: rat) ^ d \<le> 10 ^ 13" using assms(3) by (intro power_increasing) simp_all
  then have "1 / 10 ^ 13 \<le> x" unfolding x_def using a by (intro frac_le) simp_all
  moreover have "(2 :: rat) powi (- 1022) \<le> 2 powi (- 50)" by (rule powi2_mono) simp
  ultimately have x: "2 powi (- 1022) \<le> x" by (simp add: power_int_minus)
  have "\<bar>rnd x - x\<bar> * 10 ^ d \<le> x / 2 ^ 53 * 10 ^ d" using rnd_error [OF x] by (intro mult_right_mono) simp_all
  moreover have "y - of_int a = (rnd x - x) * 10 ^ d" by (simp add: y_def x_def left_diff_distrib)
  then have "\<bar>y - of_int a\<bar> = \<bar>rnd x - x\<bar> * 10 ^ d" by (simp add: abs_mult)
  moreover have "x / 2 ^ 53 * 10 ^ d = of_int a / 2 ^ 53" by (simp add: x_def)
  ultimately have near: "\<bar>y - of_int a\<bar> \<le> of_int a / 2 ^ 53" by (simp only:)
  have "of_int a / 2 ^ 53 \<le> (of_int a / 2 :: rat)" using a by simp
  with near a have "1 / 2 \<le> y" by linarith
  moreover have "(2 :: rat) powi (- 1022) \<le> 2 powi (- 1)" by (rule powi2_mono) simp
  ultimately have "2 powi (- 1022) \<le> y" by (simp add: power_int_minus)
  then have "\<bar>rnd y - y\<bar> \<le> y / 2 ^ 53" by (rule rnd_error)
  moreover have "(of_int a :: rat) < 2 ^ 50" using assms(2) by (metis of_int_less_iff of_int_numeral of_int_power)
  then have eighth: "of_int a / 2 ^ 53 < (1 / 8 :: rat)" by simp
  moreover have "y / 2 ^ 53 \<le> (of_int a + 1) / 2 ^ 53" using near eighth by (intro divide_right_mono, linarith, simp)
  moreover have "(of_int a + 1) / 2 ^ 53 = of_int a / 2 ^ 53 + (1 / 2 ^ 53 :: rat)" by (rule add_divide_distrib)
  moreover have "(1 / 2 ^ 53 :: rat) < 1 / 8" by simp
  ultimately have "\<bar>rnd y - of_int a\<bar> < 1 / 2" using near by linarith
  then have "\<lfloor>rnd y + 1 / 2\<rfloor> = a" unfolding floor_eq_iff by linarith
  then show ?thesis by (simp add: js_round_def fmul_def y_def x_def)
qed

text \<open>
  C24: For a percentile written in decimal as \<open>a / 10 ^ d\<close> (the double nearest to it,
  which prints back with those \<open>d\<close> decimals), the floating-point formula returns the exact nearest rank
  of the written decimal, as long as \<open>a\<close> times the sample size stays below 2^53: the least index whose
  share of the population reaches the percentile, or the first position.
\<close>

theorem nearest_rank_is_exact:
  assumes "0 < n" and "n \<le> 2 ^ 53" and "0 \<le> a" and "a \<le> 100 * 10 ^ d" and "d \<le> 13" and "a * n < 2 ^ 53"
    and "p = rnd (of_int a / 10 ^ d)" and "js_num p = decimal_text a d"
  shows "\<exists>i. nearestRankIndex p n = Inr i \<and> 0 \<le> i \<and> i < n \<and>
    of_int a / 10 ^ d / 100 * of_int n \<le> (of_int (i + 1) :: rat) \<and>
    (0 < i \<longrightarrow> of_int i < of_int a / 10 ^ d / 100 * (of_int n :: rat))"
proof -
  let ?q = "of_int (a * n) / (of_int (100 * 10 ^ d) :: rat)"
  have small: "a < 2 ^ 50" using pow10_le [OF assms(5)] assms(4,5) power_increasing [of d 13 "10 :: int"] by simp
  have d: "rank_decimals p = d" by (rule decimals_written [OF assms(3,8)])
  then have num: "rank_num p = a" using scaled_back [OF assms(3) small assms(5)] by (simp add: rank_num_def assms(7))
  have "0 \<le> (of_int a / 10 ^ d :: rat)" using assms(3) by simp
  then have p0: "0 \<le> p" unfolding assms(7) by (rule rnd_nonneg)
  have "of_int a \<le> (of_int (100 * 10 ^ d) :: rat)" using assms(4) by (simp only: of_int_le_iff)
  then have le: "of_int a / 10 ^ d \<le> (100 :: rat)" by (simp add: field_simps)
  then have p: "p \<le> 100" unfolding assms(7) using rnd_mono [OF le] rnd_of_int [of 100] by simp
  have safe: "rank_safe p n" using assms(1,3,5,6) small by (simp add: rank_safe_def num d)
  have q: "of_int a / 10 ^ d / 100 * of_int n = ?q" by simp
  have "of_int a / 10 ^ d / 100 \<le> (1 :: rat)" using divide_right_mono [OF le, of 100] by simp
  then have "of_int a / 10 ^ d / 100 * of_int n \<le> 1 * (of_int n :: rat)"
    using assms(1) by (intro mult_right_mono) simp_all
  then have "\<lceil>?q\<rceil> \<le> n" unfolding q by (simp only: ceiling_le_iff mult_1)
  then have i: "nearestRankIndex p n = Inr (max 1 \<lceil>?q\<rceil> - 1)"
    using nearestRankIndex_exact [OF assms(1,2) p0 p safe] assms(1) by (simp add: num d)
  moreover have "?q \<le> of_int (max 1 \<lceil>?q\<rceil> - 1 + 1)" by linarith
  moreover have "0 < max 1 \<lceil>?q\<rceil> - 1 \<longrightarrow> of_int (max 1 \<lceil>?q\<rceil> - 1) < ?q" by linarith
  ultimately show ?thesis
    using nearestRankIndex_range [OF i assms(1)] unfolding q by blast
qed

text \<open>99.9, the double nearest to it, over a thousand values.\<close>

definition p999 :: rat where
  "p999 = rnd (999 / 10)"

lemma p999_text: "js_num p999 = decimal_text 999 1"
  by code_simp

theorem nearest_rank_is_exact_witness:
  "\<exists>i. nearestRankIndex p999 1000 = Inr i \<and> 0 \<le> i \<and> i < 1000 \<and>
    of_int 999 / 10 ^ 1 / 100 * of_int 1000 \<le> (of_int (i + 1) :: rat) \<and>
    (0 < i \<longrightarrow> of_int i < of_int 999 / 10 ^ 1 / 100 * (of_int 1000 :: rat))"
  by (rule nearest_rank_is_exact [OF _ _ _ _ _ _ _ p999_text]) (simp_all add: p999_def)

end
