(* ===== verification/Histogram.thy ===== *)
theory Histogram
  imports Rank
begin

text \<open>
  \<open>packages/statistics/src/histogram.ts\<close>: the exact, sparse, one-millisecond histogram. The
  bounds \<open>Infinity\<close> and \<open>-Infinity\<close> of an empty histogram, and the infinite cap of a new one,
  are \<open>None\<close>. Reading caches the sorted keys; \<open>hist_cache\<close> is that effect, and \<open>hist_ok\<close> says
  the cache is never stale. What a histogram denotes is a multiset of observations.
\<close>

record histogram =
  h_bins :: "(int, int) jmap"
  h_capMs :: "int option"
  h_exact :: bool
  h_total :: int
  h_sum :: int
  h_min :: "int option"
  h_max :: "int option"
  h_overflowCount :: int
  h_sortedKeys :: "int list option"
  h_version :: int
  h_frozen :: bool

definition new_histogram :: histogram where
  "new_histogram = \<lparr>h_bins = [], h_capMs = None, h_exact = True, h_total = 0, h_sum = 0,
     h_min = None, h_max = None, h_overflowCount = 0, h_sortedKeys = None, h_version = 0,
     h_frozen = False\<rparr>"

section \<open>Writing\<close>

fun opt_join :: "('a \<Rightarrow> 'a \<Rightarrow> 'a) \<Rightarrow> 'a option \<Rightarrow> 'a option \<Rightarrow> 'a option" where
  "opt_join f None b = b"
| "opt_join f a None = a"
| "opt_join f (Some a) (Some b) = Some (f a b)"

definition hist_bump :: "int \<Rightarrow> int \<Rightarrow> histogram \<Rightarrow> histogram" where
  "hist_bump v c h = (case jm_get (h_bins h) v of
      None \<Rightarrow> h\<lparr>h_sortedKeys := None, h_bins := jm_set v c (h_bins h)\<rparr>
    | Some d \<Rightarrow> h\<lparr>h_bins := jm_set v (d + c) (h_bins h)\<rparr>)"

definition hist_record :: "int \<Rightarrow> histogram \<Rightarrow> histogram" where
  "hist_record v h = (let h1 = h\<lparr>h_version := h_version h + 1, h_total := h_total h + 1,
       h_sum := h_sum h + v, h_min := opt_join min (Some v) (h_min h),
       h_max := opt_join max (Some v) (h_max h)\<rparr>
     in if (case h_capMs h of None \<Rightarrow> False | Some cap \<Rightarrow> cap < v)
        then h1\<lparr>h_overflowCount := h_overflowCount h + 1\<rparr>
        else hist_bump v 1 h1)"

definition hist_accept :: "rat \<Rightarrow> histogram \<Rightarrow> stat_error + histogram" where
  "hist_accept x h = (if h_frozen h then Inl FrozenHistogram
     else Inr (hist_record (max 0 (js_round x)) h))"

definition hist_absorb :: "histogram \<Rightarrow> histogram \<Rightarrow> histogram" where
  "hist_absorb g h =
     (let h1 = fold (\<lambda>(v, c). hist_bump v c) (h_bins g) (h\<lparr>h_version := h_version h + 1\<rparr>) in
      h1\<lparr>h_total := h_total h + h_total g, h_sum := h_sum h + h_sum g,
         h_overflowCount := h_overflowCount h + h_overflowCount g,
         h_min := opt_join min (h_min g) (h_min h), h_max := opt_join max (h_max g) (h_max h),
         h_exact := (h_exact h \<and> h_exact g), h_capMs := opt_join min (h_capMs h) (h_capMs g)\<rparr>)"

definition hist_merge :: "histogram \<Rightarrow> histogram \<Rightarrow> stat_error + histogram" where
  "hist_merge g h = (if h_frozen h then Inl FrozenHistogram else Inr (hist_absorb g h))"

definition hist_freeze :: "histogram \<Rightarrow> histogram" where
  "hist_freeze h = h\<lparr>h_frozen := True\<rparr>"

section \<open>Reading\<close>

definition hist_keys :: "histogram \<Rightarrow> int list" where
  "hist_keys h = (case h_sortedKeys h of
      None \<Rightarrow> js_sort (cmp_by id) (map fst (h_bins h))
    | Some ks \<Rightarrow> ks)"

definition hist_cache :: "histogram \<Rightarrow> histogram" where
  "hist_cache h = h\<lparr>h_sortedKeys := Some (hist_keys h)\<rparr>"

definition hist_min :: "histogram \<Rightarrow> int" where
  "hist_min h = (if h_total h = 0 then 0 else case h_min h of Some m \<Rightarrow> m | None \<Rightarrow> 0)"

definition hist_max :: "histogram \<Rightarrow> int" where
  "hist_max h = (if h_total h = 0 then 0 else case h_max h of Some m \<Rightarrow> m | None \<Rightarrow> 0)"

definition countAt :: "histogram \<Rightarrow> int \<Rightarrow> int" where
  "countAt h v = jm_get_or 0 (h_bins h) v"

definition hist_entries :: "histogram \<Rightarrow> (int \<times> int) list" where
  "hist_entries h = map (\<lambda>v. (v, countAt h v)) (hist_keys h)"

definition countBelow :: "int \<Rightarrow> histogram \<Rightarrow> stat_error + int" where
  "countBelow bound h =
     (if 0 < h_overflowCount h \<and> (case h_capMs h of None \<Rightarrow> False | Some cap \<Rightarrow> cap < bound)
      then Inl (CrossesOverflow bound)
      else Inr (\<Sum>(v, c) \<leftarrow> h_bins h. if v < bound then c else 0))"

subsection \<open>Percentiles in one walk\<close>

fun hist_targets :: "int \<Rightarrow> int \<Rightarrow> nat \<Rightarrow> rat list \<Rightarrow> stat_error + (int \<times> nat) list" where
  "hist_targets n answerable slot [] = Inr []"
| "hist_targets n answerable slot (p # ps) = (case nearestRankIndex p n of
      Inl e \<Rightarrow> Inl e
    | Inr i \<Rightarrow> (case hist_targets n answerable (Suc slot) ps of
        Inl e \<Rightarrow> Inl e
      | Inr ts \<Rightarrow> Inr (if i < 0 \<or> answerable \<le> i then ts else (i, slot) # ts)))"

fun hist_serve :: "int \<Rightarrow> int \<Rightarrow> (int \<times> nat) list \<Rightarrow> int option list \<Rightarrow>
    (int \<times> nat) list \<times> int option list" where
  "hist_serve seen v [] out = ([], out)"
| "hist_serve seen v ((i, s) # ts) out =
     (if i < seen then hist_serve seen v ts (out[s := Some v]) else ((i, s) # ts, out))"

fun hist_walk :: "(int \<Rightarrow> int) \<Rightarrow> int list \<Rightarrow> int \<Rightarrow> (int \<times> nat) list \<Rightarrow> int option list \<Rightarrow>
    (int \<times> nat) list \<times> int option list" where
  "hist_walk cnt [] seen ts out = (ts, out)"
| "hist_walk cnt (v # ks) seen ts out =
     (case hist_serve (seen + cnt v) v ts out of (ts', out') \<Rightarrow>
        if ts' = [] then ([], out') else hist_walk cnt ks (seen + cnt v) ts' out')"

definition hist_percentiles :: "rat list \<Rightarrow> histogram \<Rightarrow> stat_error + int option list" where
  "hist_percentiles ps h = (case hist_targets (h_total h) (h_total h - h_overflowCount h) 0 ps of
      Inl e \<Rightarrow> Inl e
    | Inr ts \<Rightarrow> if ts = [] then Inr (map (\<lambda>_. None) ps)
        else (case hist_walk (countAt h) (hist_keys h) 0 (js_sort (cmp_by fst) ts) (map (\<lambda>_. None) ps) of
          (rest, out) \<Rightarrow> Inr (fold (\<lambda>(i, s) out. out[s := Some (hist_max h)]) rest out)))"

definition hist_percentile :: "rat \<Rightarrow> histogram \<Rightarrow> stat_error + int option" where
  "hist_percentile p h = map_sum id hd (hist_percentiles [p] h)"

subsection \<open>Variance\<close>

definition hist_variance :: "histogram \<Rightarrow> rat" where
  "hist_variance h = (if h_total h = 0 then 0
     else let mean = fdiv (of_int (h_sum h)) (of_int (h_total h));
              dev = foldl (\<lambda>dev v. let d = fsub (of_int v) mean in
                fadd dev (fmul (fmul (of_int (countAt h v)) d) d)) 0 (hist_keys h)
          in fdiv dev (of_int (h_total h)))"

record histogram_snapshot =
  hs_total :: int
  hs_min :: int
  hs_max :: int
  hs_sum :: int
  hs_overflowCount :: int

definition hist_snapshot :: "histogram \<Rightarrow> histogram_snapshot" where
  "hist_snapshot h = \<lparr>hs_total = h_total h, hs_min = hist_min h, hs_max = hist_max h,
     hs_sum = h_sum h, hs_overflowCount = h_overflowCount h\<rparr>"

section \<open>The invariant\<close>

definition hist_ok :: "histogram \<Rightarrow> bool" where
  "hist_ok h \<longleftrightarrow> jm_ok (h_bins h) \<and> list_all (\<lambda>(v, c). 0 \<le> v \<and> 0 < c) (h_bins h) \<and>
     (case h_sortedKeys h of None \<Rightarrow> True | Some ks \<Rightarrow> ks = sort (map fst (h_bins h)))"

lemma hist_ok_new [simp]: "hist_ok new_histogram"
  by (simp add: hist_ok_def new_histogram_def)

lemma js_sort_id: "js_sort (cmp_by id) xs = sort xs"
  by (simp add: js_sort_by) (simp add: sort_key_def id_def)

lemma hist_keys_sorted: "hist_ok h \<Longrightarrow> hist_keys h = sort (map fst (h_bins h))"
  by (simp add: hist_ok_def hist_keys_def js_sort_id split: option.splits)

lemma hist_ok_cache [simp]: "hist_ok h \<Longrightarrow> hist_ok (hist_cache h)"
  using hist_keys_sorted [of h] by (simp add: hist_ok_def hist_cache_def)

lemma hist_ok_meta [simp]:
  "hist_ok (h\<lparr>h_version := a\<rparr>) = hist_ok h" "hist_ok (h\<lparr>h_total := b\<rparr>) = hist_ok h"
  "hist_ok (h\<lparr>h_sum := b\<rparr>) = hist_ok h" "hist_ok (h\<lparr>h_min := m\<rparr>) = hist_ok h"
  "hist_ok (h\<lparr>h_max := m\<rparr>) = hist_ok h" "hist_ok (h\<lparr>h_overflowCount := b\<rparr>) = hist_ok h"
  "hist_ok (h\<lparr>h_exact := e\<rparr>) = hist_ok h" "hist_ok (h\<lparr>h_capMs := m\<rparr>) = hist_ok h"
  "hist_ok (h\<lparr>h_frozen := e\<rparr>) = hist_ok h"
  by (simp_all add: hist_ok_def split: option.splits)

lemma map_fst_update_present:
  "map_of m k = Some d \<Longrightarrow> map fst (jm_set k v m) = map fst m"
  by (induction m) auto

lemma hist_ok_bump: "hist_ok h \<Longrightarrow> 0 \<le> v \<Longrightarrow> 0 < c \<Longrightarrow> hist_ok (hist_bump v c h)"
proof -
  assume h: "hist_ok h" "0 \<le> v" "0 < c"
  have all: "list_all (\<lambda>(v, c). 0 \<le> v \<and> 0 < c) (jm_set v d m)"
    if "list_all (\<lambda>(v, c). 0 \<le> v \<and> 0 < c) m" "0 < d"
    for d :: int and m
    using that h(2) by (induction m) auto
  show ?thesis
  proof (cases "jm_get (h_bins h) v")
    case None
    with h all show ?thesis by (simp add: hist_bump_def hist_ok_def)
  next
    case (Some d)
    then have "0 < d" using h(1) by (auto simp: hist_ok_def list_all_iff dest: map_of_SomeD)
    with Some h all show ?thesis
      by (simp add: hist_bump_def hist_ok_def map_fst_update_present split: option.splits)
  qed
qed

lemma hist_bump_fields [simp]:
  "h_total (hist_bump v c h) = h_total h" "h_sum (hist_bump v c h) = h_sum h"
  "h_min (hist_bump v c h) = h_min h" "h_max (hist_bump v c h) = h_max h"
  "h_overflowCount (hist_bump v c h) = h_overflowCount h" "h_exact (hist_bump v c h) = h_exact h"
  "h_capMs (hist_bump v c h) = h_capMs h" "h_frozen (hist_bump v c h) = h_frozen h"
  "h_version (hist_bump v c h) = h_version h"
  by (simp_all add: hist_bump_def split: option.splits)

lemma countAt_bump: "countAt (hist_bump v c h) w = countAt h w + (if w = v then c else 0)"
  by (simp add: countAt_def hist_bump_def jm_get_or_def split: option.splits)


lemma hist_frozen_bump: "fold (\<lambda>(v, c). hist_bump v c) bs h = h' \<Longrightarrow> h_frozen h' = h_frozen h"
  by (induction bs arbitrary: h) auto

lemma fold_bump_fields [simp]:
  "h_total (fold (\<lambda>(v, c). hist_bump v c) bs h) = h_total h"
  "h_version (fold (\<lambda>(v, c). hist_bump v c) bs h) = h_version h"
  "h_frozen (fold (\<lambda>(v, c). hist_bump v c) bs h) = h_frozen h"
  by (induction bs arbitrary: h) auto

lemma hist_ok_fold_bump:
  "list_all (\<lambda>(v, c). 0 \<le> v \<and> 0 < c) bs \<Longrightarrow> hist_ok h \<Longrightarrow> hist_ok (fold (\<lambda>(v, c). hist_bump v c) bs h)"
  by (induction bs arbitrary: h) (auto simp: hist_ok_bump)

lemma countAt_fold_bump:
  "jm_ok bs \<Longrightarrow> countAt (fold (\<lambda>(v, c). hist_bump v c) bs h) w = countAt h w + jm_get_or 0 bs w"
proof (induction bs arbitrary: h)
  case Nil
  then show ?case by (simp add: jm_get_or_def)
next
  case (Cons b bs)
  obtain v c where b: "b = (v, c)" by fastforce
  then have "v \<notin> fst ` set bs" "jm_ok bs" using Cons.prems by (auto simp: jm_ok_Cons)
  then have "jm_get bs v = None" by (simp add: map_of_eq_None_iff)
  with Cons.IH [OF \<open>jm_ok bs\<close>] show ?case
    by (simp add: b countAt_bump jm_get_or_def)
qed

lemma hist_ok_record [intro]: "hist_ok h \<Longrightarrow> 0 \<le> v \<Longrightarrow> hist_ok (hist_record v h)"
  by (simp add: hist_record_def Let_def hist_ok_bump split: option.splits)

lemma hist_ok_absorb [intro]: "hist_ok g \<Longrightarrow> hist_ok h \<Longrightarrow> hist_ok (hist_absorb g h)"
  unfolding hist_absorb_def Let_def hist_ok_meta
  by (rule hist_ok_fold_bump) (simp_all, simp add: hist_ok_def)

section \<open>The population a histogram denotes\<close>

text \<open>
  \<open>h\<close> is an exact histogram of the observations \<open>M\<close>.
\<close>

definition hist_rep :: "histogram \<Rightarrow> int multiset \<Rightarrow> bool" where
  "hist_rep h M \<longleftrightarrow> hist_ok h \<and> h_capMs h = None \<and> h_exact h \<and> h_overflowCount h = 0 \<and>
     (\<forall>v. countAt h v = int (count M v)) \<and> h_total h = int (size M) \<and> h_sum h = sum_mset M \<and>
     h_min h = (if M = {#} then None else Some (Min_mset M)) \<and>
     h_max h = (if M = {#} then None else Some (Max_mset M))"

lemma hist_rep_new: "hist_rep new_histogram {#}"
  by (simp add: hist_rep_def new_histogram_def countAt_def jm_get_or_def hist_ok_def)

lemma Min_Max_union:
  "M \<noteq> {#} \<Longrightarrow> N \<noteq> {#} \<Longrightarrow> Min_mset (M + N) = min (Min_mset M) (Min_mset N)"
  "M \<noteq> {#} \<Longrightarrow> N \<noteq> {#} \<Longrightarrow> Max_mset (M + N) = max (Max_mset M) (Max_mset N)" for M :: "int multiset"
  by (simp_all add: Min_Un Max_Un)

lemma hist_rep_record:
  assumes "hist_rep h M" and "0 \<le> v"
  shows "hist_rep (hist_record v h) (add_mset v M)"
proof -
  have "opt_join min (Some v) (h_min h) = Some (Min_mset (add_mset v M))"
    "opt_join max (Some v) (h_max h) = Some (Max_mset (add_mset v M))"
    using assms by (cases "M = {#}"; simp add: hist_rep_def)+
  then show ?thesis
    using assms by (auto simp: hist_rep_def hist_record_def Let_def countAt_bump hist_ok_bump)
      (auto simp: countAt_def)
qed

lemma hist_rep_absorb:
  assumes "hist_rep g N" and "hist_rep h M"
  shows "hist_rep (hist_absorb g h) (M + N)"
proof -
  have "opt_join min (h_min g) (h_min h) = (if M + N = {#} then None else Some (Min_mset (M + N)))"
    "opt_join max (h_max g) (h_max h) = (if M + N = {#} then None else Some (Max_mset (M + N)))"
    using assms Min_Max_union [of M N]
    by (cases "M = {#}"; cases "N = {#}"; simp add: hist_rep_def min.commute max.commute)+
  moreover have "countAt (hist_absorb g h) v = int (count (M + N) v)" for v
  proof -
    have "jm_ok (h_bins g)" using assms(1) by (simp add: hist_rep_def hist_ok_def)
    from countAt_fold_bump [OF this, of "h\<lparr>h_version := h_version h + 1\<rparr>" v]
    have "countAt (hist_absorb g h) v = countAt h v + countAt g v"
      by (simp add: hist_absorb_def Let_def countAt_def)
    then show ?thesis using assms by (simp add: hist_rep_def)
  qed
  moreover have "hist_ok (hist_absorb g h)" using assms by (auto simp: hist_rep_def)
  ultimately show ?thesis
    using assms by (simp add: hist_rep_def hist_absorb_def Let_def)
qed

lemma hist_rep_cache: "hist_rep h M \<Longrightarrow> hist_rep (hist_cache h) M"
  by (simp add: hist_rep_def) (simp add: hist_cache_def countAt_def)

lemma hist_rep_freeze: "hist_rep (hist_freeze h) M \<longleftrightarrow> hist_rep h M"
  by (simp add: hist_rep_def hist_freeze_def countAt_def)

text \<open>Every histogram of the same observations answers alike.\<close>

definition bins_rep :: "histogram \<Rightarrow> int multiset \<Rightarrow> bool" where
  "bins_rep h M \<longleftrightarrow> hist_ok h \<and> (\<forall>v. countAt h v = int (count M v))"

lemma hist_rep_bins: "hist_rep h M \<Longrightarrow> bins_rep h M"
  by (simp add: hist_rep_def bins_rep_def)

lemma bins_rep_keys: "bins_rep h M \<Longrightarrow> hist_keys h = sorted_list_of_set (set_mset M)"
proof -
  assume h: "bins_rep h M"
  then have "jm_ok (h_bins h)" "hist_keys h = sort (map fst (h_bins h))"
    by (auto simp: bins_rep_def hist_ok_def hist_keys_sorted)
  moreover have "v \<in> fst ` set (h_bins h) \<longleftrightarrow> v \<in># M" for v
  proof
    assume "v \<in> fst ` set (h_bins h)"
    then obtain c where c: "jm_get (h_bins h) v = Some c"
      by (metis map_of_eq_None_iff not_Some_eq)
    then have "0 < c" using h by (auto simp: bins_rep_def hist_ok_def list_all_iff dest: map_of_SomeD)
    moreover have "countAt h v = c" using c by (simp add: countAt_def jm_get_or_def)
    ultimately have "0 < int (count M v)" using h by (simp add: bins_rep_def)
    then show "v \<in># M" by simp
  next
    assume "v \<in># M"
    then have "countAt h v \<noteq> 0" using h by (simp add: bins_rep_def)
    then show "v \<in> fst ` set (h_bins h)"
      by (metis countAt_def jm_get_or_def map_of_eq_None_iff option.simps(4))
  qed
  then have "set (map fst (h_bins h)) = set_mset M" by auto
  ultimately show ?thesis
    by (metis jm_ok_def sorted_list_of_set_sort_remdups distinct_remdups_id)
qed

lemmas hist_rep_keys = bins_rep_keys [OF hist_rep_bins]


section \<open>The walk answers every rank\<close>

definition hist_expand :: "histogram \<Rightarrow> int list" where
  "hist_expand h = concat (map (\<lambda>v. replicate (nat (countAt h v)) v) (hist_keys h))"

abbreviation put_all :: "(int \<Rightarrow> 'a) \<Rightarrow> (int \<times> nat) list \<Rightarrow> 'a list \<Rightarrow> 'a list" where
  "put_all f \<equiv> fold (\<lambda>(i, s) out. out[s := f i])"

lemma hist_serve_eq:
  "sorted (map fst ts) \<Longrightarrow> hist_serve seen v ts out =
    (filter (\<lambda>(i, s). seen \<le> i) ts, put_all (\<lambda>_. Some v) (filter (\<lambda>(i, s). i < seen) ts) out)"
proof (induction ts arbitrary: out)
  case (Cons t ts)
  obtain i s where t: "t = (i, s)" by fastforce
  show ?case
  proof (cases "i < seen")
    case True
    with Cons show ?thesis by (simp add: t)
  next
    case False
    then have "\<forall>(j, s') \<in> set ts. seen \<le> j" using Cons.prems by (force simp: t)
    then have "filter (\<lambda>(i, s). seen \<le> i) ts = ts" "filter (\<lambda>(i, s). i < seen) ts = []"
      by (auto simp: filter_id_conv filter_empty_conv split_beta)
    with False show ?thesis by (simp add: t)
  qed
qed simp

lemma put_all_cong: "(\<And>i s. (i, s) \<in> set ts \<Longrightarrow> f i = g i) \<Longrightarrow> put_all f ts out = put_all g ts out"
  by (rule fold_cong) auto

lemma filter_sorted_split:
  assumes "sorted (map fst ts)" and "a \<le> b"
  shows "filter (\<lambda>(i, s). i < a) ts @ filter (\<lambda>(i, s). i < b) (filter (\<lambda>(i, s). a \<le> i) ts) =
    filter (\<lambda>(i, s). i < b) (ts :: (int \<times> nat) list)"
  using assms(1)
proof (induction ts)
  case (Cons t ts)
  obtain i s where t: "t = (i, s)" by fastforce
  show ?case
  proof (cases "i < a")
    case True
    with Cons assms(2) show ?thesis by (simp add: t)
  next
    case False
    then have "filter (\<lambda>(i, s). i < a) ts = []"
      using Cons.prems by (force simp: t filter_empty_conv)
    with False Cons show ?thesis by (simp add: t)
  qed
qed simp

lemma hist_walk_eq:
  assumes "sorted (map fst ts)" and "list_all (\<lambda>(i, s). seen \<le> i) ts" and "list_all (\<lambda>v. 0 \<le> cnt v) ks"
  defines "xs \<equiv> concat (map (\<lambda>v. replicate (nat (cnt v)) v) ks)"
  shows "hist_walk cnt ks seen ts out =
    (filter (\<lambda>(i, s). seen + int (length xs) \<le> i) ts,
     put_all (\<lambda>i. Some (xs ! nat (i - seen))) (filter (\<lambda>(i, s). i < seen + int (length xs)) ts) out)"
  using assms(1-3) unfolding xs_def
proof (induction ks arbitrary: seen ts out)
  case Nil
  then have "filter (\<lambda>(i, s). seen \<le> i) ts = ts" "filter (\<lambda>(i, s). i < seen) ts = []"
    by (auto intro!: filter_True filter_False simp: list_all_iff)
  then show ?case by simp
next
  case (Cons v ks)
  let ?c = "cnt v" and ?ys = "concat (map (\<lambda>v. replicate (nat (cnt v)) v) ks)"
  let ?ts = "filter (\<lambda>(i, s). seen + ?c \<le> i) ts"
  let ?out = "put_all (\<lambda>_. Some v) (filter (\<lambda>(i, s). i < seen + ?c) ts) out"
  let ?xs = "replicate (nat ?c) v @ ?ys"
  have c: "0 \<le> ?c" using Cons.prems(3) by simp
  have serve: "hist_serve (seen + ?c) v ts out = (?ts, ?out)"
    by (rule hist_serve_eq [OF Cons.prems(1)])
  have rest: "hist_walk cnt ks (seen + ?c) ?ts ?out =
      (filter (\<lambda>(i, s). seen + ?c + int (length ?ys) \<le> i) ?ts,
       put_all (\<lambda>i. Some (?ys ! nat (i - (seen + ?c)))) (filter (\<lambda>(i, s). i < seen + ?c + int (length ?ys)) ?ts) ?out)"
    using Cons.prems by (intro Cons.IH) (auto simp: sorted_filter list_all_iff)
  have "hist_walk cnt (v # ks) seen ts out = hist_walk cnt ks (seen + ?c) ?ts ?out"
  proof (cases "?ts = []")
    case True
    have "hist_walk cnt ks (seen + ?c) [] ?out = ([], ?out)" using rest unfolding True by simp
    then show ?thesis using serve True by simp
  next
    case False
    then show ?thesis using serve by simp
  qed
  also have "\<dots> = (filter (\<lambda>(i, s). seen + int (length ?xs) \<le> i) ts,
      put_all (\<lambda>i. Some (?xs ! nat (i - seen))) (filter (\<lambda>(i, s). i < seen + int (length ?xs)) ts) out)"
  proof -
    have A: "filter (\<lambda>(i, s). seen + ?c + int (length ?ys) \<le> i) ?ts = filter (\<lambda>(i, s). seen + int (length ?xs) \<le> i) ts"
      using c by (auto intro!: filter_cong)
    have B: "put_all (\<lambda>_. Some v) (filter (\<lambda>(i, s). i < seen + ?c) ts) out =
        put_all (\<lambda>i. Some (?xs ! nat (i - seen))) (filter (\<lambda>(i, s). i < seen + ?c) ts) out"
      using Cons.prems(2) by (intro put_all_cong) (auto simp: list_all_iff nth_append)
    have C: "put_all (\<lambda>i. Some (?ys ! nat (i - (seen + ?c)))) (filter (\<lambda>(i, s). i < seen + ?c + int (length ?ys)) ?ts) o' =
        put_all (\<lambda>i. Some (?xs ! nat (i - seen))) (filter (\<lambda>(i, s). i < seen + int (length ?xs)) ?ts) o'" for o'
    proof -
      have len: "seen + int (length ?xs) = seen + ?c + int (length ?ys)" using c by simp
      show ?thesis
        unfolding len using c
        by (intro put_all_cong) (auto simp: nth_append nat_diff_distrib' diff_diff_eq [symmetric])
    qed
    have D: "filter (\<lambda>(i, s). i < seen + ?c) ts @ filter (\<lambda>(i, s). i < seen + int (length ?xs)) ?ts =
        filter (\<lambda>(i, s). i < seen + int (length ?xs)) ts"
      using c by (intro filter_sorted_split [OF Cons.prems(1)]) simp
    show ?thesis
      unfolding rest unfolding A B C unfolding D [symmetric] fold_append by simp
  qed
  finally show ?case by simp
qed

lemma put_all_nth:
  assumes "distinct (map snd ts)" and "k < length out"
  shows "put_all f ts out ! k = (case map_of (map prod.swap ts) k of Some i \<Rightarrow> f i | None \<Rightarrow> out ! k)"
  using assms
proof (induction ts arbitrary: out)
  case (Cons t ts)
  obtain i s where t: "t = (i, s)" by fastforce
  then have "s \<notin> snd ` set ts" using Cons.prems by simp
  then have "map_of (map prod.swap ts) s = None"
    by (force simp: map_of_eq_None_iff)
  with Cons show ?case
    by (auto simp: t split: option.splits)
qed simp

lemma length_put_all [simp]: "length (put_all f ts out) = length out"
  by (induction ts arbitrary: out) auto


section \<open>What the percentiles are\<close>

definition in_range :: "rat \<Rightarrow> bool" where
  "in_range p \<longleftrightarrow> 0 \<le> p \<and> p \<le> 100"

fun wanted :: "int \<Rightarrow> int \<Rightarrow> nat \<Rightarrow> rat list \<Rightarrow> (int \<times> nat) list" where
  "wanted n ans slot [] = []"
| "wanted n ans slot (p # ps) = (let i = rank_index p n in
     (if i < 0 \<or> ans \<le> i then [] else [(i, slot)]) @ wanted n ans (Suc slot) ps)"

lemma hist_targets_wanted:
  "list_all in_range ps \<Longrightarrow> hist_targets n ans slot ps = Inr (wanted n ans slot ps)"
  by (induction ps arbitrary: slot) (simp_all add: in_range_def nearestRankIndex_Inr Let_def)

lemma wanted_slots: "(i, s) \<in> set (wanted n ans slot ps) \<Longrightarrow> slot \<le> s \<and> 0 \<le> i \<and> i < ans"
  by (induction ps arbitrary: slot) (fastforce simp: Let_def split: if_splits)+

lemma distinct_wanted: "distinct (map snd (wanted n ans slot ps))"
proof (induction ps arbitrary: slot)
  case (Cons p ps)
  have "slot \<notin> snd ` set (wanted n ans (Suc slot) ps)"
    using wanted_slots [of _ _ n ans "Suc slot" ps] by fastforce
  with Cons [of "Suc slot"] show ?case by (simp add: Let_def)
qed simp

lemma wanted_mem:
  "k < length ps \<Longrightarrow> (i, slot + k) \<in> set (wanted n ans slot ps) \<longleftrightarrow>
     i = rank_index (ps ! k) n \<and> 0 \<le> i \<and> i < ans"
proof (induction ps arbitrary: slot k)
  case (Cons p ps)
  show ?case
  proof (cases k)
    case 0
    have "(i, slot) \<notin> set (wanted n ans (Suc slot) ps)"
      using wanted_slots [of i slot n ans "Suc slot" ps] by auto
    with 0 show ?thesis by (auto simp: Let_def)
  next
    case (Suc j)
    with Cons.IH [of j "Suc slot"] Cons.prems show ?thesis by (auto simp: Let_def)
  qed
qed simp

lemma option_char: "(\<And>i. m = Some i \<longleftrightarrow> i = j \<and> P i) \<Longrightarrow> m = (if P j then Some j else None)"
  by (cases m) auto

lemma map_of_swap_sort:
  assumes "distinct (map snd ts)"
  shows "map_of (map prod.swap (js_sort c ts)) k = Some i \<longleftrightarrow> (i, k) \<in> set ts"
proof -
  have "distinct (map fst (map prod.swap (js_sort c ts)))"
    using assms by (simp add: comp_def)
  then have "map_of (map prod.swap (js_sort c ts)) k = Some i \<longleftrightarrow> (k, i) \<in> set (map prod.swap (js_sort c ts))"
    by (rule map_of_eq_Some_iff)
  also have "\<dots> \<longleftrightarrow> (i, k) \<in> set ts" by force
  finally show ?thesis .
qed

text \<open>
  The ranks below the overflow get their value, the others none; a rank is an index into the
  observations in ascending order.
\<close>

lemma hist_percentiles_eq:
  assumes ok: "hist_ok h" and ps: "list_all in_range ps"
    and len: "h_total h - h_overflowCount h = int (length (hist_expand h))"
  shows "hist_percentiles ps h = Inr (map (\<lambda>p. let i = rank_index p (h_total h) in
    if 0 \<le> i \<and> i < int (length (hist_expand h)) then Some (hist_expand h ! nat i) else None) ps)"
proof -
  let ?xs = "hist_expand h" and ?n = "h_total h"
  let ?ts = "wanted ?n (int (length ?xs)) 0 ps" and ?out = "map (\<lambda>_. None) ps :: int option list"
  let ?ss = "js_sort (cmp_by fst) ?ts"
  have cnt: "list_all (\<lambda>v. 0 \<le> countAt h v) (hist_keys h)"
    using ok by (auto simp: list_all_iff countAt_def jm_get_or_def hist_ok_def
        split: option.splits dest!: map_of_SomeD)
  have srt: "sorted (map fst ?ss)" by (simp add: js_sort_by)
  have nonneg: "list_all (\<lambda>(i, s). 0 \<le> i) ?ss" and below: "list_all (\<lambda>(i, s). i < int (length ?xs)) ?ss"
    using wanted_slots [of _ _ ?n "int (length ?xs)" 0 ps] by (auto simp: list_all_iff)
  have filters: "filter (\<lambda>(i, s). 0 + int (length ?xs) \<le> i) ?ss = []"
    "filter (\<lambda>(i, s). i < 0 + int (length ?xs)) ?ss = ?ss"
    using below by (auto simp: filter_empty_conv filter_id_conv list_all_iff split_beta)
  have walk: "hist_walk (countAt h) (hist_keys h) 0 ?ss ?out =
      ([], put_all (\<lambda>i. Some (?xs ! nat i)) ?ss ?out)"
    using hist_walk_eq [OF srt nonneg cnt, of ?out] filters unfolding hist_expand_def by simp
  have "hist_percentiles ps h = Inr (put_all (\<lambda>i. Some (?xs ! nat i)) ?ss ?out)"
    using hist_targets_wanted [OF ps] walk by (simp add: hist_percentiles_def len)
  also have "put_all (\<lambda>i. Some (?xs ! nat i)) ?ss ?out = map (\<lambda>p. let i = rank_index p ?n in
      if 0 \<le> i \<and> i < int (length ?xs) then Some (?xs ! nat i) else None) ps"
  proof (rule nth_equalityI)
    fix k
    assume "k < length (put_all (\<lambda>i. Some (?xs ! nat i)) ?ss ?out)"
    then have k: "k < length ps" by simp
    have "put_all (\<lambda>i. Some (?xs ! nat i)) ?ss ?out ! k =
        (case map_of (map prod.swap ?ss) k of Some i \<Rightarrow> Some (?xs ! nat i) | None \<Rightarrow> ?out ! k)"
      using k by (intro put_all_nth) (simp_all add: distinct_wanted)
    moreover have "map_of (map prod.swap ?ss) k = Some i \<longleftrightarrow>
        i = rank_index (ps ! k) ?n \<and> 0 \<le> i \<and> i < int (length ?xs)" for i
      using map_of_swap_sort [OF distinct_wanted] wanted_mem [of k ps i 0] k by simp
    then have "map_of (map prod.swap ?ss) k = (let i = rank_index (ps ! k) ?n in
        if 0 \<le> i \<and> i < int (length ?xs) then Some i else None)"
      unfolding Let_def by (rule option_char)
    ultimately show "put_all (\<lambda>i. Some (?xs ! nat i)) ?ss ?out ! k = map (\<lambda>p. let i = rank_index p ?n in
        if 0 \<le> i \<and> i < int (length ?xs) then Some (?xs ! nat i) else None) ps ! k"
      using k by (simp add: Let_def)
  qed simp
  finally show ?thesis .
qed

lemma count_concat_replicate:
  "distinct ks \<Longrightarrow> count (mset (concat (map (\<lambda>v. replicate (f v) v) ks))) v = (if v \<in> set ks then f v else 0)"
  by (induction ks) auto

lemma sorted_concat_replicate:
  "sorted ks \<Longrightarrow> sorted (concat (map (\<lambda>v. replicate (f v) v) ks))" for ks :: "int list"
  by (induction ks) (auto simp: sorted_append sorted_replicate)

lemma bins_rep_expand:
  assumes "bins_rep h M"
  shows "hist_expand h = sorted_list_of_multiset M"
proof -
  have ks: "hist_keys h = sorted_list_of_set (set_mset M)" by (rule bins_rep_keys [OF assms])
  have "mset (hist_expand h) = M"
  proof (rule multiset_eqI)
    fix v
    show "count (mset (hist_expand h)) v = count M v"
      using assms unfolding hist_expand_def ks
      by (subst count_concat_replicate) (auto simp: bins_rep_def not_in_iff)
  qed
  moreover have "sorted (hist_expand h)"
    unfolding hist_expand_def ks by (rule sorted_concat_replicate) simp
  ultimately show ?thesis
    by (metis sorted_list_of_multiset_mset sorted_sort_id)
qed

lemmas hist_rep_expand = bins_rep_expand [OF hist_rep_bins]

lemma hist_rep_percentiles:
  assumes "hist_rep h M" and "list_all in_range ps"
  shows "hist_percentiles ps h = Inr (map (\<lambda>p. if M = {#} then None
    else Some (sorted_list_of_multiset M ! nat (rank_index p (int (size M))))) ps)"
proof -
  have x: "hist_expand h = sorted_list_of_multiset M" by (rule hist_rep_expand [OF assms(1)])
  have len: "length (sorted_list_of_multiset M) = size M"
    by (metis mset_sorted_list_of_multiset size_mset)
  have "hist_percentiles ps h = Inr (map (\<lambda>p. let i = rank_index p (h_total h) in
      if 0 \<le> i \<and> i < int (length (hist_expand h)) then Some (hist_expand h ! nat i) else None) ps)"
    using assms by (intro hist_percentiles_eq) (simp_all add: hist_rep_def x len)
  also have "\<dots> = Inr (map (\<lambda>p. if M = {#} then None
      else Some (sorted_list_of_multiset M ! nat (rank_index p (int (size M))))) ps)"
  proof -
    have "h_total h = int (size M)" using assms(1) by (simp add: hist_rep_def)
    moreover have "0 \<le> rank_index p (int (size M)) \<and> rank_index p (int (size M)) < int (size M)"
      if "p \<in> set ps" "M \<noteq> {#}" for p
      using assms(2) that by (intro rank_index_range) (auto simp: list_all_iff in_range_def nonempty_has_size [symmetric])
    ultimately show ?thesis
      using len by (auto simp: x Let_def)
  qed
  finally show ?thesis .
qed


section \<open>Counts, sums and deviations\<close>

lemma sum_bins:
  assumes "bins_rep h M"
  shows "(\<Sum>(v, c) \<leftarrow> h_bins h. if P v then c else 0) = int (size (filter_mset P M))"
proof -
  have ok: "jm_ok (h_bins h)" using assms by (simp add: bins_rep_def hist_ok_def)
  have dom: "set (map fst (h_bins h)) = set_mset M"
    using bins_rep_keys [OF assms] hist_keys_sorted [of h] assms
    by (metis finite_set_mset bins_rep_def set_sort sorted_list_of_set.set_sorted_key_list_of_set)
  have "(\<Sum>(v, c) \<leftarrow> h_bins h. if P v then c else 0) = (\<Sum>v \<leftarrow> map fst (h_bins h). if P v then countAt h v else 0)"
  proof -
    have "countAt h v = c" if "(v, c) \<in> set (h_bins h)" for v c
      using ok that by (simp add: countAt_def jm_get_or_def jm_ok_def)
    then show ?thesis
      unfolding map_map by (intro arg_cong [where f = sum_list] map_cong) auto
  qed
  also have "\<dots> = (\<Sum>v \<in> set (map fst (h_bins h)). if P v then countAt h v else 0)"
    using ok by (intro sum_list_distinct_conv_sum_set) (simp add: jm_ok_def)
  also have "\<dots> = (\<Sum>v \<in> set_mset M. int (count (filter_mset P M) v))"
    unfolding dom using assms by (intro sum.cong) (auto simp: bins_rep_def)
  also have "\<dots> = int (size (filter_mset P M))"
    unfolding size_multiset_overloaded_eq of_nat_sum
    by (intro sum.mono_neutral_cong_right) (auto simp: not_in_iff)
  finally show ?thesis .
qed

lemma hist_rep_countBelow:
  "hist_rep h M \<Longrightarrow> countBelow b h = Inr (int (size (filter_mset (\<lambda>v. v < b) M)))"
  using sum_bins [OF hist_rep_bins, of h M "\<lambda>v. v < b"] by (simp add: countBelow_def hist_rep_def)

lemma foldl_cong_on:
  "(\<And>a x. x \<in> set xs \<Longrightarrow> f a x = g a x) \<Longrightarrow> foldl f a xs = foldl g a xs"
  by (rule foldl_cong) auto

lemma hist_rep_variance:
  assumes "hist_rep h M" and "hist_rep g M"
  shows "hist_variance h = hist_variance g"
proof -
  have "countAt h = countAt g" using assms by (simp add: hist_rep_def fun_eq_iff)
  then show ?thesis
    using assms hist_rep_keys [OF assms(1)] hist_rep_keys [OF assms(2)]
    by (simp add: hist_variance_def hist_rep_def)
qed

lemma fmul_square_nonneg: "0 \<le> c \<Longrightarrow> 0 \<le> fmul (fmul c d) d"
proof (cases "0 \<le> d")
  case True
  moreover assume "0 \<le> c"
  ultimately show ?thesis by (simp add: fmul_def rnd_nonneg)
next
  case False
  assume "0 \<le> c"
  then have "0 \<le> rnd (c * - d)" using False by (intro rnd_nonneg) (simp add: mult_nonneg_nonpos)
  then have "rnd (c * d) \<le> 0" by simp
  then show ?thesis using False by (simp add: fmul_def rnd_nonneg mult_nonpos_nonpos)
qed

lemma hist_variance_nonneg: "hist_ok h \<Longrightarrow> 0 \<le> h_total h \<Longrightarrow> 0 \<le> hist_variance h"
proof -
  assume h: "hist_ok h" "0 \<le> h_total h"
  have cnt: "0 \<le> countAt h v" for v
    using h(1) by (auto simp: countAt_def jm_get_or_def hist_ok_def list_all_iff
        split: option.splits dest!: map_of_SomeD)
  have "0 \<le> foldl (\<lambda>dev v. let d = fsub (of_int v) m in fadd dev (fmul (fmul (of_int (countAt h v)) d) d)) a ks"
    if "0 \<le> a" for a m ks
    using that
    by (induction ks arbitrary: a) (simp_all add: Let_def fadd_def rnd_nonneg fmul_square_nonneg cnt)
  then show ?thesis
    using h(2) by (simp add: hist_variance_def Let_def) (simp add: fdiv_def rnd_nonneg)
qed

lemma hist_rep_extremes:
  assumes "hist_rep h M" and "M \<noteq> {#}"
  shows "hist_min h = Min_mset M" and "hist_max h = Max_mset M"
  using assms by (simp_all add: hist_rep_def hist_min_def hist_max_def)

text \<open>
  Two histograms of the same observations cannot be told apart by any reader.
\<close>

definition same_answers :: "histogram \<Rightarrow> histogram \<Rightarrow> bool" where
  "same_answers h g \<longleftrightarrow> hist_snapshot h = hist_snapshot g \<and> hist_entries h = hist_entries g \<and>
     hist_variance h = hist_variance g \<and> (\<forall>b. countBelow b h = countBelow b g) \<and>
     (\<forall>ps. list_all in_range ps \<longrightarrow> hist_percentiles ps h = hist_percentiles ps g)"

lemma hist_rep_same_answers:
  assumes "hist_rep h M" and "hist_rep g M"
  shows "same_answers h g"
proof -
  have "countAt h = countAt g" using assms by (simp add: hist_rep_def fun_eq_iff)
  then show ?thesis
    using assms hist_rep_variance [OF assms] hist_rep_keys [OF assms(1)] hist_rep_keys [OF assms(2)]
      hist_rep_percentiles [OF assms(1)] hist_rep_percentiles [OF assms(2)]
      hist_rep_countBelow [OF assms(1)] hist_rep_countBelow [OF assms(2)]
    by (simp add: same_answers_def hist_snapshot_def hist_entries_def hist_rep_def hist_min_def hist_max_def)
qed

section \<open>Populations built in parts\<close>

text \<open>
  The contract a mergeable sketch offers its clients: recording adds an observation, absorbing
  adds a population. Every client of the statistics package that keeps one sketch per series,
  bucket or cohort and merges them at the end relies on no more than this.
\<close>

locale population =
  fixes empty :: 's
    and observe :: "'a \<Rightarrow> 's \<Rightarrow> 's"
    and absorb :: "'s \<Rightarrow> 's \<Rightarrow> 's"
    and rep :: "'s \<Rightarrow> 'a multiset \<Rightarrow> bool"
    and valid :: "'a \<Rightarrow> bool"
  assumes rep_empty: "rep empty {#}"
    and rep_observe: "rep s M \<Longrightarrow> valid v \<Longrightarrow> rep (observe v s) (add_mset v M)"
    and rep_absorb: "rep g N \<Longrightarrow> rep s M \<Longrightarrow> rep (absorb g s) (M + N)"
begin

lemma rep_fold: "list_all valid vs \<Longrightarrow> rep s M \<Longrightarrow> rep (fold observe vs s) (M + mset vs)"
proof (induction vs arbitrary: s M)
  case (Cons v vs)
  from Cons.IH [of "observe v s" "add_mset v M"] Cons.prems show ?case
    by (simp add: rep_observe)
qed simp

lemma rep_list: "list_all valid vs \<Longrightarrow> rep (fold observe vs empty) (mset vs)"
  using rep_fold [OF _ rep_empty] by simp

lemma rep_absorb_all:
  "list_all2 rep gs Ns \<Longrightarrow> rep s M \<Longrightarrow> rep (fold absorb gs s) (M + sum_list Ns)"
proof (induction gs Ns arbitrary: s M rule: list_all2_induct)
  case (Cons g gs N Ns)
  from Cons.IH [OF rep_absorb [OF Cons.hyps(1) Cons.prems]] show ?case by (simp add: add.assoc)
qed simp

lemma rep_parts:
  assumes "list_all (list_all valid) parts"
  shows "rep (fold absorb (map (\<lambda>vs. fold observe vs empty) parts) empty) (mset (concat parts))"
proof -
  have "list_all2 rep (map (\<lambda>vs. fold observe vs empty) parts) (map mset parts)"
    using assms by (induction parts) (simp_all add: rep_list)
  from rep_absorb_all [OF this rep_empty] show ?thesis by (simp add: mset_concat)
qed

end

interpretation hist: population new_histogram hist_record hist_absorb hist_rep "\<lambda>v. 0 \<le> v"
  by unfold_locales (simp_all add: hist_rep_new hist_rep_record hist_rep_absorb)

text \<open>The observation as \<open>accept\<close> keys it: rounded half up, and never negative.\<close>

definition clampMs :: "rat \<Rightarrow> int" where
  "clampMs x = max 0 (js_round x)"

lemma clampMs_simps [simp]:
  "clampMs (of_int k) = max 0 k" "clampMs (numeral n) = numeral n" "clampMs 0 = 0" "clampMs 1 = 1"
  using js_round_of_int [of "numeral n"] js_round_of_int [of 0] js_round_of_int [of 1]
  by (simp_all add: clampMs_def)

fun accept_all :: "rat list \<Rightarrow> histogram \<Rightarrow> stat_error + histogram" where
  "accept_all [] h = Inr h"
| "accept_all (x # xs) h = (case hist_accept x h of Inl e \<Rightarrow> Inl e | Inr h' \<Rightarrow> accept_all xs h')"

fun merge_all :: "histogram list \<Rightarrow> histogram \<Rightarrow> stat_error + histogram" where
  "merge_all [] h = Inr h"
| "merge_all (g # gs) h = (case hist_merge g h of Inl e \<Rightarrow> Inl e | Inr h' \<Rightarrow> merge_all gs h')"

lemma frozen_record [simp]: "h_frozen (hist_record v h) = h_frozen h"
  by (simp add: hist_record_def Let_def)

lemma frozen_absorb [simp]: "h_frozen (hist_absorb g h) = h_frozen h"
  by (simp add: hist_absorb_def Let_def)

lemma frozen_new [simp]: "\<not> h_frozen new_histogram"
  by (simp add: new_histogram_def)

lemma frozen_fold_record [simp]: "h_frozen (fold hist_record vs h) = h_frozen h"
  by (induction vs arbitrary: h) simp_all

lemma accept_all_fold: "\<not> h_frozen h \<Longrightarrow> accept_all xs h = Inr (fold hist_record (map clampMs xs) h)"
  by (induction xs arbitrary: h) (simp_all add: hist_accept_def clampMs_def)

lemma merge_all_fold: "\<not> h_frozen h \<Longrightarrow> merge_all gs h = Inr (fold hist_absorb gs h)"
  by (induction gs arbitrary: h) (simp_all add: hist_merge_def)

section \<open>Properties\<close>

text \<open>
  C10: Whatever was accepted and merged, in whatever order and
  parts, every percentile the histogram answers in its one walk is the observation at the
  nearest rank of the sorted population, in the caller's order; an empty one answers none.
\<close>

theorem percentiles_are_nearest_rank:
  assumes "list_all in_range ps"
    and "merge_all (map (\<lambda>xs. fold hist_record (map clampMs xs) new_histogram) parts) new_histogram = Inr h"
  shows "hist_percentiles ps h = Inr (map (\<lambda>p. if concat parts = [] then None
    else Some (sort (map clampMs (concat parts)) ! nat (rank_index p (int (length (concat parts)))))) ps)"
proof -
  have h: "h = fold hist_absorb (map (\<lambda>vs. fold hist_record vs new_histogram) (map (map clampMs) parts)) new_histogram"
    using assms(2) by (simp add: merge_all_fold comp_def)
  have "hist_rep h (mset (map clampMs (concat parts)))"
    unfolding h map_concat by (rule hist.rep_parts) (simp add: list_all_iff clampMs_def)
  from hist_rep_percentiles [OF this assms(1), unfolded sorted_list_of_multiset_mset] show ?thesis
    by (simp del: concat_eq_Nil_conv)
qed

theorem percentiles_are_nearest_rank_witness:
  "hist_percentiles [100, 50] (fold hist_absorb [hist_record 7 (hist_record 3 new_histogram)] new_histogram) =
    Inr (map (\<lambda>p. if concat [[3, 7 :: rat]] = [] then None
      else Some (sort (map clampMs (concat [[3, 7]])) ! nat (rank_index p (int (length (concat [[3 :: rat, 7]])))))) [100, 50])"
  by (rule percentiles_are_nearest_rank)
    (simp_all add: in_range_def merge_all_fold del: merge_all.simps)

text \<open>
  C22: A histogram merged from parts and one fed every observation directly
  give the same answer to every reader: counts, extremes, entries, bands, percentiles, and the
  variance to the last bit, although its sum is over floating-point terms.
\<close>

theorem merging_is_batching:
  assumes "accept_all (concat parts) new_histogram = Inr batch"
    and "list_all2 (\<lambda>xs g. accept_all xs new_histogram = Inr g) parts gs"
    and "merge_all gs new_histogram = Inr merged"
  shows "same_answers merged batch"
proof -
  have gs: "gs = map (\<lambda>vs. fold hist_record vs new_histogram) (map (map clampMs) parts)"
    using assms(2) by (induction rule: list_all2_induct) (simp_all add: accept_all_fold)
  have m: "merged = fold hist_absorb gs new_histogram"
    using assms(3) by (simp add: merge_all_fold)
  have "hist_rep merged (mset (concat (map (map clampMs) parts)))"
    unfolding m gs by (rule hist.rep_parts) (simp add: list_all_iff clampMs_def)
  moreover have "hist_rep batch (mset (map clampMs (concat parts)))"
    using assms(1) hist.rep_list [of "map clampMs (concat parts)"]
    by (simp add: accept_all_fold list_all_iff clampMs_def)
  ultimately show ?thesis by (intro hist_rep_same_answers) (simp_all add: map_concat)
qed

theorem merging_is_batching_witness:
  "same_answers (fold hist_absorb [fold hist_record [5] new_histogram, fold hist_record [1, 5] new_histogram] new_histogram)
    (fold hist_record [5, 1, 5] new_histogram)"
  by (rule merging_is_batching [where parts = "[[5], [1, 5]]"
        and gs = "[fold hist_record [5] new_histogram, fold hist_record [1, 5] new_histogram]"])
    (simp_all add: accept_all_fold merge_all_fold del: merge_all.simps accept_all.simps)

end
