(* ===== verification/HistogramCodec.thy ===== *)
theory HistogramCodec
  imports Histogram
begin

text \<open>
  The stored form of a histogram (\<open>histogram.ts\<close>): \<open>writeUvarint\<close>, \<open>readUvarint\<close>, \<open>serialize\<close>
  (always \<open>sparse-ms-v2\<close>) and \<open>deserialize\<close>, which also reads the capped rows written before
  (\<open>sparse-ms-v1\<close>). A cursor over the buffer is the list of the bytes not read yet.
\<close>

section \<open>Variable-length integers\<close>

function writeUvarint :: "int \<Rightarrow> byte list" where
  "writeUvarint v = (if 128 \<le> v then word_of_int (v mod 128 + 128) # writeUvarint (v div 128)
     else [word_of_int v])"
  by pat_completeness auto
termination by (relation "measure nat") auto

declare writeUvarint.simps [simp del]

fun readUvarint_loop :: "int \<Rightarrow> int \<Rightarrow> byte list \<Rightarrow> stat_error + (int \<times> byte list)" where
  "readUvarint_loop acc shift [] = Inl TruncatedVarint"
| "readUvarint_loop acc shift (b # bs) =
     (let acc' = acc + (uint b mod 128) * shift in
      if uint b < 128 then Inr (acc', bs) else readUvarint_loop acc' (shift * 128) bs)"

definition readUvarint :: "byte list \<Rightarrow> stat_error + (int \<times> byte list)" where
  "readUvarint = readUvarint_loop 0 1"

lemma uvarint_byte:
  "0 \<le> v \<Longrightarrow> v < 128 \<Longrightarrow> uint (word_of_int v :: byte) = v"
  "128 \<le> v \<Longrightarrow> uint (word_of_int (v mod 128 + 128) :: byte) = v mod 128 + 128"
  by (simp_all only: uint_word_of_int len_num1 len_bit0 len_bit1) (simp_all add: mod_pos_pos_trivial)

lemma readUvarint_loop_write:
  "0 \<le> v \<Longrightarrow> readUvarint_loop a s (writeUvarint v @ t) = Inr (a + v * s, t)"
proof (induction v arbitrary: a s rule: writeUvarint.induct)
  case (1 v)
  show ?case
  proof (cases "128 \<le> v")
    case True
    have v: "v mod 128 * s + v div 128 * (s * 128) = v * s"
      using div_mult_mod_eq [of v 128] by (metis (no_types) distrib_right mult.assoc mult.commute add.commute)
    have m: "(v mod 128 < 0) = False" by (simp add: not_less)
    from 1(1) [OF True] True show ?thesis
      by (subst writeUvarint.simps) (simp add: uvarint_byte add.assoc v m Let_def del: of_int_add)
  next
    case False
    with 1(2) show ?thesis by (subst writeUvarint.simps) (simp add: uvarint_byte)
  qed
qed

lemma readUvarint_write [simp]: "0 \<le> v \<Longrightarrow> readUvarint (writeUvarint v @ t) = Inr (v, t)"
  by (simp add: readUvarint_def readUvarint_loop_write)

section \<open>Rows\<close>

definition legacy_cap :: int where
  "legacy_cap = 120000"

fun writeEntries :: "int \<Rightarrow> (int \<times> int) list \<Rightarrow> byte list" where
  "writeEntries prev [] = []"
| "writeEntries prev ((v, c) # es) = writeUvarint (v - prev) @ writeUvarint c @ writeEntries v es"

definition hist_serialize :: "histogram \<Rightarrow> stat_error + byte list" where
  "hist_serialize h = (if 0 < h_overflowCount h then Inl LegacyNotSerializable
     else let es = hist_entries h in
       Inr ([2] @ writeUvarint (int (length es)) @ writeEntries 0 es @ writeUvarint (h_total h) @
         writeUvarint (h_sum h) @ writeUvarint (hist_min h) @ writeUvarint (hist_max h)))"

definition bind_sum :: "'e + 'a \<Rightarrow> ('a \<Rightarrow> 'e + 'b) \<Rightarrow> 'e + 'b" where
  "bind_sum m f = (case m of Inl e \<Rightarrow> Inl e | Inr x \<Rightarrow> f x)"

lemma bind_sum_simps [simp]: "bind_sum (Inl e) f = Inl e" "bind_sum (Inr x) f = f x"
  by (simp_all add: bind_sum_def)

fun readEntries :: "nat \<Rightarrow> int \<Rightarrow> (int, int) jmap \<Rightarrow> byte list \<Rightarrow> stat_error + ((int, int) jmap \<times> byte list)" where
  "readEntries 0 prev bins buf = Inr (bins, buf)"
| "readEntries (Suc k) prev bins buf =
     bind_sum (readUvarint buf) (\<lambda>(d, buf). bind_sum (readUvarint buf) (\<lambda>(c, buf).
       readEntries k (prev + d) (jm_set (prev + d) c bins) buf))"

definition hist_deserialize :: "byte list \<Rightarrow> stat_error + histogram" where
  "hist_deserialize buf = (case buf of
      [] \<Rightarrow> Inl (UnsupportedVersion None)
    | version # rest \<Rightarrow>
      if version \<noteq> 1 \<and> version \<noteq> 2 then Inl (UnsupportedVersion (Some (uint version)))
      else bind_sum (if version = 1 then map_sum id (map_prod Some id) (readUvarint rest)
                     else Inr (None, rest)) (\<lambda>(cap, buf).
        bind_sum (readUvarint buf) (\<lambda>(n, buf).
        bind_sum (readEntries (nat n) 0 [] buf) (\<lambda>(bins, buf).
        bind_sum (readUvarint buf) (\<lambda>(total, buf).
        bind_sum (readUvarint buf) (\<lambda>(sum, buf).
        bind_sum (if version = 1 then readUvarint buf else Inr (0, buf)) (\<lambda>(overflow, buf).
        bind_sum (readUvarint buf) (\<lambda>(lo, buf).
        bind_sum (readUvarint buf) (\<lambda>(hi, buf).
          Inr (new_histogram\<lparr>h_capMs := cap, h_exact := (version \<noteq> 1), h_bins := bins,
            h_total := total, h_sum := sum, h_overflowCount := overflow,
            h_min := (if total = 0 then None else Some lo),
            h_max := (if total = 0 then None else Some hi)\<rparr>))))))))))"

text \<open>
  The v1 writer, kept by the source to make old rows: values over the cap are counted, not kept.
\<close>

record v1_state =
  v1_bins :: "(int, int) jmap"
  v1_overflow :: int
  v1_sum :: int
  v1_min :: "int option"
  v1_max :: "int option"

definition v1_step :: "rat \<Rightarrow> v1_state \<Rightarrow> v1_state" where
  "v1_step raw s = (let v = clampMs raw;
     s1 = s\<lparr>v1_sum := v1_sum s + v, v1_min := opt_join min (v1_min s) (Some v),
            v1_max := opt_join max (v1_max s) (Some v)\<rparr> in
     if legacy_cap < v then s1\<lparr>v1_overflow := v1_overflow s + 1\<rparr>
     else s1\<lparr>v1_bins := jm_set v (jm_get_or 0 (v1_bins s) v + 1) (v1_bins s)\<rparr>)"

definition legacyV1ForTests :: "rat list \<Rightarrow> byte list" where
  "legacyV1ForTests values =
     (let s = fold v1_step values \<lparr>v1_bins = [], v1_overflow = 0, v1_sum = 0, v1_min = None, v1_max = None\<rparr>;
          es = js_sort (cmp_by fst) (v1_bins s);
          opt0 = (\<lambda>m. case m of None \<Rightarrow> 0 | Some v \<Rightarrow> v)
      in [1] @ writeUvarint legacy_cap @ writeUvarint (int (length es)) @ writeEntries 0 es @
         writeUvarint (int (length values)) @ writeUvarint (v1_sum s) @ writeUvarint (v1_overflow s) @
         writeUvarint (if values = [] then 0 else opt0 (v1_min s)) @
         writeUvarint (if values = [] then 0 else opt0 (v1_max s)))"

section \<open>Reading what was written\<close>

fun ascending_from :: "int \<Rightarrow> (int \<times> int) list \<Rightarrow> bool" where
  "ascending_from prev [] = True"
| "ascending_from prev ((v, c) # es) = (prev \<le> v \<and> 0 < c \<and> ascending_from (v + 1) es)"

lemma ascending_from_mono: "ascending_from b es \<Longrightarrow> a \<le> b \<Longrightarrow> ascending_from a es"
  by (cases es) auto

lemma ascending_from_keys: "ascending_from prev es \<Longrightarrow> (v, c) \<in> set es \<Longrightarrow> prev \<le> v \<and> 0 < c"
  by (induction es arbitrary: prev) fastforce+

lemma ascending_from_distinct: "ascending_from prev es \<Longrightarrow> distinct (map fst es)"
  by (induction es arbitrary: prev) (fastforce dest: ascending_from_keys)+

lemma update_append_new: "k \<notin> fst ` set m \<Longrightarrow> jm_set k v m = m @ [(k, v)]"
  by (induction m) auto

lemma readEntries_write:
  "ascending_from prev es \<Longrightarrow> p \<le> prev \<Longrightarrow> list_all (\<lambda>(v, c). v < prev) bins \<Longrightarrow>
   readEntries (length es) p bins (writeEntries p es @ t) = Inr (bins @ es, t)"
proof (induction es arbitrary: prev p bins)
  case (Cons e es)
  obtain v c where e: "e = (v, c)" by fastforce
  have v: "prev \<le> v" "0 < c" "ascending_from (v + 1) es" using Cons.prems by (simp_all add: e)
  have "v \<notin> fst ` set bins" using Cons.prems(3) v(1) by (fastforce simp: list_all_iff)
  then have set: "jm_set v c bins = bins @ [(v, c)]" by (rule update_append_new)
  have "readEntries (length es) v (bins @ [(v, c)]) (writeEntries v es @ t) = Inr ((bins @ [(v, c)]) @ es, t)"
    using Cons.prems(3) v by (intro Cons.IH [of "v + 1"]) (auto simp: list_all_iff)
  then show ?case using v Cons.prems(2) by (simp add: e set)
qed simp

lemma readEntries_written:
  "ascending_from 0 es \<Longrightarrow> readEntries (length es) 0 [] (writeEntries 0 es @ t) = Inr (es, t)"
  using readEntries_write [of 0 es 0 "[]" t] by simp

lemma ascending_entries:
  assumes "sorted ks" and "distinct ks" and "list_all (\<lambda>v. prev \<le> v \<and> 0 < f v) ks"
  shows "ascending_from prev (map (\<lambda>v. (v, f v)) ks)"
  using assms
proof (induction ks arbitrary: prev)
  case (Cons k ks)
  then have "list_all (\<lambda>v. k + 1 \<le> v \<and> 0 < f v) ks"
  proof -
    have "k + 1 \<le> v \<and> 0 < f v" if "v \<in> set ks" for v
      using Cons.prems that by (cases "k = v") (auto simp: list_all_iff)
    then show ?thesis by (simp add: list_all_iff)
  qed
  with Cons show ?case by simp
qed simp

lemma bins_rep_entries:
  assumes "bins_rep h M"
  shows "hist_entries h = map (\<lambda>v. (v, int (count M v))) (sorted_list_of_set (set_mset M))"
  using assms bins_rep_keys [OF assms] by (simp add: hist_entries_def bins_rep_def)

lemma bins_rep_ascending:
  assumes "bins_rep h M"
  shows "ascending_from 0 (hist_entries h)"
proof -
  have "0 \<le> v" if "v \<in># M" for v
  proof -
    have "v \<in> set (hist_keys h)" using that bins_rep_keys [OF assms] by simp
    then obtain c where "(v, c) \<in> set (h_bins h)"
      using assms hist_keys_sorted [of h] by (auto simp: bins_rep_def)
    then show ?thesis using assms by (auto simp: bins_rep_def hist_ok_def list_all_iff)
  qed
  then show ?thesis
    unfolding bins_rep_entries [OF assms] by (intro ascending_entries) (auto simp: list_all_iff)
qed

lemma bins_rep_of_entries:
  assumes "jm_ok bins" and "\<And>v c. (v, c) \<in> set bins \<Longrightarrow> 0 \<le> v \<and> 0 < c"
    and "\<And>v. jm_get_or 0 bins v = int (count M v)"
  shows "bins_rep (h\<lparr>h_bins := bins, h_sortedKeys := None\<rparr>) M"
  using assms by (auto simp: bins_rep_def hist_ok_def countAt_def list_all_iff)


text \<open>Distinct keys with positive counts are the bins of the multiset they spell out.\<close>

lemma jm_get_or_entries:
  assumes "bins_rep h M"
  shows "jm_get_or 0 (hist_entries h) v = int (count M v)"
proof -
  have "map_of (map (\<lambda>v. (v, f v)) ks) v = (if v \<in> set ks then Some (f v) else None)"
    for f :: "int \<Rightarrow> int" and ks
    by (induction ks) auto
  then show ?thesis
    unfolding bins_rep_entries [OF assms] by (auto simp: jm_get_or_def not_in_iff)
qed

lemma bins_rep_read:
  assumes "bins_rep h M"
  shows "bins_rep (g\<lparr>h_bins := hist_entries h, h_sortedKeys := None\<rparr>) M"
  using bins_rep_ascending [OF assms]
  by (intro bins_rep_of_entries) (auto simp: jm_ok_def ascending_from_distinct jm_get_or_entries [OF assms]
      dest: ascending_from_keys)

lemma sum_mset_nonneg_int: "(\<And>v. v \<in># M \<Longrightarrow> 0 \<le> v) \<Longrightarrow> 0 \<le> sum_mset M" for M :: "int multiset"
  by (induction M) auto

lemma hist_roundtrip:
  assumes "hist_rep h M"
  shows "\<exists>bs g. hist_serialize h = Inr bs \<and> (\<forall>t. hist_deserialize (bs @ t) = Inr g) \<and> hist_rep g M \<and> \<not> h_frozen g"
proof -
  let ?es = "hist_entries h"
  note rep = hist_rep_bins [OF assms]
  have nonneg: "0 \<le> v" if "v \<in># M" for v
  proof -
    have "(v, int (count M v)) \<in> set ?es" using that by (simp add: bins_rep_entries [OF rep])
    then show ?thesis using ascending_from_keys [OF bins_rep_ascending [OF rep]] by blast
  qed
  have tot: "0 \<le> h_total h" "0 \<le> h_sum h" "0 \<le> hist_min h" "0 \<le> hist_max h"
    using assms nonneg Min_in [of "set_mset M"] Max_in [of "set_mset M"]
    by (auto simp: hist_rep_def hist_min_def hist_max_def intro!: sum_mset_nonneg_int)
  have read: "hist_deserialize (([2] @ writeUvarint (int (length ?es)) @ writeEntries 0 ?es @
      writeUvarint (h_total h) @ writeUvarint (h_sum h) @ writeUvarint (hist_min h) @
      writeUvarint (hist_max h)) @ t) =
    Inr (new_histogram\<lparr>h_capMs := None, h_exact := True, h_bins := ?es, h_total := h_total h,
      h_sum := h_sum h, h_overflowCount := 0, h_min := (if h_total h = 0 then None else Some (hist_min h)),
      h_max := (if h_total h = 0 then None else Some (hist_max h))\<rparr>)" for t
    using tot readEntries_written [OF bins_rep_ascending [OF rep]]
    by (simp add: hist_deserialize_def)
  have "bins_rep (new_histogram\<lparr>h_bins := ?es\<rparr>) M"
    using bins_rep_read [OF rep, of new_histogram] by (simp add: new_histogram_def)
  then have "hist_rep (new_histogram\<lparr>h_capMs := None, h_exact := True, h_bins := ?es, h_total := h_total h,
      h_sum := h_sum h, h_overflowCount := 0, h_min := (if h_total h = 0 then None else Some (hist_min h)),
      h_max := (if h_total h = 0 then None else Some (hist_max h))\<rparr>) M"
    using assms by (auto simp: hist_rep_def bins_rep_def hist_ok_def new_histogram_def countAt_def
        hist_min_def hist_max_def)
  moreover from assms have "\<not> 0 < h_overflowCount h" by (simp add: hist_rep_def)
  ultimately show ?thesis using read
    unfolding hist_serialize_def Let_def by (intro exI conjI allI) (auto simp: new_histogram_def)
qed


section \<open>Legacy rows\<close>

definition small_part :: "rat list \<Rightarrow> int list" where
  "small_part xs = filter (\<lambda>v. v \<le> legacy_cap) (map clampMs xs)"

definition v1_rep :: "v1_state \<Rightarrow> int list \<Rightarrow> bool" where
  "v1_rep s vs \<longleftrightarrow> jm_ok (v1_bins s) \<and> list_all (\<lambda>(v, c). 0 \<le> v \<and> 0 < c) (v1_bins s) \<and>
     (\<forall>v. jm_get_or 0 (v1_bins s) v = int (count (mset (filter (\<lambda>v. v \<le> legacy_cap) vs)) v)) \<and>
     v1_overflow s = int (length vs) - int (length (filter (\<lambda>v. v \<le> legacy_cap) vs)) \<and>
     v1_sum s = sum_list vs \<and>
     v1_min s = (if vs = [] then None else Some (Min (set vs))) \<and>
     v1_max s = (if vs = [] then None else Some (Max (set vs)))"

lemma list_all_update:
  "list_all P m \<Longrightarrow> P (k, v) \<Longrightarrow> list_all P (jm_set k v m)"
  by (induction m) auto

lemma v1_rep_step: "v1_rep s vs \<Longrightarrow> v1_rep (v1_step x s) (vs @ [clampMs x])"
proof -
  assume s: "v1_rep s vs"
  have v: "0 \<le> clampMs x" by (simp add: clampMs_def)
  have "opt_join min (v1_min s) (Some (clampMs x)) = Some (Min (set (vs @ [clampMs x])))"
    "opt_join max (v1_max s) (Some (clampMs x)) = Some (Max (set (vs @ [clampMs x])))"
    using s by (cases "vs = []"; simp add: v1_rep_def min.commute max.commute)+
  with s v show ?thesis
    by (simp add: v1_rep_def v1_step_def Let_def jm_get_or_set list_all_update)
qed

lemma v1_rep_fold: "v1_rep s vs \<Longrightarrow> v1_rep (fold v1_step xs s) (vs @ map clampMs xs)"
proof (induction xs arbitrary: s vs)
  case (Cons x xs)
  from Cons.IH [OF v1_rep_step [OF Cons.prems]] show ?case by simp
qed simp

lemma v1_bins_entries:
  assumes "v1_rep s vs"
  defines "h \<equiv> new_histogram\<lparr>h_bins := v1_bins s\<rparr>"
  shows "bins_rep h (mset (filter (\<lambda>v. v \<le> legacy_cap) vs))"
    and "js_sort (cmp_by fst) (v1_bins s) = hist_entries h"
proof -
  have ok: "jm_ok (v1_bins s)" using assms(1) by (simp add: v1_rep_def)
  show rep: "bins_rep h (mset (filter (\<lambda>v. v \<le> legacy_cap) vs))"
    using assms(1) by (simp add: bins_rep_def hist_ok_def countAt_def v1_rep_def h_def new_histogram_def)
  have "map (\<lambda>v. (v, countAt h v)) (map fst (js_sort (cmp_by fst) (v1_bins s))) = js_sort (cmp_by fst) (v1_bins s)"
    using ok by (auto simp: map_idI comp_def countAt_def jm_get_or_def h_def jm_ok_def intro!: map_idI)
  moreover have "map fst (js_sort (cmp_by fst) (v1_bins s)) = sort (map fst (v1_bins s))"
    by (rule properties_for_sort [symmetric]) (simp_all add: js_sort_by)
  ultimately show "js_sort (cmp_by fst) (v1_bins s) = hist_entries h"
    using rep hist_keys_sorted [of h] by (simp add: hist_entries_def bins_rep_def h_def)
qed


lemma legacy_read:
  "\<exists>h. hist_deserialize (legacyV1ForTests xs) = Inr h \<and> bins_rep h (mset (small_part xs)) \<and>
     h_total h = int (length xs) \<and> h_overflowCount h = int (length xs) - int (length (small_part xs)) \<and>
     h_capMs h = Some legacy_cap \<and> \<not> h_exact h"
proof -
  define s where "s = fold v1_step xs \<lparr>v1_bins = [], v1_overflow = 0, v1_sum = 0, v1_min = None, v1_max = None\<rparr>"
  define vs where "vs = map clampMs xs"
  have rep: "v1_rep s vs"
    using v1_rep_fold [of "\<lparr>v1_bins = [], v1_overflow = 0, v1_sum = 0, v1_min = None, v1_max = None\<rparr>" "[]" xs]
    by (simp add: s_def vs_def v1_rep_def jm_get_or_def)
  define h where "h = new_histogram\<lparr>h_bins := v1_bins s\<rparr>"
  note bins = v1_bins_entries [OF rep, folded h_def]
  have len: "length (v1_bins s) = length (hist_entries h)" by (metis bins(2) length_js_sort)
  have vs0: "0 \<le> v" if "v \<in> set vs" for v using that by (auto simp: vs_def clampMs_def)
  have nonneg: "0 \<le> v1_sum s" "0 \<le> v1_overflow s"
    "0 \<le> (case v1_min s of None \<Rightarrow> 0 | Some v \<Rightarrow> v)" "0 \<le> (case v1_max s of None \<Rightarrow> 0 | Some v \<Rightarrow> v)"
    using rep vs0 Min_in [of "set vs"] Max_in [of "set vs"]
    by (auto simp: v1_rep_def length_filter_le intro: sum_list_nonneg)
  let ?g = "new_histogram\<lparr>h_capMs := Some legacy_cap, h_exact := False, h_bins := hist_entries h,
      h_total := int (length xs), h_sum := v1_sum s, h_overflowCount := v1_overflow s,
      h_min := (if int (length xs) = 0 then None else Some (if xs = [] then 0 else case v1_min s of None \<Rightarrow> 0 | Some v \<Rightarrow> v)),
      h_max := (if int (length xs) = 0 then None else Some (if xs = [] then 0 else case v1_max s of None \<Rightarrow> 0 | Some v \<Rightarrow> v))\<rparr>"
  have "hist_deserialize (legacyV1ForTests xs) = Inr ?g"
    using nonneg readEntries_written [OF bins_rep_ascending [OF bins(1)]]
      readUvarint_write [of "case v1_max s of None \<Rightarrow> 0 | Some v \<Rightarrow> v" "[]"] readUvarint_write [of 0 "[]"]
    by (simp add: legacyV1ForTests_def hist_deserialize_def bins(2) len legacy_cap_def s_def [symmetric] Let_def)
  moreover have "bins_rep ?g (mset (small_part xs))"
    using bins_rep_read [OF bins(1), of new_histogram]
    by (simp add: bins_rep_def hist_ok_def countAt_def small_part_def vs_def new_histogram_def)
  ultimately show ?thesis
    using rep by (auto simp: v1_rep_def small_part_def vs_def new_histogram_def)
qed

lemma small_part_sort:
  "sort (map clampMs xs) = sort (small_part xs) @ sort (filter (\<lambda>v. legacy_cap < v) (map clampMs xs))"
proof (rule properties_for_sort)
  show "mset (sort (small_part xs) @ sort (filter (\<lambda>v. legacy_cap < v) (map clampMs xs))) = mset (map clampMs xs)"
    using multiset_partition [of "mset (map clampMs xs)" "\<lambda>v. v \<le> legacy_cap"]
    by (simp add: small_part_def not_le)
  show "sorted (sort (small_part xs) @ sort (filter (\<lambda>v. legacy_cap < v) (map clampMs xs)))"
    by (auto simp: sorted_append small_part_def)
qed

section \<open>Properties\<close>

text \<open>
  The histograms that the program makes: everything reached from a new one by \<open>accept\<close> and \<open>merge\<close>, with
  readers in between (which keep the sorted keys), shared ones (\<open>freeze\<close>), and what was read back before.
\<close>

inductive built :: "histogram \<Rightarrow> bool" where
  built_new: "built new_histogram"
| built_accept: "built h \<Longrightarrow> hist_accept x h = Inr h' \<Longrightarrow> built h'"
| built_merge: "built h \<Longrightarrow> built g \<Longrightarrow> hist_merge g h = Inr h' \<Longrightarrow> built h'"
| built_cache: "built h \<Longrightarrow> built (hist_cache h)"
| built_freeze: "built h \<Longrightarrow> built (hist_freeze h)"
| built_read: "built h \<Longrightarrow> hist_serialize h = Inr bs \<Longrightarrow> hist_deserialize (bs @ rest) = Inr g \<Longrightarrow> built g"

lemma hist_accept_rep: "hist_rep h M \<Longrightarrow> hist_accept x h = Inr h' \<Longrightarrow> hist_rep h' (add_mset (clampMs x) M)"
  by (auto simp: hist_accept_def clampMs_def hist_rep_record split: if_splits)

lemma hist_merge_rep: "hist_rep g N \<Longrightarrow> hist_rep h M \<Longrightarrow> hist_merge g h = Inr h' \<Longrightarrow> hist_rep h' (M + N)"
  by (auto simp: hist_merge_def hist_rep_absorb split: if_splits)

lemma accept_all_rep: "hist_rep h M \<Longrightarrow> accept_all xs h = Inr h' \<Longrightarrow> hist_rep h' (M + mset (map clampMs xs))"
proof (induction xs arbitrary: h M)
  case (Cons x xs)
  then obtain h1 where "hist_accept x h = Inr h1" "accept_all xs h1 = Inr h'" by (auto split: sum.splits)
  with Cons.IH [OF hist_accept_rep [OF Cons.prems(1)]] show ?case by simp
qed simp

lemma built_rep: "built h \<Longrightarrow> \<exists>M. hist_rep h M"
proof (induction rule: built.induct)
  case (built_read h bs rest g)
  then obtain M where "hist_rep h M" by blast
  from hist_roundtrip [OF this] built_read.hyps show ?case by force
qed (blast intro: hist_rep_new hist_accept_rep hist_merge_rep hist_rep_cache hist_rep_freeze [THEN iffD2])+

text \<open>The same fields, up to the write counter, the order of the bins in the map, and the key cache.\<close>

definition same_state :: "histogram \<Rightarrow> histogram \<Rightarrow> bool" where
  "same_state g h \<longleftrightarrow> h_capMs g = h_capMs h \<and> h_exact g = h_exact h \<and> h_total g = h_total h \<and> h_sum g = h_sum h \<and>
     h_min g = h_min h \<and> h_max g = h_max h \<and> h_overflowCount g = h_overflowCount h \<and>
     (\<forall>v. jm_get (h_bins g) v = jm_get (h_bins h) v) \<and> hist_keys g = hist_keys h"

lemma bins_get:
  assumes "hist_ok h"
  shows "jm_get (h_bins h) v = (if countAt h v = 0 then None else Some (countAt h v))"
  using assms by (cases "jm_get (h_bins h) v")
    (auto simp: hist_ok_def countAt_def jm_get_or_def list_all_iff dest!: map_of_SomeD)

lemma rep_same_state: "hist_rep g M \<Longrightarrow> hist_rep h M \<Longrightarrow> same_state g h"
  using hist_rep_keys [of g M] hist_rep_keys [of h M] by (simp add: hist_rep_def same_state_def bins_get not_in_iff)

text \<open>
  C20: A histogram filled by \<open>accept\<close> and \<open>merge\<close> and written by \<open>serialize\<close> reads back,
  from a buffer that may go on after it, with the fields it had: the bins with their counts and key order,
  total, sum, minimum, maximum, no cap, no overflow and exact, up to the write counter, the order of the map
  and the key cache. It is not frozen, and it takes every later \<open>accept\<close> and \<open>merge\<close> that the original takes, with the
  same outcome.
\<close>

theorem histogram_roundtrip:
  assumes "built h"
  shows "\<exists>bs g. hist_serialize h = Inr bs \<and> (\<forall>rest. hist_deserialize (bs @ rest) = Inr g) \<and>
    same_state g h \<and> h_exact g \<and> h_capMs g = None \<and> \<not> h_frozen g \<and>
    (\<forall>xs h'. accept_all xs h = Inr h' \<longrightarrow> (\<exists>g'. accept_all xs g = Inr g' \<and> same_state g' h')) \<and>
    (\<forall>k h'. built k \<and> hist_merge k h = Inr h' \<longrightarrow> (\<exists>g'. hist_merge k g = Inr g' \<and> same_state g' h'))"
proof -
  obtain M where M: "hist_rep h M" using built_rep [OF assms] by blast
  obtain bs g where g: "hist_serialize h = Inr bs" "\<forall>rest. hist_deserialize (bs @ rest) = Inr g" "hist_rep g M" "\<not> h_frozen g"
    using hist_roundtrip [OF M] by blast
  have "\<exists>g'. accept_all xs g = Inr g' \<and> same_state g' h'" if "accept_all xs h = Inr h'" for xs h'
    using accept_all_fold [OF g(4), of xs] accept_all_rep [OF g(3)] rep_same_state [OF _ accept_all_rep [OF M that]] by blast
  moreover have "\<exists>g'. hist_merge k g = Inr g' \<and> same_state g' h'" if k: "built k" "hist_merge k h = Inr h'" for k h'
  proof -
    obtain N where "hist_rep k N" using built_rep [OF k(1)] by blast
    moreover have "hist_merge k g = Inr (hist_absorb k g)" using g(4) by (simp add: hist_merge_def)
    ultimately show ?thesis
      using hist_merge_rep [of k N g M] rep_same_state [OF _ hist_merge_rep [OF _ M k(2)]] g(3) by blast
  qed
  moreover have "h_exact g" "h_capMs g = None" using g(3) by (simp_all add: hist_rep_def)
  ultimately show ?thesis using g rep_same_state [OF g(3) M] by blast
qed

definition merged_sample :: histogram where
  "merged_sample = hist_absorb (hist_record 200 new_histogram) (hist_record 3 (hist_record 200 new_histogram))"

lemma merged_sample_built: "built merged_sample"
proof -
  have one: "built (hist_record 200 new_histogram)"
    by (rule built_accept [OF built_new, of 200]) (simp add: hist_accept_def clampMs_def [symmetric])
  then have "built (hist_record 3 (hist_record 200 new_histogram))"
    by (rule built_accept [of _ 3]) (simp add: hist_accept_def clampMs_def [symmetric])
  then show ?thesis by (rule built_merge [OF _ one]) (simp add: hist_merge_def merged_sample_def)
qed

theorem histogram_roundtrip_witness:
  "\<exists>g. hist_deserialize ([2, 2, 3, 1, 0xC5, 1, 2, 3, 0x93, 3, 3, 0xC8, 1] @ [7]) = Inr g \<and> same_state g merged_sample \<and>
    (\<exists>g'. accept_all [125000] g = Inr g' \<and> same_state g' (hist_record 125000 merged_sample))"
proof -
  let ?bs = "[2, 2, 3, 1, 0xC5, 1, 2, 3, 0x93, 3, 3, 0xC8, 1] :: byte list"
  have bs: "hist_serialize merged_sample = Inr ?bs" by code_simp
  have later: "accept_all [125000] merged_sample = Inr (hist_record 125000 merged_sample)"
    by (simp add: accept_all_fold merged_sample_def del: accept_all.simps)
  obtain bs g where g: "hist_serialize merged_sample = Inr bs" "\<And>rest. hist_deserialize (bs @ rest) = Inr g"
    "same_state g merged_sample"
    "\<And>xs h'. accept_all xs merged_sample = Inr h' \<Longrightarrow> \<exists>g'. accept_all xs g = Inr g' \<and> same_state g' h'"
    using histogram_roundtrip [OF merged_sample_built] by blast
  have "?bs = bs" using g(1) unfolding bs by (rule sum.inject(2) [THEN iffD1])
  then have "hist_deserialize (?bs @ [7]) = Inr g" using g(2) by (simp only:)
  then show ?thesis using g(3) g(4) [OF later] by blast
qed

text \<open>
  C30: A row read from the capped v1 format answers a percentile exactly when
  the rank lies below its overflow, and then with the true nearest-rank value of all the
  observations. A band count it answers is the true count; it refuses every bound over the cap as soon as
  a value was discarded, even where the bins would still settle the count. Nothing is said of the
  variance, which such a row does answer and the source calls unreliable.
\<close>

theorem legacy_rows_never_guess:
  assumes "list_all in_range ps"
  shows "\<exists>h. hist_deserialize (legacyV1ForTests xs) = Inr h \<and>
    hist_percentiles ps h = Inr (map (\<lambda>p. let i = rank_index p (int (length xs)) in
      if 0 \<le> i \<and> i < int (length (filter (\<lambda>v. v \<le> legacy_cap) (map clampMs xs)))
      then Some (sort (map clampMs xs) ! nat i) else None) ps) \<and>
    (\<forall>b. countBelow b h = (if legacy_cap < b \<and> \<not> list_all (\<lambda>v. v \<le> legacy_cap) (map clampMs xs)
      then Inl (CrossesOverflow b) else Inr (int (length (filter (\<lambda>v. v < b) (map clampMs xs))))))"
proof -
  obtain h where h: "hist_deserialize (legacyV1ForTests xs) = Inr h" "bins_rep h (mset (small_part xs))"
    "h_total h = int (length xs)" "h_overflowCount h = int (length xs) - int (length (small_part xs))"
    "h_capMs h = Some legacy_cap"
    using legacy_read by blast
  have ex: "hist_expand h = sort (small_part xs)"
    using bins_rep_expand [OF h(2)] by (simp add: sorted_list_of_multiset_mset)
  have "hist_percentiles ps h = Inr (map (\<lambda>p. let i = rank_index p (h_total h) in
      if 0 \<le> i \<and> i < int (length (hist_expand h)) then Some (hist_expand h ! nat i) else None) ps)"
    using h(2-4) assms by (intro hist_percentiles_eq) (simp_all add: bins_rep_def ex)
  then have P: "hist_percentiles ps h = Inr (map (\<lambda>p. let i = rank_index p (int (length xs)) in
      if 0 \<le> i \<and> i < int (length (small_part xs)) then Some (sort (map clampMs xs) ! nat i) else None) ps)"
    unfolding small_part_sort by (auto simp: ex h(3) Let_def nth_append)
  have over: "0 < h_overflowCount h \<longleftrightarrow> \<not> list_all (\<lambda>v. v \<le> legacy_cap) (map clampMs xs)"
  proof -
    have "length (small_part xs) = length xs \<longleftrightarrow> list_all (\<lambda>v. v \<le> legacy_cap) (map clampMs xs)"
      unfolding small_part_def using length_filter_less [of _ "map clampMs xs" "\<lambda>v. v \<le> legacy_cap"]
      by (auto simp: list_all_iff filter_id_conv) force
    moreover have "length (small_part xs) \<le> length xs"
      unfolding small_part_def by (metis length_filter_le length_map)
    ultimately show ?thesis using h(4) by linarith
  qed
  have count: "(\<Sum>(v, c) \<leftarrow> h_bins h. if v < b then c else 0) = int (length (filter (\<lambda>v. v < b) (small_part xs)))" for b
    using sum_bins [OF h(2), of "\<lambda>v. v < b"] by (simp flip: mset_filter)
  have same: "filter (\<lambda>v. v < b) (small_part xs) = filter (\<lambda>v. v < b) (map clampMs xs)"
    if "b \<le> legacy_cap \<or> list_all (\<lambda>v. v \<le> legacy_cap) (map clampMs xs)" for b
    unfolding small_part_def filter_filter using that by (intro filter_cong) (auto simp: list_all_iff)
  have "countBelow b h = (if legacy_cap < b \<and> \<not> list_all (\<lambda>v. v \<le> legacy_cap) (map clampMs xs)
      then Inl (CrossesOverflow b) else Inr (int (length (filter (\<lambda>v. v < b) (map clampMs xs)))))" for b
    using same [of b] by (auto simp: countBelow_def over count h(5))
  with h(1) P show ?thesis unfolding small_part_def by blast
qed

theorem legacy_rows_never_guess_witness:
  "\<exists>h. hist_deserialize (legacyV1ForTests [10, 125000, 20]) = Inr h \<and>
    hist_percentiles [50, 99] h = Inr (map (\<lambda>p. let i = rank_index p (int (length [10, 125000 :: rat, 20])) in
      if 0 \<le> i \<and> i < int (length (filter (\<lambda>v. v \<le> legacy_cap) (map clampMs [10, 125000, 20])))
      then Some (sort (map clampMs [10, 125000, 20]) ! nat i) else None) [50, 99]) \<and>
    (\<forall>b. countBelow b h = (if legacy_cap < b \<and> \<not> list_all (\<lambda>v. v \<le> legacy_cap) (map clampMs [10, 125000, 20])
      then Inl (CrossesOverflow b)
      else Inr (int (length (filter (\<lambda>v. v < b) (map clampMs [10, 125000, 20]))))))"
  by (rule legacy_rows_never_guess) (simp add: in_range_def)

end
