(* ===== verification/Events.thy ===== *)
theory Events
  imports JsNumber
begin

text \<open>
  The canonical event model of \<open>packages/core\<close>: the events every plugin yields and the
  engine folds (\<open>events.ts\<close>), the assertions a load test declares in its own log
  (\<open>assertions.ts\<close>), the codes of an ingest error (\<open>errors.ts\<close>) and the frozen engine
  options. Optional fields of the source are \<open>option\<close> values.
\<close>

section \<open>Metric scopes and families\<close>

datatype metric_scope = Run | Scenario | Group | Request
datatype metric_family = ResponseTimeF | Latency | GroupCumulated | GroupDuration

fun scope_js :: "metric_scope \<Rightarrow> jstr" where
  "scope_js Run = js ''run''"
| "scope_js Scenario = js ''scenario''"
| "scope_js Group = js ''group''"
| "scope_js Request = js ''request''"

fun family_js :: "metric_family \<Rightarrow> jstr" where
  "family_js ResponseTimeF = js ''response_time''"
| "family_js Latency = js ''latency''"
| "family_js GroupCumulated = js ''group_cumulated''"
| "family_js GroupDuration = js ''group_duration''"

lemma scope_js_inj [simp, key_simps]: "scope_js a = scope_js b \<longleftrightarrow> a = b"
  by (cases a; cases b) simp_all

lemma family_js_inj [simp, key_simps]: "family_js a = family_js b \<longleftrightarrow> a = b"
  by (cases a; cases b) simp_all

lemma no_space_in_literals [key_simps]: "sp \<notin> set (scope_js s)" "sp \<notin> set (family_js f)"
  by (cases s; simp) (cases f; simp)

section \<open>The assertions a load test declares\<close>

datatype assertion_path = Global | ForAll | Details "jstr list"
datatype assertion_status = AllEvents | OkEvents | KoEvents
datatype rt_stat = RtMin | RtMax | RtMean | RtStddev | RtPercentile
datatype assertion_target =
    Count assertion_status
  | Percent assertion_status
  | ResponseTime rt_stat "jnum option"
  | MeanRequestsPerSecond
datatype assertion_condition =
    CondLt jnum | CondLte jnum | CondGt jnum | CondGte jnum | CondIs jnum
  | CondBetween jnum jnum bool
  | CondIn "jnum list"

record tool_assertion =
  ta_path :: assertion_path
  ta_target :: assertion_target
  ta_condition :: assertion_condition

section \<open>Events\<close>

record meta_event =
  me_simulation :: jstr
  me_toolVersion :: jstr
  me_startedAtMs :: int
  me_description :: "jstr option"
  me_assertions :: "tool_assertion list option"

record request_event =
  rq_name :: jstr
  rq_groups :: "jstr list"
  rq_scenario :: "jstr option"
  rq_userId :: jstr
  rq_startMs :: int
  rq_endMs :: int
  rq_firstByteMs :: "int option"
  rq_ok :: bool
  rq_message :: "jstr option"

datatype user_kind = UserStart | UserEnd

record user_event =
  us_scenario :: jstr
  us_userId :: jstr
  us_kind :: user_kind
  us_tsMs :: int

record group_event =
  gr_groups :: "jstr list"
  gr_userId :: jstr
  gr_startMs :: int
  gr_endMs :: int
  gr_cumulatedResponseTimeMs :: int
  gr_ok :: bool

record error_event =
  er_message :: jstr
  er_tsMs :: int

datatype canonical_event =
    MetaE meta_event
  | RequestE request_event
  | UserE user_event
  | GroupE group_event
  | ErrorE error_event

section \<open>Ingest errors\<close>

datatype ingest_code =
    BUNDLE_TOO_LARGE | BUNDLE_NOT_ARCHIVE | BUNDLE_EMPTY | BUNDLE_CHECKSUM_MISMATCH
  | TOOL_AMBIGUOUS | TOOL_UNKNOWN
  | LOG_NOT_FOUND | LOG_BINARY_FORMAT | LOG_MALFORMED
  | ENDPOINT_CARDINALITY_EXCEEDED | NO_REQUESTS
  | PROJECT_MISMATCH | TOKEN_REVOKED
  | PLUGIN_TIMEOUT | PLUGIN_MEMORY_EXCEEDED

end
