(* ===== verification/Rollup.thy ===== *)
theory Rollup
  imports HistogramCodec Events
begin

text \<open>
  One statistics row: \<open>rollup.ts\<close> (the row of a series and the memoised merge of its two
  status histograms), \<open>window.ts\<close> (the row of a time window), \<open>indicators.ts\<close>,
  \<open>percentile.ts\<close>, \<open>stored-percentiles.ts\<close> and \<open>bucket-latency.ts\<close>.

  A histogram the engine accumulates into is never frozen (only \<open>mergedHistogram\<close> freezes, and
  only the merge it built), so \<open>accept\<close> and \<open>merge\<close> on it are their bodies, \<open>hist_add\<close> and
  \<open>hist_absorb\<close>.
\<close>

definition hist_add :: "rat \<Rightarrow> histogram \<Rightarrow> histogram" where
  "hist_add x h = hist_record (clampMs x) h"

lemma hist_accept_add: "\<not> h_frozen h \<Longrightarrow> hist_accept x h = Inr (hist_add x h)"
  by (simp add: hist_accept_def hist_add_def clampMs_def)

lemma hist_rep_add: "hist_rep h M \<Longrightarrow> hist_rep (hist_add x h) (add_mset (clampMs x) M)"
  by (simp add: hist_add_def hist_rep_record clampMs_def)

section \<open>The merge of both statuses\<close>

definition mergeFresh :: "histogram \<Rightarrow> histogram \<Rightarrow> histogram" where
  "mergeFresh ok ko = hist_freeze (hist_absorb ko (hist_absorb ok new_histogram))"

lemma mergeFresh_rep: "hist_rep ok M \<Longrightarrow> hist_rep ko N \<Longrightarrow> hist_rep (mergeFresh ok ko) (M + N)"
  unfolding mergeFresh_def hist_rep_freeze
  using hist_rep_absorb [OF _ hist_rep_absorb [OF _ hist_rep_new]] by fastforce

text \<open>
  The memo is keyed by object identity, so histograms live at addresses of a store here. An
  entry remembers which \<open>ko\<close> it was merged with and both versions.
\<close>

type_synonym store = "nat \<Rightarrow> histogram"

record merge_memo =
  mm_ko :: nat
  mm_okVersion :: int
  mm_koVersion :: int
  mm_all :: histogram

definition mergedHistogram :: "nat \<Rightarrow> nat \<Rightarrow> store \<Rightarrow> (nat, merge_memo) jmap \<Rightarrow>
    histogram \<times> (nat, merge_memo) jmap" where
  "mergedHistogram ok ko st memo =
     (let fresh = (let all = mergeFresh (st ok) (st ko) in
        (all, jm_set ok \<lparr>mm_ko = ko, mm_okVersion = h_version (st ok),
           mm_koVersion = h_version (st ko), mm_all = all\<rparr> memo))
      in case jm_get memo ok of
        None \<Rightarrow> fresh
      | Some hit \<Rightarrow>
          if mm_ko hit = ko \<and> mm_okVersion hit = h_version (st ok) \<and> mm_koVersion hit = h_version (st ko)
          then (mm_all hit, memo) else fresh)"

text \<open>
  What can happen between two questions: an accumulator is written, or a merge is asked for.
\<close>

datatype merge_op = Accept nat rat | Absorb nat nat | Ask nat nat

fun merge_step :: "merge_op \<Rightarrow> store \<times> (nat, merge_memo) jmap \<Rightarrow> store \<times> (nat, merge_memo) jmap" where
  "merge_step (Accept a x) (st, memo) = (st(a := hist_add x (st a)), memo)"
| "merge_step (Absorb a b) (st, memo) = (st(a := hist_absorb (st b) (st a)), memo)"
| "merge_step (Ask ok ko) (st, memo) = (st, snd (mergedHistogram ok ko st memo))"

inductive reachable_memo :: "store \<times> (nat, merge_memo) jmap \<Rightarrow> bool" where
  start: "reachable_memo (\<lambda>_. new_histogram, [])"
| step: "reachable_memo s \<Longrightarrow> reachable_memo (merge_step op s)"

definition memo_ok :: "store \<times> (nat, merge_memo) jmap \<Rightarrow> bool" where
  "memo_ok s \<longleftrightarrow> (\<forall>ok e. jm_get (snd s) ok = Some e \<longrightarrow>
     mm_okVersion e \<le> h_version (fst s ok) \<and> mm_koVersion e \<le> h_version (fst s (mm_ko e)) \<and>
     (mm_okVersion e = h_version (fst s ok) \<and> mm_koVersion e = h_version (fst s (mm_ko e)) \<longrightarrow>
        mm_all e = mergeFresh (fst s ok) (fst s (mm_ko e))))"

lemma version_record [simp]: "h_version (hist_add x h) = h_version h + 1"
  by (simp add: hist_add_def hist_record_def Let_def)

lemma version_absorb [simp]: "h_version (hist_absorb g h) = h_version h + 1"
  by (simp add: hist_absorb_def Let_def)

lemma memo_ok_write:
  assumes "memo_ok (st, memo)" and "h_version h = h_version (st a) + 1"
  shows "memo_ok (st(a := h), memo)"
  using assms unfolding memo_ok_def by (auto simp: fun_upd_def) (smt (verit))+

lemma memo_ok_step: "memo_ok s \<Longrightarrow> memo_ok (merge_step op s)"
proof (cases op)
  case (Ask ok ko)
  assume s: "memo_ok s"
  obtain st memo where [simp]: "s = (st, memo)" by fastforce
  show ?thesis
    using s by (auto simp: Ask mergedHistogram_def Let_def memo_ok_def split: option.splits)
next
  case (Accept a x)
  assume "memo_ok s"
  then show ?thesis by (cases s) (simp add: Accept memo_ok_write)
next
  case (Absorb a b)
  assume "memo_ok s"
  then show ?thesis by (cases s) (simp add: Absorb memo_ok_write)
qed

lemma reachable_memo_ok: "reachable_memo s \<Longrightarrow> memo_ok s"
  by (induction rule: reachable_memo.induct) (simp add: memo_ok_def, rule memo_ok_step)

text \<open>
  C31: After any interleaving of writes to the accumulators and questions for
  their merges, a question answers the merge of the two histograms as they are now, and it is
  read-only; the version counters are all the memo needs.
\<close>

theorem merge_memo_never_stale:
  assumes "reachable_memo (st, memo)"
  shows "fst (mergedHistogram ok ko st memo) = mergeFresh (st ok) (st ko) \<and>
    hist_accept x (fst (mergedHistogram ok ko st memo)) = Inl FrozenHistogram"
  using reachable_memo_ok [OF assms]
  by (auto simp: mergedHistogram_def Let_def memo_ok_def mergeFresh_def hist_freeze_def hist_accept_def
      split: option.splits)

theorem merge_memo_never_stale_witness:
  "fst (mergedHistogram 0 1 (\<lambda>_. new_histogram) []) = mergeFresh new_histogram new_histogram \<and>
    hist_accept 5 (fst (mergedHistogram 0 1 (\<lambda>_. new_histogram) [])) = Inl FrozenHistogram"
  by (rule merge_memo_never_stale [OF reachable_memo.start, of 0 1 5])

section \<open>The row of a series\<close>

type_synonym percentile_map = "(jstr, int) jmap"

definition pkey :: "rat \<Rightarrow> jstr" where
  "pkey p = js ''p'' @ js_num p"

definition put_percentiles :: "rat list \<Rightarrow> int option list \<Rightarrow> percentile_map" where
  "put_percentiles ps vs = fold (\<lambda>(p, v) out. case v of Some x \<Rightarrow> jm_set (pkey p) x out | None \<Rightarrow> out)
     (zip ps vs) []"

definition percentilesOf :: "rat list \<Rightarrow> histogram \<Rightarrow> stat_error + percentile_map" where
  "percentilesOf ps h = map_sum id (put_percentiles ps) (hist_percentiles ps h)"

record stat_rollup =
  sr_scope :: metric_scope
  sr_name :: jstr
  sr_family :: metric_family
  sr_count :: int
  sr_okCount :: int
  sr_koCount :: int
  sr_errorRate :: rat
  sr_minMs :: int
  sr_maxMs :: int
  sr_meanMs :: rat
  sr_stddevMs :: rat
  sr_percentiles :: percentile_map
  sr_throughputRps :: rat
  sr_histogramOk :: histogram
  sr_histogramKo :: histogram

record rollup_builder =
  rb_ok :: histogram
  rb_ko :: histogram

definition new_builder :: rollup_builder where
  "new_builder = \<lparr>rb_ok = new_histogram, rb_ko = new_histogram\<rparr>"

definition builder_add :: "rat \<Rightarrow> bool \<Rightarrow> rollup_builder \<Rightarrow> rollup_builder" where
  "builder_add durationMs ok b = (if ok then b\<lparr>rb_ok := hist_add durationMs (rb_ok b)\<rparr>
     else b\<lparr>rb_ko := hist_add durationMs (rb_ko b)\<rparr>)"

definition hist_copy :: "histogram \<Rightarrow> histogram" where
  "hist_copy h = hist_absorb h new_histogram"

definition builder_finish :: "metric_scope \<Rightarrow> jstr \<Rightarrow> metric_family \<Rightarrow> int \<Rightarrow> rat list \<Rightarrow> bool \<Rightarrow>
    rollup_builder \<Rightarrow> stat_error + stat_rollup" where
  "builder_finish scope name family windowMs percentiles clone b =
     (let ok = (if clone then hist_copy (rb_ok b) else rb_ok b);
          ko = (if clone then hist_copy (rb_ko b) else rb_ko b);
          all = mergeFresh ok ko;
          count = h_total all; okCount = h_total ok;
          mean = (if count = 0 then 0 else fdiv (of_int (h_sum all)) (of_int count))
      in bind_sum (percentilesOf percentiles all) (\<lambda>pm. Inr \<lparr>sr_scope = scope, sr_name = name,
        sr_family = family, sr_count = count, sr_okCount = okCount, sr_koCount = count - okCount,
        sr_errorRate = (if count = 0 then 0 else fdiv (of_int (count - okCount)) (of_int count)),
        sr_minMs = hist_min all, sr_maxMs = hist_max all, sr_meanMs = mean,
        sr_stddevMs = fsqrt (hist_variance all), sr_percentiles = pm,
        sr_throughputRps = (if windowMs = 0 then 0
          else fmul (fdiv (of_int count) (of_int windowMs)) 1000),
        sr_histogramOk = ok, sr_histogramKo = ko\<rparr>))"

section \<open>The row of a time window\<close>

record window_rollup =
  wr_count :: int
  wr_okCount :: int
  wr_koCount :: int
  wr_errorRate :: rat
  wr_minMs :: int
  wr_maxMs :: int
  wr_meanMs :: rat
  wr_stddevMs :: rat
  wr_throughputRps :: rat
  wr_percentiles :: percentile_map

definition recoverablePercentiles :: "histogram \<Rightarrow> rat list \<Rightarrow> stat_error + percentile_map" where
  "recoverablePercentiles all ps = (case hist_percentiles ps all of Inl e \<Rightarrow> Inl e
     | Inr vs \<Rightarrow> Inr (put_percentiles ps vs))"

definition rollupFromHistograms :: "histogram \<Rightarrow> histogram \<Rightarrow> int \<Rightarrow> rat list \<Rightarrow> stat_error + window_rollup" where
  "rollupFromHistograms ok ko windowMs percentiles =
     (let okCount = h_total ok; koCount = h_total ko; count = okCount + koCount in
      if count = 0 then Inr \<lparr>wr_count = 0, wr_okCount = 0, wr_koCount = 0, wr_errorRate = 0,
        wr_minMs = 0, wr_maxMs = 0, wr_meanMs = 0, wr_stddevMs = 0, wr_throughputRps = 0,
        wr_percentiles = []\<rparr>
      else let all = hist_absorb ko (hist_absorb ok new_histogram);
               mean = fdiv (of_int (h_sum all)) (of_int count)
        in bind_sum (recoverablePercentiles all percentiles) (\<lambda>pm. Inr \<lparr>wr_count = count,
          wr_okCount = okCount, wr_koCount = koCount,
          wr_errorRate = fdiv (of_int koCount) (of_int count),
          wr_minMs = hist_min all, wr_maxMs = hist_max all, wr_meanMs = mean,
          wr_stddevMs = fsqrt (hist_variance all),
          wr_throughputRps = (if 0 < windowMs then fdiv (of_int count) (fdiv (of_int windowMs) 1000) else 0),
          wr_percentiles = pm\<rparr>))"

section \<open>Bands, warm-up, stored rows, buckets\<close>

record indicator_bands =
  ib_under :: int
  ib_between :: int
  ib_over :: int
  ib_failed :: int

datatype band_error = InvertedBounds int int | BandStat stat_error

definition bandsFrom :: "histogram \<Rightarrow> int \<Rightarrow> int \<Rightarrow> int \<Rightarrow> band_error + indicator_bands" where
  "bandsFrom ok koCount lowerMs higherMs =
     (if higherMs < lowerMs then Inl (InvertedBounds lowerMs higherMs)
      else bind_sum (map_sum BandStat id (countBelow lowerMs ok)) (\<lambda>under.
        bind_sum (map_sum BandStat id (countBelow higherMs ok)) (\<lambda>belowHigher.
          Inr \<lparr>ib_under = under, ib_between = belowHigher - under,
            ib_over = h_total ok - belowHigher, ib_failed = koCount\<rparr>)))"

definition isWarmup :: "int \<Rightarrow> int \<Rightarrow> int \<Rightarrow> bool" where
  "isWarmup tsMs runStartMs warmupMs \<longleftrightarrow> 0 < warmupMs \<and> tsMs - runStartMs < warmupMs"

definition clampPercentile :: "rat \<Rightarrow> int \<Rightarrow> int \<Rightarrow> rat" where
  "clampPercentile value minMs maxMs = min (max value (of_int minMs)) (of_int maxMs)"

text \<open>A frozen percentile column: a JSON number, or a JSON null.\<close>

record stored_source =
  ss_count :: int
  ss_minMs :: int
  ss_maxMs :: int
  ss_percentiles :: "(jstr, jnum option) jmap"
  ss_histogramOk :: "histogram option"
  ss_histogramKo :: "histogram option"

definition frozen_percentiles :: "stored_source \<Rightarrow> rat list \<Rightarrow> (jstr, jnum option) jmap" where
  "frozen_percentiles row ps = fold (\<lambda>p out. case jm_get (ss_percentiles row) (pkey p) of
       Some (Some (JFin x)) \<Rightarrow> jm_set (pkey p) (Some (JFin (clampPercentile x (ss_minMs row) (ss_maxMs row)))) out
     | _ \<Rightarrow> out) ps []"

definition storedPercentiles :: "stored_source \<Rightarrow> rat list \<Rightarrow> stat_error + (jstr, jnum option) jmap" where
  "storedPercentiles row ps =
     (if ss_count row = 0 then Inr (ss_percentiles row)
      else case (ss_histogramOk row, ss_histogramKo row) of
        (Some ok, Some ko) \<Rightarrow>
          if h_exact ok \<and> h_exact ko
          then map_sum id (map (map_prod id (\<lambda>v. Some (JFin (of_int v))))) (percentilesOf ps (mergeFresh ok ko))
          else Inr (frozen_percentiles row ps)
      | _ \<Rightarrow> Inr (frozen_percentiles row ps))"

definition BUCKET_PERCENTILES :: "rat list" where
  "BUCKET_PERCENTILES = [25, 50, 75, 80, 85, 90, 95, 99]"

record bucket_latency =
  bl_minMs :: int
  bl_maxMs :: int
  bl_meanMs :: rat
  bl_percentiles :: percentile_map
  bl_percentilesOk :: percentile_map
  bl_percentilesKo :: percentile_map

definition bucketLatency :: "histogram \<Rightarrow> histogram \<Rightarrow> stat_error + bucket_latency" where
  "bucketLatency ok ko =
     (let all = hist_absorb ko (hist_absorb ok new_histogram) in
      bind_sum (percentilesOf BUCKET_PERCENTILES all) (\<lambda>pa.
      bind_sum (percentilesOf BUCKET_PERCENTILES ok) (\<lambda>po.
      bind_sum (percentilesOf BUCKET_PERCENTILES ko) (\<lambda>pk.
        Inr \<lparr>bl_minMs = hist_min all, bl_maxMs = hist_max all,
          bl_meanMs = (if h_total all = 0 then 0 else fdiv (of_int (h_sum all)) (of_int (h_total all))),
          bl_percentiles = pa, bl_percentilesOk = po, bl_percentilesKo = pk\<rparr>))))"

section \<open>Rows are projections of their population\<close>

lemma mergeFresh_absorb: "mergeFresh ok ko = hist_freeze (hist_absorb ko (hist_absorb ok new_histogram))"
  by (rule mergeFresh_def)

lemma freeze_reads [simp]:
  "hist_keys (hist_freeze h) = hist_keys h" "countAt (hist_freeze h) = countAt h"
  "hist_min (hist_freeze h) = hist_min h" "hist_max (hist_freeze h) = hist_max h"
  "h_total (hist_freeze h) = h_total h" "h_sum (hist_freeze h) = h_sum h"
  "h_overflowCount (hist_freeze h) = h_overflowCount h"
  by (simp_all add: hist_freeze_def hist_keys_def hist_max_def hist_min_def countAt_def fun_eq_iff
      split: option.splits)

lemma freeze_answers [simp]:
  "hist_percentiles ps (hist_freeze h) = hist_percentiles ps h"
  "hist_variance (hist_freeze h) = hist_variance h"
  by (simp_all add: hist_percentiles_def hist_variance_def cong: if_cong sum.case_cong)

lemma rep_reads:
  assumes "hist_rep h A"
  shows "h_total h = int (size A)" "h_sum h = sum_mset A"
    "hist_min h = (if A = {#} then 0 else Min_mset A)" "hist_max h = (if A = {#} then 0 else Max_mset A)"
  using assms by (auto simp: hist_rep_def hist_min_def hist_max_def)

text \<open>The percentiles a row reports for a population: an empty one has none.\<close>

definition population_percentiles :: "rat list \<Rightarrow> int multiset \<Rightarrow> percentile_map" where
  "population_percentiles ps M = put_percentiles ps (map (\<lambda>p. if M = {#} then None
     else Some (sorted_list_of_multiset M ! nat (rank_index p (int (size M))))) ps)"

lemma percentilesOf_rep:
  "hist_rep h M \<Longrightarrow> list_all in_range ps \<Longrightarrow> percentilesOf ps h = Inr (population_percentiles ps M)"
  by (simp add: percentilesOf_def population_percentiles_def hist_rep_percentiles)

lemma put_percentiles_none: "put_percentiles ps (map (\<lambda>_. None) ps) = []"
proof -
  have "fold (\<lambda>(p, v) out. case v of Some x \<Rightarrow> jm_set (pkey p) x out | None \<Rightarrow> out)
      (zip ps (map (\<lambda>_. None) ps)) out = out" for out
    by (induction ps arbitrary: out) simp_all
  then show ?thesis by (simp add: put_percentiles_def)
qed

lemma population_percentiles_empty [simp]: "population_percentiles ps {#} = []"
  by (simp add: population_percentiles_def put_percentiles_none)

definition mset_stddev :: "int multiset \<Rightarrow> rat" where
  "mset_stddev M = fsqrt (hist_variance (fold hist_record (sorted_list_of_multiset M) new_histogram))"

lemma stddev_rep:
  assumes "hist_rep h M" and "\<And>v. v \<in># M \<Longrightarrow> 0 \<le> v"
  shows "fsqrt (hist_variance h) = mset_stddev M"
proof -
  have "hist_rep (fold hist_record (sorted_list_of_multiset M) new_histogram) M"
    using hist.rep_list [of "sorted_list_of_multiset M"] assms(2) by (simp add: list_all_iff)
  from hist_rep_variance [OF assms(1) this] show ?thesis by (simp add: mset_stddev_def)
qed

text \<open>
  The row that the populations \<open>M\<close> (OK) and \<open>N\<close> (KO) have, whatever histograms carry them.
\<close>

definition row_of :: "metric_scope \<Rightarrow> jstr \<Rightarrow> metric_family \<Rightarrow> int \<Rightarrow> rat list \<Rightarrow> int multiset \<Rightarrow>
    int multiset \<Rightarrow> histogram \<Rightarrow> histogram \<Rightarrow> stat_rollup" where
  "row_of scope name family windowMs ps M N ok ko =
     (let A = M + N; n = int (size A) in \<lparr>sr_scope = scope, sr_name = name, sr_family = family,
        sr_count = n, sr_okCount = int (size M), sr_koCount = int (size N),
        sr_errorRate = (if A = {#} then 0 else fdiv (of_int (int (size N))) (of_int n)),
        sr_minMs = (if A = {#} then 0 else Min_mset A), sr_maxMs = (if A = {#} then 0 else Max_mset A),
        sr_meanMs = (if A = {#} then 0 else fdiv (of_int (sum_mset A)) (of_int n)),
        sr_stddevMs = mset_stddev A, sr_percentiles = population_percentiles ps A,
        sr_throughputRps = (if windowMs = 0 then 0 else fmul (fdiv (of_int n) (of_int windowMs)) 1000),
        sr_histogramOk = ok, sr_histogramKo = ko\<rparr>)"

lemma sizes_zero: "int (size M) + int (size N) = 0 \<longleftrightarrow> M = {#} \<and> N = {#}"
  by (auto simp flip: of_nat_add)

lemma finish_rep:
  assumes "hist_rep (rb_ok b) M" and "hist_rep (rb_ko b) N" and "list_all in_range ps"
    and "\<And>v. v \<in># M + N \<Longrightarrow> 0 \<le> v"
  shows "\<exists>ok ko. builder_finish scope name family windowMs ps clone b =
      Inr (row_of scope name family windowMs ps M N ok ko) \<and> hist_rep ok M \<and> hist_rep ko N"
proof -
  define ok where "ok = (if clone then hist_copy (rb_ok b) else rb_ok b)"
  define ko where "ko = (if clone then hist_copy (rb_ko b) else rb_ko b)"
  have ok: "hist_rep ok M" and ko: "hist_rep ko N"
    using assms(1,2) hist_rep_absorb [OF _ hist_rep_new] by (auto simp: hist_copy_def ok_def ko_def)
  note all = mergeFresh_rep [OF ok ko]
  have "builder_finish scope name family windowMs ps clone b =
      Inr (row_of scope name family windowMs ps M N ok ko)"
    unfolding builder_finish_def ok_def [symmetric] ko_def [symmetric] row_of_def Let_def
    using rep_reads [OF ok] rep_reads [OF all] percentilesOf_rep [OF all assms(3)]
      stddev_rep [OF all assms(4)] by (simp add: sizes_zero)
  with ok ko show ?thesis by blast
qed

definition ok_part :: "(rat \<times> bool) list \<Rightarrow> int multiset" where
  "ok_part es = mset (map (clampMs \<circ> fst) (filter snd es))"

definition ko_part :: "(rat \<times> bool) list \<Rightarrow> int multiset" where
  "ko_part es = mset (map (clampMs \<circ> fst) (filter (\<lambda>e. \<not> snd e) es))"

definition builder_run :: "(rat \<times> bool) list \<Rightarrow> rollup_builder \<Rightarrow> rollup_builder" where
  "builder_run = fold (\<lambda>(d, ok). builder_add d ok)"

lemma builder_run_rep:
  "hist_rep (rb_ok b) M \<Longrightarrow> hist_rep (rb_ko b) N \<Longrightarrow>
   hist_rep (rb_ok (builder_run es b)) (M + ok_part es) \<and> hist_rep (rb_ko (builder_run es b)) (N + ko_part es)"
proof (induction es arbitrary: b M N)
  case Nil
  then show ?case by (simp add: builder_run_def ok_part_def ko_part_def)
next
  case (Cons e es)
  obtain d ok where e: "e = (d, ok)" by fastforce
  show ?case
  proof (cases ok)
    case True
    with Cons.IH [of "builder_add d ok b" "add_mset (clampMs d) M" N] Cons.prems show ?thesis
      by (simp add: e builder_run_def builder_add_def hist_rep_add ok_part_def ko_part_def)
  next
    case False
    with Cons.IH [of "builder_add d ok b" M "add_mset (clampMs d) N"] Cons.prems show ?thesis
      by (simp add: e builder_run_def builder_add_def hist_rep_add ok_part_def ko_part_def)
  qed
qed

lemma part_nonneg: "v \<in># ok_part es + ko_part es \<Longrightarrow> 0 \<le> v"
  by (auto simp: ok_part_def ko_part_def clampMs_def)

lemma stddev_empty [simp]: "mset_stddev {#} = 0"
  by (simp add: mset_stddev_def hist_variance_def new_histogram_def fsqrt_def)

lemma window_rep:
  assumes "hist_rep ok M" and "hist_rep ko N" and "list_all in_range ps" and "\<And>v. v \<in># M + N \<Longrightarrow> 0 \<le> v"
    and "row = row_of scope name family windowMs ps M N ok ko"
  shows "rollupFromHistograms ok ko windowMs ps = Inr \<lparr>wr_count = sr_count row, wr_okCount = sr_okCount row,
    wr_koCount = sr_koCount row, wr_errorRate = sr_errorRate row, wr_minMs = sr_minMs row,
    wr_maxMs = sr_maxMs row, wr_meanMs = sr_meanMs row, wr_stddevMs = sr_stddevMs row,
    wr_throughputRps = (if M + N = {#} \<or> windowMs \<le> 0 then 0
      else fdiv (of_int (sr_count row)) (fdiv (of_int windowMs) 1000)),
    wr_percentiles = sr_percentiles row\<rparr>"
proof -
  define all where "all = hist_absorb ko (hist_absorb ok new_histogram)"
  have all: "hist_rep all (M + N)"
    using mergeFresh_rep [OF assms(1,2)] by (simp add: mergeFresh_def hist_rep_freeze all_def)
  have pm: "recoverablePercentiles all ps = Inr (population_percentiles ps (M + N))"
    using hist_rep_percentiles [OF all assms(3)]
    by (simp add: recoverablePercentiles_def population_percentiles_def)
  show ?thesis
  proof (cases "M + N = {#}")
    case True
    then show ?thesis
      using rep_reads [OF assms(1)] rep_reads [OF assms(2)]
      by (simp add: rollupFromHistograms_def Let_def assms(5) row_of_def)
  next
    case False
    then have "int (size M) + int (size N) \<noteq> 0" by (simp add: sizes_zero)
    with rep_reads [OF assms(1)] rep_reads [OF assms(2)] rep_reads [OF all] pm
      stddev_rep [OF all assms(4)] False show ?thesis
      unfolding rollupFromHistograms_def Let_def all_def [symmetric]
      by (auto simp: assms(5) row_of_def Let_def)
  qed
qed

section \<open>Properties\<close>

text \<open>
  C21: Whatever durations a builder is given, the finished row is a function of
  the two populations of OK and KO durations: counts, error rate, extremes, mean, deviation,
  throughput and nearest-rank percentiles all describe their union, whether or not the
  histograms are cloned, and the histograms the row returns hold exactly those populations.
\<close>

theorem row_is_its_population:
  assumes "list_all in_range ps"
  shows "\<exists>ok ko. builder_finish scope name family windowMs ps clone (builder_run es new_builder) =
      Inr (row_of scope name family windowMs ps (ok_part es) (ko_part es) ok ko) \<and>
    hist_rep ok (ok_part es) \<and> hist_rep ko (ko_part es)"
  using finish_rep [OF _ _ assms part_nonneg] builder_run_rep [of new_builder "{#}" "{#}" es]
  by (simp add: new_builder_def hist_rep_new)

theorem row_is_its_population_witness:
  "\<exists>ok ko. builder_finish Run [] ResponseTimeF 1000 [50, 95] True (builder_run [(12, True), (30, False)] new_builder) =
      Inr (row_of Run [] ResponseTimeF 1000 [50, 95] (ok_part [(12, True), (30, False)])
        (ko_part [(12, True), (30, False)]) ok ko) \<and>
    hist_rep ok (ok_part [(12, True), (30, False)]) \<and> hist_rep ko (ko_part [(12, True), (30, False)])"
  by (rule row_is_its_population) (simp add: in_range_def)

text \<open>
  A windowed row rebuilt from status histograms of the same
  populations equals the run's row in every column but the throughput, whose two formulas round
  differently.
\<close>

lemma full_window_agrees_with_row:
  assumes "hist_rep ok M" and "hist_rep ko N" and "list_all in_range ps" and "\<And>v. v \<in># M + N \<Longrightarrow> 0 \<le> v"
    and "row = row_of scope name family windowMs ps M N ok ko"
  shows "\<exists>w. rollupFromHistograms ok ko windowMs ps = Inr w \<and>
    wr_count w = sr_count row \<and> wr_okCount w = sr_okCount row \<and> wr_koCount w = sr_koCount row \<and>
    wr_errorRate w = sr_errorRate row \<and> wr_minMs w = sr_minMs row \<and> wr_maxMs w = sr_maxMs row \<and>
    wr_meanMs w = sr_meanMs row \<and> wr_stddevMs w = sr_stddevMs row \<and> wr_percentiles w = sr_percentiles row"
  using window_rep [OF assms] by simp

lemma sample_rep: "hist_rep (hist_record 4 new_histogram) {#4#}" "hist_rep (hist_record 9 new_histogram) {#9#}"
  using hist_rep_record [OF hist_rep_new, of 4] hist_rep_record [OF hist_rep_new, of 9] by simp_all

lemma full_window_agrees_with_row_witness:
  "let row = row_of Run [] ResponseTimeF 3000 [50] {#4#} {#9#} (hist_record 4 new_histogram) (hist_record 9 new_histogram) in
    \<exists>w. rollupFromHistograms (hist_record 4 new_histogram) (hist_record 9 new_histogram) 3000 [50] = Inr w \<and>
     wr_count w = sr_count row \<and> wr_okCount w = sr_okCount row \<and> wr_koCount w = sr_koCount row \<and>
     wr_errorRate w = sr_errorRate row \<and> wr_minMs w = sr_minMs row \<and> wr_maxMs w = sr_maxMs row \<and>
     wr_meanMs w = sr_meanMs row \<and> wr_stddevMs w = sr_stddevMs row \<and> wr_percentiles w = sr_percentiles row"
  unfolding Let_def
  by (rule full_window_agrees_with_row [OF sample_rep _ _ refl]) (auto simp: in_range_def)

text \<open>
  A series of 1001 requests over one second is reported by its row at
  less than 1001 requests per second (the quotient is rounded before it is scaled), while the
  window over the same second reports 1001.
\<close>

lemma throughput_rounds_twice:
  "\<exists>row w. builder_finish Run [] ResponseTimeF 1000 [] clone (builder_run (replicate 1001 (5, True)) new_builder) = Inr row \<and>
    rollupFromHistograms (sr_histogramOk row) (sr_histogramKo row) 1000 [] = Inr w \<and>
    wr_count w = sr_count row \<and> sr_throughputRps row < 1001 \<and> wr_throughputRps w = 1001"
proof -
  let ?es = "replicate 1001 (5 :: rat, True)"
  let ?M = "replicate_mset 1001 (5 :: int)"
  have "clampMs 5 = 5" by code_simp
  then have parts: "ok_part ?es = ?M" "ko_part ?es = {#}" by (simp_all add: ok_part_def ko_part_def)
  obtain ok ko where row: "builder_finish Run [] ResponseTimeF 1000 [] clone (builder_run ?es new_builder) =
      Inr (row_of Run [] ResponseTimeF 1000 [] ?M {#} ok ko)" and reps: "hist_rep ok ?M" "hist_rep ko {#}"
    using finish_rep [where b = "builder_run ?es new_builder" and M = ?M and N = "{#}" and ps = "[]"
        and scope = Run and name = "[]" and family = ResponseTimeF and windowMs = 1000 and clone = clone]
      builder_run_rep [of new_builder "{#}" "{#}" ?es] parts
    by (auto simp: new_builder_def hist_rep_new)
  have w: "\<exists>w. rollupFromHistograms ok ko 1000 [] = Inr w \<and> wr_count w = 1001 \<and>
      wr_throughputRps w = fdiv (of_int 1001) (fdiv (of_int 1000) 1000)"
    using window_rep [where ps = "[]" and scope = Run and name = "[]" and family = ResponseTimeF
        and windowMs = 1000, OF reps _ _ refl] by (simp add: row_of_def Let_def)
  have "fmul (fdiv 1001 1000) 1000 < 1001" "fdiv (of_int 1001) (fdiv (of_int 1000) 1000) = (1001 :: rat)"
    by code_simp+
  with w show ?thesis unfolding row by (auto simp: row_of_def Let_def)
qed

text \<open>
  The read-time bands are exact at any bounds: they count the OK
  observations below the lower bound, between the bounds and from the higher bound on, so they
  add up to the OK count; only inverted bounds are an error.
\<close>

lemma bands_partition_the_population:
  assumes "hist_rep ok M"
  shows "bandsFrom ok koCount lowerMs higherMs = (if higherMs < lowerMs then Inl (InvertedBounds lowerMs higherMs)
    else Inr \<lparr>ib_under = int (size (filter_mset (\<lambda>v. v < lowerMs) M)),
      ib_between = int (size (filter_mset (\<lambda>v. lowerMs \<le> v \<and> v < higherMs) M)),
      ib_over = int (size (filter_mset (\<lambda>v. higherMs \<le> v) M)), ib_failed = koCount\<rparr>)"
proof (cases "higherMs < lowerMs")
  case False
  have split: "size (filter_mset (\<lambda>v. v < higherMs) M) = size (filter_mset (\<lambda>v. v < lowerMs) M) +
      size (filter_mset (\<lambda>v. lowerMs \<le> v \<and> v < higherMs) M)"
    "size M = size (filter_mset (\<lambda>v. v < higherMs) M) + size (filter_mset (\<lambda>v. higherMs \<le> v) M)"
    using False by (induction M) auto
  show ?thesis
    using hist_rep_countBelow [OF assms] False split rep_reads(1) [OF assms]
    by (simp add: bandsFrom_def)
qed (simp add: bandsFrom_def)

lemma bands_partition_the_population_witness:
  "bandsFrom (hist_record 4 new_histogram) 2 3 9 = (if (9 :: int) < 3 then Inl (InvertedBounds 3 9)
    else Inr \<lparr>ib_under = int (size (filter_mset (\<lambda>v. v < 3) {#4 :: int#})),
      ib_between = int (size (filter_mset (\<lambda>v. 3 \<le> v \<and> v < 9) {#4 :: int#})),
      ib_over = int (size (filter_mset (\<lambda>v. 9 \<le> v) {#4 :: int#})), ib_failed = 2\<rparr>)"
  by (rule bands_partition_the_population [OF sample_rep(1)])

text \<open>What a stored value becomes in the answer of a legacy row.\<close>

definition clamped :: "stored_source \<Rightarrow> jnum option option \<Rightarrow> jnum option option" where
  "clamped row v = (case v of
     Some (Some (JFin x)) \<Rightarrow> Some (Some (JFin (clampPercentile x (ss_minMs row) (ss_maxMs row)))) | _ \<Rightarrow> None)"

lemma frozen_get:
  "jm_get (frozen_percentiles row ps) k =
     (if k \<in> pkey ` set ps then clamped row (jm_get (ss_percentiles row) k) else None)"
proof -
  have "jm_get (fold (\<lambda>p out. case jm_get (ss_percentiles row) (pkey p) of
       Some (Some (JFin x)) \<Rightarrow> jm_set (pkey p) (Some (JFin (clampPercentile x (ss_minMs row) (ss_maxMs row)))) out
     | _ \<Rightarrow> out) ps out) k = (if k \<in> pkey ` set ps \<and> clamped row (jm_get (ss_percentiles row) k) \<noteq> None
       then clamped row (jm_get (ss_percentiles row) k) else jm_get out k)" for out
    by (induction ps arbitrary: out) (auto simp: clamped_def split: option.splits jnum.splits)
  then show ?thesis by (auto simp: frozen_percentiles_def)
qed

lemma clamp_between: "lo \<le> hi \<Longrightarrow> of_int lo \<le> clampPercentile x lo hi \<and> clampPercentile x lo hi \<le> of_int hi"
  by (auto simp: clampPercentile_def)

text \<open>
  C33: A stored row with exact histograms answers the nearest-rank
  percentiles of its population at any ranks. A legacy row answers exactly the requested ranks
  it stored as finite numbers, each clamped between the row's extremes; a rank that was never
  stored is absent, not interpolated.
\<close>

theorem stored_percentiles_are_measured:
  assumes "ss_count row \<noteq> 0" and "ss_minMs row \<le> ss_maxMs row"
  shows "(case (ss_histogramOk row, ss_histogramKo row) of
      (Some ok, Some ko) \<Rightarrow> (if h_exact ok \<and> h_exact ko
        then (\<forall>M N. hist_rep ok M \<and> hist_rep ko N \<and> list_all in_range ps \<longrightarrow>
          storedPercentiles row ps = Inr (map (map_prod id (\<lambda>v. Some (JFin (of_int v)))) (population_percentiles ps (M + N))))
        else storedPercentiles row ps = Inr (frozen_percentiles row ps))
    | _ \<Rightarrow> storedPercentiles row ps = Inr (frozen_percentiles row ps)) \<and>
    (\<forall>k. jm_get (frozen_percentiles row ps) k =
      (if k \<in> pkey ` set ps then clamped row (jm_get (ss_percentiles row) k) else None)) \<and>
    (\<forall>k x. jm_get (frozen_percentiles row ps) k = Some (Some (JFin x)) \<longrightarrow>
      of_int (ss_minMs row) \<le> x \<and> x \<le> of_int (ss_maxMs row))"
proof (intro conjI allI impI)
  fix k x
  assume "jm_get (frozen_percentiles row ps) k = Some (Some (JFin x))"
  then have "clamped row (jm_get (ss_percentiles row) k) = Some (Some (JFin x))"
    by (simp add: frozen_get split: if_splits)
  then show "of_int (ss_minMs row) \<le> x" "x \<le> of_int (ss_maxMs row)"
    using clamp_between [OF assms(2)] by (auto simp: clamped_def split: option.splits jnum.splits)
qed (use assms(1) in \<open>auto simp: frozen_get storedPercentiles_def percentilesOf_rep [OF mergeFresh_rep]
    split: option.splits\<close>)

theorem stored_percentiles_are_measured_witness:
  "let row = \<lparr>ss_count = 3, ss_minMs = 5, ss_maxMs = 9, ss_percentiles = [(pkey 50, Some (JFin 12)), (pkey 95, None)],
      ss_histogramOk = None, ss_histogramKo = None\<rparr> in
   storedPercentiles row [50, 90, 95] = Inr (frozen_percentiles row [50, 90, 95]) \<and>
   frozen_percentiles row [50, 90, 95] = [(pkey 50, Some (JFin 9))]"
proof -
  let ?row = "\<lparr>ss_count = 3, ss_minMs = 5, ss_maxMs = 9, ss_percentiles = [(pkey 50, Some (JFin 12)), (pkey 95, None)],
      ss_histogramOk = None, ss_histogramKo = None\<rparr>"
  have "frozen_percentiles ?row [50, 90, 95] = [(pkey 50, Some (JFin 9))]"
    by code_simp
  with stored_percentiles_are_measured [of ?row "[50, 90, 95]"] show ?thesis by simp
qed

text \<open>The latency fields of a bucket describe its populations, each percentile map its own status.\<close>

lemma bucket_latency_rep:
  assumes "hist_rep ok M" and "hist_rep ko N"
  shows "bucketLatency ok ko = Inr (let A = M + N; P = population_percentiles BUCKET_PERCENTILES in
    \<lparr>bl_minMs = (if A = {#} then 0 else Min_mset A), bl_maxMs = (if A = {#} then 0 else Max_mset A),
     bl_meanMs = (if A = {#} then 0 else fdiv (of_int (sum_mset A)) (of_nat (size A))),
     bl_percentiles = P A, bl_percentilesOk = P M, bl_percentilesKo = P N\<rparr>)"
proof -
  have all: "hist_rep (hist_absorb ko (hist_absorb ok new_histogram)) (M + N)"
    using mergeFresh_rep [OF assms] by (simp add: mergeFresh_def hist_rep_freeze)
  have "list_all in_range BUCKET_PERCENTILES" by (simp add: BUCKET_PERCENTILES_def in_range_def)
  then show ?thesis
    using rep_reads [OF all] percentilesOf_rep [OF all] percentilesOf_rep [OF assms(1)] percentilesOf_rep [OF assms(2)]
    by (simp add: bucketLatency_def Let_def sizes_zero)
qed


end
