(* ===== verification/ToolAssertions.thy ===== *)
theory ToolAssertions
  imports Rollup
begin

text \<open>
  \<open>tool-assertions.ts\<close>: the assertions a load test declares, rendered in the tool's words and
  judged against the statistics rows. A percentile outside [0, 100] measures nothing; \<open>measure\<close>
  returns a sum because the percentile of a histogram may be an error, which \<open>measure_total\<close>
  excludes.
\<close>

datatype tool_outcome = Passed | Failed | NotApplicable

record evaluated_assertion =
  ev_assertion :: tool_assertion
  ev_expression :: jstr
  ev_actualValue :: "rat option"
  ev_outcome :: tool_outcome

fun num_string :: "jnum \<Rightarrow> jstr" where
  "num_string (JFin x) = (if x = of_int \<lfloor>x\<rfloor> then js_num x @ js ''.0'' else js_num x)"
| "num_string v = jnum_string v"

definition rank_string :: "jnum \<Rightarrow> jstr" where
  "rank_string v = (let s = num_string v in
     (if js_ends_with s (js ''.0'') then take (length s - 2) s else s) @ js ''th'')"

fun STATUS_NOUN :: "assertion_status \<Rightarrow> jstr" where
  "STATUS_NOUN AllEvents = js ''all events''"
| "STATUS_NOUN OkEvents = js ''successful events''"
| "STATUS_NOUN KoEvents = js ''failed events''"

definition target_rank :: "jnum option \<Rightarrow> jnum" where
  "target_rank r = (case r of Some v \<Rightarrow> v | None \<Rightarrow> JFin 0)"

fun describeTarget :: "assertion_target \<Rightarrow> jstr" where
  "describeTarget (Count s) = js ''count of '' @ STATUS_NOUN s"
| "describeTarget (Percent s) = js ''percentage of '' @ STATUS_NOUN s"
| "describeTarget MeanRequestsPerSecond = js ''mean requests per second''"
| "describeTarget (ResponseTime RtMin r) = js ''min of response time''"
| "describeTarget (ResponseTime RtMax r) = js ''max of response time''"
| "describeTarget (ResponseTime RtMean r) = js ''mean of response time''"
| "describeTarget (ResponseTime RtStddev r) = js ''standard deviation of response time''"
| "describeTarget (ResponseTime RtPercentile r) = rank_string (target_rank r) @ js '' percentile of response time''"

fun describeCondition :: "assertion_condition \<Rightarrow> jstr" where
  "describeCondition (CondLt v) = js ''is less than '' @ num_string v"
| "describeCondition (CondLte v) = js ''is less than or equal to '' @ num_string v"
| "describeCondition (CondGt v) = js ''is greater than '' @ num_string v"
| "describeCondition (CondGte v) = js ''is greater than or equal to '' @ num_string v"
| "describeCondition (CondIs v) = js ''is '' @ num_string v"
| "describeCondition (CondBetween lo hi inclusive) = js ''is between '' @ num_string lo @ js '' and '' @
     num_string hi @ (if inclusive then js '' inclusive'' else [])"
| "describeCondition (CondIn vs) = js ''is in List('' @ js_join (js '', '') (map num_string vs) @ js '')''"

definition describe_assertion :: "tool_assertion \<Rightarrow> jstr \<Rightarrow> jstr" where
  "describe_assertion a pathLabel = pathLabel @ js '': '' @ describeTarget (ta_target a) @ js '' '' @
     describeCondition (ta_condition a)"

fun holds :: "jnum \<Rightarrow> assertion_condition \<Rightarrow> bool" where
  "holds a (CondLt v) = jlt a v"
| "holds a (CondLte v) = jle a v"
| "holds a (CondGt v) = jlt v a"
| "holds a (CondGte v) = jle v a"
| "holds a (CondIs v) = jeq a v"
| "holds a (CondBetween lo hi inclusive) =
     (if inclusive then jle lo a \<and> jle a hi else jlt lo a \<and> jlt a hi)"
| "holds a (CondIn vs) = list_ex (jeq a) vs"

fun status_count :: "assertion_status \<Rightarrow> stat_rollup \<Rightarrow> int" where
  "status_count AllEvents row = sr_count row"
| "status_count OkEvents row = sr_okCount row"
| "status_count KoEvents row = sr_koCount row"

fun measure_target :: "assertion_target \<Rightarrow> stat_rollup \<Rightarrow> stat_error + rat option" where
  "measure_target (Count s) row = Inr (Some (of_int (status_count s row)))"
| "measure_target (Percent s) row = Inr (if sr_count row = 0 then None
     else Some (fmul (fdiv (of_int (status_count s row)) (of_int (sr_count row))) 100))"
| "measure_target MeanRequestsPerSecond row = Inr (Some (sr_throughputRps row))"
| "measure_target (ResponseTime stat r) row = (if sr_count row = 0 then Inr None
     else (case stat of
       RtMin \<Rightarrow> Inr (Some (of_int (sr_minMs row)))
     | RtMax \<Rightarrow> Inr (Some (of_int (sr_maxMs row)))
     | RtMean \<Rightarrow> Inr (Some (sr_meanMs row))
     | RtStddev \<Rightarrow> Inr (Some (sr_stddevMs row))
     | RtPercentile \<Rightarrow> (case target_rank r of
         JFin p \<Rightarrow> if 0 \<le> p \<and> p \<le> 100
           then map_sum id (map_option of_int) (hist_percentile p (mergeFresh (sr_histogramOk row) (sr_histogramKo row)))
           else Inr None
       | _ \<Rightarrow> Inr None)))"

definition row_key :: "metric_scope \<Rightarrow> jstr \<Rightarrow> jstr" where
  "row_key scope name = scope_js scope @ [0] @ name"

definition join_path :: "jstr list \<Rightarrow> jstr" where
  "join_path parts = js_join [slash] parts"

fun rowFor :: "assertion_path \<Rightarrow> (jstr, stat_rollup) jmap \<Rightarrow> stat_rollup option" where
  "rowFor Global byKey = jm_get byKey (row_key Run [])"
| "rowFor (Details parts) byKey = (case jm_get byKey (row_key Request (join_path parts)) of
     Some r \<Rightarrow> Some r | None \<Rightarrow> jm_get byKey (row_key Group (join_path parts)))"
| "rowFor ForAll byKey = None"

definition assertionLabel :: "jstr \<Rightarrow> jstr" where
  "assertionLabel rowName = js_join (js '' / '') (js_split slash rowName)"

definition evaluate_one :: "tool_assertion \<Rightarrow> jstr \<Rightarrow> stat_rollup option \<Rightarrow> jstr list \<Rightarrow>
    stat_error + evaluated_assertion" where
  "evaluate_one a label row parts = (case row of
     None \<Rightarrow> Inr \<lparr>ev_assertion = a,
       ev_expression = js ''Could not find stats matching assertion path List('' @ js_join (js '', '') parts @ js '')'',
       ev_actualValue = None, ev_outcome = NotApplicable\<rparr>
   | Some r \<Rightarrow> map_sum id (\<lambda>actual. \<lparr>ev_assertion = a, ev_expression = describe_assertion a label,
       ev_actualValue = actual, ev_outcome = (case actual of None \<Rightarrow> NotApplicable
         | Some v \<Rightarrow> if holds (JFin v) (ta_condition a) then Passed else Failed)\<rparr>) (measure_target (ta_target a) r))"

fun sum_list_all :: "('e + 'a) list \<Rightarrow> 'e + 'a list" where
  "sum_list_all [] = Inr []"
| "sum_list_all (x # xs) = bind_sum x (\<lambda>a. bind_sum (sum_list_all xs) (\<lambda>as. Inr (a # as)))"

definition rows_by_key :: "stat_rollup list \<Rightarrow> (jstr, stat_rollup) jmap" where
  "rows_by_key rows = fold (\<lambda>r m. jm_set (row_key (sr_scope r) (sr_name r)) r m) rows []"

definition evaluateToolAssertions :: "tool_assertion list \<Rightarrow> stat_rollup list \<Rightarrow>
    stat_error + evaluated_assertion list" where
  "evaluateToolAssertions assertions stats =
     (let responseTime = filter (\<lambda>s. sr_family s = ResponseTimeF) stats;
          groups = filter (\<lambda>s. sr_family s = GroupCumulated \<and> sr_scope s = Group) stats;
          byKey = rows_by_key (responseTime @ groups);
          requests = filter (\<lambda>r. sr_scope r = Request) responseTime
      in sum_list_all (concat (map (\<lambda>a. case ta_path a of
           ForAll \<Rightarrow> map (\<lambda>row. evaluate_one a (assertionLabel (sr_name row)) (Some row) [sr_name row]) requests
         | Details parts \<Rightarrow> [evaluate_one a (js_join (js '' / '') parts) (rowFor (ta_path a) byKey) parts]
         | Global \<Rightarrow> [evaluate_one a (js ''Global'') (rowFor (ta_path a) byKey) [js ''Global'']]) assertions)))"

section \<open>Keys\<close>

lemma row_key_inj [simp, key_simps]: "row_key s n = row_key s' n' \<longleftrightarrow> s = s' \<and> n = n'"
proof -
  have no0: "(0 :: 16 word) \<notin> set (scope_js t)" for t by (cases t) simp_all
  have "s = s' \<and> n = n'" if "row_key s n = row_key s' n'"
  proof -
    from that have "scope_js s @ 0 # n = scope_js s' @ 0 # n'" by (simp add: row_key_def)
    from append_sep_eq_left [OF this no0 no0] show ?thesis by simp
  qed
  then show ?thesis by auto
qed

lemma rows_by_key_get:
  assumes "distinct (map (\<lambda>r. (sr_scope r, sr_name r)) rows)"
  shows "jm_get (rows_by_key rows) (row_key s n) = find (\<lambda>r. sr_scope r = s \<and> sr_name r = n) rows"
  using assms
proof (induction rows rule: rev_induct)
  case Nil
  then show ?case by (simp add: rows_by_key_def)
next
  case (snoc r rows)
  have step: "rows_by_key (rows @ [r]) = jm_set (row_key (sr_scope r) (sr_name r)) r (rows_by_key rows)"
    by (simp add: rows_by_key_def)
  have find: "find P (xs @ [x]) = (case find P xs of Some y \<Rightarrow> Some y | None \<Rightarrow> if P x then Some x else None)" for P and xs :: "stat_rollup list" and x
    by (induction xs) auto
  show ?case
  proof (cases "sr_scope r = s \<and> sr_name r = n")
    case True
    then have "find (\<lambda>r. sr_scope r = s \<and> sr_name r = n) rows = None"
      using snoc.prems by (auto simp: find_None_iff image_iff)
    with True show ?thesis by (simp add: step find)
  next
    case False
    then show ?thesis using snoc by (auto simp: step find split: option.splits)
  qed
qed

section \<open>Measures\<close>

definition has_population :: "stat_rollup \<Rightarrow> bool" where
  "has_population r \<longleftrightarrow> (\<exists>M N. hist_rep (sr_histogramOk r) M \<and> hist_rep (sr_histogramKo r) N)"

lemma percentile_rep:
  assumes "hist_rep h M" and "0 \<le> p" and "p \<le> 100"
  shows "hist_percentile p h = Inr (if M = {#} then None
    else Some (sorted_list_of_multiset M ! nat (rank_index p (int (size M)))))"
  using hist_rep_percentiles [OF assms(1), of "[p]"] assms(2,3) by (simp add: hist_percentile_def in_range_def)

text \<open>\<open>measure\<close> never throws: the guard keeps every rank it asks for in range.\<close>

lemma measure_total: "has_population r \<Longrightarrow> \<exists>v. measure_target t r = Inr v"
proof (cases t)
  case (ResponseTime stat rk)
  assume r: "has_population r"
  show ?thesis
  proof (cases stat)
    case RtPercentile
    from r obtain M N where "hist_rep (mergeFresh (sr_histogramOk r) (sr_histogramKo r)) (M + N)"
      unfolding has_population_def using mergeFresh_rep by blast
    from percentile_rep [OF this] show ?thesis
      by (cases "target_rank rk") (auto simp: ResponseTime RtPercentile)
  qed (simp_all add: ResponseTime)
qed simp_all

lemma evaluate_total: "(\<And>r. row = Some r \<Longrightarrow> has_population r) \<Longrightarrow> \<exists>e. evaluate_one a label row parts = Inr e"
  using measure_total [of _ "ta_target a"] by (cases row) (fastforce simp: evaluate_one_def)+

lemma sum_list_all_Inr: "(\<And>x. x \<in> set xs \<Longrightarrow> \<exists>a. x = Inr a) \<Longrightarrow> sum_list_all xs = Inr (map projr xs)"
proof (induction xs)
  case Nil
  then show ?case by simp
next
  case (Cons x xs)
  obtain a where "x = Inr a" using Cons.prems [of x] by auto
  with Cons show ?case by simp
qed

section \<open>The specification\<close>

text \<open>
  The row an assertion names: the run's, or the request of that path, or failing that the group of
  that path, whose response time is its cumulated one.
\<close>

definition row_at :: "stat_rollup list \<Rightarrow> metric_family \<Rightarrow> metric_scope \<Rightarrow> jstr \<Rightarrow> stat_rollup option" where
  "row_at stats family scope name = find (\<lambda>r. sr_family r = family \<and> sr_scope r = scope \<and> sr_name r = name) stats"

fun named_row :: "stat_rollup list \<Rightarrow> assertion_path \<Rightarrow> stat_rollup option" where
  "named_row stats Global = row_at stats ResponseTimeF Run []"
| "named_row stats (Details parts) = (case row_at stats ResponseTimeF Request (join_path parts) of
     Some r \<Rightarrow> Some r | None \<Rightarrow> row_at stats GroupCumulated Group (join_path parts))"
| "named_row stats ForAll = None"

definition verdict_of :: "tool_assertion \<Rightarrow> stat_rollup option \<Rightarrow> tool_outcome" where
  "verdict_of a row = (case row of None \<Rightarrow> NotApplicable | Some r \<Rightarrow>
     (case measure_target (ta_target a) r of
        Inr (Some v) \<Rightarrow> if holds (JFin v) (ta_condition a) then Passed else Failed
      | _ \<Rightarrow> NotApplicable))"

definition expected_verdicts :: "stat_rollup list \<Rightarrow> tool_assertion \<Rightarrow> (tool_assertion \<times> tool_outcome) list" where
  "expected_verdicts stats a = (case ta_path a of
     ForAll \<Rightarrow> map (\<lambda>r. (a, verdict_of a (Some r)))
       (filter (\<lambda>r. sr_family r = ResponseTimeF \<and> sr_scope r = Request) stats)
   | p \<Rightarrow> [(a, verdict_of a (named_row stats p))])"

lemma find_filter: "find P (filter Q xs) = find (\<lambda>x. Q x \<and> P x) xs"
  by (induction xs) auto

lemma find_append: "find P (xs @ ys) = (case find P xs of Some y \<Rightarrow> Some y | None \<Rightarrow> find P ys)"
  by (induction xs) auto

definition row_identity :: "stat_rollup \<Rightarrow> metric_scope \<times> jstr \<times> metric_family" where
  "row_identity r = (sr_scope r, sr_name r, sr_family r)"

lemma rowFor_spec:
  assumes "distinct (map row_identity stats)" and "\<forall>r \<in> set stats. sr_family r = ResponseTimeF \<longrightarrow> sr_scope r \<noteq> Group"
    and "p \<noteq> ForAll"
  shows "rowFor p (rows_by_key (filter (\<lambda>s. sr_family s = ResponseTimeF) stats @
      filter (\<lambda>s. sr_family s = GroupCumulated \<and> sr_scope s = Group) stats)) = named_row stats p"
proof -
  let ?rt = "filter (\<lambda>s. sr_family s = ResponseTimeF) stats"
  let ?gr = "filter (\<lambda>s. sr_family s = GroupCumulated \<and> sr_scope s = Group) stats"
  have inj: "inj_on row_identity (set stats)" and d: "distinct stats" using assms(1) by (simp_all add: distinct_map)
  have "inj_on (\<lambda>r. (sr_scope r, sr_name r)) (set (?rt @ ?gr))"
  proof (rule inj_onI)
    fix a b assume ab: "a \<in> set (?rt @ ?gr)" "b \<in> set (?rt @ ?gr)" "(sr_scope a, sr_name a) = (sr_scope b, sr_name b)"
    then have "sr_family a = sr_family b" using assms(2) by auto
    then have "row_identity a = row_identity b" using ab(3) by (simp add: row_identity_def)
    then show "a = b" using inj ab(1,2) by (auto dest: inj_onD)
  qed
  moreover have "distinct (?rt @ ?gr)" using d by auto
  ultimately have dist: "distinct (map (\<lambda>r. (sr_scope r, sr_name r)) (?rt @ ?gr))"
    by (simp only: distinct_map)
  have get: "jm_get (rows_by_key (?rt @ ?gr)) (row_key s n) =
      (case find (\<lambda>x. sr_family x = ResponseTimeF \<and> sr_scope x = s \<and> sr_name x = n) stats of Some y \<Rightarrow> Some y
       | None \<Rightarrow> find (\<lambda>x. sr_family x = GroupCumulated \<and> sr_scope x = Group \<and> sr_scope x = s \<and> sr_name x = n) stats)" for s n
    unfolding rows_by_key_get [OF dist] find_append find_filter conj_assoc ..
  have none: "find (\<lambda>x. sr_family x = GroupCumulated \<and> sr_scope x = Group \<and> sr_scope x = s \<and> sr_name x = n) stats = None"
    if "s \<noteq> Group" for s n using that by (auto simp: find_None_iff)
  have group: "find (\<lambda>x. sr_family x = ResponseTimeF \<and> sr_scope x = Group \<and> sr_name x = n) stats = None" for n
    using assms(2) by (auto simp: find_None_iff)
  have grp: "find (\<lambda>x. sr_family x = GroupCumulated \<and> sr_scope x = Group \<and> sr_scope x = Group \<and> sr_name x = n) stats =
      row_at stats GroupCumulated Group n" for n
    unfolding row_at_def by (rule arg_cong [of _ _ "\<lambda>P. find P stats"]) auto
  show ?thesis
    using assms(3) by (cases p) (auto simp: get none group grp row_at_def split: option.splits)
qed

lemma judge_rows:
  assumes "distinct (map row_identity stats)" and "\<forall>r \<in> set stats. sr_family r = ResponseTimeF \<longrightarrow> sr_scope r \<noteq> Group"
    and "\<forall>r \<in> set stats. has_population r"
  shows "\<exists>out. evaluateToolAssertions as stats = Inr out \<and>
    map (\<lambda>e. (ev_assertion e, ev_outcome e)) out = concat (map (expected_verdicts stats) as)"
proof -
  define byKey where "byKey = rows_by_key (filter (\<lambda>s. sr_family s = ResponseTimeF) stats @
      filter (\<lambda>s. sr_family s = GroupCumulated \<and> sr_scope s = Group) stats)"
  have row: "rowFor p byKey = named_row stats p" if "p \<noteq> ForAll" for p
    unfolding byKey_def by (rule rowFor_spec [OF assms(1,2) that])
  have pop: "has_population r" if "named_row stats p = Some r" for p r
    using that assms(3) by (cases p) (auto simp: row_at_def find_Some_iff split: option.splits)
  define parts where "parts = (\<lambda>a. case ta_path a of
           ForAll \<Rightarrow> map (\<lambda>row. evaluate_one a (assertionLabel (sr_name row)) (Some row) [sr_name row])
             (filter (\<lambda>r. sr_scope r = Request) (filter (\<lambda>s. sr_family s = ResponseTimeF) stats))
         | Details parts \<Rightarrow> [evaluate_one a (js_join (js '' / '') parts) (rowFor (ta_path a) byKey) parts]
         | Global \<Rightarrow> [evaluate_one a (js ''Global'') (rowFor (ta_path a) byKey) [js ''Global'']])"
  have verdict: "(ev_assertion e, ev_outcome e) = (a, verdict_of a row)" if "evaluate_one a label row ps = Inr e" for a label row ps e
    using that by (auto simp: evaluate_one_def verdict_of_def split: option.splits sum.splits)
  have ok: "\<exists>e. x = Inr e" if "x \<in> set (parts a)" for a x
    using that assms(3) pop row by (cases "ta_path a")
      (auto simp: parts_def intro!: evaluate_total simp del: rowFor.simps named_row.simps)
  have each: "map (\<lambda>e. (ev_assertion (projr e), ev_outcome (projr e))) (parts a) = expected_verdicts stats a" for a
  proof (cases "ta_path a")
    case ForAll
    have "(ev_assertion (projr (evaluate_one a l (Some r) ps)), ev_outcome (projr (evaluate_one a l (Some r) ps))) =
        (a, verdict_of a (Some r))" if "r \<in> set stats" for r l ps
      using evaluate_total [of "Some r" a l ps] assms(3) that verdict by fastforce
    then show ?thesis by (simp add: parts_def expected_verdicts_def ForAll conj_commute)
  next
    case Global
    then show ?thesis
      using ok [of "evaluate_one a (js ''Global'') (rowFor (ta_path a) byKey) [js ''Global'']" a] row [of Global]
      by (auto simp: parts_def expected_verdicts_def dest: verdict simp del: rowFor.simps named_row.simps)
  next
    case (Details ps)
    then show ?thesis
      using ok [of "evaluate_one a (js_join (js '' / '') ps) (rowFor (ta_path a) byKey) ps" a] row [of "Details ps"]
      by (auto simp: parts_def expected_verdicts_def dest: verdict simp del: rowFor.simps named_row.simps)
  qed
  have "evaluateToolAssertions as stats = sum_list_all (concat (map parts as))"
    unfolding evaluateToolAssertions_def Let_def parts_def byKey_def ..
  also have "\<dots> = Inr (map projr (concat (map parts as)))"
    using ok by (intro sum_list_all_Inr) auto
  finally have out: "evaluateToolAssertions as stats = Inr (map projr (concat (map parts as)))" .
  have "map (\<lambda>e. (ev_assertion e, ev_outcome e)) (map projr (concat (map parts as))) = concat (map (expected_verdicts stats) as)"
    using each by (simp add: map_concat comp_def)
  with out show ?thesis by simp
qed

definition sample_row :: stat_rollup where
  "sample_row = row_of Run [] ResponseTimeF 1000 [] {#4#} {#9#} (hist_record 4 new_histogram) (hist_record 9 new_histogram)"

lemma sample_row_population: "has_population sample_row"
  using sample_rep by (auto simp: has_population_def sample_row_def row_of_def Let_def)

section \<open>Properties\<close>

text \<open>
  C15: Judging the declared assertions never throws, whatever rank the log
  asks for. A run-wide or named assertion gives one verdict, a \<open>forAll\<close> one per request row in row
  order; the named row is the request of that path before the group, whose response time is its
  cumulated one. It passes or fails when a value was measured and is not applicable otherwise, and
  a measured percentile is the nearest-rank observation of the row's whole population.
\<close>

theorem tool_assertions_judge_rows:
  assumes "distinct (map row_identity stats)" and "\<forall>r \<in> set stats. sr_family r = ResponseTimeF \<longrightarrow> sr_scope r \<noteq> Group"
    and "\<forall>r \<in> set stats. has_population r"
  shows "\<exists>out. evaluateToolAssertions as stats = Inr out \<and>
    map (\<lambda>e. (ev_assertion e, ev_outcome e)) out = concat (map (expected_verdicts stats) as) \<and>
    (\<forall>r M N p. r \<in> set stats \<and> sr_count r \<noteq> 0 \<and> hist_rep (sr_histogramOk r) M \<and> hist_rep (sr_histogramKo r) N \<and>
       M + N \<noteq> {#} \<and> 0 \<le> p \<and> p \<le> 100 \<longrightarrow> measure_target (ResponseTime RtPercentile (Some (JFin p))) r =
       Inr (Some (of_int (sorted_list_of_multiset (M + N) ! nat (rank_index p (int (size (M + N))))))))"
proof -
  obtain out where "evaluateToolAssertions as stats = Inr out"
    "map (\<lambda>e. (ev_assertion e, ev_outcome e)) out = concat (map (expected_verdicts stats) as)"
    using judge_rows [OF assms] by blast
  then show ?thesis using percentile_rep [OF mergeFresh_rep] by (auto simp: target_rank_def)
qed

theorem tool_assertions_judge_rows_witness:
  "let a = \<lparr>ta_path = Global, ta_target = ResponseTime RtPercentile (Some (JFin 150)), ta_condition = CondLt (JFin 9)\<rparr>;
       b = \<lparr>ta_path = Global, ta_target = Count KoEvents, ta_condition = CondLt (JFin 2)\<rparr> in
   \<exists>out. evaluateToolAssertions [a, b] [sample_row] = Inr out \<and>
     map (\<lambda>e. (ev_assertion e, ev_outcome e)) out = [(a, NotApplicable), (b, Passed)]"
proof -
  let ?a = "\<lparr>ta_path = Global, ta_target = ResponseTime RtPercentile (Some (JFin 150)), ta_condition = CondLt (JFin 9)\<rparr>"
  let ?b = "\<lparr>ta_path = Global, ta_target = Count KoEvents, ta_condition = CondLt (JFin 2)\<rparr>"
  have "sr_count sample_row = 2" "sr_koCount sample_row = 1" "sr_scope sample_row = Run" "sr_name sample_row = []"
    "sr_family sample_row = ResponseTimeF"
    by (simp_all add: sample_row_def row_of_def Let_def)
  then have "concat (map (expected_verdicts [sample_row]) [?a, ?b]) = [(?a, NotApplicable), (?b, Passed)]"
    by (simp add: expected_verdicts_def verdict_of_def row_at_def target_rank_def)
  moreover have "\<forall>r \<in> set [sample_row]. sr_family r = ResponseTimeF \<longrightarrow> sr_scope r \<noteq> Group"
    by (simp add: sample_row_def row_of_def Let_def)
  ultimately show ?thesis
    using tool_assertions_judge_rows [of "[sample_row]" "[?a, ?b]"] sample_row_population
    unfolding Let_def by auto
qed

end
