(* ===== verification/Sla.thy ===== *)
theory Sla
  imports ToolAssertions
begin

text \<open>
  \<open>packages/sla\<close>: the metric of a rule (\<open>metrics.ts\<close>), the evaluation of the rules of a project
  against the rows of a run, live or finished (\<open>evaluate.ts\<close>), and the one mapping from the engine's rows
  (\<open>stats.ts\<close>). \<open>SCALARS\<close> is an object literal, so its lookup also finds the members of
  \<open>Object.prototype\<close>: calling one of them throws, or answers with something that is no number. Authoring
  (\<open>isResolvableSlaMetric\<close> of \<open>packages/contracts/src/rules.ts\<close>) admits none of these names. A percentile
  is a JavaScript number, \<open>jnum\<close>, because stored columns are read from JSON.
\<close>

datatype comparator = Lte | Gte
datatype sla_outcome = RulePassed | RuleFailed | RuleNotApplicable
datatype sla_verdict = VerdictPassed | VerdictFailed | VerdictNotEvaluated

record evaluable_rule =
  ru_id :: jstr
  ru_scope :: jstr
  ru_targetName :: "jstr option"
  ru_family :: jstr
  ru_metric :: jstr
  ru_comparator :: comparator
  ru_threshold :: rat

record evaluable_stat =
  sv_scope :: jstr
  sv_name :: jstr
  sv_family :: jstr
  sv_count :: int
  sv_okCount :: int
  sv_koCount :: int
  sv_errorRate :: rat
  sv_minMs :: int
  sv_maxMs :: int
  sv_meanMs :: rat
  sv_stddevMs :: rat
  sv_throughputRps :: rat
  sv_percentiles :: "(jstr, jnum) jmap"
  sv_histogram :: "histogram option"

record sla_assertion =
  sa_ruleId :: jstr
  sa_outcome :: sla_outcome
  sa_actualValue :: "jnum option"
  sa_message :: jstr
  sa_ruleSnapshot :: evaluable_rule

section \<open>Metrics\<close>

text \<open>The own properties of the literal, and the members that it inherits.\<close>

definition SCALARS :: "(jstr \<times> (evaluable_stat \<Rightarrow> rat)) list" where
  "SCALARS = [(js ''count'', \<lambda>s. of_int (sv_count s)), (js ''mean'', sv_meanMs), (js ''min'', \<lambda>s. of_int (sv_minMs s)),
     (js ''max'', \<lambda>s. of_int (sv_maxMs s)), (js ''stddev'', sv_stddevMs), (js ''error_rate'', sv_errorRate),
     (js ''throughput_rps'', sv_throughputRps)]"

definition throwing_members :: "jstr list" where
  "throwing_members = map js [''hasOwnProperty'', ''isPrototypeOf'', ''propertyIsEnumerable'', ''valueOf'',
     ''toLocaleString'', ''__defineGetter__'', ''__defineSetter__'', ''__lookupGetter__'', ''__lookupSetter__'', ''__proto__'']"

definition answering_members :: "jstr list" where
  "answering_members = map js [''constructor'', ''toString'']"

text \<open>\<open>/^p(\d+(?:\.\d+)?)$/\<close> and \<open>Number(m[1])\<close>.\<close>

definition is_digit :: "16 word \<Rightarrow> bool" where
  "is_digit c \<longleftrightarrow> 0x30 \<le> c \<and> c \<le> 0x39"

fun digits_value :: "jstr \<Rightarrow> int \<Rightarrow> int" where
  "digits_value [] n = n"
| "digits_value (c # cs) n = digits_value cs (n * 10 + (uint c - 0x30))"

definition PERCENTILE :: "jstr \<Rightarrow> rat option" where
  "PERCENTILE metric = (case metric of
     [] \<Rightarrow> None
   | c # rest \<Rightarrow> let whole = takeWhile is_digit rest in
       if c \<noteq> 0x70 \<or> whole = [] then None
       else case dropWhile is_digit rest of
         [] \<Rightarrow> Some (rnd (of_int (digits_value whole 0)))
       | dot # decimals \<Rightarrow> if dot = 0x2E \<and> decimals \<noteq> [] \<and> list_all is_digit decimals
           then Some (rnd (of_int (digits_value (whole @ decimals) 0) / 10 ^ length decimals)) else None)"

text \<open>
  \<open>const scalar = SCALARS[metric]; if (scalar) return scalar(stat)\<close>: without a receiver, all inherited
  members but two throw a \<open>TypeError\<close> (\<open>__proto__\<close> because it is no function). \<open>constructor\<close> returns the row
  itself and \<open>toString\<close> the text \<open>[object Undefined]\<close>, where the declared result is a number; the model
  carries no such value on and stops with an error of its own.
\<close>

definition resolveMetric :: "evaluable_stat \<Rightarrow> jstr \<Rightarrow> stat_error + jnum option" where
  "resolveMetric stat metric = (case jm_get SCALARS metric of
     Some scalar \<Rightarrow> Inr (Some (JFin (scalar stat)))
   | None \<Rightarrow>
     if metric \<in> set throwing_members then Inl (NotCallable metric)
     else if metric \<in> set answering_members then Inl (NotANumber metric)
     else (case PERCENTILE metric of
       None \<Rightarrow> Inr None
     | Some p \<Rightarrow> (case jm_get (sv_percentiles stat) metric of
         Some stored \<Rightarrow> Inr (Some stored)
       | None \<Rightarrow> if \<not> (0 < p \<and> p < 100) then Inr None
           else (case sv_histogram stat of
             None \<Rightarrow> Inr None
           | Some h \<Rightarrow> map_sum id (map_option (\<lambda>v. JFin (of_int v))) (hist_percentile p h)))))"

text \<open>The names that authoring admits.\<close>

definition SLA_METRIC_SCALARS :: "jstr list" where
  "SLA_METRIC_SCALARS = map js [''count'', ''mean'', ''min'', ''max'', ''stddev'', ''error_rate'', ''throughput_rps'']"

definition isResolvableSlaMetric :: "jstr \<Rightarrow> bool" where
  "isResolvableSlaMetric metric \<longleftrightarrow> metric \<in> set SLA_METRIC_SCALARS \<or>
     (case PERCENTILE metric of None \<Rightarrow> False | Some p \<Rightarrow> 0 < p \<and> p < 100)"

definition toEvaluableStat :: "stat_rollup \<Rightarrow> evaluable_stat" where
  "toEvaluableStat s = \<lparr>sv_scope = scope_js (sr_scope s), sv_name = sr_name s, sv_family = family_js (sr_family s),
     sv_count = sr_count s, sv_okCount = sr_okCount s, sv_koCount = sr_koCount s, sv_errorRate = sr_errorRate s,
     sv_minMs = sr_minMs s, sv_maxMs = sr_maxMs s, sv_meanMs = sr_meanMs s, sv_stddevMs = sr_stddevMs s,
     sv_throughputRps = sr_throughputRps s, sv_percentiles = map (map_prod id (\<lambda>v. JFin (of_int v))) (sr_percentiles s),
     sv_histogram = Some (mergeFresh (sr_histogramOk s) (sr_histogramKo s))\<rparr>"

definition toEvaluableStats :: "stat_rollup list \<Rightarrow> evaluable_stat list" where
  "toEvaluableStats stats = map toEvaluableStat stats"

section \<open>Evaluation\<close>

definition target_of :: "evaluable_rule \<Rightarrow> jstr" where
  "target_of rule = (case ru_targetName rule of Some t \<Rightarrow> t | None \<Rightarrow> [])"

definition target_label :: "evaluable_rule \<Rightarrow> jstr" where
  "target_label rule = (case ru_targetName rule of Some t \<Rightarrow> t | None \<Rightarrow> js ''the run'')"

definition describe_rule :: "evaluable_rule \<Rightarrow> jstr" where
  "describe_rule rule = ru_metric rule @ js '' of '' @ target_label rule @ js '' ('' @ ru_family rule @ js '') '' @
     (if ru_comparator rule = Lte then [0x2264] else [0x2265]) @ js '' '' @ js_num (ru_threshold rule)"

definition liveEvidenceFloor :: "evaluable_rule \<Rightarrow> int" where
  "liveEvidenceFloor rule = (case PERCENTILE (ru_metric rule) of
     None \<Rightarrow> 100
   | Some q \<Rightarrow> if q \<le> 0 \<or> 100 \<le> q then 100 else \<lceil>fmul (fdiv 100 (fsub 100 q)) 10\<rceil>)"

definition leaf_matches :: "jstr \<Rightarrow> evaluable_stat list \<Rightarrow> evaluable_stat list" where
  "leaf_matches target candidates = filter (\<lambda>s. js_ends_with (sv_name s) (slash # target)) candidates"

definition meets :: "evaluable_rule \<Rightarrow> jnum \<Rightarrow> bool" where
  "meets rule actual = (if ru_comparator rule = Lte then jle actual (JFin (ru_threshold rule))
     else jle (JFin (ru_threshold rule)) actual)"

definition not_checked :: "evaluable_rule \<Rightarrow> jnum option \<Rightarrow> jstr \<Rightarrow> sla_assertion" where
  "not_checked rule actual message = \<lparr>sa_ruleId = ru_id rule, sa_outcome = RuleNotApplicable, sa_actualValue = actual,
     sa_message = message, sa_ruleSnapshot = rule\<rparr>"

definition msg_ambiguous :: "evaluable_rule \<Rightarrow> evaluable_stat list \<Rightarrow> jstr" where
  "msg_ambiguous rule ambiguous = js ''\"'' @ target_of rule @ js ''\" is ambiguous in this run '' @ [0x2014] @
     js '' it matches '' @ js_join (js '', '') (map sv_name ambiguous) @ js '' '' @ [0x2014] @ js '' so '' @
     describe_rule rule @ js '' was not checked. Target one of those names exactly.''"

definition msg_missing :: "evaluable_rule \<Rightarrow> jstr" where
  "msg_missing rule = js ''No '' @ ru_family rule @ js '' statistics for '' @ target_label rule @
     js '' in this run, so '' @ describe_rule rule @ js '' was not checked.''"

definition msg_unresolved :: "evaluable_rule \<Rightarrow> jstr" where
  "msg_unresolved rule = js ''Metric \"'' @ ru_metric rule @ js ''\" could not be resolved for '' @
     target_label rule @ js '', so '' @ describe_rule rule @ js '' was not checked.''"

definition msg_thin :: "evaluable_rule \<Rightarrow> int \<Rightarrow> int \<Rightarrow> jnum \<Rightarrow> jstr" where
  "msg_thin rule observed least actual = describe_rule rule @ js '' was not checked yet '' @ [0x2014] @ js '' '' @
     js_int observed @ js '' of '' @ js_int least @ js '' observations. Actual so far: '' @ jnum_string actual @ js ''.''"

definition msg_actual :: "evaluable_rule \<Rightarrow> jstr \<Rightarrow> jnum \<Rightarrow> jstr" where
  "msg_actual rule name actual = describe_rule rule @ js '' '' @ [0x2014] @ js '' actual '' @ jnum_string actual @
     (if name \<noteq> target_of rule then js '' (matched \"'' @ name @ js ''\")'' else [])"

definition evaluate_rule :: "(evaluable_rule \<Rightarrow> int) option \<Rightarrow> evaluable_stat list \<Rightarrow> evaluable_rule \<Rightarrow>
    stat_error + sla_assertion" where
  "evaluate_rule minObservations stats rule =
     (let target = target_of rule;
          candidates = filter (\<lambda>s. sv_scope s = ru_scope rule \<and> sv_family s = ru_family rule) stats;
          exact = find (\<lambda>s. sv_name s = target) candidates;
          byLeaf = leaf_matches target candidates;
          try_leaf = (exact = None \<and> target \<noteq> []);
          stat = (if try_leaf \<and> length byLeaf = 1 then Some (hd byLeaf) else exact);
          ambiguous = (if try_leaf \<and> length byLeaf \<noteq> 1 then byLeaf else [])
      in if 1 < length ambiguous then Inr (not_checked rule None (msg_ambiguous rule ambiguous))
         else case stat of
           None \<Rightarrow> Inr (not_checked rule None (msg_missing rule))
         | Some stat \<Rightarrow> bind_sum (resolveMetric stat (ru_metric rule)) (\<lambda>actual. case actual of
             None \<Rightarrow> Inr (not_checked rule None (msg_unresolved rule))
           | Some actual \<Rightarrow>
               if actual = JNaN then Inr (not_checked rule None (msg_unresolved rule))
               else (let least = (case minObservations of Some f \<Rightarrow> f rule | None \<Rightarrow> 0) in
                 if sv_count stat < least
                 then Inr (not_checked rule (Some actual) (msg_thin rule (sv_count stat) least actual))
                 else Inr \<lparr>sa_ruleId = ru_id rule, sa_outcome = (if meets rule actual then RulePassed else RuleFailed),
                   sa_actualValue = Some actual, sa_message = msg_actual rule (sv_name stat) actual,
                   sa_ruleSnapshot = rule\<rparr>)))"

definition verdict_from :: "sla_assertion list \<Rightarrow> sla_verdict" where
  "verdict_from as = (if list_ex (\<lambda>a. sa_outcome a = RuleFailed) as then VerdictFailed
     else if list_ex (\<lambda>a. sa_outcome a = RulePassed) as then VerdictPassed else VerdictNotEvaluated)"

definition evaluateRules :: "(evaluable_rule \<Rightarrow> int) option \<Rightarrow> evaluable_rule list \<Rightarrow> evaluable_stat list \<Rightarrow>
    stat_error + sla_assertion list \<times> sla_verdict" where
  "evaluateRules minObservations rules stats =
     map_sum id (\<lambda>as. (as, verdict_from as)) (sum_list_all (map (evaluate_rule minObservations stats) rules))"

section \<open>The evaluation never throws\<close>

lemma percentile_never_throws: "0 \<le> p \<Longrightarrow> p \<le> 100 \<Longrightarrow> \<exists>v. hist_percentile p h = Inr v"
  by (auto simp: hist_percentile_def hist_percentiles_def nearestRankIndex_Inr split: prod.splits)

text \<open>A rule whose metric is no inherited member; every rule that authoring admits is one.\<close>

definition plain_metric :: "jstr \<Rightarrow> bool" where
  "plain_metric metric \<longleftrightarrow> metric \<notin> set throwing_members \<and> metric \<notin> set answering_members"

definition plain_rules :: "evaluable_rule list \<Rightarrow> bool" where
  "plain_rules rules \<longleftrightarrow> list_all (\<lambda>rule. plain_metric (ru_metric rule)) rules"

lemma plain_rules_Nil [simp]: "plain_rules []"
  by (simp add: plain_rules_def)

lemma percentile_shape: "PERCENTILE metric = Some p \<Longrightarrow> \<exists>c rest. metric = 0x70 # c # rest \<and> is_digit c"
  by (cases metric; cases "tl metric") (auto simp: PERCENTILE_def Let_def split: list.splits if_splits)

lemma member_shape:
  "list_all (\<lambda>name. name \<notin> set SLA_METRIC_SCALARS \<and> \<not> is_digit (name ! 1)) (throwing_members @ answering_members)"
  by code_simp

lemma percentile_plain:
  assumes "PERCENTILE metric = Some p"
  shows "plain_metric metric"
proof -
  have "is_digit (metric ! 1)" using percentile_shape [OF assms] by auto
  then show ?thesis using member_shape by (auto simp: plain_metric_def list_all_iff)
qed

lemma resolvable_plain: "isResolvableSlaMetric metric \<Longrightarrow> plain_metric metric"
  using percentile_plain [of metric] member_shape
  by (auto simp: isResolvableSlaMetric_def plain_metric_def list_all_iff split: option.splits)

lemma authored_plain: "list_all (\<lambda>rule. isResolvableSlaMetric (ru_metric rule)) rules \<Longrightarrow> plain_rules rules"
  by (auto simp: plain_rules_def list_all_iff resolvable_plain)

lemma resolve_never_throws:
  assumes "plain_metric metric"
  shows "\<exists>v. resolveMetric stat metric = Inr v"
proof -
  have "\<exists>v. map_sum id f (hist_percentile p h) = Inr v" if "0 < p" "p < 100" for p h and f :: "int option \<Rightarrow> jnum option"
    using percentile_never_throws [of p h] that by auto
  then show ?thesis using assms by (auto simp: resolveMetric_def plain_metric_def split: option.splits)
qed

text \<open>The row a rule is bound to: the exact name first, otherwise the only name with that leaf.\<close>

definition candidates_of :: "evaluable_rule \<Rightarrow> evaluable_stat list \<Rightarrow> evaluable_stat list" where
  "candidates_of rule stats = filter (\<lambda>s. sv_scope s = ru_scope rule \<and> sv_family s = ru_family rule) stats"

definition bound_row :: "evaluable_rule \<Rightarrow> evaluable_stat list \<Rightarrow> evaluable_stat option" where
  "bound_row rule stats = (case filter (\<lambda>s. sv_name s = target_of rule) (candidates_of rule stats) of
     s # _ \<Rightarrow> Some s
   | [] \<Rightarrow> (case filter (\<lambda>s. \<exists>p. sv_name s = p @ slash # target_of rule) (candidates_of rule stats) of
       [s] \<Rightarrow> if target_of rule = [] then None else Some s
     | _ \<Rightarrow> None))"

definition measured :: "(evaluable_rule \<Rightarrow> int) option \<Rightarrow> evaluable_stat list \<Rightarrow> evaluable_rule \<Rightarrow> jnum option" where
  "measured minObservations stats rule = (case bound_row rule stats of
     None \<Rightarrow> None
   | Some s \<Rightarrow> (case resolveMetric s (ru_metric rule) of
       Inr (Some v) \<Rightarrow> if v = JNaN \<or> sv_count s < (case minObservations of Some f \<Rightarrow> f rule | None \<Rightarrow> 0) then None else Some v
     | _ \<Rightarrow> None))"

lemma find_hd: "find P xs = (case filter P xs of [] \<Rightarrow> None | x # _ \<Rightarrow> Some x)"
  by (induction xs) auto

lemma leaf_spec: "leaf_matches t cs = filter (\<lambda>s. \<exists>p. sv_name s = p @ slash # t) cs"
  by (simp add: leaf_matches_def js_ends_with_iff)

text \<open>Everything \<open>evaluate_rule\<close> answers, in terms of what was measured.\<close>

lemma evaluate_rule_spec:
  assumes "plain_metric (ru_metric rule)"
  shows "\<exists>a. evaluate_rule minObs stats rule = Inr a \<and> sa_ruleId a = ru_id rule \<and> sa_ruleSnapshot a = rule \<and>
    sa_outcome a = (case measured minObs stats rule of None \<Rightarrow> RuleNotApplicable
      | Some v \<Rightarrow> if meets rule v then RulePassed else RuleFailed) \<and>
    (\<forall>v. measured minObs stats rule = Some v \<longrightarrow> sa_actualValue a = Some v)"
proof -
  let ?t = "target_of rule" and ?cs = "candidates_of rule stats"
  define ex where "ex = filter (\<lambda>s. sv_name s = ?t) ?cs"
  define lf where "lf = leaf_matches ?t ?cs"
  let ?exact = "find (\<lambda>s. sv_name s = ?t) ?cs"
  define stat where "stat = (if (?exact = None \<and> ?t \<noteq> []) \<and> length lf = 1 then Some (hd lf) else ?exact)"
  define amb where "amb = (if (?exact = None \<and> ?t \<noteq> []) \<and> length lf \<noteq> 1 then lf else [])"
  have exact: "?exact = (case ex of [] \<Rightarrow> None | x # _ \<Rightarrow> Some x)" by (simp add: find_hd ex_def)
  have bound: "bound_row rule stats = (if 1 < length amb then None else stat)"
    unfolding bound_row_def ex_def [symmetric] leaf_spec [symmetric] lf_def [symmetric] amb_def stat_def exact
    by (auto split: list.splits)
  note ev = evaluate_rule_def [of minObs stats rule, unfolded Let_def, folded candidates_of_def, folded lf_def,
    folded amb_def stat_def]
  show ?thesis
  proof (cases "1 < length amb")
    case True
    then show ?thesis unfolding ev measured_def bound by (simp add: not_checked_def)
  next
    case False
    show ?thesis
    proof (cases stat)
      case None
      with False show ?thesis unfolding ev measured_def bound by (simp add: not_checked_def)
    next
      case (Some s)
      obtain r where r: "resolveMetric s (ru_metric rule) = Inr r" using resolve_never_throws [OF assms] by blast
      with False Some show ?thesis unfolding ev measured_def bound
        by (auto simp: not_checked_def split: option.splits)
    qed
  qed
qed

section \<open>Properties\<close>

text \<open>
  C16: Evaluating rules whose metrics are no inherited members of an object never
  throws, however little the run measured. It gives one assertion per rule, in order, each with the
  rule as it read. A rule is bound to the row of its exact name, otherwise to the only row with that
  leaf and never to one of several; it passes or fails exactly when the bound row has a number for its
  metric on enough observations. The verdict fails when a rule failed, passes when none failed and one
  was checked, and is otherwise not evaluated. Every rule that authoring admits is covered.
\<close>

theorem verdict_never_passes_unchecked:
  assumes "plain_rules rules"
  shows "\<exists>as v. evaluateRules minObs rules stats = Inr (as, v) \<and>
    map sa_ruleSnapshot as = rules \<and>
    map sa_outcome as = map (\<lambda>rule. case measured minObs stats rule of None \<Rightarrow> RuleNotApplicable
      | Some x \<Rightarrow> if meets rule x then RulePassed else RuleFailed) rules \<and>
    (v = VerdictFailed \<longleftrightarrow> (\<exists>rule \<in> set rules. \<exists>x. measured minObs stats rule = Some x \<and> \<not> meets rule x)) \<and>
    (v = VerdictPassed \<longleftrightarrow> (\<exists>rule \<in> set rules. measured minObs stats rule \<noteq> None) \<and>
      \<not> (\<exists>rule \<in> set rules. \<exists>x. measured minObs stats rule = Some x \<and> \<not> meets rule x))"
proof -
  define f where "f = evaluate_rule minObs stats"
  define as where "as = map (\<lambda>rule. projr (f rule)) rules"
  have f: "f rule = Inr (projr (f rule))" "sa_ruleSnapshot (projr (f rule)) = rule"
    "sa_outcome (projr (f rule)) = (case measured minObs stats rule of None \<Rightarrow> RuleNotApplicable
      | Some x \<Rightarrow> if meets rule x then RulePassed else RuleFailed)" if "rule \<in> set rules" for rule
    using evaluate_rule_spec [of rule minObs stats] that assms by (auto simp: f_def plain_rules_def list_all_iff)
  have "sum_list_all (map f rules) = Inr (map projr (map f rules))"
    using f(1) by (intro sum_list_all_Inr) auto
  then have "evaluateRules minObs rules stats = Inr (as, verdict_from as)"
    by (simp add: evaluateRules_def f_def [symmetric] as_def comp_def)
  moreover have "map sa_ruleSnapshot as = rules" by (simp add: as_def comp_def f(2) cong: map_cong)
  moreover have "map sa_outcome as = map (\<lambda>rule. case measured minObs stats rule of None \<Rightarrow> RuleNotApplicable
      | Some x \<Rightarrow> if meets rule x then RulePassed else RuleFailed) rules" by (simp add: as_def comp_def f(3) cong: map_cong)
  moreover have failed: "list_ex (\<lambda>a. sa_outcome a = RuleFailed) as \<longleftrightarrow>
      (\<exists>rule \<in> set rules. \<exists>x. measured minObs stats rule = Some x \<and> \<not> meets rule x)"
    by (auto simp: list_ex_iff as_def f(3) split: option.splits if_splits)
  moreover have passed: "list_ex (\<lambda>a. sa_outcome a = RulePassed) as \<longleftrightarrow>
      (\<exists>rule \<in> set rules. \<exists>x. measured minObs stats rule = Some x \<and> meets rule x)"
    by (auto simp: list_ex_iff as_def f(3) split: option.splits if_splits)
  have "verdict_from as = VerdictFailed \<longleftrightarrow> (\<exists>rule \<in> set rules. \<exists>x. measured minObs stats rule = Some x \<and> \<not> meets rule x)"
    unfolding verdict_from_def failed by simp
  moreover have "verdict_from as = VerdictPassed \<longleftrightarrow> (\<exists>rule \<in> set rules. measured minObs stats rule \<noteq> None) \<and>
      \<not> (\<exists>rule \<in> set rules. \<exists>x. measured minObs stats rule = Some x \<and> \<not> meets rule x)"
    unfolding verdict_from_def failed passed by (simp split del: option.splits) blast
  ultimately show ?thesis by blast
qed


definition p95_rule :: evaluable_rule where
  "p95_rule = \<lparr>ru_id = js ''r'', ru_scope = js ''run'', ru_targetName = None, ru_family = js ''response_time'',
     ru_metric = js ''p95'', ru_comparator = Lte, ru_threshold = 800\<rparr>"

lemma p95_plain: "plain_rules [p95_rule]"
  by code_simp

theorem verdict_never_passes_unchecked_witness:
  "\<exists>as. evaluateRules None [p95_rule] [] = Inr (as, VerdictNotEvaluated) \<and> map sa_outcome as = [RuleNotApplicable]"
proof -
  obtain xs v where as: "evaluateRules None [p95_rule] [] = Inr (xs, v)"
    "map sa_outcome xs = map (\<lambda>rule. case measured None [] rule of None \<Rightarrow> RuleNotApplicable
      | Some x \<Rightarrow> if meets rule x then RulePassed else RuleFailed) [p95_rule]"
    "v = VerdictFailed \<longleftrightarrow> (\<exists>rule \<in> set [p95_rule]. \<exists>x. measured None [] rule = Some x \<and> \<not> meets rule x)"
    "v = VerdictPassed \<longleftrightarrow> (\<exists>rule \<in> set [p95_rule]. measured None [] rule \<noteq> None) \<and>
      \<not> (\<exists>rule \<in> set [p95_rule]. \<exists>x. measured None [] rule = Some x \<and> \<not> meets rule x)"
    using verdict_never_passes_unchecked [OF p95_plain, of None "[]"] by blast
  have "measured None [] p95_rule = None" by (simp add: measured_def bound_row_def candidates_of_def)
  with as show ?thesis by (cases v) simp_all
qed

lemma scalar_keys: "set SLA_METRIC_SCALARS = fst ` set SCALARS"
  by (simp add: SLA_METRIC_SCALARS_def SCALARS_def del: js_Cons)

text \<open>
  What an inherited name does to a rule that no authoring check has seen: the evaluation of all rules stops as soon as
  the rule is bound to a row.
\<close>

lemma inherited_metric_throws:
  assumes "metric \<in> set throwing_members"
  shows "resolveMetric stat metric = Inl (NotCallable metric)"
proof -
  have "metric \<notin> set SLA_METRIC_SCALARS" using assms member_shape by (auto simp: list_all_iff)
  then have "jm_get SCALARS metric = None" unfolding scalar_keys by (rule map_of_eq_None_iff [THEN iffD2])
  with assms show ?thesis by (simp add: resolveMetric_def)
qed

section \<open>The two doors of a percentile\<close>

lemma put_percentiles_get:
  "jm_get (put_percentiles ps (map f ps)) k = Some v \<Longrightarrow> \<exists>p \<in> set ps. pkey p = k \<and> f p = Some v"
proof -
  have "jm_get (fold (\<lambda>(p, v) out. case v of Some x \<Rightarrow> jm_set (pkey p) x out | None \<Rightarrow> out) (zip qs (map f qs)) out) k = Some v \<Longrightarrow>
      (\<exists>p \<in> set qs. pkey p = k \<and> f p = Some v) \<or> jm_get out k = Some v" for qs out
    by (induction qs arbitrary: out) (fastforce split: option.splits if_splits)+
  from this [of ps "[]"] show "jm_get (put_percentiles ps (map f ps)) k = Some v \<Longrightarrow> \<exists>p \<in> set ps. pkey p = k \<and> f p = Some v"
    by (simp add: put_percentiles_def)
qed

lemma percentile_no_scalar: "PERCENTILE metric = Some p \<Longrightarrow> jm_get SCALARS metric = None"
proof -
  assume "PERCENTILE metric = Some p"
  then obtain rest where "metric = 0x70 # rest" using percentile_shape by blast
  moreover have "list_all (\<lambda>k. hd k \<noteq> 0x70) SLA_METRIC_SCALARS" by code_simp
  ultimately have "metric \<notin> set SLA_METRIC_SCALARS" by (auto simp only: list_all_iff list.sel)
  then have "metric \<notin> fst ` set SCALARS" unfolding scalar_keys .
  then show "jm_get SCALARS metric = None" by (rule map_of_eq_None_iff [THEN iffD2])
qed

lemma percentile_in_range: "0 < q \<Longrightarrow> q < 100 \<Longrightarrow> in_range q"
  by (simp add: in_range_def)

lemma histogram_door:
  assumes "hist_rep h M" and "0 < q" and "q < 100"
  shows "hist_percentile q h = Inr (if M = {#} then None else Some (sorted_list_of_multiset M ! nat (rank_index q (int (size M)))))"
  using hist_rep_percentiles [OF assms(1), of "[q]"] percentile_in_range [OF assms(2,3)] by (simp add: hist_percentile_def)

text \<open>
  C26: For a row of the engine, a percentile metric strictly between p0 and p100 is
  the nearest-rank observation of the whole population of the row, whether it is read from the
  stored columns or from the histogram, however the metric spells its number (p50, p050, p50.0);
  an empty row has none. It holds whenever every configured percentile is read back from its own
  column name.
\<close>

theorem both_doors_agree:
  assumes "hist_rep ok M" and "hist_rep ko N" and "list_all in_range ps"
    and "\<forall>p \<in> set ps. PERCENTILE (pkey p) = Some p"
    and "PERCENTILE metric = Some q" and "0 < q" and "q < 100"
  shows "resolveMetric (toEvaluableStat (row_of scope name family windowMs ps M N ok ko)) metric =
    Inr (if M + N = {#} then None
      else Some (JFin (of_int (sorted_list_of_multiset (M + N) ! nat (rank_index q (int (size (M + N))))))))"
proof -
  let ?A = "M + N" and ?f = "\<lambda>p A. if A = {#} then None else Some (sorted_list_of_multiset A ! nat (rank_index p (int (size A))))"
  have q: "p = q" if "p \<in> set ps" "pkey p = metric" for p using assms(4,5) that by force
  have keys: "map_of (map (map_prod id (\<lambda>v. JFin (of_int v))) pm) k = map_option (\<lambda>v. JFin (of_int v)) (map_of pm k)"
    for pm :: percentile_map and k by (induction pm) auto
  have stored: "jm_get (population_percentiles ps ?A) metric = Some v \<Longrightarrow> ?f q ?A = Some v" for v
    using put_percentiles_get [of ps "\<lambda>p. ?f p ?A" metric v] q by (force simp: population_percentiles_def)
  show ?thesis
    using stored histogram_door [OF mergeFresh_rep [OF assms(1,2)] assms(6,7)] assms(5-7)
    using percentile_plain [OF assms(5)]
    by (auto simp: resolveMetric_def plain_metric_def percentile_no_scalar [OF assms(5)] toEvaluableStat_def row_of_def Let_def keys
        split: option.splits if_splits)
qed

theorem both_doors_agree_witness:
  "resolveMetric (toEvaluableStat (row_of Run [] ResponseTimeF 1000 [50, 95] {#4#} {#9#}
      (hist_record 4 new_histogram) (hist_record 9 new_histogram))) (js ''p50.0'') =
    Inr (if {#4#} + {#9#} = {#} then None
      else Some (JFin (of_int (sorted_list_of_multiset ({#4#} + {#9#}) ! nat (rank_index 50 (int (size ({#4, 9 :: int#}))))))))"
proof -
  have "list_all (\<lambda>p. PERCENTILE (pkey p) = Some p) [50, 95]" "PERCENTILE (js ''p50.0'') = Some 50" by code_simp+
  then show ?thesis
    using both_doors_agree [OF sample_rep, of "[50, 95]" "js ''p50.0''" 50 Run "[]" ResponseTimeF 1000]
    by (simp add: in_range_def)
qed

section \<open>The live evidence gate\<close>

lemma rnd_pos:
  assumes "2 powi (- 1074) \<le> x"
  shows "0 < rnd x"
proof -
  have x: "0 < x" using assms powi2_pos [of "- 1074"] by linarith
  have "2 powi (if floor_log2 x - 52 < - 1074 then - 1074 else floor_log2 x) \<le> rnd x"
    using rnd_ge_powi [of "- 1074" x] rnd_ge_powi [of "floor_log2 x" x] floor_log2_bounds [OF x] assms x
    by (auto simp: ulp_exp_def)
  with powi2_pos show ?thesis by (rule less_le_trans)
qed

text \<open>A double is a multiple of the smallest one, so what lies below 100 lies below it by as much.\<close>

lemma rnd_multiple:
  assumes "s = - 1074"
  shows "\<exists>k. rnd x = of_int k * 2 powi s"
proof (cases "x = 0")
  case False
  have "s \<le> ulp_exp x" using assms by (simp add: ulp_exp_def)
  then have "(2 :: rat) powi ulp_exp x = of_int (2 ^ nat (ulp_exp x - s)) * 2 powi s"
    using powi2_add [of "ulp_exp x - s" s] powi2_nat [of "ulp_exp x - s"] by simp
  then have "rnd x = of_int (round_half_even (x / 2 powi ulp_exp x) * 2 ^ nat (ulp_exp x - s)) * 2 powi s"
    using False unfolding rnd_def by (simp only: if_False of_int_mult mult.assoc)
  then show ?thesis by blast
qed (auto intro: exI [of _ 0])

lemma below_100:
  assumes "PERCENTILE metric = Some q" and "q < 100"
  shows "2 powi (- 1074) \<le> 100 - q"
proof -
  define s where "s = (- 1074 :: int)"
  let ?u = "(2 :: rat) powi s"
  have "\<exists>x. q = rnd x" using assms(1) by (auto simp: PERCENTILE_def Let_def split: list.splits if_splits)
  then obtain k where k: "q = of_int k * ?u" using rnd_multiple [OF s_def] by blast
  have u: "0 < ?u" by (rule powi2_pos)
  have "(100 :: rat) = of_int (100 * 2 ^ nat (- s)) * ?u"
    using powi2_add [of "- s" s] powi2_nat [of "- s"] by (simp add: s_def)
  then have d: "100 - q = of_int (100 * 2 ^ nat (- s) - k) * ?u" by (simp only: k of_int_diff left_diff_distrib)
  then have "0 < (of_int (100 * 2 ^ nat (- s) - k) :: rat)" using assms(2) u by (metis diff_gt_0_iff_gt zero_less_mult_pos2)
  then have "1 \<le> (of_int (100 * 2 ^ nat (- s) - k) :: rat)" by (simp only: of_int_0_less_iff of_int_1_le_iff)
  then have "1 * ?u \<le> 100 - q" unfolding d using u by (auto intro!: mult_right_mono simp del: mult_1)
  then show ?thesis by (simp add: s_def)
qed

text \<open>
  A live rule on a percentile between p0 and p100 asks for at least
  ten observations, and for never fewer the deeper in the tail it reads; every other metric asks for 100.
  p50 asks for 20, p95 for 200, p99 for 1000, and p99.9 for 10001, one more than the ten expected
  observations beyond the quantile, because of the rounding of \<open>100 - q\<close>.
\<close>

lemma evidence_floor_follows_the_tail:
  "(PERCENTILE (ru_metric r) = Some p \<and> 0 < p \<and> p < 100 \<longrightarrow> 10 \<le> liveEvidenceFloor r \<and>
     (PERCENTILE (ru_metric r') = Some q \<and> p \<le> q \<and> q < 100 \<longrightarrow> liveEvidenceFloor r \<le> liveEvidenceFloor r')) \<and>
   (\<not> (\<exists>p. PERCENTILE (ru_metric r) = Some p \<and> 0 < p \<and> p < 100) \<longrightarrow> liveEvidenceFloor r = 100) \<and>
   map (\<lambda>metric. liveEvidenceFloor (r\<lparr>ru_metric := js metric\<rparr>)) [''p50'', ''p95'', ''p99'', ''p99.9''] = [20, 200, 1000, 10001]"
proof -
  define gap where "gap = fsub 100"
  define wanted where "wanted = (\<lambda>p. \<lceil>fmul (fdiv 100 (gap p)) 10\<rceil>)"
  let ?metric = "\<lambda>(r :: evaluable_rule) p. PERCENTILE (ru_metric r) = Some p \<and> 0 < p \<and> p < 100"
  have gap: "0 < gap p \<and> gap p \<le> 100" if "?metric r p" for r and p
    using rnd_pos [of "100 - p"] below_100 [of "ru_metric r" p] rnd_mono [of "100 - p" 100] rnd_of_int [of 100] that
    by (simp add: gap_def fsub_def)
  have gap_mono: "gap q \<le> gap p" if "p \<le> q" "q < 100" for p q
    using rnd_mono [of "100 - q" "100 - p"] that by (simp add: gap_def fsub_def)
  have one: "1 \<le> fdiv 100 (gap p)" if "?metric r p" for r p
    using rnd_mono [of 1 "100 / gap p"] rnd_of_int [of 1] gap [OF that] by (simp add: fdiv_def)
  have ten: "10 \<le> wanted p" if "?metric r p" for r p
    using rnd_mono [of 10 "fdiv 100 (gap p) * 10"] rnd_of_int [of 10] one [OF that]
    by (simp add: wanted_def fmul_def le_ceiling_iff)
  have mono: "wanted p \<le> wanted q" if "?metric r p" "?metric r' q" "p \<le> q" for r r' p q
  proof -
    have "fdiv 100 (gap p) \<le> fdiv 100 (gap q)"
      using rnd_mono [of "100 / gap p" "100 / gap q"] gap [OF that(1)] gap [OF that(2)] gap_mono [of p q] that
      by (simp add: fdiv_def frac_le)
    then have "fmul (fdiv 100 (gap p)) 10 \<le> fmul (fdiv 100 (gap q)) 10"
      using rnd_mono [of "fdiv 100 (gap p) * 10"] one [OF that(1)] by (simp add: fmul_def)
    then show ?thesis by (simp add: wanted_def ceiling_mono)
  qed
  have eq: "liveEvidenceFloor r = wanted p" if "?metric r p" for r p
    using that by (simp add: liveEvidenceFloor_def wanted_def gap_def)
  have "map (\<lambda>metric. case PERCENTILE (js metric) of None \<Rightarrow> 100
     | Some q \<Rightarrow> if q \<le> 0 \<or> 100 \<le> q then 100 else \<lceil>fmul (fdiv 100 (fsub 100 q)) 10\<rceil>)
     [''p50'', ''p95'', ''p99'', ''p99.9''] = [20, 200, 1000, 10001]" by code_simp
  then have vals: "map (\<lambda>metric. liveEvidenceFloor (r\<lparr>ru_metric := js metric\<rparr>)) [''p50'', ''p95'', ''p99'', ''p99.9''] =
     [20, 200, 1000, 10001]" by (cases r) (simp only: liveEvidenceFloor_def evaluable_rule.simps)
  have flat: "liveEvidenceFloor r = 100" if "\<not> (\<exists>p. ?metric r p)"
    using that by (cases "PERCENTILE (ru_metric r)") (auto simp: liveEvidenceFloor_def)
  have tail: "10 \<le> liveEvidenceFloor r \<and> (PERCENTILE (ru_metric r') = Some q \<and> p \<le> q \<and> q < 100 \<longrightarrow>
      liveEvidenceFloor r \<le> liveEvidenceFloor r')" if "?metric r p"
    using ten [OF that] mono [of r p r' q] eq [OF that] eq [of r' q] that by auto
  show ?thesis using tail flat vals by blast
qed

lemma evidence_floor_follows_the_tail_witness:
  "let rule = (\<lambda>metric. \<lparr>ru_id = [], ru_scope = js ''run'', ru_targetName = None, ru_family = js ''response_time'',
      ru_metric = js metric, ru_comparator = Lte, ru_threshold = 800\<rparr>) in
    10 \<le> liveEvidenceFloor (rule ''p95'') \<and> liveEvidenceFloor (rule ''p95'') \<le> liveEvidenceFloor (rule ''p99'')"
proof -
  have "PERCENTILE (js ''p95'') = Some 95" "PERCENTILE (js ''p99'') = Some 99" by code_simp+
  then show ?thesis
    using evidence_floor_follows_the_tail [of "\<lparr>ru_id = [], ru_scope = js ''run'', ru_targetName = None,
        ru_family = js ''response_time'', ru_metric = js ''p95'', ru_comparator = Lte, ru_threshold = 800\<rparr>" 95
      "\<lparr>ru_id = [], ru_scope = js ''run'', ru_targetName = None, ru_family = js ''response_time'', ru_metric = js ''p99'',
        ru_comparator = Lte, ru_threshold = 800\<rparr>" 99] by (simp del: js_Cons)
qed

end
