(* ===== verification/JsDecimal.thy ===== *)
theory JsDecimal
  imports Sla
begin

text \<open>
  \<open>String(k)\<close> of a safe integer is its decimal digits, and reading them back gives the integer: what the
  resume cursor of a live socket relies on.
\<close>

lemma digs_small: "n < 10 \<Longrightarrow> digs n = [0x30 + of_int n]"
  by (simp add: digs.simps)

lemma digs_step: "10 \<le> n \<Longrightarrow> digs n = digs (n div 10) @ [0x30 + of_int (n mod 10)]"
  by (subst digs.simps) simp

lemma digs_length: "0 \<le> n \<Longrightarrow> 1 \<le> length (digs n) \<and> n < 10 ^ length (digs n) \<and> (0 < n \<longrightarrow> 10 ^ (length (digs n) - 1) \<le> n)"
proof (induction n rule: digs.induct)
  case (1 n)
  show ?case
  proof (cases "n < 10")
    case True
    then show ?thesis using 1 by (simp add: digs_small)
  next
    case False
    then have IH: "1 \<le> length (digs (n div 10))" "n div 10 < 10 ^ length (digs (n div 10))"
      "10 ^ (length (digs (n div 10)) - 1) \<le> n div 10" using 1 by auto
    obtain k where k: "length (digs (n div 10)) = Suc k" using IH(1) by (cases "length (digs (n div 10))") auto
    have "10 ^ Suc k \<le> n" "n < 10 ^ Suc (Suc k)" using IH(2,3) by (simp_all add: k)
    then show ?thesis using False by (simp add: digs_step k)
  qed
qed

lemma digs_shift: "0 < s \<Longrightarrow> digs (s * 10 ^ j) = digs s @ replicate j 0x30"
proof (induction j)
  case (Suc j)
  have "0 < s * 10 ^ j" using Suc.prems by simp
  then have "10 \<le> s * 10 ^ Suc j" by simp
  then have "digs (s * 10 ^ Suc j) = digs (s * 10 ^ j) @ [0x30]" by (subst digs_step) simp_all
  then show ?case using Suc by (simp add: replicate_append_same)
qed simp

lemma digit_char: "0 \<le> d \<Longrightarrow> d < 10 \<Longrightarrow> is_digit (0x30 + of_int d) \<and> uint (0x30 + of_int d :: 16 word) = 0x30 + d"
proof -
  assume d: "0 \<le> d" "d < 10"
  then have "d = 0 \<or> d = 1 \<or> d = 2 \<or> d = 3 \<or> d = 4 \<or> d = 5 \<or> d = 6 \<or> d = 7 \<or> d = 8 \<or> d = 9" by presburger
  then show ?thesis by (elim disjE) (simp_all add: is_digit_def)
qed

lemma digits_value_append: "digits_value (xs @ [c]) a = digits_value xs a * 10 + (uint c - 0x30)"
  by (induction xs arbitrary: a) simp_all

lemma digits_value_digs: "0 \<le> n \<Longrightarrow> list_all is_digit (digs n) \<and> digits_value (digs n) 0 = n"
proof (induction n rule: digs.induct)
  case (1 n)
  show ?case
  proof (cases "n < 10")
    case True
    then show ?thesis using digit_char [of n] 1 by (simp add: digs_small)
  next
    case False
    then have "list_all is_digit (digs (n div 10))" "digits_value (digs (n div 10)) 0 = n div 10" using 1 by auto
    then show ?thesis using digit_char [of "n mod 10"] False by (simp add: digs_step digits_value_append)
  qed
qed

text \<open>The search for the shortest decimal stops at the integer itself, less its trailing zeros.\<close>

lemma rnd_other: "0 < n \<Longrightarrow> n < 2 ^ 53 \<Longrightarrow> n < m \<Longrightarrow> rnd (of_int m) \<noteq> of_int n"
proof
  assume n: "0 < n" "n < 2 ^ 53" "n < m" "rnd (of_int m) = of_int n"
  have "(of_int (n + 1) :: rat) = rnd (of_int (n + 1))" using rnd_of_int [of "n + 1"] n(1,2) by (simp only: )
  also have "\<dots> \<le> rnd (of_int m)" using n(3) by (intro rnd_mono) simp
  finally show False using n(4) by simp
qed

lemma shortest_int:
  assumes "0 < n" and "n < 2 ^ 53" and "N = length (digs n)" and "1 \<le> k" and "k \<le> N" and "N \<le> k + fuel"
  shows "\<exists>s k'. shortest fuel k (of_int n) (int N) = (s, k', int N) \<and> k' \<le> N \<and> 0 < s \<and> s * 10 ^ (N - k') = n"
  using assms(4-6)
proof (induction "N - k" arbitrary: k fuel)
  case (0)
  then have k: "k = N" by simp
  have "n < 10 ^ N" using digs_length [of n] assms(1,3) by simp
  moreover have "rnd (of_int (n + 1)) \<noteq> of_int n" by (rule rnd_other) (use assms in auto)
  ultimately have "shortest fuel k (of_int n) (int N) = (n, N, int N)"
    using assms(1,2) by (subst shortest.simps) (simp add: k Let_def)
  then show ?case using assms(1) by simp
next
  case (Suc j)
  then have kN: "k < N" by simp
  define u where "u = (10 ^ (N - k) :: int)"
  have u: "0 < u" "(10 :: rat) powi (int N - int k) = of_int u" using kN by (simp_all add: u_def power_int_def nat_diff_distrib)
  have bounds: "10 ^ (N - 1) \<le> n" "n < 10 ^ N" using digs_length [of n] assms(1,3) by simp_all
  have fl: "\<lfloor>of_int n / (of_int u :: rat)\<rfloor> = n div u" by (simp add: floor_divide_of_int_eq)
  have pow: "(10 :: int) ^ N = 10 ^ k * u" using kN by (simp add: u_def flip: power_add)
  have lo: "0 < n div u" "n div u < 10 ^ k"
  proof -
    have "u \<le> 10 ^ (N - 1)" unfolding u_def using Suc.prems(1) kN by (intro power_increasing) auto
    then show "0 < n div u" using bounds(1) u(1) by (simp add: pos_imp_zdiv_pos_iff)
    show "n div u < 10 ^ k"
    proof (rule ccontr)
      assume "\<not> n div u < 10 ^ k"
      then have "10 ^ k * u \<le> n div u * u" using u(1) by simp
      also have "\<dots> \<le> n" using u(1) by (simp add: minus_mod_eq_div_mult [symmetric])
      finally show False using bounds(2) unfolding pow by simp
    qed
  qed
  have hi: "rnd ((of_int (n div u) + 1) * of_int u) \<noteq> of_int n"
  proof -
    have "n < (n div u + 1) * u" using u(1) by (metis div_mult_mod_eq mult.commute pos_mod_bound add_strict_left_mono distrib_right mult_1)
    from rnd_other [OF assms(1,2) this] show ?thesis by simp
  qed
  show ?case
  proof (cases "n div u * u = n")
    case True
    then have "rnd (of_int (n div u) * of_int u) = (of_int n :: rat)" using assms(1,2) by (simp flip: of_int_mult)
    then have "shortest fuel k (of_int n) (int N) = (n div u, k, int N)"
      using lo hi by (subst shortest.simps) (simp add: u(2) fl Let_def)
    then show ?thesis using True lo(1) kN by (auto simp: u_def)
  next
    case False
    then have "n div u * u < n" using u(1) by (metis div_mult_mod_eq less_add_same_cancel1 mod_eq_0_iff_dvd order_le_imp_less_or_eq pos_mod_sign add.right_neutral)
    then have "rnd (of_int (n div u) * of_int u) \<noteq> (of_int n :: rat)"
      using rnd_of_int [of "n div u * u"] lo(1) u(1) assms(2) by (simp flip: of_int_mult)
    moreover obtain f where "fuel = Suc f" using Suc.prems(3) kN by (cases fuel) auto
    ultimately have "shortest fuel k (of_int n) (int N) = shortest f (Suc k) (of_int n) (int N)"
      using hi by (subst shortest.simps) (simp add: u(2) fl Let_def)
    moreover have "N - Suc k = j" using Suc.hyps(2) by simp
    ultimately show ?thesis using Suc.hyps(1) [of "Suc k" f] kN Suc.prems \<open>fuel = Suc f\<close> by simp
  qed
qed

lemma js_int_digs:
  assumes "0 \<le> n" and "n < 2 ^ 53"
  shows "js_int n = digs n"
proof (cases "n = 0")
  case True
  then show ?thesis by (simp add: js_int_def js_num_def digs_small)
next
  case False
  then have n: "0 < n" using assms(1) by simp
  define N where "N = length (digs n)"
  have len: "1 \<le> N" "10 ^ (N - 1) \<le> n" using digs_length [OF assms(1)] n by (simp_all add: N_def)
  have "N \<le> 17"
  proof (rule ccontr)
    assume "\<not> N \<le> 17"
    then have "(10 :: int) ^ 17 \<le> 10 ^ (N - 1)" by (intro power_increasing) auto
    then show False using len(2) assms(2) by simp
  qed
  then obtain s k where s: "shortest 16 1 (of_int n) (int N) = (s, k, int N)" "k \<le> N" "0 < s" "s * 10 ^ (N - k) = n"
    using shortest_int [OF n assms(2) N_def, of 1 16] len(1) by auto
  have "dec_exp (of_int n) = int N" using n by (simp add: dec_exp_def N_def)
  then have "js_pos_string (of_int n) = digs s @ replicate (N - k) 0x30"
    using s \<open>N \<le> 17\<close> by (simp add: js_pos_string_def Let_def)
  also have "\<dots> = digs n" using digs_shift [OF s(3), of "N - k"] s(4) by simp
  finally show ?thesis using n by (simp add: js_int_def js_num_def)
qed

end
