(* ===== verification/BinaryReader.thy ===== *)
theory BinaryReader
  imports Events
begin

text \<open>
  \<open>packages/plugin-gatling/src/reader.ts\<close>: the primitives of Gatling's binary log. A method
  of \<open>BinaryReader\<close> is a state transformer that returns an error or a value and, in both
  cases, the reader as the method leaves it: a throw does not undo the position or the
  string cache, and the streaming decoder depends on that.
\<close>

section \<open>State and errors\<close>

datatype decode_error =
    Truncated int int int           \<comment> \<open>\<open>TruncatedError(need, have, at)\<close>\<close>
  | RangeError                      \<comment> \<open>thrown by Node for an offset or size out of range\<close>
  | DanglingRef int int
  | ExpectedRun int
  | UnknownScenario int
  | UnknownRecord int int
  | BadLead int
  | BadPad int string
  | UnknownStatus int
  | UnknownPath int
  | UnknownTarget int
  | BadResponseTime int
  | UnknownStat int
  | UnknownCondition int

fun is_truncated :: "decode_error \<Rightarrow> bool" where
  "is_truncated (Truncated _ _ _) = True"
| "is_truncated _ = False"

record reader =
  rd_buf :: "byte list"
  rd_at :: int
  rd_base :: int
  rd_cache :: "int \<rightharpoonup> jstr"

type_synonym 'a rd = "reader \<Rightarrow> (decode_error + 'a) \<times> reader"

definition new_reader :: "byte list \<Rightarrow> reader" where
  "new_reader buf = \<lparr>rd_buf = buf, rd_at = 0, rd_base = 0, rd_cache = Map.empty\<rparr>"

definition rd_return :: "'a \<Rightarrow> 'a rd" where
  "rd_return x r = (Inr x, r)"

definition rd_throw :: "decode_error \<Rightarrow> 'a rd" where
  "rd_throw e r = (Inl e, r)"

definition rd_bind :: "'a rd \<Rightarrow> ('a \<Rightarrow> 'b rd) \<Rightarrow> 'b rd" where
  "rd_bind m f r = (case m r of (Inl e, r') \<Rightarrow> (Inl e, r') | (Inr x, r') \<Rightarrow> f x r')"

fun rd_repeat :: "nat \<Rightarrow> 'a rd \<Rightarrow> 'a list rd" where
  "rd_repeat 0 m = rd_return []"
| "rd_repeat (Suc n) m = rd_bind m (\<lambda>x. rd_bind (rd_repeat n m) (\<lambda>xs. rd_return (x # xs)))"

definition rd_pos :: "reader \<Rightarrow> int" where
  "rd_pos r = rd_base r + rd_at r"

definition rd_eof :: "reader \<Rightarrow> bool" where
  "rd_eof r = (int (length (rd_buf r)) \<le> rd_at r)"

definition rd_buffered :: "reader \<Rightarrow> int" where
  "rd_buffered r = int (length (rd_buf r))"

definition rd_need :: "int \<Rightarrow> unit rd" where
  "rd_need n r = (let have = int (length (rd_buf r)) - rd_at r in
     if have < n then (Inl (Truncated n have (rd_pos r)), r) else (Inr (), r))"

definition rd_seek :: "int \<Rightarrow> reader \<Rightarrow> reader" where
  "rd_seek pos r = r\<lparr>rd_at := pos - rd_base r\<rparr>"

definition rd_append :: "byte list \<Rightarrow> int \<Rightarrow> reader \<Rightarrow> reader" where
  "rd_append chunk keepFrom r = (let cut = max 0 (min (keepFrom - rd_base r) (rd_at r)) in
     r\<lparr>rd_buf := drop (nat cut) (rd_buf r) @ chunk,
       rd_base := rd_base r + cut,
       rd_at := rd_at r - cut\<rparr>)"

section \<open>Fixed-width reads\<close>

text \<open>\<open>Buffer.subarray\<close>: a negative bound counts from the end, and both are clamped.\<close>

definition adjust_offset :: "int \<Rightarrow> int \<Rightarrow> int" where
  "adjust_offset len off = (if off < 0 then max 0 (off + len) else min off len)"

definition js_subarray :: "byte list \<Rightarrow> int \<Rightarrow> int \<Rightarrow> byte list" where
  "js_subarray buf start stop = (let len = int (length buf);
     a = adjust_offset len start; b = adjust_offset len stop
     in if a < b then take (nat (b - a)) (drop (nat a) buf) else [])"

definition be_uint :: "byte list \<Rightarrow> int" where
  "be_uint bs = foldl (\<lambda>a b. a * 256 + uint b) 0 bs"

text \<open>
  The \<open>n\<close> bytes at the position, as \<open>Buffer.readInt32BE\<close> and its kin fetch them: the
  position moves only after the read, so a \<open>RangeError\<close> leaves it.
\<close>

definition rd_bytes :: "nat \<Rightarrow> byte list rd" where
  "rd_bytes n = rd_bind (rd_need (int n)) (\<lambda>_ r.
     if rd_at r < 0 then (Inl RangeError, r)
     else (Inr (take n (drop (nat (rd_at r)) (rd_buf r))), r\<lparr>rd_at := rd_at r + int n\<rparr>))"

text \<open>\<open>this.#buf.readInt8(this.#at++)\<close>: here the position moves before the read.\<close>

definition rd_readByte :: "int rd" where
  "rd_readByte = rd_bind (rd_need 1) (\<lambda>_ r. let r' = r\<lparr>rd_at := rd_at r + 1\<rparr> in
     if rd_at r < 0 then (Inl RangeError, r')
     else (Inr (sint (rd_buf r ! nat (rd_at r))), r'))"

definition rd_readBoolean :: "bool rd" where
  "rd_readBoolean = rd_bind rd_readByte (\<lambda>b. rd_return (b \<noteq> 0))"

definition rd_readInt :: "int rd" where
  "rd_readInt = rd_bind (rd_bytes 4) (\<lambda>bs. rd_return (sint (word_of_int (be_uint bs) :: 32 word)))"

definition rd_readLong :: "int rd" where
  "rd_readLong = rd_bind (rd_bytes 8)
     (\<lambda>bs. rd_return (number_of_bigint (word_of_int (be_uint bs))))"

definition rd_readShort :: "int rd" where
  "rd_readShort = rd_bind (rd_bytes 2) (\<lambda>bs. rd_return (sint (word_of_int (be_uint bs) :: 16 word)))"

definition rd_readDoubleLE :: "jnum rd" where
  "rd_readDoubleLE = rd_bind (rd_bytes 8)
     (\<lambda>bs. rd_return (decode_double (word_of_int (be_uint (rev bs)))))"

section \<open>Strings\<close>

fun utf16le :: "byte list \<Rightarrow> jstr" where
  "utf16le (lo # hi # bs) = (ucast lo + 256 * ucast hi) # utf16le bs"
| "utf16le _ = []"

definition latin1 :: "byte list \<Rightarrow> jstr" where
  "latin1 bs = map ucast bs"

definition rd_readString :: "jstr rd" where
  "rd_readString = rd_bind rd_readInt (\<lambda>len.
     if len = 0 then rd_return []
     else rd_bind (rd_need (len + 1)) (\<lambda>_ r.
       let bytes = js_subarray (rd_buf r) (rd_at r) (rd_at r + len)
       in rd_bind rd_readByte
            (\<lambda>coder. rd_return (if coder = 0 then latin1 bytes else utf16le bytes))
            (r\<lparr>rd_at := rd_at r + len\<rparr>)))"

definition rd_readCachedString :: "jstr rd" where
  "rd_readCachedString = rd_bind rd_readInt (\<lambda>i.
     if 0 \<le> i
     then rd_bind rd_readString (\<lambda>s r. (Inr s, r\<lparr>rd_cache := (rd_cache r)(i \<mapsto> s)\<rparr>))
     else (\<lambda>r. case rd_cache r (- i) of
         Some s \<Rightarrow> (Inr s, r)
       | None \<Rightarrow> (Inl (DanglingRef (- i) (rd_pos r - 4)), r)))"

definition rd_readGroups :: "jstr list rd" where
  "rd_readGroups = rd_bind rd_readInt (\<lambda>n. rd_repeat (nat n) rd_readCachedString)"

end
