(* ===== verification/GatlingLog.thy ===== *)
theory GatlingLog
  imports BinaryReader
begin

text \<open>
  The Gatling decoder of \<open>packages/plugin-gatling\<close>: the assertion payload
  (\<open>assertions.ts\<close>), the run header (\<open>header.ts\<close>), one record (\<open>record-decoder.ts\<close>) and the
  pull parser over a finished buffer (\<open>records.ts\<close>).

  Reading is not always progress: a string whose length is negative moves the position
  back, so the record loop of the parser need not end. It is a \<open>partial_function\<close> into
  \<open>option\<close>, whose \<open>None\<close> is the loop that never returns.
\<close>

section \<open>UTF-8\<close>

text \<open>
  \<open>Buffer.toString('utf8')\<close>: the WHATWG decoder, which writes U+FFFD for every maximal
  ill-formed part. The state is the bytes still needed, the code point so far and the range
  the next byte must lie in.
\<close>

record utf8_state =
  u8_needed :: nat
  u8_cp :: int
  u8_lower :: int
  u8_upper :: int

definition utf8_init :: utf8_state where
  "utf8_init = \<lparr>u8_needed = 0, u8_cp = 0, u8_lower = 0x80, u8_upper = 0xBF\<rparr>"

definition utf16_units :: "int \<Rightarrow> jstr" where
  "utf16_units cp = (if cp < 0x10000 then [of_int cp]
     else [of_int (0xD800 + (cp - 0x10000) div 0x400), of_int (0xDC00 + (cp - 0x10000) mod 0x400)])"

definition utf8_lead :: "int \<Rightarrow> jstr \<times> utf8_state" where
  "utf8_lead b =
     (if b \<le> 0x7F then ([of_int b], utf8_init)
      else if 0xC2 \<le> b \<and> b \<le> 0xDF then ([], utf8_init\<lparr>u8_needed := 1, u8_cp := b mod 0x20\<rparr>)
      else if 0xE0 \<le> b \<and> b \<le> 0xEF then
        ([], \<lparr>u8_needed = 2, u8_cp = b mod 0x10, u8_lower = if b = 0xE0 then 0xA0 else 0x80,
             u8_upper = if b = 0xED then 0x9F else 0xBF\<rparr>)
      else if 0xF0 \<le> b \<and> b \<le> 0xF4 then
        ([], \<lparr>u8_needed = 3, u8_cp = b mod 0x8, u8_lower = if b = 0xF0 then 0x90 else 0x80,
             u8_upper = if b = 0xF4 then 0x8F else 0xBF\<rparr>)
      else ([0xFFFD], utf8_init))"

definition utf8_step :: "utf8_state \<Rightarrow> int \<Rightarrow> jstr \<times> utf8_state" where
  "utf8_step s b =
     (if u8_needed s = 0 then utf8_lead b
      else if b < u8_lower s \<or> u8_upper s < b
      then (case utf8_lead b of (out, s') \<Rightarrow> (0xFFFD # out, s'))
      else let cp = u8_cp s * 0x40 + b mod 0x40 in
        if u8_needed s = 1 then (utf16_units cp, utf8_init)
        else ([], utf8_init\<lparr>u8_needed := u8_needed s - 1, u8_cp := cp\<rparr>))"

fun utf8_decode :: "utf8_state \<Rightarrow> byte list \<Rightarrow> jstr" where
  "utf8_decode s [] = (if u8_needed s = 0 then [] else [0xFFFD])"
| "utf8_decode s (b # bs) = (case utf8_step s (uint b) of (out, s') \<Rightarrow> out @ utf8_decode s' bs)"

section \<open>The assertion payload\<close>

definition readPad :: "string \<Rightarrow> unit rd" where
  "readPad what = rd_bind rd_readByte (\<lambda>pad.
     if pad \<noteq> 0 then rd_throw (BadPad pad what) else rd_return ())"

definition statusOf :: "int \<Rightarrow> assertion_status rd" where
  "statusOf raw =
     (if raw = 1 then rd_return AllEvents
      else if raw = 2 then rd_return OkEvents
      else if raw = 3 then rd_return KoEvents
      else rd_throw (UnknownStatus raw))"

definition readPart :: "jstr rd" where
  "readPart = rd_bind rd_readByte (\<lambda>len.
     rd_bind (rd_repeat (nat len) rd_readByte) (\<lambda>codes.
       rd_return (utf8_decode utf8_init (map word_of_int codes))))"

definition readPath :: "assertion_path rd" where
  "readPath = rd_bind rd_readByte (\<lambda>tag.
     if tag = 1 then rd_return Global
     else if tag = 2 then rd_return ForAll
     else if tag = 3 then rd_bind rd_readShort (\<lambda>count.
       rd_bind (rd_repeat (nat count) readPart) (\<lambda>parts. rd_return (Details parts)))
     else rd_throw (UnknownPath tag))"

definition readTarget :: "assertion_target rd" where
  "readTarget = rd_bind rd_readByte (\<lambda>tag.
     if tag = 1 then rd_bind rd_readShort (\<lambda>s. rd_bind (statusOf s) (\<lambda>st. rd_return (Count st)))
     else if tag = 2 then rd_bind rd_readShort (\<lambda>s. rd_bind (statusOf s) (\<lambda>st. rd_return (Percent st)))
     else if tag = 4 then rd_return MeanRequestsPerSecond
     else if tag = 3 then rd_bind rd_readShort (\<lambda>reserved.
       if reserved \<noteq> 1 then rd_throw (BadResponseTime reserved)
       else rd_bind rd_readByte (\<lambda>stat.
         if stat = 1 then rd_return (ResponseTime RtMin None)
         else if stat = 2 then rd_return (ResponseTime RtMax None)
         else if stat = 3 then rd_return (ResponseTime RtMean None)
         else if stat = 4 then rd_return (ResponseTime RtStddev None)
         else if stat = 5 then rd_bind (readPad ''percentile rank'') (\<lambda>_.
           rd_bind rd_readDoubleLE (\<lambda>rank. rd_return (ResponseTime RtPercentile (Some rank))))
         else rd_throw (UnknownStat stat)))
     else rd_throw (UnknownTarget tag))"

definition readCondition :: "assertion_condition rd" where
  "readCondition = rd_bind rd_readByte (\<lambda>tag.
     rd_bind (readPad ''the operands of the condition'') (\<lambda>_.
       if tag = 1 then rd_bind rd_readDoubleLE (\<lambda>v. rd_return (CondLte v))
       else if tag = 2 then rd_bind rd_readDoubleLE (\<lambda>v. rd_return (CondGte v))
       else if tag = 3 then rd_bind rd_readDoubleLE (\<lambda>v. rd_return (CondLt v))
       else if tag = 4 then rd_bind rd_readDoubleLE (\<lambda>v. rd_return (CondGt v))
       else if tag = 5 then rd_bind rd_readDoubleLE (\<lambda>v. rd_return (CondIs v))
       else if tag = 6 then rd_bind rd_readDoubleLE (\<lambda>lo. rd_bind rd_readDoubleLE (\<lambda>hi.
         rd_bind rd_readBoolean (\<lambda>inclusive. rd_return (CondBetween lo hi inclusive))))
       else if tag = 7 then rd_bind rd_readByte (\<lambda>n.
         rd_bind (rd_repeat (nat n) rd_readDoubleLE) (\<lambda>values. rd_return (CondIn values)))
       else rd_throw (UnknownCondition tag)))"

definition parseAssertion :: "byte list \<Rightarrow> decode_error + tool_assertion" where
  "parseAssertion bytes = fst (rd_bind rd_readByte (\<lambda>lead.
     if lead \<noteq> 0 then rd_throw (BadLead lead)
     else rd_bind readPath (\<lambda>path. rd_bind readTarget (\<lambda>target. rd_bind readCondition (\<lambda>condition.
       rd_return \<lparr>ta_path = path, ta_target = target, ta_condition = condition\<rparr>))))
     (new_reader bytes))"

section \<open>The run header\<close>

record run_header =
  rh_gatlingVersion :: jstr
  rh_simulationClassName :: jstr
  rh_runStartEpochMs :: int
  rh_description :: jstr
  rh_scenarios :: "jstr list"
  rh_assertionCount :: int
  rh_assertions :: "tool_assertion list"

text \<open>
  \<open>Buffer.alloc(len)\<close> throws for a negative size. The bytes are read one by one, and the
  payload's own reader is a new one: its errors, a truncation included, reach the caller.
\<close>

definition readAssertion :: "tool_assertion rd" where
  "readAssertion = rd_bind rd_readInt (\<lambda>len.
     if len < 0 then rd_throw RangeError
     else rd_bind (rd_repeat (nat len) rd_readByte) (\<lambda>codes.
       case parseAssertion (map word_of_int codes) of
         Inl e \<Rightarrow> rd_throw e
       | Inr a \<Rightarrow> rd_return a))"

definition readRunHeader :: "run_header rd" where
  "readRunHeader = rd_bind rd_readByte (\<lambda>header.
     if header \<noteq> 0 then rd_throw (ExpectedRun header)
     else rd_bind rd_readString (\<lambda>gatlingVersion.
       rd_bind rd_readString (\<lambda>simulationClassName.
       rd_bind rd_readLong (\<lambda>runStartEpochMs.
       rd_bind rd_readString (\<lambda>description.
       rd_bind rd_readInt (\<lambda>scenarioCount.
       rd_bind (rd_repeat (nat scenarioCount) rd_readString) (\<lambda>scenarios.
       rd_bind rd_readInt (\<lambda>assertionCount.
       rd_bind (rd_repeat (nat assertionCount) readAssertion) (\<lambda>assertions.
         rd_return \<lparr>rh_gatlingVersion = gatlingVersion,
           rh_simulationClassName = simulationClassName,
           rh_runStartEpochMs = runStartEpochMs, rh_description = description,
           rh_scenarios = scenarios, rh_assertionCount = assertionCount,
           rh_assertions = assertions\<rparr>)))))))))"

section \<open>One record\<close>

definition nonempty :: "jstr \<Rightarrow> jstr option" where
  "nonempty s = (if s = [] then None else Some s)"

definition readRequestRecord :: "int \<Rightarrow> canonical_event rd" where
  "readRequestRecord base =
     rd_bind rd_readGroups (\<lambda>groups. rd_bind rd_readCachedString (\<lambda>name.
     rd_bind rd_readInt (\<lambda>startOff. rd_bind rd_readInt (\<lambda>endOff.
     rd_bind rd_readBoolean (\<lambda>ok. rd_bind rd_readCachedString (\<lambda>message.
       rd_return (RequestE \<lparr>rq_name = name, rq_groups = groups, rq_scenario = None,
         rq_userId = [], rq_startMs = int_add base startOff, rq_endMs = int_add base endOff,
         rq_firstByteMs = None, rq_ok = ok, rq_message = nonempty message\<rparr>)))))))"

definition readUserRecord :: "run_header \<Rightarrow> int \<Rightarrow> int \<Rightarrow> canonical_event rd" where
  "readUserRecord h base userSeq =
     rd_bind rd_readInt (\<lambda>scenarioIndex. rd_bind rd_readBoolean (\<lambda>isStart.
     rd_bind rd_readInt (\<lambda>off.
       if 0 \<le> scenarioIndex \<and> scenarioIndex < int (length (rh_scenarios h))
       then rd_return (UserE \<lparr>us_scenario = rh_scenarios h ! nat scenarioIndex,
         us_userId = js_int userSeq, us_kind = if isStart then UserStart else UserEnd,
         us_tsMs = int_add base off\<rparr>)
       else rd_throw (UnknownScenario scenarioIndex))))"

definition readGroupRecord :: "int \<Rightarrow> canonical_event rd" where
  "readGroupRecord base =
     rd_bind rd_readGroups (\<lambda>groups. rd_bind rd_readInt (\<lambda>startOff. rd_bind rd_readInt (\<lambda>endOff.
     rd_bind rd_readInt (\<lambda>cumulated. rd_bind rd_readBoolean (\<lambda>ok.
       rd_return (GroupE \<lparr>gr_groups = groups, gr_userId = [],
         gr_startMs = int_add base startOff, gr_endMs = int_add base endOff,
         gr_cumulatedResponseTimeMs = cumulated, gr_ok = ok\<rparr>))))))"

definition readErrorRecord :: "int \<Rightarrow> canonical_event rd" where
  "readErrorRecord base =
     rd_bind rd_readCachedString (\<lambda>message. rd_bind rd_readInt (\<lambda>off.
       rd_return (ErrorE \<lparr>er_message = message, er_tsMs = int_add base off\<rparr>)))"

text \<open>
  The event, and \<open>DecodeState.userSeq\<close> after it: only a completed user record counts.
\<close>

definition readRecord :: "run_header \<Rightarrow> int \<Rightarrow> int \<Rightarrow> (canonical_event \<times> int) rd" where
  "readRecord h base userSeq = rd_bind rd_readByte (\<lambda>type.
     if type = 1 then rd_bind (readRequestRecord base) (\<lambda>e. rd_return (e, userSeq))
     else if type = 2 then
       rd_bind (readUserRecord h base userSeq) (\<lambda>e. rd_return (e, userSeq + 1))
     else if type = 3 then rd_bind (readGroupRecord base) (\<lambda>e. rd_return (e, userSeq))
     else if type = 4 then rd_bind (readErrorRecord base) (\<lambda>e. rd_return (e, userSeq))
     else (\<lambda>r. (Inl (UnknownRecord type (rd_pos r - 1)), r)))"

section \<open>The pull parser\<close>

definition metaOf :: "run_header \<Rightarrow> canonical_event" where
  "metaOf h = MetaE \<lparr>me_simulation = rh_simulationClassName h,
     me_toolVersion = rh_gatlingVersion h, me_startedAtMs = rh_runStartEpochMs h,
     me_description = nonempty (rh_description h), me_assertions = Some (rh_assertions h)\<rparr>"

text \<open>
  A generator that ends is the list of events it yielded and the error it threw, if any.
\<close>

partial_function (option) parseRecords ::
    "run_header \<Rightarrow> int \<Rightarrow> int \<Rightarrow> reader \<Rightarrow> (canonical_event list \<times> decode_error option) option" where
  "parseRecords h base userSeq r =
     (if rd_eof r then Some ([], None)
      else (case readRecord h base userSeq r of
          (Inl e, r') \<Rightarrow> Some ([], Some e)
        | (Inr (ev, userSeq'), r') \<Rightarrow>
            Option.bind (parseRecords h base userSeq' r')
              (\<lambda>(evs, err). Some (ev # evs, err))))"

declare parseRecords.simps [code]

definition parseSimulationLog ::
    "byte list \<Rightarrow> (canonical_event list \<times> decode_error option) option" where
  "parseSimulationLog buf = (case readRunHeader (new_reader buf) of
      (Inl e, r) \<Rightarrow> Some ([], Some e)
    | (Inr h, r) \<Rightarrow> Option.bind (parseRecords h (rh_runStartEpochMs h) 0 r)
        (\<lambda>(evs, err). Some (metaOf h # evs, err)))"

end
