(* ===== verification/GatlingStream.thy ===== *)
theory GatlingStream
  imports GatlingLog
begin

text \<open>
  \<open>stream.ts\<close> and \<open>truncate.ts\<close>: the push parser over a feed, and the cut of a partial log
  at its last whole record.
\<close>

record stream_decoder =
  sd_reader :: reader
  sd_header :: "run_header option"
  sd_userSeq :: int
  sd_consumed :: int

definition new_decoder :: stream_decoder where
  "new_decoder = \<lparr>sd_reader = new_reader [], sd_header = None, sd_userSeq = 0, sd_consumed = 0\<rparr>"

text \<open>
  The record loop of \<open>push\<close>. It ends at the end of the buffer, at a truncated record (the
  position goes back to the record's first byte, the string cache does not) or with any
  other error, which discards the events of this push. \<open>None\<close> is the loop that never ends.
\<close>

partial_function (option) pushLoop ::
    "run_header \<Rightarrow> canonical_event list \<Rightarrow> stream_decoder \<Rightarrow>
     ((decode_error + canonical_event list) \<times> stream_decoder) option" where
  "pushLoop h out d =
     (if rd_eof (sd_reader d) then Some (Inr out, d)
      else (let mark = rd_pos (sd_reader d) in
        case readRecord h (rh_runStartEpochMs h) (sd_userSeq d) (sd_reader d) of
          (Inl e, r') \<Rightarrow>
            if is_truncated e then Some (Inr out, d\<lparr>sd_reader := rd_seek mark r'\<rparr>)
            else Some (Inl e, d\<lparr>sd_reader := r'\<rparr>)
        | (Inr (ev, userSeq'), r') \<Rightarrow>
            pushLoop h (out @ [ev])
              (d\<lparr>sd_reader := r', sd_userSeq := userSeq', sd_consumed := rd_pos r'\<rparr>)))"

declare pushLoop.simps [code]

definition push ::
    "byte list \<Rightarrow> stream_decoder \<Rightarrow> ((decode_error + canonical_event list) \<times> stream_decoder) option" where
  "push chunk d =
     (let r0 = rd_append chunk (sd_consumed d) (sd_reader d) in
      case sd_header d of
        Some h \<Rightarrow> pushLoop h [] (d\<lparr>sd_reader := r0\<rparr>)
      | None \<Rightarrow>
          (let mark = rd_pos r0 in
           case readRunHeader r0 of
             (Inl e, r') \<Rightarrow>
               if is_truncated e then Some (Inr [], d\<lparr>sd_reader := rd_seek mark r'\<rparr>)
               else Some (Inl e, d\<lparr>sd_reader := r'\<rparr>)
           | (Inr h, r') \<Rightarrow>
               pushLoop h [metaOf h]
                 (d\<lparr>sd_reader := r', sd_header := Some h, sd_consumed := rd_pos r'\<rparr>)))"

text \<open>A feed: the chunks pushed in order, up to the first push that throws.\<close>

fun pushAll ::
    "byte list list \<Rightarrow> stream_decoder \<Rightarrow> ((decode_error + canonical_event list) \<times> stream_decoder) option" where
  "pushAll [] d = Some (Inr [], d)"
| "pushAll (c # cs) d = Option.bind (push c d) (\<lambda>(res, d').
     case res of
       Inl e \<Rightarrow> Some (Inl e, d')
     | Inr evs \<Rightarrow> Option.bind (pushAll cs d') (\<lambda>(res', d'').
         Some (case res' of Inl e \<Rightarrow> Inl e | Inr evs' \<Rightarrow> Inr (evs @ evs'), d'')))"

definition truncateToWholeRecords :: "byte list \<Rightarrow> (decode_error + byte list) option" where
  "truncateToWholeRecords buf = Option.bind (push buf new_decoder) (\<lambda>(res, d).
     Some (case res of
         Inl e \<Rightarrow> Inl e
       | Inr _ \<Rightarrow> let stop = sd_consumed d in
           Inr (if int (length buf) \<le> stop then buf else js_subarray buf 0 stop)))"

end
