(* ===== verification/LogFormat.thy ===== *)
theory LogFormat
  imports GatlingStream
begin

text \<open>
  The binary log format as a specification: what Gatling's writer emits, byte for byte, and
  what each construct means (PRD, Appendix A.10). A well-formed log defines every cached
  string once, before it is referred to. \<open>reads\<close> is the contract one decoding step has with
  such a log; the theories of the decoder compose it.
\<close>

section \<open>Encoding\<close>

definition be :: "nat \<Rightarrow> int \<Rightarrow> byte list" where
  "be n v = map (\<lambda>k. word_of_int (v div 256 ^ k)) (rev [0..<n])"

lemma length_be [simp]: "length (be n v) = n"
  by (simp add: be_def)

lemma be_0 [simp]: "be 0 v = []"
  by (simp add: be_def)

lemma be_Suc: "be (Suc n) v = word_of_int (v div 256 ^ n) # be n v"
  by (simp add: be_def)

lemma be_uint_Cons_acc:
  "foldl (\<lambda>a b. a * 256 + uint (b :: byte)) x bs = x * 256 ^ length bs + be_uint bs"
proof (induction bs arbitrary: x)
  case Nil
  then show ?case by (simp add: be_uint_def)
next
  case (Cons b bs)
  show ?case
    using Cons [of "x * 256 + uint b"] Cons [of "uint b"]
    by (simp add: be_uint_def algebra_simps)
qed

lemma be_uint_Cons: "be_uint (b # bs) = uint b * 256 ^ length bs + be_uint bs"
  using be_uint_Cons_acc [of "uint b" bs] by (simp add: be_uint_def)

lemma be_uint_be: "be_uint (be n v) = v mod 256 ^ n"
proof (induction n)
  case 0
  then show ?case by (simp add: be_uint_def)
next
  case (Suc n)
  have "uint (word_of_int (v div 256 ^ n) :: byte) = (v div 256 ^ n) mod 256"
    by (simp add: uint_word_of_int)
  then have "be_uint (be (Suc n) v) = (v div 256 ^ n) mod 256 * 256 ^ n + v mod 256 ^ n"
    by (simp add: be_Suc be_uint_Cons Suc.IH)
  also have "\<dots> = v mod (256 ^ n * 256)"
    by (subst zmod_zmult2_eq) (simp_all add: mult.commute)
  finally show ?case by (simp add: mult.commute)
qed

definition is_int32 :: "int \<Rightarrow> bool" where
  "is_int32 v \<longleftrightarrow> - (2 ^ 31) \<le> v \<and> v < 2 ^ 31"

lemma decode_int32: "is_int32 v \<Longrightarrow> sint (word_of_int (be_uint (be 4 v)) :: 32 word) = v"
  using signed_take_bit_take_bit [of 31 32 v]
  by (simp add: be_uint_be is_int32_def sint_sbintrunc' signed_take_bit_int_eq_self take_bit_eq_mod)

text \<open>A string is its bytes and its coder byte; an empty one has no coder byte.\<close>

type_synonym raw_string = "byte list \<times> byte"

fun enc_string :: "raw_string \<Rightarrow> byte list" where
  "enc_string (bs, coder) = be 4 (int (length bs)) @ (if bs = [] then [] else bs @ [coder])"

fun dec_string :: "raw_string \<Rightarrow> jstr" where
  "dec_string (bs, coder) = (if bs = [] then [] else if coder = 0 then latin1 bs else utf16le bs)"

definition string_ok :: "raw_string \<Rightarrow> bool" where
  "string_ok s \<longleftrightarrow> int (length (fst s)) < 2 ^ 31"

datatype cached = Def int raw_string | Ref int

fun enc_cached :: "cached \<Rightarrow> byte list" where
  "enc_cached (Def i s) = be 4 i @ enc_string s"
| "enc_cached (Ref i) = be 4 (- i)"

fun cached_val :: "(int \<rightharpoonup> jstr) \<Rightarrow> cached \<Rightarrow> jstr" where
  "cached_val D (Def i s) = dec_string s"
| "cached_val D (Ref i) = the (D i)"

fun cached_after :: "cached \<Rightarrow> (int \<rightharpoonup> jstr) \<Rightarrow> (int \<rightharpoonup> jstr)" where
  "cached_after (Def i s) c = c(i \<mapsto> dec_string s)"
| "cached_after (Ref i) c = c"

text \<open>\<open>D\<close> is the whole log's dictionary: an index never has two values.\<close>

fun cached_ok :: "(int \<rightharpoonup> jstr) \<Rightarrow> (int \<rightharpoonup> jstr) \<Rightarrow> cached \<Rightarrow> bool" where
  "cached_ok D c (Def i s) \<longleftrightarrow> 0 \<le> i \<and> is_int32 i \<and> string_ok s \<and> D i = Some (dec_string s)"
| "cached_ok D c (Ref i) \<longleftrightarrow> 0 < i \<and> is_int32 (- i) \<and> c i \<noteq> None"

fun cached_list_ok :: "(int \<rightharpoonup> jstr) \<Rightarrow> (int \<rightharpoonup> jstr) \<Rightarrow> cached list \<Rightarrow> bool" where
  "cached_list_ok D c [] = True"
| "cached_list_ok D c (x # xs) = (cached_ok D c x \<and> cached_list_ok D (cached_after x c) xs)"

abbreviation cached_list_after :: "cached list \<Rightarrow> (int \<rightharpoonup> jstr) \<Rightarrow> (int \<rightharpoonup> jstr)" where
  "cached_list_after xs c \<equiv> fold cached_after xs c"

section \<open>The contract of a decoding step\<close>

definition rd_ok :: "reader \<Rightarrow> bool" where
  "rd_ok r \<longleftrightarrow> 0 \<le> rd_at r \<and> rd_at r \<le> int (length (rd_buf r))"

definition rd_rest :: "reader \<Rightarrow> byte list" where
  "rd_rest r = drop (nat (rd_at r)) (rd_buf r)"

definition moved :: "reader \<Rightarrow> nat \<Rightarrow> (int \<rightharpoonup> jstr) \<Rightarrow> reader" where
  "moved r n k = r\<lparr>rd_at := rd_at r + int n, rd_cache := k\<rparr>"

text \<open>
  From a cache between \<open>c\<close> and \<open>D\<close>, the step \<open>m\<close> reads exactly \<open>bs\<close>, returns \<open>v\<close> and leaves a
  cache that knows at least \<open>c'\<close>; on a proper prefix of \<open>bs\<close> it throws \<open>TruncatedError\<close>, and
  whatever it had already put into the cache is true of the log.
\<close>

definition reads :: "(int \<rightharpoonup> jstr) \<Rightarrow> (int \<rightharpoonup> jstr) \<Rightarrow> 'a rd \<Rightarrow> byte list \<Rightarrow> 'a \<Rightarrow>
    (int \<rightharpoonup> jstr) \<Rightarrow> bool" where
  "reads D c m bs v c' \<longleftrightarrow> (\<forall>r. rd_ok r \<longrightarrow> c \<subseteq>\<^sub>m rd_cache r \<longrightarrow> rd_cache r \<subseteq>\<^sub>m D \<longrightarrow>
     (\<forall>t. rd_rest r = bs @ t \<longrightarrow> (\<exists>k. m r = (Inr v, moved r (length bs) k) \<and>
        rd_cache r \<subseteq>\<^sub>m k \<and> c' \<subseteq>\<^sub>m k \<and> k \<subseteq>\<^sub>m D)) \<and>
     (\<forall>s. rd_rest r @ s = bs \<longrightarrow> s \<noteq> [] \<longrightarrow> (\<exists>n h a i k.
        m r = (Inl (Truncated n h a), r\<lparr>rd_at := i, rd_cache := k\<rparr>) \<and>
        rd_cache r \<subseteq>\<^sub>m k \<and> k \<subseteq>\<^sub>m D)))"

lemma readsI:
  assumes "\<And>r t. rd_ok r \<Longrightarrow> c \<subseteq>\<^sub>m rd_cache r \<Longrightarrow> rd_cache r \<subseteq>\<^sub>m D \<Longrightarrow> rd_rest r = bs @ t \<Longrightarrow>
      \<exists>k. m r = (Inr v, moved r (length bs) k) \<and> rd_cache r \<subseteq>\<^sub>m k \<and> c' \<subseteq>\<^sub>m k \<and> k \<subseteq>\<^sub>m D"
    and "\<And>r s. rd_ok r \<Longrightarrow> c \<subseteq>\<^sub>m rd_cache r \<Longrightarrow> rd_cache r \<subseteq>\<^sub>m D \<Longrightarrow> rd_rest r @ s = bs \<Longrightarrow> s \<noteq> [] \<Longrightarrow>
      \<exists>n h a i k. m r = (Inl (Truncated n h a), r\<lparr>rd_at := i, rd_cache := k\<rparr>) \<and>
        rd_cache r \<subseteq>\<^sub>m k \<and> k \<subseteq>\<^sub>m D"
  shows "reads D c m bs v c'"
  unfolding reads_def using assms by blast

lemma readsD:
  assumes "reads D c m bs v c'" and "rd_ok r" and "c \<subseteq>\<^sub>m rd_cache r" and "rd_cache r \<subseteq>\<^sub>m D"
    and "rd_rest r = bs @ t"
  obtains k where "m r = (Inr v, moved r (length bs) k)" and "rd_cache r \<subseteq>\<^sub>m k"
    and "c' \<subseteq>\<^sub>m k" and "k \<subseteq>\<^sub>m D"
  using assms unfolding reads_def by blast

lemma reads_truncatedD:
  assumes "reads D c m bs v c'" and "rd_ok r" and "c \<subseteq>\<^sub>m rd_cache r" and "rd_cache r \<subseteq>\<^sub>m D"
    and "rd_rest r @ s = bs" and "s \<noteq> []"
  obtains n h a i k where "m r = (Inl (Truncated n h a), r\<lparr>rd_at := i, rd_cache := k\<rparr>)"
    and "rd_cache r \<subseteq>\<^sub>m k" and "k \<subseteq>\<^sub>m D"
  using assms unfolding reads_def by blast

lemma length_rd_rest: "rd_ok r \<Longrightarrow> int (length (rd_rest r)) = int (length (rd_buf r)) - rd_at r"
  by (simp add: rd_ok_def rd_rest_def of_nat_diff nat_le_iff)

lemma moved_simps [simp]:
  "rd_buf (moved r n k) = rd_buf r" "rd_base (moved r n k) = rd_base r"
  "rd_cache (moved r n k) = k" "rd_at (moved r n k) = rd_at r + int n"
  "moved (moved r n k) n' k' = moved r (n + n') k'"
  by (simp_all add: moved_def)

lemma rd_rest_moved: "rd_ok r \<Longrightarrow> rd_rest (moved r n k) = drop n (rd_rest r)"
  by (simp add: rd_ok_def rd_rest_def moved_def nat_add_distrib add.commute)

lemma rd_ok_moved: "rd_ok r \<Longrightarrow> n \<le> length (rd_rest r) \<Longrightarrow> rd_ok (moved r n k)"
  using length_rd_rest [of r] by (simp add: rd_ok_def moved_def)

lemma rd_bind_Inr [simp]: "m r = (Inr x, r') \<Longrightarrow> rd_bind m f r = f x r'"
  by (simp add: rd_bind_def)

lemma rd_bind_Inl [simp]: "m r = (Inl e, r') \<Longrightarrow> rd_bind m f r = (Inl e, r')"
  by (simp add: rd_bind_def)

subsection \<open>Composition\<close>

lemma moved_0 [simp]: "moved r 0 (rd_cache r) = r"
  by (simp add: moved_def)

lemma reads_return: "c' \<subseteq>\<^sub>m c \<Longrightarrow> reads D c (rd_return v) [] v c'"
proof (rule readsI)
  fix r :: reader and t
  assume "c' \<subseteq>\<^sub>m c" "c \<subseteq>\<^sub>m rd_cache r" "rd_cache r \<subseteq>\<^sub>m D"
  then show "\<exists>k. rd_return v r = (Inr v, moved r (length []) k) \<and> rd_cache r \<subseteq>\<^sub>m k \<and> c' \<subseteq>\<^sub>m k \<and> k \<subseteq>\<^sub>m D"
    by (intro exI [of _ "rd_cache r"]) (auto simp: rd_return_def intro: map_le_trans)
qed simp

lemma reads_bind:
  assumes m: "reads D c m bs1 x c1" and f: "reads D c1 (f x) bs2 v c2"
  shows "reads D c (rd_bind m f) (bs1 @ bs2) v c2"
proof (rule readsI)
  fix r t
  assume r: "rd_ok r" "c \<subseteq>\<^sub>m rd_cache r" "rd_cache r \<subseteq>\<^sub>m D" and t: "rd_rest r = (bs1 @ bs2) @ t"
  then have t1: "rd_rest r = bs1 @ (bs2 @ t)" by simp
  obtain k where k: "m r = (Inr x, moved r (length bs1) k)" "rd_cache r \<subseteq>\<^sub>m k" "c1 \<subseteq>\<^sub>m k" "k \<subseteq>\<^sub>m D"
    using readsD [OF m r t1] .
  have "rd_ok (moved r (length bs1) k)" "rd_rest (moved r (length bs1) k) = bs2 @ t"
    using r(1) t1 by (simp_all add: rd_ok_moved rd_rest_moved)
  from readsD [OF f this(1) _ _ this(2)] k(3,4)
  obtain k' where "f x (moved r (length bs1) k) = (Inr v, moved r (length bs1 + length bs2) k')"
    "k \<subseteq>\<^sub>m k'" "c2 \<subseteq>\<^sub>m k'" "k' \<subseteq>\<^sub>m D" by auto
  with k show "\<exists>k. rd_bind m f r = (Inr v, moved r (length (bs1 @ bs2)) k) \<and>
      rd_cache r \<subseteq>\<^sub>m k \<and> c2 \<subseteq>\<^sub>m k \<and> k \<subseteq>\<^sub>m D"
    by (auto intro: map_le_trans)
next
  fix r s
  assume r: "rd_ok r" "c \<subseteq>\<^sub>m rd_cache r" "rd_cache r \<subseteq>\<^sub>m D"
    and s: "rd_rest r @ s = bs1 @ bs2" "s \<noteq> []"
  from s(1) obtain us where
    "rd_rest r = bs1 @ us \<and> us @ s = bs2 \<or> rd_rest r @ us = bs1 \<and> s = us @ bs2"
    by (auto simp: append_eq_append_conv2)
  then consider u where "rd_rest r = bs1 @ u" "u @ s = bs2"
    | u where "rd_rest r @ u = bs1" "u \<noteq> []"
    by (cases "us = []") auto
  then show "\<exists>n h a i k. rd_bind m f r = (Inl (Truncated n h a), r\<lparr>rd_at := i, rd_cache := k\<rparr>) \<and>
      rd_cache r \<subseteq>\<^sub>m k \<and> k \<subseteq>\<^sub>m D"
  proof cases
    case 1
    obtain k where k: "m r = (Inr x, moved r (length bs1) k)" "rd_cache r \<subseteq>\<^sub>m k" "c1 \<subseteq>\<^sub>m k" "k \<subseteq>\<^sub>m D"
      using readsD [OF m r 1(1)] .
    have f': "rd_ok (moved r (length bs1) k)" "c1 \<subseteq>\<^sub>m rd_cache (moved r (length bs1) k)"
      "rd_cache (moved r (length bs1) k) \<subseteq>\<^sub>m D" "rd_rest (moved r (length bs1) k) @ s = bs2"
      using r(1) 1 k(3,4) by (simp_all add: rd_ok_moved rd_rest_moved)
    obtain n h a i k' where
      "f x (moved r (length bs1) k) = (Inl (Truncated n h a), (moved r (length bs1) k)\<lparr>rd_at := i, rd_cache := k'\<rparr>)"
      "rd_cache (moved r (length bs1) k) \<subseteq>\<^sub>m k'" "k' \<subseteq>\<^sub>m D"
      by (rule reads_truncatedD [OF f f' s(2)])
    then have "rd_bind m f r = (Inl (Truncated n h a), r\<lparr>rd_at := i, rd_cache := k'\<rparr>)"
      by (simp add: k(1))
    moreover have "rd_cache r \<subseteq>\<^sub>m k'"
      using map_le_trans [OF k(2)] \<open>rd_cache (moved r (length bs1) k) \<subseteq>\<^sub>m k'\<close> by simp
    ultimately show ?thesis using \<open>k' \<subseteq>\<^sub>m D\<close> by blast
  next
    case 2
    obtain n h a i k where k: "m r = (Inl (Truncated n h a), r\<lparr>rd_at := i, rd_cache := k\<rparr>)"
      "rd_cache r \<subseteq>\<^sub>m k" "k \<subseteq>\<^sub>m D"
      by (rule reads_truncatedD [OF m r 2])
    then have "rd_bind m f r = (Inl (Truncated n h a), r\<lparr>rd_at := i, rd_cache := k\<rparr>)"
      by simp
    with k show ?thesis by blast
  qed
qed

lemma reads_bind_last:
  "reads D c m bs x c1 \<Longrightarrow> reads D c1 (f x) [] v c2 \<Longrightarrow> reads D c (rd_bind m f) bs v c2"
  using reads_bind [of D c m bs x c1 f "[]" v c2] by simp

lemma reads_bind_return:
  "reads D c m bs x c1 \<Longrightarrow> v = f x \<Longrightarrow> reads D c (rd_bind m (\<lambda>x. rd_return (f x))) bs v c1"
  using reads_bind [of D c m bs x c1 "\<lambda>x. rd_return (f x)" "[]" v c1]
  by (simp add: reads_return map_le_refl)

section \<open>The primitives read what the writer wrote\<close>

lemma rd_ok_nth: "rd_ok r \<Longrightarrow> n < length (rd_rest r) \<Longrightarrow>
    rd_buf r ! (nat (rd_at r) + n) = rd_rest r ! n"
  by (simp add: rd_ok_def rd_rest_def)

lemma rd_need_Inr: "rd_ok r \<Longrightarrow> n \<le> int (length (rd_rest r)) \<Longrightarrow> rd_need n r = (Inr (), r)"
  using length_rd_rest [of r] by (simp add: rd_need_def Let_def)

lemma rd_need_Inl: "rd_ok r \<Longrightarrow> int (length (rd_rest r)) < n \<Longrightarrow>
    \<exists>n h a. rd_need n' r = (Inl (Truncated n h a), r)" if "n' = n" for n'
  using length_rd_rest [of r] that by (simp add: rd_need_def Let_def)

text \<open>A step that consumes a fixed number of bytes and never touches the cache.\<close>

lemma reads_fixedI:
  assumes "\<And>r t. rd_ok r \<Longrightarrow> rd_rest r = bs @ t \<Longrightarrow> m r = (Inr v, moved r (length bs) (rd_cache r))"
    and "\<And>r. rd_ok r \<Longrightarrow> length (rd_rest r) < length bs \<Longrightarrow> \<exists>n h a. m r = (Inl (Truncated n h a), r)"
  shows "reads D c m bs v c"
proof (rule readsI)
  fix r t
  assume "rd_ok r" "rd_rest r = bs @ t" "c \<subseteq>\<^sub>m rd_cache r" "rd_cache r \<subseteq>\<^sub>m D"
  then show "\<exists>k. m r = (Inr v, moved r (length bs) k) \<and> rd_cache r \<subseteq>\<^sub>m k \<and> c \<subseteq>\<^sub>m k \<and> k \<subseteq>\<^sub>m D"
    using assms(1) [of r t] by (intro exI [of _ "rd_cache r"]) simp
next
  fix r s
  assume "rd_ok r" "rd_rest r @ s = bs" "s \<noteq> []"
  then obtain n h a where "m r = (Inl (Truncated n h a), r)"
    using assms(2) [of r] by fastforce
  moreover assume "rd_cache r \<subseteq>\<^sub>m D"
  ultimately show "\<exists>n h a i k. m r = (Inl (Truncated n h a), r\<lparr>rd_at := i, rd_cache := k\<rparr>) \<and>
      rd_cache r \<subseteq>\<^sub>m k \<and> k \<subseteq>\<^sub>m D"
    by (intro exI [of _ n] exI [of _ h] exI [of _ a] exI [of _ "rd_at r"] exI [of _ "rd_cache r"])
      simp
qed

lemma reads_bytes: "reads D c (rd_bytes (length bs)) bs bs c"
proof (rule reads_fixedI)
  fix r t
  assume r: "rd_ok r" "rd_rest r = bs @ t"
  then have "take (length bs) (drop (nat (rd_at r)) (rd_buf r)) = bs"
    by (simp add: rd_rest_def)
  with r show "rd_bytes (length bs) r = (Inr bs, moved r (length bs) (rd_cache r))"
    by (simp add: rd_bytes_def rd_bind_def rd_need_Inr) (simp add: rd_ok_def moved_def)
next
  fix r :: reader
  assume "rd_ok r" "length (rd_rest r) < length bs"
  then show "\<exists>n h a. rd_bytes (length bs) r = (Inl (Truncated n h a), r)"
    using rd_need_Inl [of "int (length bs)" "int (length bs)" r]
    by (auto simp: rd_bytes_def rd_bind_def)
qed

lemma reads_byte: "reads D c rd_readByte [b] (sint b) c"
proof (rule reads_fixedI)
  fix r t
  assume r: "rd_ok r" "rd_rest r = [b] @ t"
  then show "rd_readByte r = (Inr (sint b), moved r (length [b]) (rd_cache r))"
    using rd_ok_nth [of r 0]
    by (simp add: rd_readByte_def rd_bind_def rd_need_Inr) (simp add: rd_ok_def moved_def)
next
  fix r :: reader
  assume "rd_ok r" "length (rd_rest r) < length [b]"
  then show "\<exists>n h a. rd_readByte r = (Inl (Truncated n h a), r)"
    using rd_need_Inl [of 1 1 r] by (auto simp: rd_readByte_def rd_bind_def)
qed

lemma sint_byte_eq_0 [simp]: "sint (b :: byte) = 0 \<longleftrightarrow> b = 0"
  by (simp add: signed_eq_0_iff)

lemma reads_boolean: "reads D c rd_readBoolean [b] (b \<noteq> 0) c"
  unfolding rd_readBoolean_def
  by (rule reads_bind_return [OF reads_byte]) simp

lemma reads_fixed:
  "reads D c (rd_bytes n) (be n v) (be n v) c"
  "reads D c (rd_bytes n) (rev (be n v)) (rev (be n v)) c"
  using reads_bytes [of D c "be n v"] reads_bytes [of D c "rev (be n v)"] by simp_all

lemma reads_int: "is_int32 v \<Longrightarrow> reads D c rd_readInt (be 4 v) v c"
  unfolding rd_readInt_def by (rule reads_bind_return [OF reads_fixed(1)]) (simp add: decode_int32)

definition is_int16 :: "int \<Rightarrow> bool" where
  "is_int16 v \<longleftrightarrow> - (2 ^ 15) \<le> v \<and> v < 2 ^ 15"

lemma decode_int16: "is_int16 v \<Longrightarrow> sint (word_of_int (be_uint (be 2 v)) :: 16 word) = v"
  using signed_take_bit_take_bit [of 15 16 v]
  by (simp add: be_uint_be is_int16_def sint_sbintrunc' signed_take_bit_int_eq_self take_bit_eq_mod)

lemma reads_short: "is_int16 v \<Longrightarrow> reads D c rd_readShort (be 2 v) v c"
  unfolding rd_readShort_def
  by (rule reads_bind_return [OF reads_fixed(1)]) (simp add: decode_int16)

lemma decode_word64: "(word_of_int (be_uint (be 8 v)) :: 64 word) = word_of_int v"
  by (simp add: be_uint_be word_of_int_eq_iff take_bit_eq_mod)

lemma reads_long: "reads D c rd_readLong (be 8 v) (number_of_bigint (word_of_int v)) c"
  unfolding rd_readLong_def
  by (rule reads_bind_return [OF reads_fixed(1)]) (simp add: decode_word64)

lemma reads_double: "reads D c rd_readDoubleLE (rev (be 8 w)) (decode_double (word_of_int w)) c"
  unfolding rd_readDoubleLE_def
  by (rule reads_bind_return [OF reads_fixed(2)]) (simp add: decode_word64)

lemma reads_repeat:
  assumes "\<And>x. x \<in> set xs \<Longrightarrow> reads D c m (enc x) (val x) c"
  shows "reads D c (rd_repeat (length xs) m) (concat (map enc xs)) (map val xs) c"
  using assms
proof (induction xs)
  case Nil
  then show ?case by (simp add: reads_return map_le_refl)
next
  case (Cons x xs)
  then have x: "reads D c m (enc x) (val x) c"
    and xs: "reads D c (rd_repeat (length xs) m) (concat (map enc xs)) (map val xs) c" by simp_all
  have "reads D c (rd_bind (rd_repeat (length xs) m) (\<lambda>xs. rd_return (val x # xs)))
      (concat (map enc xs)) (map val (x # xs)) c"
    by (rule reads_bind_return [OF xs]) simp
  with x show ?case by (simp add: reads_bind)
qed

text \<open>
  The repeated read of cached strings threads the dictionary.
\<close>

lemma js_subarray_here:
  assumes "rd_ok r" and "rd_rest r = bs @ t"
  shows "js_subarray (rd_buf r) (rd_at r) (rd_at r + int (length bs)) = bs"
proof (cases "bs = []")
  case True
  then show ?thesis by (simp add: js_subarray_def)
next
  case False
  have "rd_at r + int (length bs) \<le> int (length (rd_buf r))"
    using length_rd_rest [OF assms(1)] assms(2) by simp
  moreover have "0 < int (length bs)" using False by simp
  ultimately have "rd_at r < int (length (rd_buf r))" by linarith
  with False assms \<open>rd_at r + int (length bs) \<le> _\<close> show ?thesis
    by (auto simp: js_subarray_def adjust_offset_def rd_ok_def rd_rest_def Let_def)
qed

lemma reads_string_body:
  assumes "bs \<noteq> []"
  shows "reads D c (rd_bind (rd_need (int (length bs) + 1)) (\<lambda>_ r.
       let bytes = js_subarray (rd_buf r) (rd_at r) (rd_at r + int (length bs))
       in rd_bind rd_readByte
            (\<lambda>coder. rd_return (if coder = 0 then latin1 bytes else utf16le bytes))
            (r\<lparr>rd_at := rd_at r + int (length bs)\<rparr>)))
    (bs @ [coder]) (dec_string (bs, coder)) c" (is "reads _ _ ?m _ _ _")
proof (rule reads_fixedI)
  fix r t
  assume r: "rd_ok r" "rd_rest r = (bs @ [coder]) @ t"
  then have sub: "js_subarray (rd_buf r) (rd_at r) (rd_at r + int (length bs)) = bs"
    by (intro js_subarray_here) auto
  define r' where "r' = moved r (length bs) (rd_cache r)"
  have "rd_ok r'" "rd_rest r' = [coder] @ t"
    using r by (simp_all add: r'_def rd_ok_moved rd_rest_moved)
  then have byte: "rd_readByte r' = (Inr (sint coder), moved r' 1 (rd_cache r'))"
    using reads_byte [of Map.empty "rd_cache r'" coder]
      rd_ok_nth [of r' 0] by (simp add: rd_readByte_def rd_bind_def rd_need_Inr)
      (simp add: rd_ok_def moved_def)
  have "r' = r\<lparr>rd_at := rd_at r + int (length bs)\<rparr>"
    by (simp add: r'_def moved_def)
  with byte have "rd_readByte (r\<lparr>rd_at := rd_at r + int (length bs)\<rparr>) =
      (Inr (sint coder), moved r (length (bs @ [coder])) (rd_cache r))"
    by (simp add: moved_def add.assoc)
  with r assms show "?m r = (Inr (dec_string (bs, coder)), moved r (length (bs @ [coder])) (rd_cache r))"
    by (simp add: rd_need_Inr Let_def sub rd_return_def rd_bind_def)
next
  fix r :: reader
  assume "rd_ok r" "length (rd_rest r) < length (bs @ [coder])"
  then show "\<exists>n h a. ?m r = (Inl (Truncated n h a), r)"
    using rd_need_Inl [of "int (length bs) + 1" "int (length bs) + 1" r]
    by (auto simp: rd_bind_def)
qed

lemma reads_string: "string_ok s \<Longrightarrow> reads D c rd_readString (enc_string s) (dec_string s) c"
proof (cases s)
  case (Pair bs coder)
  assume "string_ok s"
  then have len: "is_int32 (int (length bs))" by (simp add: string_ok_def is_int32_def Pair)
  show ?thesis
  proof (cases "bs = []")
    case True
    then have "reads D c rd_readString (be 4 (int (length bs))) [] c"
      unfolding rd_readString_def by (intro reads_bind_last [OF reads_int [OF len]])
        (simp add: reads_return)
    with True show ?thesis by (simp add: Pair)
  next
    case False
    have "reads D c rd_readString (be 4 (int (length bs)) @ (bs @ [coder])) (dec_string (bs, coder)) c"
      unfolding rd_readString_def
      by (rule reads_bind [OF reads_int [OF len]])
        (use False reads_string_body [OF False, of D c coder] in simp)
    with False show ?thesis by (simp add: Pair)
  qed
qed

section \<open>Cached strings\<close>

lemma reads_remember:
  assumes "D i = Some s"
  shows "reads D c (\<lambda>r. (Inr s, r\<lparr>rd_cache := (rd_cache r)(i \<mapsto> s)\<rparr>)) [] s (c(i \<mapsto> s))"
proof (rule readsI)
  fix r :: reader and t
  assume r: "c \<subseteq>\<^sub>m rd_cache r" "rd_cache r \<subseteq>\<^sub>m D"
  then have "rd_cache r \<subseteq>\<^sub>m (rd_cache r)(i \<mapsto> s)" "(rd_cache r)(i \<mapsto> s) \<subseteq>\<^sub>m D"
    using assms by (auto simp: map_le_def domIff; metis domI option.inject)+
  moreover have "c(i \<mapsto> s) \<subseteq>\<^sub>m (rd_cache r)(i \<mapsto> s)"
    using r(1) by (rule map_le_upd)
  ultimately show "\<exists>k. (Inr s, r\<lparr>rd_cache := (rd_cache r)(i \<mapsto> s)\<rparr>) = (Inr s, moved r (length []) k) \<and>
      rd_cache r \<subseteq>\<^sub>m k \<and> c(i \<mapsto> s) \<subseteq>\<^sub>m k \<and> k \<subseteq>\<^sub>m D"
    by (intro exI [of _ "(rd_cache r)(i \<mapsto> s)"]) (simp add: moved_def)
qed simp

lemma reads_recall:
  assumes "c i \<noteq> None"
  shows "reads D c (\<lambda>r. case rd_cache r i of Some s \<Rightarrow> (Inr s, r) | None \<Rightarrow> g r) [] (the (D i)) c"
proof (rule readsI)
  fix r :: reader and t
  assume r: "c \<subseteq>\<^sub>m rd_cache r" "rd_cache r \<subseteq>\<^sub>m D"
  then have "rd_cache r i = Some (the (D i))"
    using assms by (metis domIff map_le_def option.collapse)
  with r show "\<exists>k. (case rd_cache r i of Some s \<Rightarrow> (Inr s, r) | None \<Rightarrow> g r) =
      (Inr (the (D i)), moved r (length []) k) \<and> rd_cache r \<subseteq>\<^sub>m k \<and> c \<subseteq>\<^sub>m k \<and> k \<subseteq>\<^sub>m D"
    by (intro exI [of _ "rd_cache r"]) simp
qed simp

lemma reads_cached:
  "cached_ok D c x \<Longrightarrow> reads D c rd_readCachedString (enc_cached x) (cached_val D x) (cached_after x c)"
proof (cases x)
  case (Def i s)
  assume "cached_ok D c x"
  then have ok: "0 \<le> i" "is_int32 i" "string_ok s" "D i = Some (dec_string s)"
    by (simp_all add: Def)
  have "reads D c (rd_bind rd_readString (\<lambda>s r. (Inr s, r\<lparr>rd_cache := (rd_cache r)(i \<mapsto> s)\<rparr>)))
      (enc_string s) (dec_string s) (c(i \<mapsto> dec_string s))"
    by (rule reads_bind_last [OF reads_string [OF ok(3)]]) (rule reads_remember, rule ok(4))
  with ok show ?thesis
    by (simp add: Def rd_readCachedString_def reads_bind [OF reads_int [OF ok(2)]])
next
  case (Ref i)
  assume "cached_ok D c x"
  then have ok: "0 < i" "is_int32 (- i)" "c i \<noteq> None" by (simp_all add: Ref)
  then have "reads D c rd_readCachedString (be 4 (- i)) (the (D i)) c"
    unfolding rd_readCachedString_def
    by (intro reads_bind_last [OF reads_int])
      (simp_all, rule reads_recall, simp)
  with Ref show ?thesis by simp
qed

definition enc_cached_list :: "cached list \<Rightarrow> byte list" where
  "enc_cached_list xs = be 4 (int (length xs)) @ concat (map enc_cached xs)"

lemma reads_cached_repeat:
  "cached_list_ok D c xs \<Longrightarrow> reads D c (rd_repeat (length xs) rd_readCachedString)
     (concat (map enc_cached xs)) (map (cached_val D) xs) (cached_list_after xs c)"
proof (induction xs arbitrary: c)
  case Nil
  then show ?case by (simp add: reads_return)
next
  case (Cons x xs)
  then have x: "reads D c rd_readCachedString (enc_cached x) (cached_val D x) (cached_after x c)"
    by (simp add: reads_cached)
  have "reads D (cached_after x c)
      (rd_bind (rd_repeat (length xs) rd_readCachedString) (\<lambda>xs. rd_return (cached_val D x # xs)))
      (concat (map enc_cached xs)) (map (cached_val D) (x # xs)) (cached_list_after xs (cached_after x c))"
    by (rule reads_bind_return [OF Cons.IH]) (use Cons.prems in simp_all)
  with x show ?case by (simp add: reads_bind)
qed

lemma reads_groups:
  "cached_list_ok D c xs \<Longrightarrow> int (length xs) < 2 ^ 31 \<Longrightarrow>
   reads D c rd_readGroups (enc_cached_list xs) (map (cached_val D) xs) (cached_list_after xs c)"
  unfolding rd_readGroups_def enc_cached_list_def
  by (rule reads_bind [OF reads_int]) (simp_all add: is_int32_def reads_cached_repeat)

section \<open>The header\<close>

record raw_header =
  hd_version :: raw_string
  hd_class :: raw_string
  hd_start :: int
  hd_description :: raw_string
  hd_scenarios :: "raw_string list"
  hd_assertions :: "byte list list"

definition enc_payload :: "byte list \<Rightarrow> byte list" where
  "enc_payload p = be 4 (int (length p)) @ p"

definition payload_val :: "byte list \<Rightarrow> tool_assertion" where
  "payload_val p = (case parseAssertion p of Inr a \<Rightarrow> a
     | Inl _ \<Rightarrow> \<lparr>ta_path = Global, ta_target = MeanRequestsPerSecond, ta_condition = CondIn []\<rparr>)"

definition payload_ok :: "byte list \<Rightarrow> bool" where
  "payload_ok p \<longleftrightarrow> int (length p) < 2 ^ 31 \<and> (case parseAssertion p of Inr _ \<Rightarrow> True | Inl _ \<Rightarrow> False)"

definition enc_header :: "raw_header \<Rightarrow> byte list" where
  "enc_header H = 0 # enc_string (hd_version H) @ enc_string (hd_class H) @ be 8 (hd_start H) @
     enc_string (hd_description H) @
     be 4 (int (length (hd_scenarios H))) @ concat (map enc_string (hd_scenarios H)) @
     be 4 (int (length (hd_assertions H))) @ concat (map enc_payload (hd_assertions H))"

definition header_ok :: "raw_header \<Rightarrow> bool" where
  "header_ok H \<longleftrightarrow> string_ok (hd_version H) \<and> string_ok (hd_class H) \<and> string_ok (hd_description H) \<and>
     list_all string_ok (hd_scenarios H) \<and> int (length (hd_scenarios H)) < 2 ^ 31 \<and>
     list_all payload_ok (hd_assertions H) \<and> int (length (hd_assertions H)) < 2 ^ 31"

definition header_val :: "raw_header \<Rightarrow> run_header" where
  "header_val H = \<lparr>rh_gatlingVersion = dec_string (hd_version H),
     rh_simulationClassName = dec_string (hd_class H),
     rh_runStartEpochMs = number_of_bigint (word_of_int (hd_start H)),
     rh_description = dec_string (hd_description H),
     rh_scenarios = map dec_string (hd_scenarios H),
     rh_assertionCount = int (length (hd_assertions H)),
     rh_assertions = map payload_val (hd_assertions H)\<rparr>"

lemma map_word_sint [simp]: "map (word_of_int \<circ> sint) (p :: byte list) = p"
  by (simp add: map_idI)

lemma reads_assertion:
  assumes "payload_ok p"
  shows "reads D c readAssertion (enc_payload p) (payload_val p) c"
proof -
  from assms obtain a where a: "parseAssertion p = Inr a" and len: "is_int32 (int (length p))"
    by (auto simp: payload_ok_def is_int32_def split: sum.splits)
  have "reads D c (rd_repeat (length p) rd_readByte) (concat (map (\<lambda>b. [b]) p)) (map sint p) c"
    by (rule reads_repeat) (rule reads_byte)
  then have codes: "reads D c (rd_repeat (length p) rd_readByte) p (map sint p) c" by simp
  then have "reads D c (rd_bind (rd_repeat (length p) rd_readByte) (\<lambda>codes.
      case parseAssertion (map word_of_int codes) of Inl e \<Rightarrow> rd_throw e | Inr a \<Rightarrow> rd_return a)) p
      (payload_val p) c"
    by (rule reads_bind_last) (simp add: a payload_val_def reads_return)
  then show ?thesis
    unfolding readAssertion_def enc_payload_def by (intro reads_bind [OF reads_int [OF len]]) simp
qed

lemma reads_header:
  assumes "header_ok H"
  shows "reads D c readRunHeader (enc_header H) (header_val H) c"
proof -
  have byte0: "reads D c rd_readByte [0] 0 c" using reads_byte [of D c 0] by simp
  have scs: "reads D c (rd_repeat (length (hd_scenarios H)) rd_readString)
      (concat (map enc_string (hd_scenarios H))) (map dec_string (hd_scenarios H)) c"
    by (rule reads_repeat, rule reads_string) (use assms in \<open>auto simp: header_ok_def list_all_iff\<close>)
  have ass: "reads D c (rd_repeat (length (hd_assertions H)) readAssertion)
      (concat (map enc_payload (hd_assertions H))) (map payload_val (hd_assertions H)) c"
    by (rule reads_repeat, rule reads_assertion) (use assms in \<open>auto simp: header_ok_def list_all_iff\<close>)
  have "reads D c readRunHeader ([0] @ enc_string (hd_version H) @ enc_string (hd_class H) @
     be 8 (hd_start H) @ enc_string (hd_description H) @
     be 4 (int (length (hd_scenarios H))) @ concat (map enc_string (hd_scenarios H)) @
     be 4 (int (length (hd_assertions H))) @ concat (map enc_payload (hd_assertions H)))
     (header_val H) c"
    unfolding readRunHeader_def
    apply (rule reads_bind [OF byte0])
    apply (simp only: refl not_True_eq_False if_False)
    apply (rule reads_bind [OF reads_string reads_bind [OF reads_string
        reads_bind [OF reads_long reads_bind [OF reads_string]]]])
    apply (use assms in \<open>simp_all add: header_ok_def\<close>)
    apply (rule reads_bind [OF reads_int reads_bind [OF _ reads_bind [OF reads_int]]])
    apply (use assms scs in \<open>simp_all add: header_ok_def is_int32_def\<close>)
    apply (rule reads_bind_return [OF ass])
    by (simp add: header_val_def)
  then show ?thesis by (simp add: enc_header_def)
qed

section \<open>Records and whole logs\<close>

datatype raw_record =
    RawRequest "cached list" cached int int byte cached
  | RawUser int byte int
  | RawGroup "cached list" int int int byte
  | RawError cached int

fun enc_record :: "raw_record \<Rightarrow> byte list" where
  "enc_record (RawRequest gs name s e ok msg) =
     1 # enc_cached_list gs @ enc_cached name @ be 4 s @ be 4 e @ [ok] @ enc_cached msg"
| "enc_record (RawUser sc start off) = 2 # be 4 sc @ [start] @ be 4 off"
| "enc_record (RawGroup gs s e cumulated ok) =
     3 # enc_cached_list gs @ be 4 s @ be 4 e @ be 4 cumulated @ [ok]"
| "enc_record (RawError msg off) = 4 # enc_cached msg @ be 4 off"

fun record_after :: "raw_record \<Rightarrow> (int \<rightharpoonup> jstr) \<Rightarrow> (int \<rightharpoonup> jstr)" where
  "record_after (RawRequest gs name s e ok msg) c =
     cached_after msg (cached_after name (cached_list_after gs c))"
| "record_after (RawUser sc start off) c = c"
| "record_after (RawGroup gs s e cumulated ok) c = cached_list_after gs c"
| "record_after (RawError msg off) c = cached_after msg c"

fun record_ok :: "(int \<rightharpoonup> jstr) \<Rightarrow> (int \<rightharpoonup> jstr) \<Rightarrow> nat \<Rightarrow> raw_record \<Rightarrow> bool" where
  "record_ok D c n (RawRequest gs name s e ok msg) \<longleftrightarrow>
     cached_list_ok D c gs \<and> int (length gs) < 2 ^ 31 \<and> cached_ok D (cached_list_after gs c) name \<and>
     cached_ok D (cached_after name (cached_list_after gs c)) msg \<and> is_int32 s \<and> is_int32 e"
| "record_ok D c n (RawUser sc start off) \<longleftrightarrow> 0 \<le> sc \<and> sc < int n \<and> is_int32 sc \<and> is_int32 off"
| "record_ok D c n (RawGroup gs s e cumulated ok) \<longleftrightarrow>
     cached_list_ok D c gs \<and> int (length gs) < 2 ^ 31 \<and> is_int32 s \<and> is_int32 e \<and> is_int32 cumulated"
| "record_ok D c n (RawError msg off) \<longleftrightarrow> cached_ok D c msg \<and> is_int32 off"

fun record_val :: "(int \<rightharpoonup> jstr) \<Rightarrow> run_header \<Rightarrow> int \<Rightarrow> raw_record \<Rightarrow> canonical_event \<times> int" where
  "record_val D h seq (RawRequest gs name s e ok msg) = (RequestE \<lparr>rq_name = cached_val D name,
     rq_groups = map (cached_val D) gs, rq_scenario = None, rq_userId = [],
     rq_startMs = int_add (rh_runStartEpochMs h) s, rq_endMs = int_add (rh_runStartEpochMs h) e,
     rq_firstByteMs = None, rq_ok = (ok \<noteq> 0), rq_message = nonempty (cached_val D msg)\<rparr>, seq)"
| "record_val D h seq (RawUser sc start off) = (UserE \<lparr>us_scenario = rh_scenarios h ! nat sc,
     us_userId = js_int seq, us_kind = (if start \<noteq> 0 then UserStart else UserEnd),
     us_tsMs = int_add (rh_runStartEpochMs h) off\<rparr>, seq + 1)"
| "record_val D h seq (RawGroup gs s e cumulated ok) = (GroupE \<lparr>gr_groups = map (cached_val D) gs,
     gr_userId = [], gr_startMs = int_add (rh_runStartEpochMs h) s,
     gr_endMs = int_add (rh_runStartEpochMs h) e, gr_cumulatedResponseTimeMs = cumulated,
     gr_ok = (ok \<noteq> 0)\<rparr>, seq)"
| "record_val D h seq (RawError msg off) = (ErrorE \<lparr>er_message = cached_val D msg,
     er_tsMs = int_add (rh_runStartEpochMs h) off\<rparr>, seq)"

lemma reads_bind_Cons:
  "reads D c m [b] x c1 \<Longrightarrow> reads D c1 (f x) bs2 v c2 \<Longrightarrow> reads D c (rd_bind m f) (b # bs2) v c2"
  using reads_bind [of D c m "[b]" x c1 f bs2 v c2] by simp

lemmas reads_steps =
  reads_bind reads_bind_return reads_groups reads_cached reads_int reads_boolean

lemma reads_record:
  assumes "record_ok D c (length (rh_scenarios h)) R" and "base = rh_runStartEpochMs h"
  shows "reads D c (readRecord h base seq) (enc_record R) (record_val D h seq R) (record_after R c)"
proof -
  have tag: "reads D c rd_readByte [t] (sint t) c" for t :: byte by (rule reads_byte)
  show ?thesis
  proof (cases R)
    case (RawRequest gs name s e ok msg)
    have "reads D c (readRequestRecord base) (enc_cached_list gs @ enc_cached name @ be 4 s @ be 4 e @
        [ok] @ enc_cached msg) (fst (record_val D h seq R)) (record_after R c)"
      unfolding readRequestRecord_def RawRequest record_after.simps
      by (rule reads_steps | (use assms in \<open>simp add: RawRequest; fail\<close>))+
    then have "reads D c (rd_bind (readRequestRecord base) (\<lambda>e. rd_return (e, seq)))
        (enc_cached_list gs @ enc_cached name @ be 4 s @ be 4 e @ [ok] @ enc_cached msg)
        (record_val D h seq R) (record_after R c)"
      by (rule reads_bind_return) (simp add: RawRequest)
    then show ?thesis
      unfolding readRecord_def RawRequest enc_record.simps
      by - (rule reads_bind_Cons [OF tag [of 1]], simp)
  next
    case (RawUser sc start off)
    have "reads D c (readUserRecord h base seq) (be 4 sc @ [start] @ be 4 off)
        (fst (record_val D h seq R)) c"
      unfolding readUserRecord_def RawUser record_after.simps
      by (rule reads_steps reads_bind_last [OF reads_int] |
          (use assms in \<open>simp add: RawUser reads_return; fail\<close>))+
    then have "reads D c (rd_bind (readUserRecord h base seq) (\<lambda>e. rd_return (e, seq + 1)))
        (be 4 sc @ [start] @ be 4 off) (record_val D h seq R) c"
      by (rule reads_bind_return) (simp add: RawUser)
    then show ?thesis
      unfolding readRecord_def RawUser enc_record.simps record_after.simps
      by - (rule reads_bind_Cons [OF tag [of 2]], simp)
  next
    case (RawGroup gs s e cumulated ok)
    have "reads D c (readGroupRecord base) (enc_cached_list gs @ be 4 s @ be 4 e @ be 4 cumulated @ [ok])
        (fst (record_val D h seq R)) (record_after R c)"
      unfolding readGroupRecord_def RawGroup record_after.simps
      by (rule reads_steps | (use assms in \<open>simp add: RawGroup; fail\<close>))+
    then have "reads D c (rd_bind (readGroupRecord base) (\<lambda>e. rd_return (e, seq)))
        (enc_cached_list gs @ be 4 s @ be 4 e @ be 4 cumulated @ [ok]) (record_val D h seq R)
        (record_after R c)"
      by (rule reads_bind_return) (simp add: RawGroup)
    then show ?thesis
      unfolding readRecord_def RawGroup enc_record.simps
      by - (rule reads_bind_Cons [OF tag [of 3]], simp)
  next
    case (RawError msg off)
    have "reads D c (readErrorRecord base) (enc_cached msg @ be 4 off)
        (fst (record_val D h seq R)) (record_after R c)"
      unfolding readErrorRecord_def RawError record_after.simps
      by (rule reads_steps | (use assms in \<open>simp add: RawError; fail\<close>))+
    then have "reads D c (rd_bind (readErrorRecord base) (\<lambda>e. rd_return (e, seq)))
        (enc_cached msg @ be 4 off) (record_val D h seq R) (record_after R c)"
      by (rule reads_bind_return) (simp add: RawError)
    then show ?thesis
      unfolding readRecord_def RawError enc_record.simps
      by - (rule reads_bind_Cons [OF tag [of 4]], simp)
  qed
qed


end
