(* ===== verification/LogDecode.thy ===== *)
theory LogDecode
  imports LogFormat
begin

text \<open>
  The decoders against the format: the pull parser reads every event of a well-formed log,
  the push parser reads the same events however the bytes are cut into chunks, and a cut
  anywhere keeps exactly the whole records before it.
\<close>

section \<open>Sequences of records\<close>

definition enc_records :: "raw_record list \<Rightarrow> byte list" where
  "enc_records rs = concat (map enc_record rs)"

lemma enc_records_simps [simp]:
  "enc_records [] = []" "enc_records (R # rs) = enc_record R @ enc_records rs"
  "enc_records (rs @ rs') = enc_records rs @ enc_records rs'"
  by (simp_all add: enc_records_def)

fun records_ok :: "(int \<rightharpoonup> jstr) \<Rightarrow> (int \<rightharpoonup> jstr) \<Rightarrow> nat \<Rightarrow> raw_record list \<Rightarrow> bool" where
  "records_ok D c n [] = True"
| "records_ok D c n (R # rs) = (record_ok D c n R \<and> records_ok D (record_after R c) n rs)"

abbreviation records_after :: "raw_record list \<Rightarrow> (int \<rightharpoonup> jstr) \<Rightarrow> (int \<rightharpoonup> jstr)" where
  "records_after rs c \<equiv> fold record_after rs c"

fun records_val :: "(int \<rightharpoonup> jstr) \<Rightarrow> run_header \<Rightarrow> int \<Rightarrow> raw_record list \<Rightarrow> canonical_event list" where
  "records_val D h n [] = []"
| "records_val D h n (R # rs) = (case record_val D h n R of (e, n') \<Rightarrow> e # records_val D h n' rs)"

fun seq_after :: "int \<Rightarrow> raw_record list \<Rightarrow> int" where
  "seq_after n [] = n"
| "seq_after n (RawUser _ _ _ # rs) = seq_after (n + 1) rs"
| "seq_after n (_ # rs) = seq_after n rs"

lemma seq_after_Cons: "seq_after n (R # rs) = seq_after (snd (record_val D h n R)) rs"
  by (cases R) simp_all

lemma enc_record_nonempty [simp]: "enc_record R \<noteq> []"
  by (cases R) simp_all

text \<open>The records that lie whole within the first bytes of their encoding.\<close>

fun whole :: "byte list \<Rightarrow> raw_record list \<Rightarrow> raw_record list" where
  "whole q [] = []"
| "whole q (R # rs) = (if length (enc_record R) \<le> length q
     then R # whole (drop (length (enc_record R)) q) rs else [])"

fun unread :: "byte list \<Rightarrow> raw_record list \<Rightarrow> byte list" where
  "unread q [] = q"
| "unread q (R # rs) = (if length (enc_record R) \<le> length q
     then unread (drop (length (enc_record R)) q) rs else q)"

lemma prefix_cases:
  assumes "q @ s = a @ b"
  obtains "length a \<le> length q" "q = a @ drop (length a) q" "drop (length a) q @ s = b"
  | u where "length q < length a" "a = q @ u" "u \<noteq> []"
proof (cases "length a \<le> length q")
  case True
  with assms have "q = a @ drop (length a) q"
    by (metis append_eq_append_conv_if append_take_drop_id)
  with assms True show ?thesis by (metis append.assoc same_append_eq that(1))
next
  case False
  with assms have "a = q @ drop (length q) a"
    by (metis append_eq_append_conv_if append_take_drop_id linorder_not_le nat_le_linear)
  with False show ?thesis by (metis append_Nil2 linorder_not_le order_refl that(2))
qed

lemma whole_unread:
  "q @ s = enc_records rs \<Longrightarrow> q = enc_records (whole q rs) @ unread q rs"
proof (induction rs arbitrary: q)
  case (Cons R rs)
  then have "q @ s = enc_record R @ enc_records rs" by simp
  then show ?case
  proof (cases rule: prefix_cases)
    case 1
    then show ?thesis using Cons.IH [of "drop (length (enc_record R)) q"] by simp
  qed simp
qed simp

lemma whole_all: "whole (enc_records rs) rs = rs" "unread (enc_records rs) rs = []"
  by (induction rs) simp_all

section \<open>The pull parser\<close>

lemma drop_rest_length: "rd_ok r \<Longrightarrow> rd_eof r \<longleftrightarrow> rd_rest r = []"
  by (auto simp: rd_ok_def rd_eof_def rd_rest_def)

lemma parseRecords_prefix:
  assumes "rd_ok r" and "rd_rest r @ s = enc_records rs" and "c \<subseteq>\<^sub>m rd_cache r" and "rd_cache r \<subseteq>\<^sub>m D"
    and "records_ok D c (length (rh_scenarios h)) rs"
  shows "\<exists>err. parseRecords h (rh_runStartEpochMs h) n r = Some (records_val D h n (whole (rd_rest r) rs), err) \<and>
    (err = None \<longleftrightarrow> unread (rd_rest r) rs = []) \<and>
    (\<forall>e. err = Some e \<longrightarrow> is_truncated e)"
  using assms
proof (induction rs arbitrary: r c n)
  case Nil
  then show ?case by (simp add: parseRecords.simps [of h _ n r] drop_rest_length)
next
  case (Cons R rs)
  have R: "reads D c (readRecord h (rh_runStartEpochMs h) n) (enc_record R) (record_val D h n R) (record_after R c)"
    using Cons.prems by (intro reads_record) simp_all
  obtain e n' where v: "record_val D h n R = (e, n')" by fastforce
  from Cons.prems(2) have "rd_rest r @ s = enc_record R @ enc_records rs" by simp
  then show ?case
  proof (cases rule: prefix_cases)
    case 1
    obtain k where k: "readRecord h (rh_runStartEpochMs h) n r = (Inr (e, n'), moved r (length (enc_record R)) k)"
      "record_after R c \<subseteq>\<^sub>m k" "k \<subseteq>\<^sub>m D"
      using readsD [OF R Cons.prems(1,3,4) 1(2)] v by auto
    let ?r = "moved r (length (enc_record R)) k"
    have rest: "rd_rest ?r = drop (length (enc_record R)) (rd_rest r)" and ok: "rd_ok ?r"
      using Cons.prems(1) 1(1) by (simp_all add: rd_rest_moved rd_ok_moved)
    have "\<exists>err. parseRecords h (rh_runStartEpochMs h) n' ?r = Some (records_val D h n' (whole (rd_rest ?r) rs), err) \<and>
        (err = None \<longleftrightarrow> unread (rd_rest ?r) rs = []) \<and> (\<forall>e. err = Some e \<longrightarrow> is_truncated e)"
      using Cons.prems(5) 1(3) k(2,3) ok rest by (intro Cons.IH [where c = "record_after R c"]) simp_all
    moreover have "\<not> rd_eof r"
      using drop_rest_length [OF Cons.prems(1)] 1(1) by (metis enc_record_nonempty le_zero_eq length_0_conv)
    ultimately show ?thesis
      using 1(1) by (auto simp: parseRecords.simps [of h _ n r] k(1) v rest)
  next
    case (2 u)
    then obtain x y z i k where "readRecord h (rh_runStartEpochMs h) n r = (Inl (Truncated x y z), r\<lparr>rd_at := i, rd_cache := k\<rparr>)"
      using reads_truncatedD [OF R Cons.prems(1,3,4), of u] by metis
    then show ?thesis
      using 2 by (auto simp: parseRecords.simps [of h _ n r] drop_rest_length [OF Cons.prems(1)])
  qed
qed

section \<open>Logs\<close>

type_synonym raw_log = "raw_header \<times> raw_record list"

definition enc_log :: "raw_log \<Rightarrow> byte list" where
  "enc_log L = enc_header (fst L) @ enc_records (snd L)"

definition dictionary :: "raw_log \<Rightarrow> (int \<rightharpoonup> jstr)" where
  "dictionary L = records_after (snd L) Map.empty"

text \<open>Well-formed: each string is defined once, before its first use.\<close>

definition log_ok :: "raw_log \<Rightarrow> bool" where
  "log_ok L \<longleftrightarrow> header_ok (fst L) \<and>
     records_ok (dictionary L) Map.empty (length (hd_scenarios (fst L))) (snd L)"

definition log_val :: "raw_log \<Rightarrow> raw_record list \<Rightarrow> canonical_event list" where
  "log_val L rs = metaOf (header_val (fst L)) #
     records_val (dictionary L) (header_val (fst L)) 0 rs"

lemma new_reader_simps [simp]:
  "rd_ok (new_reader bs)" "rd_rest (new_reader bs) = bs" "rd_cache (new_reader bs) = Map.empty"
  "rd_base (new_reader bs) = 0" "rd_at (new_reader bs) = 0" "rd_buf (new_reader bs) = bs"
  by (simp_all add: new_reader_def rd_ok_def rd_rest_def)

lemma length_scenarios_val [simp]: "length (rh_scenarios (header_val H)) = length (hd_scenarios H)"
  by (simp add: header_val_def)

section \<open>The push parser\<close>

lemma whole_append:
  "whole (q @ c) rs = whole q rs @ whole (unread q rs @ c) (drop (length (whole q rs)) rs)"
  "unread (q @ c) rs = unread (unread q rs @ c) (drop (length (whole q rs)) rs)"
  by (induction rs arbitrary: q) (simp_all add: not_le)

lemma whole_split: "rs = whole q rs @ drop (length (whole q rs)) rs"
  by (induction rs arbitrary: q) simp_all

lemma records_val_append:
  "records_val D h n (a @ b) = records_val D h n a @ records_val D h (seq_after n a) b"
proof (induction a arbitrary: n)
  case (Cons R a)
  then show ?case by (simp add: seq_after_Cons [of n R a D h] split: prod.splits)
qed simp

lemma seq_after_append: "seq_after n (a @ b) = seq_after (seq_after n a) b"
  by (induction n a rule: seq_after.induct) simp_all

lemma records_ok_append:
  "records_ok D c n (a @ b) \<longleftrightarrow> records_ok D c n a \<and> records_ok D (records_after a c) n b"
  by (induction a arbitrary: c) simp_all

lemma rd_seek_mark: "rd_seek (rd_pos r) (r\<lparr>rd_at := i, rd_cache := k\<rparr>) = moved r 0 k"
  by (simp add: rd_seek_def rd_pos_def moved_def)

lemma rd_pos_moved [simp]: "rd_pos (moved r n k) = rd_pos r + int n"
  by (simp add: rd_pos_def moved_def)

lemma rd_append_at_mark:
  assumes "rd_ok r"
  shows "rd_append c (rd_pos r) r = \<lparr>rd_buf = rd_rest r @ c, rd_at = 0, rd_base = rd_pos r,
    rd_cache = rd_cache r\<rparr>"
  using assms by (cases r) (simp add: rd_append_def rd_pos_def rd_ok_def rd_rest_def max_def Let_def)

lemma pushLoop_prefix:
  assumes "rd_ok (sd_reader d)" and "rd_rest (sd_reader d) @ s = enc_records rs"
    and "c \<subseteq>\<^sub>m rd_cache (sd_reader d)" and "rd_cache (sd_reader d) \<subseteq>\<^sub>m D"
    and "records_ok D c (length (rh_scenarios h)) rs" and "sd_consumed d = rd_pos (sd_reader d)"
  shows "\<exists>k. pushLoop h out d =
      (let ws = whole (rd_rest (sd_reader d)) rs; n = length (enc_records ws) in
       Some (Inr (out @ records_val D h (sd_userSeq d) ws),
         d\<lparr>sd_reader := moved (sd_reader d) n k, sd_userSeq := seq_after (sd_userSeq d) ws,
           sd_consumed := sd_consumed d + int n\<rparr>)) \<and>
    records_after (whole (rd_rest (sd_reader d)) rs) c \<subseteq>\<^sub>m k \<and> k \<subseteq>\<^sub>m D"
  using assms
proof (induction rs arbitrary: d c out)
  case Nil
  then show ?case
    by (intro exI [of _ "rd_cache (sd_reader d)"])
      (simp add: pushLoop.simps [of h out d] drop_rest_length)
next
  case (Cons R rs)
  let ?r = "sd_reader d" and ?n = "length (enc_record R)"
  have R: "reads D c (readRecord h (rh_runStartEpochMs h) (sd_userSeq d)) (enc_record R)
      (record_val D h (sd_userSeq d) R) (record_after R c)"
    using Cons.prems by (intro reads_record) simp_all
  obtain e n' where v: "record_val D h (sd_userSeq d) R = (e, n')" by fastforce
  from Cons.prems(2) have "rd_rest ?r @ s = enc_record R @ enc_records rs" by simp
  then show ?case
  proof (cases rule: prefix_cases)
    case 1
    obtain k where k: "readRecord h (rh_runStartEpochMs h) (sd_userSeq d) ?r = (Inr (e, n'), moved ?r ?n k)"
      "record_after R c \<subseteq>\<^sub>m k" "k \<subseteq>\<^sub>m D"
      using readsD [OF R Cons.prems(1,3,4) 1(2)] v by auto
    let ?d = "d\<lparr>sd_reader := moved ?r ?n k, sd_userSeq := n', sd_consumed := rd_pos (moved ?r ?n k)\<rparr>"
    have rest: "rd_rest (moved ?r ?n k) = drop ?n (rd_rest ?r)" and ok: "rd_ok (moved ?r ?n k)"
      using Cons.prems(1) 1(1) by (simp_all add: rd_rest_moved rd_ok_moved)
    have eof: "\<not> rd_eof ?r"
      using drop_rest_length [OF Cons.prems(1)] 1(1) by (metis enc_record_nonempty le_zero_eq length_0_conv)
    obtain k' where k': "pushLoop h (out @ [e]) ?d =
      (let ws = whole (rd_rest (sd_reader ?d)) rs; n = length (enc_records ws) in
       Some (Inr ((out @ [e]) @ records_val D h (sd_userSeq ?d) ws),
         ?d\<lparr>sd_reader := moved (sd_reader ?d) n k', sd_userSeq := seq_after (sd_userSeq ?d) ws,
           sd_consumed := sd_consumed ?d + int n\<rparr>))"
      "records_after (whole (rd_rest (sd_reader ?d)) rs) (record_after R c) \<subseteq>\<^sub>m k'" "k' \<subseteq>\<^sub>m D"
      using Cons.IH [of ?d "record_after R c" "out @ [e]"] Cons.prems(5) 1(3) k(2,3) ok rest by auto
    have "pushLoop h out d = pushLoop h (out @ [e]) ?d"
      using eof by (simp add: pushLoop.simps [of h out d] k(1))
    with k' 1(1) v rest Cons.prems(6) show ?thesis
      by (intro exI [of _ k'])
        (simp add: Let_def seq_after_Cons [of _ R _ D h] add.assoc)
  next
    case (2 u)
    then obtain x y z i k where
      "readRecord h (rh_runStartEpochMs h) (sd_userSeq d) ?r = (Inl (Truncated x y z), ?r\<lparr>rd_at := i, rd_cache := k\<rparr>)"
      "rd_cache ?r \<subseteq>\<^sub>m k" "k \<subseteq>\<^sub>m D"
      using reads_truncatedD [OF R Cons.prems(1,3,4), of u] by metis
    with 2 Cons.prems(3) show ?thesis
      by (intro exI [of _ "if rd_eof ?r then rd_cache ?r else k"])
        (auto simp: pushLoop.simps [of h out d] rd_seek_mark Cons.prems(4) intro: map_le_trans)
  qed
qed

section \<open>A feed\<close>

definition events_of :: "raw_log \<Rightarrow> byte list \<Rightarrow> canonical_event list" where
  "events_of L P = (let n = length (enc_header (fst L)) in
     if length P < n then [] else log_val L (whole (drop n P) (snd L)))"

definition pending :: "raw_log \<Rightarrow> byte list \<Rightarrow> byte list" where
  "pending L P = (let n = length (enc_header (fst L)) in
     if length P < n then P else unread (drop n P) (snd L))"

definition fed :: "raw_log \<Rightarrow> byte list \<Rightarrow> stream_decoder \<Rightarrow> bool" where
  "fed L P d \<longleftrightarrow> rd_ok (sd_reader d) \<and> rd_pos (sd_reader d) = sd_consumed d \<and>
     rd_rest (sd_reader d) = pending L P \<and> rd_cache (sd_reader d) \<subseteq>\<^sub>m dictionary L \<and>
     sd_consumed d = int (length P) - int (length (pending L P)) \<and>
     (if length P < length (enc_header (fst L)) then sd_header d = None \<and> sd_userSeq d = 0
      else (let ws = whole (drop (length (enc_header (fst L))) P) (snd L) in
        sd_header d = Some (header_val (fst L)) \<and> sd_userSeq d = seq_after 0 ws \<and>
        records_after ws Map.empty \<subseteq>\<^sub>m rd_cache (sd_reader d)))"

lemma fed_new: "fed L [] new_decoder"
  by (auto simp: fed_def new_decoder_def rd_pos_def pending_def enc_header_def)

lemma pending_length:
  assumes "P @ s = enc_log L"
  shows "length (pending L P) \<le> length P"
    and "length (enc_header (fst L)) \<le> length P \<Longrightarrow> length P - length (pending L P) =
      length (enc_header (fst L)) + length (enc_records (whole (drop (length (enc_header (fst L))) P) (snd L)))"
proof -
  let ?n = "length (enc_header (fst L))"
  have "length (drop ?n P) = length (enc_records (whole (drop ?n P) (snd L))) + length (unread (drop ?n P) (snd L))"
    if "?n \<le> length P"
  proof -
    from assms have "P @ s = enc_header (fst L) @ enc_records (snd L)" by (simp add: enc_log_def)
    then have "drop ?n P @ s = enc_records (snd L)"
      by (cases rule: prefix_cases) (use that in auto)
    from whole_unread [OF this] show ?thesis by (metis length_append)
  qed
  then show "length (pending L P) \<le> length P"
    and "?n \<le> length P \<Longrightarrow> length P - length (pending L P) =
      ?n + length (enc_records (whole (drop ?n P) (snd L)))"
    by (auto simp: pending_def Let_def)
qed


lemma moved_over:
  assumes "rd_ok r" and "rd_rest r = bs @ u"
  shows "rd_ok (moved r (length bs) k)" and "rd_rest (moved r (length bs) k) = u"
  using assms by (simp_all add: rd_ok_moved rd_rest_moved)

lemma fed_push:
  assumes ok: "log_ok L" and P: "(P @ c) @ s = enc_log L" and d: "fed L P d"
  shows "\<exists>evs d'. push c d = Some (Inr evs, d') \<and> fed L (P @ c) d' \<and>
    events_of L (P @ c) = events_of L P @ evs \<and> rd_buf (sd_reader d') = pending L P @ c"
proof -
  let ?H = "enc_header (fst L)" and ?h = "header_val (fst L)" and ?D = "dictionary L"
  let ?n = "length ?H"
  define r where "r = rd_append c (sd_consumed d) (sd_reader d)"
  have push_eq: "push c d = (case sd_header d of Some h \<Rightarrow> pushLoop h [] (d\<lparr>sd_reader := r\<rparr>)
      | None \<Rightarrow> (case readRunHeader r of
          (Inl e, r') \<Rightarrow> if is_truncated e then Some (Inr [], d\<lparr>sd_reader := rd_seek (rd_pos r) r'\<rparr>)
            else Some (Inl e, d\<lparr>sd_reader := r'\<rparr>)
        | (Inr h, r') \<Rightarrow> pushLoop h [metaOf h]
            (d\<lparr>sd_reader := r', sd_header := Some h, sd_consumed := rd_pos r'\<rparr>)))"
    by (simp only: push_def r_def Let_def)
  have rs: "records_ok ?D Map.empty (length (rh_scenarios ?h)) (snd L)"
    using ok by (simp add: log_ok_def)
  have r0: "r = \<lparr>rd_buf = pending L P @ c, rd_at = 0, rd_base = sd_consumed d,
      rd_cache = rd_cache (sd_reader d)\<rparr>"
    using d rd_append_at_mark [of "sd_reader d" c] by (simp add: fed_def r_def)
  have buf: "rd_buf r = pending L P @ c" by (simp add: r0)
  have cache: "rd_cache r = rd_cache (sd_reader d)" by (simp add: r0)
  have r0': "rd_ok r" "rd_rest r = pending L P @ c" "rd_cache r \<subseteq>\<^sub>m ?D" "rd_pos r = sd_consumed d"
    unfolding r0 using d by (simp_all add: rd_ok_def rd_rest_def rd_pos_def fed_def)
  show ?thesis
  proof (cases "length P < ?n")
    case True
    then have st: "sd_header d = None" "sd_userSeq d = 0" "sd_consumed d = 0" "pending L P = P"
      using d by (auto simp: fed_def pending_def)
    have H: "reads ?D Map.empty readRunHeader ?H ?h Map.empty"
      using ok by (intro reads_header) (simp add: log_ok_def)
    from P have "(P @ c) @ s = ?H @ enc_records (snd L)" by (simp add: enc_log_def)
    then show ?thesis
    proof (cases rule: prefix_cases)
      case 1
      have split: "rd_rest r = ?H @ drop ?n (P @ c)"
        using r0'(2) st(4) 1(2) by simp
      obtain k where k: "readRunHeader r = (Inr ?h, moved r ?n k)" "k \<subseteq>\<^sub>m ?D"
        using readsD [OF H r0'(1) map_le_empty r0'(3) split] by metis
      let ?d = "d\<lparr>sd_reader := moved r ?n k, sd_header := Some ?h, sd_consumed := rd_pos (moved r ?n k)\<rparr>"
      have ok': "rd_ok (moved r ?n k)"
        by (intro rd_ok_moved r0') (use split in simp)
      have rest: "rd_rest (moved r ?n k) = drop ?n (P @ c)"
        using split by (simp add: rd_rest_moved r0')
      obtain k' where k': "pushLoop ?h [metaOf ?h] ?d =
          (let ws = whole (rd_rest (sd_reader ?d)) (snd L); n = length (enc_records ws) in
           Some (Inr ([metaOf ?h] @ records_val ?D ?h (sd_userSeq ?d) ws),
             ?d\<lparr>sd_reader := moved (sd_reader ?d) n k', sd_userSeq := seq_after (sd_userSeq ?d) ws,
               sd_consumed := sd_consumed ?d + int n\<rparr>))"
        "records_after (whole (rd_rest (sd_reader ?d)) (snd L)) Map.empty \<subseteq>\<^sub>m k'" "k' \<subseteq>\<^sub>m ?D"
        using pushLoop_prefix [of ?d s "snd L" Map.empty ?D ?h "[metaOf ?h]"] ok' rest 1(3) k(2) rs
        by auto
      let ?ws = "whole (drop ?n (P @ c)) (snd L)"
      let ?d' = "?d\<lparr>sd_reader := moved (moved r ?n k) (length (enc_records ?ws)) k',
          sd_userSeq := seq_after 0 ?ws, sd_consumed := rd_pos (moved r ?n k) + int (length (enc_records ?ws))\<rparr>"
      have push: "push c d = Some (Inr (metaOf ?h # records_val ?D ?h 0 ?ws), ?d')"
        using k' rest st by (simp add: push_eq Let_def k(1) del: drop_append)
      have whole: "drop ?n (P @ c) = enc_records ?ws @ unread (drop ?n (P @ c)) (snd L)"
        by (rule whole_unread [OF 1(3)])
      have pend: "pending L (P @ c) = unread (drop ?n (P @ c)) (snd L)"
        using 1(1) by (simp add: pending_def Let_def)
      have len: "length (P @ c) = ?n + length (enc_records ?ws) + length (pending L (P @ c))"
        using arg_cong [OF whole, of length] 1(1) pend by simp
      have over: "rd_ok (sd_reader ?d')" "rd_rest (sd_reader ?d') = pending L (P @ c)"
        using moved_over [OF ok' trans [OF rest whole], of k'] unfolding pend
        by (simp_all del: moved_simps drop_append)
      have "fed L (P @ c) ?d'"
        unfolding fed_def
      proof (intro conjI)
        show "sd_consumed ?d' = int (length (P @ c)) - int (length (pending L (P @ c)))"
          using len r0' st(3) by simp
      qed (use over k' rest 1(1) r0' in \<open>simp_all add: Let_def\<close>)
      moreover have "events_of L (P @ c) = events_of L P @ metaOf ?h # records_val ?D ?h 0 ?ws"
        using True 1(1) by (simp add: events_of_def Let_def log_val_def)
      ultimately show ?thesis using push st by (auto simp: buf)
    next
      case (2 u)
      obtain x y z i k where k: "readRunHeader r = (Inl (Truncated x y z), r\<lparr>rd_at := i, rd_cache := k\<rparr>)"
        "rd_cache r \<subseteq>\<^sub>m k" "k \<subseteq>\<^sub>m ?D"
        using reads_truncatedD [OF H r0'(1) map_le_empty r0'(3), of u] 2 r0'(2) st(4) by metis
      then have "push c d = Some (Inr [], d\<lparr>sd_reader := moved r 0 k\<rparr>)"
        using st rd_seek_mark [where r = r and i = i and k = k] by (simp add: push_eq Let_def del: drop_append)
      moreover have "fed L (P @ c) (d\<lparr>sd_reader := moved r 0 k\<rparr>)"
        using 2 r0' st k by (simp add: fed_def rd_ok_moved rd_rest_moved pending_def)
      ultimately show ?thesis
        using True 2(1) st by (auto simp: buf events_of_def)
    qed
  next
    case False
    let ?q = "drop ?n P" and ?ws = "whole (drop ?n P) (snd L)"
    let ?rs' = "drop (length ?ws) (snd L)"
    have st: "sd_header d = Some ?h" "sd_userSeq d = seq_after 0 ?ws" "pending L P = unread ?q (snd L)"
      "records_after ?ws Map.empty \<subseteq>\<^sub>m rd_cache (sd_reader d)"
      using d False by (simp_all add: fed_def pending_def Let_def)
    have split: "snd L = ?ws @ ?rs'" by (rule whole_split)
    from P have "P @ (c @ s) = ?H @ enc_records (snd L)" by (simp add: enc_log_def)
    then have q: "?q @ (c @ s) = enc_records (snd L)"
      by (cases rule: prefix_cases) (use False in auto)
    then have "(enc_records ?ws @ unread ?q (snd L)) @ c @ s = enc_records (?ws @ ?rs')"
      using whole_unread [OF q] split by metis
    then have rest: "rd_rest r @ s = enc_records ?rs'" using r0'(2) st(3) by simp
    have rs': "records_ok ?D (records_after ?ws Map.empty) (length (rh_scenarios ?h)) ?rs'"
      using rs split by (metis records_ok_append)
    let ?d = "d\<lparr>sd_reader := r\<rparr>"
    let ?vs = "whole (unread ?q (snd L) @ c) ?rs'"
    obtain k where k: "pushLoop ?h [] ?d =
        (let ws = whole (rd_rest (sd_reader ?d)) ?rs'; n = length (enc_records ws) in
         Some (Inr ([] @ records_val ?D ?h (sd_userSeq ?d) ws),
           ?d\<lparr>sd_reader := moved (sd_reader ?d) n k, sd_userSeq := seq_after (sd_userSeq ?d) ws,
             sd_consumed := sd_consumed ?d + int n\<rparr>))"
      "records_after (whole (rd_rest (sd_reader ?d)) ?rs') (records_after ?ws Map.empty) \<subseteq>\<^sub>m k" "k \<subseteq>\<^sub>m ?D"
      using pushLoop_prefix [of ?d s ?rs' "records_after ?ws Map.empty" ?D ?h "[]"] r0' rest rs' st(4)
      by (auto simp: cache)
    let ?d' = "?d\<lparr>sd_reader := moved r (length (enc_records ?vs)) k,
        sd_userSeq := seq_after (sd_userSeq d) ?vs, sd_consumed := sd_consumed d + int (length (enc_records ?vs))\<rparr>"
    have push: "push c d = Some (Inr (records_val ?D ?h (seq_after 0 ?ws) ?vs), ?d')"
      using k st r0' by (simp add: push_eq Let_def del: drop_append)
    have vs: "unread ?q (snd L) @ c = enc_records ?vs @ unread (unread ?q (snd L) @ c) ?rs'"
      by (rule whole_unread) (use rest r0'(2) st(3) in simp)
    have W: "whole (drop ?n (P @ c)) (snd L) = ?ws @ ?vs"
      "unread (drop ?n (P @ c)) (snd L) = unread (unread ?q (snd L) @ c) ?rs'"
      using False whole_append [of ?q c "snd L"] by simp_all
    have "fed L (P @ c) ?d'"
      unfolding fed_def
    proof (intro conjI)
      have pend: "pending L (P @ c) = unread (unread ?q (snd L) @ c) ?rs'"
        using False W(2) by (simp add: pending_def Let_def)
      have "rd_rest r = enc_records ?vs @ unread (unread ?q (snd L) @ c) ?rs'"
        using r0'(2) st(3) vs by simp
      then show "rd_ok (sd_reader ?d')" "rd_rest (sd_reader ?d') = pending L (P @ c)"
        unfolding pend by (simp_all add: moved_over [OF r0'(1)])
      show "sd_consumed ?d' = int (length (P @ c)) - int (length (pending L (P @ c)))"
      proof -
        have "length (unread ?q (snd L)) + length c =
            length (enc_records ?vs) + length (pending L (P @ c))"
          using arg_cong [OF vs, of length] False W by (simp add: pending_def Let_def)
        then show ?thesis using d st(3) by (simp add: fed_def)
      qed
    qed (use k W False r0' st in \<open>simp_all add: Let_def seq_after_append\<close>)
    moreover have "events_of L (P @ c) = events_of L P @ records_val ?D ?h (seq_after 0 ?ws) ?vs"
      using False W by (simp add: events_of_def Let_def log_val_def records_val_append)
    ultimately show ?thesis using push st by (auto simp: buf)
  qed
qed

section \<open>Properties\<close>

lemma fed_pushAll:
  assumes "log_ok L" and "(P @ concat cs) @ s = enc_log L" and "fed L P d"
  shows "\<exists>evs d'. pushAll cs d = Some (Inr evs, d') \<and> fed L (P @ concat cs) d' \<and>
    events_of L (P @ concat cs) = events_of L P @ evs"
  using assms(2,3)
proof (induction cs arbitrary: P d)
  case (Cons c cs)
  obtain evs d' where d': "push c d = Some (Inr evs, d')" "fed L (P @ c) d'"
    "events_of L (P @ c) = events_of L P @ evs"
    using fed_push [of L P c "concat cs @ s" d] assms(1) Cons.prems by auto
  with Cons.IH [of "P @ c" d'] Cons.prems(1) show ?case by auto
qed simp

lemma parse_prefix:
  assumes ok: "log_ok L" and P: "P @ s = enc_log L" and n: "length (enc_header (fst L)) \<le> length P"
  shows "\<exists>err. parseSimulationLog P = Some (events_of L P, err) \<and> (err = None \<longleftrightarrow> pending L P = [])"
proof -
  let ?D = "dictionary L" and ?h = "header_val (fst L)" and ?bs = "enc_header (fst L)"
  have H: "reads ?D Map.empty readRunHeader ?bs ?h Map.empty"
    using ok by (intro reads_header) (simp add: log_ok_def)
  from P have "P @ s = ?bs @ enc_records (snd L)" by (simp add: enc_log_def)
  then have split: "P = ?bs @ drop (length ?bs) P" "drop (length ?bs) P @ s = enc_records (snd L)"
    by (cases rule: prefix_cases; use n in auto)+
  obtain k where k: "readRunHeader (new_reader P) = (Inr ?h, moved (new_reader P) (length ?bs) k)"
    "k \<subseteq>\<^sub>m ?D"
    using readsD [OF H, of "new_reader P" "drop (length ?bs) P"] split(1) by auto
  let ?r = "moved (new_reader P) (length ?bs) k"
  have rest: "rd_rest ?r = drop (length ?bs) P" and okr: "rd_ok ?r"
    using n by (simp_all add: rd_rest_moved rd_ok_moved)
  have "\<exists>err. parseRecords ?h (rh_runStartEpochMs ?h) 0 ?r =
      Some (records_val ?D ?h 0 (whole (rd_rest ?r) (snd L)), err) \<and>
      (err = None \<longleftrightarrow> unread (rd_rest ?r) (snd L) = []) \<and> (\<forall>e. err = Some e \<longrightarrow> is_truncated e)"
    using ok k rest okr split(2)
    by (intro parseRecords_prefix [where c = Map.empty and s = s]) (simp_all add: log_ok_def)
  then show ?thesis
    using n by (auto simp: parseSimulationLog_def k(1) rest log_val_def events_of_def pending_def Let_def)
qed

lemma whole_log: "events_of L (enc_log L) = log_val L (snd L)" "pending L (enc_log L) = []"
  by (simp_all add: events_of_def pending_def enc_log_def whole_all Let_def)

lemma whole_enc: "whole (enc_records ws) (ws @ zs) = ws" "unread (enc_records ws) (ws @ zs) = []"
  by (induction ws) (cases zs, simp_all)+

definition whole_cut :: "raw_log \<Rightarrow> byte list \<Rightarrow> byte list" where
  "whole_cut L P = take (length P - length (pending L P)) P"

lemma whole_cut_enc:
  assumes "P @ s = enc_log L" and "length (enc_header (fst L)) \<le> length P"
  shows "whole_cut L P = enc_header (fst L) @ enc_records (whole (drop (length (enc_header (fst L))) P) (snd L))"
proof -
  let ?n = "length (enc_header (fst L))"
  from assms(1) have "P @ s = enc_header (fst L) @ enc_records (snd L)" by (simp add: enc_log_def)
  then have split: "P = enc_header (fst L) @ drop ?n P" "drop ?n P @ s = enc_records (snd L)"
    by (cases rule: prefix_cases; use assms(2) in auto)+
  from whole_unread [OF split(2)] have
    P: "P = (enc_header (fst L) @ enc_records (whole (drop ?n P) (snd L))) @ unread (drop ?n P) (snd L)"
    using split(1) by simp
  have len: "length P - length (pending L P) = ?n + length (enc_records (whole (drop ?n P) (snd L)))"
    using pending_length(2) [OF assms] .
  show ?thesis
    unfolding whole_cut_def len by (metis P append_eq_conv_conj length_append)
qed

lemma whole_cut_whole:
  assumes "P @ s = enc_log L" and "length (enc_header (fst L)) \<le> length P"
  shows "\<exists>s'. whole_cut L P @ s' = enc_log L" and "pending L (whole_cut L P) = []"
    and "events_of L (whole_cut L P) = events_of L P"
proof -
  let ?n = "length (enc_header (fst L))" and ?ws = "whole (drop (length (enc_header (fst L))) P) (snd L)"
  have "snd L = ?ws @ drop (length ?ws) (snd L)" by (rule whole_split)
  then have w: "whole (enc_records ?ws) (snd L) = ?ws" "unread (enc_records ?ws) (snd L) = []"
    using whole_enc [of ?ws "drop (length ?ws) (snd L)"] by metis+
  show "pending L (whole_cut L P) = []" "events_of L (whole_cut L P) = events_of L P"
    using assms(2) w by (simp_all add: whole_cut_enc [OF assms] pending_def events_of_def Let_def)
  show "\<exists>s'. whole_cut L P @ s' = enc_log L"
    unfolding whole_cut_def assms(1) [symmetric] by (metis append.assoc append_take_drop_id)
qed

lemma js_subarray_0: "0 \<le> stop \<Longrightarrow> js_subarray buf 0 stop = take (nat stop) buf"
  by (auto simp: js_subarray_def adjust_offset_def Let_def min_def)

lemma truncate_cuts:
  assumes "log_ok L" and "P @ s = enc_log L"
  shows "truncateToWholeRecords P = Some (Inr (whole_cut L P))"
proof -
  obtain evs d where d: "push P new_decoder = Some (Inr evs, d)" "fed L P d"
    using fed_push [of L "[]" P s new_decoder] assms fed_new [of L] by auto
  have "sd_consumed d = int (length P - length (pending L P))"
    using d(2) pending_length(1) [OF assms(2)] by (simp add: fed_def)
  then show ?thesis
    by (simp add: truncateToWholeRecords_def d(1) Let_def whole_cut_def js_subarray_0)
qed

lemma unread_bound:
  "q @ s = enc_records rs \<Longrightarrow> unread q rs = [] \<or> (\<exists>R\<in>set rs. length (unread q rs) < length (enc_record R))"
proof (induction rs arbitrary: q)
  case (Cons R rs)
  then have "q @ s = enc_record R @ enc_records rs" by simp
  then show ?case
    by (cases rule: prefix_cases) (use Cons.IH [of "drop (length (enc_record R)) q"] in auto)
qed simp

lemma pending_bound:
  assumes "P @ s = enc_log L" and "length (enc_header (fst L)) \<le> m"
    and "list_all (\<lambda>R. length (enc_record R) \<le> m) (snd L)"
  shows "length (pending L P) \<le> m"
proof (cases "length P < length (enc_header (fst L))")
  case False
  from assms(1) have "P @ s = enc_header (fst L) @ enc_records (snd L)" by (simp add: enc_log_def)
  then have "drop (length (enc_header (fst L))) P @ s = enc_records (snd L)"
    by (cases rule: prefix_cases) (use False in auto)
  from unread_bound [OF this] False assms(3) show ?thesis
    by (auto simp: pending_def Let_def list_all_iff)
qed (use assms(2) in \<open>simp add: pending_def\<close>)

lemma pushAll_Cons_Inr:
  "pushAll (a # cs) d = Some (Inr evs, d') \<longleftrightarrow> (\<exists>x e y. push a d = Some (Inr x, e) \<and>
     pushAll cs e = Some (Inr y, d') \<and> evs = x @ y)"
  by (cases "push a d") (auto simp: Option.bind_eq_Some_conv split: sum.split_asm, metis sum.exhaust)

lemma pushAll_snoc:
  "pushAll cs d = Some (Inr evs, d') \<Longrightarrow> push c d' = Some (Inr evs', d'') \<Longrightarrow>
   pushAll (cs @ [c]) d = Some (Inr (evs @ evs'), d'')"
proof (induction cs arbitrary: d evs)
  case (Cons a cs)
  then show ?case by (fastforce simp: pushAll_Cons_Inr simp del: pushAll.simps(2))
qed simp

end
