(* ===== verification/LiveChunks.thy ===== *)
theory LiveChunks
  imports JsDecimal LogDecode
begin

text \<open>
  The chunk objects of a live run (\<open>packages/storage/src/live-chunks.ts\<close>) over the object store
  (\<open>packages/storage/src/blobs.ts\<close>).

  \<^item> The store is a service: its operations are the fields of a record the definitions take as an
    argument, and \<open>store_laws\<close> states what S3 documents of them (a read sees the last write, a
    listing comes in pages that together name every key once).
  \<^item> \<open>chunkKey\<close> and \<open>offsetOf\<close> are inverse, and the padded keys sort by code unit exactly as their
    offsets sort as numbers.
  \<^item> \<open>concatenateChecked\<close> takes each object through a function of its own, so that every \<open>get\<close> of
    the fan-out may see the store at another moment.
\<close>

section \<open>The object store\<close>

record list_page =
  lp_Contents :: "jstr list"
  lp_IsTruncated :: bool
  lp_NextContinuationToken :: "jstr option"

record 'o object_store =
  s3_get :: "'o \<Rightarrow> jstr \<Rightarrow> byte list option"
  s3_head :: "'o \<Rightarrow> jstr \<Rightarrow> bool"
  s3_put :: "'o \<Rightarrow> jstr \<Rightarrow> byte list \<Rightarrow> 'o"
  s3_delete :: "'o \<Rightarrow> jstr \<Rightarrow> 'o"
  s3_list :: "'o \<Rightarrow> jstr \<Rightarrow> jstr option \<Rightarrow> list_page"

definition js_starts_with :: "jstr \<Rightarrow> jstr \<Rightarrow> bool" where
  "js_starts_with s p = (take (length p) s = p)"

text \<open>The pages that follow a continuation token, down to the one that is not truncated.\<close>

inductive serves :: "'o object_store \<Rightarrow> 'o \<Rightarrow> jstr \<Rightarrow> jstr option \<Rightarrow> jstr list \<Rightarrow> bool"
  for b :: "'o object_store" and o' :: 'o and p :: jstr where
  last_page: "s3_list b o' p tok = \<lparr>lp_Contents = ks, lp_IsTruncated = False, lp_NextContinuationToken = next_tok\<rparr> \<Longrightarrow>
    serves b o' p tok ks"
| more_pages: "s3_list b o' p tok = \<lparr>lp_Contents = ks, lp_IsTruncated = True, lp_NextContinuationToken = Some t\<rparr> \<Longrightarrow>
    t \<noteq> [] \<Longrightarrow> serves b o' p (Some t) ks' \<Longrightarrow> serves b o' p tok (ks @ ks')"

definition store_laws :: "'o object_store \<Rightarrow> bool" where
  "store_laws b \<longleftrightarrow>
     (\<forall>o' k v k'. s3_get b (s3_put b o' k v) k' = (if k' = k then Some v else s3_get b o' k')) \<and>
     (\<forall>o' k k'. s3_get b (s3_delete b o' k) k' = (if k' = k then None else s3_get b o' k')) \<and>
     (\<forall>o' k. s3_head b o' k = (s3_get b o' k \<noteq> None)) \<and>
     (\<forall>o' p. \<exists>ks. serves b o' p None ks \<and> distinct ks \<and>
        set ks = {k. k \<noteq> [] \<and> s3_get b o' k \<noteq> None \<and> js_starts_with k p})"

text \<open>
  \<open>BlobStore.list\<close>: page after page until \<open>IsTruncated\<close> is false. An empty token is falsy, and so
  is an absent one.
\<close>

partial_function (option) blob_list_from :: "'o object_store \<Rightarrow> 'o \<Rightarrow> jstr \<Rightarrow> jstr list \<Rightarrow> jstr option \<Rightarrow> jstr list option" where
  "blob_list_from b o' p keys tok =
     (let res = s3_list b o' p tok;
          keys' = keys @ filter (\<lambda>k. k \<noteq> []) (lp_Contents res);
          tok' = (if lp_IsTruncated res then lp_NextContinuationToken res else None)
      in case tok' of None \<Rightarrow> Some keys' | Some t \<Rightarrow> if t = [] then Some keys' else blob_list_from b o' p keys' (Some t))"

declare blob_list_from.simps [code]

definition blob_list :: "'o object_store \<Rightarrow> 'o \<Rightarrow> jstr \<Rightarrow> jstr list option" where
  "blob_list b o' p = blob_list_from b o' p [] None"

lemma blob_list_from_serves:
  "serves b o' p tok ks \<Longrightarrow> blob_list_from b o' p keys tok = Some (keys @ filter (\<lambda>k. k \<noteq> []) ks)"
proof (induction arbitrary: keys rule: serves.induct)
  case (last_page tok ks nt)
  then show ?case by (subst blob_list_from.simps) (simp add: Let_def)
next
  case (more_pages tok ks t ks')
  then show ?case by (subst blob_list_from.simps) (simp add: Let_def)
qed

lemma store_laws_list:
  "store_laws b \<Longrightarrow> \<exists>ks. serves b o' p None ks \<and> distinct ks \<and> set ks = {k. k \<noteq> [] \<and> s3_get b o' k \<noteq> None \<and> js_starts_with k p}"
  by (simp only: store_laws_def)

lemma blob_list_complete:
  assumes "store_laws b" and p: "p \<noteq> []"
  shows "\<exists>ks. blob_list b o' p = Some ks \<and> distinct ks \<and> set ks = {k. s3_get b o' k \<noteq> None \<and> js_starts_with k p}"
proof -
  obtain ks where ks: "serves b o' p None ks" "distinct ks" "set ks = {k. k \<noteq> [] \<and> s3_get b o' k \<noteq> None \<and> js_starts_with k p}"
    using store_laws_list [OF assms(1)] by metis
  have "filter (\<lambda>k. k \<noteq> []) ks = ks" using ks(3) by (auto simp: filter_id_conv)
  moreover have "\<not> js_starts_with [] p" using p by (simp add: js_starts_with_def)
  then have "set ks = {k. s3_get b o' k \<noteq> None \<and> js_starts_with k p}" using ks(3) by auto
  ultimately show ?thesis using blob_list_from_serves [OF ks(1), of "[]"] ks(2) by (auto simp: blob_list_def)
qed

section \<open>Keys\<close>

definition chunkPrefix :: "jstr \<Rightarrow> jstr" where
  "chunkPrefix runId = js ''live/'' @ runId @ js ''/''"

lemma chunkPrefix_nonempty [simp]: "chunkPrefix runId \<noteq> []"
  by (simp add: chunkPrefix_def)

definition padStart :: "nat \<Rightarrow> 16 word \<Rightarrow> jstr \<Rightarrow> jstr" where
  "padStart n c s = replicate (n - length s) c @ s"

definition chunkKey :: "jstr \<Rightarrow> nat \<Rightarrow> jstr" where
  "chunkKey runId off = chunkPrefix runId @ padStart 16 0x30 (js_int (int off)) @ js ''.bin''"

text \<open>
  \<open>key.slice(key.lastIndexOf('/') + 1).replace(/\.bin$/, '')\<close>, and \<open>Number\<close> of it: the empty string
  is 0 and a string of digits its value as a double. Of any other string the answer stands as
  \<open>None\<close>, which no comparison accepts; \<open>chunkKey\<close> writes none.
\<close>

definition base_name :: "jstr \<Rightarrow> jstr" where
  "base_name key = (let b = rev (takeWhile (\<lambda>c. c \<noteq> slash) (rev key)) in
     if js_ends_with b (js ''.bin'') then take (length b - 4) b else b)"

definition offsetOf :: "jstr \<Rightarrow> nat option" where
  "offsetOf key = (let b = base_name key in
     if list_all is_digit b then Some (nat \<lfloor>rnd (of_int (digits_value b 0))\<rfloor>) else None)"

text \<open>Offsets below \<open>2 ^ 53\<close> are exact doubles of at most 16 digits.\<close>

definition padded :: "nat \<Rightarrow> jstr" where
  "padded n = padStart 16 0x30 (js_int (int n))"

lemma padded_digits:
  assumes "n < 2 ^ 53"
  shows "length (padded n) = 16 \<and> list_all is_digit (padded n) \<and> digits_value (padded n) 0 = int n"
proof -
  have s: "js_int (int n) = digs (int n)" using assms by (intro js_int_digs) simp_all
  have d: "list_all is_digit (digs (int n))" "digits_value (digs (int n)) 0 = int n"
    using digits_value_digs [of "int n"] by simp_all
  have "length (digs (int n)) \<le> 16"
  proof (cases "n = 0")
    case True
    then show ?thesis by (simp add: digs_small)
  next
    case False
    then have le: "10 ^ (length (digs (int n)) - 1) \<le> int n" using digs_length [of "int n"] by simp
    show ?thesis
    proof (rule ccontr)
      assume "\<not> length (digs (int n)) \<le> 16"
      then have "(10 :: int) ^ 16 \<le> 10 ^ (length (digs (int n)) - 1)" by (intro power_increasing) auto
      then have "(10 :: int) ^ 16 \<le> int n" using le by (rule order_trans)
      then show False using assms by simp
    qed
  qed
  moreover have "digits_value (replicate k 0x30 @ xs) 0 = digits_value xs 0" for k xs
    by (induction k) simp_all
  moreover have "list_all is_digit (replicate k 0x30)" for k by (induction k) (simp_all add: is_digit_def)
  ultimately show ?thesis using d by (simp add: padded_def padStart_def s)
qed

lemma chunkKey_padded: "chunkKey runId n = chunkPrefix runId @ padded n @ js ''.bin''"
  by (simp add: chunkKey_def padded_def)

lemma digit_not_slash: "is_digit c \<Longrightarrow> c \<noteq> slash"
  by (auto simp: is_digit_def)

lemma base_name_chunkKey:
  assumes "n < 2 ^ 53"
  shows "base_name (chunkKey runId n) = padded n"
proof -
  let ?t = "padded n @ js ''.bin''"
  have "\<forall>c \<in> set (padded n). c \<noteq> slash"
    using padded_digits [OF assms] by (auto simp: list_all_iff dest: digit_not_slash)
  moreover have "\<forall>c \<in> set (js ''.bin''). c \<noteq> slash" by simp
  ultimately have "\<forall>c \<in> set ?t. c \<noteq> slash" unfolding set_append ball_Un by (rule conjI)
  then have "takeWhile (\<lambda>c. c \<noteq> slash) (rev ?t @ rev (chunkPrefix runId)) =
      rev ?t @ takeWhile (\<lambda>c. c \<noteq> slash) (rev (chunkPrefix runId))"
    by (intro takeWhile_append2) (simp only: set_rev not_False_eq_True)
  also have "\<dots> = rev ?t" by (simp add: chunkPrefix_def)
  finally show ?thesis
    by (simp add: base_name_def chunkKey_padded Let_def js_ends_with_def del: rev_append flip: rev_append)
qed

lemma offsetOf_chunkKey:
  assumes "n < 2 ^ 53"
  shows "offsetOf (chunkKey runId n) = Some n"
  using padded_digits [OF assms] assms rnd_of_int [of "int n"]
  by (simp add: offsetOf_def base_name_chunkKey [OF assms] del: of_int_of_nat_eq)

text \<open>Digit strings of one length compare by code unit as the numbers they spell.\<close>

lemma digits_value_shift: "digits_value xs a = a * 10 ^ length xs + digits_value xs 0"
proof (induction xs arbitrary: a)
  case (Cons c cs)
  show ?case using Cons [of "a * 10 + (uint c - 0x30)"] Cons [of "uint c - 0x30"] by (simp add: algebra_simps)
qed simp

lemma digits_value_bound: "list_all is_digit xs \<Longrightarrow> 0 \<le> digits_value xs 0 \<and> digits_value xs 0 < 10 ^ length xs"
proof (induction xs)
  case (Cons c cs)
  have u: "0 \<le> uint c - 0x30" "uint c - 0x30 \<le> 9"
    using Cons.prems by (simp_all add: is_digit_def word_le_def)
  have v: "digits_value (c # cs) 0 = (uint c - 0x30) * 10 ^ length cs + digits_value cs 0"
    by (simp add: digits_value_shift [of cs "uint c - 0x30"])
  have hi: "(uint c - 0x30) * 10 ^ length cs \<le> 9 * 10 ^ length cs" using u(2) by (intro mult_right_mono) simp_all
  have lo: "0 \<le> (uint c - 0x30) * (10 :: int) ^ length cs" using u(1) by (intro mult_nonneg_nonneg) simp_all
  have cs: "0 \<le> digits_value cs 0" "digits_value cs 0 < 10 ^ length cs" using Cons by simp_all
  have "(10 :: int) ^ length (c # cs) = 10 * 10 ^ length cs" by simp
  then show ?case unfolding v using hi lo cs by linarith
qed simp

lemma digits_less:
  "length xs = length ys \<Longrightarrow> list_all is_digit xs \<Longrightarrow> list_all is_digit ys \<Longrightarrow>
     digits_value xs 0 < digits_value ys 0 \<Longrightarrow> xs < ys"
proof (induction xs ys rule: list_induct2)
  case (Cons x xs y ys)
  have e: "digits_value (x # xs) 0 = (uint x - 0x30) * 10 ^ length xs + digits_value xs 0"
    "digits_value (y # ys) 0 = (uint y - 0x30) * 10 ^ length xs + digits_value ys 0"
    using digits_value_shift [of xs "uint x - 0x30"] digits_value_shift [of ys "uint y - 0x30"] Cons.hyps by simp_all
  have b: "0 \<le> digits_value xs 0" "digits_value ys 0 < 10 ^ length xs"
    using digits_value_bound [of xs] digits_value_bound [of ys] Cons by simp_all
  show ?case
  proof (cases "uint x < uint y")
    case True
    then show ?thesis by (simp add: word_less_def)
  next
    case False
    have "uint x = uint y"
    proof (rule ccontr)
      assume "uint x \<noteq> uint y"
      then have "uint y - 0x30 + 1 \<le> uint x - 0x30" using False by simp
      then have "(uint y - 0x30 + 1) * 10 ^ length xs \<le> (uint x - 0x30) * 10 ^ length xs" by (intro mult_right_mono) simp_all
      then have "digits_value (y # ys) 0 < digits_value (x # xs) 0" using e b by (simp add: algebra_simps)
      then show False using Cons.prems by simp
    qed
    then have "x = y" by (rule unsigned_word_eqI)
    then show ?thesis using Cons e by simp
  qed
qed simp

lemma chunkKey_less:
  assumes "m < n" and "n < 2 ^ 53"
  shows "chunkKey runId m < chunkKey runId n"
proof -
  have m: "m < 2 ^ 53" using assms by simp
  have "padded m < padded n"
    using padded_digits [OF m] padded_digits [OF assms(2)] assms(1) by (intro digits_less) simp_all
  moreover have "length (padded m) = length (padded n)" using padded_digits [OF m] padded_digits [OF assms(2)] by simp
  moreover have "length xs = length ys \<Longrightarrow> xs < ys \<Longrightarrow> xs @ zs < ys @ zs" for xs ys zs :: jstr
    by (induction xs ys rule: list_induct2) auto
  moreover have "xs < ys \<Longrightarrow> p @ xs < p @ ys" for p xs ys :: jstr by (induction p) auto
  ultimately show ?thesis by (simp add: chunkKey_padded)
qed

section \<open>Reading chunks back\<close>

datatype chunk_error = LiveChunkGapError jstr nat "nat option" | NoSuchKey jstr | StoreDown

fun interior_check :: "jstr \<Rightarrow> nat \<Rightarrow> (jstr \<times> byte list) list \<Rightarrow> chunk_error + unit" where
  "interior_check runId e [] = Inr ()"
| "interior_check runId e ((k, part) # rest) =
     (if offsetOf k \<noteq> Some e then Inl (LiveChunkGapError runId e (offsetOf k))
      else interior_check runId (e + length part) rest)"

definition head_check :: "jstr \<Rightarrow> nat \<Rightarrow> jstr list \<Rightarrow> chunk_error + unit" where
  "head_check runId start keys = (case keys of
     k # ks \<Rightarrow> if offsetOf k \<noteq> Some start then Inl (LiveChunkGapError runId start (offsetOf k)) else Inr ()
   | [] \<Rightarrow> Inr ())"

text \<open>\<open>Promise.all\<close> over the reads: the parts in the order of the keys, or a rejection.\<close>

fun get_all :: "(jstr \<Rightarrow> byte list option) \<Rightarrow> jstr list \<Rightarrow> chunk_error + byte list list" where
  "get_all g [] = Inr []"
| "get_all g (k # ks) = (case g k of None \<Rightarrow> Inl (NoSuchKey k) | Some part \<Rightarrow> map_sum id ((#) part) (get_all g ks))"

definition concatenateChecked :: "jstr \<Rightarrow> jstr list \<Rightarrow> nat \<Rightarrow> (jstr \<Rightarrow> byte list option) \<Rightarrow> chunk_error + byte list" where
  "concatenateChecked runId keys start g = (if keys = [] then Inr [] else
     case head_check runId start keys of Inl e \<Rightarrow> Inl e
     | Inr _ \<Rightarrow> (case get_all g keys of Inl e \<Rightarrow> Inl e
        | Inr parts \<Rightarrow> (case interior_check runId start (zip keys parts) of Inl e \<Rightarrow> Inl e | Inr _ \<Rightarrow> Inr (concat parts))))"

definition listChunkKeys :: "'o object_store \<Rightarrow> 'o \<Rightarrow> jstr \<Rightarrow> jstr list option" where
  "listChunkKeys b o' runId = map_option (js_sort cmp_units) (blob_list b o' (chunkPrefix runId))"

definition assemble :: "'o object_store \<Rightarrow> 'o \<Rightarrow> (jstr \<Rightarrow> byte list option) \<Rightarrow> jstr \<Rightarrow> (chunk_error + byte list) option" where
  "assemble b o' g runId = map_option (\<lambda>keys. concatenateChecked runId keys 0 g) (listChunkKeys b o' runId)"

definition starts_from :: "nat \<Rightarrow> jstr \<Rightarrow> bool" where
  "starts_from off k = (case offsetOf k of None \<Rightarrow> False | Some n \<Rightarrow> off \<le> n)"

definition readFrom :: "'o object_store \<Rightarrow> 'o \<Rightarrow> (jstr \<Rightarrow> byte list option) \<Rightarrow> jstr \<Rightarrow> nat \<Rightarrow> (chunk_error + byte list) option" where
  "readFrom b o' g runId off = map_option (\<lambda>keys. concatenateChecked runId (filter (starts_from off) keys) off g) (listChunkKeys b o' runId)"

definition chunk_put :: "'o object_store \<Rightarrow> 'o \<Rightarrow> jstr \<Rightarrow> nat \<Rightarrow> byte list \<Rightarrow> 'o" where
  "chunk_put b o' runId off bytes = s3_put b o' (chunkKey runId off) bytes"

section \<open>Folding a live run from its chunks\<close>

text \<open>
  \<open>LiveFoldOwner#fold\<close> up to the engine: the frontier moves only once the read has resolved, and the
  decoder's events are handed on in order. A rejected read leaves the state as it was; a decoder
  error is thrown to the caller with the frontier already moved.
\<close>

record fold_source =
  fo_fetched :: nat
  fo_decoder :: stream_decoder
  fo_events :: "canonical_event list"

datatype fold_outcome = Folded fold_source | ReadRejected chunk_error | DecoderThrew decode_error fold_source

definition fold_chunks :: "chunk_error + byte list \<Rightarrow> fold_source \<Rightarrow> fold_outcome option" where
  "fold_chunks res st = (case res of
     Inl e \<Rightarrow> Some (ReadRejected e)
   | Inr bytes \<Rightarrow> if bytes = [] then Some (Folded st)
       else Option.bind (push bytes (fo_decoder st)) (\<lambda>(out, d).
         let st' = st\<lparr>fo_fetched := fo_fetched st + length bytes, fo_decoder := d\<rparr>
         in Some (case out of Inl e \<Rightarrow> DecoderThrew e st' | Inr evs \<Rightarrow> Folded (st'\<lparr>fo_events := fo_events st @ evs\<rparr>))))"

text \<open>The passes of an owner over one run, each reading through its own moments of the store.\<close>

fun fold_passes :: "'o object_store \<Rightarrow> jstr \<Rightarrow> ('o \<times> (jstr \<Rightarrow> byte list option)) list \<Rightarrow> fold_source \<Rightarrow> fold_outcome option" where
  "fold_passes b runId [] st = Some (Folded st)"
| "fold_passes b runId ((o', g) # ps) st = Option.bind (readFrom b o' g runId (fo_fetched st)) (\<lambda>res.
     Option.bind (fold_chunks res st) (\<lambda>out. case out of
       Folded st' \<Rightarrow> fold_passes b runId ps st'
     | ReadRejected e \<Rightarrow> fold_passes b runId ps st
     | DecoderThrew e st' \<Rightarrow> Some out))"

definition fresh_fold :: fold_source where
  "fresh_fold = \<lparr>fo_fetched = 0, fo_decoder = new_decoder, fo_events = []\<rparr>"

section \<open>Chunks of one log\<close>

text \<open>
  The log a run streams, cut at every offset into the piece its sender sends from there: the size may
  differ from offset to offset.
\<close>

definition piece :: "byte list \<Rightarrow> (nat \<Rightarrow> nat) \<Rightarrow> nat \<Rightarrow> byte list" where
  "piece lg sz off = take (sz off) (drop off lg)"

primrec boundary :: "byte list \<Rightarrow> (nat \<Rightarrow> nat) \<Rightarrow> nat \<Rightarrow> nat" where
  "boundary lg sz 0 = 0"
| "boundary lg sz (Suc m) = boundary lg sz m + length (piece lg sz (boundary lg sz m))"

lemma cut_le: "boundary lg sz m \<le> length lg"
proof (induction m)
  case (Suc m)
  then show ?case by (simp add: piece_def)
qed simp

lemma piece_append: "take off lg @ piece lg sz off = take (off + length (piece lg sz off)) lg"
  by (cases "sz off \<le> length lg - off") (simp_all add: piece_def take_add)

lemma concat_pieces: "concat (map (\<lambda>j. piece lg sz (boundary lg sz j)) [0..<m]) = take (boundary lg sz m) lg"
  by (induction m) (simp_all add: piece_append)

text \<open>A store that holds, at the time of each read, the right piece under a chunk key or nothing.\<close>

definition honest_object :: "byte list \<Rightarrow> (nat \<Rightarrow> nat) \<Rightarrow> jstr \<Rightarrow> (jstr \<Rightarrow> byte list option) \<Rightarrow> jstr \<Rightarrow> bool" where
  "honest_object lg sz runId g k \<longleftrightarrow>
     (\<exists>off. k = chunkKey runId off \<and> off < 2 ^ 53 \<and> off \<le> length lg \<and> g k \<in> {None, Some (piece lg sz off)})"

lemma get_all_Inr: "get_all g ks = Inr parts \<Longrightarrow> list_all2 (\<lambda>k part. g k = Some part) ks parts"
proof (induction ks arbitrary: parts)
  case (Cons k ks)
  then show ?case by (cases "get_all g ks") (auto split: option.splits)
qed simp

lemma interior_slice:
  assumes "interior_check runId e (zip ks parts) = Inr ()"
    and "list_all2 (\<lambda>k part. \<exists>off. offsetOf k = Some off \<and> off \<le> length lg \<and> part = piece lg sz off) ks parts"
    and "e \<le> length lg"
  shows "take e lg @ concat parts = take (e + length (concat parts)) lg \<and> e + length (concat parts) \<le> length lg"
  using assms(2,1,3)
proof (induction arbitrary: e rule: list_all2_induct)
  case (Cons k ks part parts)
  then have h: "offsetOf k = Some e" "part = piece lg sz e" "interior_check runId (e + length part) (zip ks parts) = Inr ()"
    by (auto split: if_splits)
  have le: "e + length part \<le> length lg" using Cons.prems(2) by (simp add: h(2) piece_def)
  have "take (e + length part) lg @ concat parts = take (e + length part + length (concat parts)) lg"
    "e + length part + length (concat parts) \<le> length lg" using Cons.IH [OF h(3) le] by simp_all
  moreover have "take e lg @ part = take (e + length part) lg" by (simp add: h(2) piece_append)
  ultimately show ?case by (simp add: add.assoc flip: append_assoc)
qed simp

lemma interior_boundary:
  assumes "interior_check runId (boundary lg sz j) (zip ks parts) = Inr ()"
    and "list_all2 (\<lambda>k part. \<exists>off. offsetOf k = Some off \<and> off \<le> length lg \<and> part = piece lg sz off) ks parts"
  shows "boundary lg sz j + length (concat parts) = boundary lg sz (j + length ks)"
  using assms(2,1)
proof (induction arbitrary: j rule: list_all2_induct)
  case (Cons k ks part parts)
  then have h: "part = piece lg sz (boundary lg sz j)" "interior_check runId (boundary lg sz j + length part) (zip ks parts) = Inr ()"
    by (auto split: if_splits)
  then show ?case using Cons.IH [of "Suc j"] by simp
qed simp

text \<open>Whatever survives in the store, a concatenation is rejected or is the log from the asked offset on.\<close>

lemma concatenate_slice:
  assumes "\<forall>k \<in> set keys. honest_object lg sz runId g k" and "start \<le> length lg"
    and "concatenateChecked runId keys start g = Inr bytes"
  shows "take start lg @ bytes = take (start + length bytes) lg \<and> start + length bytes \<le> length lg \<and>
    (\<forall>j. start = boundary lg sz j \<longrightarrow> (\<exists>i. start + length bytes = boundary lg sz i))"
proof (cases "keys = []")
  case True
  then show ?thesis using assms by (auto simp: concatenateChecked_def)
next
  case False
  then obtain parts where p: "get_all g keys = Inr parts" "interior_check runId start (zip keys parts) = Inr ()" "bytes = concat parts"
    using assms(3) by (auto simp: concatenateChecked_def split: sum.splits)
  have "list_all2 (\<lambda>k part. g k = Some part \<and> honest_object lg sz runId g k) keys parts"
    using get_all_Inr [OF p(1)] assms(1) by (auto simp: list_all2_iff dest: set_zip_leftD)
  then have "list_all2 (\<lambda>k part. \<exists>off. offsetOf k = Some off \<and> off \<le> length lg \<and> part = piece lg sz off) keys parts"
    by (rule list.rel_mono_strong) (auto simp: honest_object_def offsetOf_chunkKey)
  then show ?thesis using interior_slice [OF p(2) _ assms(2)] interior_boundary [of runId lg sz _ keys parts] p(2,3) by blast
qed

lemma readFrom_slice:
  assumes laws: "store_laws b"
    and honest: "\<And>k. s3_get b o' k \<noteq> None \<Longrightarrow> js_starts_with k (chunkPrefix runId) \<Longrightarrow> honest_object lg sz runId g k"
    and off: "off \<le> length lg"
  shows "\<exists>res. readFrom b o' g runId off = Some res \<and>
    (\<forall>bytes. res = Inr bytes \<longrightarrow> take off lg @ bytes = take (off + length bytes) lg \<and> off + length bytes \<le> length lg \<and>
      (\<forall>j. off = boundary lg sz j \<longrightarrow> (\<exists>i. off + length bytes = boundary lg sz i)))"
proof -
  obtain ks where ks: "blob_list b o' (chunkPrefix runId) = Some ks"
    "set ks = {k. s3_get b o' k \<noteq> None \<and> js_starts_with k (chunkPrefix runId)}"
    using blob_list_complete [OF laws chunkPrefix_nonempty, of o' runId] by blast
  define keys where "keys = filter (starts_from off) (js_sort cmp_units ks)"
  have "\<forall>k \<in> set keys. honest_object lg sz runId g k" using ks(2) honest by (simp add: keys_def)
  note slice = concatenate_slice [OF this off]
  have "readFrom b o' g runId off = Some (concatenateChecked runId keys off g)"
    by (simp add: readFrom_def listChunkKeys_def ks(1) keys_def)
  then show ?thesis using slice by blast
qed

lemma fold_chunks_fed:
  assumes L: "log_ok L" and st: "fed L (take (fo_fetched st) (enc_log L)) (fo_decoder st)" "fo_fetched st \<le> length (enc_log L)"
      "fo_events st = events_of L (take (fo_fetched st) (enc_log L))"
    and res: "\<And>bytes. res = Inr bytes \<Longrightarrow> take (fo_fetched st) (enc_log L) @ bytes = take (fo_fetched st + length bytes) (enc_log L) \<and>
        fo_fetched st + length bytes \<le> length (enc_log L)"
  shows "(\<exists>e. fold_chunks res st = Some (ReadRejected e)) \<or>
    (\<exists>st'. fold_chunks res st = Some (Folded st') \<and> fed L (take (fo_fetched st') (enc_log L)) (fo_decoder st') \<and>
      (\<exists>bytes. res = Inr bytes \<and> fo_fetched st' = fo_fetched st + length bytes) \<and> fo_fetched st' \<le> length (enc_log L) \<and>
      fo_events st' = events_of L (take (fo_fetched st') (enc_log L)))"
proof (cases res)
  case (Inl e)
  then show ?thesis by (simp add: fold_chunks_def)
next
  case (Inr bytes)
  show ?thesis
  proof (cases "bytes = []")
    case True
    then show ?thesis using st Inr by (simp add: fold_chunks_def)
  next
    case False
    have r: "take (fo_fetched st) (enc_log L) @ bytes = take (fo_fetched st + length bytes) (enc_log L)"
      "fo_fetched st + length bytes \<le> length (enc_log L)" using res [OF Inr] by simp_all
    have "(take (fo_fetched st) (enc_log L) @ bytes) @ drop (fo_fetched st + length bytes) (enc_log L) = enc_log L"
      unfolding r(1) by (rule append_take_drop_id)
    from fed_push [OF L this st(1)] obtain evs d' where "push bytes (fo_decoder st) = Some (Inr evs, d')"
      "fed L (take (fo_fetched st + length bytes) (enc_log L)) d'"
      "events_of L (take (fo_fetched st + length bytes) (enc_log L)) = fo_events st @ evs" by (auto simp: r(1) st(3))
    then show ?thesis using Inr False r(2) by (simp add: fold_chunks_def)
  qed
qed

lemma fold_passes_fed:
  assumes L: "log_ok L" and laws: "store_laws b"
    and honest: "\<forall>(o', g) \<in> set ps. \<forall>k. s3_get b o' k \<noteq> None \<longrightarrow> js_starts_with k (chunkPrefix runId) \<longrightarrow>
        honest_object (enc_log L) sz runId g k"
    and st: "fed L (take (fo_fetched st) (enc_log L)) (fo_decoder st)" "fo_fetched st \<le> length (enc_log L)"
      "fo_events st = events_of L (take (fo_fetched st) (enc_log L))"
  shows "\<exists>st'. fold_passes b runId ps st = Some (Folded st') \<and> fed L (take (fo_fetched st') (enc_log L)) (fo_decoder st') \<and>
    fo_fetched st' \<le> length (enc_log L) \<and> fo_events st' = events_of L (take (fo_fetched st') (enc_log L)) \<and>
    ((\<exists>j. fo_fetched st = boundary (enc_log L) sz j) \<longrightarrow> (\<exists>j. fo_fetched st' = boundary (enc_log L) sz j))"
  using honest st
proof (induction ps arbitrary: st)
  case Nil
  then show ?case by simp
next
  case (Cons p ps)
  obtain o' g where p: "p = (o', g)" by (cases p)
  have hon: "s3_get b o' k \<noteq> None \<Longrightarrow> js_starts_with k (chunkPrefix runId) \<Longrightarrow> honest_object (enc_log L) sz runId g k" for k
    using Cons.prems(1) by (simp add: p)
  obtain res where res: "readFrom b o' g runId (fo_fetched st) = Some res"
    "\<And>bytes. res = Inr bytes \<Longrightarrow> take (fo_fetched st) (enc_log L) @ bytes = take (fo_fetched st + length bytes) (enc_log L) \<and>
        fo_fetched st + length bytes \<le> length (enc_log L) \<and>
        (\<forall>j. fo_fetched st = boundary (enc_log L) sz j \<longrightarrow> (\<exists>i. fo_fetched st + length bytes = boundary (enc_log L) sz i))"
    using readFrom_slice [OF laws hon Cons.prems(3)] by blast
  note slice = conjunct1 [OF res(2)] conjunct1 [OF conjunct2 [OF res(2)]]
  have tail: "\<forall>(o', g) \<in> set ps. \<forall>k. s3_get b o' k \<noteq> None \<longrightarrow> js_starts_with k (chunkPrefix runId) \<longrightarrow>
      honest_object (enc_log L) sz runId g k"
    using Cons.prems(1) by simp
  from fold_chunks_fed [OF L Cons.prems(2,3,4) conjI [OF slice]] consider
    (rejected) e where "fold_chunks res st = Some (ReadRejected e)"
  | (folded) st' where "fold_chunks res st = Some (Folded st')" "fed L (take (fo_fetched st') (enc_log L)) (fo_decoder st')"
      "\<exists>bytes. res = Inr bytes \<and> fo_fetched st' = fo_fetched st + length bytes"
      "fo_fetched st' \<le> length (enc_log L)" "fo_events st' = events_of L (take (fo_fetched st') (enc_log L))"
    by blast
  then show ?case
  proof cases
    case rejected
    then show ?thesis using Cons.IH [OF tail Cons.prems(2-)] by (simp add: p res(1))
  next
    case folded
    have "(\<exists>j. fo_fetched st = boundary (enc_log L) sz j) \<longrightarrow> (\<exists>j. fo_fetched st' = boundary (enc_log L) sz j)"
      using folded(3) res(2) by auto
    with Cons.IH [OF tail folded(2,4,5)] show ?thesis by (simp add: p res(1) folded(1)) blast
  qed
qed

lemma fold_passes_append:
  "fold_passes b runId ps st = Some (Folded st1) \<Longrightarrow> fold_passes b runId (ps @ qs) st = fold_passes b runId qs st1"
proof (induction ps arbitrary: st)
  case (Cons p ps)
  obtain o' g where p: "p = (o', g)" by (cases p)
  obtain res out where r: "readFrom b o' g runId (fo_fetched st) = Some res" "fold_chunks res st = Some out"
    "(case out of Folded st' \<Rightarrow> fold_passes b runId ps st' | ReadRejected e \<Rightarrow> fold_passes b runId ps st
      | DecoderThrew e st' \<Rightarrow> Some out) = Some (Folded st1)"
    using Cons.prems by (auto simp: p Option.bind_eq_Some_conv)
  then show ?case using Cons.IH by (cases out) (simp_all add: p)
qed simp

lemma fold_chunks_moves: "fold_chunks (Inr bytes) st = Some (Folded st') \<Longrightarrow> fo_fetched st' = fo_fetched st + length bytes"
  "fold_chunks (Inr bytes) st \<noteq> Some (ReadRejected e)"
proof -
  show "fold_chunks (Inr bytes) st \<noteq> Some (ReadRejected e)"
  proof (cases "push bytes (fo_decoder st)")
    case (Some od)
    then show ?thesis by (cases "fst od") (auto simp: fold_chunks_def Let_def split: prod.splits)
  qed (simp add: fold_chunks_def)
  show "fo_fetched st' = fo_fetched st + length bytes" if "fold_chunks (Inr bytes) st = Some (Folded st')"
  proof (cases "push bytes (fo_decoder st)")
    case (Some od)
    with that show ?thesis by (cases "fst od") (auto simp: fold_chunks_def Let_def split: prod.splits if_splits)
  qed (use that in \<open>auto simp: fold_chunks_def split: if_splits\<close>)
qed

end
