(* ===== verification/LiveIngest.thy ===== *)
theory LiveIngest
  imports LiveChunks
begin

text \<open>
  Live ingest of one run: the row of \<open>RunRepository\<close> with its compare-and-set writes
  (\<open>packages/persistence/src/repositories/run.ts\<close>), and the handlers \<open>stream\<close> and \<open>close\<close> of
  \<open>LiveService\<close> (\<open>apps/api/src/ingest/live.service.ts\<close>) with \<open>LiveChunkStore.finalize\<close> inlined at its
  place.

  A handler is a step function over its program counter. One step is the code from one \<open>await\<close> to the
  next, so every call of the database, the object store or the queue is a step of its own, and any
  number of requests interleave at those points. A step takes what became of its call: it worked, it
  failed without effect, or it took effect and failed all the same (a lost answer).
\<close>

section \<open>The row\<close>

datatype run_status = StPending | StParsing | StRunning | StComplete | StFailed | StIncomplete

record run_row =
  rr_orgId :: jstr
  rr_projectId :: jstr
  rr_status :: run_status
  rr_verdict :: "jstr option"
  rr_bundleKey :: jstr
  rr_bundleSha256 :: jstr
  rr_bundleBytes :: nat
  rr_streamOffset :: nat
  rr_streamUpdatedAt :: "int option"
  rr_streamAbandonedAt :: "int option"
  rr_parsingStartedAt :: "int option"
  rr_ingestedAt :: "int option"

record tenant_scope =
  ts_orgId :: jstr
  ts_projectId :: "jstr option"

definition findById :: "tenant_scope \<Rightarrow> run_row option \<Rightarrow> run_row option" where
  "findById scope row = (case row of None \<Rightarrow> None | Some r \<Rightarrow>
     if rr_orgId r = ts_orgId scope \<and> (case ts_projectId scope of None \<Rightarrow> True | Some p \<Rightarrow> p = [] \<or> rr_projectId r = p)
     then Some r else None)"

definition createLive :: "jstr \<Rightarrow> jstr \<Rightarrow> jstr \<Rightarrow> run_row" where
  "createLive runId org project = \<lparr>rr_orgId = org, rr_projectId = project, rr_status = StRunning, rr_verdict = None,
     rr_bundleKey = js ''runs/'' @ runId @ js ''/simulation.log'', rr_bundleSha256 = [], rr_bundleBytes = 0,
     rr_streamOffset = 0, rr_streamUpdatedAt = None, rr_streamAbandonedAt = None, rr_parsingStartedAt = None,
     rr_ingestedAt = None\<rparr>"

text \<open>Each write is one conditional \<open>UPDATE\<close>; the answer says whether it matched.\<close>

definition advanceOffset :: "nat \<Rightarrow> nat \<Rightarrow> int \<Rightarrow> run_row option \<Rightarrow> run_row option \<times> bool" where
  "advanceOffset from to now row = (case row of None \<Rightarrow> (None, False) | Some r \<Rightarrow>
     if rr_status r = StRunning \<and> rr_streamOffset r = from
     then (Some (r\<lparr>rr_streamOffset := to, rr_streamUpdatedAt := Some now\<rparr>), True) else (row, False))"

definition markIncomplete :: "int \<Rightarrow> run_row option \<Rightarrow> run_row option" where
  "markIncomplete now row = map_option (\<lambda>r. if rr_status r \<in> {StComplete, StFailed, StIncomplete} then r
     else r\<lparr>rr_status := StIncomplete, rr_verdict := Some (js ''not_evaluated''), rr_ingestedAt := Some now\<rparr>) row"

definition liveState :: "run_row option \<Rightarrow> (run_status \<times> nat) option" where
  "liveState row = map_option (\<lambda>r. (rr_status r, rr_streamOffset r)) row"

definition claimForClose :: "bool \<Rightarrow> int \<Rightarrow> run_row option \<Rightarrow> run_row option \<times> bool" where
  "claimForClose abandoned now row = (case row of None \<Rightarrow> (None, False) | Some r \<Rightarrow>
     if rr_status r = StRunning
     then (Some (r\<lparr>rr_status := StParsing, rr_parsingStartedAt := Some now,
        rr_streamAbandonedAt := (if abandoned then Some now else rr_streamAbandonedAt r)\<rparr>), True) else (row, False))"

definition finalizeLive :: "jstr \<Rightarrow> nat \<Rightarrow> run_row option \<Rightarrow> run_row option" where
  "finalizeLive sha n row = map_option (\<lambda>r. if rr_status r = StParsing
     then r\<lparr>rr_bundleSha256 := sha, rr_bundleBytes := n\<rparr> else r) row"

definition releaseClose :: "run_row option \<Rightarrow> run_row option" where
  "releaseClose row = map_option (\<lambda>r. if rr_status r = StParsing
     then r\<lparr>rr_status := StRunning, rr_parsingStartedAt := None\<rparr> else r) row"

section \<open>The world of a run\<close>

datatype ping = AdvancedPing | ClosedPing

record 'o world =
  wd_row :: "run_row option"
  wd_store :: 'o
  wd_queue :: "jstr list"
  wd_pings :: "ping list"

datatype fault = Fine | NoEffect | AnswerLost
datatype ingest_fault = DatabaseDown | ObjectStoreDown | QueueDown | BundleTooLarge | ChunksThrew chunk_error

text \<open>\<open>jobId: runId\<close>: a job that is already queued is not added again.\<close>

definition queue_add :: "jstr \<Rightarrow> 'o world \<Rightarrow> 'o world" where
  "queue_add runId w = (if runId \<in> set (wd_queue w) then w else w\<lparr>wd_queue := wd_queue w @ [runId]\<rparr>)"

definition notify :: "ping \<Rightarrow> 'o world \<Rightarrow> 'o world" where
  "notify p w = w\<lparr>wd_pings := wd_pings w @ [p]\<rparr>"

definition set_row :: "run_row option \<Rightarrow> 'o world \<Rightarrow> 'o world" where
  "set_row r w = w\<lparr>wd_row := r\<rparr>"

text \<open>
  What is fixed for the run: the store, the hash of \<open>node:crypto\<close>, \<open>config.maxBundleBytes\<close> and the id.
\<close>

record 'o ingest_env =
  ie_store :: "'o object_store"
  ie_sha256 :: "byte list \<Rightarrow> jstr"
  ie_maxBundleBytes :: nat
  ie_runId :: jstr

section \<open>Streaming a chunk\<close>

datatype stream_outcome = StreamNotFound | StreamRejected nat | StreamAccepted nat

datatype stream_pc = SFind | SState | SPut nat | SAdvance nat | SReread nat | SDone stream_outcome | SThrew ingest_fault

record stream_request =
  sq_scope :: tenant_scope
  sq_offset :: nat
  sq_bytes :: "byte list"

definition cursor_of :: "(run_status \<times> nat) option \<Rightarrow> nat" where
  "cursor_of state = (case state of None \<Rightarrow> 0 | Some (_, off) \<Rightarrow> off)"

text \<open>The decision between the read of the row and the first write.\<close>

definition stream_decide :: "'o ingest_env \<Rightarrow> stream_request \<Rightarrow> (run_status \<times> nat) option \<Rightarrow> stream_pc" where
  "stream_decide env q state = (let cursor = cursor_of state in
     if map_option fst state \<noteq> Some StRunning \<or> cursor < sq_offset q then SDone (StreamRejected cursor)
     else if sq_offset q < cursor then SDone (StreamAccepted cursor)
     else if ie_maxBundleBytes env < sq_offset q + length (sq_bytes q) then SThrew BundleTooLarge
     else SPut cursor)"

definition stream_step :: "'o ingest_env \<Rightarrow> stream_request \<Rightarrow> fault \<Rightarrow> int \<Rightarrow> 'o world \<times> stream_pc \<Rightarrow> 'o world \<times> stream_pc" where
  "stream_step env q f now = (\<lambda>(w, pc). let off = sq_offset q; to = off + length (sq_bytes q) in case pc of
     SFind \<Rightarrow> (w, if f \<noteq> Fine then SThrew DatabaseDown
        else case findById (sq_scope q) (wd_row w) of None \<Rightarrow> SDone StreamNotFound | Some _ \<Rightarrow> SState)
   | SState \<Rightarrow> (w, if f \<noteq> Fine then SThrew DatabaseDown else stream_decide env q (liveState (wd_row w)))
   | SPut cursor \<Rightarrow> (if f = NoEffect then w
          else w\<lparr>wd_store := chunk_put (ie_store env) (wd_store w) (ie_runId env) off (sq_bytes q)\<rparr>,
        if f = Fine then SAdvance cursor else SThrew ObjectStoreDown)
   | SAdvance cursor \<Rightarrow> (let (row, advanced) = advanceOffset off to now (wd_row w) in
        if f = NoEffect then (w, SThrew DatabaseDown)
        else if f = AnswerLost then (set_row row w, SThrew DatabaseDown)
        else if advanced then (notify AdvancedPing (set_row row w), SDone (StreamAccepted to))
        else (w, SReread cursor))
   | SReread cursor \<Rightarrow> (w, if f \<noteq> Fine then SThrew DatabaseDown
        else let current = (case liveState (wd_row w) of None \<Rightarrow> cursor | Some (_, off') \<Rightarrow> off') in
          SDone (if off < current then StreamAccepted current else StreamRejected current))
   | SDone _ \<Rightarrow> (w, pc)
   | SThrew _ \<Rightarrow> (w, pc))"

section \<open>Closing a run\<close>

datatype close_outcome = CloseNotFound | CloseNotRunning | Closed run_row

text \<open>
  \<open>CExists\<close> to \<open>CDelete\<close> are \<open>LiveChunkStore.finalize\<close>; the reads and the deletions of its two fan-outs
  land in any order, so their counters hold what has arrived and what is left.
\<close>

datatype close_pc = CFind | CClaim run_row | CState run_row | CMark run_row
  | CExists run_row | CList run_row bool | CGets run_row "jstr list" "byte list option list"
  | CWrite run_row "jstr list" "byte list" | CDelete run_row "jstr list"
  | CHash run_row | CFinal run_row jstr nat | CEnqueue run_row | CReply run_row
  | CRelease ingest_fault | CDone close_outcome | CThrew ingest_fault

definition deletions :: "run_row \<Rightarrow> jstr list \<Rightarrow> close_pc" where
  "deletions run todo = (if todo = [] then CHash run else CDelete run todo)"

definition remove_at :: "nat \<Rightarrow> 'a list \<Rightarrow> 'a list" where
  "remove_at i xs = take i xs @ drop (Suc i) xs"

definition after_gets :: "jstr \<Rightarrow> run_row \<Rightarrow> jstr list \<Rightarrow> byte list option list \<Rightarrow> close_pc" where
  "after_gets runId run keys parts = (if None \<in> set parts then CGets run keys parts
     else case interior_check runId 0 (zip keys (map the parts)) of
       Inl e \<Rightarrow> CRelease (ChunksThrew e) | Inr _ \<Rightarrow> CWrite run keys (concat (map the parts)))"

definition after_list :: "jstr \<Rightarrow> run_row \<Rightarrow> bool \<Rightarrow> jstr list \<Rightarrow> close_pc" where
  "after_list runId run already keys = (if already then deletions run keys
     else if keys = [] then CHash run
     else case head_check runId 0 keys of
       Inl e \<Rightarrow> CRelease (ChunksThrew e) | Inr _ \<Rightarrow> CGets run keys (replicate (length keys) None))"

definition close_step :: "'o ingest_env \<Rightarrow> tenant_scope \<Rightarrow> fault \<Rightarrow> nat \<Rightarrow> int \<Rightarrow> 'o world \<times> close_pc \<Rightarrow> 'o world \<times> close_pc" where
  "close_step env scope f i now = (\<lambda>(w, pc). let b = ie_store env; runId = ie_runId env in case pc of
     CFind \<Rightarrow> (w, if f \<noteq> Fine then CThrew DatabaseDown
        else case findById scope (wd_row w) of None \<Rightarrow> CDone CloseNotFound | Some run \<Rightarrow> CClaim run)
   | CClaim run \<Rightarrow> (let (row, claimed) = claimForClose False now (wd_row w) in
        if f = NoEffect then (w, CThrew DatabaseDown)
        else if f = AnswerLost then (set_row row w, CThrew DatabaseDown)
        else if claimed then (notify ClosedPing (set_row row w), CState run) else (w, CDone CloseNotRunning))
   | CState run \<Rightarrow> (w, if f \<noteq> Fine then CRelease DatabaseDown
        else if cursor_of (liveState (wd_row w)) = 0 then CMark run else CExists run)
   | CMark run \<Rightarrow> (if f = NoEffect then w else set_row (markIncomplete now (wd_row w)) w,
        if f = Fine then CReply run else CRelease DatabaseDown)
   | CExists run \<Rightarrow> (w, if f \<noteq> Fine then CRelease ObjectStoreDown else CList run (s3_head b (wd_store w) (rr_bundleKey run)))
   | CList run already \<Rightarrow> (w, if f \<noteq> Fine then CRelease ObjectStoreDown
        else case listChunkKeys b (wd_store w) runId of None \<Rightarrow> pc | Some keys \<Rightarrow> after_list runId run already keys)
   | CGets run keys parts \<Rightarrow> (w, if length keys \<le> i \<or> parts ! i \<noteq> None then pc
        else if f \<noteq> Fine then CRelease ObjectStoreDown
        else case s3_get b (wd_store w) (keys ! i) of
          None \<Rightarrow> CRelease (ChunksThrew (NoSuchKey (keys ! i)))
        | Some part \<Rightarrow> after_gets runId run keys (parts[i := Some part]))
   | CWrite run keys assembled \<Rightarrow> (if f = NoEffect then w else w\<lparr>wd_store := s3_put b (wd_store w) (rr_bundleKey run) assembled\<rparr>,
        if f = Fine then deletions run keys else CRelease ObjectStoreDown)
   | CDelete run todo \<Rightarrow> (if length todo \<le> i then (w, pc)
        else (if f = NoEffect then w else w\<lparr>wd_store := s3_delete b (wd_store w) (todo ! i)\<rparr>,
          deletions run (remove_at i todo)))
   | CHash run \<Rightarrow> (w, if f \<noteq> Fine then CRelease ObjectStoreDown
        else case s3_get b (wd_store w) (rr_bundleKey run) of
          None \<Rightarrow> CRelease (ChunksThrew (NoSuchKey (rr_bundleKey run)))
        | Some assembled \<Rightarrow> CFinal run (ie_sha256 env assembled) (length assembled))
   | CFinal run sha n \<Rightarrow> (if f = NoEffect then w else set_row (finalizeLive sha n (wd_row w)) w,
        if f = Fine then CEnqueue run else CRelease DatabaseDown)
   | CEnqueue run \<Rightarrow> (if f = NoEffect then w else queue_add runId w, if f = Fine then CReply run else CThrew QueueDown)
   | CReply run \<Rightarrow> (w, if f \<noteq> Fine then CThrew DatabaseDown
        else CDone (Closed (case findById scope (wd_row w) of None \<Rightarrow> run | Some r \<Rightarrow> r)))
   | CRelease e \<Rightarrow> (if f = NoEffect then w else set_row (releaseClose (wd_row w)) w, CThrew e)
   | CDone _ \<Rightarrow> (w, pc)
   | CThrew _ \<Rightarrow> (w, pc))"

section \<open>Requests side by side\<close>

datatype request = Stream stream_request stream_pc | Close tenant_scope close_pc

record action =
  ac_request :: nat
  ac_fault :: fault
  ac_choice :: nat
  ac_now :: int

definition request_step :: "'o ingest_env \<Rightarrow> action \<Rightarrow> 'o world \<times> request \<Rightarrow> 'o world \<times> request" where
  "request_step env a = (\<lambda>(w, rq). case rq of
     Stream q pc \<Rightarrow> map_prod id (Stream q) (stream_step env q (ac_fault a) (ac_now a) (w, pc))
   | Close scope pc \<Rightarrow> map_prod id (Close scope) (close_step env scope (ac_fault a) (ac_choice a) (ac_now a) (w, pc)))"

type_synonym 'o ingest_system = "'o world \<times> request list"

definition system_step :: "'o ingest_env \<Rightarrow> action \<Rightarrow> 'o ingest_system \<Rightarrow> 'o ingest_system" where
  "system_step env a = (\<lambda>(w, rqs). let i = ac_request a in
     if length rqs \<le> i then (w, rqs)
     else let (w', rq') = request_step env a (w, rqs ! i) in (w', rqs[i := rq']))"

definition system_run :: "'o ingest_env \<Rightarrow> action list \<Rightarrow> 'o ingest_system \<Rightarrow> 'o ingest_system" where
  "system_run env acts s = fold (system_step env) acts s"

definition opened :: "'o ingest_env \<Rightarrow> jstr \<Rightarrow> jstr \<Rightarrow> 'o \<Rightarrow> 'o world" where
  "opened env org project o' = \<lparr>wd_row = Some (createLive (ie_runId env) org project), wd_store = o', wd_queue = [], wd_pings = []\<rparr>"

end
