(* ===== verification/LiveIngestSafety.thy ===== *)
theory LiveIngestSafety
  imports LiveIngest
begin

text \<open>
  What live ingest keeps of the bytes it has accepted, under every interleaving of streams and closes and
  every failure of their calls that a retry can make good.
\<close>

section \<open>Listing the chunks of one log\<close>

definition whole_pieces :: "byte list \<Rightarrow> (nat \<Rightarrow> nat) \<Rightarrow> nat \<Rightarrow> bool" where
  "whole_pieces lg sz n \<longleftrightarrow> (\<forall>j<n. piece lg sz (boundary lg sz j) \<noteq> [])"

lemma cut_mono: "i \<le> j \<Longrightarrow> boundary lg sz i \<le> boundary lg sz j"
  by (induction j) (auto simp: le_Suc_eq)

lemma cut_strict: "whole_pieces lg sz n \<Longrightarrow> i < j \<Longrightarrow> j \<le> n \<Longrightarrow> boundary lg sz i < boundary lg sz j"
proof (induction j)
  case (Suc j)
  have "boundary lg sz i \<le> boundary lg sz j" using Suc.prems by (intro cut_mono) simp
  moreover have "piece lg sz (boundary lg sz j) \<noteq> []" using Suc.prems by (simp add: whole_pieces_def)
  ultimately show ?case by (cases "piece lg sz (boundary lg sz j)") simp_all
qed simp

definition chunk_keys :: "jstr \<Rightarrow> byte list \<Rightarrow> (nat \<Rightarrow> nat) \<Rightarrow> nat \<Rightarrow> jstr list" where
  "chunk_keys runId lg sz n = map (\<lambda>j. chunkKey runId (boundary lg sz j)) [0..<n]"

lemma length_chunk_keys [simp]: "length (chunk_keys runId lg sz n) = n"
  by (simp add: chunk_keys_def)

lemma nth_chunk_keys [simp]: "j < n \<Longrightarrow> chunk_keys runId lg sz n ! j = chunkKey runId (boundary lg sz j)"
  by (simp add: chunk_keys_def)

lemma chunk_keys_sorted:
  assumes "whole_pieces lg sz n" and "boundary lg sz n < 2 ^ 53"
  shows "sorted_wrt (<) (chunk_keys runId lg sz n)"
  unfolding sorted_wrt_iff_nth_less
proof (intro allI impI)
  fix i j
  assume "i < j" "j < length (chunk_keys runId lg sz n)"
  then have ij: "i < j" "j < n" by simp_all
  have "boundary lg sz i < boundary lg sz j" using cut_strict [OF assms(1) ij(1)] ij(2) by simp
  moreover have "boundary lg sz j < 2 ^ 53" using cut_mono [of j n lg sz] ij(2) assms(2) by simp
  ultimately show "chunk_keys runId lg sz n ! i < chunk_keys runId lg sz n ! j" using ij by (simp add: chunkKey_less)
qed

lemma js_sort_units:
  assumes "distinct xs" and "set xs = set ys" and "sorted_wrt (<) ys"
  shows "js_sort cmp_units xs = ys"
proof -
  have "sorted_wrt (\<lambda>a b. cmp_units a b \<le> 0) (js_sort cmp_units xs)" by (rule by_units.js_sort_sorted)
  then have "sorted (js_sort cmp_units xs)"
    by (rule sorted_wrt_mono_rel [rotated]) (auto simp: cmp_units_def split: if_splits)
  moreover have "distinct (js_sort cmp_units xs)" using distinct_map_js_sort [of id cmp_units xs] assms(1) by simp
  moreover have "sorted ys \<and> distinct ys" using assms(3) by (simp add: strict_sorted_iff)
  ultimately show ?thesis using assms(2) by (intro sorted_distinct_set_unique) simp_all
qed

lemma chunkKey_prefix: "js_starts_with (chunkKey runId n) (chunkPrefix runId)"
  by (simp add: js_starts_with_def chunkKey_def)

lemma chunkKey_inj: "chunkKey runId m = chunkKey runId n \<Longrightarrow> m < 2 ^ 53 \<Longrightarrow> n < 2 ^ 53 \<Longrightarrow> m = n"
  by (metis offsetOf_chunkKey option.inject)

lemma interior_pieces:
  assumes "boundary lg sz n < 2 ^ 53" and "i \<le> n"
  shows "interior_check runId (boundary lg sz i)
    (map (\<lambda>j. (chunkKey runId (boundary lg sz j), piece lg sz (boundary lg sz j))) [i..<n]) = Inr ()"
  using assms(2)
proof (induction "n - i" arbitrary: i)
  case (Suc d)
  then have i: "i < n" by simp
  have "boundary lg sz i < 2 ^ 53" using cut_mono [of i n lg sz] i assms(1) by simp
  moreover have "interior_check runId (boundary lg sz (Suc i))
      (map (\<lambda>j. (chunkKey runId (boundary lg sz j), piece lg sz (boundary lg sz j))) [Suc i..<n]) = Inr ()"
    using Suc i by (intro Suc.hyps(1)) simp_all
  ultimately show ?case using i by (simp add: upt_conv_Cons offsetOf_chunkKey)
qed simp

section \<open>The invariant\<close>

text \<open>
  \<open>m\<close> chunks have been accepted; \<open>A\<close> holds until a close has written the bundle, which then has \<open>N\<close>
  bytes; \<open>C\<close> holds once the row names it.
\<close>

definition holds_chunks :: "'o ingest_env \<Rightarrow> byte list \<Rightarrow> (nat \<Rightarrow> nat) \<Rightarrow> nat \<Rightarrow> 'o \<Rightarrow> bool" where
  "holds_chunks env lg sz m o' \<longleftrightarrow>
     (\<forall>j<m. s3_get (ie_store env) o' (chunkKey (ie_runId env) (boundary lg sz j)) = Some (piece lg sz (boundary lg sz j)))"

definition honest_chunks :: "'o ingest_env \<Rightarrow> byte list \<Rightarrow> (nat \<Rightarrow> nat) \<Rightarrow> nat \<Rightarrow> 'o \<Rightarrow> bool" where
  "honest_chunks env lg sz m o' \<longleftrightarrow>
     (\<forall>k v. s3_get (ie_store env) o' k = Some v \<longrightarrow> js_starts_with k (chunkPrefix (ie_runId env)) \<longrightarrow>
        (\<exists>j\<le>m. k = chunkKey (ie_runId env) (boundary lg sz j) \<and> v = piece lg sz (boundary lg sz j) \<and> v \<noteq> []))"

definition bundle_key :: "'o ingest_env \<Rightarrow> jstr" where
  "bundle_key env = js ''runs/'' @ ie_runId env @ js ''/simulation.log''"

definition world_ok :: "'o ingest_env \<Rightarrow> byte list \<Rightarrow> (nat \<Rightarrow> nat) \<Rightarrow> nat \<Rightarrow> bool \<Rightarrow> nat \<Rightarrow> bool \<Rightarrow> 'o world \<Rightarrow> bool" where
  "world_ok env lg sz m A N C w \<longleftrightarrow> (\<exists>row. wd_row w = Some row \<and> rr_bundleKey row = bundle_key env \<and>
     rr_streamOffset row = boundary lg sz m \<and> whole_pieces lg sz m \<and>
     honest_chunks env lg sz m (wd_store w) \<and> (C \<longrightarrow> \<not> A) \<and>
     (A \<longrightarrow> holds_chunks env lg sz m (wd_store w) \<and> s3_get (ie_store env) (wd_store w) (bundle_key env) = None) \<and>
     (\<not> A \<longrightarrow> s3_get (ie_store env) (wd_store w) (bundle_key env) = Some (take N lg) \<and> boundary lg sz m \<le> N \<and> N \<le> length lg \<and>
        rr_status row \<noteq> StRunning) \<and>
     (C \<longrightarrow> rr_bundleSha256 row = ie_sha256 env (take N lg) \<and> rr_bundleBytes row = N) \<and>
     (\<not> C \<longrightarrow> ie_runId env \<notin> set (wd_queue w)))"

definition sends_piece :: "byte list \<Rightarrow> (nat \<Rightarrow> nat) \<Rightarrow> stream_request \<Rightarrow> bool" where
  "sends_piece lg sz q \<longleftrightarrow> sq_bytes q = piece lg sz (sq_offset q) \<and> sq_bytes q \<noteq> []"

definition at_boundary :: "byte list \<Rightarrow> (nat \<Rightarrow> nat) \<Rightarrow> nat \<Rightarrow> stream_request \<Rightarrow> bool" where
  "at_boundary lg sz m q \<longleftrightarrow> (\<exists>j\<le>m. sq_offset q = boundary lg sz j)"

definition stream_ok :: "'o ingest_env \<Rightarrow> byte list \<Rightarrow> (nat \<Rightarrow> nat) \<Rightarrow> nat \<Rightarrow> bool \<Rightarrow> 'o \<Rightarrow> stream_request \<Rightarrow> stream_pc \<Rightarrow> bool" where
  "stream_ok env lg sz m A o' q pc \<longleftrightarrow> sends_piece lg sz q \<and> (case pc of
     SPut cursor \<Rightarrow> at_boundary lg sz m q
   | SAdvance cursor \<Rightarrow> at_boundary lg sz m q \<and>
       (A \<longrightarrow> s3_get (ie_store env) o' (chunkKey (ie_runId env) (sq_offset q)) = Some (piece lg sz (sq_offset q)))
   | SDone (StreamAccepted n) \<Rightarrow> n \<le> boundary lg sz m
   | SDone (StreamRejected n) \<Rightarrow> n \<le> boundary lg sz m
   | _ \<Rightarrow> True)"

definition read_parts :: "byte list \<Rightarrow> (nat \<Rightarrow> nat) \<Rightarrow> byte list option list \<Rightarrow> bool" where
  "read_parts lg sz parts \<longleftrightarrow> (\<forall>j<length parts. parts ! j \<in> {None, Some (piece lg sz (boundary lg sz j))})"

definition chunk_pending :: "'o ingest_env \<Rightarrow> jstr list \<Rightarrow> bool" where
  "chunk_pending env ks \<longleftrightarrow> (\<forall>k \<in> set ks. js_starts_with k (chunkPrefix (ie_runId env)))"

definition close_ok :: "'o ingest_env \<Rightarrow> byte list \<Rightarrow> (nat \<Rightarrow> nat) \<Rightarrow> nat \<Rightarrow> bool \<Rightarrow> nat \<Rightarrow> bool \<Rightarrow> close_pc \<Rightarrow> bool" where
  "close_ok env lg sz m A N C pc \<longleftrightarrow> (case pc of
     CClaim run \<Rightarrow> rr_bundleKey run = bundle_key env
   | CState run \<Rightarrow> rr_bundleKey run = bundle_key env \<and> A
   | CMark run \<Rightarrow> rr_bundleKey run = bundle_key env \<and> A
   | CExists run \<Rightarrow> rr_bundleKey run = bundle_key env \<and> A \<and> 0 < boundary lg sz m
   | CList run already \<Rightarrow> rr_bundleKey run = bundle_key env \<and> A \<and> 0 < boundary lg sz m \<and> \<not> already
   | CGets run keys parts \<Rightarrow> rr_bundleKey run = bundle_key env \<and> A \<and>
       (\<exists>n\<ge>m. keys = chunk_keys (ie_runId env) lg sz n \<and> length parts = n \<and> read_parts lg sz parts)
   | CWrite run keys bytes \<Rightarrow> rr_bundleKey run = bundle_key env \<and> A \<and> chunk_pending env keys \<and> (\<exists>n\<ge>m. bytes = take (boundary lg sz n) lg)
   | CDelete run todo \<Rightarrow> rr_bundleKey run = bundle_key env \<and> \<not> A \<and> chunk_pending env todo
   | CHash run \<Rightarrow> rr_bundleKey run = bundle_key env \<and> \<not> A
   | CFinal run sha n \<Rightarrow> rr_bundleKey run = bundle_key env \<and> \<not> A \<and> sha = ie_sha256 env (take N lg) \<and> n = N
   | CEnqueue run \<Rightarrow> C
   | CRelease e \<Rightarrow> A
   | _ \<Rightarrow> True)"

fun closing :: "close_pc \<Rightarrow> bool" where
  "closing CFind = False"
| "closing (CClaim _) = False"
| "closing (CEnqueue _) = False"
| "closing (CReply _) = False"
| "closing (CDone _) = False"
| "closing (CThrew _) = False"
| "closing _ = True"

fun holds_claim :: "request \<Rightarrow> bool" where
  "holds_claim (Stream _ _) = False"
| "holds_claim (Close _ pc) = closing pc"

definition request_ok :: "'o ingest_env \<Rightarrow> byte list \<Rightarrow> (nat \<Rightarrow> nat) \<Rightarrow> nat \<Rightarrow> bool \<Rightarrow> nat \<Rightarrow> bool \<Rightarrow> 'o \<Rightarrow> request \<Rightarrow> bool" where
  "request_ok env lg sz m A N C o' rq \<longleftrightarrow> (case rq of
     Stream q pc \<Rightarrow> stream_ok env lg sz m A o' q pc
   | Close scope pc \<Rightarrow> close_ok env lg sz m A N C pc)"

definition status_of :: "'o world \<Rightarrow> run_status option" where
  "status_of w = map_option rr_status (wd_row w)"

definition running :: "'o world \<Rightarrow> bool" where
  "running w \<longleftrightarrow> status_of w = Some StRunning"

text \<open>A close that holds the claim finds the row at \<open>parsing\<close> until it gives up.\<close>

definition claim_ok :: "'o world \<Rightarrow> request \<Rightarrow> bool" where
  "claim_ok w rq \<longleftrightarrow> (case rq of Stream _ _ \<Rightarrow> True | Close _ pc \<Rightarrow> closing pc \<longrightarrow> \<not> running w \<and>
     ((\<exists>e. pc = CRelease e) \<or> status_of w = Some StParsing))"

text \<open>
  The failures a retry cannot make good: one between the write of the bundle and the commit of the row,
  after which the run is released with its bundle in place.
\<close>

definition late_fault :: "action \<Rightarrow> request \<Rightarrow> bool" where
  "late_fault a rq \<longleftrightarrow> (case rq of
     Close _ (CWrite _ _ _) \<Rightarrow> ac_fault a = AnswerLost
   | Close _ (CHash _) \<Rightarrow> ac_fault a \<noteq> Fine
   | Close _ (CFinal _ _ _) \<Rightarrow> ac_fault a \<noteq> Fine
   | _ \<Rightarrow> False)"

fun spared :: "'o ingest_env \<Rightarrow> action list \<Rightarrow> 'o ingest_system \<Rightarrow> bool" where
  "spared env [] s = True"
| "spared env (a # as) s = ((ac_request a < length (snd s) \<longrightarrow> \<not> late_fault a (snd s ! ac_request a)) \<and>
     spared env as (system_step env a s))"

text \<open>The set-up every lemma below shares.\<close>

definition ingest_setup :: "'o ingest_env \<Rightarrow> byte list \<Rightarrow> bool" where
  "ingest_setup env lg \<longleftrightarrow> store_laws (ie_store env) \<and> length lg < 2 ^ 53"

lemma setup_laws:
  assumes "ingest_setup env lg"
  shows "s3_get (ie_store env) (s3_put (ie_store env) o' k v) k' = (if k' = k then Some v else s3_get (ie_store env) o' k')"
    and "s3_get (ie_store env) (s3_delete (ie_store env) o' k) k' = (if k' = k then None else s3_get (ie_store env) o' k')"
    and "s3_head (ie_store env) o' k = (s3_get (ie_store env) o' k \<noteq> None)"
    and "boundary lg sz n < 2 ^ 53"
  using assms cut_le [of lg sz n] by (simp_all add: ingest_setup_def store_laws_def)

lemma bundle_key_apart: "js_starts_with k (chunkPrefix runId) \<Longrightarrow> k \<noteq> bundle_key env"
  by (auto simp: js_starts_with_def chunkPrefix_def bundle_key_def)

section \<open>Streaming keeps the invariant\<close>

definition keeps_pieces :: "'o ingest_env \<Rightarrow> byte list \<Rightarrow> (nat \<Rightarrow> nat) \<Rightarrow> 'o \<Rightarrow> 'o \<Rightarrow> bool" where
  "keeps_pieces env lg sz o1 o2 \<longleftrightarrow> (\<forall>off < 2 ^ 53. s3_get (ie_store env) o1 (chunkKey (ie_runId env) off) = Some (piece lg sz off) \<longrightarrow>
     s3_get (ie_store env) o2 (chunkKey (ie_runId env) off) = Some (piece lg sz off))"

lemma keeps_pieces_refl [simp]: "keeps_pieces env lg sz o' o'"
  by (simp add: keeps_pieces_def)

lemma put_piece:
  assumes su: "ingest_setup env lg" and w: "world_ok env lg sz m A N C w"
    and q: "sends_piece lg sz q" "at_boundary lg sz m q"
    and w': "w' = w\<lparr>wd_store := chunk_put (ie_store env) (wd_store w) (ie_runId env) (sq_offset q) (sq_bytes q)\<rparr>"
  shows "world_ok env lg sz m A N C w'"
    and "keeps_pieces env lg sz (wd_store w) (wd_store w')"
    and "s3_get (ie_store env) (wd_store w') (chunkKey (ie_runId env) (sq_offset q)) = Some (piece lg sz (sq_offset q))"
proof -
  obtain j where j: "j \<le> m" "sq_offset q = boundary lg sz j" using q(2) by (auto simp: at_boundary_def)
  have b: "sq_bytes q = piece lg sz (sq_offset q)" "sq_bytes q \<noteq> []" using q(1) unfolding sends_piece_def by blast+
  have qb: "sq_offset q < 2 ^ 53" using setup_laws(4) [OF su] by (simp add: j(2))
  let ?K = "chunkKey (ie_runId env) (sq_offset q)"
  have get: "s3_get (ie_store env) (wd_store w') k = (if k = ?K then Some (piece lg sz (sq_offset q)) else s3_get (ie_store env) (wd_store w) k)" for k
    by (simp add: w' chunk_put_def setup_laws(1) [OF su] b(1))
  then show "s3_get (ie_store env) (wd_store w') ?K = Some (piece lg sz (sq_offset q))" by simp
  show "keeps_pieces env lg sz (wd_store w) (wd_store w')"
    unfolding keeps_pieces_def get
    using chunkKey_inj [OF _ _ qb] by auto
  have honest: "honest_chunks env lg sz m (wd_store w) \<Longrightarrow> honest_chunks env lg sz m (wd_store w')"
    unfolding honest_chunks_def get using j b by auto
  have holds: "holds_chunks env lg sz m (wd_store w) \<Longrightarrow> holds_chunks env lg sz m (wd_store w')"
    using setup_laws(4) [OF su] unfolding holds_chunks_def get by (auto dest: chunkKey_inj simp: j(2))
  have "bundle_key env \<noteq> ?K" using bundle_key_apart [OF chunkKey_prefix] by metis
  then have "s3_get (ie_store env) (wd_store w') (bundle_key env) = s3_get (ie_store env) (wd_store w) (bundle_key env)"
    by (simp add: get)
  moreover have "wd_row w' = wd_row w" "wd_queue w' = wd_queue w" by (simp_all add: w')
  ultimately show "world_ok env lg sz m A N C w'" using w honest holds by (auto simp: world_ok_def)
qed

text \<open>What a step of one request leaves to the others.\<close>

definition leaves :: "'o ingest_env \<Rightarrow> byte list \<Rightarrow> (nat \<Rightarrow> nat) \<Rightarrow> nat \<times> bool \<times> nat \<times> bool \<Rightarrow> nat \<times> bool \<times> nat \<times> bool \<Rightarrow>
    'o world \<times> bool \<Rightarrow> 'o world \<times> bool \<Rightarrow> bool" where
  "leaves env lg sz = (\<lambda>(m, A, N, C) (m', A', N', C') (w, claim) (w', claim').
     m \<le> m' \<and> (A' \<longrightarrow> A) \<and> (C \<longrightarrow> C') \<and> (A' \<longrightarrow> keeps_pieces env lg sz (wd_store w) (wd_store w')) \<and>
     ((m', A', N') = (m, A, N) \<or> claim \<or> running w) \<and> (status_of w' = status_of w \<or> claim \<or> running w) \<and>
     (claim' \<longrightarrow> claim \<or> running w))"

lemma leaves_same [simp]:
  "leaves env lg sz v v (w, c) (w, c') \<longleftrightarrow> (c' \<longrightarrow> c \<or> running w)"
  by (cases v) (simp add: leaves_def)

lemma running_notify [simp]: "running (notify p w) = running w"
  and world_ok_notify [simp]: "world_ok env lg sz m A N C (notify p w) = world_ok env lg sz m A N C w"
  and store_notify [simp]: "wd_store (notify p w) = wd_store w"
  and store_set_row [simp]: "wd_store (set_row r w) = wd_store w"
  and row_set_row [simp]: "wd_row (set_row r w) = r"
  and queue_set_row [simp]: "wd_queue (set_row r w) = wd_queue w"
  by (simp_all add: running_def status_of_def notify_def world_ok_def set_row_def)

lemma advance_same [simp]: "\<not> snd (advanceOffset from to now row) \<Longrightarrow> fst (advanceOffset from to now row) = row"
  by (auto simp: advanceOffset_def split: option.splits if_splits)

lemma advance_ok:
  assumes w: "world_ok env lg sz m A N C w" and q: "sends_piece lg sz q"
    and put: "A \<longrightarrow> s3_get (ie_store env) (wd_store w) (chunkKey (ie_runId env) (sq_offset q)) = Some (piece lg sz (sq_offset q))"
    and adv: "advanceOffset (sq_offset q) (sq_offset q + length (sq_bytes q)) now (wd_row w) = (row', True)"
  shows "world_ok env lg sz (Suc m) A N C (set_row row' w) \<and> running w \<and> A \<and>
    sq_offset q + length (sq_bytes q) = boundary lg sz (Suc m)"
proof -
  obtain row where row: "wd_row w = Some row" "rr_streamOffset row = boundary lg sz m" using w by (auto simp: world_ok_def)
  have r: "rr_status row = StRunning" "sq_offset q = boundary lg sz m"
    "row' = Some (row\<lparr>rr_streamOffset := sq_offset q + length (sq_bytes q), rr_streamUpdatedAt := Some now\<rparr>)"
    using adv row by (auto simp: advanceOffset_def split: if_splits)
  have b: "sq_bytes q = piece lg sz (boundary lg sz m)" "piece lg sz (boundary lg sz m) \<noteq> []" using q r(2) by (auto simp: sends_piece_def)
  have A: "A" using w row r(1) by (auto simp: world_ok_def)
  have "holds_chunks env lg sz m (wd_store w)" using w A by (auto simp: world_ok_def)
  then have holds: "holds_chunks env lg sz (Suc m) (wd_store w)" using put A r(2) by (auto simp: holds_chunks_def less_Suc_eq)
  have "whole_pieces lg sz m" using w by (auto simp: world_ok_def)
  then have whole: "whole_pieces lg sz (Suc m)" using b(2) by (auto simp: whole_pieces_def less_Suc_eq)
  have "honest_chunks env lg sz m (wd_store w)" using w by (auto simp: world_ok_def)
  then have honest: "honest_chunks env lg sz (Suc m) (wd_store w)" unfolding honest_chunks_def by (meson le_SucI)
  show ?thesis using w row r A holds whole honest b(1) by (auto simp: world_ok_def running_def status_of_def)
qed

lemma stream_step_ok:
  assumes su: "ingest_setup env lg" and w: "world_ok env lg sz m A N C w"
    and q: "stream_ok env lg sz m A (wd_store w) q pc"
    and step: "stream_step env q f now (w, pc) = (w', pc')"
  shows "\<exists>m'. world_ok env lg sz m' A N C w' \<and> stream_ok env lg sz m' A (wd_store w') q pc' \<and>
    leaves env lg sz (m, A, N, C) (m', A, N, C) (w, False) (w', False)"
proof -
  have sp: "sends_piece lg sz q" using q by (simp add: stream_ok_def)
  obtain row where row: "wd_row w = Some row" "rr_streamOffset row = boundary lg sz m" using w by (auto simp: world_ok_def)
  have idle: "w' = w \<Longrightarrow> stream_ok env lg sz m A (wd_store w) q pc' \<Longrightarrow> ?thesis" using w by (intro exI [of _ m]) simp
  show ?thesis
  proof (cases pc)
    case SFind
    then show ?thesis using step sp by (intro idle) (auto simp: stream_step_def Let_def stream_ok_def split: if_splits option.splits)
  next
    case SState
    have "w' = w" using step SState by (simp add: stream_step_def Let_def)
    moreover have "stream_ok env lg sz m A (wd_store w) q pc'"
      using step SState sp row by (auto simp: stream_step_def Let_def stream_ok_def stream_decide_def liveState_def cursor_of_def at_boundary_def
          split: if_splits)
    ultimately show ?thesis by (rule idle)
  next
    case (SPut cursor)
    then have boundary: "at_boundary lg sz m q" using q by (simp add: stream_ok_def)
    show ?thesis
    proof (cases "f = NoEffect")
      case True
      then show ?thesis using step SPut sp by (intro idle) (auto simp: stream_step_def Let_def stream_ok_def)
    next
      case False
      then have w': "w' = w\<lparr>wd_store := chunk_put (ie_store env) (wd_store w) (ie_runId env) (sq_offset q) (sq_bytes q)\<rparr>"
        and pc': "pc' = SAdvance cursor \<or> pc' = SThrew ObjectStoreDown"
        using step SPut by (auto simp: stream_step_def Let_def split: if_splits)
      note put = put_piece [OF su w sp boundary w']
      have "stream_ok env lg sz m A (wd_store w') q pc'" using pc' sp boundary put(3) by (auto simp: stream_ok_def)
      moreover have "status_of w' = status_of w" by (simp add: w' status_of_def)
      ultimately show ?thesis using put(1,2) by (intro exI [of _ m]) (simp add: leaves_def)
    qed
  next
    case (SAdvance cursor)
    let ?adv = "advanceOffset (sq_offset q) (sq_offset q + length (sq_bytes q)) now (wd_row w)"
    have put: "A \<longrightarrow> s3_get (ie_store env) (wd_store w) (chunkKey (ie_runId env) (sq_offset q)) = Some (piece lg sz (sq_offset q))"
      using q SAdvance by (simp add: stream_ok_def)
    obtain row' adv where adv: "?adv = (row', adv)" by (cases ?adv)
    show ?thesis
    proof (cases "adv \<and> f \<noteq> NoEffect")
      case True
      then have ok: "world_ok env lg sz (Suc m) A N C (set_row row' w) \<and> running w \<and> A \<and>
          sq_offset q + length (sq_bytes q) = boundary lg sz (Suc m)"
        using adv by (intro advance_ok [OF w sp put]) simp
      have "w' = set_row row' w \<or> w' = notify AdvancedPing (set_row row' w)"
        and "pc' = SThrew DatabaseDown \<or> pc' = SDone (StreamAccepted (boundary lg sz (Suc m)))"
        using step SAdvance True adv ok by (auto simp: stream_step_def Let_def split: if_splits)
      then show ?thesis using ok sp by (intro exI [of _ "Suc m"]) (auto simp: leaves_def stream_ok_def)
    next
      case False
      have "adv \<or> row' = wd_row w"
        using advance_same [of "sq_offset q" "sq_offset q + length (sq_bytes q)" now "wd_row w"] adv by (cases adv) simp_all
      then have "w' = w" "pc' = SThrew DatabaseDown \<or> pc' = SReread cursor"
        using step SAdvance False adv by (auto simp: stream_step_def Let_def set_row_def split: if_splits)
      then show ?thesis using sp by (intro idle) (auto simp: stream_ok_def)
    qed
  next
    case (SReread cursor)
    have "w' = w" using step SReread by (simp add: stream_step_def Let_def)
    moreover have "stream_ok env lg sz m A (wd_store w) q pc'"
      using step SReread sp row by (auto simp: stream_step_def Let_def stream_ok_def liveState_def split: if_splits)
    ultimately show ?thesis by (rule idle)
  next
    case (SDone x)
    then show ?thesis using step q by (intro idle) (auto simp: stream_step_def Let_def)
  next
    case (SThrew x)
    then show ?thesis using step q by (intro idle) (auto simp: stream_step_def Let_def)
  qed
qed

section \<open>Closing keeps the invariant\<close>

lemma stored_piece:
  assumes su: "ingest_setup env lg" and h: "honest_chunks env lg sz m o'"
    and g: "s3_get (ie_store env) o' (chunkKey (ie_runId env) (boundary lg sz i)) = Some v"
  shows "v = piece lg sz (boundary lg sz i) \<and> v \<noteq> [] \<and> (\<exists>j\<le>m. boundary lg sz j = boundary lg sz i)"
proof -
  obtain j where j: "j \<le> m" "chunkKey (ie_runId env) (boundary lg sz i) = chunkKey (ie_runId env) (boundary lg sz j)"
    "v = piece lg sz (boundary lg sz j)" "v \<noteq> []"
    using h g chunkKey_prefix unfolding honest_chunks_def by blast
  have "boundary lg sz i = boundary lg sz j" by (rule chunkKey_inj [OF j(2)]) (rule setup_laws(4) [OF su])+
  then show ?thesis using j by auto
qed

text \<open>What a close finds under the prefix: the accepted chunks, and perhaps the one being written.\<close>

lemma list_ok:
  assumes su: "ingest_setup env lg" and w: "world_ok env lg sz m A N C w" and A
  shows "\<exists>n. m \<le> n \<and> n \<le> Suc m \<and> whole_pieces lg sz n \<and>
    listChunkKeys (ie_store env) (wd_store w) (ie_runId env) = Some (chunk_keys (ie_runId env) lg sz n) \<and>
    holds_chunks env lg sz n (wd_store w)"
proof -
  have h: "honest_chunks env lg sz m (wd_store w)" "holds_chunks env lg sz m (wd_store w)" "whole_pieces lg sz m"
    using w \<open>A\<close> by (auto simp: world_ok_def)
  let ?get = "s3_get (ie_store env) (wd_store w)" and ?K = "\<lambda>j. chunkKey (ie_runId env) (boundary lg sz j)"
  define n where "n = (if ?get (?K m) = None then m else Suc m)"
  have n: "m \<le> n" "n \<le> Suc m" by (simp_all add: n_def)
  have holds: "holds_chunks env lg sz n (wd_store w)" and whole: "whole_pieces lg sz n"
    using h stored_piece [OF su h(1), of m] by (auto simp: n_def holds_chunks_def whole_pieces_def less_Suc_eq)
  have laws: "store_laws (ie_store env)" using su by (simp add: ingest_setup_def)
  have "{k. ?get k \<noteq> None \<and> js_starts_with k (chunkPrefix (ie_runId env))} = set (chunk_keys (ie_runId env) lg sz n)" (is "?L = ?R")
  proof (intro equalityI subsetI)
    fix k assume "k \<in> ?L"
    then obtain j where j: "j \<le> m" "k = ?K j" "?get (?K j) \<noteq> None" using h(1) unfolding honest_chunks_def by blast
    have "j < n" using j by (cases "j = m") (auto simp: n_def)
    then show "k \<in> ?R" using j by (simp add: chunk_keys_def)
  next
    fix k assume "k \<in> ?R"
    then show "k \<in> ?L" using holds chunkKey_prefix by (auto simp: chunk_keys_def holds_chunks_def)
  qed
  moreover obtain ks where ks: "blob_list (ie_store env) (wd_store w) (chunkPrefix (ie_runId env)) = Some ks" "distinct ks"
    "set ks = {k. ?get k \<noteq> None \<and> js_starts_with k (chunkPrefix (ie_runId env))}"
    using blob_list_complete [OF laws chunkPrefix_nonempty] by metis
  ultimately have "set ks = set (chunk_keys (ie_runId env) lg sz n)" by simp
  from js_sort_units [OF ks(2) this chunk_keys_sorted [OF whole setup_laws(4) [OF su]]]
  have "listChunkKeys (ie_store env) (wd_store w) (ie_runId env) = Some (chunk_keys (ie_runId env) lg sz n)"
    by (simp only: listChunkKeys_def ks(1) option.map)
  then show ?thesis using n holds whole by blast
qed

lemma pieces_read:
  assumes "read_parts lg sz parts" and "None \<notin> set parts"
  shows "map the parts = map (\<lambda>j. piece lg sz (boundary lg sz j)) [0..<length parts]"
proof (rule nth_equalityI)
  fix i assume "i < length (map the parts)"
  then have i: "i < length parts" by simp
  then have "parts ! i \<noteq> None" using assms(2) nth_mem by metis
  then show "map the parts ! i = map (\<lambda>j. piece lg sz (boundary lg sz j)) [0..<length parts] ! i"
    using assms(1) i by (auto simp: read_parts_def)
qed simp

lemma after_gets_all:
  assumes su: "ingest_setup env lg" and parts: "map the parts = map (\<lambda>j. piece lg sz (boundary lg sz j)) [0..<n]" "None \<notin> set parts"
  shows "after_gets (ie_runId env) run (chunk_keys (ie_runId env) lg sz n) parts =
    CWrite run (chunk_keys (ie_runId env) lg sz n) (take (boundary lg sz n) lg)"
proof -
  have "interior_check (ie_runId env) 0 (zip (chunk_keys (ie_runId env) lg sz n) (map the parts)) = Inr ()"
    using interior_pieces [where i = 0 and n = n and lg = lg and sz = sz and runId = "ie_runId env"] setup_laws(4) [OF su, of sz n]
    unfolding parts(1) by (simp add: chunk_keys_def zip_map_map zip_same_conv_map comp_def)
  then show ?thesis using parts(2) by (simp add: after_gets_def parts(1) concat_pieces)
qed

lemma after_gets_ok:
  assumes su: "ingest_setup env lg" and parts: "read_parts lg sz parts" "length parts = n" "m \<le> n"
    and run: "rr_bundleKey run = bundle_key env" and A
  shows "close_ok env lg sz m A N C (after_gets (ie_runId env) run (chunk_keys (ie_runId env) lg sz n) parts) \<and>
    closing (after_gets (ie_runId env) run (chunk_keys (ie_runId env) lg sz n) parts)"
proof (cases "None \<in> set parts")
  case True
  then show ?thesis using assms by (auto simp: after_gets_def close_ok_def)
next
  case False
  have ps: "map the parts = map (\<lambda>j. piece lg sz (boundary lg sz j)) [0..<n]" using pieces_read [OF parts(1) False] parts(2) by simp
  have "after_gets (ie_runId env) run (chunk_keys (ie_runId env) lg sz n) parts =
      CWrite run (chunk_keys (ie_runId env) lg sz n) (take (boundary lg sz n) lg)"
    by (rule after_gets_all [OF su ps False])
  then show ?thesis using run \<open>A\<close> parts(3) chunkKey_prefix by (auto simp: close_ok_def chunk_pending_def chunk_keys_def)
qed

text \<open>The steps that change the world: the mark, the bundle, a deletion, the commit and the release.\<close>

lemma mark_ok:
  assumes "world_ok env lg sz m A N C w"
  shows "world_ok env lg sz m A N C (set_row (markIncomplete now (wd_row w)) w)"
    and "\<not> running (set_row (markIncomplete now (wd_row w)) w)"
proof -
  obtain row where row: "wd_row w = Some row" using assms by (auto simp: world_ok_def)
  show "world_ok env lg sz m A N C (set_row (markIncomplete now (wd_row w)) w)"
    using assms row by (simp add: world_ok_def markIncomplete_def)
  show "\<not> running (set_row (markIncomplete now (wd_row w)) w)"
    by (auto simp: markIncomplete_def running_def status_of_def row)
qed

lemma write_ok:
  assumes su: "ingest_setup env lg" and w: "world_ok env lg sz m A N C w" and A and "\<not> running w" and n: "m \<le> n"
    and w': "w' = w\<lparr>wd_store := s3_put (ie_store env) (wd_store w) (bundle_key env) (take (boundary lg sz n) lg)\<rparr>"
  shows "world_ok env lg sz m False (boundary lg sz n) C w'"
proof -
  have get: "s3_get (ie_store env) (wd_store w') k = (if k = bundle_key env then Some (take (boundary lg sz n) lg)
      else s3_get (ie_store env) (wd_store w) k)" for k by (simp add: w' setup_laws(1) [OF su])
  have "honest_chunks env lg sz m (wd_store w)" using w by (auto simp: world_ok_def)
  moreover have "\<not> js_starts_with (bundle_key env) (chunkPrefix (ie_runId env))" using bundle_key_apart by blast
  ultimately have "honest_chunks env lg sz m (wd_store w')" unfolding honest_chunks_def get by (auto split: if_splits)
  moreover have "wd_row w' = wd_row w" "wd_queue w' = wd_queue w" by (simp_all add: w')
  ultimately show ?thesis
    using w \<open>A\<close> \<open>\<not> running w\<close> get [of "bundle_key env"] cut_mono [OF n, of lg sz] cut_le [of lg sz n]
    by (auto simp: world_ok_def running_def status_of_def)
qed

lemma delete_ok:
  assumes su: "ingest_setup env lg" and w: "world_ok env lg sz m A N C w" and A: "\<not> A"
    and k: "js_starts_with k (chunkPrefix (ie_runId env))"
    and w': "w' = w\<lparr>wd_store := s3_delete (ie_store env) (wd_store w) k\<rparr>"
  shows "world_ok env lg sz m A N C w'"
proof -
  have get: "s3_get (ie_store env) (wd_store w') k' = (if k' = k then None else s3_get (ie_store env) (wd_store w) k')" for k'
    by (simp add: w' setup_laws(2) [OF su])
  have "honest_chunks env lg sz m (wd_store w)" using w by (auto simp: world_ok_def)
  then have "honest_chunks env lg sz m (wd_store w')" unfolding honest_chunks_def get by (auto split: if_splits)
  moreover have "wd_row w' = wd_row w" "wd_queue w' = wd_queue w" by (simp_all add: w')
  moreover have "s3_get (ie_store env) (wd_store w') (bundle_key env) = s3_get (ie_store env) (wd_store w) (bundle_key env)"
    using get [of "bundle_key env"] bundle_key_apart [OF k, of env] by simp
  ultimately show ?thesis using w A by (auto simp: world_ok_def)
qed

lemma commit_ok:
  assumes w: "world_ok env lg sz m A N C w" and A: "\<not> A" and "status_of w = Some StParsing"
  shows "world_ok env lg sz m A N True (set_row (finalizeLive (ie_sha256 env (take N lg)) N (wd_row w)) w)"
proof -
  obtain row where "wd_row w = Some row" "rr_status row = StParsing" using assms by (auto simp: status_of_def)
  then show ?thesis using w A by (simp add: world_ok_def finalizeLive_def)
qed

lemma release_ok:
  assumes w: "world_ok env lg sz m A N C w" and A
  shows "world_ok env lg sz m A N C (set_row (releaseClose (wd_row w)) w)"
proof -
  obtain row where "wd_row w = Some row" using w by (auto simp: world_ok_def)
  then show ?thesis using assms by (simp add: world_ok_def releaseClose_def)
qed

lemma claimed_ok:
  assumes w: "world_ok env lg sz m A N C w" and "claimForClose False now (wd_row w) = (row', True)"
  shows "world_ok env lg sz m A N C (set_row row' w) \<and> running w \<and> A \<and> status_of (set_row row' w) = Some StParsing"
  using assms by (auto simp: world_ok_def claimForClose_def running_def status_of_def split: if_splits)

lemma claim_same [simp]: "\<not> snd (claimForClose abandoned now row) \<Longrightarrow> fst (claimForClose abandoned now row) = row"
  by (auto simp: claimForClose_def split: option.splits if_splits)

lemma deletions_ok:
  "chunk_pending env ks \<Longrightarrow> rr_bundleKey run = bundle_key env \<Longrightarrow> close_ok env lg sz m False N C (deletions run ks) \<and>
     closing (deletions run ks) \<and> (\<forall>e. deletions run ks \<noteq> CRelease e)"
  by (simp add: deletions_def close_ok_def)

lemma set_remove_at: "set (remove_at i xs) \<subseteq> set xs"
  by (auto simp: remove_at_def dest: in_set_takeD in_set_dropD)

text \<open>The steps of a close that only read.\<close>

definition close_good :: "'o ingest_env \<Rightarrow> byte list \<Rightarrow> (nat \<Rightarrow> nat) \<Rightarrow> nat \<Rightarrow> bool \<Rightarrow> nat \<Rightarrow> bool \<Rightarrow> 'o world \<Rightarrow> close_pc \<Rightarrow> bool" where
  "close_good env lg sz m A N C w pc \<longleftrightarrow> close_ok env lg sz m A N C pc \<and>
     (closing pc \<longrightarrow> \<not> running w \<and> ((\<exists>e. pc = CRelease e) \<or> status_of w = Some StParsing))"

lemma close_good_release [simp]: "close_good env lg sz m A N C w (CRelease e) \<longleftrightarrow> A \<and> \<not> running w"
  by (simp add: close_good_def close_ok_def)

lemma close_good_over [simp]:
  "close_good env lg sz m A N C w (CThrew e)" "close_good env lg sz m A N C w (CReply run)" "close_good env lg sz m A N C w (CDone x)"
  by (simp_all add: close_good_def close_ok_def)

fun only_reads :: "close_pc \<Rightarrow> bool" where
  "only_reads (CClaim _) = False"
| "only_reads (CMark _) = False"
| "only_reads (CWrite _ _ _) = False"
| "only_reads (CDelete _ _) = False"
| "only_reads (CFinal _ _ _) = False"
| "only_reads (CEnqueue _) = False"
| "only_reads (CRelease _) = False"
| "only_reads _ = True"

lemma read_step_ok:
  assumes su: "ingest_setup env lg" and w: "world_ok env lg sz m A N C w"
    and pc: "close_good env lg sz m A N C w pc" "only_reads pc"
    and late: "\<And>run. pc = CHash run \<Longrightarrow> f = Fine"
    and step: "close_step env scope f i now (w, pc) = (w', pc')"
  shows "w' = w \<and> close_good env lg sz m A N C w pc' \<and> (closing pc' \<longrightarrow> closing pc)"
proof -
  obtain row where row: "wd_row w = Some row" "rr_bundleKey row = bundle_key env" "rr_streamOffset row = boundary lg sz m"
    using w by (auto simp: world_ok_def)
  note ok = pc(1) [unfolded close_good_def close_ok_def]
  show ?thesis
  proof (cases pc)
    case CFind
    then show ?thesis using step row
      by (auto simp: close_step_def Let_def close_good_def close_ok_def findById_def split: if_splits option.splits)
  next
    case (CState run)
    then show ?thesis using step row ok
      by (auto simp: close_step_def Let_def close_good_def close_ok_def liveState_def cursor_of_def split: if_splits)
  next
    case (CExists run)
    then have "A" "rr_bundleKey run = bundle_key env" using ok by simp_all
    then have "\<not> s3_head (ie_store env) (wd_store w) (rr_bundleKey run)"
      using w setup_laws(3) [OF su] by (auto simp: world_ok_def)
    then show ?thesis using step ok CExists by (auto simp: close_step_def Let_def close_good_def close_ok_def split: if_splits)
  next
    case (CList run already)
    then have l: "A" "rr_bundleKey run = bundle_key env" "0 < boundary lg sz m" "\<not> already" "\<not> running w"
      "status_of w = Some StParsing" using ok by simp_all
    obtain n where n: "m \<le> n" "whole_pieces lg sz n"
      "listChunkKeys (ie_store env) (wd_store w) (ie_runId env) = Some (chunk_keys (ie_runId env) lg sz n)"
      using list_ok [OF su w \<open>A\<close>] by blast
    have "0 < n" using n(1) l(3) by (cases n) auto
    then have "chunk_keys (ie_runId env) lg sz n \<noteq> []" "head_check (ie_runId env) 0 (chunk_keys (ie_runId env) lg sz n) = Inr ()"
      by (auto simp: chunk_keys_def head_check_def upt_conv_Cons offsetOf_chunkKey)
    then have "after_list (ie_runId env) run already (chunk_keys (ie_runId env) lg sz n) =
        CGets run (chunk_keys (ie_runId env) lg sz n) (replicate n None)" using l(4) by (simp add: after_list_def)
    then show ?thesis using step CList l n
      by (auto simp: close_step_def Let_def close_good_def close_ok_def read_parts_def split: if_splits)
  next
    case (CGets run keys parts)
    then obtain n where n: "m \<le> n" "keys = chunk_keys (ie_runId env) lg sz n" "length parts = n" "read_parts lg sz parts"
      and l: "A" "rr_bundleKey run = bundle_key env" "\<not> running w" "status_of w = Some StParsing" using ok by auto
    show ?thesis
    proof (cases "length keys \<le> i \<or> parts ! i \<noteq> None \<or> f \<noteq> Fine \<or> s3_get (ie_store env) (wd_store w) (keys ! i) = None")
      case True
      then show ?thesis using step CGets pc(1) l by (auto simp: close_step_def Let_def split: if_splits)
    next
      case False
      then obtain part where i: "i < n" "parts ! i = None" "f = Fine"
        "s3_get (ie_store env) (wd_store w) (chunkKey (ie_runId env) (boundary lg sz i)) = Some part" using n(2) by auto
      have "honest_chunks env lg sz m (wd_store w)" using w by (auto simp: world_ok_def)
      from stored_piece [OF su this i(4)] have p: "part = piece lg sz (boundary lg sz i)" by simp
      have "read_parts lg sz (parts[i := Some part])" using n(4) i(1) p n(3) by (auto simp: read_parts_def nth_list_update)
      from after_gets_ok [OF su this _ n(1) l(2) \<open>A\<close>, of N C] have
        "close_ok env lg sz m A N C (after_gets (ie_runId env) run keys (parts[i := Some part])) \<and>
          closing (after_gets (ie_runId env) run keys (parts[i := Some part]))" using n(2,3) by simp
      then show ?thesis using step CGets i n l by (auto simp: close_step_def Let_def close_good_def)
    qed
  next
    case (CHash run)
    then show ?thesis using step ok late [of run] w
      by (auto simp: close_step_def Let_def close_good_def close_ok_def world_ok_def split: option.splits)
  next
    case (CReply run)
    then show ?thesis using step by (auto simp: close_step_def Let_def split: if_splits)
  next
    case (CDone x)
    then show ?thesis using step pc(1) by (auto simp: close_step_def Let_def)
  next
    case (CThrew x)
    then show ?thesis using step pc(1) by (auto simp: close_step_def Let_def)
  qed (use pc(2) in simp_all)
qed

lemma keeps_row [simp]: "keeps_pieces env lg sz (wd_store w) (wd_store (set_row r w))"
  by simp

lemma queue_ok:
  "world_ok env lg sz m A N C w \<Longrightarrow> C \<Longrightarrow> world_ok env lg sz m A N C (queue_add runId w)"
  "status_of (queue_add runId w) = status_of w" "wd_store (queue_add runId w) = wd_store w"
  by (auto simp: world_ok_def queue_add_def status_of_def)

lemma running_status: "running w \<longleftrightarrow> status_of w = Some StRunning"
  by (simp add: running_def)

lemma close_step_ok:
  assumes su: "ingest_setup env lg" and w: "world_ok env lg sz m A N C w"
    and pc: "close_good env lg sz m A N C w pc"
    and late: "\<not> late_fault a (Close scope pc)"
    and step: "close_step env scope (ac_fault a) (ac_choice a) (ac_now a) (w, pc) = (w', pc')"
  shows "\<exists>A' N' C'. world_ok env lg sz m A' N' C' w' \<and> close_good env lg sz m A' N' C' w' pc' \<and>
    leaves env lg sz (m, A, N, C) (m, A', N', C') (w, closing pc) (w', closing pc')"
proof (cases "only_reads pc")
  case True
  have "pc = CHash run \<Longrightarrow> ac_fault a = Fine" for run using late by (simp add: late_fault_def)
  from read_step_ok [OF su w pc True this step] show ?thesis using w by (intro exI [of _ A] exI [of _ N] exI [of _ C]) simp
next
  case False
  note ok = pc [unfolded close_good_def close_ok_def]
  show ?thesis
  proof (cases pc)
    case (CClaim run)
    obtain row' claimed where cl: "claimForClose False (ac_now a) (wd_row w) = (row', claimed)" by (cases "claimForClose False (ac_now a) (wd_row w)")
    show ?thesis
    proof (cases "claimed \<and> ac_fault a \<noteq> NoEffect")
      case True
      then have c: "world_ok env lg sz m A N C (set_row row' w) \<and> running w \<and> A \<and> status_of (set_row row' w) = Some StParsing"
        using cl by (intro claimed_ok [OF w, of "ac_now a"]) simp
      have "w' = set_row row' w \<and> pc' = CThrew DatabaseDown \<or> w' = notify ClosedPing (set_row row' w) \<and> pc' = CState run"
        using step CClaim True cl by (auto simp: close_step_def Let_def split: if_splits)
      moreover have "status_of (notify ClosedPing (set_row row' w)) = Some StParsing" using c by (simp add: status_of_def notify_def)
      ultimately show ?thesis using c ok CClaim
        by (intro exI [of _ A] exI [of _ N] exI [of _ C]) (auto simp: leaves_def close_good_def close_ok_def running_status)
    next
      case False
      have "claimed \<or> row' = wd_row w" using claim_same [of False "ac_now a" "wd_row w"] cl by (cases claimed) simp_all
      then have "w' = w \<and> (pc' = CThrew DatabaseDown \<or> pc' = CDone CloseNotRunning)"
        using step CClaim False cl by (auto simp: close_step_def Let_def set_row_def split: if_splits)
      then show ?thesis using w by (intro exI [of _ A] exI [of _ N] exI [of _ C]) auto
    qed
  next
    case (CMark run)
    then have A and nr: "\<not> running w" using ok by simp_all
    have "w' = w \<and> pc' = CRelease DatabaseDown \<or> w' = set_row (markIncomplete (ac_now a) (wd_row w)) w \<and> (pc' = CReply run \<or> pc' = CRelease DatabaseDown)"
      using step CMark by (auto simp: close_step_def Let_def split: if_splits)
    then show ?thesis using w mark_ok [OF w, of "ac_now a"] \<open>A\<close> nr CMark
      by (intro exI [of _ A] exI [of _ N] exI [of _ C]) (auto simp: leaves_def)
  next
    case (CWrite run keys bytes)
    then obtain n where l: "A" "rr_bundleKey run = bundle_key env" "chunk_pending env keys" "m \<le> n" "bytes = take (boundary lg sz n) lg"
      "\<not> running w" "status_of w = Some StParsing" using ok by auto
    have "w' = w \<and> pc' = CRelease ObjectStoreDown \<or>
      w' = w\<lparr>wd_store := s3_put (ie_store env) (wd_store w) (bundle_key env) bytes\<rparr> \<and> pc' = deletions run keys"
      using step late CWrite l(2) by (auto simp: close_step_def Let_def late_fault_def split: if_splits) (metis fault.exhaust)+
    then show ?thesis
    proof
      assume "w' = w \<and> pc' = CRelease ObjectStoreDown"
      then show ?thesis using w l CWrite by (intro exI [of _ A] exI [of _ N] exI [of _ C]) auto
    next
      assume new: "w' = w\<lparr>wd_store := s3_put (ie_store env) (wd_store w) (bundle_key env) bytes\<rparr> \<and> pc' = deletions run keys"
      then have "world_ok env lg sz m False (boundary lg sz n) C w'" using l by (intro write_ok [OF su w]) simp_all
      moreover have "status_of w' = status_of w" using new by (simp add: status_of_def)
      ultimately show ?thesis using new deletions_ok [OF l(3,2), of lg sz m "boundary lg sz n" C] l CWrite
        by (intro exI [of _ False] exI [of _ "boundary lg sz n"] exI [of _ C])
          (auto simp: leaves_def close_good_def running_status)
    qed
  next
    case (CDelete run todo)
    then have l: "\<not> A" "rr_bundleKey run = bundle_key env" "chunk_pending env todo" "\<not> running w" "status_of w = Some StParsing" using ok by auto
    let ?i = "ac_choice a"
    show ?thesis
    proof (cases "length todo \<le> ?i")
      case True
      then have "w' = w \<and> pc' = pc" using step CDelete by (simp add: close_step_def Let_def)
      then show ?thesis using w pc by (intro exI [of _ A] exI [of _ N] exI [of _ C]) auto
    next
      case False
      then have pc': "pc' = deletions run (remove_at ?i todo)"
        and w': "w' = w \<or> w' = w\<lparr>wd_store := s3_delete (ie_store env) (wd_store w) (todo ! ?i)\<rparr>"
        using step CDelete by (auto simp: close_step_def Let_def split: if_splits)
      have k: "js_starts_with (todo ! ?i) (chunkPrefix (ie_runId env))" using l(3) False by (auto simp: chunk_pending_def)
      have "world_ok env lg sz m A N C w'" using w' w delete_ok [OF su w l(1) k] by blast
      moreover have "chunk_pending env (remove_at ?i todo)" using l(3) set_remove_at [of ?i todo] by (auto simp: chunk_pending_def)
      moreover have "status_of w' = status_of w" using w' by (auto simp: status_of_def)
      ultimately show ?thesis using pc' l CDelete deletions_ok [of env "remove_at ?i todo" run lg sz m N C]
        by (intro exI [of _ A] exI [of _ N] exI [of _ C]) (auto simp: leaves_def close_good_def running_status)
    qed
  next
    case (CFinal run sha n)
    then have l: "\<not> A" "sha = ie_sha256 env (take N lg)" "n = N" "status_of w = Some StParsing" using ok by auto
    have new: "w' = set_row (finalizeLive sha n (wd_row w)) w \<and> pc' = CEnqueue run"
      using step late CFinal by (auto simp: close_step_def Let_def late_fault_def)
    moreover have "world_ok env lg sz m A N True (set_row (finalizeLive sha n (wd_row w)) w)"
      using commit_ok [OF w l(1,4)] l by simp
    ultimately show ?thesis using CFinal
      by (intro exI [of _ A] exI [of _ N] exI [of _ True]) (auto simp: leaves_def close_good_def close_ok_def)
  next
    case (CEnqueue run)
    then have C using ok by simp
    have "(w' = w \<or> w' = queue_add (ie_runId env) w) \<and> (pc' = CReply run \<or> pc' = CThrew QueueDown)"
      using step CEnqueue by (auto simp: close_step_def Let_def split: if_splits)
    then show ?thesis using w queue_ok(1) [OF w \<open>C\<close>] queue_ok(2,3) [of "ie_runId env" w]
      by (intro exI [of _ A] exI [of _ N] exI [of _ C]) (auto simp: leaves_def)
  next
    case (CRelease e)
    then have A using ok by simp
    have "(w' = w \<or> w' = set_row (releaseClose (wd_row w)) w) \<and> pc' = CThrew e"
      using step CRelease by (auto simp: close_step_def Let_def split: if_splits)
    then show ?thesis using w release_ok [OF w \<open>A\<close>] CRelease
      by (intro exI [of _ A] exI [of _ N] exI [of _ C]) (auto simp: leaves_def)
  qed (use False in simp_all)
qed

section \<open>Any number of requests\<close>

definition request_good :: "'o ingest_env \<Rightarrow> byte list \<Rightarrow> (nat \<Rightarrow> nat) \<Rightarrow> nat \<times> bool \<times> nat \<times> bool \<Rightarrow> 'o world \<Rightarrow> request \<Rightarrow> bool" where
  "request_good env lg sz = (\<lambda>(m, A, N, C) w rq. case rq of
     Stream q pc \<Rightarrow> stream_ok env lg sz m A (wd_store w) q pc
   | Close scope pc \<Rightarrow> close_good env lg sz m A N C w pc)"

definition system_ok :: "'o ingest_env \<Rightarrow> byte list \<Rightarrow> (nat \<Rightarrow> nat) \<Rightarrow> nat \<times> bool \<times> nat \<times> bool \<Rightarrow> 'o ingest_system \<Rightarrow> bool" where
  "system_ok env lg sz = (\<lambda>(m, A, N, C) (w, rqs). world_ok env lg sz m A N C w \<and>
     (\<forall>i<length rqs. request_good env lg sz (m, A, N, C) w (rqs ! i)) \<and>
     (\<forall>i<length rqs. \<forall>j<length rqs. holds_claim (rqs ! i) \<longrightarrow> holds_claim (rqs ! j) \<longrightarrow> i = j))"

lemma request_step_ok:
  assumes su: "ingest_setup env lg" and w: "world_ok env lg sz m A N C w"
    and rq: "request_good env lg sz (m, A, N, C) w rq" and late: "\<not> late_fault a rq"
    and step: "request_step env a (w, rq) = (w', rq')"
  shows "\<exists>m' A' N' C'. world_ok env lg sz m' A' N' C' w' \<and> request_good env lg sz (m', A', N', C') w' rq' \<and>
    leaves env lg sz (m, A, N, C) (m', A', N', C') (w, holds_claim rq) (w', holds_claim rq')"
proof (cases rq)
  case (Stream q pc)
  obtain pc' where pc': "stream_step env q (ac_fault a) (ac_now a) (w, pc) = (w', pc')" "rq' = Stream q pc'"
    using step Stream by (cases "stream_step env q (ac_fault a) (ac_now a) (w, pc)") (simp add: request_step_def)
  have ok: "stream_ok env lg sz m A (wd_store w) q pc" using rq Stream by (simp add: request_good_def)
  show ?thesis using stream_step_ok [OF su w ok pc'(1)] Stream pc'(2) by (auto simp: request_good_def)
next
  case (Close scope pc)
  obtain pc' where pc': "close_step env scope (ac_fault a) (ac_choice a) (ac_now a) (w, pc) = (w', pc')" "rq' = Close scope pc'"
    using step Close by (cases "close_step env scope (ac_fault a) (ac_choice a) (ac_now a) (w, pc)") (simp add: request_step_def)
  have ok: "close_good env lg sz m A N C w pc" using rq Close by (simp add: request_good_def)
  show ?thesis using close_step_ok [OF su w ok late [unfolded Close] pc'(1)] Close pc'(2) by (auto simp: request_good_def)
qed

lemma boundary_small: "ingest_setup env lg \<Longrightarrow> at_boundary lg sz m q \<Longrightarrow> sq_offset q < 2 ^ 53"
  using setup_laws(4) by (auto simp: at_boundary_def)

lemma other_good:
  assumes su: "ingest_setup env lg" and l: "leaves env lg sz (m, A, N, C) (m', A', N', C') (w, c) (w', c')"
    and rq: "request_good env lg sz (m, A, N, C) w rq" and apart: "holds_claim rq \<Longrightarrow> \<not> c"
  shows "request_good env lg sz (m', A', N', C') w' rq"
proof (cases rq)
  case (Stream q pc)
  have le: "m \<le> m'" and A: "A' \<longrightarrow> A" "A' \<longrightarrow> keeps_pieces env lg sz (wd_store w) (wd_store w')" using l by (auto simp: leaves_def)
  have at: "at_boundary lg sz m q \<Longrightarrow> at_boundary lg sz m' q" using le by (auto simp: at_boundary_def intro: order_trans)
  have mono: "boundary lg sz m \<le> boundary lg sz m'" by (rule cut_mono [OF le])
  have "stream_ok env lg sz m A (wd_store w) q pc" using rq Stream by (simp add: request_good_def)
  then have "stream_ok env lg sz m' A' (wd_store w') q pc"
    using at mono A boundary_small [OF su]
    by (cases pc) (auto simp: stream_ok_def keeps_pieces_def split: stream_outcome.splits)
  then show ?thesis using Stream by (simp add: request_good_def)
next
  case (Close scope pc)
  have good: "close_good env lg sz m A N C w pc" using rq Close by (simp add: request_good_def)
  show ?thesis
  proof (cases "closing pc")
    case True
    then have "\<not> c" "\<not> running w" using apart good Close by (simp_all add: close_good_def)
    then have "(m', A', N') = (m, A, N)" "status_of w' = status_of w" using l by (auto simp: leaves_def)
    then show ?thesis using good True Close
      by (cases pc) (simp_all add: request_good_def close_good_def close_ok_def running_status)
  next
    case False
    have "C \<longrightarrow> C'" using l by (auto simp: leaves_def)
    then show ?thesis using good False Close
      by (cases pc) (simp_all add: request_good_def close_good_def close_ok_def)
  qed
qed

lemma system_step_ok:
  assumes su: "ingest_setup env lg" and s: "system_ok env lg sz (m, A, N, C) s"
    and late: "ac_request a < length (snd s) \<longrightarrow> \<not> late_fault a (snd s ! ac_request a)"
  shows "\<exists>m' A' N' C'. system_ok env lg sz (m', A', N', C') (system_step env a s)"
proof -
  obtain w rqs where ws: "s = (w, rqs)" by (cases s)
  let ?i = "ac_request a"
  show ?thesis
  proof (cases "?i < length rqs")
    case False
    then have "system_step env a s = s" by (simp add: system_step_def ws Let_def)
    then show ?thesis using s by metis
  next
    case True
    obtain w' rq' where st: "request_step env a (w, rqs ! ?i) = (w', rq')" by (cases "request_step env a (w, rqs ! ?i)")
    have step: "system_step env a s = (w', rqs[?i := rq'])" using True st by (simp add: system_step_def ws Let_def)
    have w: "world_ok env lg sz m A N C w" and good: "\<And>j. j < length rqs \<Longrightarrow> request_good env lg sz (m, A, N, C) w (rqs ! j)"
      and one: "\<And>i j. i < length rqs \<Longrightarrow> j < length rqs \<Longrightarrow> holds_claim (rqs ! i) \<Longrightarrow> holds_claim (rqs ! j) \<Longrightarrow> i = j"
      using s by (auto simp: system_ok_def ws)
    have nl: "\<not> late_fault a (rqs ! ?i)" using late True by (simp add: ws)
    obtain m' A' N' C' where new: "world_ok env lg sz m' A' N' C' w'" "request_good env lg sz (m', A', N', C') w' rq'"
      "leaves env lg sz (m, A, N, C) (m', A', N', C') (w, holds_claim (rqs ! ?i)) (w', holds_claim rq')"
      using request_step_ok [OF su w good [OF True] nl st] by blast
    have others: "request_good env lg sz (m', A', N', C') w' (rqs ! j)" if j: "j < length rqs" "j \<noteq> ?i" for j
    proof (rule other_good [OF su new(3) good [OF j(1)]])
      assume "holds_claim (rqs ! j)"
      then show "\<not> holds_claim (rqs ! ?i)" using one [OF j(1) True] j(2) by blast
    qed
    have clash: "\<not> holds_claim rq'" if j: "j < length rqs" "j \<noteq> ?i" "holds_claim (rqs ! j)" for j
    proof
      assume "holds_claim rq'"
      then have "holds_claim (rqs ! ?i) \<or> running w" using new(3) by (auto simp: leaves_def)
      moreover have "\<not> holds_claim (rqs ! ?i)" using one [OF j(1) True j(3)] j(2) by blast
      moreover have "\<not> running w" using good [OF j(1)] j(3)
        by (cases "rqs ! j") (auto simp: request_good_def close_good_def)
      ultimately show False by blast
    qed
    have "system_ok env lg sz (m', A', N', C') (w', rqs[?i := rq'])"
      unfolding system_ok_def prod.case
    proof (intro conjI allI impI)
      show "world_ok env lg sz m' A' N' C' w'" by (rule new(1))
    next
      fix j assume "j < length (rqs[?i := rq'])"
      then show "request_good env lg sz (m', A', N', C') w' (rqs[?i := rq'] ! j)"
        using others [of j] new(2) by (cases "j = ?i") (auto simp: nth_list_update)
    next
      fix i j assume "i < length (rqs[?i := rq'])" "j < length (rqs[?i := rq'])"
        "holds_claim (rqs[?i := rq'] ! i)" "holds_claim (rqs[?i := rq'] ! j)"
      then show "i = j" using one [of i j] clash [of i] clash [of j]
        by (cases "i = ?i"; cases "j = ?i") (auto simp: nth_list_update)
    qed
    then show ?thesis using step by auto
  qed
qed

lemma system_run_ok:
  assumes su: "ingest_setup env lg" and "system_ok env lg sz v s" and "spared env acts s"
  shows "\<exists>m A N C. system_ok env lg sz (m, A, N, C) (system_run env acts s)"
  using assms(2,3)
proof (induction acts arbitrary: s v)
  case Nil
  then show ?case by (cases v) (auto simp: system_run_def)
next
  case (Cons a acts)
  obtain m A N C where v: "v = (m, A, N, C)" by (cases v)
  obtain m' A' N' C' where "system_ok env lg sz (m', A', N', C') (system_step env a s)"
    using system_step_ok [OF su, of sz m A N C s a] Cons.prems by (auto simp: v)
  from Cons.IH [OF this] Cons.prems(2) show ?case by (simp add: system_run_def)
qed

section \<open>What the invariant says\<close>

text \<open>Requests that have not begun, and a bucket that holds nothing of the run.\<close>

definition arrives :: "byte list \<Rightarrow> (nat \<Rightarrow> nat) \<Rightarrow> request \<Rightarrow> bool" where
  "arrives lg sz rq \<longleftrightarrow> (case rq of Stream q pc \<Rightarrow> pc = SFind \<and> sends_piece lg sz q | Close scope pc \<Rightarrow> pc = CFind)"

definition nothing_stored :: "'o ingest_env \<Rightarrow> 'o \<Rightarrow> bool" where
  "nothing_stored env o' \<longleftrightarrow> blob_list (ie_store env) o' (chunkPrefix (ie_runId env)) = Some [] \<and>
     s3_get (ie_store env) o' (bundle_key env) = None"

lemma opened_ok:
  assumes su: "ingest_setup env lg" and "list_all (arrives lg sz) rqs" and "nothing_stored env o'"
  shows "system_ok env lg sz (0, True, 0, False) (opened env org project o', rqs)"
proof -
  have empty: "s3_get (ie_store env) o' k = None" if k: "js_starts_with k (chunkPrefix (ie_runId env))" for k
    using blob_list_complete [of "ie_store env" "chunkPrefix (ie_runId env)" o'] assms(3) su k
    by (auto simp: nothing_stored_def ingest_setup_def)
  have "world_ok env lg sz 0 True 0 False (opened env org project o')"
    using assms(3) empty by (auto simp: world_ok_def opened_def createLive_def bundle_key_def whole_pieces_def
        honest_chunks_def holds_chunks_def nothing_stored_def)
  moreover have "request_good env lg sz (0, True, 0, False) (opened env org project o') (rqs ! i) \<and> \<not> holds_claim (rqs ! i)"
    if i: "i < length rqs" for i
    using assms(2) i by (cases "rqs ! i")
      (auto simp: list_all_length arrives_def request_good_def stream_ok_def close_good_def close_ok_def dest!: spec [of _ i])
  ultimately show ?thesis by (auto simp: system_ok_def)
qed

lemma get_all_map: "(\<And>x. x \<in> set xs \<Longrightarrow> g (k x) = Some (v x)) \<Longrightarrow> get_all g (map k xs) = Inr (map v xs)" for xs :: "nat list"
  by (induction xs) simp_all

lemma get_all_holds: "holds_chunks env lg sz n o' \<Longrightarrow>
    get_all (s3_get (ie_store env) o') (chunk_keys (ie_runId env) lg sz n) = Inr (map (\<lambda>j. piece lg sz (boundary lg sz j)) [0..<n])"
  unfolding chunk_keys_def by (intro get_all_map) (simp add: holds_chunks_def)

lemma filter_le_upt: "j \<le> n \<Longrightarrow> filter (\<lambda>i. j \<le> i) [0..<n] = [j..<n]"
proof (induction n)
  case (Suc n)
  then show ?case by (cases "j = Suc n") (auto simp: filter_empty_conv)
qed simp

lemma assemble_ok:
  assumes su: "ingest_setup env lg" and w: "world_ok env lg sz m A N C w" and A
  shows "\<exists>n\<ge>boundary lg sz m. assemble (ie_store env) (wd_store w) (s3_get (ie_store env) (wd_store w)) (ie_runId env) =
    Some (Inr (take n lg))"
proof -
  obtain n where n: "m \<le> n" "whole_pieces lg sz n"
    "listChunkKeys (ie_store env) (wd_store w) (ie_runId env) = Some (chunk_keys (ie_runId env) lg sz n)"
    "holds_chunks env lg sz n (wd_store w)" using list_ok [OF su w \<open>A\<close>] by blast
  let ?keys = "chunk_keys (ie_runId env) lg sz n" and ?parts = "map (\<lambda>j. piece lg sz (boundary lg sz j)) [0..<n]"
  have i: "interior_check (ie_runId env) 0 (zip ?keys ?parts) = Inr ()"
    using interior_pieces [where i = 0 and n = n and lg = lg and sz = sz and runId = "ie_runId env"] setup_laws(4) [OF su, of sz n]
    by (simp add: chunk_keys_def zip_map_map zip_same_conv_map comp_def)
  have "head_check (ie_runId env) 0 ?keys = Inr ()"
    by (cases "n = 0") (auto simp: chunk_keys_def head_check_def upt_conv_Cons offsetOf_chunkKey)
  then have "concatenateChecked (ie_runId env) ?keys 0 (s3_get (ie_store env) (wd_store w)) = Inr (take (boundary lg sz n) lg)"
    using i get_all_holds [OF n(4)] concat_pieces [of lg sz n]
    by (cases "n = 0") (simp_all add: concatenateChecked_def chunk_keys_def)
  then show ?thesis using n(3) cut_mono [OF n(1)] by (auto simp: assemble_def)
qed

text \<open>A read at one moment, from any boundary the fold has reached, brings all that was accepted.\<close>

lemma read_ok:
  assumes su: "ingest_setup env lg" and w: "world_ok env lg sz m A N C w" and A
  shows "\<exists>bytes. readFrom (ie_store env) (wd_store w) (s3_get (ie_store env) (wd_store w)) (ie_runId env) (boundary lg sz j) =
    Some (Inr bytes) \<and> boundary lg sz m \<le> boundary lg sz j + length bytes"
proof -
  obtain n where n: "m \<le> n" "whole_pieces lg sz n"
    "listChunkKeys (ie_store env) (wd_store w) (ie_runId env) = Some (chunk_keys (ie_runId env) lg sz n)"
    "holds_chunks env lg sz n (wd_store w)" using list_ok [OF su w \<open>A\<close>] by blast
  let ?K = "\<lambda>i. chunkKey (ie_runId env) (boundary lg sz i)" and ?g = "s3_get (ie_store env) (wd_store w)"
  have starts: "starts_from (boundary lg sz j) (?K i) \<longleftrightarrow> boundary lg sz j \<le> boundary lg sz i" for i
    using setup_laws(4) [OF su, of sz i] by (simp add: starts_from_def offsetOf_chunkKey)
  have read: "readFrom (ie_store env) (wd_store w) ?g (ie_runId env) (boundary lg sz j) =
      Some (concatenateChecked (ie_runId env) (map ?K (filter (\<lambda>i. boundary lg sz j \<le> boundary lg sz i) [0..<n])) (boundary lg sz j) ?g)"
    by (simp add: readFrom_def n(3) chunk_keys_def filter_map comp_def starts)
  show ?thesis
  proof (cases "j < n")
    case True
    have "boundary lg sz j \<le> boundary lg sz i \<longleftrightarrow> j \<le> i" if "i < n" for i
      using cut_mono [of j i lg sz] cut_strict [OF n(2), of i j] True by (cases "j \<le> i") auto
    then have "filter (\<lambda>i. boundary lg sz j \<le> boundary lg sz i) [0..<n] = filter (\<lambda>i. j \<le> i) [0..<n]" by (intro filter_cong) auto
    also have "\<dots> = [j..<n]" using True by (simp add: filter_le_upt)
    finally have keys: "filter (\<lambda>i. boundary lg sz j \<le> boundary lg sz i) [0..<n] = [j..<n]" .
    let ?parts = "map (\<lambda>i. piece lg sz (boundary lg sz i)) [j..<n]"
    have i: "interior_check (ie_runId env) (boundary lg sz j) (zip (map ?K [j..<n]) ?parts) = Inr ()"
      using interior_pieces [where i = j and n = n and lg = lg and sz = sz and runId = "ie_runId env"] setup_laws(4) [OF su, of sz n] True
      by (simp add: zip_map_map zip_same_conv_map comp_def)
    have parts: "get_all ?g (map ?K [j..<n]) = Inr ?parts" using n(4) by (intro get_all_map) (simp add: holds_chunks_def)
    have "list_all2 (\<lambda>k part. \<exists>off. offsetOf k = Some off \<and> off \<le> length lg \<and> part = piece lg sz off) (map ?K [j..<n]) ?parts"
      using setup_laws(4) [OF su] cut_le by (simp add: list_all2_map1 list_all2_map2 list_all2_same offsetOf_chunkKey)
    from interior_boundary [OF i this] have "boundary lg sz j + length (concat ?parts) = boundary lg sz n" using True by simp
    moreover have "head_check (ie_runId env) (boundary lg sz j) (map ?K [j..<n]) = Inr ()"
      using True setup_laws(4) [OF su, of sz j] by (simp add: head_check_def upt_conv_Cons offsetOf_chunkKey)
    ultimately show ?thesis using True i parts cut_mono [OF n(1), of lg sz] unfolding read keys by (simp add: concatenateChecked_def)
  next
    case False
    have "\<not> boundary lg sz j \<le> boundary lg sz i" if "i < n" for i
      using cut_mono [of n j lg sz] cut_strict [OF n(2) that] False by simp
    then have "filter (\<lambda>i. boundary lg sz j \<le> boundary lg sz i) [0..<n] = []" by (simp add: filter_empty_conv)
    moreover have "boundary lg sz m \<le> boundary lg sz j" using False n(1) by (intro cut_mono) simp
    ultimately show ?thesis unfolding read by (simp add: concatenateChecked_def)
  qed
qed

section \<open>A close that nothing disturbs\<close>

definition close_run :: "'o ingest_env \<Rightarrow> tenant_scope \<Rightarrow> int \<Rightarrow> nat list \<Rightarrow> 'o world \<times> close_pc \<Rightarrow> 'o world \<times> close_pc" where
  "close_run env scope now cs s = fold (\<lambda>c. close_step env scope Fine c now) cs s"

lemma close_run_Nil [simp]: "close_run env scope now [] s = s"
  and close_run_Cons [simp]: "close_run env scope now (c # cs) s = close_run env scope now cs (close_step env scope Fine c now s)"
  and close_run_append: "close_run env scope now (cs @ ds) s = close_run env scope now ds (close_run env scope now cs s)"
  by (simp_all add: close_run_def)

definition attempt :: "nat \<Rightarrow> int \<Rightarrow> nat list \<Rightarrow> action list" where
  "attempt i now cs = map (\<lambda>c. \<lparr>ac_request = i, ac_fault = Fine, ac_choice = c, ac_now = now\<rparr>) cs"

lemma attempt_run:
  "system_run env (attempt (length rqs) now cs) (w, rqs @ [Close scope pc]) =
     (let (w', pc') = close_run env scope now cs (w, pc) in (w', rqs @ [Close scope pc']))"
proof (induction cs arbitrary: w pc)
  case (Cons c cs)
  obtain w' pc' where "close_step env scope Fine c now (w, pc) = (w', pc')" by (cases "close_step env scope Fine c now (w, pc)")
  then show ?case using Cons [of w' pc']
    by (simp add: attempt_def system_run_def system_step_def request_step_def Let_def)
qed (simp add: attempt_def system_run_def)

lemma gets_run:
  assumes su: "ingest_setup env lg" and h: "holds_chunks env lg sz n (wd_store w)" and k: "k \<le> n"
  shows "close_run env scope now [k..<n] (w, after_gets (ie_runId env) run (chunk_keys (ie_runId env) lg sz n)
      (map (\<lambda>j. Some (piece lg sz (boundary lg sz j))) [0..<k] @ replicate (n - k) None)) =
    (w, CWrite run (chunk_keys (ie_runId env) lg sz n) (take (boundary lg sz n) lg))"
  using k
proof (induction "n - k" arbitrary: k)
  case 0
  then have "k = n" by simp
  moreover have "after_gets (ie_runId env) run (chunk_keys (ie_runId env) lg sz n) (map (\<lambda>j. Some (piece lg sz (boundary lg sz j))) [0..<n]) =
      CWrite run (chunk_keys (ie_runId env) lg sz n) (take (boundary lg sz n) lg)"
    by (rule after_gets_all [OF su]) auto
  ultimately show ?case by simp
next
  case (Suc d)
  then have k: "k < n" by simp
  let ?parts = "\<lambda>k. map (\<lambda>j. Some (piece lg sz (boundary lg sz j))) [0..<k] @ replicate (n - k) None"
  have e: "?parts k = map (\<lambda>j. Some (piece lg sz (boundary lg sz j))) [0..<k] @ None # replicate (n - Suc k) None"
    using k by (simp add: Suc_diff_Suc flip: replicate_Suc)
  have "(?parts k)[k := Some (piece lg sz (boundary lg sz k))] = ?parts (Suc k)" unfolding e by (simp add: list_update_append)
  moreover have "?parts k ! k = None" unfolding e by (simp add: nth_append)
  moreover have "s3_get (ie_store env) (wd_store w) (chunkKey (ie_runId env) (boundary lg sz k)) = Some (piece lg sz (boundary lg sz k))"
    using h k by (simp add: holds_chunks_def)
  moreover have "after_gets (ie_runId env) run (chunk_keys (ie_runId env) lg sz n) (?parts k) =
      CGets run (chunk_keys (ie_runId env) lg sz n) (?parts k)" unfolding e by (simp add: after_gets_def)
  ultimately have "close_step env scope Fine k now (w, after_gets (ie_runId env) run (chunk_keys (ie_runId env) lg sz n) (?parts k)) =
      (w, after_gets (ie_runId env) run (chunk_keys (ie_runId env) lg sz n) (?parts (Suc k)))"
    using k by (simp add: close_step_def Let_def)
  moreover have "close_run env scope now [Suc k..<n] (w, after_gets (ie_runId env) run (chunk_keys (ie_runId env) lg sz n) (?parts (Suc k))) =
      (w, CWrite run (chunk_keys (ie_runId env) lg sz n) (take (boundary lg sz n) lg))"
    using Suc k by (intro Suc.hyps(1)) simp_all
  ultimately show ?case using k by (simp add: upt_conv_Cons)
qed

lemma deletes_run:
  assumes su: "ingest_setup env lg" and "chunk_pending env todo"
  shows "\<exists>o'. close_run env scope now (replicate (length todo) 0) (w, deletions run todo) = (w\<lparr>wd_store := o'\<rparr>, CHash run) \<and>
    s3_get (ie_store env) o' (bundle_key env) = s3_get (ie_store env) (wd_store w) (bundle_key env)"
  using assms(2)
proof (induction todo arbitrary: w)
  case Nil
  then show ?case by (intro exI [of _ "wd_store w"]) (simp add: deletions_def)
next
  case (Cons k ks)
  let ?w = "w\<lparr>wd_store := s3_delete (ie_store env) (wd_store w) k\<rparr>"
  have step: "close_step env scope Fine 0 now (w, deletions run (k # ks)) = (?w, deletions run ks)"
    by (simp add: deletions_def close_step_def Let_def remove_at_def)
  have "k \<noteq> bundle_key env" using Cons.prems bundle_key_apart by (auto simp: chunk_pending_def)
  then have "s3_get (ie_store env) (wd_store ?w) (bundle_key env) = s3_get (ie_store env) (wd_store w) (bundle_key env)"
    by (simp add: setup_laws(2) [OF su])
  moreover obtain o' where "close_run env scope now (replicate (length ks) 0) (?w, deletions run ks) = (?w\<lparr>wd_store := o'\<rparr>, CHash run)"
    "s3_get (ie_store env) o' (bundle_key env) = s3_get (ie_store env) (wd_store ?w) (bundle_key env)"
    using Cons.IH [of ?w] Cons.prems by (auto simp: chunk_pending_def)
  ultimately show ?case using step by (intro exI [of _ o']) simp
qed

lemma close_alone:
  assumes su: "ingest_setup env lg" and w: "world_ok env lg sz m A N C w" and row: "wd_row w = Some row"
    and live: "rr_status row = StRunning" "0 < rr_streamOffset row" "findById scope (Some row) \<noteq> None"
  shows "\<exists>cs w' r n. close_run env scope now cs (w, CFind) = (w', CDone (Closed r)) \<and> wd_row w' = Some r \<and>
    ie_runId env \<in> set (wd_queue w') \<and> rr_streamOffset r = rr_streamOffset row \<and> rr_streamOffset row \<le> n \<and> n \<le> length lg \<and>
    s3_get (ie_store env) (wd_store w') (rr_bundleKey r) = Some (take n lg) \<and> rr_bundleBytes r = n \<and>
    rr_bundleSha256 r = ie_sha256 env (take n lg)"
proof -
  have A: A and key: "rr_bundleKey row = bundle_key env" and off: "rr_streamOffset row = boundary lg sz m"
    using w row live(1) by (auto simp: world_ok_def)
  define row1 where "row1 = row\<lparr>rr_status := StParsing, rr_parsingStartedAt := Some now\<rparr>"
  define w1 where "w1 = notify ClosedPing (set_row (Some row1) w)"
  have claim: "claimForClose False now (wd_row w) = (Some row1, True)"
    by (simp add: claimForClose_def row live(1) row1_def)
  have w1: "world_ok env lg sz m A N C w1" using claimed_ok [OF w claim] unfolding w1_def world_ok_notify by blast
  have row1: "wd_row w1 = Some row1" by (simp add: w1_def notify_def)
  obtain n where n: "m \<le> n" "whole_pieces lg sz n"
    "listChunkKeys (ie_store env) (wd_store w1) (ie_runId env) = Some (chunk_keys (ie_runId env) lg sz n)"
    "holds_chunks env lg sz n (wd_store w1)" using list_ok [OF su w1 A] by blast
  let ?keys = "chunk_keys (ie_runId env) lg sz n" and ?B = "take (boundary lg sz n) lg"
  have n0: "0 < n" using n(1) live(2) off by (cases n) auto
  have head: "?keys \<noteq> []" "head_check (ie_runId env) 0 ?keys = Inr ()"
    using n0 by (auto simp: chunk_keys_def head_check_def upt_conv_Cons offsetOf_chunkKey)
  have none: "\<not> s3_head (ie_store env) (wd_store w1) (bundle_key env)"
    using w1 A setup_laws(3) [OF su] by (auto simp: world_ok_def)
  have found: "findById scope (wd_row w) = Some row" using live(3) by (auto simp: row findById_def split: if_splits)
  have "after_list (ie_runId env) row False ?keys = after_gets (ie_runId env) row ?keys (replicate n None)"
    using head n0 by (simp add: after_list_def after_gets_def)
  then have c5: "close_step env scope Fine 0 now (w1, CList row False) = (w1, after_gets (ie_runId env) row ?keys (replicate n None))"
    by (simp add: close_step_def Let_def n(3))
  have c1: "close_step env scope Fine 0 now (w, CFind) = (w, CClaim row)" by (simp add: close_step_def found)
  have c2: "close_step env scope Fine 0 now (w, CClaim row) = (w1, CState row)" by (simp add: close_step_def claim w1_def)
  have "cursor_of (liveState (wd_row w1)) = rr_streamOffset row" by (simp add: row1 liveState_def cursor_of_def row1_def)
  then have c3: "close_step env scope Fine 0 now (w1, CState row) = (w1, CExists row)" using live(2) by (simp add: close_step_def)
  have c4: "close_step env scope Fine 0 now (w1, CExists row) = (w1, CList row False)" using none by (simp add: close_step_def key)
  have s1: "close_run env scope now [0, 0, 0, 0, 0] (w, CFind) = (w1, after_gets (ie_runId env) row ?keys (replicate n None))"
    by (simp only: close_run_Cons close_run_Nil c1 c2 c3 c4 c5)
  have s2: "close_run env scope now [0..<n] (w1, after_gets (ie_runId env) row ?keys (replicate n None)) = (w1, CWrite row ?keys ?B)"
    using gets_run [OF su n(4), of 0 scope now row] by simp
  define w2 where "w2 = w1\<lparr>wd_store := s3_put (ie_store env) (wd_store w1) (bundle_key env) ?B\<rparr>"
  have s3: "close_run env scope now [0] (w1, CWrite row ?keys ?B) = (w2, deletions row ?keys)"
    by (simp add: close_step_def Let_def key w2_def)
  have "chunk_pending env ?keys" using chunkKey_prefix by (auto simp: chunk_pending_def chunk_keys_def)
  from deletes_run [OF su this, of scope now w2 row] obtain o' where
    s4: "close_run env scope now (replicate n 0) (w2, deletions row ?keys) = (w2\<lparr>wd_store := o'\<rparr>, CHash row)"
    and o': "s3_get (ie_store env) o' (bundle_key env) = Some ?B" by (auto simp: w2_def setup_laws(1) [OF su])
  define r where "r = row1\<lparr>rr_bundleSha256 := ie_sha256 env ?B, rr_bundleBytes := boundary lg sz n\<rparr>"
  define w3 where "w3 = queue_add (ie_runId env) (set_row (Some r) (w2\<lparr>wd_store := o'\<rparr>))"
  have len: "length ?B = boundary lg sz n" using cut_le [of lg sz n] by simp
  have row3: "wd_row w3 = Some r" "wd_store w3 = o'" "ie_runId env \<in> set (wd_queue w3)"
    by (simp_all add: w3_def queue_add_def set_row_def)
  have "findById scope (Some r) = Some r" using live(3) by (auto simp: r_def row1_def findById_def split: if_splits option.splits)
  then have s5: "close_run env scope now [0, 0, 0, 0] (w2\<lparr>wd_store := o'\<rparr>, CHash row) = (w3, CDone (Closed r))"
    using o' row1 len row3(1) by (simp add: close_step_def Let_def key finalizeLive_def w2_def r_def row1_def w3_def)
  define cs where "cs = [0, 0, 0, 0, 0] @ [0..<n] @ [0] @ replicate n 0 @ [0, 0, 0, 0 :: nat]"
  have "close_run env scope now cs (w, CFind) = (w3, CDone (Closed r))" unfolding cs_def
    by (simp only: close_run_append s1 s2 s3 s4 s5)
  moreover have "rr_bundleKey r = bundle_key env" "rr_streamOffset r = rr_streamOffset row" by (simp_all add: r_def row1_def key)
  moreover have "rr_streamOffset row \<le> boundary lg sz n" using cut_mono [OF n(1)] off by simp
  moreover have "rr_bundleBytes r = boundary lg sz n" "rr_bundleSha256 r = ie_sha256 env ?B" by (simp_all add: r_def)
  moreover have "boundary lg sz n \<le> length lg" by (rule cut_le)
  ultimately show ?thesis using row3 o'
    by (intro exI [of _ cs] exI [of _ w3] exI [of _ r] exI [of _ "boundary lg sz n"]) simp
qed

end
