(* ===== verification/DecoderProperties.thy ===== *)
theory DecoderProperties
  imports LogDecode
begin

text \<open>
  What the Gatling decoder guarantees on a well-formed log, and two inputs on which it does not
  behave as its callers assume: one it never returns from and one the push parser waits on
  for ever.
\<close>

section \<open>A sample log\<close>

definition ascii :: "string \<Rightarrow> raw_string" where
  "ascii s = (map of_char s, 0)"

definition sample_header :: raw_header where
  "sample_header = \<lparr>hd_version = ascii ''3.15.1'', hd_class = ascii ''Sim'', hd_start = 1700000000000,
     hd_description = ascii '''', hd_scenarios = [ascii ''Scn''], hd_assertions = []\<rparr>"

definition sample_log :: raw_log where
  "sample_log = (sample_header,
     [RawRequest [Def 0 (ascii ''Grp'')] (Def 1 (ascii ''Home'')) 100 250 1 (Def 2 (ascii '''')),
      RawUser 0 1 5, RawError (Ref 1) 77, RawGroup [] 100 250 150 0])"

lemma sample_log_ok: "log_ok sample_log"
  by code_simp

section \<open>Properties\<close>

text \<open>
  C4: The pull parser is total on well-formed logs and reads every record of the log, in
  order: each record's strings are resolved through the cached dictionary, each time is the
  run's start plus the record's offset, and user records are numbered from 0.
\<close>

theorem parser_reads_every_record:
  assumes "log_ok L"
  shows "parseSimulationLog (enc_log L) = Some (log_val L (snd L), None)"
  using parse_prefix [of L "enc_log L" "[]"] assms whole_log [of L] by (auto simp: enc_log_def)

text \<open>
  C5: The push parser does not depend on how the feed is cut: for any chunks of any prefix of a
  well-formed log, it emits exactly the events of the whole records received, and
  \<open>consumed\<close> is the offset of the first byte of the record still incomplete.
\<close>

theorem feed_is_chunk_invariant:
  assumes "log_ok L" and "concat cs @ s = enc_log L"
  shows "\<exists>d. pushAll cs new_decoder = Some (Inr (events_of L (concat cs)), d) \<and>
    sd_consumed d = int (length (concat cs)) - int (length (pending L (concat cs)))"
  using fed_pushAll [of L "[]" cs s new_decoder] assms fed_new [of L]
  by (auto simp: fed_def events_of_def enc_header_def)

theorem parser_reads_every_record_witness:
  "parseSimulationLog (enc_log sample_log) = Some (log_val sample_log (snd sample_log), None)"
  by (rule parser_reads_every_record [OF sample_log_ok])

theorem feed_is_chunk_invariant_witness:
  "\<exists>d. pushAll (map (\<lambda>b. [b]) (enc_log sample_log)) new_decoder =
      Some (Inr (log_val sample_log (snd sample_log)), d) \<and>
    sd_consumed d = int (length (enc_log sample_log))"
  using feed_is_chunk_invariant [of sample_log "map (\<lambda>b. [b]) (enc_log sample_log)" "[]"]
    sample_log_ok by (simp add: whole_log)

text \<open>
  C27: Cutting a partial log whose header is complete gives a
  prefix of it that the pull parser reads to the end without an error, with exactly the events
  the push parser emitted for the same bytes; cutting again changes nothing.
\<close>

theorem truncation_keeps_whole_records:
  assumes "log_ok L" and "P @ s = enc_log L" and "length (enc_header (fst L)) \<le> length P"
  shows "\<exists>Q. truncateToWholeRecords P = Some (Inr Q) \<and> take (length Q) P = Q \<and>
    parseSimulationLog Q = Some (events_of L P, None) \<and> truncateToWholeRecords Q = Some (Inr Q)"
proof -
  note Q = whole_cut_whole [OF assms(2,3)]
  obtain s' where s': "whole_cut L P @ s' = enc_log L" using Q(1) by blast
  have n: "length (enc_header (fst L)) \<le> length (whole_cut L P)"
    by (simp add: whole_cut_enc [OF assms(2,3)])
  have "whole_cut L (whole_cut L P) = whole_cut L P"
    using Q(2) whole_cut_def [of L "whole_cut L P"] by simp
  moreover have "take (length (whole_cut L P)) P = whole_cut L P"
    by (simp add: whole_cut_def min_def)
  ultimately show ?thesis
    using truncate_cuts [OF assms(1,2)] truncate_cuts [OF assms(1) s'] parse_prefix [OF assms(1) s' n] Q(2,3)
    by auto
qed

theorem truncation_keeps_whole_records_witness:
  "\<exists>Q. truncateToWholeRecords (take 98 (enc_log sample_log)) = Some (Inr Q) \<and>
    take (length Q) (take 98 (enc_log sample_log)) = Q \<and>
    parseSimulationLog Q = Some (events_of sample_log (take 98 (enc_log sample_log)), None) \<and>
    truncateToWholeRecords Q = Some (Inr Q)"
proof (rule truncation_keeps_whole_records [OF sample_log_ok, where s = "drop 98 (enc_log sample_log)"])
  show "take 98 (enc_log sample_log) @ drop 98 (enc_log sample_log) = enc_log sample_log" by simp
  show "length (enc_header (fst sample_log)) \<le> length (take 98 (enc_log sample_log))" by code_simp
qed

text \<open>
  C25: The reader never holds more than the last chunk and one incomplete
  record (or the incomplete header), however much of the log has gone by.
\<close>

theorem feed_memory_is_bounded:
  assumes "log_ok L" and "concat (cs @ [c]) @ s = enc_log L"
    and "length (enc_header (fst L)) \<le> m" and "list_all (\<lambda>R. length (enc_record R) \<le> m) (snd L)"
  shows "\<exists>evs d. pushAll (cs @ [c]) new_decoder = Some (Inr evs, d) \<and>
    rd_buffered (sd_reader d) \<le> int (m + length c)"
proof -
  have cs: "concat cs @ (c @ s) = enc_log L" using assms(2) by simp
  obtain evs d where d: "pushAll cs new_decoder = Some (Inr evs, d)" "fed L (concat cs) d"
    using fed_pushAll [of L "[]" cs "c @ s" new_decoder] assms(1) cs fed_new [of L] by auto
  obtain evs' d' where d': "push c d = Some (Inr evs', d')" "rd_buf (sd_reader d') = pending L (concat cs) @ c"
    using fed_push [of L "concat cs" c s d] assms(1) cs d(2) by auto
  have "pushAll (cs @ [c]) new_decoder = Some (Inr (evs @ evs'), d')"
    using d(1) d'(1) by (rule pushAll_snoc)
  then show ?thesis
    using d'(2) pending_bound [OF cs assms(3,4)] by (simp add: rd_buffered_def)
qed

theorem feed_memory_is_bounded_witness:
  "\<exists>evs d. pushAll ([take 70 (enc_log sample_log)] @ [drop 70 (enc_log sample_log)]) new_decoder = Some (Inr evs, d) \<and>
    rd_buffered (sd_reader d) \<le> int (53 + length (drop 70 (enc_log sample_log)))"
proof (rule feed_memory_is_bounded [OF sample_log_ok, where s = "[]"])
  show "concat ([take 70 (enc_log sample_log)] @ [drop 70 (enc_log sample_log)]) @ [] = enc_log sample_log"
    by simp
  show "length (enc_header (fst sample_log)) \<le> 53" by code_simp
  show "list_all (\<lambda>R. length (enc_record R) \<le> 53) (snd sample_log)" by code_simp
qed

section \<open>Two malformed inputs\<close>

lemma parseRecords_endless:
  assumes "\<And>r. S r \<Longrightarrow> \<not> rd_eof r \<and> (\<exists>ev n' r'. readRecord h base n r = (Inr (ev, n), r') \<and> S r')"
    and "S r"
  shows "parseRecords h base n r = None"
proof -
  have "parseRecords h' base' n' r' = Some y \<Longrightarrow> \<not> (h' = h \<and> base' = base \<and> n' = n \<and> S r')"
    for h' base' n' r' y
  proof (rule parseRecords.raw_induct
      [where P = "\<lambda>h' base' n' r' y. \<not> (h' = h \<and> base' = base \<and> n' = n \<and> S r')"], goal_cases)
    case (1 f h' base' n' r' y)
    show ?case
    proof
      assume s: "h' = h \<and> base' = base \<and> n' = n \<and> S r'"
      then obtain ev r'' where "\<not> rd_eof r'" "readRecord h base n r' = (Inr (ev, n), r'')" "S r''"
        using assms(1) by blast
      with 1(3) s obtain z where "f h base n r'' = Some z"
        by (cases "f h base n r''") auto
      from 1(2) [OF this] \<open>S r''\<close> show False by simp
    qed
  qed simp
  then show ?thesis using assms(2) by (metis not_Some_eq)
qed

text \<open>A run header, then an error record whose message claims a length of -14.\<close>

definition endless_log :: "byte list" where
  "endless_log = enc_header sample_header @ [4] @ be 4 1 @ be 4 (- 14) @ be 4 0"

definition endless_reader :: "(int \<rightharpoonup> jstr) \<Rightarrow> reader" where
  "endless_reader k = \<lparr>rd_buf = endless_log, rd_at = 48, rd_base = 0, rd_cache = k\<rparr>"

lemma endless_record:
  "case readRecord h base n (endless_reader k) of
     (Inr (ev, m), r) \<Rightarrow> m = n \<and> rd_at r = 48 \<and> rd_base r = 0 \<and> rd_buf r = endless_log
   | (Inl e, r) \<Rightarrow> False"
  by code_simp

text \<open>
  C28: \<open>readString\<close> accepts a negative length and moves the position
  back by it, so a 13-byte error record whose message length is -14 leaves the reader where the
  record began: the parser yields events for ever and never returns.
\<close>

theorem negative_length_never_returns:
  "parseSimulationLog endless_log = None"
proof -
  let ?h = "header_val sample_header"
  have "reads Map.empty Map.empty readRunHeader (enc_header sample_header) ?h Map.empty"
    using sample_log_ok by (intro reads_header) (simp add: log_ok_def sample_log_def)
  from readsD [OF this, of "new_reader endless_log"] obtain k where
    k: "readRunHeader (new_reader endless_log) =
      (Inr ?h, moved (new_reader endless_log) (length (enc_header sample_header)) k)"
    by (auto simp: endless_log_def)
  have "length (enc_header sample_header) = 48" by code_simp
  then have r: "moved (new_reader endless_log) (length (enc_header sample_header)) k = endless_reader k"
    by (simp add: moved_def new_reader_def endless_reader_def)
  have "parseRecords ?h (rh_runStartEpochMs ?h) 0 (endless_reader k) = None"
  proof (rule parseRecords_endless [where S = "\<lambda>r. \<exists>k. r = endless_reader k"])
    fix r :: reader
    assume "\<exists>k. r = endless_reader k"
    then obtain k where r: "r = endless_reader k" by blast
    have "\<not> rd_eof (endless_reader k)"
      by code_simp
    moreover obtain ev r' where "readRecord ?h (rh_runStartEpochMs ?h) 0 r = (Inr (ev, 0), r')"
      "rd_at r' = 48 \<and> rd_base r' = 0 \<and> rd_buf r' = endless_log"
      using endless_record [where h = ?h and base = "rh_runStartEpochMs ?h" and n = 0 and k = k] r
      by (auto split: sum.splits prod.splits) (metis sum.exhaust old.prod.exhaust)
    moreover then have "r' = endless_reader (rd_cache r')"
      by (cases r') (simp add: endless_reader_def)
    ultimately show "\<not> rd_eof r \<and> (\<exists>ev n' r'.
        readRecord ?h (rh_runStartEpochMs ?h) 0 r = (Inr (ev, 0), r') \<and> (\<exists>k. r' = endless_reader k))"
      using r by blast
  qed blast
  then show ?thesis by (simp add: parseSimulationLog_def k r)
qed

section \<open>A truncated payload in a whole header\<close>

text \<open>The step throws \<open>e\<close> as soon as the bytes \<open>bs\<close> are there, whatever follows them.\<close>

definition throws :: "'a rd \<Rightarrow> byte list \<Rightarrow> decode_error \<Rightarrow> bool" where
  "throws m bs e \<longleftrightarrow> (\<forall>r t. rd_ok r \<longrightarrow> rd_rest r = bs @ t \<longrightarrow> rd_cache r = Map.empty \<longrightarrow>
     (\<exists>i. m r = (Inl e, r\<lparr>rd_at := i\<rparr>)))"

lemma throws_bind_left: "throws m bs e \<Longrightarrow> throws (rd_bind m f) (bs @ bs') e"
  unfolding throws_def append_assoc by (metis rd_bind_Inl)

lemma throws_bind_right:
  assumes m: "reads Map.empty Map.empty m bs x Map.empty" and f: "throws (f x) bs' e"
  shows "throws (rd_bind m f) (bs @ bs') e"
  unfolding throws_def
proof (intro allI impI)
  fix r t
  assume r: "rd_ok r" "rd_rest r = (bs @ bs') @ t" "rd_cache r = Map.empty"
  then have split: "rd_rest r = bs @ (bs' @ t)" by simp
  obtain k where k: "m r = (Inr x, moved r (length bs) k)" "k \<subseteq>\<^sub>m Map.empty"
    using readsD [OF m r(1) _ _ split] r(3) by auto
  have "k = Map.empty" using k(2) by (metis map_le_antisym map_le_empty)
  then have "rd_cache (moved r (length bs) k) = Map.empty" by simp
  with f moved_over [OF r(1) split, of k] obtain i where
    "f x (moved r (length bs) k) = (Inl e, (moved r (length bs) k)\<lparr>rd_at := i\<rparr>)"
    unfolding throws_def by blast
  then have "rd_bind m f r = (Inl e, (moved r (length bs) k)\<lparr>rd_at := i\<rparr>)"
    by (simp add: k(1))
  then show "\<exists>i. rd_bind m f r = (Inl e, r\<lparr>rd_at := i\<rparr>)"
    using r(3) \<open>k = Map.empty\<close> by (intro exI [of _ i], cases r) (simp add: moved_def)
qed

lemma throws_throw: "throws (rd_throw e) [] e"
  unfolding throws_def
proof (intro allI impI)
  fix r :: reader
  show "\<exists>i. rd_throw e r = (Inl e, r\<lparr>rd_at := i\<rparr>)"
    by (intro exI [of _ "rd_at r"]) (simp add: rd_throw_def)
qed

lemma throws_assertion:
  assumes "int (length p) < 2 ^ 31" and "parseAssertion p = Inl e"
  shows "throws readAssertion (enc_payload p) e"
proof -
  have len: "is_int32 (int (length p))" using assms(1) by (simp add: is_int32_def)
  have "reads Map.empty Map.empty (rd_repeat (length p) rd_readByte) (concat (map (\<lambda>b. [b]) p)) (map sint p) Map.empty"
    by (rule reads_repeat) (rule reads_byte)
  then have "reads Map.empty Map.empty (rd_repeat (length p) rd_readByte) p (map sint p) Map.empty" by simp
  then have "throws (rd_bind (rd_repeat (length p) rd_readByte) (\<lambda>codes.
      case parseAssertion (map word_of_int codes) of Inl e \<Rightarrow> rd_throw e | Inr a \<Rightarrow> rd_return a)) (p @ []) e"
    by (rule throws_bind_right) (simp add: assms(2) throws_throw)
  then show ?thesis
    unfolding readAssertion_def enc_payload_def
    by (intro throws_bind_right [OF reads_int [OF len]]) simp
qed

definition header_frame_ok :: "raw_header \<Rightarrow> bool" where
  "header_frame_ok H \<longleftrightarrow> header_ok (H\<lparr>hd_assertions := []\<rparr>) \<and> int (length (hd_assertions H)) < 2 ^ 31"

lemma throws_header:
  assumes H: "header_frame_ok H" and ps: "hd_assertions H = p # ps"
    and p: "int (length p) < 2 ^ 31" "parseAssertion p = Inl e"
  shows "throws readRunHeader (enc_header H) e"
proof -
  let ?E = "Map.empty :: int \<rightharpoonup> jstr"
  have byte0: "reads ?E ?E rd_readByte [0] 0 ?E" using reads_byte [of _ _ 0] by simp
  have scs: "reads ?E ?E (rd_repeat (length (hd_scenarios H)) rd_readString)
      (concat (map enc_string (hd_scenarios H))) (map dec_string (hd_scenarios H)) ?E"
    by (rule reads_repeat, rule reads_string)
      (use H in \<open>auto simp: header_frame_ok_def header_ok_def list_all_iff\<close>)
  have strings: "string_ok (hd_version H)" "string_ok (hd_class H)" "string_ok (hd_description H)"
    "is_int32 (int (length (hd_scenarios H)))" "is_int32 (int (length (hd_assertions H)))"
    using H by (simp_all add: header_frame_ok_def header_ok_def is_int32_def)
  have first: "throws (rd_repeat (length (hd_assertions H)) readAssertion)
      (enc_payload p @ concat (map enc_payload ps)) e"
    unfolding ps by simp (intro throws_bind_left throws_assertion p)
  have "throws readRunHeader ([0] @ enc_string (hd_version H) @ enc_string (hd_class H) @
     be 8 (hd_start H) @ enc_string (hd_description H) @
     be 4 (int (length (hd_scenarios H))) @ concat (map enc_string (hd_scenarios H)) @
     be 4 (int (length (hd_assertions H))) @ (enc_payload p @ concat (map enc_payload ps)) @ []) e"
    unfolding readRunHeader_def
    apply (rule throws_bind_right [OF byte0])
    apply (simp only: refl not_True_eq_False if_False)
    apply (rule throws_bind_right [OF reads_string [OF strings(1)]]
      throws_bind_right [OF reads_string [OF strings(2)]] throws_bind_right [OF reads_long]
      throws_bind_right [OF reads_string [OF strings(3)]])+
    apply (rule throws_bind_right [OF reads_int [OF strings(4)]], simp only: nat_int)
    apply (rule throws_bind_right [OF scs])
    apply (rule throws_bind_right [OF reads_int [OF strings(5)]], simp only: nat_int)
    by (rule throws_bind_left [OF first])
  then show ?thesis by (simp add: enc_header_def ps)
qed

lemma push_starved:
  assumes B: "throws readRunHeader B (Truncated x y z)"
    and d: "sd_header d = None" "sd_consumed d = 0"
      "sd_reader d = \<lparr>rd_buf = B', rd_at = 0, rd_base = 0, rd_cache = Map.empty\<rparr>"
    and split: "B' @ c = B @ t"
  shows "push c d = Some (Inr [], d\<lparr>sd_reader := \<lparr>rd_buf = B' @ c, rd_at = 0, rd_base = 0, rd_cache = Map.empty\<rparr>\<rparr>)"
proof -
  let ?r = "\<lparr>rd_buf = B' @ c, rd_at = 0, rd_base = 0, rd_cache = Map.empty\<rparr> :: reader"
  have app: "rd_append c 0 (sd_reader d) = ?r"
    by (simp add: d(3) rd_append_def Let_def)
  have "rd_ok ?r" "rd_rest ?r = B @ t" "rd_cache ?r = Map.empty"
    by (simp_all add: rd_ok_def rd_rest_def split)
  then obtain i where "readRunHeader ?r = (Inl (Truncated x y z), ?r\<lparr>rd_at := i\<rparr>)"
    using B unfolding throws_def by blast
  then show ?thesis
    using app by (simp add: push_def d Let_def rd_seek_def rd_pos_def)
qed

lemma pushAll_starved:
  assumes "throws readRunHeader B (Truncated x y z)" and "sd_header d = None" "sd_consumed d = 0"
    and "sd_reader d = \<lparr>rd_buf = B @ u, rd_at = 0, rd_base = 0, rd_cache = Map.empty\<rparr>"
  shows "\<exists>d'. pushAll cs d = Some (Inr [], d') \<and> sd_consumed d' = 0 \<and>
    rd_buf (sd_reader d') = B @ u @ concat cs"
  using assms(2-)
proof (induction cs arbitrary: d u)
  case (Cons c cs)
  have "push c d = Some (Inr [], d\<lparr>sd_reader := \<lparr>rd_buf = (B @ u) @ c, rd_at = 0, rd_base = 0, rd_cache = Map.empty\<rparr>\<rparr>)"
    using Cons.prems by (intro push_starved [OF assms(1), where t = "u @ c"]) simp_all
  moreover have "\<exists>d'. pushAll cs (d\<lparr>sd_reader := \<lparr>rd_buf = (B @ u) @ c, rd_at = 0, rd_base = 0, rd_cache = Map.empty\<rparr>\<rparr>) =
      Some (Inr [], d') \<and> sd_consumed d' = 0 \<and> rd_buf (sd_reader d') = B @ (u @ c) @ concat cs"
    using Cons.prems by (intro Cons.IH) simp_all
  ultimately show ?case by auto
qed simp

text \<open>
  C29: An assertion payload shorter than it claims throws
  \<open>TruncatedError\<close> out of its own reader. The header is whole, yet the push parser takes it for
  a header still arriving: it emits nothing for the rest of the feed, keeps every byte, and never
  reports the error that the pull parser reports at once.
\<close>

theorem truncated_payload_starves_the_feed:
  assumes "header_frame_ok H" and "hd_assertions H = p # ps"
    and "int (length p) < 2 ^ 31" and "parseAssertion p = Inl (Truncated x y z)"
  shows "\<exists>d. pushAll (enc_header H # cs) new_decoder = Some (Inr [], d) \<and> sd_consumed d = 0 \<and>
      rd_buf (sd_reader d) = enc_header H @ concat cs \<and>
      parseSimulationLog (enc_header H @ concat cs) = Some ([], Some (Truncated x y z))"
proof -
  note B = throws_header [OF assms]
  have "push (enc_header H) new_decoder = Some (Inr [], new_decoder\<lparr>sd_reader :=
      \<lparr>rd_buf = [] @ enc_header H, rd_at = 0, rd_base = 0, rd_cache = Map.empty\<rparr>\<rparr>)"
    by (rule push_starved [OF B, where t = "[]"]) (simp_all add: new_decoder_def new_reader_def)
  moreover have "\<exists>d'. pushAll cs (new_decoder\<lparr>sd_reader :=
      \<lparr>rd_buf = [] @ enc_header H, rd_at = 0, rd_base = 0, rd_cache = Map.empty\<rparr>\<rparr>) = Some (Inr [], d') \<and>
      sd_consumed d' = 0 \<and> rd_buf (sd_reader d') = enc_header H @ [] @ concat cs"
    by (rule pushAll_starved [OF B]) (simp_all add: new_decoder_def)
  moreover have "fst (readRunHeader (new_reader (enc_header H @ concat cs))) = Inl (Truncated x y z)"
    using B unfolding throws_def by (metis fst_conv new_reader_simps(1,2,3))
  ultimately show ?thesis
    by (auto simp: parseSimulationLog_def split: prod.splits)
qed

definition short_payload_header :: raw_header where
  "short_payload_header = sample_header\<lparr>hd_assertions := [[0, 1]]\<rparr>"

theorem truncated_payload_starves_the_feed_witness:
  "\<exists>d. pushAll (enc_header short_payload_header # [[1, 2, 3]]) new_decoder = Some (Inr [], d) \<and>
    sd_consumed d = 0 \<and> rd_buf (sd_reader d) = enc_header short_payload_header @ concat [[1, 2, 3]] \<and>
    parseSimulationLog (enc_header short_payload_header @ concat [[1, 2, 3]]) =
      Some ([], Some (Truncated 1 0 2))"
proof (rule truncated_payload_starves_the_feed)
  show "header_frame_ok short_payload_header" by code_simp
  show "hd_assertions short_payload_header = [0, 1] # []"
    by (simp add: short_payload_header_def)
  show "parseAssertion [0, 1] = Inl (Truncated 1 0 2)" by code_simp
qed simp

end
