(* ===== verification/LiveIngestProperties.thy ===== *)
theory LiveIngestProperties
  imports LiveIngestSafety DecoderProperties
begin

text \<open>
  What live ingest guarantees of the bytes it accepts, and the two schedules on which it breaks the
  guarantee: a close that fails between the bundle and its row, and two overlapping chunks of different
  sizes at one offset.
\<close>

section \<open>A bucket to evaluate on\<close>

text \<open>Objects in an association list, listed one key to the page, the key itself being the token.\<close>

definition alist_page :: "(jstr \<times> byte list) list \<Rightarrow> jstr \<Rightarrow> jstr option \<Rightarrow> list_page" where
  "alist_page o' p tok = (let ks = filter (\<lambda>k. k \<noteq> [] \<and> js_starts_with k p) (remdups (map fst o'));
     rest = (case tok of None \<Rightarrow> ks | Some t \<Rightarrow> tl (dropWhile (\<lambda>k. k \<noteq> t) ks)) in
     if length rest \<le> 1 then \<lparr>lp_Contents = rest, lp_IsTruncated = False, lp_NextContinuationToken = None\<rparr>
     else \<lparr>lp_Contents = [hd rest], lp_IsTruncated = True, lp_NextContinuationToken = Some (hd rest)\<rparr>)"

definition alist_store :: "(jstr \<times> byte list) list object_store" where
  "alist_store = \<lparr>s3_get = map_of, s3_head = (\<lambda>o' k. map_of o' k \<noteq> None), s3_put = (\<lambda>o' k v. AList.update k v o'),
     s3_delete = (\<lambda>o' k. AList.delete k o'), s3_list = alist_page\<rparr>"

lemma alist_serves:
  assumes ks: "ks = filter (\<lambda>k. k \<noteq> [] \<and> js_starts_with k p) (remdups (map fst o'))"
    and "ks = pre @ rest" and "case tok of None \<Rightarrow> pre = [] | Some t \<Rightarrow> \<exists>pre'. pre = pre' @ [t]"
  shows "serves alist_store o' p tok rest"
  using assms(2,3)
proof (induction rest arbitrary: pre tok)
  case Nil
  have d: "distinct ks" by (simp add: ks)
  have "(case tok of None \<Rightarrow> ks | Some t \<Rightarrow> tl (dropWhile (\<lambda>k. k \<noteq> t) ks)) = []"
    using Nil d by (auto simp: dropWhile_append split: option.splits)
  then show ?case
    by (intro serves.last_page [where next_tok = None]) (simp add: alist_store_def alist_page_def Let_def flip: ks)
next
  case (Cons k rest)
  have d: "distinct ks" by (simp add: ks)
  have r: "(case tok of None \<Rightarrow> ks | Some t \<Rightarrow> tl (dropWhile (\<lambda>k. k \<noteq> t) ks)) = k # rest"
  proof (cases tok)
    case None
    then show ?thesis using Cons.prems by simp
  next
    case (Some t)
    then obtain pre' where pre: "pre = pre' @ [t]" using Cons.prems(2) by auto
    have "dropWhile (\<lambda>k. k \<noteq> t) (pre' @ t # k # rest) = t # k # rest"
      using d Cons.prems(1) pre by (subst dropWhile_append2) auto
    then show ?thesis using Some Cons.prems(1) pre by simp
  qed
  show ?case
  proof (cases "rest = []")
    case True
    then show ?thesis using r
      by (intro serves.last_page [where next_tok = None]) (simp add: alist_store_def alist_page_def Let_def flip: ks)
  next
    case False
    have "serves alist_store o' p (Some k) rest" by (rule Cons.IH [of "pre @ [k]"]) (use Cons.prems in auto)
    moreover have "k \<in> set ks" using Cons.prems(1) by simp
    then have "k \<noteq> []" by (auto simp: ks)
    moreover have "s3_list alist_store o' p tok = \<lparr>lp_Contents = [k], lp_IsTruncated = True, lp_NextContinuationToken = Some k\<rparr>"
      using r False by (cases rest) (simp_all add: alist_store_def alist_page_def Let_def flip: ks)
    ultimately show ?thesis using serves.more_pages [of alist_store o' p tok "[k]" k rest] by simp
  qed
qed

lemma alist_store_laws: "store_laws alist_store"
  unfolding store_laws_def
proof (intro conjI allI)
  fix o' :: "(jstr \<times> byte list) list" and p
  let ?ks = "filter (\<lambda>k. k \<noteq> [] \<and> js_starts_with k p) (remdups (map fst o'))"
  have "serves alist_store o' p None ?ks" by (rule alist_serves [OF refl, where pre = "[]"]) simp_all
  moreover have "set ?ks = {k. k \<noteq> [] \<and> s3_get alist_store o' k \<noteq> None \<and> js_starts_with k p}"
    by (auto simp: alist_store_def map_of_eq_None_iff image_iff)
  ultimately show "\<exists>ks. serves alist_store o' p None ks \<and> distinct ks \<and>
      set ks = {k. k \<noteq> [] \<and> s3_get alist_store o' k \<noteq> None \<and> js_starts_with k p}" by (intro exI [of _ ?ks]) auto
qed (auto simp: alist_store_def update_conv' delete_conv')

definition demo_env :: "(jstr \<times> byte list) list ingest_env" where
  "demo_env = \<lparr>ie_store = alist_store, ie_sha256 = (\<lambda>bs. map ucast bs), ie_maxBundleBytes = 200, ie_runId = js ''r''\<rparr>"

lemma demo_env_simps: "ie_store demo_env = alist_store" "ie_runId demo_env = js ''r''"
  by (simp_all add: demo_env_def)

definition demo_scope :: tenant_scope where
  "demo_scope = \<lparr>ts_orgId = js ''o'', ts_projectId = Some (js ''p'')\<rparr>"

definition sending :: "nat \<Rightarrow> byte list \<Rightarrow> request" where
  "sending off bytes = Stream \<lparr>sq_scope = demo_scope, sq_offset = off, sq_bytes = bytes\<rparr> SFind"

definition closes :: request where
  "closes = Close demo_scope CFind"

definition go :: "nat \<Rightarrow> nat \<Rightarrow> action list" where
  "go i n = replicate n \<lparr>ac_request = i, ac_fault = Fine, ac_choice = 0, ac_now = 7\<rparr>"

definition fails :: "nat \<Rightarrow> action" where
  "fails i = \<lparr>ac_request = i, ac_fault = NoEffect, ac_choice = 0, ac_now = 7\<rparr>"

definition demo_run :: "request list \<Rightarrow> action list \<Rightarrow> (jstr \<times> byte list) list ingest_system" where
  "demo_run rqs acts = system_run demo_env acts (opened demo_env (js ''o'') (js ''p'') [], rqs)"


section \<open>Accepted bytes\<close>

lemma demo_setup: "ingest_setup demo_env [97, 98, 99, 100, 101]"
  by (simp add: ingest_setup_def demo_env_def alist_store_laws)

definition start_of :: "'o ingest_env \<Rightarrow> jstr \<Rightarrow> jstr \<Rightarrow> 'o \<Rightarrow> request list \<Rightarrow> 'o ingest_system" where
  "start_of env org project o' rqs = (opened env org project o', rqs)"

text \<open>
  C32: However the requests of a run interleave and whatever calls of theirs fail, short of a
  failure between the write of the bundle and the commit of the row: no answer acknowledges a byte past the
  cursor, the cursor never passes the log, a run that is running can be assembled to a prefix of the log with every
  acknowledged byte in it, and a run handed to the pipeline has a bundle that is such a prefix, with its own
  size and hash in the row.
\<close>

theorem accepted_bytes_survive:
  assumes "ingest_setup env lg" and "list_all (arrives lg sz) rqs" and "nothing_stored env o'"
    and "spared env acts (start_of env org project o' rqs)"
    and "system_run env acts (start_of env org project o' rqs) = (w, rqs')"
  shows "\<exists>row. wd_row w = Some row \<and> rr_streamOffset row \<le> length lg \<and>
    (\<forall>q n. Stream q (SDone (StreamAccepted n)) \<in> set rqs' \<longrightarrow> n \<le> rr_streamOffset row) \<and>
    (rr_status row = StRunning \<longrightarrow> (\<exists>n\<ge>rr_streamOffset row.
       assemble (ie_store env) (wd_store w) (s3_get (ie_store env) (wd_store w)) (ie_runId env) = Some (Inr (take n lg)))) \<and>
    (ie_runId env \<in> set (wd_queue w) \<longrightarrow> (\<exists>n\<ge>rr_streamOffset row. n \<le> length lg \<and>
       s3_get (ie_store env) (wd_store w) (rr_bundleKey row) = Some (take n lg) \<and>
       rr_bundleBytes row = n \<and> rr_bundleSha256 row = ie_sha256 env (take n lg)))"
proof -
  have "system_ok env lg sz (0, True, 0, False) (start_of env org project o' rqs)"
    unfolding start_of_def by (rule opened_ok [OF assms(1-3)])
  from system_run_ok [OF assms(1) this assms(4)] obtain m A N C where
    ok: "system_ok env lg sz (m, A, N, C) (w, rqs')" using assms(5) by auto
  then have w: "world_ok env lg sz m A N C w" by (simp add: system_ok_def)
  then obtain row where row: "wd_row w = Some row" "rr_streamOffset row = boundary lg sz m" by (auto simp: world_ok_def)
  have "n \<le> boundary lg sz m" if "Stream q (SDone (StreamAccepted n)) \<in> set rqs'" for q n
    using ok that by (auto simp: system_ok_def in_set_conv_nth request_good_def stream_ok_def dest!: spec)
  moreover have "rr_status row = StRunning \<Longrightarrow> A" using w row by (auto simp: world_ok_def)
  then have "rr_status row = StRunning \<Longrightarrow> \<exists>n\<ge>rr_streamOffset row.
      assemble (ie_store env) (wd_store w) (s3_get (ie_store env) (wd_store w)) (ie_runId env) = Some (Inr (take n lg))"
    using assemble_ok [OF assms(1) w] row(2) by simp
  moreover have "\<exists>n\<ge>rr_streamOffset row. n \<le> length lg \<and>
       s3_get (ie_store env) (wd_store w) (rr_bundleKey row) = Some (take n lg) \<and>
       rr_bundleBytes row = n \<and> rr_bundleSha256 row = ie_sha256 env (take n lg)" if "ie_runId env \<in> set (wd_queue w)"
  proof -
    have "C" "\<not> A" using w that by (auto simp: world_ok_def)
    then show ?thesis using w row by (intro exI [of _ N]) (simp add: world_ok_def)
  qed
  ultimately show ?thesis using row cut_le [of lg sz m] by simp
qed

text \<open>
  Three chunks, a close whose third read fails and which is released, and a second close: it hands the
  whole log on.
\<close>

definition sample_requests :: "request list" where
  "sample_requests = [sending 0 [97, 98], sending 2 [99, 100], closes, sending 4 [101], closes]"

definition sample_schedule :: "action list" where
  "sample_schedule = go 0 3 @ go 1 1 @ go 0 1 @ go 1 2 @ go 2 1 @ go 1 1 @ go 2 4 @ [fails 2] @ go 2 1 @ go 3 4 @ go 4 5 @
     attempt 4 7 [0, 1, 2, 0, 0, 0, 0, 0, 0, 0, 0]"

definition demo_start :: "request list \<Rightarrow> (jstr \<times> byte list) list ingest_system" where
  "demo_start rqs = start_of demo_env (js ''o'') (js ''p'') [] rqs"

lemma sample_hypotheses:
  "list_all (arrives [97, 98, 99, 100, 101] (\<lambda>_. 2)) sample_requests" "nothing_stored demo_env []"
  "spared demo_env sample_schedule (demo_start sample_requests)"
  by code_simp+

lemma sample_outcome:
  "let (w, rqs') = system_run demo_env sample_schedule (demo_start sample_requests) in
     wd_queue w = [js ''r''] \<and> map_option rr_streamOffset (wd_row w) = Some 5"
  by code_simp

theorem accepted_bytes_survive_witness:
  "let (w, rqs') = system_run demo_env sample_schedule (demo_start sample_requests) in
     \<exists>row. wd_row w = Some row \<and> rr_streamOffset row = 5 \<and>
       s3_get alist_store (wd_store w) (rr_bundleKey row) = Some [97, 98, 99, 100, 101] \<and> rr_bundleBytes row = 5"
proof -
  obtain w rqs' where run: "system_run demo_env sample_schedule (demo_start sample_requests) = (w, rqs')"
    by (cases "system_run demo_env sample_schedule (demo_start sample_requests)")
  have o: "wd_queue w = [js ''r'']" "map_option rr_streamOffset (wd_row w) = Some 5"
    using sample_outcome by (simp_all add: run)
  from accepted_bytes_survive [OF demo_setup sample_hypotheses(1,2) sample_hypotheses(3) [unfolded demo_start_def] run [unfolded demo_start_def]]
  obtain row where row: "wd_row w = Some row" "ie_runId demo_env \<in> set (wd_queue w) \<longrightarrow> (\<exists>n\<ge>rr_streamOffset row. n \<le> length [97, 98, 99, 100, 101 :: byte] \<and>
       s3_get (ie_store demo_env) (wd_store w) (rr_bundleKey row) = Some (take n [97, 98, 99, 100, 101]) \<and> rr_bundleBytes row = n)"
    by blast
  then show ?thesis using o by (auto simp: run demo_env_simps)
qed





section \<open>Where the guarantee ends\<close>

fun answer :: "request \<Rightarrow> stream_outcome option" where
  "answer (Stream q (SDone x)) = Some x"
| "answer _ = None"

fun closed_row :: "request \<Rightarrow> run_row option" where
  "closed_row (Close scope (CDone (Closed r))) = Some r"
| "closed_row _ = None"

text \<open>
  A close that has written the bundle and deleted the chunks fails to read the bundle
  back, and releases the run. The next chunk is accepted; the second close finds the bundle written, skips the assembly, deletes
  that chunk and hands the run on: two of the four acknowledged bytes are nowhere.
\<close>

lemma late_close_failure_loses_bytes:
  "let (w, rqs') = system_run demo_env (go 0 4 @ go 1 8 @ [fails 1] @ go 1 1 @ go 2 4 @ go 3 10)
       (demo_start [sending 0 [97, 98], closes, sending 2 [99, 100], closes]) in
     map answer rqs' = [Some (StreamAccepted 2), None, Some (StreamAccepted 4), None] \<and>
     rqs' ! 1 = Close demo_scope (CThrew ObjectStoreDown) \<and> closed_row (rqs' ! 3) = wd_row w \<and>
     wd_queue w = [js ''r''] \<and> map_option rr_streamOffset (wd_row w) = Some 4 \<and> map_option rr_bundleBytes (wd_row w) = Some 2 \<and>
     wd_store w = [(bundle_key demo_env, [97, 98])]"
  by code_simp

text \<open>
  A retry that carries more bytes than the slow first attempt reads the same cursor; its
  object replaces the one the first attempt has just been acknowledged for, and it is answered \<open>accepted\<close> too. The chunks
  overlap from then on: no read and no close of the run succeeds again.
\<close>

lemma overlapping_sizes_strand_the_run:
  "let (w, rqs') = system_run demo_env (go 0 3 @ go 1 2 @ go 0 1 @ go 1 3 @ go 2 4 @ go 3 5 @ attempt 3 7 [0, 1, 0])
       (demo_start [sending 0 [97, 98], sending 0 [97, 98, 99, 100], sending 2 [99, 100, 101], closes]) in
     map answer rqs' = [Some (StreamAccepted 2), Some (StreamAccepted 2), Some (StreamAccepted 5), None] \<and>
     rqs' ! 3 = Close demo_scope (CThrew (ChunksThrew (LiveChunkGapError (js ''r'') 4 (Some 2)))) \<and>
     map_option rr_status (wd_row w) = Some StRunning \<and>
     assemble alist_store (wd_store w) (s3_get alist_store (wd_store w)) (js ''r'') = Some (Inl (LiveChunkGapError (js ''r'') 4 (Some 2))) \<and>
     readFrom alist_store (wd_store w) (s3_get alist_store (wd_store w)) (js ''r'') 0 = Some (Inl (LiveChunkGapError (js ''r'') 4 (Some 2)))"
  by code_simp

text \<open>A chunk that is written before a close lists the bucket and refused after it is in the bundle all the same.\<close>

lemma refused_chunk_is_kept:
  "let (w, rqs') = system_run demo_env (go 0 4 @ go 1 3 @ go 2 5 @ attempt 2 7 [0, 1, 0, 0, 0, 0, 0, 0, 0] @ go 1 2)
       (demo_start [sending 0 [97, 98], sending 2 [99, 100], closes]) in
     map answer rqs' = [Some (StreamAccepted 2), Some (StreamRejected 2), None] \<and>
     map_option rr_streamOffset (wd_row w) = Some 2 \<and> map_option rr_bundleBytes (wd_row w) = Some 4"
  by code_simp

text \<open>An empty chunk at the cursor counts as progress: it renews the time the sweeper measures staleness from.\<close>

lemma empty_chunk_renews:
  assumes "wd_row w = Some row" "rr_status row = StRunning" "sq_offset q = rr_streamOffset row" "sq_bytes q = []"
  shows "snd (stream_step env q Fine now (w, SAdvance cursor)) = SDone (StreamAccepted (rr_streamOffset row)) \<and>
    wd_row (fst (stream_step env q Fine now (w, SAdvance cursor))) = Some (row\<lparr>rr_streamUpdatedAt := Some now\<rparr>)"
  using assms by (simp add: stream_step_def advanceOffset_def notify_def)

section \<open>The live fold\<close>
















end
