(* ===== verification/GatlingPlugin.thy ===== *)
theory GatlingPlugin
  imports LogDecode
begin

text \<open>
  \<open>packages/plugin-gatling/src/plugin.ts\<close>: which file of a bundle is the log, whether it is a
  supported Gatling log, and the parse with its structured errors. A bundle is its list of file
  names and two functions, \<open>head\<close> (the first 64 bytes of a file) and \<open>read\<close>, that the core
  supplies.
\<close>

definition simulation_log_name :: jstr where
  "simulation_log_name = js ''simulation.log''"

definition supportedMajors :: "jstr list" where
  "supportedMajors = [js ''3'']"

definition findSimulationLog :: "jstr list \<Rightarrow> jstr option" where
  "findSimulationLog files = List.find
     (\<lambda>f. f = simulation_log_name \<or> js_ends_with f (slash # simulation_log_name)) files"

definition majorOf :: "jstr \<Rightarrow> jstr" where
  "majorOf version = hd (js_split 0x2E version)"

datatype mismatch =
    NoLogInBundle
  | NotARunRecord jstr
  | UnreadableVersion jstr
  | UnsupportedMajor jstr

text \<open>\<open>DetectResult\<close>: the reason it does not match, or the tool version.\<close>

definition detect :: "jstr list \<Rightarrow> (jstr \<Rightarrow> byte list) \<Rightarrow> mismatch + jstr" where
  "detect files head = (case findSimulationLog files of
      None \<Rightarrow> Inl NoLogInBundle
    | Some path \<Rightarrow>
       (let buf = head path in
        if length buf < 5 \<or> sint (buf ! 0) \<noteq> 0 then Inl (NotARunRecord path)
        else let len = sint (word_of_int (be_uint (take 4 (drop 1 buf))) :: 32 word) in
          if len \<le> 0 \<or> int (length buf) < 5 + len then Inl (UnreadableVersion path)
          else let version = latin1 (js_subarray buf 5 (5 + len)) in
            if majorOf version \<in> set supportedMajors then Inr version
            else Inl (UnsupportedMajor version)))"

text \<open>
  The generator's run: the events it yields and the structured error it throws at last, if any.
  The header is read twice, once for the version and once by the parser.
\<close>

definition parse :: "jstr list \<Rightarrow> (jstr \<Rightarrow> byte list) \<Rightarrow> (canonical_event list \<times> ingest_code option) option" where
  "parse files read = (case findSimulationLog files of
      None \<Rightarrow> Some ([], Some LOG_NOT_FOUND)
    | Some path \<Rightarrow>
       (let buf = read path in
        case fst (readRunHeader (new_reader buf)) of
          Inl _ \<Rightarrow> Some ([], Some LOG_MALFORMED)
        | Inr h \<Rightarrow>
            if majorOf (rh_gatlingVersion h) \<notin> set supportedMajors then Some ([], Some LOG_BINARY_FORMAT)
            else map_option (\<lambda>(evs, err). (evs, map_option (\<lambda>_. LOG_MALFORMED) err))
              (parseSimulationLog buf)))"

section \<open>Which entry is the log\<close>

lemma findSimulationLog_Some:
  "findSimulationLog files = Some f \<Longrightarrow> f \<in> set files \<and> (f = simulation_log_name \<or>
     (\<exists>dir. f = dir @ slash # simulation_log_name))"
  by (auto simp: findSimulationLog_def find_Some_iff js_ends_with_iff intro: nth_mem)

lemma findSimulationLog_None:
  "findSimulationLog files = None \<longleftrightarrow> simulation_log_name \<notin> set files \<and>
     (\<forall>dir. dir @ slash # simulation_log_name \<notin> set files)"
  by (auto simp: findSimulationLog_def find_None_iff js_ends_with_iff)

section \<open>Detection and parse agree\<close>

lemma take_append_le: "length a \<le> n \<Longrightarrow> take n (a @ b) = a @ take (n - length a) b"
  by simp

lemma version_head:
  assumes "string_ok (hd_version H)" and "hd_version H = (bs, coder)" and "bs \<noteq> []" and "length bs \<le> n"
  shows "\<exists>t. take (5 + n) (enc_header H @ u) = [0] @ be 4 (int (length bs)) @ bs @ t"
proof -
  obtain v where "enc_header H @ u = ([0] @ be 4 (int (length bs)) @ bs) @ v"
    using assms by (simp add: enc_header_def)
  then show ?thesis
    using take_append_le [of "[0] @ be 4 (int (length bs)) @ bs" "5 + n" v] assms(4) by auto
qed

lemma detect_log:
  assumes "findSimulationLog files = Some path" and "head path = take 64 (enc_log L)"
    and "log_ok L" and "hd_version (fst L) = (bs, 0)" and "bs \<noteq> []" and "length bs \<le> 59"
  shows "detect files head = (if majorOf (latin1 bs) \<in> set supportedMajors
    then Inr (latin1 bs) else Inl (UnsupportedMajor (latin1 bs)))"
proof -
  have "string_ok (hd_version (fst L))" using assms(3) by (simp add: log_ok_def header_ok_def)
  from version_head [OF this assms(4,5,6), of "enc_records (snd L)"] obtain t
    where t: "head path = [0] @ be 4 (int (length bs)) @ bs @ t"
    using assms(2) by (auto simp: enc_log_def)
  have len: "sint (word_of_int (be_uint (be 4 (int (length bs)))) :: 32 word) = int (length bs)"
    by (rule decode_int32) (use assms(6) in \<open>simp add: is_int32_def\<close>)
  have sub: "js_subarray ([0] @ be 4 (int (length bs)) @ bs @ t) 5 (5 + int (length bs)) = bs"
    using js_subarray_here [of "\<lparr>rd_buf = [0] @ be 4 (int (length bs)) @ bs @ t, rd_at = 5, rd_base = 0,
      rd_cache = Map.empty\<rparr>" bs t] by (simp add: rd_ok_def rd_rest_def)
  show ?thesis
    using assms(1,5) by (simp add: detect_def t len [simplified] sub [simplified] Let_def)
qed

text \<open>
  For a well-formed log whose version string is single-byte and
  fits in the 64 bytes that detection reads, the bundle is detected as a Gatling bundle exactly
  when the parse yields the log's events, and with the version the parse puts in the meta event;
  otherwise the parse yields nothing and reports an unsupported format.
\<close>

lemma detection_agrees_with_parse:
  assumes "findSimulationLog files = Some path" and "log_ok L"
    and "head path = take 64 (enc_log L)" and "read path = enc_log L"
    and "hd_version (fst L) = (bs, 0)" and "bs \<noteq> []" and "length bs \<le> 59"
  shows "(case detect files head of
      Inr v \<Rightarrow> v = rh_gatlingVersion (header_val (fst L)) \<and> parse files read = Some (log_val L (snd L), None)
    | Inl m \<Rightarrow> m = UnsupportedMajor (rh_gatlingVersion (header_val (fst L))) \<and>
        parse files read = Some ([], Some LOG_BINARY_FORMAT))"
proof -
  have "reads Map.empty Map.empty readRunHeader (enc_header (fst L)) (header_val (fst L)) Map.empty"
    using assms(2) by (intro reads_header) (simp add: log_ok_def)
  then obtain k where "readRunHeader (new_reader (enc_log L)) =
      (Inr (header_val (fst L)), moved (new_reader (enc_log L)) (length (enc_header (fst L))) k)"
    by (rule readsD [where r = "new_reader (enc_log L)" and t = "enc_records (snd L)"])
      (simp_all add: enc_log_def)
  then have h: "fst (readRunHeader (new_reader (enc_log L))) = Inr (header_val (fst L))"
    by simp
  have v: "rh_gatlingVersion (header_val (fst L)) = latin1 bs"
    using assms(5,6) by (simp add: header_val_def)
  have "parseSimulationLog (enc_log L) = Some (log_val L (snd L), None)"
    using parse_prefix [of L "enc_log L" "[]"] assms(2) whole_log [of L] by (auto simp: enc_log_def)
  then show ?thesis
    using detect_log [of files path head L bs] assms by (simp add: parse_def Let_def h v)
qed

definition plugin_sample :: raw_log where
  "plugin_sample = (\<lparr>hd_version = (map of_char ''3.15.1'', 0), hd_class = (map of_char ''Sim'', 0),
     hd_start = 1700000000000, hd_description = ([], 0), hd_scenarios = [(map of_char ''Scn'', 0)],
     hd_assertions = []\<rparr>, [RawUser 0 1 5])"

lemma detection_agrees_with_parse_witness:
  "(case detect [js ''a/simulation.log''] (\<lambda>_. take 64 (enc_log plugin_sample)) of
      Inr v \<Rightarrow> v = rh_gatlingVersion (header_val (fst plugin_sample)) \<and>
        parse [js ''a/simulation.log''] (\<lambda>_. enc_log plugin_sample) =
          Some (log_val plugin_sample (snd plugin_sample), None)
    | Inl m \<Rightarrow> m = UnsupportedMajor (rh_gatlingVersion (header_val (fst plugin_sample))) \<and>
        parse [js ''a/simulation.log''] (\<lambda>_. enc_log plugin_sample) = Some ([], Some LOG_BINARY_FORMAT))"
proof (rule detection_agrees_with_parse [where path = "js ''a/simulation.log''" and bs = "map of_char ''3.15.1''"])
  show "findSimulationLog [js ''a/simulation.log''] = Some (js ''a/simulation.log'')" by code_simp
  show "log_ok plugin_sample" by code_simp
qed (simp_all add: plugin_sample_def)

end
