(* ===== verification/TimeAxis.thy ===== *)
theory TimeAxis
  imports Rollup
begin

text \<open>
  The time axis of \<open>buckets.ts\<close>, \<open>errors-series.ts\<close> and \<open>users.ts\<close>. All three keep a \<open>Map\<close>
  from a bucket index to a bucket of \<open>widthMs\<close> milliseconds, and halve the resolution in place
  while the map has more than \<open>maxBuckets\<close> entries: the entries are visited in index order, an
  entry moves to \<open>Math.floor(idx / 2)\<close>, and two entries that meet there are joined. The loop is
  \<open>coalesce\<close>, over the two operations in which the copies differ: how an entry is put at its new
  index and how a later entry joins it. It is a partial function: \<open>None\<close> is a loop that does not
  end.

  The locale \<open>coalescing\<close> states what a bucket promises (it represents the multiset of the
  observations that fall into it) and proves once that the loop loses nothing; each component
  interprets it on its own buckets.
\<close>

definition by_index :: "(int, 'b) jmap \<Rightarrow> (int, 'b) jmap" where
  "by_index m = js_sort (cmp_by fst) m"

definition halve_step :: "(int \<Rightarrow> int \<Rightarrow> 'b \<Rightarrow> 'b) \<Rightarrow> ('b \<Rightarrow> 'b \<Rightarrow> 'b) \<Rightarrow> int \<Rightarrow> int \<times> 'b \<Rightarrow>
    (int, 'b) jmap \<Rightarrow> (int, 'b) jmap" where
  "halve_step put join newWidth e next = (case e of (idx, b) \<Rightarrow>
     (let ni = idx div 2 in
      case jm_get next ni of
        None \<Rightarrow> jm_set ni (put ni newWidth b) next
      | Some target \<Rightarrow> jm_set ni (join target b) next))"

definition halve :: "(int \<Rightarrow> int \<Rightarrow> 'b \<Rightarrow> 'b) \<Rightarrow> ('b \<Rightarrow> 'b \<Rightarrow> 'b) \<Rightarrow> int \<Rightarrow> (int, 'b) jmap \<Rightarrow>
    (int, 'b) jmap" where
  "halve put join width m = fold (halve_step put join (width * 2)) (by_index m) []"

partial_function (option) coalesce :: "(int \<Rightarrow> int \<Rightarrow> 'b \<Rightarrow> 'b) \<Rightarrow> ('b \<Rightarrow> 'b \<Rightarrow> 'b) \<Rightarrow> int \<Rightarrow>
    int \<Rightarrow> (int, 'b) jmap \<Rightarrow> (int \<times> (int, 'b) jmap) option" where
  "coalesce put join cap width m =
     (if cap < int (length m) then coalesce put join cap (width * 2) (halve put join width m)
      else Some (width, m))"

declare coalesce.simps [code]

section \<open>The keys of a halved map\<close>

lemma set_by_index [simp]: "set (by_index m) = set m"
  by (simp add: by_index_def)

lemma jm_ok_by_index [simp]: "jm_ok (by_index m) = jm_ok m"
  by (simp add: by_index_def jm_ok_def)

lemma jm_get_by_index: "jm_ok m \<Longrightarrow> jm_get (by_index m) = jm_get m"
  using jm_ok_by_index [of m] unfolding jm_ok_def by (intro map_of_inject_set [THEN iffD2]) simp_all

lemma jm_ok_halve_step [simp, inv_intros]: "jm_ok next \<Longrightarrow> jm_ok (halve_step put join w e next)"
  by (cases e) (simp add: halve_step_def Let_def split: option.splits)

lemma keys_halve_step: "fst ` set (halve_step put join w e next) = insert (fst e div 2) (fst ` set next)"
  by (cases e) (simp add: halve_step_def Let_def keys_jm_set split: option.splits)

lemma fold_halve_keys:
  "jm_ok next \<Longrightarrow> jm_ok (fold (halve_step put join w) es next) \<and>
    fst ` set (fold (halve_step put join w) es next) = fst ` set next \<union> (\<lambda>e. fst e div 2) ` set es"
  by (induction es arbitrary: "next") (auto simp: keys_halve_step)

lemma halve_ok [simp, inv_intros]: "jm_ok (halve put join w m)"
  and halve_keys: "fst ` set (halve put join w m) = (\<lambda>i. i div 2) ` fst ` set m"
  using fold_halve_keys [of "[]" put join "w * 2" "by_index m"] by (simp_all add: halve_def image_image)

lemma length_keys: "jm_ok m \<Longrightarrow> length m = card (fst ` set m)"
  unfolding jm_ok_def by (metis distinct_card length_map set_map)

section \<open>When the loop ends\<close>

lemma coalesce_few: "int (length m) \<le> cap \<Longrightarrow> coalesce put join cap w m = Some (w, m)"
  by (subst coalesce.simps) simp

lemma coalesce_keep:
  assumes "coalesce put join cap w m = Some r" and "P w m"
    and "\<And>w m. P w m \<Longrightarrow> cap < int (length m) \<Longrightarrow> P (w * 2) (halve put join w m)"
  shows "P (fst r) (snd r) \<and> int (length (snd r)) \<le> cap"
  using assms
proof (induction put join cap w m r rule: coalesce.raw_induct [rotated 1, consumes 1])
  case (1 rec put join cap w m r)
  then show ?case by (cases "cap < int (length m)") auto
qed

lemma few_keys: "jm_ok m \<Longrightarrow> fst ` set m \<subseteq> K \<Longrightarrow> finite K \<Longrightarrow> int (length m) \<le> int (card K)"
  by (simp add: length_keys card_mono)

text \<open>
  Halving draws every index towards 0, or towards -1 when it is negative, so the loop ends as soon
  as the cap leaves room for these two; with a cap of one it ends when no index is negative.
\<close>

lemma coalesce_bounded:
  assumes "jm_ok m" and "\<forall>i \<in> fst ` set m. - (int n) - 1 \<le> i \<and> i \<le> int n"
    and "2 \<le> cap \<or> 1 \<le> cap \<and> (\<forall>i \<in> fst ` set m. 0 \<le> i)"
  shows "coalesce put join cap w m \<noteq> None"
  using assms
proof (induction n arbitrary: w m rule: less_induct)
  case (less n)
  show ?case
  proof (cases "cap < int (length m)")
    case False
    then show ?thesis by (simp add: coalesce_few)
  next
    case True
    have "n \<noteq> 0"
    proof
      assume [simp]: "n = 0"
      have sub: "fst ` set m \<subseteq> {- 1, 0}" using less.prems(2) by force
      from few_keys [OF less.prems(1) sub] have two: "int (length m) \<le> 2" by simp
      have "fst ` set m \<subseteq> {0}" if "\<forall>i \<in> fst ` set m. 0 \<le> i" using sub that by force
      from few_keys [OF less.prems(1) this] have "int (length m) \<le> 1" if "\<forall>i \<in> fst ` set m. 0 \<le> i"
        using that by simp
      with two True less.prems(3) show False by linarith
    qed
    then have "n div 2 < n" by simp
    moreover have "\<forall>i \<in> fst ` set (halve put join w m). - int (n div 2) - 1 \<le> i \<and> i \<le> int (n div 2)"
    proof
      fix i assume "i \<in> fst ` set (halve put join w m)"
      then obtain k where k: "k \<in> fst ` set m" "i = k div 2" unfolding halve_keys by blast
      then have "- int n - 1 \<le> k" "k \<le> int n" using less.prems(2) by blast+
      then have "- int n - 1 \<le> 2 * i + 1" "2 * i \<le> int n" unfolding k(2) by linarith+
      then show "- int (n div 2) - 1 \<le> i \<and> i \<le> int (n div 2)" by (simp add: zdiv_int) linarith
    qed
    moreover have "2 \<le> cap \<or> 1 \<le> cap \<and> (\<forall>i \<in> fst ` set (halve put join w m). 0 \<le> i)"
      using less.prems(3) unfolding halve_keys by auto
    ultimately have "coalesce put join cap (w * 2) (halve put join w m) \<noteq> None"
      by (intro less.IH) simp_all
    with True show ?thesis by (subst coalesce.simps) simp
  qed
qed

lemma coalesce_returns:
  assumes "jm_ok m" and "2 \<le> cap \<or> 1 \<le> cap \<and> (\<forall>i \<in> fst ` set m. 0 \<le> i)"
  shows "\<exists>w' m'. coalesce put join cap w m = Some (w', m')"
proof -
  define n where "n = nat (\<Sum>i \<in> fst ` set m. \<bar>i\<bar>)"
  have "\<bar>i\<bar> \<le> (\<Sum>i \<in> fst ` set m. \<bar>i\<bar>)" if "i \<in> fst ` set m" for i
    using that by (intro member_le_sum) simp_all
  then have "\<forall>i \<in> fst ` set m. - (int n) - 1 \<le> i \<and> i \<le> int n"
    unfolding n_def by fastforce
  from coalesce_bounded [OF assms(1) this assms(2)] show ?thesis by fastforce
qed

text \<open>The indices -1 and 0 are fixed by halving: a cap of one is then never met.\<close>

lemma coalesce_stuck:
  assumes "jm_ok m" and "fst ` set m = {- 1, 0}"
  shows "coalesce put join 1 w m = None"
proof -
  have "False" if "coalesce put join 1 w m = Some r" for r
  proof -
    have "jm_ok (snd r) \<and> fst ` set (snd r) = {- 1, 0} \<and> int (length (snd r)) \<le> 1"
      using coalesce_keep [OF that, of "\<lambda>w m. jm_ok m \<and> fst ` set m = {- 1, 0}"] assms
      by (simp add: halve_keys)
    then show False using length_keys [of "snd r"] by simp
  qed
  then show ?thesis by (cases "coalesce put join 1 w m") blast+
qed

section \<open>Coalescing loses nothing\<close>

text \<open>
  \<open>time x\<close> is the offset of an observation from the start of the run; \<open>rep off b M\<close> says that the
  bucket \<open>b\<close> at the offset \<open>off\<close> holds the observations \<open>M\<close>.
\<close>

definition in_slot :: "('o \<Rightarrow> int) \<Rightarrow> int \<Rightarrow> int \<Rightarrow> 'o multiset \<Rightarrow> 'o multiset" where
  "in_slot time w i M = filter_mset (\<lambda>x. time x div w = i) M"

text \<open>A slot is absent from the map exactly when it has no observation.\<close>

fun slot_rep :: "(int \<Rightarrow> 'b \<Rightarrow> 'o multiset \<Rightarrow> bool) \<Rightarrow> int \<Rightarrow> 'b option \<Rightarrow> 'o multiset \<Rightarrow> bool" where
  "slot_rep rep off None M = (M = {#})"
| "slot_rep rep off (Some b) M = (M \<noteq> {#} \<and> rep off b M)"

definition axis_rep :: "('o \<Rightarrow> int) \<Rightarrow> (int \<Rightarrow> 'b \<Rightarrow> 'o multiset \<Rightarrow> bool) \<Rightarrow> int \<Rightarrow> (int, 'b) jmap \<Rightarrow>
    'o multiset \<Rightarrow> bool" where
  "axis_rep time rep w m M \<longleftrightarrow> jm_ok m \<and>
     (\<forall>i. slot_rep rep (i * w) (jm_get m i) (in_slot time w i M))"

definition is_width :: "int \<Rightarrow> bool" where
  "is_width w \<longleftrightarrow> (\<exists>k :: nat. w = 1000 * 2 ^ k)"

lemma is_width_1000 [simp]: "is_width 1000"
  unfolding is_width_def by (rule exI [of _ 0]) simp

lemma is_width_double [simp]: "is_width w \<Longrightarrow> is_width (w * 2)"
  unfolding is_width_def by (metis mult.assoc mult.commute power_Suc)

lemma is_width_pos: "is_width w \<Longrightarrow> 0 < w"
  by (auto simp: is_width_def)

lemma axis_rep_Nil [simp]: "axis_rep time rep w [] {#}"
  by (simp add: axis_rep_def in_slot_def)

lemma axis_rep_keys:
  assumes "axis_rep time rep w m M"
  shows "fst ` set m = (\<lambda>x. time x div w) ` set_mset M"
proof -
  have "i \<in> fst ` set m \<longleftrightarrow> in_slot time w i M \<noteq> {#}" for i
  proof -
    have "slot_rep rep (i * w) (jm_get m i) (in_slot time w i M)" using assms by (simp add: axis_rep_def)
    then show ?thesis by (cases "jm_get m i") (auto simp: map_of_eq_None_iff dest: map_of_SomeD intro: rev_image_eqI)
  qed
  moreover have "in_slot time w i M \<noteq> {#} \<longleftrightarrow> i \<in> (\<lambda>x. time x div w) ` set_mset M" for i
    unfolding in_slot_def set_mset_eq_empty_iff [symmetric] by auto
  ultimately show ?thesis by blast
qed

lemma axis_rep_length:
  "axis_rep time rep w m M \<Longrightarrow> length m = card ((\<lambda>x. time x div w) ` set_mset M)"
  using axis_rep_keys [of time rep w m M] length_keys [of m] by (simp add: axis_rep_def)

text \<open>
  The width a series settles on is the narrowest that fits the cap: at every narrower one the
  observations occupy more slots than the cap allows.
\<close>

definition narrowest :: "int \<Rightarrow> ('o \<Rightarrow> int) \<Rightarrow> int \<Rightarrow> 'o multiset \<Rightarrow> bool" where
  "narrowest cap time w M \<longleftrightarrow> is_width w \<and>
     (\<forall>v. is_width v \<and> v < w \<longrightarrow> cap < int (card ((\<lambda>x. time x div v) ` set_mset M)))"

lemma is_width_ge: "is_width v \<Longrightarrow> 1000 \<le> v"
  by (auto simp: is_width_def)

lemma narrowest_start [simp]: "narrowest cap time 1000 M"
  by (auto simp: narrowest_def dest: is_width_ge)

lemma is_width_less: "is_width v \<Longrightarrow> is_width w \<Longrightarrow> v < w * 2 \<Longrightarrow> v = w \<or> v < w"
proof -
  assume "is_width v" "is_width w" "v < w * 2"
  then obtain i j where ij: "v = 1000 * 2 ^ i" "w = 1000 * 2 ^ j" by (auto simp: is_width_def)
  with \<open>v < w * 2\<close> have "(2 :: int) ^ i < 2 ^ Suc j" by simp
  then have "i < Suc j" by (rule power_less_imp_less_exp [rotated]) simp
  then have "(2 :: int) ^ i \<le> 2 ^ j" by simp
  then show ?thesis unfolding ij by linarith
qed

lemma narrowest_pos: "narrowest cap time w M \<Longrightarrow> 0 < w"
  by (simp add: narrowest_def is_width_pos)

lemma narrowest_add: "narrowest cap time w M \<Longrightarrow> narrowest cap time w (add_mset x M)"
proof -
  have "int (card ((\<lambda>x. time x div v) ` set_mset M)) \<le> int (card ((\<lambda>x. time x div v) ` set_mset (add_mset x M)))" for v
    by (simp add: card_mono image_mono subset_insertI)
  then show "narrowest cap time w M \<Longrightarrow> narrowest cap time w (add_mset x M)"
    unfolding narrowest_def by (meson order_less_le_trans)
qed

lemma narrowest_double:
  assumes "narrowest cap time w M" and "cap < int (card ((\<lambda>x. time x div w) ` set_mset M))"
  shows "narrowest cap time (w * 2) M"
  unfolding narrowest_def
proof (intro conjI allI impI)
  show "is_width (w * 2)" using assms(1) by (simp add: narrowest_def)
  fix v assume v: "is_width v \<and> v < w * 2"
  then have "v = w \<or> v < w" using assms(1) is_width_less unfolding narrowest_def by blast
  then show "cap < int (card ((\<lambda>x. time x div v) ` set_mset M))"
    using assms v by (auto simp: narrowest_def)
qed

text \<open>Fewer occupied times settle on a width that is at most as wide.\<close>

lemma narrowest_le:
  assumes "narrowest cap f v M" and "is_width w" and "int (card ((\<lambda>x. g x div w) ` set_mset N)) \<le> cap"
    and "f ` set_mset M \<subseteq> g ` set_mset N"
  shows "v \<le> w"
proof (rule ccontr)
  assume "\<not> v \<le> w"
  then have "cap < int (card ((\<lambda>x. f x div w) ` set_mset M))" using assms(1,2) by (simp add: narrowest_def)
  also have "(\<lambda>x. f x div w) ` set_mset M \<subseteq> (\<lambda>x. g x div w) ` set_mset N"
  proof
    fix y assume "y \<in> (\<lambda>x. f x div w) ` set_mset M"
    then obtain x where "x \<in># M" "y = f x div w" by blast
    moreover then obtain z where "z \<in># N" "f x = g z" using assms(4) by blast
    ultimately show "y \<in> (\<lambda>x. g x div w) ` set_mset N" by auto
  qed
  then have "card ((\<lambda>x. f x div w) ` set_mset M) \<le> card ((\<lambda>x. g x div w) ` set_mset N)"
    by (intro card_mono) simp_all
  finally show False using assms(3) by simp
qed

locale coalescing =
  fixes time :: "'o \<Rightarrow> int"
    and rep :: "int \<Rightarrow> 'b \<Rightarrow> 'o multiset \<Rightarrow> bool"
    and put :: "int \<Rightarrow> int \<Rightarrow> 'b \<Rightarrow> 'b"
    and join :: "'b \<Rightarrow> 'b \<Rightarrow> 'b"
  assumes rep_put: "rep off b M \<Longrightarrow> rep (ni * width) (put ni width b) M"
    and rep_join: "rep off b M \<Longrightarrow> rep off' b' N \<Longrightarrow> rep off (join b b') (M + N)"
begin

text \<open>The observations of the old slots \<open>K\<close> that the new slot \<open>i\<close> takes in.\<close>

definition taken :: "int \<Rightarrow> int set \<Rightarrow> int \<Rightarrow> 'o multiset \<Rightarrow> 'o multiset" where
  "taken w K i M = filter_mset (\<lambda>x. time x div w \<in> K \<and> time x div w div 2 = i) M"

lemma taken_insert:
  "k \<notin> K \<Longrightarrow> taken w (insert k K) i M = taken w K i M + (if k div 2 = i then in_slot time w k M else {#})"
  unfolding taken_def in_slot_def by (induction M) auto

lemma taken_empty [simp]: "taken w {} i M = {#}"
  by (simp add: taken_def)

definition half_rep :: "int \<Rightarrow> int set \<Rightarrow> (int, 'b) jmap \<Rightarrow> 'o multiset \<Rightarrow> bool" where
  "half_rep w K m M \<longleftrightarrow> jm_ok m \<and>
     (\<forall>i. slot_rep rep (i * (w * 2)) (jm_get m i) (taken w K i M))"

lemma half_rep_step:
  assumes "half_rep w K m M" and "k \<notin> K" and "in_slot time w k M \<noteq> {#}" and "rep (k * w) b (in_slot time w k M)"
  shows "half_rep w (insert k K) (halve_step put join (w * 2) (k, b) m) M"
proof (cases "jm_get m (k div 2)")
  case None
  moreover have "slot_rep rep (k div 2 * (w * 2)) (jm_get m (k div 2)) (taken w K (k div 2) M)"
    using assms(1) by (simp add: half_rep_def)
  ultimately have "taken w K (k div 2) M = {#}" by simp
  moreover have "rep (k div 2 * (w * 2)) (put (k div 2) (w * 2) b) (in_slot time w k M)"
    by (rule rep_put [OF assms(4)])
  ultimately show ?thesis
    using assms(1,3) None
    by (simp add: half_rep_def halve_step_def Let_def taken_insert [OF assms(2)])
next
  case (Some t)
  moreover have "slot_rep rep (k div 2 * (w * 2)) (jm_get m (k div 2)) (taken w K (k div 2) M)"
    using assms(1) by (simp add: half_rep_def)
  ultimately have "rep (k div 2 * (w * 2)) t (taken w K (k div 2) M)" by simp
  from rep_join [OF this assms(4)] show ?thesis
    using assms(1,3) Some
    by (simp add: half_rep_def halve_step_def Let_def taken_insert [OF assms(2)])
qed

lemma half_rep_fold:
  assumes "half_rep w K m M" and "distinct (map fst es)" and "fst ` set es \<inter> K = {}"
    and "\<And>k b. (k, b) \<in> set es \<Longrightarrow> in_slot time w k M \<noteq> {#} \<and> rep (k * w) b (in_slot time w k M)"
  shows "half_rep w (K \<union> fst ` set es) (fold (halve_step put join (w * 2)) es m) M"
  using assms
proof (induction es arbitrary: K m)
  case Nil
  then show ?case by simp
next
  case (Cons e es)
  obtain k b where e: "e = (k, b)" by fastforce
  have "half_rep w (insert k K) (halve_step put join (w * 2) (k, b) m) M"
    using Cons.prems by (intro half_rep_step) (auto simp: e)
  from Cons.IH [OF this] Cons.prems show ?case by (auto simp: e insert_commute Un_insert_left)
qed

lemma axis_rep_halve:
  assumes "axis_rep time rep w m M" and "0 < w"
  shows "axis_rep time rep (w * 2) (halve put join w m) M"
proof -
  have entry: "in_slot time w k M \<noteq> {#} \<and> rep (k * w) b (in_slot time w k M)" if "(k, b) \<in> set m" for k b
  proof -
    have "slot_rep rep (k * w) (jm_get m k) (in_slot time w k M)" "jm_get m k = Some b"
      using assms(1) that unfolding axis_rep_def jm_ok_def by (blast, simp)
    then show ?thesis by simp
  qed
  have "half_rep w ({} \<union> fst ` set (by_index m)) (fold (halve_step put join (w * 2)) (by_index m) []) M"
    using assms(1) entry by (intro half_rep_fold) (auto simp: half_rep_def axis_rep_def jm_ok_def by_index_def)
  moreover have "taken w (fst ` set m) i M = in_slot time (w * 2) i M" for i
    unfolding taken_def in_slot_def axis_rep_keys [OF assms(1)]
    using assms(2) by (intro filter_mset_cong) (auto simp: zdiv_zmult2_eq)
  ultimately show ?thesis by (simp add: half_rep_def axis_rep_def halve_def)
qed

text \<open>\<open>K\<close> is any property of the width that doubling keeps while the cap is exceeded.\<close>

lemma axis_rep_coalesce_inv:
  assumes "axis_rep time rep w m M" and "K w" and "coalesce put join cap w m = Some (w', m')"
    and "\<And>w. K w \<Longrightarrow> 0 < w"
    and "\<And>w. K w \<Longrightarrow> cap < int (card ((\<lambda>x. time x div w) ` set_mset M)) \<Longrightarrow> K (w * 2)"
  shows "axis_rep time rep w' m' M" and "K w'" and "int (length m') \<le> cap"
proof -
  have "axis_rep time rep w' m' M \<and> K w' \<and> int (length m') \<le> cap"
  proof -
    have step: "axis_rep time rep (w * 2) (halve put join w m) M \<and> K (w * 2)"
      if "axis_rep time rep w m M \<and> K w" "cap < int (length m)" for w m
      using that assms(4,5) axis_rep_halve axis_rep_length [of time rep w m M] by simp
    from coalesce_keep [OF assms(3), of "\<lambda>w m. axis_rep time rep w m M \<and> K w", OF _ step] assms(1,2)
    show ?thesis by simp
  qed
  then show "axis_rep time rep w' m' M" "K w'" "int (length m') \<le> cap" by simp_all
qed

lemma axis_rep_coalesce:
  assumes "axis_rep time rep w m M" and "narrowest cap time w M" and "coalesce put join cap w m = Some (w', m')"
  shows "axis_rep time rep w' m' M" and "narrowest cap time w' M" and "int (length m') \<le> cap"
  by (rule axis_rep_coalesce_inv [where K = "\<lambda>w. narrowest cap time w M", OF assms]; (erule narrowest_pos | erule (1) narrowest_double))+

end

text \<open>A bucket that carries its own offset, and the list of the buckets in time order.\<close>

lemma distinct_times: "0 < w \<Longrightarrow> distinct (map (\<lambda>e. fst e * w) m) = distinct (map fst (m :: (int \<times> 'b) list))"
  by (auto simp: distinct_map inj_on_def)

lemma map_sort_key: "map f (sort_key f xs) = sort (map (f :: 'a \<Rightarrow> int) xs)"
proof -
  have "map f (insort_key f x xs) = insort (f x) (map f xs)" for x xs by (induction xs) auto
  then show ?thesis by (induction xs) simp_all
qed

locale located = coalescing +
  fixes offset :: "'b \<Rightarrow> int"
  assumes rep_offset: "rep off b M \<Longrightarrow> offset b = off"
begin

lemma axis_rep_entry:
  assumes "axis_rep time rep w m M" and "(i, b) \<in> set m"
  shows "in_slot time w i M \<noteq> {#}" and "rep (i * w) b (in_slot time w i M)" and "offset b = i * w"
proof -
  have "slot_rep rep (i * w) (jm_get m i) (in_slot time w i M)" "jm_get m i = Some b"
    using assms unfolding axis_rep_def jm_ok_def by (blast, simp)
  then show "in_slot time w i M \<noteq> {#}" "rep (i * w) b (in_slot time w i M)" by simp_all
  from rep_offset [OF this(2)] show "offset b = i * w" .
qed

lemma axis_rep_offsets:
  assumes "axis_rep time rep w m M" and "0 < w"
  shows "map offset (js_sort (cmp_by offset) (map snd m)) =
    sorted_list_of_set ((\<lambda>x. time x div w * w) ` set_mset M)"
proof -
  have off: "map offset (map snd m) = map (\<lambda>e. fst e * w) m"
    using axis_rep_entry(3) [OF assms(1)] by auto
  have "distinct (map offset (map snd m))"
    using assms unfolding off axis_rep_def jm_ok_def by (simp add: distinct_times)
  then have "sort (map offset (map snd m)) = sorted_list_of_set (set (map offset (map snd m)))"
    by (metis distinct_remdups_id sorted_list_of_set_sort_remdups)
  also have "set (map offset (map snd m)) = (\<lambda>i. i * w) ` fst ` set m"
    unfolding off by (auto simp: image_image)
  also have "\<dots> = (\<lambda>x. time x div w * w) ` set_mset M"
    by (simp add: axis_rep_keys [OF assms(1)] image_image)
  finally show ?thesis by (simp add: js_sort_by map_sort_key)
qed

lemma axis_rep_buckets:
  assumes "axis_rep time rep w m M" and "0 < w" and "b \<in> set (js_sort (cmp_by offset) (map snd m))"
  shows "rep (offset b) b (filter_mset (\<lambda>x. time x div w * w = offset b) M)"
proof -
  obtain i where i: "(i, b) \<in> set m" using assms(3) by auto
  note entry = axis_rep_entry [OF assms(1) i]
  have "in_slot time w i M = filter_mset (\<lambda>x. time x div w * w = offset b) M"
    unfolding in_slot_def entry(3) using assms(2) by (intro filter_mset_cong) auto
  with entry show ?thesis by simp
qed

end

end
