(* ===== verification/Buckets.thy ===== *)
theory Buckets
  imports TimeAxis
begin

text \<open>
  \<open>buckets.ts\<close>: the response-time series of a run, in buckets that start one second wide. The
  request edges a caller adds are the observations; \<open>bucket_rep\<close> is the bucket they make.
  \<open>Math.floor((tsMs - startMs) / widthMs)\<close> is written \<open>div\<close> (\<open>floor_fdiv\<close>).
\<close>

datatype edge = StartEdge | EndEdge

record bucket =
  bk_startOffsetMs :: int
  bk_startedCount :: int
  bk_endedCount :: int
  bk_okCount :: int
  bk_koCount :: int
  bk_startedOkCount :: int
  bk_startedKoCount :: int
  bk_histogramOk :: histogram
  bk_histogramKo :: histogram

record bucket_series =
  bs_startMs :: int
  bs_maxBuckets :: int
  bs_widthMs :: int
  bs_buckets :: "(int, bucket) jmap"

definition new_bucket_series :: "int \<Rightarrow> int \<Rightarrow> bucket_series" where
  "new_bucket_series startMs maxBuckets =
     \<lparr>bs_startMs = startMs, bs_maxBuckets = max 1 maxBuckets, bs_widthMs = 1000, bs_buckets = []\<rparr>"

definition new_bucket :: "int \<Rightarrow> bucket" where
  "new_bucket off = \<lparr>bk_startOffsetMs = off, bk_startedCount = 0, bk_endedCount = 0, bk_okCount = 0,
     bk_koCount = 0, bk_startedOkCount = 0, bk_startedKoCount = 0,
     bk_histogramOk = new_histogram, bk_histogramKo = new_histogram\<rparr>"

definition bucket_add :: "rat \<Rightarrow> bool \<Rightarrow> edge \<Rightarrow> bucket \<Rightarrow> bucket" where
  "bucket_add value ok edge b = (case edge of
     StartEdge \<Rightarrow>
       (let b = b\<lparr>bk_startedCount := bk_startedCount b + 1\<rparr> in
        if ok then b\<lparr>bk_startedOkCount := bk_startedOkCount b + 1,
          bk_histogramOk := hist_add value (bk_histogramOk b)\<rparr>
        else b\<lparr>bk_startedKoCount := bk_startedKoCount b + 1,
          bk_histogramKo := hist_add value (bk_histogramKo b)\<rparr>)
   | EndEdge \<Rightarrow>
       (let b = b\<lparr>bk_endedCount := bk_endedCount b + 1\<rparr> in
        if ok then b\<lparr>bk_okCount := bk_okCount b + 1\<rparr> else b\<lparr>bk_koCount := bk_koCount b + 1\<rparr>))"

definition bucket_put :: "int \<Rightarrow> int \<Rightarrow> bucket \<Rightarrow> bucket" where
  "bucket_put ni newWidth b = b\<lparr>bk_startOffsetMs := ni * newWidth\<rparr>"

definition bucket_join :: "bucket \<Rightarrow> bucket \<Rightarrow> bucket" where
  "bucket_join target b = target\<lparr>
     bk_startedCount := bk_startedCount target + bk_startedCount b,
     bk_endedCount := bk_endedCount target + bk_endedCount b,
     bk_okCount := bk_okCount target + bk_okCount b,
     bk_koCount := bk_koCount target + bk_koCount b,
     bk_startedOkCount := bk_startedOkCount target + bk_startedOkCount b,
     bk_startedKoCount := bk_startedKoCount target + bk_startedKoCount b,
     bk_histogramOk := hist_absorb (bk_histogramOk b) (bk_histogramOk target),
     bk_histogramKo := hist_absorb (bk_histogramKo b) (bk_histogramKo target)\<rparr>"

text \<open>\<open>add\<close> returns \<open>None\<close> when its coalescing loop does not end.\<close>

definition bucket_series_add :: "int \<Rightarrow> rat \<Rightarrow> bool \<Rightarrow> edge \<Rightarrow> bucket_series \<Rightarrow> bucket_series option" where
  "bucket_series_add tsMs value ok edge s =
     (let idx = (tsMs - bs_startMs s) div bs_widthMs s;
          b = (case jm_get (bs_buckets s) idx of Some b \<Rightarrow> b | None \<Rightarrow> new_bucket (idx * bs_widthMs s));
          m = jm_set idx (bucket_add value ok edge b) (bs_buckets s)
      in map_option (\<lambda>(w, m). s\<lparr>bs_widthMs := w, bs_buckets := m\<rparr>)
           (coalesce bucket_put bucket_join (bs_maxBuckets s) (bs_widthMs s) m))"

definition buckets :: "bucket_series \<Rightarrow> bucket list" where
  "buckets s = js_sort (cmp_by bk_startOffsetMs) (map snd (bs_buckets s))"

text \<open>\<open>Number.POSITIVE_INFINITY\<close> is \<open>None\<close>.\<close>

fun smallest_gap :: "int list \<Rightarrow> int option \<Rightarrow> int option" where
  "smallest_gap (a # b # rest) width =
     (let gap = b - a in smallest_gap (b # rest)
       (if 0 < gap \<and> (case width of None \<Rightarrow> True | Some w \<Rightarrow> gap < w) then Some gap else width))"
| "smallest_gap _ width = width"

definition inferBucketWidthMs :: "int list \<Rightarrow> int" where
  "inferBucketWidthMs offsets = (case smallest_gap offsets None of Some w \<Rightarrow> w | None \<Rightarrow> 1000)"

section \<open>The observations of a bucket\<close>

record request_edge =
  re_tsMs :: int
  re_value :: rat
  re_ok :: bool
  re_edge :: edge

definition edges :: "edge \<Rightarrow> bool \<Rightarrow> request_edge multiset \<Rightarrow> request_edge multiset" where
  "edges e ok M = filter_mset (\<lambda>x. re_edge x = e \<and> re_ok x = ok) M"

definition edge_times :: "bool \<Rightarrow> request_edge multiset \<Rightarrow> int multiset" where
  "edge_times ok M = image_mset (\<lambda>x. clampMs (re_value x)) (edges StartEdge ok M)"

definition bucket_rep :: "int \<Rightarrow> bucket \<Rightarrow> request_edge multiset \<Rightarrow> bool" where
  "bucket_rep off b M \<longleftrightarrow> bk_startOffsetMs b = off \<and>
     bk_startedOkCount b = int (size (edges StartEdge True M)) \<and>
     bk_startedKoCount b = int (size (edges StartEdge False M)) \<and>
     bk_startedCount b = bk_startedOkCount b + bk_startedKoCount b \<and>
     bk_okCount b = int (size (edges EndEdge True M)) \<and>
     bk_koCount b = int (size (edges EndEdge False M)) \<and>
     bk_endedCount b = bk_okCount b + bk_koCount b \<and>
     hist_rep (bk_histogramOk b) (edge_times True M) \<and>
     hist_rep (bk_histogramKo b) (edge_times False M)"

lemma edges_plus [simp]: "edges e ok (M + N) = edges e ok M + edges e ok N"
  "edges e ok {#} = {#}"
  "edges e ok (add_mset x M) = (if re_edge x = e \<and> re_ok x = ok then add_mset x (edges e ok M) else edges e ok M)"
  by (simp_all add: edges_def)

lemma edge_times_plus [simp]: "edge_times ok (M + N) = edge_times ok M + edge_times ok N"
  "edge_times ok {#} = {#}"
  "edge_times ok (add_mset x M) = (if re_edge x = StartEdge \<and> re_ok x = ok
     then add_mset (clampMs (re_value x)) (edge_times ok M) else edge_times ok M)"
  by (simp_all add: edge_times_def)

lemma bucket_rep_new: "bucket_rep off (new_bucket off) {#}"
  by (simp add: bucket_rep_def new_bucket_def hist_rep_new)

lemma bucket_rep_add:
  "bucket_rep off b M \<Longrightarrow> bucket_rep off (bucket_add (re_value x) (re_ok x) (re_edge x) b) (add_mset x M)"
  by (cases "re_edge x") (auto simp: bucket_rep_def bucket_add_def Let_def hist_rep_add)

interpretation bs: located "\<lambda>x. re_tsMs x - s" bucket_rep bucket_put bucket_join bk_startOffsetMs for s :: int
proof unfold_locales
  fix off b M ni width
  assume "bucket_rep off b M"
  then show "bucket_rep (ni * width) (bucket_put ni width b) M" by (simp add: bucket_rep_def bucket_put_def)
next
  fix off b M off' b' N
  assume "bucket_rep off b M" "bucket_rep off' b' N"
  then show "bucket_rep off (bucket_join b b') (M + N)"
    by (simp add: bucket_rep_def bucket_join_def hist_rep_absorb add.commute)
qed (simp add: bucket_rep_def)

section \<open>The series\<close>

definition series_rep :: "bucket_series \<Rightarrow> request_edge multiset \<Rightarrow> bool" where
  "series_rep s M \<longleftrightarrow> narrowest (bs_maxBuckets s) (\<lambda>x. re_tsMs x - bs_startMs s) (bs_widthMs s) M \<and> 1 \<le> bs_maxBuckets s \<and>
     int (length (bs_buckets s)) \<le> bs_maxBuckets s \<and>
     axis_rep (\<lambda>x. re_tsMs x - bs_startMs s) bucket_rep (bs_widthMs s) (bs_buckets s) M"

lemma series_rep_width: "series_rep s M \<Longrightarrow> is_width (bs_widthMs s) \<and> 0 < bs_widthMs s"
  using is_width_pos by (simp add: series_rep_def narrowest_def)

lemma series_rep_new: "series_rep (new_bucket_series startMs maxBuckets) {#}"
  by (simp add: series_rep_def new_bucket_series_def)

text \<open>The bounds under which an addition returns: room for two buckets, or no time before the start.\<close>

definition roomy :: "int \<Rightarrow> int \<Rightarrow> request_edge multiset \<Rightarrow> bool" where
  "roomy startMs maxBuckets M \<longleftrightarrow> 2 \<le> maxBuckets \<or> (\<forall>x \<in># M. startMs \<le> re_tsMs x)"

lemma axis_rep_add:
  assumes "axis_rep time rep w m M" and "time x div w = idx"
    and "rep (idx * w) b' (add_mset x (in_slot time w idx M))"
  shows "axis_rep time rep w (jm_set idx b' m) (add_mset x M)"
  using assms by (auto simp: axis_rep_def in_slot_def)

lemma series_rep_add:
  assumes "series_rep s M" and "roomy (bs_startMs s) (bs_maxBuckets s) (add_mset x M)"
  shows "\<exists>s'. bucket_series_add (re_tsMs x) (re_value x) (re_ok x) (re_edge x) s = Some s' \<and>
    series_rep s' (add_mset x M) \<and> bs_startMs s' = bs_startMs s \<and> bs_maxBuckets s' = bs_maxBuckets s"
proof -
  define w where "w = bs_widthMs s"
  define idx where "idx = (re_tsMs x - bs_startMs s) div w"
  define b where "b = (case jm_get (bs_buckets s) idx of Some b \<Rightarrow> b | None \<Rightarrow> new_bucket (idx * w))"
  define m where "m = jm_set idx (bucket_add (re_value x) (re_ok x) (re_edge x) b) (bs_buckets s)"
  let ?time = "\<lambda>x. re_tsMs x - bs_startMs s"
  have w: "narrowest (bs_maxBuckets s) ?time w (add_mset x M)" "0 < w"
    and axis: "axis_rep ?time bucket_rep w (bs_buckets s) M"
    using assms(1) series_rep_width [OF assms(1)] by (simp_all add: series_rep_def w_def narrowest_add)
  have "slot_rep bucket_rep (idx * w) (jm_get (bs_buckets s) idx) (in_slot ?time w idx M)"
    using axis by (simp add: axis_rep_def)
  then have "bucket_rep (idx * w) b (in_slot ?time w idx M)"
    by (cases "jm_get (bs_buckets s) idx") (simp_all add: b_def bucket_rep_new)
  then have m: "axis_rep ?time bucket_rep w m (add_mset x M)"
    unfolding m_def by (intro axis_rep_add [OF axis] bucket_rep_add) (simp add: idx_def)
  have ok: "jm_ok m" using m by (simp add: axis_rep_def)
  have "2 \<le> bs_maxBuckets s \<or> 1 \<le> bs_maxBuckets s \<and> (\<forall>i \<in> fst ` set m. 0 \<le> i)"
    using assms w(2) unfolding axis_rep_keys [OF m] roomy_def series_rep_def
    by (auto simp: pos_imp_zdiv_nonneg_iff)
  from coalesce_returns [OF ok this, of bucket_put bucket_join w] obtain w' m' where
    c: "coalesce bucket_put bucket_join (bs_maxBuckets s) w m = Some (w', m')" by blast
  have "bucket_series_add (re_tsMs x) (re_value x) (re_ok x) (re_edge x) s =
      Some (s\<lparr>bs_widthMs := w', bs_buckets := m'\<rparr>)"
    using c unfolding bucket_series_add_def Let_def w_def [symmetric] idx_def [symmetric] b_def [symmetric] m_def [symmetric]
    by simp
  moreover have "series_rep (s\<lparr>bs_widthMs := w', bs_buckets := m'\<rparr>) (add_mset x M)"
    using bs.axis_rep_coalesce [OF m w(1) c] assms(1) by (simp add: series_rep_def)
  ultimately show ?thesis by simp
qed

fun add_edges :: "request_edge list \<Rightarrow> bucket_series \<Rightarrow> bucket_series option" where
  "add_edges [] s = Some s"
| "add_edges (x # xs) s =
     Option.bind (bucket_series_add (re_tsMs x) (re_value x) (re_ok x) (re_edge x) s) (add_edges xs)"

lemma add_edges_rep:
  assumes "series_rep s M" and "roomy (bs_startMs s) (bs_maxBuckets s) (M + mset xs)"
  shows "\<exists>s'. add_edges xs s = Some s' \<and> series_rep s' (M + mset xs) \<and>
    bs_startMs s' = bs_startMs s \<and> bs_maxBuckets s' = bs_maxBuckets s"
  using assms
proof (induction xs arbitrary: s M)
  case Nil
  then show ?case by simp
next
  case (Cons x xs)
  have "roomy (bs_startMs s) (bs_maxBuckets s) (add_mset x M)"
    using Cons.prems(2) by (auto simp: roomy_def)
  from series_rep_add [OF Cons.prems(1) this] obtain s1 where
    s1: "bucket_series_add (re_tsMs x) (re_value x) (re_ok x) (re_edge x) s = Some s1"
      "series_rep s1 (add_mset x M)" "bs_startMs s1 = bs_startMs s" "bs_maxBuckets s1 = bs_maxBuckets s"
    by blast
  with Cons.IH [OF s1(2)] Cons.prems(2) show ?case by simp
qed

lemma buckets_rep:
  assumes "series_rep s M"
  shows "map bk_startOffsetMs (buckets s) =
      sorted_list_of_set ((\<lambda>x. (re_tsMs x - bs_startMs s) div bs_widthMs s * bs_widthMs s) ` set_mset M)"
    and "b \<in> set (buckets s) \<Longrightarrow> bucket_rep (bk_startOffsetMs b) b
      (filter_mset (\<lambda>x. (re_tsMs x - bs_startMs s) div bs_widthMs s * bs_widthMs s = bk_startOffsetMs b) M)"
  using bs.axis_rep_offsets bs.axis_rep_buckets assms series_rep_width [OF assms]
  unfolding series_rep_def buckets_def by blast+

section \<open>The width of a stored series\<close>

fun positive_gaps :: "int list \<Rightarrow> int list" where
  "positive_gaps (a # b # rest) = (if a < b then [b - a] else []) @ positive_gaps (b # rest)"
| "positive_gaps _ = []"

lemma Min_insert_min:
  "finite G \<Longrightarrow> Min (insert (min g w) G) = Min (insert (g :: int) (insert w G))"
  by (cases "G = {}") (simp_all add: min.assoc)

lemma smallest_gap_Some: "smallest_gap xs (Some w) = Some (Min (insert w (set (positive_gaps xs))))"
proof (induction xs arbitrary: w rule: positive_gaps.induct)
  case (1 a b rest)
  define w' where "w' = (if 0 < b - a \<and> b - a < w then b - a else w)"
  have "smallest_gap (a # b # rest) (Some w) = smallest_gap (b # rest) (Some w')"
    by (simp add: w'_def Let_def)
  also have "\<dots> = Some (Min (insert w' (set (positive_gaps (b # rest)))))" by (rule 1)
  also have "Min (insert w' (set (positive_gaps (b # rest)))) = Min (insert w (set (positive_gaps (a # b # rest))))"
  proof (cases "a < b")
    case True
    then have "w' = min (b - a) w" by (simp add: w'_def min_def)
    then show ?thesis using True Min_insert_min [of "set (positive_gaps (b # rest))" "b - a" w]
      by (simp add: insert_commute)
  qed (simp add: w'_def)
  finally show ?case .
qed simp_all

lemma smallest_gap_None:
  "smallest_gap xs None = (if positive_gaps xs = [] then None else Some (Min (set (positive_gaps xs))))"
  by (induction xs rule: positive_gaps.induct) (simp_all add: Let_def smallest_gap_Some)

lemma gap_multiple:
  "g \<in> set (positive_gaps xs) \<Longrightarrow> \<forall>x \<in> set xs. w dvd x \<Longrightarrow> w dvd g \<and> 0 < g"
  by (induction xs rule: positive_gaps.induct) (auto split: if_splits)

lemma gap_attained:
  assumes "sorted_wrt (<) xs" and "\<forall>x \<in> set xs. w dvd x" and "0 < w" and "x \<in> set xs" and "x + w \<in> set xs"
  shows "w \<in> set (positive_gaps xs)"
  using assms
proof (induction xs rule: positive_gaps.induct)
  case (1 a b rest)
  show ?case
  proof (cases "x = a")
    case True
    then have "b \<le> x + w" "x < b" using 1(2,4,6) by auto
    moreover have "w dvd b - a" using 1(3) by simp
    ultimately have "b - a = w" using True 1(4) zdvd_imp_le [of w "b - a"] by simp
    then show ?thesis using 1(4) by simp
  next
    case False
    then show ?thesis using 1 by auto
  qed
qed auto

lemma infer_width:
  assumes "sorted_wrt (<) xs" and "\<forall>x \<in> set xs. w dvd x" and "0 < w" and "x \<in> set xs" and "x + w \<in> set xs"
  shows "inferBucketWidthMs xs = w"
proof -
  have mem: "w \<in> set (positive_gaps xs)" by (rule gap_attained [OF assms])
  have "Min (set (positive_gaps xs)) = w"
    using mem gap_multiple [OF _ assms(2)] by (intro Min_eqI) (auto intro: zdvd_imp_le)
  then show ?thesis using mem by (auto simp: inferBucketWidthMs_def smallest_gap_None)
qed

section \<open>Properties\<close>

text \<open>
  C11: However often the series halves its resolution on the way, it ends as the
  direct bucketing of every edge at the final width: the buckets are the occupied slots in time
  order, at most \<open>maxBuckets\<close> of them, the width is the narrowest power of two of seconds at
  which they fit, and each bucket's
  counters and exact histograms are those of the edges that fall into it. It always returns
  when the cap leaves room for two buckets or no edge lies before the start.
\<close>

theorem bucketing_is_lossless:
  assumes "roomy startMs maxBuckets (mset xs)"
  shows "\<exists>s. add_edges xs (new_bucket_series startMs maxBuckets) = Some s \<and>
    narrowest (max 1 maxBuckets) (\<lambda>x. re_tsMs x - startMs) (bs_widthMs s) (mset xs) \<and>
    int (length (buckets s)) \<le> max 1 maxBuckets \<and>
    map bk_startOffsetMs (buckets s) =
      sorted_list_of_set ((\<lambda>x. (re_tsMs x - startMs) div bs_widthMs s * bs_widthMs s) ` set xs) \<and>
    (\<forall>b \<in> set (buckets s). bucket_rep (bk_startOffsetMs b) b (filter_mset
      (\<lambda>x. (re_tsMs x - startMs) div bs_widthMs s * bs_widthMs s = bk_startOffsetMs b) (mset xs)))"
proof -
  have "roomy (bs_startMs (new_bucket_series startMs maxBuckets)) (bs_maxBuckets (new_bucket_series startMs maxBuckets))
      ({#} + mset xs)"
    using assms by (auto simp: roomy_def new_bucket_series_def)
  from add_edges_rep [OF series_rep_new this] obtain s where
    s: "add_edges xs (new_bucket_series startMs maxBuckets) = Some s" "series_rep s (mset xs)"
      "bs_startMs s = startMs" "bs_maxBuckets s = max 1 maxBuckets"
    by (auto simp: new_bucket_series_def)
  from s(2) have "narrowest (max 1 maxBuckets) (\<lambda>x. re_tsMs x - startMs) (bs_widthMs s) (mset xs)"
    "int (length (buckets s)) \<le> max 1 maxBuckets"
    by (simp_all add: series_rep_def buckets_def s(3,4))
  with s(1) buckets_rep [OF s(2)] show ?thesis unfolding s(3) by auto
qed

theorem bucketing_is_lossless_witness:
  "let xs = [\<lparr>re_tsMs = 100, re_value = 7, re_ok = True, re_edge = StartEdge\<rparr>,
             \<lparr>re_tsMs = 9100, re_value = 3, re_ok = False, re_edge = EndEdge\<rparr>,
             \<lparr>re_tsMs = 4100, re_value = 3, re_ok = False, re_edge = StartEdge\<rparr>] in
   \<exists>s. add_edges xs (new_bucket_series 100 2) = Some s \<and>
    narrowest (max 1 2) (\<lambda>x. re_tsMs x - 100) (bs_widthMs s) (mset xs) \<and>
    int (length (buckets s)) \<le> max 1 2 \<and>
    map bk_startOffsetMs (buckets s) =
      sorted_list_of_set ((\<lambda>x. (re_tsMs x - 100) div bs_widthMs s * bs_widthMs s) ` set xs) \<and>
    (\<forall>b \<in> set (buckets s). bucket_rep (bk_startOffsetMs b) b (filter_mset
      (\<lambda>x. (re_tsMs x - 100) div bs_widthMs s * bs_widthMs s = bk_startOffsetMs b) (mset xs)))"
  unfolding Let_def by (rule bucketing_is_lossless) (simp add: roomy_def)

text \<open>
  C34: With a cap of one bucket, an edge in the second before the start followed
  by one in the second after it never returns: the indices -1 and 0 halve to themselves.
\<close>

theorem cap_one_never_returns:
  "maxBuckets \<le> 1 \<Longrightarrow> add_edges [\<lparr>re_tsMs = startMs - 1, re_value = v, re_ok = ok, re_edge = e\<rparr>,
     \<lparr>re_tsMs = startMs, re_value = v', re_ok = ok', re_edge = e'\<rparr>] (new_bucket_series startMs maxBuckets) = None"
  by (simp add: bucket_series_add_def new_bucket_series_def coalesce_few coalesce_stuck Let_def jm_ok_def)

theorem cap_one_never_returns_witness:
  "add_edges [\<lparr>re_tsMs = 4999, re_value = 1, re_ok = True, re_edge = StartEdge\<rparr>,
     \<lparr>re_tsMs = 5000, re_value = 2, re_ok = True, re_edge = EndEdge\<rparr>] (new_bucket_series 5000 1) = None"
  using cap_one_never_returns [of 1 5000] by simp

text \<open>
  The width read back from the stored offsets of a series is the width
  the series had, as soon as two neighbouring slots are occupied; a gap between two occupied
  slots does not mislead it.
\<close>

lemma stored_width_is_recovered:
  assumes "roomy startMs maxBuckets (mset xs)" and "add_edges xs (new_bucket_series startMs maxBuckets) = Some s"
    and "{x, y} \<subseteq> set xs"
    and "(re_tsMs y - startMs) div bs_widthMs s = (re_tsMs x - startMs) div bs_widthMs s + 1"
  shows "inferBucketWidthMs (map bk_startOffsetMs (buckets s)) = bs_widthMs s"
proof -
  define w where "w = bs_widthMs s"
  define off where "off = (\<lambda>x :: request_edge. (re_tsMs x - startMs) div w * w)"
  have "roomy (bs_startMs (new_bucket_series startMs maxBuckets)) (bs_maxBuckets (new_bucket_series startMs maxBuckets))
      ({#} + mset xs)"
    using assms(1) by (auto simp: roomy_def new_bucket_series_def)
  from add_edges_rep [OF series_rep_new this] assms(2) have rep: "series_rep s (mset xs)" "bs_startMs s = startMs"
    by (auto simp: new_bucket_series_def)
  have offs: "map bk_startOffsetMs (buckets s) = sorted_list_of_set (off ` set xs)"
    using buckets_rep(1) [OF rep(1)] by (simp add: rep(2) w_def off_def)
  have "0 < w" using series_rep_width [OF rep(1)] by (simp add: w_def)
  moreover have "off y = off x + w" using assms(4) by (simp add: off_def w_def distrib_right)
  moreover have "off x \<in> off ` set xs" "off y \<in> off ` set xs" using assms(3) by auto
  ultimately show ?thesis unfolding offs w_def [symmetric]
    by (intro infer_width [of _ w "off x"]) (auto simp: off_def)
qed

lemma stored_width_is_recovered_witness:
  "let xs = [\<lparr>re_tsMs = 0, re_value = 7, re_ok = True, re_edge = StartEdge\<rparr>,
             \<lparr>re_tsMs = 7000, re_value = 3, re_ok = False, re_edge = EndEdge\<rparr>,
             \<lparr>re_tsMs = 8000, re_value = 3, re_ok = False, re_edge = StartEdge\<rparr>];
       s = the (add_edges xs (new_bucket_series 0 2)) in
   inferBucketWidthMs (map bk_startOffsetMs (buckets s)) = bs_widthMs s \<and> bs_widthMs s = 8000"
proof -
  let ?x = "\<lparr>re_tsMs = 7000, re_value = 3, re_ok = False, re_edge = EndEdge\<rparr>"
  let ?y = "\<lparr>re_tsMs = 8000, re_value = 3, re_ok = False, re_edge = StartEdge\<rparr>"
  let ?xs = "[\<lparr>re_tsMs = 0, re_value = 7, re_ok = True, re_edge = StartEdge\<rparr>, ?x, ?y]"
  let ?s = "the (add_edges ?xs (new_bucket_series 0 2))"
  have "add_edges ?xs (new_bucket_series 0 2) \<noteq> None" by code_simp
  then have s: "add_edges ?xs (new_bucket_series 0 2) = Some ?s" by simp
  have w: "bs_widthMs ?s = 8000" by code_simp
  have "inferBucketWidthMs (map bk_startOffsetMs (buckets ?s)) = bs_widthMs ?s"
  proof (rule stored_width_is_recovered [OF _ s, of ?x ?y])
    show "(re_tsMs ?y - 0) div bs_widthMs ?s = (re_tsMs ?x - 0) div bs_widthMs ?s + 1"
      unfolding w by simp
  qed (simp_all add: roomy_def)
  with w show ?thesis unfolding Let_def by blast
qed

end
