(* ===== verification/Distribution.thy ===== *)
theory Distribution
  imports Buckets
begin

text \<open>
  \<open>distribution.ts\<close>: the response-time distribution chart, on doubles as the source computes it.
  An observation is a key of a histogram, so \<open>t\<close>, \<open>min\<close> and \<open>max\<close> are integers.
\<close>

definition GATLING_MAX_PLOTS :: int where
  "GATLING_MAX_PLOTS = 100"

record distribution_result =
  dr_labels :: "int list"
  dr_okCount :: "int list"
  dr_koCount :: "int list"
  dr_okPercent :: "rat list"
  dr_koPercent :: "rat list"
  dr_exactValues :: bool
  dr_overflowCount :: int

definition scalaRound :: "rat \<Rightarrow> int" where
  "scalaRound x = \<lfloor>fadd x (1 / 2)\<rfloor>"

definition gatlingStep :: "int \<Rightarrow> int \<Rightarrow> int \<Rightarrow> rat" where
  "gatlingStep lo hi maxPlots =
     (let range = hi - lo in if range < maxPlots then 1 else fdiv (of_int range) (of_int maxPlots))"

definition gatlingLabels :: "int \<Rightarrow> int \<Rightarrow> rat \<Rightarrow> int list" where
  "gatlingLabels lo hi step =
     (let halfStep = fdiv step 2; length = \<lceil>fdiv (of_int (hi - lo)) step\<rceil>
      in map (\<lambda>i. scalaRound (fadd (fadd (of_int lo) (fmul step (of_nat i))) halfStep)) [0..<nat length])"

text \<open>The remainder \<open>a % b\<close> of doubles is exact and has the sign of the dividend.\<close>

definition js_rem :: "rat \<Rightarrow> rat \<Rightarrow> rat" where
  "js_rem a b = (let q = a / b in a - of_int (if 0 \<le> q then \<lfloor>q\<rfloor> else \<lceil>q\<rceil>) * b)"

definition gatlingBucketFor :: "int \<Rightarrow> int \<Rightarrow> int \<Rightarrow> rat \<Rightarrow> int" where
  "gatlingBucketFor t lo hi step =
     (let value = min t (hi - 1)
      in scalaRound (fadd (fsub (of_int value) (js_rem (of_int (value - lo)) step)) (fdiv step 2)))"

definition bucketIndexFor :: "int \<Rightarrow> int \<Rightarrow> int \<Rightarrow> rat \<Rightarrow> int \<Rightarrow> int" where
  "bucketIndexFor t lo hi step binCount =
     (let value = min t (hi - 1)
      in min (max \<lfloor>fdiv (of_int (value - lo)) step\<rfloor> 0) (binCount - 1))"

text \<open>\<open>into[i] += c\<close> over the entries of a histogram, \<open>i\<close> the bin of the entry's value.\<close>

definition fold_bins :: "(int \<Rightarrow> int) \<Rightarrow> histogram \<Rightarrow> int list \<Rightarrow> int list" where
  "fold_bins bin h out = fold (\<lambda>(v, c) out. out[nat (bin v) := out ! nat (bin v) + c]) (hist_entries h) out"

definition distribution :: "histogram \<Rightarrow> histogram \<Rightarrow> int \<Rightarrow> distribution_result" where
  "distribution ok ko maxPlots =
     (let size = h_total ok + h_total ko; overflowCount = h_overflowCount ok + h_overflowCount ko in
      if size = 0 then \<lparr>dr_labels = [], dr_okCount = [], dr_koCount = [], dr_okPercent = [],
        dr_koPercent = [], dr_exactValues = False, dr_overflowCount = overflowCount\<rparr>
      else let lo = (if h_total ok = 0 then hist_min ko else if h_total ko = 0 then hist_min ok
             else min (hist_min ok) (hist_min ko));
           hi = max (hist_max ok) (hist_max ko);
           percent = (\<lambda>n. fdiv (fmul (of_int n) 100) (of_int size))
      in if hi - lo \<le> maxPlots
         then let labels = js_sort (cmp_by id) (remdups (map fst (hist_entries ok) @ map fst (hist_entries ko)));
                  okCount = map (countAt ok) labels; koCount = map (countAt ko) labels
              in \<lparr>dr_labels = labels, dr_okCount = okCount, dr_koCount = koCount,
                  dr_okPercent = map percent okCount, dr_koPercent = map percent koCount,
                  dr_exactValues = True, dr_overflowCount = overflowCount\<rparr>
         else let step = gatlingStep lo hi maxPlots; labels = gatlingLabels lo hi step;
                  bin = (\<lambda>v. bucketIndexFor v lo hi step (int (length labels)));
                  zeros = replicate (length labels) 0;
                  okCount = fold_bins bin ok zeros; koCount = fold_bins bin ko zeros
              in \<lparr>dr_labels = labels, dr_okCount = okCount, dr_koCount = koCount,
                  dr_okPercent = map percent okCount, dr_koPercent = map percent koCount,
                  dr_exactValues = False, dr_overflowCount = overflowCount\<rparr>)"

section \<open>The bins\<close>

lemma entries_rep: "hist_rep h M \<Longrightarrow> hist_entries h = map (\<lambda>v. (v, int (count M v))) (sorted_list_of_set (set_mset M))"
  using hist_rep_keys [of h M] by (simp add: hist_entries_def hist_rep_def)

lemma sum_counts: "(\<Sum>v \<leftarrow> sorted_list_of_set (set_mset M). int (count M v)) = int (size M)" for M :: "int multiset"
  by (simp add: sum_list_distinct_conv_sum_set size_multiset_overloaded_eq)

lemma fold_bins_nth:
  assumes "hist_rep h M" and "\<And>v. v \<in># M \<Longrightarrow> 0 \<le> bin v \<and> bin v < int (length out)" and "i < length out"
  shows "fold_bins bin h out ! i = out ! i + int (size (filter_mset (\<lambda>v. bin v = int i) M))"
proof -
  have step: "fold (\<lambda>(v, c) out. out[nat (bin v) := out ! nat (bin v) + c]) es out ! i =
      out ! i + (\<Sum>e \<leftarrow> es. if bin (fst e) = int i then snd e else 0)"
    if "\<And>e. e \<in> set es \<Longrightarrow> 0 \<le> bin (fst e) \<and> bin (fst e) < int (length out)" "i < length out" for es out
    using that
  proof (induction es arbitrary: out)
    case Nil
    then show ?case by simp
  next
    case (Cons e es)
    obtain v c where e: "e = (v, c)" by fastforce
    have v: "0 \<le> bin v" "nat (bin v) < length out" using Cons.prems(1) [of e] by (auto simp: e)
    have "\<And>f. f \<in> set es \<Longrightarrow> 0 \<le> bin (fst f) \<and> bin (fst f) < int (length (out[nat (bin v) := out ! nat (bin v) + c]))"
      using Cons.prems(1) by simp
    from Cons.IH [OF this] Cons.prems(2) v show ?case by (auto simp: e nth_list_update add.assoc)
  qed
  have "fold_bins bin h out ! i = out ! i + (\<Sum>e \<leftarrow> hist_entries h. if bin (fst e) = int i then snd e else 0)"
    unfolding fold_bins_def by (rule step) (use assms(2,3) in \<open>auto simp: entries_rep [OF assms(1)]\<close>)
  also have "(\<Sum>e \<leftarrow> hist_entries h. if bin (fst e) = int i then snd e else 0) =
      (\<Sum>v \<leftarrow> sorted_list_of_set (set_mset M). if bin v = int i then int (count M v) else 0)"
    by (simp add: entries_rep [OF assms(1)] comp_def cong: if_cong)
  also have "(\<Sum>v \<leftarrow> sorted_list_of_set (set_mset M). if bin v = int i then int (count M v) else 0) =
      (\<Sum>v \<in> set_mset M. if bin v = int i then int (count M v) else 0)"
    by (simp add: sum_list_distinct_conv_sum_set)
  also have "\<dots> = int (size (filter_mset (\<lambda>v. bin v = int i) M))"
    by (simp add: size_multiset_overloaded_eq sum.inter_filter [symmetric] of_nat_sum)
  finally show ?thesis .
qed

lemma fold_bins_length [simp]: "length (fold_bins bin h out) = length out"
proof -
  have "length (fold (\<lambda>(v, c) out. out[nat (bin v) := out ! nat (bin v) + c]) es out) = length out" for es
    by (induction es arbitrary: out) auto
  then show ?thesis by (simp add: fold_bins_def)
qed

text \<open>Every value has one bin, so the bins add up to the population.\<close>

lemma bins_total:
  assumes "\<And>v. v \<in># M \<Longrightarrow> 0 \<le> bin v \<and> bin v < int n"
  shows "(\<Sum>i \<leftarrow> [0..<n]. int (size (filter_mset (\<lambda>v. bin v = int i) M))) = int (size M)"
  using assms
proof (induction M)
  case empty
  then show ?case by simp
next
  case (add v M)
  have "(\<Sum>i \<leftarrow> [0..<n]. int (size (filter_mset (\<lambda>v. bin v = int i) (add_mset v M)))) =
      (\<Sum>i \<leftarrow> [0..<n]. int (size (filter_mset (\<lambda>v. bin v = int i) M)) + (if bin v = int i then 1 else 0))"
    by (intro arg_cong [of _ _ sum_list] map_cong refl) auto
  also have "\<dots> = int (size M) + (\<Sum>i \<leftarrow> [0..<n]. if bin v = int i then 1 else 0)"
    using add.IH add.prems by (simp only: sum_list_addf) simp
  also have "(\<Sum>i \<leftarrow> [0..<n]. if bin v = int i then 1 else 0) = (1 :: int)"
  proof -
    obtain k where "bin v = int k" "k < n" using add.prems [of v] zero_le_imp_eq_int [of "bin v"] by auto
    then show ?thesis by (simp add: sum_list_distinct_conv_sum_set)
  qed
  finally show ?case by simp
qed

lemma bucketIndexFor_range: "0 < n \<Longrightarrow> 0 \<le> bucketIndexFor t lo hi step n \<and> bucketIndexFor t lo hi step n < n"
  by (simp add: bucketIndexFor_def Let_def)

section \<open>The whole chart\<close>

definition safe_values :: "int multiset \<Rightarrow> bool" where
  "safe_values M \<longleftrightarrow> (\<forall>v \<in># M. 0 \<le> v \<and> v \<le> 2 ^ 53)"

lemma rnd_ge_1: "1 \<le> x \<Longrightarrow> 1 \<le> rnd x"
  using rnd_mono [of 1 x] rnd_of_int [of 1] by simp

lemma labels_nonempty:
  assumes "1 \<le> maxPlots" and "maxPlots < hi - lo" and "hi - lo \<le> 2 ^ 53"
  shows "0 < length (gatlingLabels lo hi (gatlingStep lo hi maxPlots))"
proof -
  define r :: rat where "r = of_int (hi - lo)"
  obtain step where step: "step = gatlingStep lo hi maxPlots" by blast
  have step_def: "step = rnd (r / of_int maxPlots)"
    using assms(2) by (simp add: step gatlingStep_def Let_def fdiv_def r_def)
  have m: "(1 :: rat) \<le> of_int maxPlots" "of_int maxPlots \<le> r"
    using assms(1,2) unfolding r_def by (simp_all only: of_int_1_le_iff of_int_le_iff)
  have "r / of_int maxPlots \<le> r" using m by (simp add: field_simps mult_le_cancel_left1)
  from rnd_mono [OF this] have "step \<le> r" using assms rnd_of_int [of "hi - lo"] unfolding step_def r_def by simp
  moreover have "1 \<le> step" using m unfolding step_def by (intro rnd_ge_1) (simp add: field_simps)
  ultimately have "1 \<le> rnd (r / step)" by (intro rnd_ge_1) (simp add: field_simps)
  then have "0 < \<lceil>fdiv r step\<rceil>" by (simp add: fdiv_def)
  then have "0 < length (gatlingLabels lo hi step)" by (simp add: gatlingLabels_def Let_def r_def)
  then show ?thesis by (simp only: step)
qed

lemma binned:
  assumes "hist_rep h M" and "0 < n" and "bin = (\<lambda>v. bucketIndexFor v lo hi step (int n))"
  shows "fold_bins bin h (replicate n 0) = map (\<lambda>i. int (size (filter_mset (\<lambda>v. bin v = int i) M))) [0..<n]"
    and "sum_list (fold_bins bin h (replicate n 0)) = int (size M)"
proof -
  have range: "0 \<le> bin v \<and> bin v < int n" for v
    unfolding assms(3) using bucketIndexFor_range [of "int n"] assms(2) by simp
  show eq: "fold_bins bin h (replicate n 0) = map (\<lambda>i. int (size (filter_mset (\<lambda>v. bin v = int i) M))) [0..<n]"
    by (rule nth_equalityI) (simp_all add: fold_bins_nth [OF assms(1)] range)
  show "sum_list (fold_bins bin h (replicate n 0)) = int (size M)"
    unfolding eq using range by (intro bins_total) simp
qed

lemma sum_counts_subset:
  assumes "set_mset M \<subseteq> A" and "finite A"
  shows "(\<Sum>v \<leftarrow> sorted_list_of_set A. int (count M v)) = int (size M)"
proof -
  have "(\<Sum>v \<leftarrow> sorted_list_of_set A. int (count M v)) = (\<Sum>v \<in> A. int (count M v))"
    using assms(2) by (simp add: sum_list_distinct_conv_sum_set)
  also have "\<dots> = (\<Sum>v \<in> set_mset M. int (count M v))"
    using assms by (intro sum.mono_neutral_right) (auto simp: count_eq_zero_iff)
  finally show ?thesis by (simp add: size_multiset_overloaded_eq)
qed

lemma extremes_rep:
  assumes "hist_rep ok M" and "hist_rep ko N" and "M + N \<noteq> {#}"
  shows "(if h_total ok = 0 then hist_min ko else if h_total ko = 0 then hist_min ok
      else min (hist_min ok) (hist_min ko)) = Min_mset (M + N)"
  using rep_reads [OF assms(1)] rep_reads [OF assms(2)] assms(3) Min_Max_union(1) [of M N] by auto

lemma max_rep:
  assumes "hist_rep ok M" and "hist_rep ko N" and "M + N \<noteq> {#}" and "\<And>v. v \<in># M + N \<Longrightarrow> 0 \<le> v"
  shows "max (hist_max ok) (hist_max ko) = Max_mset (M + N)"
proof -
  have "0 \<le> Max_mset M" if "M \<noteq> {#}" using that assms(4) by simp
  moreover have "0 \<le> Max_mset N" if "N \<noteq> {#}" using that assms(4) by simp
  ultimately show ?thesis
    using rep_reads [OF assms(1)] rep_reads [OF assms(2)] assms(3) Min_Max_union(2) [of M N] by auto
qed

text \<open>The exact branch and the binned branch of a non-empty chart.\<close>

definition chart :: "bool \<Rightarrow> int list \<Rightarrow> (int multiset \<Rightarrow> int list) \<Rightarrow> int multiset \<Rightarrow> int multiset \<Rightarrow> distribution_result" where
  "chart exact labels counts M N =
     (let percent = (\<lambda>n. fdiv (fmul (of_int n) 100) (of_int (int (size M) + int (size N)))) in
      \<lparr>dr_labels = labels, dr_okCount = counts M, dr_koCount = counts N, dr_okPercent = map percent (counts M),
       dr_koPercent = map percent (counts N), dr_exactValues = exact, dr_overflowCount = 0\<rparr>)"

definition exact_labels :: "int multiset \<Rightarrow> int list" where
  "exact_labels M = sorted_list_of_set (set_mset M)"

lemma distribution_empty:
  assumes "hist_rep ok {#}" and "hist_rep ko {#}"
  shows "distribution ok ko maxPlots = chart False [] (\<lambda>_. []) {#} {#}"
  using rep_reads(1) [OF assms(1)] rep_reads(1) [OF assms(2)] assms
  by (simp add: distribution_def chart_def Let_def hist_rep_def)

lemma distribution_exact:
  assumes "hist_rep ok M" and "hist_rep ko N" and "M + N \<noteq> {#}" and "\<And>v. v \<in># M + N \<Longrightarrow> 0 \<le> v"
    and "Max_mset (M + N) - Min_mset (M + N) \<le> maxPlots"
  shows "distribution ok ko maxPlots = chart True (exact_labels (M + N))
    (\<lambda>P. map (\<lambda>v. int (count P v)) (exact_labels (M + N))) M N"
proof -
  have labels: "js_sort (cmp_by id) (remdups (map fst (hist_entries ok) @ map fst (hist_entries ko))) = exact_labels (M + N)"
  proof -
    have sort: "sort_key id (remdups xs) = sorted_list_of_set (set xs)" for xs :: "int list"
      unfolding id_def by (rule sorted_list_of_set_sort_remdups [symmetric])
    show ?thesis
      unfolding js_sort_by sort exact_labels_def entries_rep [OF assms(1)] entries_rep [OF assms(2)]
      by (simp add: comp_def image_image)
  qed
  have "h_total ok + h_total ko \<noteq> 0" using assms(3) rep_reads(1) [OF assms(1)] rep_reads(1) [OF assms(2)]
    by (simp add: sizes_zero)
  moreover have "countAt ok v = int (count M v)" "countAt ko v = int (count N v)" for v
    using assms(1,2) by (simp_all add: hist_rep_def)
  moreover have "h_overflowCount ok + h_overflowCount ko = 0" using assms(1,2) by (simp add: hist_rep_def)
  ultimately show ?thesis
    using assms(5) rep_reads(1) [OF assms(1)] rep_reads(1) [OF assms(2)] max_rep [OF assms(1-4)]
    unfolding distribution_def extremes_rep [OF assms(1,2,3)] Let_def labels chart_def
    by simp
qed

lemma distribution_binned:
  assumes "hist_rep ok M" and "hist_rep ko N" and "M + N \<noteq> {#}" and "safe_values (M + N)"
    and "maxPlots < Max_mset (M + N) - Min_mset (M + N)" and "1 \<le> maxPlots"
    and "lo = Min_mset (M + N)" and "hi = Max_mset (M + N)" and "step = gatlingStep lo hi maxPlots"
    and "labels = gatlingLabels lo hi step"
    and "counts = (\<lambda>P. map (\<lambda>i. int (size (filter_mset (\<lambda>v. bucketIndexFor v lo hi step (int (length labels)) = int i) P)))
      [0..<length labels])"
  shows "distribution ok ko maxPlots = chart False labels counts M N" and "0 < length labels"
proof -
  have pos: "\<And>v. v \<in># M + N \<Longrightarrow> 0 \<le> v" using assms(4) by (auto simp: safe_values_def)
  have "lo \<in># M + N" "hi \<in># M + N"
    unfolding assms(7,8) using assms(3) by (auto intro!: Min_in Max_in simp del: set_mset_union)
  then have "hi \<le> 2 ^ 53" "0 \<le> lo" using assms(4) by (simp_all only: safe_values_def)
  then have "hi - lo \<le> 2 ^ 53" by simp
  then show len: "0 < length labels"
    unfolding assms(9,10) using assms(5,6) by (intro labels_nonempty) (simp_all add: assms(7,8))
  have "h_total ok + h_total ko \<noteq> 0" using assms(3) rep_reads(1) [OF assms(1)] rep_reads(1) [OF assms(2)]
    by (simp add: sizes_zero)
  moreover have "h_overflowCount ok + h_overflowCount ko = 0" using assms(1,2) by (simp add: hist_rep_def)
  moreover have "\<not> hi - lo \<le> maxPlots" using assms(5) by (simp add: assms(7,8))
  moreover have hi: "max (hist_max ok) (hist_max ko) = hi"
    unfolding assms(8) using pos by (intro max_rep [OF assms(1-3)]) simp
  ultimately show "distribution ok ko maxPlots = chart False labels counts M N"
    using rep_reads(1) [OF assms(1)] rep_reads(1) [OF assms(2)]
      binned(1) [OF assms(1) len refl] binned(1) [OF assms(2) len refl]
    unfolding distribution_def extremes_rep [OF assms(1,2,3)] hi Let_def chart_def
      assms(7,8) [symmetric] assms(9) [symmetric] assms(10) [symmetric] assms(11)
    by simp
qed

section \<open>Properties\<close>

text \<open>
  The chart of any two populations counts every observation once:
  the counts of each series add up to its size and the percentages are of the combined size.
  A narrow range lists the distinct values with their multiplicities; a wide one counts per bin
  of \<open>bucketIndexFor\<close>, which always names an existing bin.
\<close>

lemma distribution_counts_everything:
  assumes "hist_rep ok M" and "hist_rep ko N" and "safe_values (M + N)" and "1 \<le> maxPlots"
    and "d = distribution ok ko maxPlots"
  shows "length (dr_okCount d) = length (dr_labels d) \<and> length (dr_koCount d) = length (dr_labels d) \<and>
    sum_list (dr_okCount d) = int (size M) \<and> sum_list (dr_koCount d) = int (size N) \<and>
    dr_okPercent d = map (\<lambda>n. fdiv (fmul (of_int n) 100) (of_int (int (size M) + int (size N)))) (dr_okCount d) \<and>
    dr_koPercent d = map (\<lambda>n. fdiv (fmul (of_int n) 100) (of_int (int (size M) + int (size N)))) (dr_koCount d) \<and>
    (if dr_exactValues d then dr_labels d = sorted_list_of_set (set_mset (M + N)) \<and>
       dr_okCount d = map (\<lambda>v. int (count M v)) (dr_labels d) \<and> dr_koCount d = map (\<lambda>v. int (count N v)) (dr_labels d)
     else \<forall>i < length (dr_labels d).
       let bin = (\<lambda>v. bucketIndexFor v (Min_mset (M + N)) (Max_mset (M + N))
             (gatlingStep (Min_mset (M + N)) (Max_mset (M + N)) maxPlots) (int (length (dr_labels d)))) in
       dr_okCount d ! i = int (size (filter_mset (\<lambda>v. bin v = int i) M)) \<and>
       dr_koCount d ! i = int (size (filter_mset (\<lambda>v. bin v = int i) N)))"
proof -
  have pos: "\<And>v. v \<in># M + N \<Longrightarrow> 0 \<le> v" using assms(3) by (auto simp: safe_values_def)
  consider "M + N = {#}" | "M + N \<noteq> {#}" "Max_mset (M + N) - Min_mset (M + N) \<le> maxPlots"
    | "M + N \<noteq> {#}" "maxPlots < Max_mset (M + N) - Min_mset (M + N)" by linarith
  then show ?thesis
  proof cases
    case 1
    then show ?thesis using distribution_empty [of ok ko maxPlots] assms(1,2) by (simp add: assms(5) chart_def Let_def)
  next
    case 2
    have "sum_list (map (\<lambda>v. int (count P v)) (exact_labels (M + N))) = int (size P)"
      if "set_mset P \<subseteq> set_mset (M + N)" for P
      unfolding exact_labels_def by (rule sum_counts_subset [OF that]) simp
    from this [of M] this [of N] show ?thesis
      using distribution_exact [OF assms(1,2) 2(1) _ 2(2)] pos
      by (simp add: assms(5) chart_def Let_def exact_labels_def)
  next
    case 3
    note d = distribution_binned [OF assms(1,2) 3(1) assms(3) 3(2) assms(4) refl refl refl refl refl]
    show ?thesis
      using binned(2) [OF assms(1) d(2) refl] binned(2) [OF assms(2) d(2) refl]
      unfolding assms(5) d(1) chart_def Let_def binned(1) [OF assms(1) d(2) refl] binned(1) [OF assms(2) d(2) refl]
      by simp
  qed
qed

lemma sample_safe: "safe_values ({#4#} + {#9#})"
  by (simp add: safe_values_def)

lemma distribution_counts_everything_witness:
  "let d = distribution (hist_record 4 new_histogram) (hist_record 9 new_histogram) 100; M = {#4#}; N = {#9#} in
    length (dr_okCount d) = length (dr_labels d) \<and> length (dr_koCount d) = length (dr_labels d) \<and>
    sum_list (dr_okCount d) = int (size M) \<and> sum_list (dr_koCount d) = int (size N)"
  using distribution_counts_everything [OF sample_rep sample_safe _ refl, of 100] unfolding Let_def by simp

text \<open>The labels ascend, since every operation of their formula is monotone in the index.\<close>

definition label_at :: "int \<Rightarrow> rat \<Rightarrow> nat \<Rightarrow> int" where
  "label_at lo step i = scalaRound (fadd (fadd (of_int lo) (fmul step (of_nat i))) (fdiv step 2))"

lemma label_mono: "0 \<le> step \<Longrightarrow> i \<le> j \<Longrightarrow> label_at lo step i \<le> label_at lo step j"
  unfolding label_at_def scalaRound_def fadd_def fmul_def
  by (intro floor_mono rnd_mono add_mono order.refl mult_left_mono) simp_all

lemma gatlingLabels_eq:
  "gatlingLabels lo hi step = map (label_at lo step) [0..<nat \<lceil>fdiv (of_int (hi - lo)) step\<rceil>]"
  by (simp add: gatlingLabels_def Let_def label_at_def)

lemma not_a_label:
  assumes "0 \<le> step" and "label_at lo step k < t" and "t < label_at lo step (Suc k)"
  shows "t \<notin> set (gatlingLabels lo hi step)"
proof
  assume "t \<in> set (gatlingLabels lo hi step)"
  then obtain i where i: "t = label_at lo step i" by (auto simp: gatlingLabels_eq)
  then show False
    using label_mono [OF assms(1), of i k lo] label_mono [OF assms(1), of "Suc k" i lo] assms(2,3)
    by (cases "i \<le> k") auto
qed

text \<open>
  Why the chart does not place observations by Gatling's own
  rule: over the range from 4 to 168 its label for an observation of 65 ms is not among the
  labels it draws, so the observation would be dropped; \<open>bucketIndexFor\<close> gives it a bin.
\<close>

lemma gatling_rule_drops_observations:
  "let step = gatlingStep 4 168 GATLING_MAX_PLOTS; labels = gatlingLabels 4 168 step in
   gatlingBucketFor 65 4 168 step \<notin> set labels \<and>
   bucketIndexFor 65 4 168 step (int (length labels)) = 37 \<and> 37 < length labels"
proof -
  define step :: rat where "step = 7385903388887613 / 4503599627370496"
  have step: "gatlingStep 4 168 GATLING_MAX_PLOTS = step" unfolding step_def by code_simp
  have "gatlingBucketFor 65 4 168 step \<notin> set (gatlingLabels 4 168 step)"
  proof (rule not_a_label [of _ _ 36])
    show "0 \<le> step" by (simp add: step_def)
    have b: "gatlingBucketFor 65 4 168 step = 65" unfolding step_def by code_simp
    have l: "label_at 4 step 36 = 64" "label_at 4 step (Suc 36) = 66" unfolding step_def by code_simp+
    show "label_at 4 step 36 < gatlingBucketFor 65 4 168 step" "gatlingBucketFor 65 4 168 step < label_at 4 step (Suc 36)"
      unfolding b l by simp_all
  qed
  moreover have "\<lceil>fdiv (of_int (168 - 4)) step\<rceil> = 100" unfolding step_def by code_simp
  then have len: "length (gatlingLabels 4 168 step) = 100" by (simp add: gatlingLabels_eq)
  moreover have "bucketIndexFor 65 4 168 step 100 = 37" unfolding step_def by code_simp
  ultimately show ?thesis unfolding step Let_def by simp
qed

end
