(* ===== verification/Errors.thy ===== *)
theory Errors
  imports Buckets
begin

text \<open>
  \<open>errors-rollup.ts\<close> and \<open>errors-series.ts\<close>: the errors table of a run and its failures on the
  time axis. \<open>localeCompare\<close> is the parameter \<open>lc\<close> of every definition that sorts by it.
\<close>

section \<open>The errors table\<close>

record error_tally =
  et_message :: "jstr option"
  et_count :: int

type_synonym error_rollup = "(jstr, int) jmap"

definition bump :: "'k \<Rightarrow> int \<Rightarrow> ('k, int) jmap \<Rightarrow> ('k, int) jmap" where
  "bump k n m = jm_set k (jm_get_or 0 m k + n) m"

definition error_rollup_add :: "jstr \<Rightarrow> error_rollup \<Rightarrow> error_rollup" where
  "error_rollup_add message counts = bump message 1 counts"

definition cmp_count_desc :: "(jstr \<Rightarrow> jstr \<Rightarrow> int) \<Rightarrow> jstr \<times> int \<Rightarrow> jstr \<times> int \<Rightarrow> int" where
  "cmp_count_desc lc = cmp_then (\<lambda>a b. snd b - snd a) (\<lambda>a b. lc (fst a) (fst b))"

definition error_rollup_top :: "(jstr \<Rightarrow> jstr \<Rightarrow> int) \<Rightarrow> nat \<Rightarrow> error_rollup \<Rightarrow> error_tally list" where
  "error_rollup_top lc limit counts =
     (let sorted = map (\<lambda>(m, c). \<lparr>et_message = Some m, et_count = c\<rparr>) (js_sort (cmp_count_desc lc) counts) in
      if length sorted \<le> limit then sorted
      else take limit sorted @ [\<lparr>et_message = None, et_count = (\<Sum>e \<leftarrow> drop limit sorted. et_count e)\<rparr>])"

lemma bump_get: "jm_get (bump k n m) = (jm_get m)(k \<mapsto> jm_get_or 0 m k + n)"
  by (simp add: bump_def)

lemma bump_get_or: "jm_get_or 0 (bump k n m) x = jm_get_or 0 m x + (if x = k then n else 0)"
  by (simp add: bump_def jm_get_or_def)

lemma jm_ok_bump [simp, inv_intros]: "jm_ok m \<Longrightarrow> jm_ok (bump k n m)"
  by (simp add: bump_def)

text \<open>A map of positive counters holds the multiset \<open>M\<close>.\<close>

definition counts_rep :: "('k, int) jmap \<Rightarrow> 'k multiset \<Rightarrow> bool" where
  "counts_rep m M \<longleftrightarrow> jm_ok m \<and> (\<forall>k. jm_get m k = (if k \<in># M then Some (int (count M k)) else None))"

lemma counts_rep_Nil [simp]: "counts_rep [] {#}"
  by (simp add: counts_rep_def)

lemma counts_rep_or: "counts_rep m M \<Longrightarrow> jm_get_or 0 m k = int (count M k)"
  by (auto simp: counts_rep_def jm_get_or_def not_in_iff)

lemma counts_rep_bump: "counts_rep m M \<Longrightarrow> 0 < n \<Longrightarrow> counts_rep (bump k (int n) m) (M + replicate_mset n k)"
  using counts_rep_or [of m M k] by (auto simp: counts_rep_def bump_get not_in_iff)

lemma counts_rep_entry: "counts_rep m M \<Longrightarrow> (k, n) \<in> set m \<longleftrightarrow> k \<in># M \<and> n = int (count M k)"
  unfolding counts_rep_def jm_ok_def by (metis map_of_eq_Some_iff option.inject option.distinct(1))

lemma counts_rep_keys: "counts_rep m M \<Longrightarrow> fst ` set m = set_mset M"
  using counts_rep_entry [of m M] by (force simp: image_iff)

lemma counts_rep_filter_sum:
  assumes "counts_rep m M"
  shows "(\<Sum>e \<leftarrow> filter (\<lambda>e. P (fst e)) m. snd e) = int (size (filter_mset P M))"
proof -
  have d: "distinct m" using assms by (simp add: counts_rep_def jm_ok_def distinct_map)
  have "(\<Sum>e \<leftarrow> filter (\<lambda>e. P (fst e)) m. snd e) = (\<Sum>e \<in> {e \<in> set m. P (fst e)}. snd e)"
    using d by (simp add: sum_list_distinct_conv_sum_set)
  also have "\<dots> = (\<Sum>k \<in> {k \<in> set_mset M. P k}. int (count M k))"
    by (rule sum.reindex_bij_witness [of _ "\<lambda>k. (k, int (count M k))" fst])
      (auto simp: counts_rep_entry [OF assms])
  also have "\<dots> = int (size (filter_mset P M))"
    by (simp add: size_multiset_overloaded_eq)
  finally show ?thesis .
qed

lemma counts_rep_sum: "counts_rep m M \<Longrightarrow> (\<Sum>e \<leftarrow> m. snd e) = int (size M)"
  using counts_rep_filter_sum [of m M "\<lambda>_. True"] by simp

text \<open>Adding the entries of one map to another, as \<open>#halve\<close> and the run-wide totals do.\<close>

definition add_counts :: "('k, int) jmap \<Rightarrow> ('k, int) jmap \<Rightarrow> ('k, int) jmap" where
  "add_counts from target = fold (\<lambda>(k, n). bump k n) from target"

lemma counts_rep_add:
  assumes "counts_rep from M" and "counts_rep target N"
  shows "counts_rep (add_counts from target) (N + M)"
proof -
  have step: "\<lbrakk>counts_rep target N; \<forall>e \<in> set es. 0 < snd e\<rbrakk> \<Longrightarrow>
      counts_rep (fold (\<lambda>(k, n). bump k n) es target) (N + (\<Sum>e \<leftarrow> es. replicate_mset (nat (snd e)) (fst e)))"
    for es target :: "('a, int) jmap" and N
  proof (induction es arbitrary: target N)
    case Nil
    then show ?case by simp
  next
    case (Cons e es)
    have "counts_rep (bump (fst e) (int (nat (snd e))) target) (N + replicate_mset (nat (snd e)) (fst e))"
      using Cons.prems by (intro counts_rep_bump) simp_all
    from Cons.IH [OF this] Cons.prems show ?case by (cases e) (simp add: add.assoc)
  qed
  have "\<forall>e \<in> set from. 0 < snd e" using counts_rep_entry [OF assms(1)] by auto
  moreover have "(\<Sum>e \<leftarrow> from. replicate_mset (nat (snd e)) (fst e)) = M"
  proof (rule multiset_eqI)
    fix k
    have d: "distinct (map fst from)" using assms(1) by (simp add: counts_rep_def jm_ok_def)
    have "count (\<Sum>e \<leftarrow> from. replicate_mset (nat (snd e)) (fst e)) k =
        (case map_of from k of None \<Rightarrow> 0 | Some n \<Rightarrow> nat n)"
      using d by (induction "from") (auto simp: map_of_eq_None_iff[symmetric] split: option.splits)
    also have "\<dots> = count M k" using assms(1) by (simp add: counts_rep_def not_in_iff)
    finally show "count (\<Sum>e \<leftarrow> from. replicate_mset (nat (snd e)) (fst e)) k = count M k" .
  qed
  ultimately show ?thesis using step [OF assms(2), of "from"] by (simp add: add_counts_def)
qed

lemma error_rollup_rep: "counts_rep (fold error_rollup_add msgs []) (mset msgs)"
proof -
  have "counts_rep m M \<Longrightarrow> counts_rep (fold error_rollup_add msgs m) (M + mset msgs)" for m M
  proof (induction msgs arbitrary: m M)
    case Nil
    then show ?case by simp
  next
    case (Cons x xs)
    have "counts_rep (error_rollup_add x m) (add_mset x M)"
      using counts_rep_bump [OF Cons.prems, of 1 x] by (simp add: error_rollup_add_def)
    from Cons.IH [OF this] show ?case by simp
  qed
  from this [of "[]" "{#}"] show ?thesis by simp
qed

lemma consistent_desc:
  assumes "consistent_cmp lc"
  shows "consistent_cmp (cmp_count_desc lc)"
proof
  fix a b c :: "jstr \<times> int"
  show "cmp_count_desc lc a b \<le> 0 \<or> cmp_count_desc lc b a \<le> 0"
    using consistent_cmp.cmp_total [OF assms, of "fst a" "fst b"]
    by (auto simp: cmp_count_desc_def cmp_then_def)
  assume "cmp_count_desc lc a b \<le> 0" "cmp_count_desc lc b c \<le> 0"
  then show "cmp_count_desc lc a c \<le> 0"
    using consistent_cmp.cmp_trans [OF assms, of "fst a" "fst b" "fst c"]
    by (auto simp: cmp_count_desc_def cmp_then_def split: if_splits)
qed

lemma sorted_desc:
  assumes "consistent_cmp lc"
  shows "sorted_wrt (\<lambda>a b. snd b \<le> snd a) (js_sort (cmp_count_desc lc) m)"
  by (rule sorted_wrt_mono_rel [OF _ consistent_cmp.js_sort_sorted [OF consistent_desc [OF assms]]])
    (auto simp: cmp_count_desc_def cmp_then_def split: if_splits)

lemma error_rollup_top_sum:
  "(\<Sum>r \<leftarrow> error_rollup_top lc limit (fold error_rollup_add msgs []). et_count r) = int (length msgs)"
proof -
  define c where "c = fold error_rollup_add msgs []"
  define es where "es = js_sort (cmp_count_desc lc) c"
  have "(\<Sum>e \<leftarrow> es. snd e) = int (length msgs)"
    using counts_rep_sum [OF error_rollup_rep [of msgs]] by (simp add: es_def c_def)
  moreover have "(\<Sum>e \<leftarrow> take limit es. snd e) + (\<Sum>e \<leftarrow> drop limit es. snd e) = (\<Sum>e \<leftarrow> es. snd e)"
    by (metis append_take_drop_id map_append sum_list_append)
  ultimately show ?thesis
    by (simp add: error_rollup_top_def Let_def c_def [symmetric] es_def [symmetric] take_map drop_map comp_def case_prod_unfold)
qed

section \<open>Failures on the time axis\<close>

definition ERROR_SERIES_KEEP :: nat where "ERROR_SERIES_KEEP = 5"
definition MAX_TRACKED_MESSAGES :: nat where "MAX_TRACKED_MESSAGES = 200"

record error_series_row =
  er_startOffsetMs :: int
  er_message :: "jstr option"
  er_count :: int

record error_bucket =
  eb_counts :: "(jstr, int) jmap"
  eb_overflow :: int

record error_series =
  es_startMs :: int
  es_maxBuckets :: int
  es_widthMs :: int
  es_buckets :: "(int, error_bucket) jmap"
  es_tracked :: "jstr list"

definition new_error_series :: "int \<Rightarrow> int \<Rightarrow> error_series" where
  "new_error_series startMs maxBuckets = \<lparr>es_startMs = startMs, es_maxBuckets = max 1 maxBuckets,
     es_widthMs = 1000, es_buckets = [], es_tracked = []\<rparr>"

definition error_put :: "int \<Rightarrow> int \<Rightarrow> error_bucket \<Rightarrow> error_bucket" where
  "error_put ni newWidth b = b"

definition error_join :: "error_bucket \<Rightarrow> error_bucket \<Rightarrow> error_bucket" where
  "error_join target b = target\<lparr>eb_counts := add_counts (eb_counts b) (eb_counts target),
     eb_overflow := eb_overflow target + eb_overflow b\<rparr>"

text \<open>A \<open>Set\<close> keeps its insertion order.\<close>

definition set_insert :: "'a \<Rightarrow> 'a list \<Rightarrow> 'a list" where
  "set_insert x xs = (if x \<in> set xs then xs else xs @ [x])"

definition admits :: "error_series \<Rightarrow> jstr \<Rightarrow> bool" where
  "admits s message \<longleftrightarrow> message \<in> set (es_tracked s) \<or> length (es_tracked s) < MAX_TRACKED_MESSAGES"

definition error_series_add :: "int \<Rightarrow> jstr \<Rightarrow> error_series \<Rightarrow> error_series option" where
  "error_series_add tsMs message s =
     (let idx = (tsMs - es_startMs s) div es_widthMs s;
          bucket = (case jm_get (es_buckets s) idx of Some b \<Rightarrow> b | None \<Rightarrow> \<lparr>eb_counts = [], eb_overflow = 0\<rparr>);
          bucket' = (if admits s message then bucket\<lparr>eb_counts := bump message 1 (eb_counts bucket)\<rparr>
            else bucket\<lparr>eb_overflow := eb_overflow bucket + 1\<rparr>);
          tracked = (if admits s message then set_insert message (es_tracked s) else es_tracked s)
      in map_option (\<lambda>(w, m). s\<lparr>es_widthMs := w, es_buckets := m, es_tracked := tracked\<rparr>)
           (coalesce error_put error_join (es_maxBuckets s) (es_widthMs s) (jm_set idx bucket' (es_buckets s))))"

text \<open>\<open>while (this.#widthMs < widthMs) this.#halve()\<close>\<close>

partial_function (option) widen :: "int \<Rightarrow> int \<Rightarrow> (int, error_bucket) jmap \<Rightarrow> (int \<times> (int, error_bucket) jmap) option" where
  "widen widthMs w m = (if w < widthMs then widen widthMs (w * 2) (halve error_put error_join w m) else Some (w, m))"

declare widen.simps [code]

definition error_totals :: "(int, error_bucket) jmap \<Rightarrow> (jstr, int) jmap" where
  "error_totals m = fold (\<lambda>(i, b) totals. add_counts (eb_counts b) totals) m []"

definition error_rows :: "int \<Rightarrow> jstr list \<Rightarrow> int \<times> error_bucket \<Rightarrow> error_series_row list" where
  "error_rows w ranked e = (case e of (idx, b) \<Rightarrow>
     (let startOffsetMs = idx * w;
          other = eb_overflow b + (\<Sum>e \<leftarrow> filter (\<lambda>e. fst e \<notin> set ranked) (eb_counts b). snd e)
      in concat (map (\<lambda>m. case jm_get (eb_counts b) m of None \<Rightarrow> []
             | Some n \<Rightarrow> [\<lparr>er_startOffsetMs = startOffsetMs, er_message = Some m, er_count = n\<rparr>]) ranked) @
         (if 0 < other then [\<lparr>er_startOffsetMs = startOffsetMs, er_message = None, er_count = other\<rparr>] else [])))"

record error_series_result =
  ez_bucketWidthMs :: int
  ez_rows :: "error_series_row list"

definition error_series_finish :: "(jstr \<Rightarrow> jstr \<Rightarrow> int) \<Rightarrow> int \<Rightarrow> nat \<Rightarrow> error_series \<Rightarrow>
    (error_series_result \<times> error_series) option" where
  "error_series_finish lc widthMs keep s =
     map_option (\<lambda>(w, m).
       let ranked = map fst (take keep (js_sort (cmp_count_desc lc) (error_totals m)))
       in (\<lparr>ez_bucketWidthMs = w, ez_rows = concat (map (error_rows w ranked) (by_index m))\<rparr>,
           s\<lparr>es_widthMs := w, es_buckets := m\<rparr>))
     (widen widthMs (es_widthMs s) (es_buckets s))"

text \<open>A failure, with whether its message was admitted when it arrived.\<close>

record failure =
  fl_tsMs :: int
  fl_message :: jstr
  fl_admitted :: bool

definition admitted :: "failure multiset \<Rightarrow> jstr multiset" where
  "admitted M = image_mset fl_message (filter_mset fl_admitted M)"

definition turned_away :: "failure multiset \<Rightarrow> failure multiset" where
  "turned_away M = filter_mset (\<lambda>x. \<not> fl_admitted x) M"

definition error_bucket_rep :: "int \<Rightarrow> error_bucket \<Rightarrow> failure multiset \<Rightarrow> bool" where
  "error_bucket_rep off b M \<longleftrightarrow> counts_rep (eb_counts b) (admitted M) \<and> eb_overflow b = int (size (turned_away M))"

interpretation es: coalescing "\<lambda>x. fl_tsMs x - s" error_bucket_rep error_put error_join for s :: int
proof unfold_locales
  fix off off' :: int and b b' :: error_bucket and M N :: "failure multiset"
  assume "error_bucket_rep off b M" "error_bucket_rep off' b' N"
  then show "error_bucket_rep off (error_join b b') (M + N)"
    by (simp add: error_bucket_rep_def error_join_def admitted_def turned_away_def counts_rep_add)
qed (simp add: error_bucket_rep_def error_put_def)

section \<open>Admission is first seen\<close>

definition first_seen :: "'a list \<Rightarrow> 'a list" where
  "first_seen xs = fold set_insert xs []"

definition track :: "jstr \<Rightarrow> jstr list \<Rightarrow> jstr list" where
  "track m T = (if m \<in> set T \<or> length T < MAX_TRACKED_MESSAGES then set_insert m T else T)"

lemma set_insert_simps [simp]: "set (set_insert x xs) = insert x (set xs)"
  "distinct (set_insert x xs) = distinct xs"
  by (auto simp: set_insert_def)

lemma first_seen_snoc: "first_seen (xs @ [x]) = set_insert x (first_seen xs)"
  by (simp add: first_seen_def)

lemma first_seen_set [simp]: "set (first_seen xs) = set xs" "distinct (first_seen xs)"
  by (induction xs rule: rev_induct) (simp_all add: first_seen_snoc, simp_all add: first_seen_def)

lemma track_first_seen: "fold track xs [] = take MAX_TRACKED_MESSAGES (first_seen xs)"
proof (induction xs rule: rev_induct)
  case Nil
  then show ?case by (simp add: first_seen_def)
next
  case (snoc x xs)
  have "track x (take MAX_TRACKED_MESSAGES ys) = take MAX_TRACKED_MESSAGES (set_insert x ys)" for ys
  proof (cases "length ys < MAX_TRACKED_MESSAGES")
    case False
    then show ?thesis by (auto simp: track_def set_insert_def)
  qed (simp add: track_def set_insert_def)
  then show ?case by (simp add: snoc first_seen_snoc)
qed

section \<open>The series of failures\<close>

definition error_series_fit :: "error_series \<Rightarrow> failure multiset \<Rightarrow> bool" where
  "error_series_fit s M \<longleftrightarrow> is_width (es_widthMs s) \<and> 1 \<le> es_maxBuckets s \<and>
     int (length (es_buckets s)) \<le> es_maxBuckets s \<and>
     axis_rep (\<lambda>x. fl_tsMs x - es_startMs s) error_bucket_rep (es_widthMs s) (es_buckets s) M \<and>
     (\<forall>x \<in># M. fl_admitted x \<longleftrightarrow> fl_message x \<in> set (es_tracked s)) \<and>
     (length (es_tracked s) < MAX_TRACKED_MESSAGES \<longrightarrow> (\<forall>x \<in># M. fl_admitted x))"

definition error_series_rep :: "error_series \<Rightarrow> failure multiset \<Rightarrow> bool" where
  "error_series_rep s M \<longleftrightarrow> error_series_fit s M \<and>
     narrowest (es_maxBuckets s) (\<lambda>x. fl_tsMs x - es_startMs s) (es_widthMs s) M"

lemma error_series_rep_new: "error_series_rep (new_error_series startMs maxBuckets) {#}"
  by (simp add: error_series_rep_def error_series_fit_def new_error_series_def)

text \<open>\<open>K\<close> is what is known of the width and kept by doubling it.\<close>

lemma error_series_fit_add:
  fixes s :: error_series and tsMs :: int and message :: jstr
  defines "x \<equiv> \<lparr>fl_tsMs = tsMs, fl_message = message, fl_admitted = admits s message\<rparr>"
  assumes fit: "error_series_fit s M" and room: "2 \<le> es_maxBuckets s \<or> (\<forall>y \<in># add_mset x M. es_startMs s \<le> fl_tsMs y)"
    and K: "K (es_widthMs s)" "\<And>w. K w \<Longrightarrow> is_width w"
      "\<And>w. K w \<Longrightarrow> es_maxBuckets s < int (card ((\<lambda>y. (fl_tsMs y - es_startMs s) div w) ` set_mset (add_mset x M))) \<Longrightarrow> K (w * 2)"
  shows "\<exists>s'. error_series_add tsMs message s = Some s' \<and> error_series_fit s' (add_mset x M) \<and> K (es_widthMs s') \<and>
    es_startMs s' = es_startMs s \<and> es_maxBuckets s' = es_maxBuckets s \<and> es_tracked s' = track message (es_tracked s)"
proof -
  define w where "w = es_widthMs s"
  define idx where "idx = (tsMs - es_startMs s) div w"
  define b where "b = (case jm_get (es_buckets s) idx of Some b \<Rightarrow> b | None \<Rightarrow> \<lparr>eb_counts = [], eb_overflow = 0\<rparr>)"
  define b' where "b' = (if admits s message then b\<lparr>eb_counts := bump message 1 (eb_counts b)\<rparr>
            else b\<lparr>eb_overflow := eb_overflow b + 1\<rparr>)"
  define m where "m = jm_set idx b' (es_buckets s)"
  let ?time = "\<lambda>x. fl_tsMs x - es_startMs s"
  have w: "K w" "0 < w" and axis: "axis_rep ?time error_bucket_rep w (es_buckets s) M"
    using fit K is_width_pos by (auto simp: error_series_fit_def w_def)
  have "slot_rep error_bucket_rep (idx * w) (jm_get (es_buckets s) idx) (in_slot ?time w idx M)"
    using axis by (simp add: axis_rep_def)
  then have "error_bucket_rep (idx * w) b (in_slot ?time w idx M)"
    by (cases "jm_get (es_buckets s) idx") (simp_all add: b_def error_bucket_rep_def admitted_def turned_away_def)
  then have "error_bucket_rep (idx * w) b' (add_mset x (in_slot ?time w idx M))"
    using counts_rep_bump [of "eb_counts b" _ 1 message]
    by (auto simp: error_bucket_rep_def b'_def admitted_def turned_away_def x_def)
  then have m: "axis_rep ?time error_bucket_rep w m (add_mset x M)"
    unfolding m_def by (intro axis_rep_add [OF axis]) (simp_all add: idx_def x_def)
  have ok: "jm_ok m" using m by (simp add: axis_rep_def)
  have "2 \<le> es_maxBuckets s \<or> 1 \<le> es_maxBuckets s \<and> (\<forall>i \<in> fst ` set m. 0 \<le> i)"
    using fit room w(2) unfolding axis_rep_keys [OF m] error_series_fit_def
    by (auto simp: pos_imp_zdiv_nonneg_iff)
  from coalesce_returns [OF ok this, of error_put error_join w] obtain w' m' where
    c: "coalesce error_put error_join (es_maxBuckets s) w m = Some (w', m')" by blast
  have tracked: "(if admits s message then set_insert message (es_tracked s) else es_tracked s) = track message (es_tracked s)"
    by (simp add: admits_def track_def)
  define s' where "s' = s\<lparr>es_widthMs := w', es_buckets := m', es_tracked := track message (es_tracked s)\<rparr>"
  have "error_series_add tsMs message s = Some s'"
    using c unfolding error_series_add_def Let_def w_def [symmetric] idx_def [symmetric] b_def [symmetric]
      b'_def [symmetric] m_def [symmetric] tracked s'_def by simp
  moreover have end': "axis_rep ?time error_bucket_rep w' m' (add_mset x M)" "K w'" "int (length m') \<le> es_maxBuckets s"
    using es.axis_rep_coalesce_inv [OF m w(1) c _ K(3)] K(2) is_width_pos by blast+
  moreover have "error_series_fit s' (add_mset x M)"
  proof -
    have "\<forall>y \<in># add_mset x M. fl_admitted y \<longleftrightarrow> fl_message y \<in> set (track message (es_tracked s))"
      using fit by (auto simp: error_series_fit_def track_def admits_def x_def)
    moreover have "length (track message (es_tracked s)) < MAX_TRACKED_MESSAGES \<longrightarrow> (\<forall>y \<in># add_mset x M. fl_admitted y)"
      using fit by (auto simp: error_series_fit_def track_def admits_def x_def set_insert_def split: if_splits)
    ultimately show ?thesis
      using end' K(2) fit by (simp add: error_series_fit_def s'_def)
  qed
  ultimately show ?thesis by (simp add: s'_def)
qed

lemma error_series_rep_add:
  fixes s :: error_series and tsMs :: int and message :: jstr
  defines "x \<equiv> \<lparr>fl_tsMs = tsMs, fl_message = message, fl_admitted = admits s message\<rparr>"
  assumes "error_series_rep s M" and "2 \<le> es_maxBuckets s \<or> (\<forall>y \<in># add_mset x M. es_startMs s \<le> fl_tsMs y)"
  shows "\<exists>s'. error_series_add tsMs message s = Some s' \<and> error_series_rep s' (add_mset x M) \<and>
    es_startMs s' = es_startMs s \<and> es_maxBuckets s' = es_maxBuckets s \<and> es_tracked s' = track message (es_tracked s)"
proof -
  let ?K = "\<lambda>w. narrowest (es_maxBuckets s) (\<lambda>y. fl_tsMs y - es_startMs s) w (add_mset x M)"
  have "error_series_fit s M" "?K (es_widthMs s)" using assms(2) by (simp_all add: error_series_rep_def narrowest_add)
  moreover have "is_width w" if "?K w" for w using that by (simp add: narrowest_def)
  ultimately have "\<exists>s'. error_series_add tsMs message s = Some s' \<and> error_series_fit s' (add_mset x M) \<and> ?K (es_widthMs s') \<and>
      es_startMs s' = es_startMs s \<and> es_maxBuckets s' = es_maxBuckets s \<and> es_tracked s' = track message (es_tracked s)"
    using assms(3) narrowest_double unfolding x_def by (intro error_series_fit_add)
  then show ?thesis by (auto simp: error_series_rep_def)
qed

fun add_failures :: "(int \<times> jstr) list \<Rightarrow> error_series \<Rightarrow> error_series option" where
  "add_failures [] s = Some s"
| "add_failures ((ts, m) # xs) s = Option.bind (error_series_add ts m s) (add_failures xs)"

definition event_of :: "failure \<Rightarrow> int \<times> jstr" where
  "event_of x = (fl_tsMs x, fl_message x)"

lemma add_failures_rep:
  assumes "error_series_rep s M" and "2 \<le> es_maxBuckets s \<or> (\<forall>y \<in># M. es_startMs s \<le> fl_tsMs y) \<and> (\<forall>e \<in> set xs. es_startMs s \<le> fst e)"
  shows "\<exists>s' N. add_failures xs s = Some s' \<and> error_series_rep s' (M + N) \<and> image_mset event_of N = mset xs \<and>
    es_startMs s' = es_startMs s \<and> es_maxBuckets s' = es_maxBuckets s \<and> es_tracked s' = fold track (map snd xs) (es_tracked s)"
  using assms
proof (induction xs arbitrary: s M)
  case Nil
  then show ?case by auto
next
  case (Cons e xs)
  obtain ts m where e: "e = (ts, m)" by fastforce
  define x where "x = \<lparr>fl_tsMs = ts, fl_message = m, fl_admitted = admits s m\<rparr>"
  have "2 \<le> es_maxBuckets s \<or> (\<forall>y \<in># add_mset x M. es_startMs s \<le> fl_tsMs y)"
    using Cons.prems(2) by (auto simp: x_def e)
  from error_series_rep_add [OF Cons.prems(1) this [unfolded x_def]] obtain s1 where
    s1: "error_series_add ts m s = Some s1" "error_series_rep s1 (add_mset x M)" "es_startMs s1 = es_startMs s"
      "es_maxBuckets s1 = es_maxBuckets s" "es_tracked s1 = track m (es_tracked s)"
    unfolding x_def by blast
  have "2 \<le> es_maxBuckets s1 \<or> (\<forall>y \<in># add_mset x M. es_startMs s1 \<le> fl_tsMs y) \<and> (\<forall>e \<in> set xs. es_startMs s1 \<le> fst e)"
    using Cons.prems(2) s1(3,4) by (auto simp: x_def e)
  from Cons.IH [OF s1(2) this] obtain s' N where
    "add_failures xs s1 = Some s'" "error_series_rep s' (add_mset x M + N)" "image_mset event_of N = mset xs"
    "es_startMs s' = es_startMs s1" "es_maxBuckets s' = es_maxBuckets s1"
    "es_tracked s' = fold track (map snd xs) (es_tracked s1)" by blast
  moreover have "event_of x = e" by (simp add: e event_of_def x_def)
  ultimately show ?case
    using s1 by (intro exI [of _ s'] exI [of _ "add_mset x N"]) (simp add: e)
qed

section \<open>Widening and the rows\<close>

lemma widen_rep:
  assumes "axis_rep (\<lambda>x. fl_tsMs x - s) error_bucket_rep w m M" and "is_width w"
  shows "\<exists>w' m'. widen W w m = Some (w', m') \<and> axis_rep (\<lambda>x. fl_tsMs x - s) error_bucket_rep w' m' M \<and>
    is_width w' \<and> W \<le> w' \<and> w \<le> w' \<and> (is_width W \<and> w \<le> W \<longrightarrow> w' = W)"
  using assms
proof (induction "nat (W - w)" arbitrary: w m rule: less_induct)
  case less
  show ?case
  proof (cases "w < W")
    case True
    have pos: "0 < w" using less.prems(2) by (rule is_width_pos)
    then have "nat (W - w * 2) < nat (W - w)" using True by simp
    moreover have "axis_rep (\<lambda>x. fl_tsMs x - s) error_bucket_rep (w * 2) (halve error_put error_join w m) M"
      by (rule es.axis_rep_halve [OF less.prems(1) pos])
    ultimately obtain w' m' where "widen W (w * 2) (halve error_put error_join w m) = Some (w', m')"
      "axis_rep (\<lambda>x. fl_tsMs x - s) error_bucket_rep w' m' M" "is_width w'" "W \<le> w'" "w * 2 \<le> w'"
      "is_width W \<and> w * 2 \<le> W \<longrightarrow> w' = W"
      using less.hyps less.prems(2) by (metis is_width_double)
    moreover have "is_width W \<longrightarrow> w * 2 \<le> W"
      using is_width_less [of w W] is_width_less [of W w] less.prems(2) True by fastforce
    ultimately show ?thesis using True pos by (subst widen.simps) auto
  next
    case False
    with less.prems show ?thesis by (subst widen.simps) auto
  qed
qed

lemma named_rows_sum:
  assumes "counts_rep c A" and "distinct ranked"
  shows "(\<Sum>m \<leftarrow> ranked. jm_get_or 0 c m) = int (size (filter_mset (\<lambda>m. m \<in> set ranked) A))"
  using assms(2)
proof (induction ranked)
  case Nil
  then show ?case by simp
next
  case (Cons m ms)
  have "filter_mset (\<lambda>k. k \<in> set (m # ms)) A = filter_mset (\<lambda>k. k = m) A + filter_mset (\<lambda>k. k \<in> set ms) A"
    using Cons.prems by (induction A) auto
  moreover have "jm_get_or 0 c m = int (count A m)" by (rule counts_rep_or [OF assms(1)])
  ultimately show ?case using Cons by (simp add: filter_eq_replicate_mset)
qed

text \<open>What the rows of one bucket draw.\<close>

lemma error_rows_sum:
  assumes "error_bucket_rep off b M" and "distinct ranked"
  shows "(\<Sum>r \<leftarrow> error_rows w ranked (i, b). er_count r) = int (size M)"
proof -
  let ?A = "admitted M"
  have c: "counts_rep (eb_counts b) ?A" and o: "eb_overflow b = int (size (turned_away M))"
    using assms(1) by (simp_all add: error_bucket_rep_def)
  have "(\<Sum>r \<leftarrow> concat (map (\<lambda>m. case jm_get (eb_counts b) m of None \<Rightarrow> []
      | Some n \<Rightarrow> [\<lparr>er_startOffsetMs = off, er_message = Some m, er_count = n\<rparr>]) ms). er_count r) =
      (\<Sum>m \<leftarrow> ms. jm_get_or 0 (eb_counts b) m)" for ms off
    by (induction ms) (simp_all add: jm_get_or_def split: option.splits)
  moreover have "(\<Sum>e \<leftarrow> filter (\<lambda>e. fst e \<notin> set ranked) (eb_counts b). snd e) =
      int (size (filter_mset (\<lambda>m. m \<notin> set ranked) ?A))"
    by (rule counts_rep_filter_sum [OF c])
  moreover have "size ?A = size (filter_mset (\<lambda>m. m \<in> set ranked) ?A) + size (filter_mset (\<lambda>m. m \<notin> set ranked) ?A)"
    by (metis multiset_partition size_union)
  moreover have "size M = size ?A + size (turned_away M)"
    unfolding admitted_def turned_away_def by (metis multiset_partition size_image_mset size_union)
  ultimately show ?thesis
    using o named_rows_sum [OF c assms(2)] by (simp add: error_rows_def Let_def)
qed

lemma error_rows_entry:
  assumes "r \<in> set (error_rows w ranked (i, b))" and "error_bucket_rep off b M"
  shows "er_startOffsetMs r = i * w" and "0 < er_count r"
    and "er_message r = Some m \<Longrightarrow> m \<in> set ranked \<and> er_count r = int (count (admitted M) m)"
proof -
  have c: "counts_rep (eb_counts b) (admitted M)" using assms(2) by (simp add: error_bucket_rep_def)
  then have get: "jm_get (eb_counts b) m = Some n \<Longrightarrow> 0 < n \<and> n = int (count (admitted M) m)" for m n
    by (auto simp: counts_rep_def split: if_splits)
  show "er_startOffsetMs r = i * w" "0 < er_count r"
    "er_message r = Some m \<Longrightarrow> m \<in> set ranked \<and> er_count r = int (count (admitted M) m)"
    using assms(1) get by (auto simp: error_rows_def Let_def split: option.splits if_splits)
qed

text \<open>The count of failures a chart draws at an offset.\<close>

definition drawn :: "int \<Rightarrow> error_series_row list \<Rightarrow> int" where
  "drawn off rows = (\<Sum>r \<leftarrow> filter (\<lambda>r. er_startOffsetMs r = off) rows. er_count r)"

lemma drawn_bucket:
  assumes "error_bucket_rep off b M" and "distinct ranked" and "0 < w"
  shows "drawn (k * w) (error_rows w ranked (i, b)) = (if i = k then int (size M) else 0)"
proof -
  have "filter (\<lambda>r. er_startOffsetMs r = k * w) (error_rows w ranked (i, b)) =
      (if i = k then error_rows w ranked (i, b) else [])"
    using error_rows_entry(1) [OF _ assms(1)] assms(3) by (auto simp: filter_id_conv filter_empty_conv)
  then show ?thesis using error_rows_sum [OF assms(1,2)] by (simp add: drawn_def)
qed

lemma drawn_rows:
  assumes "axis_rep (\<lambda>x. fl_tsMs x - s) error_bucket_rep w m M" and "0 < w" and "distinct ranked"
  shows "drawn (k * w) (concat (map (error_rows w ranked) (by_index m))) =
    int (size (in_slot (\<lambda>x. fl_tsMs x - s) w k M))"
proof -
  let ?time = "\<lambda>x. fl_tsMs x - s"
  have ok: "jm_ok m" and slot: "slot_rep error_bucket_rep (i * w) (jm_get m i) (in_slot ?time w i M)" for i
    using assms(1) by (simp_all add: axis_rep_def)
  have b: "error_bucket_rep (i * w) b (in_slot ?time w i M)" if "(i, b) \<in> set m" for i b
    using slot [of i] ok that by (simp add: jm_ok_def)
  have "drawn (k * w) (concat (map (error_rows w ranked) es)) =
      (\<Sum>e \<leftarrow> es. if fst e = k then int (size (in_slot ?time w k M)) else 0)" if "set es \<subseteq> set m" for es
    using that
  proof (induction es)
    case Nil
    then show ?case by (simp add: drawn_def)
  next
    case (Cons e es)
    obtain i bk where e: "e = (i, bk)" by fastforce
    have "drawn (k * w) (error_rows w ranked e) = (if i = k then int (size (in_slot ?time w i M)) else 0)"
      unfolding e using Cons.prems by (intro drawn_bucket [OF b assms(3,2)]) (simp add: e)
    with Cons show ?case by (simp add: drawn_def e)
  qed
  from this [of "by_index m"] have "drawn (k * w) (concat (map (error_rows w ranked) (by_index m))) =
      (\<Sum>e \<leftarrow> by_index m. if fst e = k then int (size (in_slot ?time w k M)) else 0)" by simp
  also have "\<dots> = (\<Sum>e \<leftarrow> m. if fst e = k then int (size (in_slot ?time w k M)) else 0)"
    by (simp add: by_index_def)
  also have "\<dots> = (if k \<in> fst ` set m then int (size (in_slot ?time w k M)) else 0)"
    using ok unfolding jm_ok_def by (induction m) auto
  also have "\<dots> = int (size (in_slot ?time w k M))"
    using slot [of k] map_of_eq_None_iff [of m k] by auto
  finally show ?thesis .
qed

section \<open>Properties\<close>

text \<open>
  C18: The errors table lists the most frequent messages with their exact
  counts, in descending order; when there are more than \<open>limit\<close> it ends with one remainder row
  that is not a message, and in any case its counts add up to the number of failures.
\<close>

theorem errors_table_is_complete:
  assumes "consistent_cmp lc" and "rows = error_rollup_top lc limit (fold error_rollup_add msgs [])"
  shows "(\<Sum>r \<leftarrow> rows. et_count r) = int (length msgs) \<and>
    length rows = min (Suc limit) (card (set msgs)) \<and>
    (\<forall>r \<in> set rows. \<forall>m. et_message r = Some m \<longrightarrow> m \<in> set msgs \<and> et_count r = int (count (mset msgs) m)) \<and>
    (\<forall>r \<in> set rows. et_message r = None \<longrightarrow> limit < card (set msgs)) \<and>
    sorted_wrt (\<lambda>a b. et_count b \<le> et_count a) (take limit rows) \<and>
    (\<forall>m \<in> set msgs. Some m \<notin> et_message ` set rows \<longrightarrow>
      (\<forall>r \<in> set (take limit rows). int (count (mset msgs) m) \<le> et_count r))"
proof -
  define M where "M = mset msgs"
  define c where "c = fold error_rollup_add msgs []"
  define es where "es = js_sort (cmp_count_desc lc) c"
  define tally where "tally = (\<lambda>(m, n). \<lparr>et_message = Some m, et_count = n\<rparr> :: error_tally)"
  have c: "counts_rep c M" unfolding c_def M_def by (rule error_rollup_rep)
  have len: "length es = card (set msgs)"
    using length_keys [of c] counts_rep_keys [OF c] c by (simp add: es_def counts_rep_def M_def)
  have rows: "rows = (if length es \<le> limit then map tally es
      else take limit (map tally es) @ [\<lparr>et_message = None, et_count = (\<Sum>e \<leftarrow> drop limit (map tally es). et_count e)\<rparr>])"
    by (simp add: assms(2) error_rollup_top_def Let_def c_def es_def tally_def)
  have tally: "et_count (tally e) = snd e" "et_message (tally e) = Some (fst e)" for e
    by (cases e, simp add: tally_def)+
  have entry: "e \<in> set es \<longleftrightarrow> fst e \<in> set msgs \<and> snd e = int (count M (fst e))" for e
    using counts_rep_entry [OF c, of "fst e" "snd e"] by (simp add: es_def M_def)
  have sorted: "sorted_wrt (\<lambda>a b. snd b \<le> snd a) es" unfolding es_def by (rule sorted_desc [OF assms(1)])
  have take: "take limit rows = map tally (take limit es)" by (simp add: rows take_map)
  have sum: "(\<Sum>r \<leftarrow> rows. et_count r) = int (length msgs)"
    unfolding assms(2) by (rule error_rollup_top_sum)
  have "\<forall>m \<in> set msgs. Some m \<notin> et_message ` set rows \<longrightarrow> (\<forall>r \<in> set (take limit rows). int (count M m) \<le> et_count r)"
  proof (intro ballI impI)
    fix m r assume m: "m \<in> set msgs" "Some m \<notin> et_message ` set rows" and r: "r \<in> set (take limit rows)"
    obtain e where e: "e \<in> set (take limit es)" "r = tally e" using r unfolding take by auto
    have "(m, int (count M m)) \<in> set es" using m(1) entry by simp
    moreover have "(m, int (count M m)) \<notin> set (take limit es)"
    proof
      assume "(m, int (count M m)) \<in> set (take limit es)"
      then have "tally (m, int (count M m)) \<in> set rows" using take in_set_takeD [of _ limit rows] by force
      then show False using m(2) tally(2) [of "(m, int (count M m))"] by force
    qed
    ultimately have "(m, int (count M m)) \<in> set (drop limit es)" by (metis Un_iff append_take_drop_id set_append)
    moreover have "\<forall>a \<in> set (take limit es). \<forall>b \<in> set (drop limit es). snd b \<le> snd a"
      using sorted sorted_wrt_append [of "\<lambda>a b. snd b \<le> snd a" "take limit es" "drop limit es"]
      by (simp only: append_take_drop_id) simp
    ultimately have "int (count M m) \<le> snd e" using e(1) by fastforce
    then show "int (count M m) \<le> et_count r" by (simp add: e(2) tally)
  qed
  moreover have "sorted_wrt (\<lambda>a b. et_count b \<le> et_count a) (take limit rows)"
    using sorted_wrt_take [OF sorted, of limit] by (simp add: take sorted_wrt_map tally)
  moreover have "length rows = min (Suc limit) (card (set msgs))" using len by (simp add: rows)
  moreover have "\<forall>r \<in> set rows. \<forall>m. et_message r = Some m \<longrightarrow> m \<in> set msgs \<and> et_count r = int (count M m)"
  proof (intro ballI allI impI)
    fix r m assume r: "r \<in> set rows" "et_message r = Some m"
    have "set rows \<subseteq> tally ` set es \<union> {\<lparr>et_message = None, et_count = (\<Sum>e \<leftarrow> drop limit (map tally es). et_count e)\<rparr>}"
      unfolding rows using set_take_subset [of limit es] by (auto simp: take_map)
    with r obtain e where e: "e \<in> set es" "r = tally e" by auto
    then show "m \<in> set msgs \<and> et_count r = int (count M m)" using entry [of e] r(2) by (simp add: tally)
  qed
  moreover have "\<forall>r \<in> set rows. et_message r = None \<longrightarrow> limit < card (set msgs)"
    using len by (auto simp: rows tally split: if_splits)
  ultimately show ?thesis using sum unfolding M_def by (intro conjI)
qed

theorem errors_table_is_complete_witness:
  "let msgs = [js ''b'', js ''a'', js ''b'', js ''c'']; rows = error_rollup_top cmp_units 1 (fold error_rollup_add msgs []) in
   (\<Sum>r \<leftarrow> rows. et_count r) = 4 \<and> rows = [\<lparr>et_message = Some (js ''b''), et_count = 2\<rparr>, \<lparr>et_message = None, et_count = 2\<rparr>]"
proof -
  let ?msgs = "[js ''b'', js ''a'', js ''b'', js ''c'']"
  have "error_rollup_top cmp_units 1 (fold error_rollup_add ?msgs []) =
      [\<lparr>et_message = Some (js ''b''), et_count = 2\<rparr>, \<lparr>et_message = None, et_count = 2\<rparr>]"
    by code_simp
  with errors_table_is_complete [OF by_units.consistent_cmp_axioms refl, of 1 ?msgs] show ?thesis
    unfolding Let_def by simp
qed

lemma add_failures_new:
  assumes "2 \<le> maxBuckets \<or> (\<forall>e \<in> set xs. startMs \<le> fst e)"
  obtains s M where "add_failures xs (new_error_series startMs maxBuckets) = Some s" "error_series_rep s M"
    "image_mset event_of M = mset xs" "es_startMs s = startMs" "es_maxBuckets s = max 1 maxBuckets"
    "es_tracked s = take MAX_TRACKED_MESSAGES (first_seen (map snd xs))"
proof -
  have "2 \<le> es_maxBuckets (new_error_series startMs maxBuckets) \<or>
      (\<forall>y \<in># {#}. es_startMs (new_error_series startMs maxBuckets) \<le> fl_tsMs y) \<and>
      (\<forall>e \<in> set xs. es_startMs (new_error_series startMs maxBuckets) \<le> fst e)"
    using assms by (auto simp: new_error_series_def)
  from add_failures_rep [OF error_series_rep_new this] that show ?thesis
    by (auto simp: new_error_series_def track_first_seen)
qed

lemma finish_rep_errors:
  assumes "error_series_fit s M"
  obtains w m where "widen W (es_widthMs s) (es_buckets s) = Some (w, m)"
    "axis_rep (\<lambda>x. fl_tsMs x - es_startMs s) error_bucket_rep w m M" "is_width w" "W \<le> w"
    "es_widthMs s \<le> w" "is_width W \<and> es_widthMs s \<le> W \<longrightarrow> w = W"
  using widen_rep [of "es_startMs s" "es_widthMs s" "es_buckets s" M W] assms
  by (auto simp: error_series_fit_def)

lemma error_totals_ok: "\<forall>(i, b) \<in> set es. jm_ok (eb_counts b) \<Longrightarrow> jm_ok t \<Longrightarrow> jm_ok (fold (\<lambda>(i, b) t. add_counts (eb_counts b) t) es t)"
proof (induction es arbitrary: t)
  case Nil
  then show ?case by simp
next
  case (Cons e es)
  have "jm_ok t \<Longrightarrow> jm_ok (fold (\<lambda>(k, n). bump k n) c t)" for c :: "(jstr, int) jmap" and t
    by (induction c arbitrary: t) (auto simp: case_prod_unfold)
  then show ?case using Cons by (cases e) (simp add: add_counts_def)
qed

text \<open>The failures of a run in the slot \<open>k\<close> of width \<open>w\<close>.\<close>

definition slot_events :: "int \<Rightarrow> int \<Rightarrow> int \<Rightarrow> (int \<times> jstr) list \<Rightarrow> (int \<times> jstr) list" where
  "slot_events startMs w k xs = filter (\<lambda>e. (fst e - startMs) div w = k) xs"

lemma slot_events_mset:
  assumes "image_mset event_of M = mset xs"
  shows "mset (slot_events s w k xs) = image_mset event_of (in_slot (\<lambda>x. fl_tsMs x - s) w k M)"
proof -
  have "filter_mset (\<lambda>e. (fst e - s) div w = k) (image_mset event_of M) =
      image_mset event_of (in_slot (\<lambda>x. fl_tsMs x - s) w k M)"
    unfolding in_slot_def by (induction M) (simp_all add: event_of_def)
  then show ?thesis by (simp add: slot_events_def assms)
qed

text \<open>
  C19: However the series coalesced and whatever width it is finished at, the bars
  drawn at an offset add up to the failures of that slot, tracked or not; every row lies in an
  occupied slot and is positive; a named row counts exactly the failures of its message there, and
  its message is one of the first 200 distinct messages the run saw.
\<close>

theorem error_bars_reconcile:
  assumes "2 \<le> maxBuckets \<or> (\<forall>e \<in> set xs. startMs \<le> fst e)"
  shows "\<exists>s z s'. add_failures xs (new_error_series startMs maxBuckets) = Some s \<and>
    error_series_finish lc widthMs keep s = Some (z, s') \<and>
    (\<forall>k. drawn (k * ez_bucketWidthMs z) (ez_rows z) = int (length (slot_events startMs (ez_bucketWidthMs z) k xs))) \<and>
    (\<forall>r \<in> set (ez_rows z). \<exists>k. er_startOffsetMs r = k * ez_bucketWidthMs z \<and> 0 < er_count r \<and>
      slot_events startMs (ez_bucketWidthMs z) k xs \<noteq> [] \<and>
      (\<forall>m. er_message r = Some m \<longrightarrow> m \<in> set (take MAX_TRACKED_MESSAGES (first_seen (map snd xs))) \<and>
        er_count r = int (count (mset (map snd (slot_events startMs (ez_bucketWidthMs z) k xs))) m)))"
proof -
  obtain s M where s: "add_failures xs (new_error_series startMs maxBuckets) = Some s" "error_series_rep s M"
    "image_mset event_of M = mset xs" "es_startMs s = startMs"
    "es_tracked s = take MAX_TRACKED_MESSAGES (first_seen (map snd xs))"
    using add_failures_new [OF assms] by metis
  obtain w m where w: "widen widthMs (es_widthMs s) (es_buckets s) = Some (w, m)"
    "axis_rep (\<lambda>x. fl_tsMs x - startMs) error_bucket_rep w m M" "is_width w"
    using finish_rep_errors [OF s(2) [unfolded error_series_rep_def, THEN conjunct1], of widthMs] unfolding s(4) by metis
  define ranked where "ranked = map fst (take keep (js_sort (cmp_count_desc lc) (error_totals m)))"
  define rows where "rows = concat (map (error_rows w ranked) (by_index m))"
  define slot where "slot k = in_slot (\<lambda>x. fl_tsMs x - startMs) w k M" for k
  have pos: "0 < w" by (rule is_width_pos [OF w(3)])
  have slots: "mset (slot_events startMs w k xs) = image_mset event_of (slot k)" for k
    unfolding slot_def by (rule slot_events_mset [OF s(3)])
  have bucket: "slot i \<noteq> {#} \<and> error_bucket_rep (i * w) b (slot i)" if "(i, b) \<in> set m" for i b
  proof -
    have "slot_rep error_bucket_rep (i * w) (jm_get m i) (slot i)" "jm_get m i = Some b"
      using w(2) that unfolding axis_rep_def jm_ok_def slot_def by (blast, simp)
    then show ?thesis by simp
  qed
  have "jm_ok (error_totals m)"
    unfolding error_totals_def using bucket by (intro error_totals_ok) (auto simp: error_bucket_rep_def counts_rep_def)
  then have ranked: "distinct ranked"
    unfolding ranked_def jm_ok_def take_map [symmetric] by (intro distinct_take) simp
  have drawn: "drawn (k * w) rows = int (length (slot_events startMs w k xs))" for k
    using drawn_rows [OF w(2) pos ranked, of k] slots [of k] unfolding rows_def slot_def
    by (metis size_image_mset size_mset)
  have row: "\<exists>k. er_startOffsetMs r = k * w \<and> 0 < er_count r \<and> slot_events startMs w k xs \<noteq> [] \<and>
      (\<forall>a. er_message r = Some a \<longrightarrow> a \<in> set (es_tracked s) \<and>
        er_count r = int (count (mset (map snd (slot_events startMs w k xs))) a))" if r: "r \<in> set rows" for r
  proof -
    obtain i b where e: "(i, b) \<in> set m" "r \<in> set (error_rows w ranked (i, b))" using r by (auto simp: rows_def)
    note b = bucket [OF e(1)]
    have "slot_events startMs w i xs \<noteq> []" using slots [of i] b by force
    moreover have "a \<in> set (es_tracked s) \<and> er_count r = int (count (mset (map snd (slot_events startMs w i xs))) a)"
      if a: "er_message r = Some a" for a
    proof -
      have n: "er_count r = int (count (admitted (slot i)) a)" "0 < er_count r"
        using error_rows_entry [OF e(2) b [THEN conjunct2]] a by blast+
      have adm: "fl_admitted x \<longleftrightarrow> fl_message x \<in> set (es_tracked s)" if "x \<in># slot i" for x
        using s(2) that by (simp add: error_series_rep_def error_series_fit_def slot_def in_slot_def)
      have "a \<in># admitted (slot i)" using n by simp
      then have "a \<in> set (es_tracked s)" using adm by (auto simp: admitted_def)
      moreover have "mset (map snd (slot_events startMs w i xs)) = image_mset fl_message (slot i)"
        by (simp add: slots image_mset.compositionality comp_def event_of_def)
      moreover have "count (image_mset fl_message (slot i)) a = count (admitted (slot i)) a"
      proof -
        have "image_mset fl_message (slot i) = admitted (slot i) + image_mset fl_message (turned_away (slot i))"
          unfolding admitted_def turned_away_def by (metis image_mset_union multiset_partition)
        moreover have "a \<notin># image_mset fl_message (turned_away (slot i))"
          using adm \<open>a \<in> set (es_tracked s)\<close> by (auto simp: turned_away_def)
        ultimately show ?thesis by (metis count_union add.right_neutral not_in_iff)
      qed
      ultimately show ?thesis using n by simp
    qed
    ultimately show ?thesis using error_rows_entry(1,2) [OF e(2) b [THEN conjunct2]] by blast
  qed
  have fin: "\<exists>s'. error_series_finish lc widthMs keep s = Some (\<lparr>ez_bucketWidthMs = w, ez_rows = rows\<rparr>, s')"
    using w(1) by (simp add: error_series_finish_def Let_def rows_def ranked_def)
  then obtain s' where "error_series_finish lc widthMs keep s = Some (\<lparr>ez_bucketWidthMs = w, ez_rows = rows\<rparr>, s')" ..
  then show ?thesis using s(1) drawn row unfolding s(5)
    by (intro exI conjI) (assumption | simp)+
qed

theorem error_bars_reconcile_witness:
  "\<exists>s z s'. add_failures [(100, js ''x''), (2100, js ''y''), (5100, js ''x'')] (new_error_series 100 2) = Some s \<and>
    error_series_finish cmp_units 4000 1 s = Some (z, s') \<and>
    (\<forall>k. drawn (k * ez_bucketWidthMs z) (ez_rows z) = int (length (slot_events 100 (ez_bucketWidthMs z) k
      [(100, js ''x''), (2100, js ''y''), (5100, js ''x'')])))"
  using error_bars_reconcile [of 2 "[(100, js ''x''), (2100, js ''y''), (5100, js ''x'')]" 100 cmp_units 4000 1]
  by force

text \<open>A series of failures whose times are edges of the run series under the same cap is never the wider one.\<close>

lemma failures_width_le:
  assumes "series_rep run (mset evs)" and "error_series_rep s M" and "bs_startMs run = es_startMs s"
    and "bs_maxBuckets run = es_maxBuckets s" and "fl_tsMs ` set_mset M \<subseteq> re_tsMs ` set evs"
  shows "es_widthMs s \<le> bs_widthMs run"
proof (rule narrowest_le)
  show "narrowest (es_maxBuckets s) (\<lambda>x. fl_tsMs x - es_startMs s) (es_widthMs s) M"
    using assms(2) by (simp add: error_series_rep_def)
  show "int (card ((\<lambda>x. (re_tsMs x - bs_startMs run) div bs_widthMs run) ` set_mset (mset evs))) \<le> es_maxBuckets s"
    using assms(1,4) axis_rep_length unfolding series_rep_def by metis
  have "(\<lambda>t. t - es_startMs s) ` fl_tsMs ` set_mset M \<subseteq> (\<lambda>t. t - es_startMs s) ` re_tsMs ` set evs" using assms(5) by blast
  then show "(\<lambda>x. fl_tsMs x - es_startMs s) ` set_mset M \<subseteq> (\<lambda>x. re_tsMs x - bs_startMs run) ` set_mset (mset evs)"
    by (simp add: image_image assms(3))
  show "is_width (bs_widthMs run)" using series_rep_width [OF assms(1)] by blast
qed

text \<open>
  When every failure was also added to the run's response-time series
  under the same cap, finishing the failures at the run's width gives the run's width exactly:
  the run series never halved later than the series of the failures.
\<close>

lemma errors_share_the_run_axis:
  assumes "add_edges evs (new_bucket_series startMs maxBuckets) = Some run"
    and "add_failures xs (new_error_series startMs maxBuckets) = Some s"
    and "2 \<le> maxBuckets \<or> (\<forall>x \<in> set evs. startMs \<le> re_tsMs x)"
    and "fst ` set xs \<subseteq> re_tsMs ` set evs"
  shows "\<exists>z s'. error_series_finish lc (bs_widthMs run) keep s = Some (z, s') \<and> ez_bucketWidthMs z = bs_widthMs run"
proof -
  have "2 \<le> maxBuckets \<or> (\<forall>e \<in> set xs. startMs \<le> fst e)" using assms(3,4) by fastforce
  from add_failures_new [OF this] obtain s0 M where
    "add_failures xs (new_error_series startMs maxBuckets) = Some s0" "error_series_rep s0 M"
    "image_mset event_of M = mset xs" "es_startMs s0 = startMs" "es_maxBuckets s0 = max 1 maxBuckets" .
  with assms(2) have M: "error_series_rep s M" "image_mset event_of M = mset xs" "es_startMs s = startMs"
    "es_maxBuckets s = max 1 maxBuckets" by simp_all
  have "roomy (bs_startMs (new_bucket_series startMs maxBuckets)) (bs_maxBuckets (new_bucket_series startMs maxBuckets))
      ({#} + mset evs)"
    using assms(3) by (auto simp: roomy_def new_bucket_series_def)
  from add_edges_rep [OF series_rep_new this] assms(1) have run: "series_rep run (mset evs)"
    "bs_startMs run = startMs" "bs_maxBuckets run = max 1 maxBuckets"
    by (auto simp: new_bucket_series_def)
  have width: "is_width (bs_widthMs run)" using series_rep_width [OF run(1)] by blast
  have "fl_tsMs ` set_mset M = fst ` set_mset (image_mset event_of M)" by (simp add: image_image event_of_def)
  also have "\<dots> = fst ` set xs" by (simp add: M(2))
  finally have "fl_tsMs ` set_mset M \<subseteq> re_tsMs ` set evs" using assms(4) by simp
  then have "es_widthMs s \<le> bs_widthMs run" using run M by (intro failures_width_le) simp_all
  then obtain m where "widen (bs_widthMs run) (es_widthMs s) (es_buckets s) = Some (bs_widthMs run, m)"
    using finish_rep_errors [of s M "bs_widthMs run"] M(1) width unfolding error_series_rep_def by metis
  then show ?thesis by (simp add: error_series_finish_def Let_def)
qed

lemma errors_share_the_run_axis_witness:
  "let evs = [\<lparr>re_tsMs = 0, re_value = 7, re_ok = True, re_edge = StartEdge\<rparr>,
             \<lparr>re_tsMs = 7000, re_value = 3, re_ok = False, re_edge = EndEdge\<rparr>,
             \<lparr>re_tsMs = 8000, re_value = 3, re_ok = False, re_edge = EndEdge\<rparr>];
       run = the (add_edges evs (new_bucket_series 0 2));
       s = the (add_failures [(7000, js ''x'')] (new_error_series 0 2)) in
   \<exists>z s'. error_series_finish cmp_units (bs_widthMs run) 5 s = Some (z, s') \<and> ez_bucketWidthMs z = bs_widthMs run"
proof -
  let ?evs = "[\<lparr>re_tsMs = 0, re_value = 7, re_ok = True, re_edge = StartEdge\<rparr>,
             \<lparr>re_tsMs = 7000, re_value = 3, re_ok = False, re_edge = EndEdge\<rparr>,
             \<lparr>re_tsMs = 8000, re_value = 3, re_ok = False, re_edge = EndEdge\<rparr>]"
  have "add_edges ?evs (new_bucket_series 0 2) \<noteq> None" "add_failures [(7000, js ''x'')] (new_error_series 0 2) \<noteq> None"
    by code_simp+
  then show ?thesis
    unfolding Let_def by (intro errors_share_the_run_axis [of ?evs 0 2 _ "[(7000, js ''x'')]"]) auto
qed

end
