(* ===== verification/Keyed.thy ===== *)
theory Keyed
  imports Errors
begin

text \<open>
  The engine keeps its accumulators in \<open>Map\<close>s from a string token to an entry that carries its own
  identity: \<open>get\<close> the entry or create it, then write to it. \<open>upsert\<close> is that step, and the locale
  \<open>keyed\<close> says what such a map holds after any sequence of observations: one entry per identity, in
  the order in which the identities were first seen, and each entry has seen exactly its own
  observations, in order. The only law the tokens need is that they are injective.
\<close>

definition upsert :: "('i \<Rightarrow> jstr) \<Rightarrow> ('i \<Rightarrow> 'e) \<Rightarrow> ('o \<Rightarrow> 'e \<Rightarrow> 'e option) \<Rightarrow> 'i \<Rightarrow> 'o \<Rightarrow>
    (jstr, 'e) jmap \<Rightarrow> (jstr, 'e) jmap option" where
  "upsert key fresh upd i x m = map_option (\<lambda>en. jm_set (key i) en m)
     (upd x (case jm_get m (key i) of Some en \<Rightarrow> en | None \<Rightarrow> fresh i))"

definition obs_of :: "'i \<Rightarrow> ('i \<times> 'o) list \<Rightarrow> 'o list" where
  "obs_of i L = map snd (filter (\<lambda>p. fst p = i) L)"

lemma obs_of_simps [simp]: "obs_of i [] = []"
  "obs_of i (L @ [(j, x)]) = obs_of i L @ (if j = i then [x] else [])"
  by (simp_all add: obs_of_def)

lemma obs_of_none: "i \<notin> fst ` set L \<Longrightarrow> obs_of i L = []"
  by (auto simp: obs_of_def filter_empty_conv)

lemma first_seen_Nil [simp]: "first_seen [] = []"
  by (simp add: first_seen_def)

lemma jm_set_new: "k \<notin> fst ` set m \<Longrightarrow> jm_set k v m = m @ [(k, v)]"
  by (induction m) auto

lemma jm_set_old: "jm_ok m \<Longrightarrow> (k, w) \<in> set m \<Longrightarrow> jm_set k v m = map (\<lambda>e. if fst e = k then (k, v) else e) m"
  by (induction m) (auto simp: jm_ok_def rev_image_eqI intro!: map_idI [symmetric])

locale keyed =
  fixes key :: "'i \<Rightarrow> jstr"
    and ident :: "'e \<Rightarrow> 'i"
    and fresh :: "'i \<Rightarrow> 'e"
    and upd :: "'o \<Rightarrow> 'e \<Rightarrow> 'e option"
    and rep :: "'e \<Rightarrow> 'o list \<Rightarrow> bool"
    and allowed :: "'i \<Rightarrow> 'o \<Rightarrow> bool"
  assumes key_inj: "key i = key j \<Longrightarrow> i = j"
    and fresh_ident: "ident (fresh i) = i"
    and fresh_rep: "rep (fresh i) []"
    and upd_rep: "rep en xs \<Longrightarrow> \<forall>y \<in> set (xs @ [x]). allowed (ident en) y \<Longrightarrow>
      \<exists>en'. upd x en = Some en' \<and> ident en' = ident en \<and> rep en' (xs @ [x])"
begin

definition keyed_rep :: "(jstr, 'e) jmap \<Rightarrow> ('i \<times> 'o) list \<Rightarrow> bool" where
  "keyed_rep m L \<longleftrightarrow> map (\<lambda>e. ident (snd e)) m = first_seen (map fst L) \<and>
     (\<forall>e \<in> set m. fst e = key (ident (snd e)) \<and> rep (snd e) (obs_of (ident (snd e)) L))"

lemma keyed_rep_Nil: "keyed_rep [] []"
  by (simp add: keyed_rep_def)

lemma keyed_rep_keys:
  assumes "keyed_rep m L"
  shows "jm_ok m" and "key i \<in> fst ` set m \<longleftrightarrow> i \<in> fst ` set L"
proof -
  have ids: "map fst m = map key (first_seen (map fst L))"
  proof -
    have "map fst m = map (\<lambda>e. key (ident (snd e))) m"
      using assms by (intro map_cong) (auto simp: keyed_rep_def)
    also have "\<dots> = map key (map (\<lambda>e. ident (snd e)) m)" by simp
    also have "map (\<lambda>e. ident (snd e)) m = first_seen (map fst L)" using assms by (simp add: keyed_rep_def)
    finally show ?thesis .
  qed
  moreover have "inj key" by (rule injI) (rule key_inj)
  ultimately show "jm_ok m" by (simp add: jm_ok_def distinct_map inj_on_def)
  have "key i \<in> set (map fst m) \<longleftrightarrow> i \<in> fst ` set L"
    unfolding ids using key_inj by auto
  then show "key i \<in> fst ` set m \<longleftrightarrow> i \<in> fst ` set L" by simp
qed

lemma keyed_get:
  assumes "keyed_rep m L"
  shows "(case jm_get m (key i) of
      Some en \<Rightarrow> i \<in> fst ` set L \<and> ident en = i \<and> rep en (obs_of i L)
    | None \<Rightarrow> i \<notin> fst ` set L)"
proof (cases "jm_get m (key i)")
  case None
  then have "key i \<notin> fst ` set m" by (simp add: map_of_eq_None_iff)
  then show ?thesis using keyed_rep_keys(2) [OF assms, of i] None by simp
next
  case (Some en)
  then have "(key i, en) \<in> set m" by (rule map_of_SomeD)
  with assms have "key i = key (ident en)" "rep en (obs_of (ident en) L)" by (force simp: keyed_rep_def)+
  moreover then have "ident en = i" using key_inj by metis
  moreover have "i \<in> fst ` set L"
    using \<open>(key i, en) \<in> set m\<close> keyed_rep_keys(2) [OF assms, of i] by force
  ultimately show ?thesis using Some by simp
qed

lemma keyed_upsert:
  assumes "keyed_rep m L" and "\<forall>y \<in> set (obs_of i L @ [x]). allowed i y"
  shows "\<exists>m'. upsert key fresh upd i x m = Some m' \<and> keyed_rep m' (L @ [(i, x)])"
proof -
  define en where "en = (case jm_get m (key i) of Some en \<Rightarrow> en | None \<Rightarrow> fresh i)"
  have en: "ident en = i" "rep en (obs_of i L)"
    using keyed_get [OF assms(1), of i] fresh_ident fresh_rep
    by (auto simp: en_def obs_of_none split: option.splits)
  from upd_rep [OF en(2), of x] assms(2) en(1) obtain en' where
    en': "upd x en = Some en'" "ident en' = i" "rep en' (obs_of i L @ [x])" by auto
  define m' where "m' = jm_set (key i) en' m"
  have "upsert key fresh upd i x m = Some m'" using en'(1) by (simp add: upsert_def en_def m'_def)
  moreover have "keyed_rep m' (L @ [(i, x)])"
  proof (cases "i \<in> fst ` set L")
    case False
    then have "m' = m @ [(key i, en')]"
      unfolding m'_def using keyed_rep_keys(2) [OF assms(1)] by (intro jm_set_new) simp
    moreover have "ident (snd e) \<noteq> i" if "e \<in> set m" for e
      using that False keyed_rep_keys(2) [OF assms(1), of i] assms(1) by (force simp: keyed_rep_def)
    moreover have "rep (snd e) (obs_of (ident (snd e)) (L @ [(i, x)]))" if "e \<in> set m" for e
      using that assms(1) calculation(2) [OF that] by (simp add: keyed_rep_def)
    ultimately show ?thesis
      using assms(1) en'(2,3) False by (simp add: keyed_rep_def first_seen_snoc set_insert_def)
  next
    case True
    then obtain w where w: "(key i, w) \<in> set m" using keyed_rep_keys(2) [OF assms(1), of i] by force
    have m': "m' = map (\<lambda>e. if fst e = key i then (key i, en') else e) m"
      unfolding m'_def by (rule jm_set_old [OF keyed_rep_keys(1) [OF assms(1)] w])
    have id: "fst e = key i \<longleftrightarrow> ident (snd e) = i" if "e \<in> set m" for e
      using that assms(1) key_inj unfolding keyed_rep_def by metis
    have "map (\<lambda>e. ident (snd e)) m' = map (\<lambda>e. ident (snd e)) m"
      unfolding m' using id en'(2) by auto
    moreover have "set_insert i (first_seen (map fst L)) = first_seen (map fst L)"
      using True by (simp add: set_insert_def image_image)
    ultimately show ?thesis
      using assms(1) en'(2,3) id unfolding keyed_rep_def m'
      by (auto simp: first_seen_snoc)
  qed
  ultimately show ?thesis by blast
qed

end

end
