(* ===== verification/Users.thy ===== *)
theory Users
  imports Buckets
begin

text \<open>
  \<open>users.ts\<close>: arrivals and concurrency per scenario, swept from the sorted user events, with the
  seconds between the first and the last filled in, then coalesced like every other series; and
  \<open>users-total.ts\<close>, their sum per offset.
\<close>

record user_bucket =
  ub_startOffsetMs :: int
  ub_started :: int
  ub_ended :: int
  ub_maxConcurrent :: int

record user_delta =
  ud_tsMs :: int
  ud_delta :: int

record user_series =
  us_startMs :: int
  us_maxBuckets :: int
  us_events :: "(jstr, user_delta list) jmap"

definition new_user_series :: "int \<Rightarrow> int \<Rightarrow> user_series" where
  "new_user_series startMs maxBuckets = \<lparr>us_startMs = startMs, us_maxBuckets = max 1 maxBuckets, us_events = []\<rparr>"

definition user_series_add :: "jstr \<Rightarrow> user_kind \<Rightarrow> int \<Rightarrow> user_series \<Rightarrow> user_series" where
  "user_series_add scenario kind tsMs s = s\<lparr>us_events := jm_set scenario
     (jm_get_or [] (us_events s) scenario @ [\<lparr>ud_tsMs = tsMs, ud_delta = (if kind = UserStart then 1 else - 1)\<rparr>])
     (us_events s)\<rparr>"

definition cmp_delta :: "user_delta \<Rightarrow> user_delta \<Rightarrow> int" where
  "cmp_delta = cmp_then (cmp_by ud_tsMs) (\<lambda>a b. ud_delta b - ud_delta a)"

definition user_step :: "int \<Rightarrow> int \<Rightarrow> user_delta \<Rightarrow> (int, user_bucket) jmap \<times> int \<Rightarrow>
    (int, user_bucket) jmap \<times> int" where
  "user_step startMs width e st = (case st of (m, concurrent) \<Rightarrow>
     (let idx = (ud_tsMs e - startMs) div width;
          b = (case jm_get m idx of Some b \<Rightarrow> b
            | None \<Rightarrow> \<lparr>ub_startOffsetMs = idx * width, ub_started = 0, ub_ended = 0, ub_maxConcurrent = concurrent\<rparr>);
          (b, concurrent) = (if ud_delta e = 1 then (b\<lparr>ub_started := ub_started b + 1\<rparr>, concurrent + 1)
            else (b\<lparr>ub_ended := ub_ended b + 1\<rparr>, concurrent - 1));
          b = (if ub_maxConcurrent b < concurrent then b\<lparr>ub_maxConcurrent := concurrent\<rparr> else b)
      in (jm_set idx b m, concurrent)))"

definition user_fill_step :: "int \<Rightarrow> int \<Rightarrow> (int, user_bucket) jmap \<times> int \<Rightarrow> (int, user_bucket) jmap \<times> int" where
  "user_fill_step width i st = (case st of (m, standing) \<Rightarrow>
     (case jm_get m i of
        Some b \<Rightarrow> (m, standing + ub_started b - ub_ended b)
      | None \<Rightarrow> (jm_set i \<lparr>ub_startOffsetMs = i * width, ub_started = 0, ub_ended = 0,
          ub_maxConcurrent = standing\<rparr> m, standing)))"

definition user_fill :: "int \<Rightarrow> (int, user_bucket) jmap \<Rightarrow> (int, user_bucket) jmap" where
  "user_fill width m = (if m = [] then m
     else let indices = js_sort (cmp_by id) (map fst m)
          in fst (fold (user_fill_step width) [hd indices..last indices] (m, 0)))"

definition user_put :: "int \<Rightarrow> int \<Rightarrow> user_bucket \<Rightarrow> user_bucket" where
  "user_put ni newWidth b = b\<lparr>ub_startOffsetMs := ni * newWidth\<rparr>"

definition user_join :: "user_bucket \<Rightarrow> user_bucket \<Rightarrow> user_bucket" where
  "user_join target b = (let t = target\<lparr>ub_started := ub_started target + ub_started b,
       ub_ended := ub_ended target + ub_ended b\<rparr>
     in if ub_maxConcurrent t < ub_maxConcurrent b then t\<lparr>ub_maxConcurrent := ub_maxConcurrent b\<rparr> else t)"

definition user_sweep :: "int \<Rightarrow> int \<Rightarrow> user_delta list \<Rightarrow> (int \<times> user_bucket list) option" where
  "user_sweep startMs maxBuckets events =
     (let sorted = js_sort cmp_delta events;
          m = user_fill 1000 (fst (fold (user_step startMs 1000) sorted ([], 0)))
      in map_option (\<lambda>(width, m). (width, js_sort (cmp_by ub_startOffsetMs) (map snd m)))
           (coalesce user_put user_join maxBuckets 1000 m))"

record user_scenario =
  uc_scenario :: jstr
  uc_bucketWidthMs :: int
  uc_buckets :: "user_bucket list"

definition user_scenarios :: "(jstr \<Rightarrow> jstr \<Rightarrow> int) \<Rightarrow> user_series \<Rightarrow> user_scenario list option" where
  "user_scenarios lc s = map_option (js_sort (\<lambda>a b. lc (uc_scenario a) (uc_scenario b)))
     (those (map (\<lambda>(scenario, events). map_option
       (\<lambda>(w, bs). \<lparr>uc_scenario = scenario, uc_bucketWidthMs = w, uc_buckets = bs\<rparr>)
       (user_sweep (us_startMs s) (us_maxBuckets s) events)) (us_events s)))"

definition add_user :: "user_bucket \<Rightarrow> (int, user_bucket) jmap \<Rightarrow> (int, user_bucket) jmap" where
  "add_user r acc = (let t = jm_get_or \<lparr>ub_startOffsetMs = ub_startOffsetMs r, ub_started = 0, ub_ended = 0,
      ub_maxConcurrent = 0\<rparr> acc (ub_startOffsetMs r)
     in jm_set (ub_startOffsetMs r) (t\<lparr>ub_started := ub_started t + ub_started r,
       ub_ended := ub_ended t + ub_ended r, ub_maxConcurrent := ub_maxConcurrent t + ub_maxConcurrent r\<rparr>) acc)"

definition sumUsersByOffset :: "user_bucket list \<Rightarrow> user_bucket list" where
  "sumUsersByOffset rows = js_sort (cmp_by ub_startOffsetMs) (map snd (fold add_user rows []))"

section \<open>Concurrency second by second\<close>

definition second :: "int \<Rightarrow> user_delta \<Rightarrow> int" where
  "second startMs e = (ud_tsMs e - startMs) div 1000"

definition change :: "user_delta \<Rightarrow> int" where
  "change e = (if ud_delta e = 1 then 1 else - 1)"

definition level :: "user_delta list \<Rightarrow> int" where
  "level es = (\<Sum>e \<leftarrow> es. change e)"

text \<open>The users at the start of a second, and the most of them at any instant in it.\<close>

definition standing_at :: "int \<Rightarrow> user_delta list \<Rightarrow> int \<Rightarrow> int" where
  "standing_at startMs es i = level (filter (\<lambda>e. second startMs e < i) es)"

text \<open>Each event with the number of users right after it.\<close>

definition instants :: "user_delta list \<Rightarrow> (user_delta \<times> int) list" where
  "instants es = map (\<lambda>k. (es ! k, level (take (Suc k) es))) [0..<length es]"

definition peak_in :: "int \<Rightarrow> user_delta list \<Rightarrow> int \<Rightarrow> int" where
  "peak_in startMs es i = Max (set (standing_at startMs es i #
     map snd (filter (\<lambda>p. second startMs (fst p) = i) (instants es))))"

definition started_in :: "int \<Rightarrow> user_delta list \<Rightarrow> int \<Rightarrow> int" where
  "started_in startMs es i = int (length (filter (\<lambda>e. ud_delta e = 1 \<and> second startMs e = i) es))"

definition ended_in :: "int \<Rightarrow> user_delta list \<Rightarrow> int \<Rightarrow> int" where
  "ended_in startMs es i = int (length (filter (\<lambda>e. ud_delta e \<noteq> 1 \<and> second startMs e = i) es))"

definition second_bucket :: "int \<Rightarrow> user_delta list \<Rightarrow> int \<Rightarrow> user_bucket" where
  "second_bucket startMs es i = \<lparr>ub_startOffsetMs = i * 1000, ub_started = started_in startMs es i,
     ub_ended = ended_in startMs es i, ub_maxConcurrent = peak_in startMs es i\<rparr>"

lemma instants_snoc: "instants (es @ [e]) = instants es @ [(e, level (es @ [e]))]"
  by (simp add: instants_def nth_append)

lemma instants_events: "fst ` set (instants es) = set es"
proof -
  have "fst ` set (instants es) = set (map ((!) es) [0..<length es])"
    unfolding instants_def by (simp add: image_image)
  then show ?thesis by (simp only: map_nth)
qed

lemma standing_snoc: "standing_at s (es @ [e]) i = standing_at s es i + (if second s e < i then change e else 0)"
  by (simp add: standing_at_def level_def)

lemma max_less: "max a b = (if a < b then b else a)" for a b :: int
  by simp

lemma peak_snoc:
  assumes "i \<le> second s e"
  shows "peak_in s (es @ [e]) i = (if second s e = i then max (peak_in s es i) (level (es @ [e])) else peak_in s es i)"
proof -
  have "standing_at s (es @ [e]) i = standing_at s es i" using assms by (simp add: standing_snoc)
  moreover have snoc: "Max (set (a # xs @ [b])) = max (Max (set (a # xs))) b" for a b :: int and xs
  proof -
    have "set (a # xs @ [b]) = insert b (set (a # xs))" by auto
    then show ?thesis by (simp only: Max_insert finite_set set_empty) (simp add: max.commute)
  qed
  ultimately show ?thesis
    using snoc [of "standing_at s es i" "map snd (filter (\<lambda>p. second s (fst p) = i) (instants es))" "level (es @ [e])"]
    unfolding peak_in_def instants_snoc by simp
qed

lemma standing_all:
  assumes "\<forall>e \<in> set es. second s e < i"
  shows "standing_at s es i = level es"
  using assms by (simp add: standing_at_def)

lemma peak_none:
  assumes "\<forall>e \<in> set es. second s e \<noteq> i"
  shows "peak_in s es i = standing_at s es i"
proof -
  have "filter (\<lambda>p. second s (fst p) = i) (instants es) = []"
    using assms instants_events [of es] by (force simp: filter_empty_conv)
  then show ?thesis by (simp add: peak_in_def)
qed

lemma count_snoc: "started_in s (es @ [e]) i = started_in s es i + (if ud_delta e = 1 \<and> second s e = i then 1 else 0)"
  "ended_in s (es @ [e]) i = ended_in s es i + (if ud_delta e \<noteq> 1 \<and> second s e = i then 1 else 0)"
  by (simp_all add: started_in_def ended_in_def)

lemma level_snoc: "level (es @ [e]) = level es + change e"
  by (simp add: level_def)

text \<open>The sweep keeps the specified bucket of every second that had an event.\<close>

definition swept :: "int \<Rightarrow> user_delta list \<Rightarrow> (int, user_bucket) jmap \<Rightarrow> bool" where
  "swept s es m \<longleftrightarrow> jm_ok m \<and> (\<forall>i. jm_get m i = (if i \<in> second s ` set es then Some (second_bucket s es i) else None))"

lemma swept_step:
  assumes "swept s es m" and "\<forall>e' \<in> set es. second s e' \<le> second s e"
  shows "swept s (es @ [e]) (fst (user_step s 1000 e (m, level es))) \<and>
    snd (user_step s 1000 e (m, level es)) = level (es @ [e])"
proof -
  define i where "i = second s e"
  define b where "b = (case jm_get m i of Some b \<Rightarrow> b
      | None \<Rightarrow> \<lparr>ub_startOffsetMs = i * 1000, ub_started = 0, ub_ended = 0, ub_maxConcurrent = level es\<rparr>)"
  have b: "b = \<lparr>ub_startOffsetMs = i * 1000, ub_started = started_in s es i, ub_ended = ended_in s es i,
      ub_maxConcurrent = peak_in s es i\<rparr>"
  proof (cases "i \<in> second s ` set es")
    case True
    then show ?thesis using assms(1) by (simp add: b_def swept_def second_bucket_def)
  next
    case False
    then have none: "\<forall>e' \<in> set es. second s e' \<noteq> i" by auto
    with assms(2) have "\<forall>e' \<in> set es. second s e' < i" by (force simp: i_def)
    then have "peak_in s es i = level es" using peak_none [OF none] standing_all by simp
    moreover have "started_in s es i = 0" "ended_in s es i = 0"
      using none by (auto simp: started_in_def ended_in_def filter_empty_conv)
    moreover have "jm_get m i = None" using False assms(1) by (simp add: swept_def)
    ultimately show ?thesis by (simp add: b_def)
  qed
  have step: "user_step s 1000 e (m, level es) = (jm_set i (second_bucket s (es @ [e]) i) m, level (es @ [e]))"
    unfolding user_step_def i_def [unfolded second_def, symmetric] Let_def prod.case b_def [symmetric] b
    by (simp add: second_bucket_def count_snoc peak_snoc level_snoc change_def i_def [symmetric] max_less)
  have "second_bucket s (es @ [e]) j = second_bucket s es j" if "j \<in> second s ` set es" "j \<noteq> i" for j
  proof -
    have "j \<le> second s e" using that(1) assms(2) by auto
    then show ?thesis using that(2) by (simp add: second_bucket_def count_snoc peak_snoc i_def)
  qed
  then show ?thesis using assms(1) by (auto simp: step swept_def i_def)
qed

lemma swept_fold:
  assumes "sorted_wrt (\<lambda>a b. ud_tsMs a \<le> ud_tsMs b) es"
  shows "swept s es (fst (fold (user_step s 1000) es ([], 0))) \<and> snd (fold (user_step s 1000) es ([], 0)) = level es"
  using assms
proof (induction es rule: rev_induct)
  case Nil
  then show ?case by (simp add: swept_def level_def)
next
  case (snoc e es)
  define st where "st = fold (user_step s 1000) es ([], 0)"
  have st: "swept s es (fst st)" "snd st = level es"
    using snoc by (simp_all add: st_def sorted_wrt_append)
  have "\<forall>e' \<in> set es. second s e' \<le> second s e"
    using snoc.prems by (auto simp: sorted_wrt_append second_def intro!: zdiv_mono1)
  from swept_step [OF st(1) this] show ?case
    unfolding st(2) [symmetric] by (simp add: st_def)
qed

section \<open>Filling the gaps\<close>

lemma standing_Suc: "standing_at s es (i + 1) = standing_at s es i + started_in s es i - ended_in s es i"
  by (induction es) (auto simp: standing_at_def started_in_def ended_in_def level_def change_def)

definition filled :: "int \<Rightarrow> user_delta list \<Rightarrow> int \<Rightarrow> int \<Rightarrow> (int, user_bucket) jmap \<Rightarrow> bool" where
  "filled s es a b m \<longleftrightarrow> jm_ok m \<and>
     (\<forall>i. jm_get m i = (if i \<in> second s ` set es \<or> (a \<le> i \<and> i < b) then Some (second_bucket s es i) else None))"

lemma filled_step:
  assumes "filled s es a b m" and "a \<le> b"
  shows "filled s es a (b + 1) (fst (user_fill_step 1000 b (m, standing_at s es b))) \<and>
    snd (user_fill_step 1000 b (m, standing_at s es b)) = standing_at s es (b + 1)"
proof (cases "b \<in> second s ` set es")
  case True
  then have "jm_get m b = Some (second_bucket s es b)" using assms(1) by (simp add: filled_def)
  then have "user_fill_step 1000 b (m, standing_at s es b) = (m, standing_at s es (b + 1))"
    by (simp add: user_fill_step_def second_bucket_def standing_Suc)
  moreover have "i \<in> second s ` set es \<or> (a \<le> i \<and> i < b + 1) \<longleftrightarrow> i \<in> second s ` set es \<or> (a \<le> i \<and> i < b)" for i
    using True by (auto simp: zless_add1_eq)
  ultimately show ?thesis using assms(1) by (simp add: filled_def)
next
  case False
  then have none: "\<forall>e \<in> set es. second s e \<noteq> b" by auto
  then have zero: "started_in s es b = 0" "ended_in s es b = 0"
    by (auto simp: started_in_def ended_in_def filter_empty_conv)
  have "jm_get m b = None" using False assms(1) by (simp add: filled_def)
  then have "user_fill_step 1000 b (m, standing_at s es b) = (jm_set b (second_bucket s es b) m, standing_at s es (b + 1))"
    using peak_none [OF none] zero by (simp add: user_fill_step_def second_bucket_def standing_Suc)
  then show ?thesis using assms by (auto simp: filled_def)
qed

lemma filled_fold:
  assumes "filled s es a a m"
  shows "filled s es a (a + int k) (fst (fold (user_fill_step 1000) [a..a + int k - 1] (m, standing_at s es a))) \<and>
    snd (fold (user_fill_step 1000) [a..a + int k - 1] (m, standing_at s es a)) = standing_at s es (a + int k)"
proof (induction k)
  case 0
  then show ?case using assms by simp
next
  case (Suc k)
  define st where "st = fold (user_fill_step 1000) [a..a + int k - 1] (m, standing_at s es a)"
  have "[a..a + int (Suc k) - 1] = [a..a + int k - 1] @ [a + int k]" using upto_rec2 [of a "a + int k"] by simp
  moreover have "filled s es a (a + int k) (fst st)" "snd st = standing_at s es (a + int k)"
    using Suc by (simp_all add: st_def)
  with filled_step [of s es a "a + int k" "fst st"]
  have "filled s es a (a + int k + 1) (fst (user_fill_step 1000 (a + int k) st)) \<and>
      snd (user_fill_step 1000 (a + int k) st) = standing_at s es (a + int k + 1)"
    by (metis le_add_same_cancel1 of_nat_0_le_iff prod.collapse)
  ultimately show ?case by (simp add: st_def add.assoc add.commute [of "int k" 1])
qed

text \<open>The seconds of a scenario: from its first event to its last.\<close>

definition seconds :: "int \<Rightarrow> user_delta list \<Rightarrow> int list" where
  "seconds s es = (if es = [] then [] else [Min (second s ` set es)..Max (second s ` set es)])"

lemma sorted_ends: "sorted xs \<Longrightarrow> xs \<noteq> [] \<Longrightarrow> hd xs = Min (set xs) \<and> last xs = Max (set xs)" for xs :: "int list"
proof (induction xs rule: rev_induct)
  case Nil
  then show ?case by simp
next
  case (snoc x xs)
  then show ?case by (cases "xs = []") (auto simp: sorted_append intro!: Max_eqI [symmetric] Min_insert2)
qed

lemma user_fill_rep:
  assumes "swept s es m"
  shows "jm_ok (user_fill 1000 m) \<and> (\<forall>i. jm_get (user_fill 1000 m) i =
    (if i \<in> set (seconds s es) then Some (second_bucket s es i) else None))"
proof (cases "es = []")
  case True
  then have "m = []" using assms map_of_eq_None_iff [of m] by (cases m) (auto simp: swept_def)
  then show ?thesis by (simp add: user_fill_def seconds_def True)
next
  case False
  have keys: "fst ` set m = second s ` set es"
  proof -
    have "i \<in> fst ` set m \<longleftrightarrow> i \<in> second s ` set es" for i
      using assms map_of_eq_None_iff [of m i] by (auto simp: swept_def split: if_splits)
    then show ?thesis by blast
  qed
  then have m: "m \<noteq> []" using False by auto
  define ks where "ks = js_sort (cmp_by id) (map fst m)"
  have ks: "ks = sort (map fst m)" by (simp add: ks_def js_sort_by id_def)
  then have "set ks = second s ` set es" "sorted ks" using keys by simp_all
  moreover have "ks \<noteq> []" using m ks by (metis length_0_conv length_map length_sort)
  ultimately have ends: "hd ks = Min (second s ` set es)" "last ks = Max (second s ` set es)"
    using sorted_ends [of ks] by simp_all
  define a where "a = Min (second s ` set es)"
  define b where "b = Max (second s ` set es)"
  have range: "a \<le> i \<and> i \<le> b" if "i \<in> second s ` set es" for i
    using that by (simp add: a_def b_def)
  obtain e where e: "e \<in> set es" using False by (cases es) auto
  with range have "a \<le> b" by fastforce
  define k where "k = nat (b + 1 - a)"
  have k: "a + int k = b + 1" using \<open>a \<le> b\<close> by (simp add: k_def)
  have "filled s es a a m" using assms by (simp add: swept_def filled_def)
  moreover have "filter (\<lambda>e. second s e < a) es = []"
    using range by (auto simp: filter_empty_conv not_less)
  then have "standing_at s es a = 0" by (simp add: standing_at_def level_def)
  ultimately have "filled s es a (b + 1) (user_fill 1000 m)"
    using filled_fold [of s es a m k] m unfolding user_fill_def Let_def ks_def [symmetric] ends
      a_def [symmetric] b_def [symmetric] k by simp
  moreover have "i \<in> second s ` set es \<or> (a \<le> i \<and> i < b + 1) \<longleftrightarrow> i \<in> set (seconds s es)" for i
    using range False by (auto simp: seconds_def a_def b_def)
  ultimately show ?thesis by (simp add: filled_def)
qed

section \<open>Coalescing the seconds\<close>

definition user_rep :: "int \<Rightarrow> user_delta list \<Rightarrow> int \<Rightarrow> user_bucket \<Rightarrow> int multiset \<Rightarrow> bool" where
  "user_rep s es off b M \<longleftrightarrow> M \<noteq> {#} \<and> ub_startOffsetMs b = off \<and>
     ub_started b = (\<Sum>i \<in># M. started_in s es i) \<and> ub_ended b = (\<Sum>i \<in># M. ended_in s es i) \<and>
     ub_maxConcurrent b = Max (peak_in s es ` set_mset M)"

interpretation us: located "\<lambda>i. i * 1000" "user_rep s es" user_put user_join ub_startOffsetMs
  for s :: int and es :: "user_delta list"
proof unfold_locales
  fix off off' :: int and b b' :: user_bucket and M N :: "int multiset"
  assume b: "user_rep s es off b M" "user_rep s es off' b' N"
  have "Max (peak_in s es ` (set_mset M \<union> set_mset N)) = max (Max (peak_in s es ` set_mset M)) (Max (peak_in s es ` set_mset N))"
    using b unfolding image_Un by (intro Max_Un) (auto simp: user_rep_def)
  then show "user_rep s es off (user_join b b') (M + N)"
    using b unfolding user_rep_def user_join_def Let_def
    by (simp add: max_less del: Max_less_iff Max_gr_iff)
qed (auto simp: user_rep_def user_put_def)

lemma second_bucket_rep: "user_rep s es (i * 1000) (second_bucket s es i) {#i#}"
  by (simp add: user_rep_def second_bucket_def)

lemma seconds_distinct [simp]: "distinct (seconds s es)"
  by (simp add: seconds_def)

lemma fill_axis:
  assumes "swept s es m"
  shows "axis_rep (\<lambda>i. i * 1000) (user_rep s es) 1000 (user_fill 1000 m) (mset (seconds s es))"
proof -
  have "in_slot (\<lambda>i. i * 1000) 1000 i (mset xs) = (if i \<in> set xs then {#i#} else {#})" if "distinct xs" for i xs
    using that by (induction xs) (auto simp: in_slot_def)
  then show ?thesis
    using user_fill_rep [OF assms] second_bucket_rep by (simp add: axis_rep_def)
qed

text \<open>The order of the sweep: by time, and starts before ends at one instant.\<close>

interpretation by_delta: consistent_cmp cmp_delta
  by unfold_locales (auto simp: cmp_delta_def cmp_then_def cmp_by_def split: if_splits)

lemma sweep_sorted: "sorted_wrt (\<lambda>a b. ud_tsMs a \<le> ud_tsMs b) (js_sort cmp_delta es)"
  by (rule sorted_wrt_mono_rel [OF _ by_delta.js_sort_sorted])
    (auto simp: cmp_delta_def cmp_then_def cmp_by_def split: if_splits)

lemma user_sweep_rep:
  assumes "2 \<le> cap \<or> 1 \<le> cap \<and> (\<forall>e \<in> set events. s \<le> ud_tsMs e)" and "es = js_sort cmp_delta events"
  obtains w bs where "user_sweep s cap events = Some (w, bs)"
    "narrowest cap (\<lambda>i. i * 1000) w (mset (seconds s es))" "int (length bs) \<le> cap"
    "map ub_startOffsetMs bs = sorted_list_of_set ((\<lambda>i. i * 1000 div w * w) ` set (seconds s es))"
    "\<And>b. b \<in> set bs \<Longrightarrow> user_rep s es (ub_startOffsetMs b) b
       (filter_mset (\<lambda>i. i * 1000 div w * w = ub_startOffsetMs b) (mset (seconds s es)))"
proof -
  define m where "m = user_fill 1000 (fst (fold (user_step s 1000) es ([], 0)))"
  have axis: "axis_rep (\<lambda>i. i * 1000) (user_rep s es) 1000 m (mset (seconds s es))"
    unfolding m_def using swept_fold [of es s] sweep_sorted [of events] assms(2) by (intro fill_axis) simp
  then have ok: "jm_ok m" by (simp add: axis_rep_def)
  have "0 \<le> i" if "i \<in> set (seconds s es)" "\<forall>e \<in> set events. s \<le> ud_tsMs e" for i
  proof -
    have ne: "es \<noteq> []" using that(1) by (auto simp: seconds_def)
    then have "Min (second s ` set es) \<in> second s ` set es" by (intro Min_in) simp_all
    moreover have "\<forall>x \<in> second s ` set es. 0 \<le> x"
      using that(2) assms(2) by (auto simp: second_def pos_imp_zdiv_nonneg_iff)
    ultimately have "0 \<le> Min (second s ` set es)" by blast
    moreover have "Min (second s ` set es) \<le> i"
      using that(1) ne unfolding seconds_def by (simp only: if_False set_upto) simp
    ultimately show ?thesis by linarith
  qed
  then have "2 \<le> cap \<or> 1 \<le> cap \<and> (\<forall>i \<in> fst ` set m. 0 \<le> i)"
    using assms(1) unfolding axis_rep_keys [OF axis] by auto
  from coalesce_returns [OF ok this, of user_put user_join 1000] obtain w m' where
    c: "coalesce user_put user_join cap 1000 m = Some (w, m')" by blast
  note rep = us.axis_rep_coalesce [OF axis narrowest_start c]
  have "user_sweep s cap events = Some (w, js_sort (cmp_by ub_startOffsetMs) (map snd m'))"
    using c by (simp add: user_sweep_def Let_def m_def assms(2))
  then show ?thesis
  proof (rule that)
    show "map ub_startOffsetMs (js_sort (cmp_by ub_startOffsetMs) (map snd m')) =
        sorted_list_of_set ((\<lambda>i. i * 1000 div w * w) ` set (seconds s es))"
      using us.axis_rep_offsets [OF rep(1) narrowest_pos [OF rep(2)]] by simp
    show "user_rep s es (ub_startOffsetMs b) b (filter_mset (\<lambda>i. i * 1000 div w * w = ub_startOffsetMs b) (mset (seconds s es)))"
      if "b \<in> set (js_sort (cmp_by ub_startOffsetMs) (map snd m'))" for b
      by (rule us.axis_rep_buckets [OF rep(1) narrowest_pos [OF rep(2)] that])
  qed (use rep in simp_all)
qed

section \<open>The run's total\<close>

definition total_at :: "int \<Rightarrow> user_bucket list \<Rightarrow> user_bucket" where
  "total_at off rows = (let rs = filter (\<lambda>r. ub_startOffsetMs r = off) rows in
     \<lparr>ub_startOffsetMs = off, ub_started = (\<Sum>r \<leftarrow> rs. ub_started r), ub_ended = (\<Sum>r \<leftarrow> rs. ub_ended r),
      ub_maxConcurrent = (\<Sum>r \<leftarrow> rs. ub_maxConcurrent r)\<rparr>)"

lemma add_user_fold:
  "jm_ok (fold add_user rows []) \<and> (\<forall>off. jm_get (fold add_user rows []) off =
    (if off \<in> ub_startOffsetMs ` set rows then Some (total_at off rows) else None))"
proof (induction rows rule: rev_induct)
  case Nil
  then show ?case by simp
next
  case (snoc r rows)
  have "total_at (ub_startOffsetMs r) rows = \<lparr>ub_startOffsetMs = ub_startOffsetMs r, ub_started = 0, ub_ended = 0,
      ub_maxConcurrent = 0\<rparr>" if "ub_startOffsetMs r \<notin> ub_startOffsetMs ` set rows"
  proof -
    have "filter (\<lambda>r'. ub_startOffsetMs r' = ub_startOffsetMs r) rows = []"
      using that by (auto simp: filter_empty_conv) (metis image_eqI)
    then show ?thesis by (simp add: total_at_def)
  qed
  then have "jm_get_or \<lparr>ub_startOffsetMs = ub_startOffsetMs r, ub_started = 0, ub_ended = 0, ub_maxConcurrent = 0\<rparr>
      (fold add_user rows []) (ub_startOffsetMs r) = total_at (ub_startOffsetMs r) rows"
    using snoc by (simp add: jm_get_or_def)
  then have "add_user r (fold add_user rows []) =
      jm_set (ub_startOffsetMs r) (total_at (ub_startOffsetMs r) (rows @ [r])) (fold add_user rows [])"
    by (simp add: add_user_def total_at_def Let_def)
  moreover have "total_at off (rows @ [r]) = total_at off rows" if "off \<noteq> ub_startOffsetMs r" for off
    using that by (simp add: total_at_def)
  ultimately show ?case using snoc by auto
qed

lemma sort_key_map: "(\<And>k. f (g k) = k) \<Longrightarrow> sort_key f (map g ks) = map g (sort ks)" for ks :: "int list"
proof -
  assume "\<And>k. f (g k) = k"
  then have "insort_key f (g k) (map g ys) = map g (insort k ys)" for k ys by (induction ys) auto
  then show ?thesis by (induction ks) simp_all
qed

lemma sum_users:
  "sumUsersByOffset rows = map (\<lambda>off. total_at off rows) (sorted_list_of_set (ub_startOffsetMs ` set rows))"
proof -
  define m where "m = fold add_user rows []"
  have ok: "jm_ok m" and get: "jm_get m off = (if off \<in> ub_startOffsetMs ` set rows then Some (total_at off rows) else None)" for off
    using add_user_fold [of rows] by (simp_all add: m_def)
  have val: "b = total_at i rows" "i \<in> ub_startOffsetMs ` set rows" if "(i, b) \<in> set m" for i b
    using get [of i] ok that by (auto simp: jm_ok_def split: if_splits)
  then have snd: "map snd m = map (\<lambda>off. total_at off rows) (map fst m)" by (auto simp: comp_def)
  have offs: "ub_startOffsetMs (total_at off rows) = off" for off by (simp add: total_at_def Let_def)
  have keys: "set (map fst m) = ub_startOffsetMs ` set rows"
  proof -
    have "i \<in> fst ` set m \<longleftrightarrow> i \<in> ub_startOffsetMs ` set rows" for i
      using get [of i] map_of_eq_None_iff [of m i] by (auto split: if_splits)
    then show ?thesis by (simp only: set_map) blast
  qed
  have "sumUsersByOffset rows = sort_key ub_startOffsetMs (map snd m)"
    by (simp add: sumUsersByOffset_def js_sort_by m_def)
  also have "\<dots> = map (\<lambda>off. total_at off rows) (sort (map fst m))"
    unfolding snd by (rule sort_key_map) (rule offs)
  also have "sort (map fst m) = sorted_list_of_set (ub_startOffsetMs ` set rows)"
    using ok keys by (metis distinct_remdups_id jm_ok_def sorted_list_of_set_sort_remdups)
  finally show ?thesis .
qed

section \<open>Properties\<close>

text \<open>
  C17: The series of a scenario covers every second from its first event to its
  last, occupied or not, at the narrowest width that fits the cap. A bucket counts the starts and
  the ends of its seconds, and its concurrency is the peak over its seconds, where the peak of a
  second is the most users at its start or after any of its events, starts counted before ends.
\<close>

theorem concurrency_is_exact:
  assumes "2 \<le> maxBuckets \<or> 1 \<le> maxBuckets \<and> (\<forall>e \<in> set events. startMs \<le> ud_tsMs e)"
    and "es = js_sort cmp_delta events"
  shows "\<exists>w bs. user_sweep startMs maxBuckets events = Some (w, bs) \<and>
    narrowest maxBuckets (\<lambda>i. i * 1000) w (mset (seconds startMs es)) \<and> int (length bs) \<le> maxBuckets \<and>
    map ub_startOffsetMs bs = sorted_list_of_set ((\<lambda>i. i * 1000 div w * w) ` set (seconds startMs es)) \<and>
    (\<forall>b \<in> set bs. let own = {i \<in> set (seconds startMs es). i * 1000 div w * w = ub_startOffsetMs b} in
      ub_started b = (\<Sum>i \<in> own. started_in startMs es i) \<and>
      ub_ended b = (\<Sum>i \<in> own. ended_in startMs es i) \<and>
      ub_maxConcurrent b = Max (peak_in startMs es ` own))"
proof -
  from user_sweep_rep [OF assms] obtain w bs where w: "user_sweep startMs maxBuckets events = Some (w, bs)"
    "narrowest maxBuckets (\<lambda>i. i * 1000) w (mset (seconds startMs es))" "int (length bs) \<le> maxBuckets"
    "map ub_startOffsetMs bs = sorted_list_of_set ((\<lambda>i. i * 1000 div w * w) ` set (seconds startMs es))"
    "\<And>b. b \<in> set bs \<Longrightarrow> user_rep startMs es (ub_startOffsetMs b) b
       (filter_mset (\<lambda>i. i * 1000 div w * w = ub_startOffsetMs b) (mset (seconds startMs es)))" by blast
  have "mset (seconds startMs es) = mset_set (set (seconds startMs es))" by (simp add: mset_set_set)
  with w(5) show ?thesis
    by (intro exI [of _ w] exI [of _ bs] conjI w(1-4) ballI) (simp add: user_rep_def Let_def filter_mset_mset_set sum_unfold_sum_mset)
qed

theorem concurrency_is_exact_witness:
  "let events = [\<lparr>ud_tsMs = 9000, ud_delta = - 1\<rparr>, \<lparr>ud_tsMs = 1500, ud_delta = 1\<rparr>, \<lparr>ud_tsMs = 1500, ud_delta = 1\<rparr>];
       es = js_sort cmp_delta events in
   \<exists>w bs. user_sweep 1000 4 events = Some (w, bs) \<and>
    map ub_startOffsetMs bs = sorted_list_of_set ((\<lambda>i. i * 1000 div w * w) ` set (seconds 1000 es)) \<and>
    (\<forall>b \<in> set bs. let own = {i \<in> set (seconds 1000 es). i * 1000 div w * w = ub_startOffsetMs b} in
      ub_maxConcurrent b = Max (peak_in 1000 es ` own))"
  using concurrency_is_exact [OF _ refl, of 4 "[\<lparr>ud_tsMs = 9000, ud_delta = - 1\<rparr>, \<lparr>ud_tsMs = 1500, ud_delta = 1\<rparr>,
      \<lparr>ud_tsMs = 1500, ud_delta = 1\<rparr>]" 1000]
  unfolding Let_def by (auto simp del: set_js_sort)

text \<open>
  The run's total has one bucket per offset of the rows, ascending, and
  each of its figures is the sum over the rows of that offset, peaks included.
\<close>

lemma all_users_sum_per_offset:
  "sumUsersByOffset rows = map (\<lambda>off. let rs = filter (\<lambda>r. ub_startOffsetMs r = off) rows in
     \<lparr>ub_startOffsetMs = off, ub_started = (\<Sum>r \<leftarrow> rs. ub_started r), ub_ended = (\<Sum>r \<leftarrow> rs. ub_ended r),
      ub_maxConcurrent = (\<Sum>r \<leftarrow> rs. ub_maxConcurrent r)\<rparr>) (sorted_list_of_set (ub_startOffsetMs ` set rows))"
  unfolding sum_users total_at_def ..

end
