(* ===== verification/Engine.thy ===== *)
theory Engine
  imports Keyed Users ToolAssertions
begin

text \<open>
  \<open>engine.ts\<close> and \<open>engine-async.ts\<close>: the fold of the canonical events into rows, series, errors,
  users and verdicts. A step returns \<open>None\<close> when a coalescing loop does not end, and \<open>Inl\<close> with the
  engine it leaves behind when the cardinality cap is exceeded.

  \<open>#runResponseSeries\<close> is a reference into \<open>#series\<close>; it is modelled by the key it refers to.
\<close>

datatype engine_error = EndpointCardinalityExceeded int "jstr list"

record engine_options =
  eo_warmupMs :: "int option"
  eo_percentiles :: "rat list option"
  eo_maxEndpoints :: "int option"
  eo_maxBucketsRun :: "int option"
  eo_maxBucketsEndpoint :: "int option"
  eo_maxBucketsGroup :: "int option"
  eo_maxBucketsUsers :: "int option"

record engine_config =
  ec_warmupMs :: int
  ec_percentiles :: "rat list"
  ec_maxEndpoints :: int
  ec_maxBucketsRun :: int
  ec_maxBucketsEndpoint :: int
  ec_maxBucketsGroup :: int
  ec_maxBucketsUsers :: int

definition or_default :: "'a option \<Rightarrow> 'a \<Rightarrow> 'a" where
  "or_default v d = (case v of Some x \<Rightarrow> x | None \<Rightarrow> d)"

definition DEFAULT_MAX_BUCKETS_ENDPOINT :: int where
  "DEFAULT_MAX_BUCKETS_ENDPOINT = 300"

definition engine_config_of :: "engine_options \<Rightarrow> engine_config" where
  "engine_config_of o' = \<lparr>ec_warmupMs = or_default (eo_warmupMs o') 0,
     ec_percentiles = or_default (eo_percentiles o') [50, 75, 95, 99],
     ec_maxEndpoints = or_default (eo_maxEndpoints o') 2000,
     ec_maxBucketsRun = or_default (eo_maxBucketsRun o') 1200,
     ec_maxBucketsEndpoint = or_default (eo_maxBucketsEndpoint o') DEFAULT_MAX_BUCKETS_ENDPOINT,
     ec_maxBucketsGroup = or_default (eo_maxBucketsGroup o') 300,
     ec_maxBucketsUsers = or_default (eo_maxBucketsUsers o') 1200\<rparr>"

definition errorMessageOf :: "jstr option \<Rightarrow> jstr" where
  "errorMessageOf m = (case m of Some s \<Rightarrow> if 0 < length s then s else js ''(no message)''
     | None \<Rightarrow> js ''(no message)'')"

type_synonym row_id = "metric_scope \<times> jstr \<times> metric_family"
type_synonym error_id = "metric_scope \<times> jstr"

record rollup_entry =
  rl_id :: row_id
  rl_builder :: rollup_builder

record series_entry =
  sn_id :: row_id
  sn_series :: bucket_series

record errors_entry =
  ee_id :: error_id
  ee_rollup :: error_rollup

record live_engine =
  le_cfg :: engine_config
  le_runStartMs :: int
  le_sawMeta :: bool
  le_firstMs :: "int option"
  le_lastMs :: int
  le_rollups :: "(jstr, rollup_entry) jmap"
  le_series :: "(jstr, series_entry) jmap"
  le_userEvents :: "(jstr \<times> user_kind \<times> int) list"
  le_errorsByKey :: "(jstr, errors_entry) jmap"
  le_errorSeries :: "error_series option"
  le_runResponseSeries :: "jstr option"
  le_simulation :: "jstr option"
  le_description :: "jstr option"
  le_declaredAssertions :: "tool_assertion list"
  le_endpoints :: "jstr list"

definition new_engine :: "engine_options \<Rightarrow> live_engine" where
  "new_engine opts = \<lparr>le_cfg = engine_config_of opts, le_runStartMs = 0, le_sawMeta = False, le_firstMs = None,
     le_lastMs = 0, le_rollups = [], le_series = [], le_userEvents = [], le_errorsByKey = [],
     le_errorSeries = None, le_runResponseSeries = None, le_simulation = None, le_description = None,
     le_declaredAssertions = [], le_endpoints = []\<rparr>"

section \<open>Keyed accumulators\<close>

text \<open>The token \<open>`${scope} ${name} ${family}`\<close>, and \<open>`${scope} ${name}`\<close> of an errors entry.\<close>

fun rollupKey :: "row_id \<Rightarrow> jstr" where
  "rollupKey (scope, name, family) = scope_js scope @ [sp] @ name @ [sp] @ family_js family"

fun errorsKey :: "error_id \<Rightarrow> jstr" where
  "errorsKey (scope, name) = scope_js scope @ [sp] @ name"

definition add_rollup :: "row_id \<Rightarrow> int \<Rightarrow> bool \<Rightarrow> live_engine \<Rightarrow> live_engine option" where
  "add_rollup i durationMs ok e = map_option (\<lambda>m. e\<lparr>le_rollups := m\<rparr>)
     (upsert rollupKey (\<lambda>i. \<lparr>rl_id = i, rl_builder = new_builder\<rparr>)
       (\<lambda>(d, ok) en. Some (en\<lparr>rl_builder := builder_add (of_int d) ok (rl_builder en)\<rparr>)) i (durationMs, ok) (le_rollups e))"

definition add_error :: "error_id \<Rightarrow> jstr \<Rightarrow> live_engine \<Rightarrow> live_engine option" where
  "add_error i message e = map_option (\<lambda>m. e\<lparr>le_errorsByKey := m\<rparr>)
     (upsert errorsKey (\<lambda>i. \<lparr>ee_id = i, ee_rollup = []\<rparr>)
       (\<lambda>m en. Some (en\<lparr>ee_rollup := error_rollup_add m (ee_rollup en)\<rparr>)) i message (le_errorsByKey e))"

definition add_to_series :: "request_edge \<Rightarrow> series_entry \<Rightarrow> series_entry option" where
  "add_to_series x en = map_option (\<lambda>s. en\<lparr>sn_series := s\<rparr>)
     (bucket_series_add (re_tsMs x) (re_value x) (re_ok x) (re_edge x) (sn_series en))"

definition add_series :: "row_id \<Rightarrow> int \<Rightarrow> int \<Rightarrow> int \<Rightarrow> bool \<Rightarrow> edge \<Rightarrow> live_engine \<Rightarrow> live_engine option" where
  "add_series i cap tsMs value ok edge e = map_option (\<lambda>m. e\<lparr>le_series := m\<rparr>)
     (upsert rollupKey (\<lambda>i. \<lparr>sn_id = i, sn_series = new_bucket_series (le_runStartMs e) cap\<rparr>)
       add_to_series i \<lparr>re_tsMs = tsMs, re_value = of_int value, re_ok = ok, re_edge = edge\<rparr> (le_series e))"

text \<open>Both edges of one observation.\<close>

definition add_both :: "row_id \<Rightarrow> int \<Rightarrow> int \<Rightarrow> int \<Rightarrow> int \<Rightarrow> bool \<Rightarrow> live_engine \<Rightarrow> live_engine option" where
  "add_both i cap startMs endMs value ok e =
     Option.bind (add_series i cap startMs value ok StartEdge e) (add_series i cap endMs value ok EndEdge)"

definition add_failure :: "int \<Rightarrow> jstr \<Rightarrow> live_engine \<Rightarrow> live_engine option" where
  "add_failure tsMs message e =
     map_option (\<lambda>s. e\<lparr>le_errorSeries := Some s\<rparr>)
       (error_series_add tsMs message (case le_errorSeries e of Some s \<Rightarrow> s
          | None \<Rightarrow> new_error_series (le_runStartMs e) (ec_maxBucketsRun (le_cfg e))))"

section \<open>One event\<close>

definition in_warmup :: "int \<Rightarrow> live_engine \<Rightarrow> bool" where
  "in_warmup tsMs e = isWarmup tsMs (le_runStartMs e) (ec_warmupMs (le_cfg e))"

definition add_meta :: "meta_event \<Rightarrow> live_engine \<Rightarrow> live_engine" where
  "add_meta m e = e\<lparr>le_runStartMs := me_startedAtMs m, le_sawMeta := True,
     le_simulation := Some (me_simulation m), le_description := me_description m,
     le_declaredAssertions := or_default (me_assertions m) []\<rparr>"

definition add_group :: "group_event \<Rightarrow> live_engine \<Rightarrow> live_engine option" where
  "add_group g e =
     (let name = js_join [slash] (gr_groups g); cumulated = gr_cumulatedResponseTimeMs g;
          duration = gr_endMs g - gr_startMs g; cap = ec_maxBucketsGroup (le_cfg e) in
      Option.bind (add_both (Group, name, GroupCumulated) cap (gr_startMs g) (gr_endMs g) cumulated (gr_ok g) e) (\<lambda>e.
      Option.bind (add_both (Group, name, GroupDuration) cap (gr_startMs g) (gr_endMs g) duration (gr_ok g) e) (\<lambda>e.
      if in_warmup (gr_startMs g) e then Some e
      else Option.bind (add_rollup (Group, name, GroupCumulated) cumulated (gr_ok g) e)
             (add_rollup (Group, name, GroupDuration) duration (gr_ok g)))))"

definition request_path :: "request_event \<Rightarrow> jstr" where
  "request_path r = js_join [slash] (rq_groups r @ [rq_name r])"

definition last_five :: "'a list \<Rightarrow> 'a list" where
  "last_five xs = drop (length xs - 5) xs"

definition add_request :: "request_event \<Rightarrow> live_engine \<Rightarrow> (engine_error \<times> live_engine + live_engine) option" where
  "add_request r e =
     (let name = request_path r; e = e\<lparr>le_endpoints := set_insert name (le_endpoints e)\<rparr>;
          duration = rq_endMs r - rq_startMs r in
      if ec_maxEndpoints (le_cfg e) < int (length (le_endpoints e))
      then Some (Inl (EndpointCardinalityExceeded (ec_maxEndpoints (le_cfg e)) (last_five (le_endpoints e)), e))
      else
        (let e = e\<lparr>le_firstMs := Some (case le_firstMs e of None \<Rightarrow> rq_startMs r | Some f \<Rightarrow> min f (rq_startMs r)),
                   le_lastMs := max (le_lastMs e) (rq_endMs r),
                   le_runResponseSeries := Some (rollupKey (Run, [], ResponseTimeF))\<rparr> in
         map_option Inr (
         Option.bind (add_both (Run, [], ResponseTimeF) (ec_maxBucketsRun (le_cfg e)) (rq_startMs r) (rq_endMs r) duration (rq_ok r) e) (\<lambda>e.
         Option.bind (add_both (Request, name, ResponseTimeF) (ec_maxBucketsEndpoint (le_cfg e)) (rq_startMs r) (rq_endMs r) duration (rq_ok r) e) (\<lambda>e.
         Option.bind (if rq_ok r then Some e else add_failure (rq_endMs r) (errorMessageOf (rq_message r)) e) (\<lambda>e.
         if in_warmup (rq_startMs r) e then Some e
         else Option.bind (add_rollup (Run, [], ResponseTimeF) duration (rq_ok r) e) (\<lambda>e.
              Option.bind (add_rollup (Request, name, ResponseTimeF) duration (rq_ok r) e) (\<lambda>e.
              if rq_ok r then Some e
              else Option.bind (add_error (Run, []) (errorMessageOf (rq_message r)) e)
                     (add_error (Request, name) (errorMessageOf (rq_message r)))))))))))"

definition engine_add :: "canonical_event \<Rightarrow> live_engine \<Rightarrow> (engine_error \<times> live_engine + live_engine) option" where
  "engine_add ev e = (case ev of
     MetaE m \<Rightarrow> Some (Inr (add_meta m e))
   | GroupE g \<Rightarrow> map_option Inr (add_group g e)
   | UserE u \<Rightarrow> Some (Inr (e\<lparr>le_userEvents := le_userEvents e @ [(us_scenario u, us_kind u, us_tsMs u)]\<rparr>))
   | ErrorE x \<Rightarrow> if in_warmup (er_tsMs x) e then Some (Inr e)
       else map_option Inr (add_error (Run, []) (errorMessageOf (Some (Events.er_message x))) e)
   | RequestE r \<Rightarrow> add_request r e)"

fun engine_fold :: "canonical_event list \<Rightarrow> live_engine \<Rightarrow> (engine_error \<times> live_engine + live_engine) option" where
  "engine_fold [] e = Some (Inr e)"
| "engine_fold (x # xs) e = (case engine_add x e of
     None \<Rightarrow> None
   | Some (Inl err) \<Rightarrow> Some (Inl err)
   | Some (Inr e') \<Rightarrow> engine_fold xs e')"

section \<open>The snapshot\<close>

record engine_result =
  xr_stats :: "stat_rollup list"
  xr_series :: "(jstr \<times> row_id \<times> int \<times> bucket list) list"
  xr_users :: "user_scenario list"
  xr_errors :: "(error_id \<times> jstr option \<times> int) list"
  xr_errorSeries :: error_series_result
  xr_endpointCount :: int
  xr_runStartedAtMs :: "int option"
  xr_simulation :: "jstr option"
  xr_description :: "jstr option"
  xr_durationMs :: int
  xr_activityMs :: int
  xr_toolAssertions :: "evaluated_assertion list"

definition window_ms :: "live_engine \<Rightarrow> int" where
  "window_ms e = (case le_firstMs e of None \<Rightarrow> 0
     | Some first \<Rightarrow> max 0 (le_lastMs e - max first (le_runStartMs e + ec_warmupMs (le_cfg e))))"

definition snapshot_stats :: "bool \<Rightarrow> live_engine \<Rightarrow> stat_error + stat_rollup list" where
  "snapshot_stats clone e = sum_list_all (map (\<lambda>(k, en). case rl_id en of (scope, name, family) \<Rightarrow>
     builder_finish scope name family (window_ms e) (ec_percentiles (le_cfg e)) clone (rl_builder en)) (le_rollups e))"

definition snapshot_errors :: "(jstr \<Rightarrow> jstr \<Rightarrow> int) \<Rightarrow> live_engine \<Rightarrow> (error_id \<times> jstr option \<times> int) list" where
  "snapshot_errors lc e = concat (map (\<lambda>(k, en). map (\<lambda>t. (ee_id en, et_message t, et_count t))
     (error_rollup_top lc 200 (ee_rollup en))) (le_errorsByKey e))"

definition run_width :: "live_engine \<Rightarrow> int" where
  "run_width e = (case le_runResponseSeries e of None \<Rightarrow> 1000
     | Some k \<Rightarrow> (case jm_get (le_series e) k of None \<Rightarrow> 1000 | Some en \<Rightarrow> bs_widthMs (sn_series en)))"

definition snapshot_error_series :: "(jstr \<Rightarrow> jstr \<Rightarrow> int) \<Rightarrow> live_engine \<Rightarrow> (error_series_result \<times> live_engine) option" where
  "snapshot_error_series lc e = (case le_errorSeries e of
     None \<Rightarrow> Some (\<lparr>ez_bucketWidthMs = run_width e, ez_rows = []\<rparr>, e)
   | Some s \<Rightarrow> map_option (\<lambda>(z, s'). (z, e\<lparr>le_errorSeries := Some s'\<rparr>))
       (error_series_finish lc (run_width e) ERROR_SERIES_KEEP s))"

definition snapshot_users :: "(jstr \<Rightarrow> jstr \<Rightarrow> int) \<Rightarrow> live_engine \<Rightarrow> user_scenario list option" where
  "snapshot_users lc e = user_scenarios lc (fold (\<lambda>(scenario, kind, tsMs). user_series_add scenario kind tsMs)
     (le_userEvents e) (new_user_series (le_runStartMs e) (ec_maxBucketsUsers (le_cfg e))))"

definition engine_snapshot :: "(jstr \<Rightarrow> jstr \<Rightarrow> int) \<Rightarrow> bool \<Rightarrow> live_engine \<Rightarrow>
    (stat_error + engine_result \<times> live_engine) option" where
  "engine_snapshot lc clone e =
     Option.bind (snapshot_error_series lc e) (\<lambda>(errorSeries, e').
     Option.bind (snapshot_users lc e) (\<lambda>users.
     Some (bind_sum (snapshot_stats clone e) (\<lambda>stats.
           bind_sum (evaluateToolAssertions (le_declaredAssertions e) stats) (\<lambda>verdicts.
             Inr (\<lparr>xr_stats = stats,
               xr_series = map (\<lambda>(k, en). (k, sn_id en, bs_widthMs (sn_series en), buckets (sn_series en))) (le_series e),
               xr_users = users, xr_errors = snapshot_errors lc e, xr_errorSeries = errorSeries,
               xr_endpointCount = int (length (le_endpoints e)),
               xr_runStartedAtMs = (if le_sawMeta e then Some (le_runStartMs e) else None),
               xr_simulation = le_simulation e, xr_description = le_description e,
               xr_durationMs = (if le_lastMs e = 0 then 0 else max 0 (le_lastMs e - le_runStartMs e)),
               xr_activityMs = (if le_lastMs e = 0 then 0 else window_ms e),
               xr_toolAssertions = verdicts\<rparr>, e'))))))"

datatype engine_outcome = EngineThrew engine_error | StatsThrew stat_error | EngineDone engine_result

definition runEngine :: "(jstr \<Rightarrow> jstr \<Rightarrow> int) \<Rightarrow> canonical_event list \<Rightarrow> engine_options \<Rightarrow> engine_outcome option" where
  "runEngine lc events opts = Option.bind (engine_fold events (new_engine opts)) (\<lambda>r. case r of
     Inl (err, _) \<Rightarrow> Some (EngineThrew err)
   | Inr e \<Rightarrow> map_option (\<lambda>s. case s of Inl err \<Rightarrow> StatsThrew err | Inr (res, _) \<Rightarrow> EngineDone res)
       (engine_snapshot lc False e))"

section \<open>What the accumulators hold\<close>

lemma rollupKey_inj: "rollupKey i = rollupKey j \<Longrightarrow> i = j"
proof -
  assume eq: "rollupKey i = rollupKey j"
  obtain s n f s' n' f' where ij: "i = (s, n, f)" "j = (s', n', f')" by (cases i, cases j) blast
  from eq have "scope_js s @ sp # (n @ sp # family_js f) = scope_js s' @ sp # (n' @ sp # family_js f')"
    by (simp add: ij)
  from append_sep_eq_left [OF this] have "s = s'" "n @ sp # family_js f = n' @ sp # family_js f'"
    by (simp_all add: key_simps)
  with append_sep_eq_right [OF this(2)] show "i = j" by (simp add: ij key_simps)
qed

lemma errorsKey_inj: "errorsKey i = errorsKey j \<Longrightarrow> i = j"
  using append_sep_eq_left [of "scope_js (fst i)" sp "snd i" "scope_js (fst j)" "snd j"]
  by (cases i; cases j) (simp add: key_simps)

definition as_durations :: "(int \<times> bool) list \<Rightarrow> (rat \<times> bool) list" where
  "as_durations = map (map_prod of_int id)"

definition rollup_rep :: "rollup_entry \<Rightarrow> (int \<times> bool) list \<Rightarrow> bool" where
  "rollup_rep en xs \<longleftrightarrow> hist_rep (rb_ok (rl_builder en)) (ok_part (as_durations xs)) \<and>
     hist_rep (rb_ko (rl_builder en)) (ko_part (as_durations xs))"

lemma part_snoc: "ok_part (es @ [(d, b)]) = (if b then add_mset (clampMs d) (ok_part es) else ok_part es)"
  "ko_part (es @ [(d, b)]) = (if b then ko_part es else add_mset (clampMs d) (ko_part es))"
  by (simp_all add: ok_part_def ko_part_def)

lemma hist_rep_add_int: "hist_rep h M \<Longrightarrow> hist_rep (hist_add (of_int d) h) (add_mset (max 0 d) M)"
  using hist_rep_add [of h M "of_int d"] by simp

interpretation kr: keyed rollupKey rl_id "\<lambda>i. \<lparr>rl_id = i, rl_builder = new_builder\<rparr>"
  "\<lambda>(d, ok) en. Some (en\<lparr>rl_builder := builder_add (of_int d) ok (rl_builder en)\<rparr>)" rollup_rep "\<lambda>_ _. True"
proof unfold_locales
  fix i show "rollup_rep \<lparr>rl_id = i, rl_builder = new_builder\<rparr> []"
    by (simp add: rollup_rep_def as_durations_def new_builder_def ok_part_def ko_part_def hist_rep_new)
next
  fix en :: rollup_entry and xs x
  assume "rollup_rep en xs"
  then show "\<exists>en'. (case x of (d, ok) \<Rightarrow> \<lambda>en. Some (en\<lparr>rl_builder := builder_add (of_int d) ok (rl_builder en)\<rparr>)) en =
      Some en' \<and> rl_id en' = rl_id en \<and> rollup_rep en' (xs @ [x])"
    by (cases x) (auto simp: rollup_rep_def as_durations_def builder_add_def part_snoc hist_rep_add_int)
qed (simp_all add: rollupKey_inj)

interpretation ke: keyed errorsKey ee_id "\<lambda>i. \<lparr>ee_id = i, ee_rollup = []\<rparr>"
  "\<lambda>m en. Some (en\<lparr>ee_rollup := error_rollup_add m (ee_rollup en)\<rparr>)"
  "\<lambda>en xs. ee_rollup en = fold error_rollup_add xs []" "\<lambda>_ _. True"
  by unfold_locales (simp_all add: errorsKey_inj)

text \<open>The cap a series is created with.\<close>

fun series_cap :: "engine_config \<Rightarrow> row_id \<Rightarrow> int" where
  "series_cap c (Run, n, f) = ec_maxBucketsRun c"
| "series_cap c (Request, n, f) = ec_maxBucketsEndpoint c"
| "series_cap c (Group, n, f) = ec_maxBucketsGroup c"
| "series_cap c (Scenario, n, f) = 1"

definition entry_rep :: "engine_config \<Rightarrow> int \<Rightarrow> series_entry \<Rightarrow> request_edge list \<Rightarrow> bool" where
  "entry_rep c start en xs \<longleftrightarrow> series_rep (sn_series en) (mset xs) \<and> bs_startMs (sn_series en) = start \<and>
     bs_maxBuckets (sn_series en) = max 1 (series_cap c (sn_id en))"

interpretation kx: keyed rollupKey sn_id
  "\<lambda>i. \<lparr>sn_id = i, sn_series = new_bucket_series start (series_cap c i)\<rparr>" add_to_series
  "entry_rep c start" "\<lambda>i x. 2 \<le> series_cap c i \<or> start \<le> re_tsMs x" for c start
proof unfold_locales
  fix i show "entry_rep c start \<lparr>sn_id = i, sn_series = new_bucket_series start (series_cap c i)\<rparr> []"
    using series_rep_new [of start "series_cap c i"] by (simp add: entry_rep_def new_bucket_series_def)
next
  fix en xs x
  assume rep: "entry_rep c start en xs"
    and room: "\<forall>y \<in> set (xs @ [x]). 2 \<le> series_cap c (sn_id en) \<or> start \<le> re_tsMs y"
  have "roomy (bs_startMs (sn_series en)) (bs_maxBuckets (sn_series en)) (add_mset x (mset xs))"
    using rep room by (auto simp: entry_rep_def roomy_def)
  with rep series_rep_add [of "sn_series en" "mset xs" x] show "\<exists>en'. add_to_series x en = Some en' \<and>
      sn_id en' = sn_id en \<and> entry_rep c start en' (xs @ [x])"
    by (auto simp: entry_rep_def add_to_series_def)
qed (simp_all add: rollupKey_inj)

lemma upsert_fresh: "fresh i = fresh' i \<Longrightarrow> upsert key fresh upd i x m = upsert key fresh' upd i x m"
  by (simp add: upsert_def cong: option.case_cong)

text \<open>
  \<open>acc e R X E F\<close>: the engine \<open>e\<close> has taken the durations \<open>R\<close> into its rows, the edges \<open>X\<close> into its
  series, the messages \<open>E\<close> into its errors and the failures \<open>F\<close> into its error series.
\<close>

definition failures_rep :: "live_engine \<Rightarrow> (int \<times> jstr) list \<Rightarrow> bool" where
  "failures_rep e F \<longleftrightarrow> (case le_errorSeries e of None \<Rightarrow> F = []
     | Some s \<Rightarrow> F \<noteq> [] \<and> add_failures F (new_error_series (le_runStartMs e) (ec_maxBucketsRun (le_cfg e))) = Some s)"

definition acc :: "live_engine \<Rightarrow> (row_id \<times> int \<times> bool) list \<Rightarrow> (row_id \<times> request_edge) list \<Rightarrow>
    (error_id \<times> jstr) list \<Rightarrow> (int \<times> jstr) list \<Rightarrow> bool" where
  "acc e R X E F \<longleftrightarrow> kr.keyed_rep (le_rollups e) R \<and> kx.keyed_rep (le_cfg e) (le_runStartMs e) (le_series e) X \<and>
     ke.keyed_rep (le_errorsByKey e) E \<and> failures_rep e F"

text \<open>Everything an accumulating step leaves alone.\<close>

definition framed :: "live_engine \<Rightarrow> live_engine \<Rightarrow> bool" where
  "framed e e' \<longleftrightarrow> le_cfg e' = le_cfg e \<and> le_runStartMs e' = le_runStartMs e \<and> le_sawMeta e' = le_sawMeta e \<and>
     le_firstMs e' = le_firstMs e \<and> le_lastMs e' = le_lastMs e \<and> le_userEvents e' = le_userEvents e \<and>
     le_runResponseSeries e' = le_runResponseSeries e \<and> le_simulation e' = le_simulation e \<and>
     le_description e' = le_description e \<and> le_declaredAssertions e' = le_declaredAssertions e \<and>
     le_endpoints e' = le_endpoints e"

lemma framed_refl [simp]: "framed e e"
  by (simp add: framed_def)

lemma framed_trans: "framed a b \<Longrightarrow> framed b c \<Longrightarrow> framed a c"
  by (simp add: framed_def)

lemma framed_upd [simp]: "framed e (e\<lparr>le_rollups := r\<rparr>)" "framed e (e\<lparr>le_series := x\<rparr>)"
  "framed e (e\<lparr>le_errorsByKey := er\<rparr>)" "framed e (e\<lparr>le_errorSeries := es\<rparr>)"
  by (simp_all add: framed_def)

lemma acc_cong: "le_rollups e' = le_rollups e \<Longrightarrow> le_series e' = le_series e \<Longrightarrow> le_errorsByKey e' = le_errorsByKey e \<Longrightarrow>
   le_errorSeries e' = le_errorSeries e \<Longrightarrow> le_cfg e' = le_cfg e \<Longrightarrow> le_runStartMs e' = le_runStartMs e \<Longrightarrow>
   acc e' R X E F = acc e R X E F"
  by (simp add: acc_def failures_rep_def cong: option.case_cong)

lemma add_rollup_acc:
  assumes "acc e R X E F"
  shows "\<exists>e'. add_rollup i d ok e = Some e' \<and> acc e' (R @ [(i, (d, ok))]) X E F \<and> framed e e'"
proof -
  have "kr.keyed_rep (le_rollups e) R" using assms by (simp add: acc_def)
  from kr.keyed_upsert [OF this, of i "(d, ok)"] obtain m where
    m: "upsert rollupKey (\<lambda>i. \<lparr>rl_id = i, rl_builder = new_builder\<rparr>)
       (\<lambda>(d, ok) en. Some (en\<lparr>rl_builder := builder_add (of_int d) ok (rl_builder en)\<rparr>)) i (d, ok) (le_rollups e) = Some m"
      "kr.keyed_rep m (R @ [(i, (d, ok))])" by auto
  with m assms show ?thesis by (simp add: add_rollup_def acc_def failures_rep_def cong: option.case_cong)
qed

lemma add_error_acc:
  assumes "acc e R X E F"
  shows "\<exists>e'. add_error i msg e = Some e' \<and> acc e' R X (E @ [(i, msg)]) F \<and> framed e e'"
proof -
  have "ke.keyed_rep (le_errorsByKey e) E" using assms by (simp add: acc_def)
  from ke.keyed_upsert [OF this, of i msg] obtain m where
    m: "upsert errorsKey (\<lambda>i. \<lparr>ee_id = i, ee_rollup = []\<rparr>)
       (\<lambda>m en. Some (en\<lparr>ee_rollup := error_rollup_add m (ee_rollup en)\<rparr>)) i msg (le_errorsByKey e) = Some m"
      "ke.keyed_rep m (E @ [(i, msg)])" by auto
  with m assms show ?thesis by (simp add: add_error_def acc_def failures_rep_def cong: option.case_cong)
qed

text \<open>The room every edge of a series needs for the coalescing to return.\<close>

definition edge_room :: "engine_config \<Rightarrow> int \<Rightarrow> row_id \<times> request_edge \<Rightarrow> bool" where
  "edge_room c start p \<longleftrightarrow> 2 \<le> series_cap c (fst p) \<or> start \<le> re_tsMs (snd p)"

definition an_edge :: "int \<Rightarrow> int \<Rightarrow> bool \<Rightarrow> edge \<Rightarrow> request_edge" where
  "an_edge tsMs value ok ed = \<lparr>re_tsMs = tsMs, re_value = of_int value, re_ok = ok, re_edge = ed\<rparr>"

lemma add_series_acc:
  assumes "acc e R X E F" and "\<forall>p \<in> set (X @ [(i, an_edge ts v ok ed)]). edge_room (le_cfg e) (le_runStartMs e) p"
    and "cap = series_cap (le_cfg e) i"
  shows "\<exists>e'. add_series i cap ts v ok ed e = Some e' \<and> acc e' R (X @ [(i, an_edge ts v ok ed)]) E F \<and> framed e e'"
proof -
  let ?c = "le_cfg e" and ?s = "le_runStartMs e"
  have "kx.keyed_rep ?c ?s (le_series e) X" using assms(1) by (simp add: acc_def)
  moreover have "\<forall>y \<in> set (obs_of i X @ [an_edge ts v ok ed]). 2 \<le> series_cap ?c i \<or> ?s \<le> re_tsMs y"
    using assms(2) by (fastforce simp: edge_room_def obs_of_def)
  ultimately obtain m where
    m: "upsert rollupKey (\<lambda>i. \<lparr>sn_id = i, sn_series = new_bucket_series ?s (series_cap ?c i)\<rparr>) add_to_series i
        (an_edge ts v ok ed) (le_series e) = Some m" "kx.keyed_rep ?c ?s m (X @ [(i, an_edge ts v ok ed)])"
    using kx.keyed_upsert by blast
  have "add_series i cap ts v ok ed e = Some (e\<lparr>le_series := m\<rparr>)"
    unfolding add_series_def using m(1) upsert_fresh [of "\<lambda>i. \<lparr>sn_id = i, sn_series = new_bucket_series ?s cap\<rparr>" i
      "\<lambda>i. \<lparr>sn_id = i, sn_series = new_bucket_series ?s (series_cap ?c i)\<rparr>" rollupKey add_to_series] assms(3)
    by (simp add: an_edge_def)
  then show ?thesis using m assms(1) by (simp add: acc_def failures_rep_def cong: option.case_cong)
qed

lemma add_both_acc:
  assumes "acc e R X E F" and "\<forall>p \<in> set (X @ [(i, an_edge t1 v ok StartEdge), (i, an_edge t2 v ok EndEdge)]).
      edge_room (le_cfg e) (le_runStartMs e) p"
    and "cap = series_cap (le_cfg e) i"
  shows "\<exists>e'. add_both i cap t1 t2 v ok e = Some e' \<and>
    acc e' R (X @ [(i, an_edge t1 v ok StartEdge), (i, an_edge t2 v ok EndEdge)]) E F \<and> framed e e'"
proof -
  from add_series_acc [OF assms(1) _ assms(3), of t1 v ok StartEdge] assms(2) obtain e1 where
    e1: "add_series i cap t1 v ok StartEdge e = Some e1" "acc e1 R (X @ [(i, an_edge t1 v ok StartEdge)]) E F" "framed e e1"
    by auto
  from add_series_acc [OF e1(2), of i t2 v ok EndEdge cap] assms(2,3) e1(3) [unfolded framed_def] obtain e2 where
    e2: "add_series i cap t2 v ok EndEdge e1 = Some e2" "framed e1 e2"
      "acc e2 R (X @ [(i, an_edge t1 v ok StartEdge), (i, an_edge t2 v ok EndEdge)]) E F" by auto
  show ?thesis using e1(1) e2 framed_trans [OF e1(3) e2(2)] by (simp add: add_both_def)
qed

lemma add_failures_snoc:
  "add_failures (xs @ [(ts, m)]) s = Option.bind (add_failures xs s) (error_series_add ts m)"
  by (induction xs arbitrary: s) (auto split: Option.bind_split)

lemma add_failure_acc:
  assumes "acc e R X E F" and "2 \<le> ec_maxBucketsRun (le_cfg e) \<or> (\<forall>f \<in> set (F @ [(ts, msg)]). le_runStartMs e \<le> fst f)"
  shows "\<exists>e'. add_failure ts msg e = Some e' \<and> acc e' R X E (F @ [(ts, msg)]) \<and> framed e e'"
proof -
  let ?new = "new_error_series (le_runStartMs e) (ec_maxBucketsRun (le_cfg e))"
  obtain s where s: "add_failures (F @ [(ts, msg)]) ?new = Some s" using add_failures_new [OF assms(2)] by metis
  have "failures_rep e F" using assms(1) by (simp add: acc_def)
  then have "error_series_add ts msg (case le_errorSeries e of Some s \<Rightarrow> s | None \<Rightarrow> ?new) = Some s"
    using s by (auto simp: failures_rep_def add_failures_snoc split: option.splits)
  then have "add_failure ts msg e = Some (e\<lparr>le_errorSeries := Some s\<rparr>)" by (simp add: add_failure_def)
  then show ?thesis using s assms(1) by (simp add: acc_def failures_rep_def cong: option.case_cong)
qed

end
