(* ===== verification/LiveDelta.thy ===== *)
theory LiveDelta
  imports Engine Sla
begin

text \<open>
  The live view of a run on the wire: the shapes of \<open>contracts/live-delta.ts\<close>, the tick's message
  (\<open>buildDelta\<close>, \<open>buildSnapshot\<close> of \<open>worker/src/live/delta.ts\<close>), and what the browser makes of it
  (\<open>mergeResponseTime\<close>, \<open>usersResponseFrom\<close>, \<open>applyDelta\<close> of \<open>web/src/api/live.ts\<close>). The latency
  fields that a wire bucket spreads are kept together in \<open>lb_latency\<close>.
\<close>

section \<open>Messages\<close>

record live_bucket =
  lb_startOffsetMs :: int
  lb_startedCount :: int
  lb_endedCount :: int
  lb_okCount :: int
  lb_koCount :: int
  lb_startedOkCount :: "int option"
  lb_startedKoCount :: "int option"
  lb_latency :: bucket_latency

record live_summary =
  su_count :: int
  su_okCount :: int
  su_koCount :: int
  su_errorRate :: rat
  su_percentiles :: percentile_map
  su_maxUsers :: int
  su_durationMs :: int
  su_activityMs :: "int option"

record live_response_time =
  rt_widthMs :: int
  rt_replaces :: bool
  rt_buckets :: "live_bucket list"

record live_user_bucket =
  lu_scenario :: jstr
  lu_startOffsetMs :: int
  lu_started :: int
  lu_ended :: int
  lu_active :: int

record live_users =
  lv_widthMs :: int
  lv_buckets :: "live_user_bucket list"

record wire_rule =
  wr_scope :: jstr
  wr_targetName :: "jstr option"
  wr_family :: jstr
  wr_metric :: jstr
  wr_comparator :: comparator
  wr_threshold :: rat

record live_breach =
  lq_ruleId :: jstr
  lq_description :: jstr
  lq_actualValue :: jnum
  lq_sinceOffsetMs :: int
  lq_rule :: "wire_rule option"

record live_sla =
  ls_evaluated :: int
  ls_notJudged :: int
  ls_rulesUnavailable :: bool
  ls_breaching :: "live_breach list"

record live_delta =
  ld_runId :: jstr
  ld_seq :: int
  ld_summary :: live_summary
  ld_responseTime :: live_response_time
  ld_users :: live_users
  ld_errors :: "(jstr option \<times> int) list"
  ld_sla :: live_sla

record delta_cursor =
  dc_seq :: int
  dc_lastPublishedOffsetMs :: int
  dc_lastBucketWidthMs :: int

definition INITIAL_CURSOR :: delta_cursor where
  "INITIAL_CURSOR = \<lparr>dc_seq = 0, dc_lastPublishedOffsetMs = - 1, dc_lastBucketWidthMs = 0\<rparr>"

record sla_input =
  si_assertions :: "sla_assertion list"
  si_breachingSince :: "(jstr, int) jmap"
  si_rulesUnavailable :: bool

section \<open>One tick's message\<close>

definition SLA_RULE_SCOPES :: "jstr list" where
  "SLA_RULE_SCOPES = map js [''run'', ''scenario'', ''group'', ''request'']"

definition SLA_RULE_FAMILIES :: "jstr list" where
  "SLA_RULE_FAMILIES = map js [''response_time'', ''latency'', ''group_cumulated'', ''group_duration'']"

definition wireRule :: "evaluable_rule \<Rightarrow> wire_rule option" where
  "wireRule rule = (case (find (\<lambda>s. s = ru_scope rule) SLA_RULE_SCOPES, find (\<lambda>f. f = ru_family rule) SLA_RULE_FAMILIES) of
     (Some scope, Some family) \<Rightarrow> Some \<lparr>wr_scope = scope, wr_targetName = ru_targetName rule, wr_family = family,
       wr_metric = ru_metric rule, wr_comparator = ru_comparator rule, wr_threshold = ru_threshold rule\<rparr>
   | _ \<Rightarrow> None)"

definition wire_bucket :: "bucket \<Rightarrow> stat_error + live_bucket" where
  "wire_bucket b = map_sum id (\<lambda>latency. \<lparr>lb_startOffsetMs = bk_startOffsetMs b, lb_startedCount = bk_startedCount b,
     lb_endedCount = bk_endedCount b, lb_okCount = bk_okCount b, lb_koCount = bk_koCount b,
     lb_startedOkCount = Some (bk_startedOkCount b), lb_startedKoCount = Some (bk_startedKoCount b), lb_latency = latency\<rparr>)
     (bucketLatency (bk_histogramOk b) (bk_histogramKo b))"

definition run_series_of :: "engine_result \<Rightarrow> int \<times> bucket list" where
  "run_series_of result = (case jm_get (xr_series result) (js ''run  response_time'') of
     Some (i, w, bs) \<Rightarrow> (w, bs) | None \<Rightarrow> (1000, []))"

definition run_stat_of :: "engine_result \<Rightarrow> stat_rollup option" where
  "run_stat_of result = find (\<lambda>s. sr_scope s = Run \<and> sr_family s = ResponseTimeF) (xr_stats result)"

definition lookback_ms :: "int \<Rightarrow> int \<Rightarrow> int" where
  "lookback_ms maxMs widthMs = \<lceil>fdiv (of_int maxMs) (of_int widthMs)\<rceil> * widthMs"

definition fresh_buckets :: "bool \<Rightarrow> delta_cursor \<Rightarrow> int \<Rightarrow> int \<Rightarrow> bucket list \<Rightarrow> int \<times> bucket list" where
  "fresh_buckets replaces prev maxMs widthMs bs =
     (let since = (if replaces then - 1 else dc_lastPublishedOffsetMs prev);
          emitFloor = since - lookback_ms maxMs widthMs
      in (since, filter (\<lambda>b. emitFloor \<le> bk_startOffsetMs b) bs))"

definition peak_users :: "user_scenario list \<Rightarrow> int" where
  "peak_users users =
     (let concurrencyByOffset = fold (\<lambda>u. fold (\<lambda>b m. jm_set (ub_startOffsetMs b)
            (jm_get_or 0 m (ub_startOffsetMs b) + ub_maxConcurrent b) m) (uc_buckets u)) users []
      in if concurrencyByOffset = [] then 0 else Max (set (map snd concurrencyByOffset)))"

definition users_envelope :: "user_scenario list \<Rightarrow> live_users" where
  "users_envelope users =
     \<lparr>lv_widthMs = (if users = [] then 1000 else Min (set (map uc_bucketWidthMs users))),
      lv_buckets = concat (map (\<lambda>u. map (\<lambda>b. \<lparr>lu_scenario = uc_scenario u, lu_startOffsetMs = ub_startOffsetMs b,
        lu_started = ub_started b, lu_ended = ub_ended b, lu_active = ub_maxConcurrent b\<rparr>) (uc_buckets u)) users)\<rparr>"

definition error_rows_of :: "engine_result \<Rightarrow> (jstr option \<times> int) list" where
  "error_rows_of result = map (\<lambda>((scope, name), message, n). (message, n))
     (filter (\<lambda>((scope, name), message, n). scope = Run) (xr_errors result))"

definition breach_of :: "(jstr, int) jmap \<Rightarrow> sla_assertion \<Rightarrow> live_breach" where
  "breach_of breachingSince a = \<lparr>lq_ruleId = sa_ruleId a, lq_description = sa_message a,
     lq_actualValue = (case sa_actualValue a of Some v \<Rightarrow> v | None \<Rightarrow> JFin 0),
     lq_sinceOffsetMs = jm_get_or 0 breachingSince (sa_ruleId a), lq_rule = wireRule (sa_ruleSnapshot a)\<rparr>"

definition sla_envelope :: "sla_input \<Rightarrow> live_sla" where
  "sla_envelope sla =
     (let evaluated = int (length (filter (\<lambda>a. sa_outcome a \<noteq> RuleNotApplicable) (si_assertions sla)))
      in \<lparr>ls_evaluated = evaluated, ls_notJudged = int (length (si_assertions sla)) - evaluated,
          ls_rulesUnavailable = si_rulesUnavailable sla,
          ls_breaching = map (breach_of (si_breachingSince sla))
            (filter (\<lambda>a. sa_outcome a = RuleFailed) (si_assertions sla))\<rparr>)"

definition summary_of :: "engine_result \<Rightarrow> live_summary" where
  "summary_of result =
     \<lparr>su_count = (case run_stat_of result of Some s \<Rightarrow> sr_count s | None \<Rightarrow> 0),
      su_okCount = (case run_stat_of result of Some s \<Rightarrow> sr_okCount s | None \<Rightarrow> 0),
      su_koCount = (case run_stat_of result of Some s \<Rightarrow> sr_koCount s | None \<Rightarrow> 0),
      su_errorRate = (case run_stat_of result of Some s \<Rightarrow> sr_errorRate s | None \<Rightarrow> 0),
      su_percentiles = (case run_stat_of result of Some s \<Rightarrow> sr_percentiles s | None \<Rightarrow> []),
      su_maxUsers = peak_users (xr_users result),
      su_durationMs = xr_durationMs result, su_activityMs = Some (xr_activityMs result)\<rparr>"

definition buildDelta :: "jstr \<Rightarrow> engine_result \<Rightarrow> delta_cursor \<Rightarrow> sla_input \<Rightarrow> stat_error + live_delta \<times> delta_cursor" where
  "buildDelta runId result prev sla =
     (let (responseWidthMs, bs) = run_series_of result;
          replaces = (responseWidthMs \<noteq> dc_lastBucketWidthMs prev);
          maxMs = (case run_stat_of result of Some s \<Rightarrow> sr_maxMs s | None \<Rightarrow> 0);
          (since, fresh) = fresh_buckets replaces prev maxMs responseWidthMs bs;
          lastPublishedOffsetMs = (if fresh \<noteq> [] then Max (set (map bk_startOffsetMs fresh)) else since)
      in map_sum id (\<lambda>wire.
           (\<lparr>ld_runId = runId, ld_seq = dc_seq prev, ld_summary = summary_of result,
             ld_responseTime = \<lparr>rt_widthMs = responseWidthMs, rt_replaces = replaces, rt_buckets = wire\<rparr>,
             ld_users = users_envelope (xr_users result), ld_errors = error_rows_of result, ld_sla = sla_envelope sla\<rparr>,
            \<lparr>dc_seq = dc_seq prev + 1, dc_lastPublishedOffsetMs = lastPublishedOffsetMs,
             dc_lastBucketWidthMs = responseWidthMs\<rparr>))
         (sum_list_all (map wire_bucket fresh)))"

definition buildSnapshot :: "jstr \<Rightarrow> engine_result \<Rightarrow> int \<Rightarrow> sla_input \<Rightarrow> stat_error + live_delta" where
  "buildSnapshot runId result seq sla =
     map_sum id (\<lambda>(delta, next). delta\<lparr>ld_seq := seq\<rparr>) (buildDelta runId result INITIAL_CURSOR sla)"

section \<open>The browser's cache\<close>

record series_response =
  sq_runId :: jstr
  sq_scope :: jstr
  sq_name :: jstr
  sq_family :: jstr
  sq_bucketWidthMs :: int
  sq_startedSplitAvailable :: bool
  sq_groupSeriesAvailable :: bool
  sq_window :: "(int \<times> int) option"
  sq_buckets :: "live_bucket list"

definition emptySeries :: "jstr \<Rightarrow> series_response" where
  "emptySeries runId = \<lparr>sq_runId = runId, sq_scope = js ''run'', sq_name = [], sq_family = js ''response_time'',
     sq_bucketWidthMs = 1000, sq_startedSplitAvailable = True, sq_groupSeriesAvailable = False, sq_window = None, sq_buckets = []\<rparr>"

definition upsert_buckets :: "live_bucket list \<Rightarrow> live_bucket list \<Rightarrow> live_bucket list" where
  "upsert_buckets base incoming =
     (let byOffset = fold (\<lambda>b. jm_set (lb_startOffsetMs b) b) incoming (fold (\<lambda>b. jm_set (lb_startOffsetMs b) b) base [])
      in js_sort (cmp_by lb_startOffsetMs) (map snd byOffset))"

definition mergeResponseTime :: "jstr \<Rightarrow> series_response option \<Rightarrow> live_response_time \<Rightarrow> series_response" where
  "mergeResponseTime runId prev envelope =
     (let replaces = (rt_replaces envelope \<or> (case prev of None \<Rightarrow> True | Some p \<Rightarrow> rt_widthMs envelope \<noteq> sq_bucketWidthMs p));
          base = (case prev of None \<Rightarrow> [] | Some p \<Rightarrow> if replaces then [] else sq_buckets p);
          shape = (case prev of None \<Rightarrow> emptySeries runId | Some p \<Rightarrow> p)
      in shape\<lparr>sq_bucketWidthMs := rt_widthMs envelope, sq_buckets := upsert_buckets base (rt_buckets envelope)\<rparr>)"

record users_response =
  uq_runId :: jstr
  uq_window :: "(int \<times> int) option"
  uq_scenarios :: "(jstr \<times> user_bucket list) list"
  uq_total :: "user_bucket list"

definition user_bucket_of :: "live_user_bucket \<Rightarrow> user_bucket" where
  "user_bucket_of b = \<lparr>ub_startOffsetMs = lu_startOffsetMs b, ub_started = lu_started b, ub_ended = lu_ended b,
     ub_maxConcurrent = lu_active b\<rparr>"

definition usersResponseFrom :: "jstr \<Rightarrow> live_users \<Rightarrow> users_response" where
  "usersResponseFrom runId envelope =
     (let byScenario = fold (\<lambda>b m. jm_set (lu_scenario b) (jm_get_or [] m (lu_scenario b) @ [user_bucket_of b]) m)
            (lv_buckets envelope) [];
          totalByOffset = fold (\<lambda>b. add_user (user_bucket_of b)) (lv_buckets envelope) []
      in \<lparr>uq_runId = runId, uq_window = None,
          uq_scenarios = map (\<lambda>(scenario, bs). (scenario, js_sort (cmp_by ub_startOffsetMs) bs)) byScenario,
          uq_total = map snd (js_sort (cmp_by fst) totalByOffset)\<rparr>)"

record live_cache =
  lc_series :: "series_response option"
  lc_users :: "users_response option"
  lc_errors :: "(jstr option \<times> int) list option"

definition applyDelta :: "jstr \<Rightarrow> live_delta \<Rightarrow> live_cache \<Rightarrow> live_cache" where
  "applyDelta runId delta cache = cache\<lparr>lc_series := Some (mergeResponseTime runId (lc_series cache) (ld_responseTime delta)),
     lc_users := Some (usersResponseFrom runId (ld_users delta)), lc_errors := Some (ld_errors delta)\<rparr>"

end
