(* ===== verification/MergeSeries.thy ===== *)
theory MergeSeries
  imports Buckets ToolAssertions
begin

text \<open>
  \<open>merge-series.ts\<close>: the request series of a group merged into one, from the buckets that were stored
  for each member. The width of a stored series is not stored; it is read off its offsets and the cap
  it was coalesced against. The cap comes from the settings of a project unchecked, so it is a \<open>jnum\<close>;
  \<open>coalescedFloor\<close> answers \<open>None\<close> for \<open>Infinity\<close>. A started count is \<open>None\<close> when it was stored before
  its column existed.
\<close>

record member_bucket =
  mb_startOffsetMs :: int
  mb_startedCount :: int
  mb_endedCount :: int
  mb_okCount :: int
  mb_koCount :: int
  mb_startedOkCount :: "int option"
  mb_startedKoCount :: "int option"
  mb_histogramOk :: histogram
  mb_histogramKo :: histogram

record merged_bucket =
  mg_startOffsetMs :: int
  mg_startedCount :: int
  mg_endedCount :: int
  mg_okCount :: int
  mg_koCount :: int
  mg_startedOkCount :: "int option"
  mg_startedKoCount :: "int option"
  mg_latency :: bucket_latency

record merged_series =
  ms_widthMs :: int
  ms_buckets :: "merged_bucket list"
  ms_histograms :: "(int, histogram \<times> histogram) jmap"

fun sumOrNull :: "int option \<Rightarrow> int option \<Rightarrow> int option" where
  "sumOrNull (Some t) (Some a) = Some (t + a)"
| "sumOrNull _ _ = None"

fun coalescedFloor :: "jnum \<Rightarrow> int option" where
  "coalescedFloor JNaN = None"
| "coalescedFloor JInf = None"
| "coalescedFloor JNegInf = Some 1"
| "coalescedFloor (JFin cap) = Some \<lceil>(of_int (\<lfloor>max 1 cap\<rfloor> + 1) :: rat) / 2\<rceil>"

partial_function (option) widen_dividing :: "int list \<Rightarrow> int \<Rightarrow> int option" where
  "widen_dividing nonZero width =
     (if list_all (\<lambda>o'. o' mod (width * 2) = 0) nonZero then widen_dividing nonZero (width * 2) else Some width)"

declare widen_dividing.simps [code]

definition widestDividingWidth :: "int list \<Rightarrow> int option" where
  "widestDividingWidth offsets =
     (let nonZero = filter (\<lambda>o'. o' \<noteq> 0) (remdups offsets) in
      if length (remdups offsets) < 2 then Some 1000 else widen_dividing nonZero 1000)"

definition sparse :: "int option \<Rightarrow> int list \<Rightarrow> bool" where
  "sparse coalescedAtLeast offsets = (case coalescedAtLeast of None \<Rightarrow> True
     | Some n \<Rightarrow> int (length (remdups offsets)) < n)"

fun group_width :: "int option \<Rightarrow> int list list \<Rightarrow> int \<Rightarrow> int option" where
  "group_width enough [] widthMs = Some widthMs"
| "group_width enough (offsets # rest) widthMs =
     (if sparse enough offsets then group_width enough rest widthMs
      else Option.bind (widestDividingWidth offsets) (\<lambda>v. group_width enough rest (max widthMs v)))"

definition new_accumulator :: "int \<Rightarrow> member_bucket" where
  "new_accumulator off = \<lparr>mb_startOffsetMs = off, mb_startedCount = 0, mb_endedCount = 0, mb_okCount = 0,
     mb_koCount = 0, mb_startedOkCount = Some 0, mb_startedKoCount = Some 0,
     mb_histogramOk = new_histogram, mb_histogramKo = new_histogram\<rparr>"

definition accumulate :: "member_bucket \<Rightarrow> member_bucket \<Rightarrow> member_bucket" where
  "accumulate b acc = acc\<lparr>
     mb_startedCount := mb_startedCount acc + mb_startedCount b,
     mb_endedCount := mb_endedCount acc + mb_endedCount b,
     mb_okCount := mb_okCount acc + mb_okCount b,
     mb_koCount := mb_koCount acc + mb_koCount b,
     mb_startedOkCount := sumOrNull (mb_startedOkCount acc) (mb_startedOkCount b),
     mb_startedKoCount := sumOrNull (mb_startedKoCount acc) (mb_startedKoCount b),
     mb_histogramOk := hist_absorb (mb_histogramOk b) (mb_histogramOk acc),
     mb_histogramKo := hist_absorb (mb_histogramKo b) (mb_histogramKo acc)\<rparr>"

definition merge_bucket :: "int \<Rightarrow> member_bucket \<Rightarrow> (int, member_bucket) jmap \<Rightarrow> (int, member_bucket) jmap" where
  "merge_bucket widthMs b byOffset =
     (let off = mb_startOffsetMs b div widthMs * widthMs;
          acc = (case jm_get byOffset off of Some acc \<Rightarrow> acc | None \<Rightarrow> new_accumulator off)
      in jm_set off (accumulate b acc) byOffset)"

definition merged_of :: "member_bucket \<Rightarrow> stat_error + merged_bucket" where
  "merged_of acc = map_sum id (\<lambda>latency. \<lparr>mg_startOffsetMs = mb_startOffsetMs acc, mg_startedCount = mb_startedCount acc,
     mg_endedCount = mb_endedCount acc, mg_okCount = mb_okCount acc, mg_koCount = mb_koCount acc,
     mg_startedOkCount = mb_startedOkCount acc, mg_startedKoCount = mb_startedKoCount acc, mg_latency = latency\<rparr>)
     (bucketLatency (mb_histogramOk acc) (mb_histogramKo acc))"

text \<open>\<open>None\<close> when the loop of \<open>widestDividingWidth\<close> does not end.\<close>

definition mergeMemberSeries :: "member_bucket list list \<Rightarrow> jnum \<Rightarrow> (stat_error + merged_series) option" where
  "mergeMemberSeries members maxBucketsEndpoint =
     Option.bind (group_width (coalescedFloor maxBucketsEndpoint) (map (map mb_startOffsetMs) members) 1000) (\<lambda>widthMs.
       let byOffset = fold (fold (merge_bucket widthMs)) members [];
           merged = js_sort (cmp_by mb_startOffsetMs) (map snd byOffset)
       in Some (map_sum id (\<lambda>bs. \<lparr>ms_widthMs = widthMs, ms_buckets = bs,
            ms_histograms = map (\<lambda>acc. (mb_startOffsetMs acc, mb_histogramOk acc, mb_histogramKo acc)) merged\<rparr>)
          (sum_list_all (map merged_of merged))))"

section \<open>The width of a stored series\<close>

lemma width_dvd: "is_width v \<Longrightarrow> is_width w \<Longrightarrow> v \<le> w \<Longrightarrow> v dvd w"
proof -
  assume "is_width v" "is_width w" "v \<le> w"
  then obtain i j where ij: "v = 1000 * 2 ^ i" "w = 1000 * 2 ^ j" by (auto simp: is_width_def)
  with \<open>v \<le> w\<close> have "(2 :: int) ^ i \<le> 2 ^ j" by simp
  then have "i \<le> j" by (rule power_le_imp_le_exp [rotated]) simp
  then have "(2 :: int) ^ i dvd 2 ^ j" by (rule le_imp_power_dvd)
  then show "v dvd w" unfolding ij by (rule mult_dvd_mono [OF dvd_refl])
qed

lemma widen_dividing_returns:
  assumes "x \<in> set os" and "x \<noteq> 0" and "0 < w"
  shows "widen_dividing os w \<noteq> None"
  using assms(3)
proof (induction "nat (\<bar>x\<bar> - w)" arbitrary: w rule: less_induct)
  case less
  show ?case
  proof (cases "list_all (\<lambda>o'. o' mod (w * 2) = 0) os")
    case True
    then have "w * 2 dvd x" using assms(1) by (auto simp: list_all_iff)
    from dvd_imp_le_int [OF assms(2) this] have "w * 2 \<le> \<bar>x\<bar>" using less.prems by simp
    then have "nat (\<bar>x\<bar> - w * 2) < nat (\<bar>x\<bar> - w)" using less.prems by simp
    then have "widen_dividing os (w * 2) \<noteq> None" using less.hyps [of "w * 2"] less.prems by simp
    with True show ?thesis by (subst widen_dividing.simps) simp
  qed (subst widen_dividing.simps, simp)
qed

lemma widen_dividing_widest:
  assumes "widen_dividing os w = Some v" and "is_width w" and "\<forall>x \<in> set os. w dvd x"
  shows "is_width v \<and> (\<forall>x \<in> set os. v dvd x) \<and> \<not> (\<forall>x \<in> set os. v * 2 dvd x)"
  using assms
proof (induction os w v rule: widen_dividing.raw_induct [rotated 1, consumes 1])
  case (1 rec os w v)
  then show ?case
    by (cases "list_all (\<lambda>o'. o' mod (w * 2) = 0) os") (auto simp: list_all_iff mod_eq_0_iff_dvd split: if_splits)
qed

text \<open>The widest width that divides the offsets is at least any width that does.\<close>

lemma widest_at_least:
  assumes "2 \<le> card (set offsets)" and "is_width w" and "\<forall>x \<in> set offsets. w dvd x"
  shows "\<exists>v. widestDividingWidth offsets = Some v \<and> is_width v \<and> w dvd v \<and> (\<forall>x \<in> set offsets. v dvd x)"
proof -
  let ?os = "filter (\<lambda>o'. o' \<noteq> 0) (remdups offsets)"
  have set: "set ?os = set offsets - {0}" by auto
  have "\<not> set offsets \<subseteq> {0}"
  proof
    assume "set offsets \<subseteq> {0}"
    from card_mono [OF _ this] assms(1) show False by simp
  qed
  then obtain x where x: "x \<in> set ?os" "x \<noteq> 0" unfolding set by blast
  then obtain v where v: "widen_dividing ?os 1000 = Some v" using widen_dividing_returns [of x ?os 1000] by force
  have thousand: "1000 dvd w" using width_dvd [of 1000 w] is_width_ge assms(2) by simp
  then have "\<forall>x \<in> set ?os. 1000 dvd x" using assms(3) unfolding set by (meson Diff_iff dvd_trans)
  from widen_dividing_widest [OF v is_width_1000 this] have widest: "is_width v" "\<forall>x \<in> set offsets - {0}. v dvd x"
    "\<not> (\<forall>x \<in> set offsets - {0}. v * 2 dvd x)" unfolding set by blast+
  have "w \<le> v"
  proof (rule ccontr)
    assume "\<not> w \<le> v"
    moreover have "\<not> w < v * 2"
    proof
      assume "w < v * 2"
      from is_width_less [OF assms(2) widest(1) this] \<open>\<not> w \<le> v\<close> show False by simp
    qed
    ultimately have "v * 2 dvd w" using width_dvd [of "v * 2" w] widest(1) assms(2) by simp
    then show False using widest(3) assms(3) by (meson Diff_iff dvd_trans)
  qed
  then have "w dvd v" using width_dvd assms(2) widest(1) by blast
  moreover have "length (remdups offsets) = card (set offsets)" by (rule length_remdups_card_conv)
  moreover have "\<forall>x \<in> set offsets. v dvd x" using widest(2) by (metis Diff_iff dvd_0_right singletonD)
  ultimately show ?thesis using v widest(1) assms(1) by (simp add: widestDividingWidth_def)
qed

text \<open>A series that coalesced holds at least half of what exceeded its cap.\<close>

lemma coalesced_at_least:
  assumes "narrowest cap time w M" and "w \<noteq> 1000"
  shows "cap < 2 * int (card ((\<lambda>x. time x div w) ` set_mset M))"
proof -
  obtain k where k: "w = 1000 * 2 ^ k" using assms(1) by (auto simp: narrowest_def is_width_def)
  then obtain j where j: "k = Suc j" using assms(2) by (cases k) simp_all
  define v where "v = (1000 * 2 ^ j :: int)"
  have v: "is_width v" "w = v * 2" "0 < v" by (auto simp: is_width_def v_def k j)
  let ?A = "(\<lambda>x. time x div v) ` set_mset M" and ?B = "(\<lambda>x. time x div w) ` set_mset M"
  have "cap < int (card ?A)" using assms(1) v by (simp add: narrowest_def)
  have B: "?B = (\<lambda>i. i div 2) ` ?A" using v by (auto simp: image_image zdiv_zmult2_eq intro!: image_cong)
  have "?A \<subseteq> (\<lambda>i. 2 * i) ` ?B \<union> (\<lambda>i. 2 * i + 1) ` ?B"
  proof -
    have "i \<in> (\<lambda>i. 2 * i) ` ?B \<union> (\<lambda>i. 2 * i + 1) ` ?B" if "i \<in> ?A" for i
    proof -
      have "i div 2 \<in> ?B" using that unfolding B by blast
      moreover have "i = 2 * (i div 2) \<or> i = 2 * (i div 2) + 1" by presburger
      ultimately show ?thesis by blast
    qed
    then show ?thesis by blast
  qed
  then have "card ?A \<le> card ((\<lambda>i. 2 * i) ` ?B \<union> (\<lambda>i. 2 * i + 1) ` ?B)" by (rule card_mono [rotated]) simp
  also have "\<dots> \<le> card ((\<lambda>i. 2 * i) ` ?B) + card ((\<lambda>i. 2 * i + 1) ` ?B)" by (rule card_Un_le)
  finally have "int (card ?A) \<le> 2 * int (card ?B)"
    using card_image_le [of ?B "\<lambda>i. 2 * i"] card_image_le [of ?B "\<lambda>i. 2 * i + 1"] by simp
  with \<open>cap < int (card ?A)\<close> show ?thesis by linarith
qed

section \<open>The width of a group\<close>

lemma group_width_rep:
  assumes "is_width m" and "\<forall>offsets \<in> set members. sparse enough offsets \<or>
      (\<exists>v. widestDividingWidth offsets = Some v \<and> is_width v)"
  shows "\<exists>W. group_width enough members m = Some W \<and> is_width W \<and> m dvd W \<and>
    (\<forall>offsets \<in> set members. sparse enough offsets \<or> the (widestDividingWidth offsets) dvd W) \<and>
    (W = m \<or> (\<exists>offsets \<in> set members. \<not> sparse enough offsets \<and> widestDividingWidth offsets = Some W))"
  using assms
proof (induction members arbitrary: m)
  case Nil
  then show ?case by simp
next
  case (Cons offsets members)
  show ?case
  proof (cases "sparse enough offsets")
    case True
    with Cons.IH [OF Cons.prems(1)] Cons.prems(2) show ?thesis by auto
  next
    case False
    then obtain v where v: "widestDividingWidth offsets = Some v" "is_width v" using Cons.prems(2) by auto
    have "is_width (max m v)" "m dvd max m v" "v dvd max m v"
      using Cons.prems(1) v(2) width_dvd by (simp_all add: max_def)
    from Cons.IH [OF this(1)] Cons.prems(2) obtain W where
      W: "group_width enough members (max m v) = Some W" "is_width W" "max m v dvd W"
        "\<forall>offsets \<in> set members. sparse enough offsets \<or> the (widestDividingWidth offsets) dvd W"
        "W = max m v \<or> (\<exists>offsets \<in> set members. \<not> sparse enough offsets \<and> widestDividingWidth offsets = Some W)"
      by auto
    have "m dvd W" "v dvd W" using W(3) \<open>m dvd max m v\<close> \<open>v dvd max m v\<close> dvd_trans by blast+
    moreover have "W = m \<or> (\<exists>os \<in> set (offsets # members). \<not> sparse enough os \<and> widestDividingWidth os = Some W)"
      using W(5) False v(1) by (auto simp: max_def split: if_splits)
    ultimately show ?thesis using W(1,2,4) False v(1) by auto
  qed
qed

section \<open>Merging is joining\<close>

text \<open>A bucket as it is stored: a started count may predate its column.\<close>

definition stored :: "bool \<times> bool \<Rightarrow> bucket \<Rightarrow> member_bucket" where
  "stored known b = \<lparr>mb_startOffsetMs = bk_startOffsetMs b, mb_startedCount = bk_startedCount b,
     mb_endedCount = bk_endedCount b, mb_okCount = bk_okCount b, mb_koCount = bk_koCount b,
     mb_startedOkCount = (if fst known then Some (bk_startedOkCount b) else None),
     mb_startedKoCount = (if snd known then Some (bk_startedKoCount b) else None),
     mb_histogramOk = bk_histogramOk b, mb_histogramKo = bk_histogramKo b\<rparr>"

lemma accumulate_stored:
  "accumulate (stored k b) (stored k' a) = stored (fst k' \<and> fst k, snd k' \<and> snd k) (bucket_join a b)"
  by (simp add: accumulate_def stored_def bucket_join_def)

lemma new_accumulator_stored: "new_accumulator off = stored (True, True) (new_bucket off)"
  by (simp add: new_accumulator_def stored_def new_bucket_def)

text \<open>What the buckets of the members contribute, in the order they are visited.\<close>

type_synonym contribution = "(bool \<times> bool) \<times> bucket \<times> request_edge multiset"

definition in_cell :: "int \<Rightarrow> int \<Rightarrow> contribution list \<Rightarrow> contribution list" where
  "in_cell w off L = filter (\<lambda>(k, b, M). bk_startOffsetMs b div w * w = off) L"

definition contents :: "contribution list \<Rightarrow> request_edge multiset" where
  "contents L = sum_list (map (\<lambda>(k, b, M). M) L)"

definition all_known :: "contribution list \<Rightarrow> bool \<times> bool" where
  "all_known L = (list_all (\<lambda>(k, b, M). fst k) L, list_all (\<lambda>(k, b, M). snd k) L)"

definition cell_rep :: "int \<Rightarrow> member_bucket \<Rightarrow> contribution list \<Rightarrow> bool" where
  "cell_rep off acc L \<longleftrightarrow> (\<exists>b. acc = stored (all_known L) b \<and> bucket_rep off b (contents L))"

definition cells_rep :: "int \<Rightarrow> (int, member_bucket) jmap \<Rightarrow> contribution list \<Rightarrow> bool" where
  "cells_rep w m L \<longleftrightarrow> jm_ok m \<and> (\<forall>off. case jm_get m off of
     None \<Rightarrow> in_cell w off L = [] | Some acc \<Rightarrow> in_cell w off L \<noteq> [] \<and> cell_rep off acc (in_cell w off L))"

lemma cell_rep_new: "cell_rep off (new_accumulator off) []"
  unfolding cell_rep_def new_accumulator_stored
  by (rule exI [of _ "new_bucket off"]) (simp add: all_known_def contents_def bucket_rep_new)

lemma cell_rep_accumulate:
  assumes "cell_rep off acc L" and "bucket_rep off' b M"
  shows "cell_rep off (accumulate (stored k b) acc) (L @ [(k, b, M)])"
proof -
  obtain a where a: "acc = stored (all_known L) a" "bucket_rep off a (contents L)"
    using assms(1) by (auto simp: cell_rep_def)
  from bs.rep_join [OF a(2) assms(2)] show ?thesis
    unfolding cell_rep_def a(1) accumulate_stored
    by (intro exI [of _ "bucket_join a b"]) (simp add: all_known_def contents_def)
qed

lemma merge_bucket_rep:
  assumes "cells_rep w m L" and "bucket_rep (bk_startOffsetMs b) b M"
  shows "cells_rep w (merge_bucket w (stored k b) m) (L @ [(k, b, M)])"
proof -
  define off where "off = bk_startOffsetMs b div w * w"
  define acc where "acc = (case jm_get m off of Some acc \<Rightarrow> acc | None \<Rightarrow> new_accumulator off)"
  have "case jm_get m off of None \<Rightarrow> in_cell w off L = []
      | Some acc \<Rightarrow> in_cell w off L \<noteq> [] \<and> cell_rep off acc (in_cell w off L)"
    using assms(1) by (simp add: cells_rep_def)
  then have "cell_rep off acc (in_cell w off L)"
    by (cases "jm_get m off") (simp_all add: acc_def cell_rep_new)
  from cell_rep_accumulate [OF this assms(2)]
  have "cell_rep off (accumulate (stored k b) acc) (in_cell w off (L @ [(k, b, M)]))"
    by (simp add: in_cell_def off_def)
  moreover have "merge_bucket w (stored k b) m = jm_set off (accumulate (stored k b) acc) m"
  proof -
    have "mb_startOffsetMs (stored k b) div w * w = off" by (simp add: stored_def off_def)
    then show ?thesis by (simp only: merge_bucket_def Let_def acc_def)
  qed
  moreover have "in_cell w off' (L @ [(k, b, M)]) = in_cell w off' L" if "off' \<noteq> off" for off'
    using that by (simp add: in_cell_def off_def)
  moreover have "in_cell w off (L @ [(k, b, M)]) \<noteq> []" by (simp add: in_cell_def off_def)
  ultimately show ?thesis
    using assms(1) unfolding cells_rep_def by (simp split del: option.splits) metis
qed

lemma merge_buckets_rep:
  assumes "cells_rep w m L" and "\<forall>(k, b, M) \<in> set cs. bucket_rep (bk_startOffsetMs b) b M"
  shows "cells_rep w (fold (merge_bucket w) (map (\<lambda>(k, b, M). stored k b) cs) m) (L @ cs)"
  using assms
proof (induction cs arbitrary: m L)
  case Nil
  then show ?case by simp
next
  case (Cons c cs)
  obtain k b M where c: "c = (k, b, M)" by (cases c)
  from merge_bucket_rep [OF Cons.prems(1)] Cons.prems(2)
  have "cells_rep w (merge_bucket w (stored k b) m) (L @ [c])" by (simp add: c)
  from Cons.IH [OF this] Cons.prems(2) show ?case by (simp add: c)
qed

section \<open>The cells of the members of a group\<close>

text \<open>A member: the edges that were added to its series, and which counts its stored rows kept.\<close>

type_synonym member = "request_edge list \<times> (bucket \<Rightarrow> bool \<times> bool)"

definition series_of :: "int \<Rightarrow> int \<Rightarrow> request_edge list \<Rightarrow> bucket_series" where
  "series_of startMs cap xs = the (add_edges xs (new_bucket_series startMs cap))"

definition stored_series :: "int \<Rightarrow> int \<Rightarrow> member \<Rightarrow> member_bucket list" where
  "stored_series startMs cap m = map (\<lambda>b. stored (snd m b) b) (buckets (series_of startMs cap (fst m)))"

lemma series_of_rep:
  assumes "2 \<le> cap"
  shows "series_rep (series_of startMs cap xs) (mset xs) \<and> bs_startMs (series_of startMs cap xs) = startMs \<and>
    bs_maxBuckets (series_of startMs cap xs) = cap"
proof -
  have "roomy (bs_startMs (new_bucket_series startMs cap)) (bs_maxBuckets (new_bucket_series startMs cap)) ({#} + mset xs)"
    using assms by (simp add: roomy_def new_bucket_series_def)
  from add_edges_rep [OF series_rep_new this] assms show ?thesis
    by (auto simp: series_of_def new_bucket_series_def)
qed

lemma series_of_width:
  "2 \<le> cap \<Longrightarrow> is_width (bs_widthMs (series_of startMs cap xs)) \<and> 0 < bs_widthMs (series_of startMs cap xs)"
  using series_of_rep series_rep_width by blast

definition slot_start :: "int \<Rightarrow> int \<Rightarrow> request_edge \<Rightarrow> int" where
  "slot_start startMs w x = (re_tsMs x - startMs) div w * w"

definition contributions :: "int \<Rightarrow> int \<Rightarrow> member \<Rightarrow> contribution list" where
  "contributions startMs cap m = (let s = series_of startMs cap (fst m) in
     map (\<lambda>b. (snd m b, b, filter_mset (\<lambda>x. slot_start startMs (bs_widthMs s) x = bk_startOffsetMs b) (mset (fst m)))) (buckets s))"

lemma series_buckets:
  assumes "2 \<le> cap" and "s = series_of startMs cap xs"
  shows "map bk_startOffsetMs (buckets s) = sorted_list_of_set (slot_start startMs (bs_widthMs s) ` set xs)"
    and "b \<in> set (buckets s) \<Longrightarrow> bucket_rep (bk_startOffsetMs b) b
      (filter_mset (\<lambda>x. slot_start startMs (bs_widthMs s) x = bk_startOffsetMs b) (mset xs))"
  using buckets_rep [of s "mset xs"] series_of_rep [OF assms(1), of startMs xs] by (simp_all add: assms(2) slot_start_def)

lemma contributions_stored:
  "stored_series startMs cap m = map (\<lambda>(k, b, M). stored k b) (contributions startMs cap m)"
  by (simp add: stored_series_def contributions_def Let_def)

lemma contributions_rep:
  "2 \<le> cap \<Longrightarrow> \<forall>(k, b, M) \<in> set (contributions startMs cap m). bucket_rep (bk_startOffsetMs b) b M"
  using series_buckets(2) [OF _ refl] by (auto simp: contributions_def Let_def)

text \<open>The slices of a multiset at distinct values.\<close>

lemma slices:
  "distinct (map g bs) \<Longrightarrow> (\<Sum>b \<leftarrow> bs. filter_mset (\<lambda>x. f x = g b) M) = filter_mset (\<lambda>x. f x \<in> g ` set bs) M"
proof (induction bs)
  case (Cons b bs)
  have "filter_mset (\<lambda>x. f x \<in> g ` set (b # bs)) M =
      filter_mset (\<lambda>x. f x = g b) M + filter_mset (\<lambda>x. f x \<in> g ` set bs) M"
    using Cons.prems by (induction M) auto
  then show ?case using Cons by simp
qed simp

lemma slot_start_coarser:
  assumes "v dvd w" and "0 < v" and "0 < w"
  shows "slot_start startMs v x div w * w = slot_start startMs w x"
proof -
  obtain c where w: "w = v * c" using assms(1) by (rule dvdE)
  then have "0 < c" using assms(2,3) by (simp add: zero_less_mult_iff)
  then show ?thesis using assms(2) by (simp add: slot_start_def w div_mult2_eq zdiv_zmult2_eq)
qed

text \<open>What a member contributes to a cell: its edges in the cell, from at least one bucket if any.\<close>

lemma contributions_in_cell:
  assumes "2 \<le> cap" and "bs_widthMs (series_of startMs cap (fst m)) dvd w" and "0 < w"
  shows "contents (in_cell w off (contributions startMs cap m)) =
      filter_mset (\<lambda>x. slot_start startMs w x = off) (mset (fst m))"
    and "in_cell w off (contributions startMs cap m) = [] \<longleftrightarrow> off \<notin> slot_start startMs w ` set (fst m)"
proof -
  define s where "s = series_of startMs cap (fst m)"
  define v where "v = bs_widthMs s"
  let ?M = "mset (fst m)" and ?P = "\<lambda>y. y div w * w = off"
  let ?bs = "filter (\<lambda>b. ?P (bk_startOffsetMs b)) (buckets s)"
  have "0 < v" using series_of_width [OF assms(1)] by (simp add: v_def s_def)
  with assms(2,3) have coarse: "?P (slot_start startMs v x) \<longleftrightarrow> slot_start startMs w x = off" for x
    by (simp add: slot_start_coarser v_def s_def)
  note offs = series_buckets(1) [OF assms(1) s_def, folded v_def]
  have set_offs: "bk_startOffsetMs ` set (buckets s) = slot_start startMs v ` set (fst m)"
    using arg_cong [OF offs, of set] by simp
  have offs_bs: "bk_startOffsetMs ` set ?bs = {y \<in> slot_start startMs v ` set (fst m). ?P y}"
    unfolding set_offs [symmetric] by auto
  have "distinct (map bk_startOffsetMs (buckets s))" unfolding offs by simp
  then have dist: "distinct (map bk_startOffsetMs ?bs)" by (rule distinct_map_filter)
  have cell: "in_cell w off (contributions startMs cap m) =
      map (\<lambda>b. (snd m b, b, filter_mset (\<lambda>x. slot_start startMs v x = bk_startOffsetMs b) ?M)) ?bs"
    by (simp add: contributions_def Let_def in_cell_def s_def v_def filter_map comp_def)
  have "contents (in_cell w off (contributions startMs cap m)) =
      (\<Sum>b \<leftarrow> ?bs. filter_mset (\<lambda>x. slot_start startMs v x = bk_startOffsetMs b) ?M)"
    unfolding cell contents_def by (simp add: comp_def)
  also have "\<dots> = filter_mset (\<lambda>x. slot_start startMs v x \<in> bk_startOffsetMs ` set ?bs) ?M"
    by (rule slices [OF dist])
  also have "\<dots> = filter_mset (\<lambda>x. slot_start startMs w x = off) ?M"
    unfolding offs_bs by (rule filter_mset_cong) (auto simp: coarse)
  finally show "contents (in_cell w off (contributions startMs cap m)) =
      filter_mset (\<lambda>x. slot_start startMs w x = off) ?M" .
  have "in_cell w off (contributions startMs cap m) = [] \<longleftrightarrow> {y \<in> slot_start startMs v ` set (fst m). ?P y} = {}"
    unfolding cell by (simp only: map_is_Nil_conv image_is_empty set_empty offs_bs [symmetric])
  also have "\<dots> \<longleftrightarrow> (\<forall>x \<in> set (fst m). \<not> ?P (slot_start startMs v x))" by blast
  also have "\<dots> \<longleftrightarrow> (\<forall>x \<in> set (fst m). slot_start startMs w x \<noteq> off)" by (simp only: coarse)
  finally show "in_cell w off (contributions startMs cap m) = [] \<longleftrightarrow> off \<notin> slot_start startMs w ` set (fst m)" by auto
qed

text \<open>The same for all the members of a group.\<close>

lemma group_in_cell:
  assumes "2 \<le> cap" and "\<forall>m \<in> set ms. bs_widthMs (series_of startMs cap (fst m)) dvd w" and "0 < w"
  defines "L \<equiv> concat (map (contributions startMs cap) ms)"
  shows "contents (in_cell w off L) = filter_mset (\<lambda>x. slot_start startMs w x = off) (mset (concat (map fst ms)))"
    and "in_cell w off L = [] \<longleftrightarrow> off \<notin> slot_start startMs w ` set (concat (map fst ms))"
proof -
  have nil [simp]: "contents [] = {#}" and app [simp]: "contents (A @ B) = contents A + contents B" for A B
    by (simp_all add: contents_def)
  have cell_app [simp]: "in_cell w off (A @ B) = in_cell w off A @ in_cell w off B" for A B
    by (simp add: in_cell_def)
  have "contents (in_cell w off (concat (map (contributions startMs cap) ms))) =
      filter_mset (\<lambda>x. slot_start startMs w x = off) (mset (concat (map fst ms))) \<and>
    (in_cell w off (concat (map (contributions startMs cap) ms)) = [] \<longleftrightarrow> off \<notin> slot_start startMs w ` set (concat (map fst ms)))"
    using assms(2)
  proof (induction ms)
    case Nil
    then show ?case by (simp add: in_cell_def)
  next
    case (Cons m ms)
    have "bs_widthMs (series_of startMs cap (fst m)) dvd w" using Cons.prems by simp
    note m = contributions_in_cell [OF assms(1) this assms(3)]
    show ?case using Cons.IH Cons.prems by (auto simp: m)
  qed
  then show "contents (in_cell w off L) = filter_mset (\<lambda>x. slot_start startMs w x = off) (mset (concat (map fst ms)))"
    "in_cell w off L = [] \<longleftrightarrow> off \<notin> slot_start startMs w ` set (concat (map fst ms))" by (simp_all add: L_def)
qed

lemma fold_fold: "fold (fold f) xss m = fold f (concat xss) m"
  by (induction xss arbitrary: m) simp_all

lemma merge_group_rep:
  assumes "2 \<le> cap"
  shows "cells_rep w (fold (fold (merge_bucket w)) (map (stored_series startMs cap) ms) [])
    (concat (map (contributions startMs cap) ms))"
proof -
  have "concat (map (stored_series startMs cap) ms) =
      map (\<lambda>(k, b, M). stored k b) (concat (map (contributions startMs cap) ms))"
    by (simp add: map_concat comp_def contributions_stored [abs_def])
  moreover have "cells_rep w [] []" by (simp add: cells_rep_def in_cell_def jm_ok_def)
  moreover have "\<forall>(k, b, M) \<in> set (concat (map (contributions startMs cap) ms)). bucket_rep (bk_startOffsetMs b) b M"
    using contributions_rep [OF assms] by fastforce
  ultimately have "cells_rep w (fold (merge_bucket w) (concat (map (stored_series startMs cap) ms)) [])
      ([] @ concat (map (contributions startMs cap) ms))"
    by (simp only: merge_buckets_rep)
  then show ?thesis by (simp add: fold_fold)
qed

lemma sparse_floor:
  assumes "2 \<le> cap"
  shows "sparse (coalescedFloor (JFin (of_int cap))) offsets \<longleftrightarrow> 2 * int (length (remdups offsets)) < cap + 1"
proof -
  have floor: "coalescedFloor (JFin (of_int cap)) = Some \<lceil>(of_int (cap + 1) :: rat) / 2\<rceil>" using assms by (simp add: max_def)
  have n: "n < \<lceil>(of_int (cap + 1) :: rat) / 2\<rceil> \<longleftrightarrow> 2 * n < cap + 1" for n :: int
  proof -
    have "n < \<lceil>(of_int (cap + 1) :: rat) / 2\<rceil> \<longleftrightarrow> (of_int n :: rat) < of_int (cap + 1) / 2" by (rule less_ceiling_iff)
    also have "\<dots> \<longleftrightarrow> (of_int (2 * n) :: rat) < of_int (cap + 1)" by (simp add: field_simps)
    also have "\<dots> \<longleftrightarrow> 2 * n < cap + 1" by (rule of_int_less_iff)
    finally show ?thesis .
  qed
  show ?thesis by (simp only: sparse_def floor n option.case)
qed

text \<open>No member is wider than the group is read, and only a member that may have coalesced widens it.\<close>

lemma member_width:
  assumes "2 \<le> cap" and "offsets = map bk_startOffsetMs (buckets (series_of startMs cap xs))"
    and "enough = coalescedFloor (JFin (of_int cap))"
  defines "w \<equiv> bs_widthMs (series_of startMs cap xs)"
  shows "sparse enough offsets \<Longrightarrow> w = 1000"
    and "\<not> sparse enough offsets \<Longrightarrow> \<exists>v. widestDividingWidth offsets = Some v \<and> is_width v \<and> w dvd v \<and> (\<forall>x \<in> set offsets. v dvd x)"
proof -
  define s where "s = series_of startMs cap xs"
  have rep: "series_rep s (mset xs)" "bs_startMs s = startMs" "bs_maxBuckets s = cap"
    using series_of_rep [OF assms(1)] by (simp_all add: s_def)
  have w: "is_width w" "0 < w" using series_of_width [OF assms(1)] by (simp_all add: w_def)
  have offs: "offsets = sorted_list_of_set (slot_start startMs w ` set xs)"
    using series_buckets(1) [OF assms(1) refl] by (simp add: assms(2) w_def)
  have card: "length (remdups offsets) = card ((\<lambda>x. (re_tsMs x - startMs) div w) ` set xs)"
  proof -
    have "slot_start startMs w ` set xs = (\<lambda>i. i * w) ` (\<lambda>x. (re_tsMs x - startMs) div w) ` set xs"
      by (auto simp: slot_start_def)
    moreover have "inj_on (\<lambda>i. i * w) A" for A using w(2) by (auto simp: inj_on_def)
    ultimately show ?thesis unfolding offs by (simp add: card_image distinct_remdups_id)
  qed
  have sparse: "sparse enough offsets \<longleftrightarrow> 2 * int (length (remdups offsets)) < cap + 1"
    unfolding assms(3) by (rule sparse_floor [OF assms(1)])
  have narrow: "narrowest cap (\<lambda>x. re_tsMs x - startMs) w (mset xs)"
    using rep(1) unfolding series_rep_def rep(2,3) w_def s_def [symmetric] by simp
  show "w = 1000" if "sparse enough offsets"
    using coalesced_at_least [OF narrow] that unfolding sparse card by fastforce
  have "2 \<le> card (set offsets)" if "\<not> sparse enough offsets"
    using that assms(1) unfolding sparse by (simp add: length_remdups_card_conv)
  moreover have "\<forall>x \<in> set offsets. w dvd x" by (simp add: offs slot_start_def)
  ultimately show "\<exists>v. widestDividingWidth offsets = Some v \<and> is_width v \<and> w dvd v \<and> (\<forall>x \<in> set offsets. v dvd x)"
    if "\<not> sparse enough offsets" using widest_at_least [OF _ w(1)] that by blast
qed

text \<open>The width the group is merged at.\<close>

lemma group_merge_width:
  assumes "2 \<le> cap"
  shows "\<exists>W. group_width (coalescedFloor (JFin (of_int cap)))
      (map (map mb_startOffsetMs) (map (stored_series startMs cap) members)) 1000 = Some W \<and>
    is_width W \<and> (\<forall>m \<in> set members. bs_widthMs (series_of startMs cap (fst m)) dvd W) \<and>
    (W = 1000 \<or> list_ex (\<lambda>m. cap < 2 * int (length (stored_series startMs cap m))) members)"
proof -
  define enough where "enough = coalescedFloor (JFin (of_int cap))"
  define offsets where "offsets = (\<lambda>m :: member. map bk_startOffsetMs (buckets (series_of startMs cap (fst m))))"
  have offs: "map (map mb_startOffsetMs) (map (stored_series startMs cap) members) = map offsets members"
    by (simp add: offsets_def stored_series_def stored_def)
  note member = member_width [OF assms offsets_def [THEN fun_cong] enough_def]
  have "\<forall>os \<in> set (map offsets members). sparse enough os \<or> (\<exists>v. widestDividingWidth os = Some v \<and> is_width v)"
    using member(2) by auto
  from group_width_rep [OF is_width_1000 this] obtain W where
    W: "group_width enough (map offsets members) 1000 = Some W" "is_width W" "1000 dvd W"
      "\<forall>m \<in> set members. sparse enough (offsets m) \<or> the (widestDividingWidth (offsets m)) dvd W"
      "W = 1000 \<or> (\<exists>m \<in> set members. \<not> sparse enough (offsets m) \<and> widestDividingWidth (offsets m) = Some W)"
    by auto
  have dvd: "bs_widthMs (series_of startMs cap (fst m)) dvd W" if "m \<in> set members" for m
    using member W(3,4) that by (cases "sparse enough (offsets m)") (simp, metis dvd_trans option.sel)
  have "cap < 2 * int (length (stored_series startMs cap m))" if "\<not> sparse enough (offsets m)" for m
  proof -
    have "length (remdups (offsets m)) \<le> length (stored_series startMs cap m)"
      using length_remdups_leq [of "offsets m"] by (simp add: offsets_def stored_series_def)
    moreover have "cap + 1 \<le> 2 * int (length (remdups (offsets m)))"
      using that unfolding enough_def sparse_floor [OF assms] by simp
    ultimately show ?thesis by linarith
  qed
  with W(1,2,5) dvd show ?thesis unfolding offs enough_def [symmetric] list_ex_iff by blast
qed

text \<open>The accumulators in time order, and the bucket each of them stores.\<close>

lemma cells_sorted:
  assumes "cells_rep w m L" and "\<And>off. in_cell w off L = [] \<longleftrightarrow> off \<notin> A"
  defines "merged \<equiv> js_sort (cmp_by mb_startOffsetMs) (map snd m)"
  shows "finite A \<Longrightarrow> map mb_startOffsetMs merged = sorted_list_of_set A"
    and "acc \<in> set merged \<Longrightarrow> \<exists>b. bucket_rep (mb_startOffsetMs acc) b (contents (in_cell w (mb_startOffsetMs acc) L)) \<and>
      acc = stored (all_known (in_cell w (mb_startOffsetMs acc) L)) b"
proof -
  have cell: "case jm_get m off of None \<Rightarrow> in_cell w off L = []
      | Some acc \<Rightarrow> in_cell w off L \<noteq> [] \<and> cell_rep off acc (in_cell w off L)" for off
    using assms(1) unfolding cells_rep_def by blast
  have bucket: "\<exists>b. bucket_rep off b (contents (in_cell w off L)) \<and> acc = stored (all_known (in_cell w off L)) b"
    if "(off, acc) \<in> set m" for off acc
    using cell [of off] that assms(1) by (auto simp: cells_rep_def jm_ok_def cell_rep_def)
  have offset: "mb_startOffsetMs acc = off" if "(off, acc) \<in> set m" for off acc
    using bucket [OF that] by (auto simp: stored_def bucket_rep_def)
  have "off \<in> fst ` set m \<longleftrightarrow> off \<in> A" for off
    using cell [of off] assms(2) [of off]
    by (cases "jm_get m off") (auto simp: map_of_eq_None_iff dest: map_of_SomeD intro: rev_image_eqI)
  then have keys: "fst ` set m = A" by blast
  have "map mb_startOffsetMs (map snd m) = map fst m" using offset by auto
  then have sorted: "map mb_startOffsetMs merged = sort (map fst m)"
    by (simp only: merged_def js_sort_by map_sort_key)
  also have "\<dots> = sorted_list_of_set (fst ` set m)"
    using assms(1) by (intro sorted_distinct_set_unique) (simp_all add: cells_rep_def jm_ok_def)
  finally show "map mb_startOffsetMs merged = sorted_list_of_set A" if "finite A" by (simp add: keys)
  show "\<exists>b. bucket_rep (mb_startOffsetMs acc) b (contents (in_cell w (mb_startOffsetMs acc) L)) \<and>
      acc = stored (all_known (in_cell w (mb_startOffsetMs acc) L)) b" if acc: "acc \<in> set merged"
  proof -
    obtain off where off: "(off, acc) \<in> set m" using acc by (auto simp: merged_def)
    with bucket [OF off] offset [OF off] show ?thesis by simp
  qed
qed

text \<open>A bucket that represents edges is rendered, with its latency.\<close>

lemma merged_of_rep:
  assumes "bucket_rep off b M"
  shows "\<exists>g. merged_of (stored k b) = Inr g \<and> mg_startOffsetMs g = off"
proof -
  have "hist_rep (bk_histogramOk b) (edge_times True M)" "hist_rep (bk_histogramKo b) (edge_times False M)"
    using assms by (simp_all add: bucket_rep_def)
  from bucket_latency_rep [OF this] assms show ?thesis by (simp add: merged_of_def stored_def bucket_rep_def)
qed

text \<open>
  C7: The merged series of a group is the direct bucketing of all the edges of its
  members, whatever width each member's stored series ended at and without that width being stored: it
  always returns, at a real width that every member's width divides; its buckets are the occupied slots
  at that width in time order; each has the exact counters and histograms of the edges that fall into
  it, latency computed from them, and a started count exactly when every contributing row had one.
  The width is one second unless a member held enough buckets to have coalesced.
\<close>

theorem group_series_is_the_union:
  assumes "2 \<le> cap"
  shows "let xs = concat (map fst members) in
    \<exists>W ms. mergeMemberSeries (map (stored_series startMs cap) members) (JFin (of_int cap)) = Some (Inr ms) \<and>
      ms_widthMs ms = W \<and> is_width W \<and> list_all (\<lambda>m. bs_widthMs (series_of startMs cap (fst m)) dvd W) members \<and>
      (W = 1000 \<or> list_ex (\<lambda>m. cap < 2 * int (length (stored_series startMs cap m))) members) \<and>
      map mg_startOffsetMs (ms_buckets ms) = sorted_list_of_set (slot_start startMs W ` set xs) \<and>
      list_all (\<lambda>g. \<exists>b known. bucket_rep (mg_startOffsetMs g) b (filter_mset (\<lambda>x. slot_start startMs W x = mg_startOffsetMs g) (mset xs)) \<and>
        known = all_known (in_cell W (mg_startOffsetMs g) (concat (map (contributions startMs cap) members))) \<and>
        merged_of (stored known b) = Inr g \<and>
        jm_get (ms_histograms ms) (mg_startOffsetMs g) = Some (bk_histogramOk b, bk_histogramKo b)) (ms_buckets ms)"
proof -
  define xs where "xs = concat (map fst members)"
  define L where "L = concat (map (contributions startMs cap) members)"
  from group_merge_width [OF assms, of startMs members] obtain W where
    W: "group_width (coalescedFloor (JFin (of_int cap)))
        (map (map mb_startOffsetMs) (map (stored_series startMs cap) members)) 1000 = Some W"
      "is_width W" "\<forall>m \<in> set members. bs_widthMs (series_of startMs cap (fst m)) dvd W"
      "W = 1000 \<or> list_ex (\<lambda>m. cap < 2 * int (length (stored_series startMs cap m))) members" by blast
  define m where "m = fold (fold (merge_bucket W)) (map (stored_series startMs cap) members) []"
  define merged where "merged = js_sort (cmp_by mb_startOffsetMs) (map snd m)"
  define g where "g = (\<lambda>acc. projr (merged_of acc))"
  define hs where "hs = map (\<lambda>acc. (mb_startOffsetMs acc, mb_histogramOk acc, mb_histogramKo acc)) merged"
  note in_group = group_in_cell [OF assms W(3) is_width_pos [OF W(2)], folded L_def xs_def]
  note sorted = cells_sorted [OF merge_group_rep [OF assms, of W startMs members, folded m_def L_def] in_group(2), folded merged_def]
  have entry: "\<exists>b. bucket_rep (mg_startOffsetMs (g acc)) b (filter_mset (\<lambda>x. slot_start startMs W x = mg_startOffsetMs (g acc)) (mset xs)) \<and>
      acc = stored (all_known (in_cell W (mg_startOffsetMs (g acc)) L)) b \<and> merged_of acc = Inr (g acc) \<and>
      mg_startOffsetMs (g acc) = mb_startOffsetMs acc \<and> mb_histogramOk acc = bk_histogramOk b \<and> mb_histogramKo acc = bk_histogramKo b"
    if "acc \<in> set merged" for acc
  proof -
    from sorted(2) [OF that] obtain b where
      b: "bucket_rep (mb_startOffsetMs acc) b (contents (in_cell W (mb_startOffsetMs acc) L))"
        "acc = stored (all_known (in_cell W (mb_startOffsetMs acc) L)) b" by blast
    from merged_of_rep [OF b(1)] b(2) have "merged_of acc = Inr (g acc) \<and> mg_startOffsetMs (g acc) = mb_startOffsetMs acc"
      unfolding g_def by (metis sum.sel(2))
    moreover have "mb_histogramOk acc = bk_histogramOk b \<and> mb_histogramKo acc = bk_histogramKo b"
      by (subst (1 2) b(2)) (simp add: stored_def)
    ultimately show ?thesis using b unfolding in_group(1) by auto
  qed
  have offs: "map mb_startOffsetMs merged = sorted_list_of_set (slot_start startMs W ` set xs)" by (rule sorted(1)) simp
  have "sum_list_all (map merged_of merged) = Inr (map projr (map merged_of merged))"
    using entry by (intro sum_list_all_Inr) fastforce
  then have run: "mergeMemberSeries (map (stored_series startMs cap) members) (JFin (of_int cap)) =
      Some (Inr \<lparr>ms_widthMs = W, ms_buckets = map g merged, ms_histograms = hs\<rparr>)"
    unfolding mergeMemberSeries_def W(1) by (simp add: Let_def m_def merged_def hs_def g_def comp_def)
  have "distinct (map mb_startOffsetMs merged)" unfolding offs by simp
  then have "map_of hs (mb_startOffsetMs acc) = Some (mb_histogramOk acc, mb_histogramKo acc)" if "acc \<in> set merged" for acc
    using that by (intro map_of_is_SomeI) (auto simp: hs_def comp_def)
  moreover have "map mg_startOffsetMs (map g merged) = sorted_list_of_set (slot_start startMs W ` set xs)"
    unfolding offs [symmetric] using entry by fastforce
  ultimately show ?thesis
    using run W(2-4) entry unfolding Let_def xs_def [symmetric] L_def [symmetric] by (force simp: list_all_iff)
qed

definition sample_member :: "int list \<Rightarrow> member" where
  "sample_member ts = (map (\<lambda>t. \<lparr>re_tsMs = t, re_value = 7, re_ok = True, re_edge = StartEdge\<rparr>) ts, \<lambda>_. (True, False))"

theorem group_series_is_the_union_witness:
  "\<exists>ms. mergeMemberSeries (map (stored_series 0 2) [sample_member [0, 5000, 9000], sample_member [1000]]) (JFin 2) = Some (Inr ms) \<and>
    map mg_startOffsetMs (ms_buckets ms) =
      sorted_list_of_set (slot_start 0 (ms_widthMs ms) ` set (concat (map fst [sample_member [0, 5000, 9000], sample_member [1000]])))"
  using group_series_is_the_union [where cap = 2 and startMs = 0 and members = "[sample_member [0, 5000, 9000], sample_member [1000]]"]
  unfolding Let_def of_int_numeral by blast

end
