(* ===== verification/EngineFold.thy ===== *)
theory EngineFold
  imports Engine
begin

text \<open>
  What a stream of events contributes, and the proof that the engine's fold collects exactly that.
  A stream is its header followed by events that are not headers; \<open>engine_rep\<close> relates the engine
  to the events it has seen.
\<close>

section \<open>The contributions of an event\<close>

definition both_edges :: "row_id \<Rightarrow> int \<Rightarrow> int \<Rightarrow> int \<Rightarrow> bool \<Rightarrow> (row_id \<times> request_edge) list" where
  "both_edges i startMs endMs v ok = [(i, an_edge startMs v ok StartEdge), (i, an_edge endMs v ok EndEdge)]"

definition request_ms :: "request_event \<Rightarrow> int" where
  "request_ms r = rq_endMs r - rq_startMs r"

definition group_name :: "group_event \<Rightarrow> jstr" where
  "group_name g = js_join [slash] (gr_groups g)"

fun row_obs :: "int \<Rightarrow> int \<Rightarrow> canonical_event \<Rightarrow> (row_id \<times> int \<times> bool) list" where
  "row_obs st wu (RequestE r) = (if isWarmup (rq_startMs r) st wu then [] else
     [((Run, [], ResponseTimeF), request_ms r, rq_ok r), ((Request, request_path r, ResponseTimeF), request_ms r, rq_ok r)])"
| "row_obs st wu (GroupE g) = (if isWarmup (gr_startMs g) st wu then [] else
     [((Group, group_name g, GroupCumulated), gr_cumulatedResponseTimeMs g, gr_ok g),
      ((Group, group_name g, GroupDuration), gr_endMs g - gr_startMs g, gr_ok g)])"
| "row_obs st wu _ = []"

fun series_obs :: "canonical_event \<Rightarrow> (row_id \<times> request_edge) list" where
  "series_obs (RequestE r) =
     both_edges (Run, [], ResponseTimeF) (rq_startMs r) (rq_endMs r) (request_ms r) (rq_ok r) @
     both_edges (Request, request_path r, ResponseTimeF) (rq_startMs r) (rq_endMs r) (request_ms r) (rq_ok r)"
| "series_obs (GroupE g) =
     both_edges (Group, group_name g, GroupCumulated) (gr_startMs g) (gr_endMs g) (gr_cumulatedResponseTimeMs g) (gr_ok g) @
     both_edges (Group, group_name g, GroupDuration) (gr_startMs g) (gr_endMs g) (gr_endMs g - gr_startMs g) (gr_ok g)"
| "series_obs _ = []"

fun error_obs :: "int \<Rightarrow> int \<Rightarrow> canonical_event \<Rightarrow> (error_id \<times> jstr) list" where
  "error_obs st wu (RequestE r) = (if rq_ok r \<or> isWarmup (rq_startMs r) st wu then [] else
     [((Run, []), errorMessageOf (rq_message r)), ((Request, request_path r), errorMessageOf (rq_message r))])"
| "error_obs st wu (ErrorE x) = (if isWarmup (er_tsMs x) st wu then [] else
     [((Run, []), errorMessageOf (Some (Events.er_message x)))])"
| "error_obs st wu _ = []"

fun failure_obs :: "canonical_event \<Rightarrow> (int \<times> jstr) list" where
  "failure_obs (RequestE r) = (if rq_ok r then [] else [(rq_endMs r, errorMessageOf (rq_message r))])"
| "failure_obs _ = []"

fun user_obs :: "canonical_event \<Rightarrow> (jstr \<times> user_kind \<times> int) list" where
  "user_obs (UserE u) = [(us_scenario u, us_kind u, us_tsMs u)]"
| "user_obs _ = []"

fun requests_in :: "canonical_event \<Rightarrow> request_event list" where
  "requests_in (RequestE r) = [r]"
| "requests_in _ = []"

abbreviation gather :: "('a \<Rightarrow> 'b list) \<Rightarrow> 'a list \<Rightarrow> 'b list" where
  "gather f evs \<equiv> concat (map f evs)"

definition request_paths :: "canonical_event list \<Rightarrow> jstr list" where
  "request_paths evs = first_seen (map request_path (gather requests_in evs))"

definition no_header :: "canonical_event list \<Rightarrow> bool" where
  "no_header evs \<longleftrightarrow> (\<forall>ev \<in> set evs. \<forall>m. ev \<noteq> MetaE m)"

text \<open>Every edge leaves its series room to coalesce.\<close>

definition stream_room :: "engine_config \<Rightarrow> int \<Rightarrow> canonical_event list \<Rightarrow> bool" where
  "stream_room c st evs \<longleftrightarrow> (\<forall>p \<in> set (gather series_obs evs). edge_room c st p)"

section \<open>The engine after a stream\<close>

definition engine_rep :: "engine_config \<Rightarrow> meta_event \<Rightarrow> canonical_event list \<Rightarrow> live_engine \<Rightarrow> bool" where
  "engine_rep c m evs e \<longleftrightarrow> le_cfg e = c \<and> le_runStartMs e = me_startedAtMs m \<and> le_sawMeta e \<and>
     le_simulation e = Some (me_simulation m) \<and> le_description e = me_description m \<and>
     le_declaredAssertions e = or_default (me_assertions m) [] \<and>
     le_userEvents e = gather user_obs evs \<and> le_endpoints e = request_paths evs \<and>
     (let rs = gather requests_in evs in
       le_firstMs e = (if rs = [] then None else Some (Min (set (map rq_startMs rs)))) \<and>
       le_lastMs e = Max (insert 0 (set (map rq_endMs rs))) \<and>
       le_runResponseSeries e = (if rs = [] then None else Some (rollupKey (Run, [], ResponseTimeF)))) \<and>
     acc e (gather (row_obs (me_startedAtMs m) (ec_warmupMs c)) evs) (gather series_obs evs)
       (gather (error_obs (me_startedAtMs m) (ec_warmupMs c)) evs) (gather failure_obs evs)"

lemma engine_rep_start:
  "engine_rep (engine_config_of opts) m [] (add_meta m (new_engine opts))"
  by (simp add: engine_rep_def add_meta_def new_engine_def request_paths_def acc_def failures_rep_def
      kr.keyed_rep_Nil kx.keyed_rep_Nil ke.keyed_rep_Nil)

text \<open>A step that only accumulates: the fields it frames stay as they were.\<close>

lemma engine_rep_acc:
  assumes "engine_rep c m evs e" and "framed e e'" and "requests_in ev = []" and "user_obs ev = []"
    and "acc e' (gather (row_obs (me_startedAtMs m) (ec_warmupMs c)) evs @ row_obs (me_startedAtMs m) (ec_warmupMs c) ev)
      (gather series_obs evs @ series_obs ev)
      (gather (error_obs (me_startedAtMs m) (ec_warmupMs c)) evs @ error_obs (me_startedAtMs m) (ec_warmupMs c) ev)
      (gather failure_obs evs @ failure_obs ev)"
  shows "engine_rep c m (evs @ [ev]) e'"
  using assms unfolding engine_rep_def framed_def by (simp add: request_paths_def)

lemma both_step:
  assumes "acc e R X E F" and "le_cfg e = c" and "le_runStartMs e = st"
    and "\<forall>p \<in> set (X @ both_edges i t1 t2 v ok). edge_room c st p" and "cap = series_cap c i"
  obtains e' where "add_both i cap t1 t2 v ok e = Some e'" and "acc e' R (X @ both_edges i t1 t2 v ok) E F"
    and "framed e e'" and "le_cfg e' = c" and "le_runStartMs e' = st"
proof -
  have "\<exists>e'. add_both i cap t1 t2 v ok e = Some e' \<and> acc e' R (X @ both_edges i t1 t2 v ok) E F \<and> framed e e'"
    unfolding both_edges_def using assms unfolding both_edges_def by (intro add_both_acc) simp_all
  with that assms(2,3) show thesis by (auto simp: framed_def)
qed

lemma group_step:
  assumes rep: "engine_rep c m evs e" and room: "stream_room c (me_startedAtMs m) (evs @ [GroupE g])"
  shows "\<exists>e'. add_group g e = Some e' \<and> engine_rep c m (evs @ [GroupE g]) e'"
proof -
  let ?st = "me_startedAtMs m" and ?wu = "ec_warmupMs c"
  let ?R = "gather (row_obs ?st ?wu) evs" and ?X = "gather series_obs evs"
  let ?E = "gather (error_obs ?st ?wu) evs" and ?F = "gather failure_obs evs"
  let ?C = "(Group, group_name g, GroupCumulated)" and ?D = "(Group, group_name g, GroupDuration)"
  let ?d = "gr_endMs g - gr_startMs g"
  have e: "acc e ?R ?X ?E ?F" "le_cfg e = c" "le_runStartMs e = ?st" using rep by (simp_all add: engine_rep_def)
  have room: "\<forall>p \<in> set (?X @ both_edges ?C (gr_startMs g) (gr_endMs g) (gr_cumulatedResponseTimeMs g) (gr_ok g) @
      both_edges ?D (gr_startMs g) (gr_endMs g) ?d (gr_ok g)). edge_room c ?st p"
    using room by (simp add: stream_room_def)
  have "\<forall>p \<in> set (?X @ both_edges ?C (gr_startMs g) (gr_endMs g) (gr_cumulatedResponseTimeMs g) (gr_ok g)).
      edge_room c ?st p" using room by (simp add: ball_Un)
  from both_step [OF e this refl] obtain e1 where
    e1: "add_both ?C (series_cap c ?C) (gr_startMs g) (gr_endMs g) (gr_cumulatedResponseTimeMs g) (gr_ok g) e = Some e1"
    "acc e1 ?R (?X @ both_edges ?C (gr_startMs g) (gr_endMs g) (gr_cumulatedResponseTimeMs g) (gr_ok g)) ?E ?F" "framed e e1"
    "le_cfg e1 = c" "le_runStartMs e1 = ?st" .
  have "\<forall>p \<in> set ((?X @ both_edges ?C (gr_startMs g) (gr_endMs g) (gr_cumulatedResponseTimeMs g) (gr_ok g)) @
       both_edges ?D (gr_startMs g) (gr_endMs g) ?d (gr_ok g)). edge_room c ?st p" using room by (simp add: ball_Un)
  from both_step [OF e1(2,4,5) this refl] obtain e2 where
    e2: "add_both ?D (series_cap c ?D) (gr_startMs g) (gr_endMs g) ?d (gr_ok g) e1 = Some e2"
    "acc e2 ?R ((?X @ both_edges ?C (gr_startMs g) (gr_endMs g) (gr_cumulatedResponseTimeMs g) (gr_ok g)) @
       both_edges ?D (gr_startMs g) (gr_endMs g) ?d (gr_ok g)) ?E ?F" "framed e1 e2" "le_cfg e2 = c" "le_runStartMs e2 = ?st" .
  then have acc2: "acc e2 ?R (?X @ series_obs (GroupE g)) ?E ?F" by simp
  have f2: "framed e e2" using e1(3) e2(3) by (rule framed_trans)
  show ?thesis
  proof (cases "isWarmup (gr_startMs g) ?st ?wu")
    case True
    have "add_group g e = Some e2"
      using e1(1) e2(1) e(2,3) f2 True
      by (simp add: add_group_def group_name_def [symmetric] Let_def in_warmup_def framed_def)
    moreover have "engine_rep c m (evs @ [GroupE g]) e2"
      using True acc2 by (intro engine_rep_acc [OF rep f2]) simp_all
    ultimately show ?thesis by blast
  next
    case False
    obtain e3 where e3: "add_rollup ?C (gr_cumulatedResponseTimeMs g) (gr_ok g) e2 = Some e3"
      "acc e3 (?R @ [(?C, gr_cumulatedResponseTimeMs g, gr_ok g)]) (?X @ series_obs (GroupE g)) ?E ?F" "framed e2 e3"
      using add_rollup_acc [OF acc2] by blast
    obtain e4 where e4: "add_rollup ?D ?d (gr_ok g) e3 = Some e4"
      "acc e4 (?R @ row_obs ?st ?wu (GroupE g)) (?X @ series_obs (GroupE g)) ?E ?F" "framed e3 e4"
      using add_rollup_acc [OF e3(2), of ?D ?d "gr_ok g"] False by auto
    have "add_group g e = Some e4"
      using e1(1) e2(1) e3(1) e4(1) e(2,3) f2 False
      by (simp add: add_group_def group_name_def [symmetric] Let_def in_warmup_def framed_def)
    moreover have "engine_rep c m (evs @ [GroupE g]) e4"
      using e4 by (intro engine_rep_acc [OF rep framed_trans [OF f2 framed_trans [OF e3(3)]]]) simp_all
    ultimately show ?thesis by blast
  qed
qed


lemma failures_room:
  assumes "stream_room c st evs"
  shows "2 \<le> ec_maxBucketsRun c \<or> (\<forall>f \<in> set (gather failure_obs evs). st \<le> fst f)"
proof -
  have "2 \<le> ec_maxBucketsRun c \<or> st \<le> fst f" if "x \<in> set evs" "f \<in> set (failure_obs x)" for x f
    using assms that by (cases x) (force simp: stream_room_def both_edges_def edge_room_def an_edge_def split: if_splits)+
  then show ?thesis by auto
qed

lemma request_step:
  assumes rep: "engine_rep c m evs e" and room: "stream_room c (me_startedAtMs m) (evs @ [RequestE r])"
  shows "if int (length (request_paths (evs @ [RequestE r]))) \<le> ec_maxEndpoints c
    then \<exists>e'. add_request r e = Some (Inr e') \<and> engine_rep c m (evs @ [RequestE r]) e'
    else \<exists>e'. add_request r e = Some (Inl (EndpointCardinalityExceeded (ec_maxEndpoints c)
      (last_five (request_paths (evs @ [RequestE r]))), e'))"
proof -
  let ?st = "me_startedAtMs m" and ?wu = "ec_warmupMs c"
  let ?R = "gather (row_obs ?st ?wu) evs" and ?X = "gather series_obs evs"
  let ?E = "gather (error_obs ?st ?wu) evs" and ?F = "gather failure_obs evs"
  let ?run = "(Run, [], ResponseTimeF)" and ?req = "(Request, request_path r, ResponseTimeF)"
  let ?msg = "errorMessageOf (rq_message r)" and ?d = "request_ms r"
  let ?xr = "both_edges ?run (rq_startMs r) (rq_endMs r) ?d (rq_ok r)"
  let ?xq = "both_edges ?req (rq_startMs r) (rq_endMs r) ?d (rq_ok r)"
  have paths: "set_insert (request_path r) (le_endpoints e) = request_paths (evs @ [RequestE r])"
    using rep by (simp add: engine_rep_def request_paths_def first_seen_snoc)
  have cfg: "le_cfg e = c" "le_runStartMs e = ?st" using rep by (simp_all add: engine_rep_def)
  define e0 where "e0 = e\<lparr>le_endpoints := request_paths (evs @ [RequestE r]),
    le_firstMs := Some (case le_firstMs e of None \<Rightarrow> rq_startMs r | Some f \<Rightarrow> min f (rq_startMs r)),
    le_lastMs := max (le_lastMs e) (rq_endMs r), le_runResponseSeries := Some (rollupKey ?run)\<rparr>"
  have e0: "acc e0 ?R ?X ?E ?F" "le_cfg e0 = c" "le_runStartMs e0 = ?st"
    using rep acc_cong [of e0 e] by (simp_all add: e0_def engine_rep_def)
  let ?rs = "gather requests_in evs"
  have first: "(case le_firstMs e of None \<Rightarrow> rq_startMs r | Some f \<Rightarrow> min f (rq_startMs r)) =
      Min (set (map rq_startMs (?rs @ [r])))"
  proof -
    have "(case f of None \<Rightarrow> rq_startMs r | Some f \<Rightarrow> min f (rq_startMs r)) = Min (set (map rq_startMs (rs @ [r])))"
      if "f = (if rs = [] then None else Some (Min (set (map rq_startMs rs))))" for f rs
      using that by (cases "rs = []") (simp_all add: min.commute)
    then show ?thesis using rep by (simp only: engine_rep_def Let_def)
  qed
  have last: "max (le_lastMs e) (rq_endMs r) = Max (insert 0 (set (map rq_endMs (?rs @ [r]))))"
  proof -
    have "insert 0 (set (map rq_endMs (?rs @ [r]))) = insert (rq_endMs r) (insert 0 (set (map rq_endMs ?rs)))" by auto
    moreover have "le_lastMs e = Max (insert 0 (set (map rq_endMs ?rs)))" using rep by (simp add: engine_rep_def Let_def)
    ultimately show ?thesis by (simp add: max.commute)
  qed
  have f0: "le_firstMs e0 = Some (Min (set (map rq_startMs (?rs @ [r]))))"
    "le_lastMs e0 = Max (insert 0 (set (map rq_endMs (?rs @ [r]))))"
    unfolding first [symmetric] last [symmetric] by (simp_all add: e0_def)
  have f1: "le_sawMeta e0" "le_userEvents e0 = gather user_obs evs" "le_simulation e0 = Some (me_simulation m)"
    "le_description e0 = me_description m" "le_declaredAssertions e0 = or_default (me_assertions m) []"
    "le_runResponseSeries e0 = Some (rollupKey ?run)" "le_endpoints e0 = request_paths (evs @ [RequestE r])"
    using rep by (simp_all add: e0_def engine_rep_def)
  have rep': "engine_rep c m (evs @ [RequestE r]) e'" if e': "framed e0 e'"
    "acc e' (?R @ row_obs ?st ?wu (RequestE r)) (?X @ series_obs (RequestE r)) (?E @ error_obs ?st ?wu (RequestE r))
      (?F @ failure_obs (RequestE r))" for e'
    using e' f0 f1 e0(2,3) unfolding engine_rep_def framed_def by simp
  have "\<forall>p \<in> set (?X @ ?xr). edge_room c ?st p" using room by (simp add: ball_Un stream_room_def)
  from both_step [OF e0 this refl] obtain e1 where
    e1: "add_both ?run (series_cap c ?run) (rq_startMs r) (rq_endMs r) ?d (rq_ok r) e0 = Some e1"
    "acc e1 ?R (?X @ ?xr) ?E ?F" "framed e0 e1" "le_cfg e1 = c" "le_runStartMs e1 = ?st" .
  have "\<forall>p \<in> set ((?X @ ?xr) @ ?xq). edge_room c ?st p" using room by (simp add: ball_Un stream_room_def)
  from both_step [OF e1(2,4,5) this refl] obtain e2 where
    e2: "add_both ?req (series_cap c ?req) (rq_startMs r) (rq_endMs r) ?d (rq_ok r) e1 = Some e2"
    "acc e2 ?R ((?X @ ?xr) @ ?xq) ?E ?F" "framed e1 e2" "le_cfg e2 = c" "le_runStartMs e2 = ?st" .
  then have acc2: "acc e2 ?R (?X @ series_obs (RequestE r)) ?E ?F" by simp
  have run_room: "2 \<le> ec_maxBucketsRun c \<or> (\<forall>f \<in> set (?F @ [(rq_endMs r, ?msg)]). ?st \<le> fst f)"
    using failures_room [of c ?st evs] room by (auto simp: stream_room_def ball_Un both_edges_def edge_room_def an_edge_def)
  obtain e3 where e3: "(if rq_ok r then Some e2 else add_failure (rq_endMs r) ?msg e2) = Some e3"
    "acc e3 ?R (?X @ series_obs (RequestE r)) ?E (?F @ failure_obs (RequestE r))" "framed e2 e3"
  proof (cases "rq_ok r")
    case False
    then show ?thesis using add_failure_acc [OF acc2, of "rq_endMs r" ?msg] run_room e2(4,5) that by auto
  qed (use acc2 that in simp)
  have f3: "framed e0 e3" using e1(3) e2(3) e3(3) framed_trans by blast
  have run: "add_request r e = map_option Inr (if isWarmup (rq_startMs r) ?st ?wu then Some e3
      else Option.bind (add_rollup ?run ?d (rq_ok r) e3) (\<lambda>e. Option.bind (add_rollup ?req ?d (rq_ok r) e) (\<lambda>e.
        if rq_ok r then Some e else Option.bind (add_error (Run, []) ?msg e) (add_error (Request, request_path r) ?msg))))"
    if "int (length (request_paths (evs @ [RequestE r]))) \<le> ec_maxEndpoints c"
  proof -
    have "e0 = e\<lparr>le_endpoints := request_paths (evs @ [RequestE r])\<rparr>\<lparr>le_firstMs := Some (case le_firstMs e of None \<Rightarrow> rq_startMs r
      | Some f \<Rightarrow> min f (rq_startMs r)), le_lastMs := max (le_lastMs e) (rq_endMs r), le_runResponseSeries := Some (rollupKey ?run)\<rparr>"
      by (simp add: e0_def)
    then show ?thesis
      using that e1(1,4) e2(1) e3(1) f3 cfg e0(2,3) by (simp add: add_request_def request_ms_def [symmetric] Let_def paths in_warmup_def framed_def)
  qed
  have go: "\<exists>e'. add_request r e = Some (Inr e') \<and> engine_rep c m (evs @ [RequestE r]) e'"
    if small: "int (length (request_paths (evs @ [RequestE r]))) \<le> ec_maxEndpoints c"
  proof (cases "isWarmup (rq_startMs r) ?st ?wu")
    case True
    then have "add_request r e = Some (Inr e3)" using run [OF small] by simp
    moreover have "engine_rep c m (evs @ [RequestE r]) e3" using True e3(2) by (intro rep' [OF f3]) simp
    ultimately show ?thesis by blast
  next
    case warm: False
    obtain e4 where e4: "add_rollup ?run ?d (rq_ok r) e3 = Some e4" "framed e3 e4"
      "acc e4 (?R @ [(?run, ?d, rq_ok r)]) (?X @ series_obs (RequestE r)) ?E (?F @ failure_obs (RequestE r))"
      using add_rollup_acc [OF e3(2)] by blast
    obtain e5 where e5: "add_rollup ?req ?d (rq_ok r) e4 = Some e5" "framed e4 e5"
      "acc e5 (?R @ row_obs ?st ?wu (RequestE r)) (?X @ series_obs (RequestE r)) ?E (?F @ failure_obs (RequestE r))"
      using add_rollup_acc [OF e4(3), of ?req ?d "rq_ok r"] warm by auto
    have f5: "framed e0 e5" using f3 e4(2) e5(2) framed_trans by blast
    obtain e6 where e6: "(if rq_ok r then Some e5 else Option.bind (add_error (Run, []) ?msg e5) (add_error (Request, request_path r) ?msg)) = Some e6"
      "framed e5 e6" "acc e6 (?R @ row_obs ?st ?wu (RequestE r)) (?X @ series_obs (RequestE r))
        (?E @ error_obs ?st ?wu (RequestE r)) (?F @ failure_obs (RequestE r))"
    proof (cases "rq_ok r")
      case True
      then show ?thesis using e5(3) that by simp
    next
      case False
      obtain a where a: "add_error (Run, []) ?msg e5 = Some a" "framed e5 a"
        "acc a (?R @ row_obs ?st ?wu (RequestE r)) (?X @ series_obs (RequestE r)) (?E @ [((Run, []), ?msg)]) (?F @ failure_obs (RequestE r))"
        using add_error_acc [OF e5(3)] by blast
      obtain b where "add_error (Request, request_path r) ?msg a = Some b" "framed a b"
        "acc b (?R @ row_obs ?st ?wu (RequestE r)) (?X @ series_obs (RequestE r))
          ((?E @ [((Run, []), ?msg)]) @ [((Request, request_path r), ?msg)]) (?F @ failure_obs (RequestE r))"
        using add_error_acc [OF a(3)] by blast
      then show ?thesis using a False warm framed_trans [OF a(2)] that by simp
    qed
    have "add_request r e = Some (Inr e6)" using run [OF small] warm e4(1) e5(1) e6(1) by simp
    moreover have "engine_rep c m (evs @ [RequestE r]) e6" using e6(3) by (intro rep' [OF framed_trans [OF f5 e6(2)]])
    ultimately show ?thesis by blast
  qed
  have stop: "\<exists>e'. add_request r e = Some (Inl (EndpointCardinalityExceeded (ec_maxEndpoints c)
      (last_five (request_paths (evs @ [RequestE r]))), e'))"
    if "\<not> int (length (request_paths (evs @ [RequestE r]))) \<le> ec_maxEndpoints c"
    using that cfg by (simp add: add_request_def Let_def paths)
  show ?thesis using go stop by simp
qed

text \<open>Any event that is not a header, and the whole fold.\<close>

definition fits :: "engine_config \<Rightarrow> canonical_event list \<Rightarrow> bool" where
  "fits c evs \<longleftrightarrow> int (length (request_paths evs)) \<le> ec_maxEndpoints c"

definition too_many :: "engine_config \<Rightarrow> canonical_event list \<Rightarrow> engine_error" where
  "too_many c evs = EndpointCardinalityExceeded (ec_maxEndpoints c) (last_five (request_paths evs))"

lemma engine_step:
  assumes rep: "engine_rep c m evs e" and room: "stream_room c (me_startedAtMs m) (evs @ [ev])"
    and "\<And>m. ev \<noteq> MetaE m" and "fits c evs"
  shows "if fits c (evs @ [ev]) then \<exists>e'. engine_add ev e = Some (Inr e') \<and> engine_rep c m (evs @ [ev]) e'
    else \<exists>e'. engine_add ev e = Some (Inl (too_many c (evs @ [ev]), e'))"
proof (cases ev)
  case (RequestE r)
  then show ?thesis using request_step [OF rep] room by (simp add: engine_add_def fits_def too_many_def)
next
  case (GroupE g)
  then have "fits c (evs @ [ev])" using assms(4) by (simp add: fits_def request_paths_def)
  with GroupE show ?thesis using group_step [OF rep] room by (auto simp: engine_add_def)
next
  case (UserE u)
  let ?e = "e\<lparr>le_userEvents := le_userEvents e @ [(us_scenario u, us_kind u, us_tsMs u)]\<rparr>"
  have "engine_rep c m (evs @ [ev]) ?e"
    using rep acc_cong [of ?e e] by (simp add: UserE engine_rep_def request_paths_def)
  moreover have "fits c (evs @ [ev])" using assms(4) UserE by (simp add: fits_def request_paths_def)
  ultimately show ?thesis by (simp add: UserE engine_add_def)
next
  case (ErrorE x)
  let ?st = "me_startedAtMs m" and ?wu = "ec_warmupMs c"
  have f: "fits c (evs @ [ev])" using assms(4) ErrorE by (simp add: fits_def request_paths_def)
  have e: "le_cfg e = c" "le_runStartMs e = ?st" and acc: "acc e (gather (row_obs ?st ?wu) evs) (gather series_obs evs)
      (gather (error_obs ?st ?wu) evs) (gather failure_obs evs)" using rep by (simp_all add: engine_rep_def)
  show ?thesis
  proof (cases "isWarmup (er_tsMs x) ?st ?wu")
    case True
    have "engine_rep c m (evs @ [ev]) e" using True acc by (intro engine_rep_acc [OF rep framed_refl]) (simp_all add: ErrorE)
    with True show ?thesis using f e by (simp add: ErrorE engine_add_def in_warmup_def)
  next
    case False
    obtain e' where e': "add_error (Run, []) (errorMessageOf (Some (Events.er_message x))) e = Some e'" "framed e e'"
      "acc e' (gather (row_obs ?st ?wu) evs) (gather series_obs evs)
        (gather (error_obs ?st ?wu) evs @ [((Run, []), errorMessageOf (Some (Events.er_message x)))]) (gather failure_obs evs)"
      using add_error_acc [OF acc] by blast
    have "engine_rep c m (evs @ [ev]) e'" using False e'(3) by (intro engine_rep_acc [OF rep e'(2)]) (simp_all add: ErrorE)
    with False e'(1) show ?thesis using f e by (simp add: ErrorE engine_add_def in_warmup_def)
  qed
qed (use assms(3) in simp)

lemma fits_prefix: "fits c (evs @ rest) \<Longrightarrow> fits c evs"
proof -
  have "length (first_seen xs) \<le> length (first_seen (xs @ ys))" for xs ys :: "jstr list"
    by (metis List.card_set card_mono distinct_card first_seen_set finite_set set_append sup_ge1)
  then have "length (request_paths evs) \<le> length (request_paths (evs @ rest))" by (simp add: request_paths_def)
  then show "fits c (evs @ rest) \<Longrightarrow> fits c evs" by (simp add: fits_def)
qed

lemma stream_room_prefix: "stream_room c st (evs @ rest) \<Longrightarrow> stream_room c st evs"
  by (simp add: stream_room_def ball_Un)

lemma engine_fold_rep:
  assumes "engine_rep c m seen e" and "stream_room c (me_startedAtMs m) (seen @ evs)" and "no_header evs"
    and "fits c (seen @ evs)"
  shows "\<exists>e'. engine_fold evs e = Some (Inr e') \<and> engine_rep c m (seen @ evs) e'"
  using assms
proof (induction evs arbitrary: seen e)
  case Nil
  then show ?case by simp
next
  case (Cons ev evs)
  have fits: "fits c seen" "fits c (seen @ [ev])"
    using fits_prefix [of c seen "ev # evs"] fits_prefix [of c "seen @ [ev]" evs] Cons.prems(4) by simp_all
  have "stream_room c (me_startedAtMs m) (seen @ [ev])"
    using stream_room_prefix [of c _ "seen @ [ev]" evs] Cons.prems(2) by simp
  from engine_step [OF Cons.prems(1) this _ fits(1)] Cons.prems(3) fits obtain e1 where
    e1: "engine_add ev e = Some (Inr e1)" "engine_rep c m (seen @ [ev]) e1" by (auto simp: no_header_def)
  with Cons.IH [OF e1(2)] Cons.prems show ?case by (simp add: no_header_def)
qed

lemma engine_fold_breaks:
  assumes "engine_rep c m seen e" and "stream_room c (me_startedAtMs m) (seen @ evs)" and "no_header evs"
    and "fits c seen" and "\<not> fits c (seen @ evs)"
  shows "\<exists>pre ev post e'. evs = pre @ ev # post \<and> fits c (seen @ pre) \<and> \<not> fits c (seen @ pre @ [ev]) \<and>
    engine_fold evs e = Some (Inl (too_many c (seen @ pre @ [ev]), e'))"
  using assms
proof (induction evs arbitrary: seen e)
  case Nil
  then show ?case by simp
next
  case (Cons ev evs)
  have "stream_room c (me_startedAtMs m) (seen @ [ev])"
    using stream_room_prefix [of c _ "seen @ [ev]" evs] Cons.prems(2) by simp
  from engine_step [OF Cons.prems(1) this _ Cons.prems(4)] Cons.prems(3) have
    step: "if fits c (seen @ [ev]) then \<exists>e'. engine_add ev e = Some (Inr e') \<and> engine_rep c m (seen @ [ev]) e'
      else \<exists>e'. engine_add ev e = Some (Inl (too_many c (seen @ [ev]), e'))" by (simp add: no_header_def)
  show ?case
  proof (cases "fits c (seen @ [ev])")
    case True
    with step obtain e1 where e1: "engine_add ev e = Some (Inr e1)" "engine_rep c m (seen @ [ev]) e1" by auto
    from Cons.IH [OF e1(2)] Cons.prems True obtain pre ev' post e' where
      "evs = pre @ ev' # post" "fits c (seen @ ev # pre)" "\<not> fits c (seen @ ev # pre @ [ev'])"
      "engine_fold evs e1 = Some (Inl (too_many c (seen @ ev # pre @ [ev']), e'))" by (auto simp: no_header_def)
    then show ?thesis using e1(1) by (intro exI [of _ "ev # pre"] exI [of _ ev'] exI [of _ post] exI [of _ e']) simp
  next
    case False
    with step Cons.prems(4) show ?thesis
      by (intro exI [of _ "[]"] exI [of _ ev] exI [of _ evs]) auto
  qed
qed

end
