(* ===== verification/EngineResult.thy ===== *)
theory EngineResult
  imports EngineFold
begin

text \<open>
  The snapshot of the engine: what \<open>runEngine\<close> returns is a function of the contributions of its
  events, and the figures that a page shows side by side agree.
\<close>

section \<open>Rows\<close>

definition pop_ok :: "(int \<times> bool) list \<Rightarrow> int multiset" where
  "pop_ok xs = ok_part (as_durations xs)"

definition pop_ko :: "(int \<times> bool) list \<Rightarrow> int multiset" where
  "pop_ko xs = ko_part (as_durations xs)"

text \<open>The row of the identity \<open>i\<close> when the stream contributed the durations \<open>R\<close>.\<close>

definition row_for :: "int \<Rightarrow> rat list \<Rightarrow> (row_id \<times> int \<times> bool) list \<Rightarrow> row_id \<Rightarrow> stat_rollup \<Rightarrow> bool" where
  "row_for windowMs ps R i row \<longleftrightarrow> (\<exists>ok ko. row = row_of (fst i) (fst (snd i)) (snd (snd i)) windowMs ps
     (pop_ok (obs_of i R)) (pop_ko (obs_of i R)) ok ko \<and> hist_rep ok (pop_ok (obs_of i R)) \<and> hist_rep ko (pop_ko (obs_of i R)))"

lemma pop_sizes: "size (pop_ok xs) = length (filter snd xs)" "size (pop_ko xs) = length (filter (\<lambda>x. \<not> snd x) xs)"
  "size (pop_ok xs) + size (pop_ko xs) = length xs"
proof -
  show "size (pop_ok xs) = length (filter snd xs)" "size (pop_ko xs) = length (filter (\<lambda>x. \<not> snd x) xs)"
    by (simp_all add: pop_ok_def pop_ko_def ok_part_def ko_part_def as_durations_def filter_map comp_def
        del: mset_filter mset_map)
  then show "size (pop_ok xs) + size (pop_ko xs) = length xs" by (simp add: sum_length_filter_compl)
qed

lemma row_for_reads:
  assumes "row_for windowMs ps R i row"
  shows "row_identity row = i" "has_population row"
    "sr_okCount row = int (size (pop_ok (obs_of i R)))" "sr_koCount row = int (size (pop_ko (obs_of i R)))"
    "sr_count row = int (length (obs_of i R))"
  using assms
  by (auto simp: row_for_def row_of_def Let_def row_identity_def has_population_def pop_sizes(3) simp flip: of_nat_add)

lemma sum_list_all_rel:
  "(\<And>x. x \<in> set xs \<Longrightarrow> \<exists>a. f x = Inr a \<and> P (g x) a) \<Longrightarrow> \<exists>as. sum_list_all (map f xs) = Inr as \<and> list_all2 P (map g xs) as"
proof (induction xs)
  case Nil
  then show ?case by simp
next
  case (Cons x xs)
  obtain a where "f x = Inr a" "P (g x) a" using Cons.prems [of x] by auto
  moreover obtain as where "sum_list_all (map f xs) = Inr as" "list_all2 P (map g xs) as" using Cons by auto
  ultimately show ?case by simp
qed

lemma snapshot_stats_rep:
  assumes "kr.keyed_rep (le_rollups e) R" and "list_all in_range (ec_percentiles (le_cfg e))"
  shows "\<exists>stats. snapshot_stats clone e = Inr stats \<and>
    list_all2 (row_for (window_ms e) (ec_percentiles (le_cfg e)) R) (first_seen (map fst R)) stats"
proof -
  have ids: "map (\<lambda>p. rl_id (snd p)) (le_rollups e) = first_seen (map fst R)" using assms(1) by (simp add: kr.keyed_rep_def)
  show ?thesis unfolding snapshot_stats_def ids [symmetric]
  proof (rule sum_list_all_rel)
    fix p assume "p \<in> set (le_rollups e)"
    moreover obtain k en where p: "p = (k, en)" by fastforce
    moreover obtain s n f where i: "rl_id en = (s, n, f)" by (cases "rl_id en") blast
    ultimately have "rollup_rep en (obs_of (s, n, f) R)" using assms(1) by (force simp: kr.keyed_rep_def)
    then have rep: "hist_rep (rb_ok (rl_builder en)) (pop_ok (obs_of (s, n, f) R))"
      "hist_rep (rb_ko (rl_builder en)) (pop_ko (obs_of (s, n, f) R))"
      by (simp_all add: rollup_rep_def pop_ok_def pop_ko_def)
    have nonneg: "0 \<le> v" if "v \<in># pop_ok (obs_of (s, n, f) R) + pop_ko (obs_of (s, n, f) R)" for v
      using that by (auto simp: pop_ok_def pop_ko_def intro: part_nonneg)
    show "\<exists>row. (case p of (k, en) \<Rightarrow> case rl_id en of (scope, name, family) \<Rightarrow>
        builder_finish scope name family (window_ms e) (ec_percentiles (le_cfg e)) clone (rl_builder en)) = Inr row \<and>
        row_for (window_ms e) (ec_percentiles (le_cfg e)) R (rl_id (snd p)) row"
      using finish_rep [OF rep assms(2) nonneg, of s n f "window_ms e" clone]
      by (auto simp: p i row_for_def)
  qed
qed

section \<open>Errors, series, users\<close>

definition errors_of :: "(jstr \<Rightarrow> jstr \<Rightarrow> int) \<Rightarrow> (error_id \<times> jstr) list \<Rightarrow> (error_id \<times> jstr option \<times> int) list" where
  "errors_of lc E = concat (map (\<lambda>i. map (\<lambda>t. (i, et_message t, et_count t))
     (error_rollup_top lc 200 (fold error_rollup_add (obs_of i E) []))) (first_seen (map fst E)))"

lemma snapshot_errors_rep:
  assumes "ke.keyed_rep (le_errorsByKey e) E"
  shows "snapshot_errors lc e = errors_of lc E"
proof -
  let ?f = "\<lambda>i. map (\<lambda>t. (i, et_message t, et_count t)) (error_rollup_top lc 200 (fold error_rollup_add (obs_of i E) []))"
  have "snapshot_errors lc e = concat (map (\<lambda>p. ?f (ee_id (snd p))) (le_errorsByKey e))"
    unfolding snapshot_errors_def using assms
    by (intro arg_cong [of _ _ concat] map_cong) (auto simp: ke.keyed_rep_def)
  also have "\<dots> = concat (map ?f (map (\<lambda>p. ee_id (snd p)) (le_errorsByKey e)))" by (simp add: comp_def)
  also have "map (\<lambda>p. ee_id (snd p)) (le_errorsByKey e) = first_seen (map fst E)"
    using assms by (simp add: ke.keyed_rep_def)
  finally show ?thesis by (simp add: errors_of_def)
qed

definition series_for :: "engine_config \<Rightarrow> int \<Rightarrow> (row_id \<times> request_edge) list \<Rightarrow> row_id \<Rightarrow> jstr \<times> row_id \<times> int \<times> bucket list \<Rightarrow> bool" where
  "series_for c st X i z \<longleftrightarrow> (\<exists>s. z = (rollupKey i, i, bs_widthMs s, buckets s) \<and> bs_startMs s = st \<and>
     bs_maxBuckets s = max 1 (series_cap c i) \<and> series_rep s (mset (obs_of i X)))"

lemma snapshot_series_rep:
  assumes "kx.keyed_rep c st (le_series e) X"
  shows "list_all2 (series_for c st X) (first_seen (map fst X))
    (map (\<lambda>(k, en). (k, sn_id en, bs_widthMs (sn_series en), buckets (sn_series en))) (le_series e))"
proof -
  have "list_all2 (series_for c st X) (map (\<lambda>p. sn_id (snd p)) (le_series e))
    (map (\<lambda>(k, en). (k, sn_id en, bs_widthMs (sn_series en), buckets (sn_series en))) (le_series e))"
    unfolding list.rel_map using assms
    by (intro list.rel_refl_strong) (fastforce simp: kx.keyed_rep_def entry_rep_def series_for_def)
  then show ?thesis using assms by (simp add: kx.keyed_rep_def)
qed

definition deltas_of :: "jstr \<Rightarrow> (jstr \<times> user_kind \<times> int) list \<Rightarrow> user_delta list" where
  "deltas_of sc us = map (\<lambda>u. \<lparr>ud_tsMs = snd (snd u), ud_delta = (if fst (snd u) = UserStart then 1 else - 1)\<rparr>)
     (filter (\<lambda>u. fst u = sc) us)"

lemma user_series_events:
  "fold (\<lambda>(scenario, kind, tsMs). user_series_add scenario kind tsMs) us (new_user_series st cap) =
    \<lparr>us_startMs = st, us_maxBuckets = max 1 cap, us_events = map (\<lambda>sc. (sc, deltas_of sc us)) (first_seen (map fst us))\<rparr>"
proof (induction us rule: rev_induct)
  case Nil
  then show ?case by (simp add: new_user_series_def)
next
  case (snoc u us)
  obtain sc k ts where u: "u = (sc, k, ts)" by (cases u) auto
  let ?m = "map (\<lambda>sc. (sc, deltas_of sc us)) (first_seen (map fst us))"
  let ?d = "\<lparr>ud_tsMs = ts, ud_delta = (if k = UserStart then 1 else - 1)\<rparr>"
  have keys: "fst ` set ?m = fst ` set us" and ok: "jm_ok ?m" by (auto simp: image_image jm_ok_def comp_def)
  have "jm_set sc (jm_get_or [] ?m sc @ [?d]) ?m = map (\<lambda>x. (x, deltas_of x (us @ [u]))) (first_seen (map fst (us @ [u])))"
  proof (cases "sc \<in> fst ` set us")
    case False
    then have "jm_get ?m sc = None" "sc \<notin> fst ` set ?m" unfolding keys map_of_eq_None_iff by simp_all
    moreover have "deltas_of sc us = []" using False by (auto simp: deltas_of_def filter_empty_conv)
    ultimately show ?thesis
      using False by (auto simp: jm_set_new u first_seen_snoc set_insert_def jm_get_or_def deltas_of_def)
  next
    case True
    then have e: "(sc, deltas_of sc us) \<in> set ?m" by auto
    have "jm_get ?m sc = Some (deltas_of sc us)" using e ok by (simp add: jm_ok_def)
    then show ?thesis unfolding jm_get_or_def jm_set_old [OF ok e]
      using True by (auto simp: u first_seen_snoc set_insert_def deltas_of_def image_image)
  qed
  then show ?case using snoc by (simp add: u user_series_add_def)
qed

definition users_of :: "(jstr \<Rightarrow> jstr \<Rightarrow> int) \<Rightarrow> int \<Rightarrow> int \<Rightarrow> (jstr \<times> user_kind \<times> int) list \<Rightarrow> user_scenario list option" where
  "users_of lc st cap us = map_option (js_sort (\<lambda>a b. lc (uc_scenario a) (uc_scenario b)))
     (those (map (\<lambda>sc. map_option (\<lambda>(w, bs). \<lparr>uc_scenario = sc, uc_bucketWidthMs = w, uc_buckets = bs\<rparr>)
       (user_sweep st (max 1 cap) (deltas_of sc us))) (first_seen (map fst us))))"

lemma those_Some: "\<forall>x \<in> set xs. f x \<noteq> None \<Longrightarrow> \<exists>ys. those (map f xs) = Some ys"
  by (induction xs) auto

lemma users_return:
  assumes "2 \<le> cap \<or> (\<forall>u \<in> set us. st \<le> snd (snd u))"
  shows "\<exists>z. users_of lc st cap us = Some z"
proof -
  have "\<exists>r. user_sweep st (max 1 cap) (deltas_of sc us) = Some r" for sc
  proof -
    have "2 \<le> max 1 cap \<or> 1 \<le> max 1 cap \<and> (\<forall>e \<in> set (deltas_of sc us). st \<le> ud_tsMs e)"
      using assms by (auto simp: deltas_of_def)
    from user_sweep_rep [OF this refl] show ?thesis by metis
  qed
  then show ?thesis unfolding users_of_def by (metis (mono_tags, lifting) option.simps(9) option.distinct(1) those_Some)
qed

lemma snapshot_users_rep:
  "snapshot_users lc e = users_of lc (le_runStartMs e) (ec_maxBucketsUsers (le_cfg e)) (le_userEvents e)"
  by (simp add: snapshot_users_def user_series_events user_scenarios_def users_of_def comp_def)

section \<open>The failures drawn\<close>

lemma ranked_distinct:
  assumes "axis_rep time error_bucket_rep w m M"
  shows "distinct (map fst (take keep (js_sort (cmp_count_desc lc) (error_totals m))))"
proof -
  have "jm_ok (eb_counts b)" if "(i, b) \<in> set m" for i b
  proof -
    have "slot_rep error_bucket_rep (i * w) (jm_get m i) (in_slot time w i M)" "jm_get m i = Some b"
      using assms that unfolding axis_rep_def jm_ok_def by (blast, simp)
    then show ?thesis by (simp add: error_bucket_rep_def counts_rep_def)
  qed
  then have "jm_ok (error_totals m)"
    unfolding error_totals_def by (intro error_totals_ok) auto
  then show ?thesis unfolding jm_ok_def take_map [symmetric] by (intro distinct_take) simp
qed

lemma finish_draws:
  assumes "error_series_fit s M" and "is_width W" and "es_widthMs s \<le> W"
  shows "\<exists>z m. error_series_finish lc W keep s = Some (z, s\<lparr>es_widthMs := W, es_buckets := m\<rparr>) \<and> ez_bucketWidthMs z = W \<and>
    (\<forall>k. drawn (k * W) (ez_rows z) = int (size (in_slot (\<lambda>x. fl_tsMs x - es_startMs s) W k M)))"
proof -
  obtain m where m: "widen W (es_widthMs s) (es_buckets s) = Some (W, m)"
    "axis_rep (\<lambda>x. fl_tsMs x - es_startMs s) error_bucket_rep W m M"
    using finish_rep_errors [OF assms(1), of W] assms(2,3) by metis
  let ?rows = "gather (error_rows W (map fst (take keep (js_sort (cmp_count_desc lc) (error_totals m))))) (by_index m)"
  have "error_series_finish lc W keep s = Some (\<lparr>ez_bucketWidthMs = W, ez_rows = ?rows\<rparr>, s\<lparr>es_widthMs := W, es_buckets := m\<rparr>)"
    using m(1) by (simp add: error_series_finish_def Let_def)
  then show ?thesis
    using drawn_rows [OF m(2) is_width_pos [OF assms(2)] ranked_distinct [OF m(2), of keep lc]] by fastforce
qed

section \<open>The result\<close>

definition runnable :: "engine_config \<Rightarrow> meta_event \<Rightarrow> canonical_event list \<Rightarrow> bool" where
  "runnable c m evs \<longleftrightarrow> no_header evs \<and> stream_room c (me_startedAtMs m) evs \<and> list_all in_range (ec_percentiles c) \<and>
     (2 \<le> ec_maxBucketsUsers c \<or> (\<forall>u \<in> set (gather user_obs evs). me_startedAtMs m \<le> snd (snd u)))"

definition window_of :: "engine_config \<Rightarrow> int \<Rightarrow> request_event list \<Rightarrow> int" where
  "window_of c st rs = (if rs = [] then 0 else max 0 (Max (insert 0 (set (map rq_endMs rs))) -
     max (Min (set (map rq_startMs rs))) (st + ec_warmupMs c)))"

definition result_rep :: "(jstr \<Rightarrow> jstr \<Rightarrow> int) \<Rightarrow> engine_config \<Rightarrow> meta_event \<Rightarrow> canonical_event list \<Rightarrow> engine_result \<Rightarrow> bool" where
  "result_rep lc c m evs res \<longleftrightarrow>
     (let st = me_startedAtMs m; rs = gather requests_in evs; R = gather (row_obs st (ec_warmupMs c)) evs;
          X = gather series_obs evs; lastMs = Max (insert 0 (set (map rq_endMs rs))) in
      list_all2 (row_for (window_of c st rs) (ec_percentiles c) R) (first_seen (map fst R)) (xr_stats res) \<and>
      list_all2 (series_for c st X) (first_seen (map fst X)) (xr_series res) \<and>
      xr_errors res = errors_of lc (gather (error_obs st (ec_warmupMs c)) evs) \<and>
      users_of lc st (ec_maxBucketsUsers c) (gather user_obs evs) = Some (xr_users res) \<and>
      xr_endpointCount res = int (length (request_paths evs)) \<and>
      xr_runStartedAtMs res = Some st \<and> xr_simulation res = Some (me_simulation m) \<and> xr_description res = me_description m \<and>
      xr_durationMs res = (if lastMs = 0 then 0 else max 0 (lastMs - st)) \<and>
      xr_activityMs res = (if lastMs = 0 then 0 else window_of c st rs) \<and>
      map (\<lambda>e. (ev_assertion e, ev_outcome e)) (xr_toolAssertions res) =
        concat (map (expected_verdicts (xr_stats res)) (or_default (me_assertions m) [])))"

lemma row_obs_identity: "p \<in> set (row_obs st wu ev) \<Longrightarrow>
   fst p = (Run, [], ResponseTimeF) \<or> (\<exists>n. fst p = (Request, n, ResponseTimeF)) \<or>
   (\<exists>n f. fst p = (Group, n, f) \<and> f \<noteq> ResponseTimeF)"
  by (cases ev) (auto split: if_splits)

lemma list_all2_map_eq: "list_all2 P xs ys \<Longrightarrow> (\<And>x y. P x y \<Longrightarrow> f y = x) \<Longrightarrow> map f ys = xs"
  by (induction rule: list_all2_induct) auto

lemma list_all2_left: "list_all2 P xs ys \<Longrightarrow> x \<in> set xs \<Longrightarrow> \<exists>y \<in> set ys. P x y"
  by (induction rule: list_all2_induct) auto

lemma list_all2_right: "list_all2 P xs ys \<Longrightarrow> (\<And>x y. P x y \<Longrightarrow> Q y) \<Longrightarrow> \<forall>y \<in> set ys. Q y"
  by (induction rule: list_all2_induct) auto

lemma stats_shape:
  assumes "list_all2 (row_for w ps (gather (row_obs st wu) evs)) (first_seen (map fst (gather (row_obs st wu) evs))) stats"
  shows "map row_identity stats = first_seen (map fst (gather (row_obs st wu) evs))" "distinct (map row_identity stats)"
    "\<forall>r \<in> set stats. sr_family r = ResponseTimeF \<longrightarrow> sr_scope r \<noteq> Group" "\<forall>r \<in> set stats. has_population r"
proof -
  show ids: "map row_identity stats = first_seen (map fst (gather (row_obs st wu) evs))"
    using assms row_for_reads(1) by (rule list_all2_map_eq)
  then show "distinct (map row_identity stats)" by simp
  show "\<forall>r \<in> set stats. sr_family r = ResponseTimeF \<longrightarrow> sr_scope r \<noteq> Group"
  proof
    fix r assume "r \<in> set stats"
    then have "row_identity r \<in> set (first_seen (map fst (gather (row_obs st wu) evs)))"
      unfolding ids [symmetric] by simp
    then obtain ev p where "p \<in> set (row_obs st wu ev)" "row_identity r = fst p" by auto
    with row_obs_identity [OF this(1)] show "sr_family r = ResponseTimeF \<longrightarrow> sr_scope r \<noteq> Group"
      by (auto simp: row_identity_def)
  qed
  show "\<forall>r \<in> set stats. has_population r"
    using assms row_for_reads(2) by (rule list_all2_right)
qed

text \<open>The run's response-time series, which the failures are widened to.\<close>

definition run_id :: row_id where "run_id = (Run, [], ResponseTimeF)"

lemma obs_of_append [simp]: "obs_of i (A @ B) = obs_of i A @ obs_of i B"
  by (simp add: obs_of_def)

lemma obs_of_gather: "obs_of i (gather f evs) = gather (\<lambda>ev. obs_of i (f ev)) evs"
  by (induction evs) (simp_all add: obs_of_def)

lemma run_edges:
  "obs_of run_id (series_obs ev) = concat (map (\<lambda>r. [an_edge (rq_startMs r) (request_ms r) (rq_ok r) StartEdge,
     an_edge (rq_endMs r) (request_ms r) (rq_ok r) EndEdge]) (requests_in ev))"
  by (cases ev) (simp_all add: obs_of_def both_edges_def run_id_def)

lemma failure_edges:
  "map fst (failure_obs ev) = map re_tsMs (filter (\<lambda>x. re_edge x = EndEdge \<and> \<not> re_ok x) (obs_of run_id (series_obs ev)))"
  by (cases ev) (simp_all add: obs_of_def both_edges_def run_id_def an_edge_def)


text \<open>
  The failures drawn in a bucket of the run's series are the bucket's KO count, at the series' own width.
\<close>

definition bars_agree :: "engine_result \<Rightarrow> bool" where
  "bars_agree res \<longleftrightarrow> (\<forall>(k, i, w, bs) \<in> set (xr_series res). i = run_id \<longrightarrow>
     ez_bucketWidthMs (xr_errorSeries res) = w \<and>
     (\<forall>b \<in> set bs. drawn (bk_startOffsetMs b) (ez_rows (xr_errorSeries res)) = bk_koCount b))"

lemma gather_filter: "filter P (gather f evs) = gather (\<lambda>ev. filter P (f ev)) evs"
  by (induction evs) simp_all

lemma failure_times:
  "map fst (gather failure_obs evs) =
    map re_tsMs (filter (\<lambda>x. re_edge x = EndEdge \<and> \<not> re_ok x) (obs_of run_id (gather series_obs evs)))"
  by (induction evs) (simp_all add: failure_edges obs_of_gather)

lemma size_in_slot: "size (in_slot time w k M) = size (filter_mset (\<lambda>t. t div w = k) (image_mset time M))"
  by (simp add: in_slot_def filter_mset_image_mset)

lemma ko_in_bucket:
  assumes "image_mset fl_tsMs M = image_mset re_tsMs (edges EndEdge False Y)"
  shows "size (in_slot (\<lambda>x. fl_tsMs x - st) w k M) = size (edges EndEdge False (in_slot (\<lambda>x. re_tsMs x - st) w k Y))"
proof -
  have "image_mset (\<lambda>x. fl_tsMs x - st) M = image_mset (\<lambda>t. t - st) (image_mset fl_tsMs M)"
    by (simp add: image_mset.compositionality comp_def)
  also have "\<dots> = image_mset (\<lambda>x. re_tsMs x - st) (edges EndEdge False Y)"
    unfolding assms by (simp add: image_mset.compositionality comp_def)
  finally have "size (in_slot (\<lambda>x. fl_tsMs x - st) w k M) = size (in_slot (\<lambda>x. re_tsMs x - st) w k (edges EndEdge False Y))"
    by (simp add: size_in_slot)
  then show ?thesis by (simp add: in_slot_def edges_def filter_filter_mset conj_ac)
qed

lemma run_entry:
  assumes "kx.keyed_rep c st m X" and "run_id \<in> fst ` set X"
  obtains en where "jm_get m (rollupKey run_id) = Some en" "entry_rep c st en (obs_of run_id X)" "sn_id en = run_id"
  using kx.keyed_get [OF assms(1), of run_id] assms(2) by (auto split: option.splits)

lemma run_id_seen: "run_id \<in> fst ` set (gather series_obs evs) \<longleftrightarrow> gather requests_in evs \<noteq> []"
proof -
  have "run_id \<in> fst ` set (series_obs ev) \<longleftrightarrow> requests_in ev \<noteq> []" for ev
    by (cases ev) (simp_all add: both_edges_def run_id_def)
  then show ?thesis by (induction evs) (simp_all add: image_Un)
qed

lemma snapshot_errors_drawn:
  assumes rep: "engine_rep c m evs e" and room: "stream_room c (me_startedAtMs m) evs"
  shows "\<exists>z e'. snapshot_error_series lc e = Some (z, e') \<and>
    (\<forall>(k, en) \<in> set (le_series e). sn_id en = run_id \<longrightarrow> ez_bucketWidthMs z = bs_widthMs (sn_series en) \<and>
     (\<forall>b \<in> set (buckets (sn_series en)). drawn (bk_startOffsetMs b) (ez_rows z) = bk_koCount b))"
proof -
  let ?st = "me_startedAtMs m" and ?X = "gather series_obs evs" and ?F = "gather failure_obs evs"
  have acc: "kx.keyed_rep c ?st (le_series e) ?X" "failures_rep e ?F" and cfg: "le_cfg e = c" "le_runStartMs e = ?st"
    using rep by (auto simp: engine_rep_def acc_def)
  show ?thesis
  proof (cases "gather requests_in evs = []")
    case True
    then have "obs_of run_id ?X = []" by (intro obs_of_none) (simp only: run_id_seen, simp)
    then have "?F = []" using failure_times [of evs] by simp
    then have "le_errorSeries e = None" using acc(2) by (simp add: failures_rep_def split: option.splits)
    then have "\<exists>z e'. snapshot_error_series lc e = Some (z, e')" by (simp add: snapshot_error_series_def)
    moreover have "sn_id en \<noteq> run_id" if en: "(k, en) \<in> set (le_series e)" for k en
    proof -
      have "sn_id en \<in> set (map (\<lambda>p. sn_id (snd p)) (le_series e))" using en by force
      then have "sn_id en \<in> fst ` set ?X" using acc(1) by (simp only: kx.keyed_rep_def) simp
      then show ?thesis using True run_id_seen [of evs] by metis
    qed
    ultimately show ?thesis by fast
  next
    case False
    then have "run_id \<in> fst ` set ?X" by (simp only: run_id_seen) simp
    from run_entry [OF acc(1) this] obtain en where
      en: "jm_get (le_series e) (rollupKey run_id) = Some en" "entry_rep c ?st en (obs_of run_id ?X)" "sn_id en = run_id" .
    let ?s = "sn_series en" and ?Y = "mset (obs_of run_id ?X)"
    define w where "w = bs_widthMs ?s"
    have series: "series_rep ?s ?Y" "bs_startMs ?s = ?st" "bs_maxBuckets ?s = max 1 (ec_maxBucketsRun c)"
      using en(2,3) by (simp_all add: entry_rep_def run_id_def)
    have "le_runResponseSeries e = Some (rollupKey run_id)"
      using rep False by (simp only: engine_rep_def Let_def if_False run_id_def)
    then have width: "run_width e = w" "is_width w" "0 < w"
      using en(1) series_rep_width [OF series(1)] by (simp_all add: run_width_def w_def)
    have times: "mset (map fst ?F) = image_mset re_tsMs (edges EndEdge False ?Y)"
      unfolding failure_times by (simp add: edges_def conj_commute)
    have "\<exists>z e' (M :: failure multiset). snapshot_error_series lc e = Some (z, e') \<and> ez_bucketWidthMs z = w \<and>
        image_mset fl_tsMs M = image_mset re_tsMs (edges EndEdge False ?Y) \<and>
        (\<forall>k. drawn (k * w) (ez_rows z) = int (size (in_slot (\<lambda>x. fl_tsMs x - ?st) w k M)))"
    proof (cases "le_errorSeries e")
      case None
      then have "?F = []" using acc(2) by (simp add: failures_rep_def)
      with None width(1) times show ?thesis
        by (intro exI [of _ "{#}"] exI [of _ e] exI [of _ "\<lparr>ez_bucketWidthMs = w, ez_rows = []\<rparr>"])
          (auto simp: snapshot_error_series_def drawn_def in_slot_def)
    next
      case (Some s)
      then have add: "add_failures ?F (new_error_series ?st (ec_maxBucketsRun c)) = Some s"
        using acc(2) cfg by (simp add: failures_rep_def)
      have "2 \<le> ec_maxBucketsRun c \<or> (\<forall>f \<in> set ?F. ?st \<le> fst f)"
        using failures_room [OF room] .
      from add_failures_new [OF this] add obtain M where M: "error_series_rep s M" "image_mset event_of M = mset ?F"
        "es_startMs s = ?st" "es_maxBuckets s = max 1 (ec_maxBucketsRun c)" by (metis option.inject)
      have fst: "image_mset fl_tsMs M = mset (map fst ?F)"
        using arg_cong [OF M(2), of "image_mset fst"] by (simp add: image_mset.compositionality comp_def event_of_def)
      then have "fl_tsMs ` set_mset M = re_tsMs ` set_mset (edges EndEdge False ?Y)" unfolding times by (metis set_image_mset)
      then have "fl_tsMs ` set_mset M \<subseteq> re_tsMs ` set (obs_of run_id ?X)" by (auto simp: edges_def)
      then have "es_widthMs s \<le> w" unfolding w_def using series M by (intro failures_width_le) simp_all
      from finish_draws [OF M(1) [unfolded error_series_rep_def, THEN conjunct1] width(2) this, of lc ERROR_SERIES_KEEP] obtain z m where
        z: "error_series_finish lc w ERROR_SERIES_KEEP s = Some (z, s\<lparr>es_widthMs := w, es_buckets := m\<rparr>)"
          "ez_bucketWidthMs z = w" "\<And>k. drawn (k * w) (ez_rows z) = int (size (in_slot (\<lambda>x. fl_tsMs x - ?st) w k M))"
        unfolding M(3) by blast
      then have "snapshot_error_series lc e = Some (z, e\<lparr>le_errorSeries := Some (s\<lparr>es_widthMs := w, es_buckets := m\<rparr>)\<rparr>)"
        using Some width(1) by (simp add: snapshot_error_series_def)
      moreover have "image_mset fl_tsMs M = image_mset re_tsMs (edges EndEdge False ?Y)" using fst times by simp
      ultimately show ?thesis using z(2,3)
        by (intro exI [of _ z] exI [of _ "e\<lparr>le_errorSeries := Some (s\<lparr>es_widthMs := w, es_buckets := m\<rparr>)\<rparr>"]
          exI [of _ M] conjI allI)
    qed
    then obtain z e' and M :: "failure multiset" where z: "snapshot_error_series lc e = Some (z, e')" "ez_bucketWidthMs z = w"
      "image_mset fl_tsMs M = image_mset re_tsMs (edges EndEdge False ?Y)"
      "\<And>k. drawn (k * w) (ez_rows z) = int (size (in_slot (\<lambda>x. fl_tsMs x - ?st) w k M))" by blast
    have bar: "drawn (bk_startOffsetMs b) (ez_rows z) = bk_koCount b" if b: "b \<in> set (buckets ?s)" for b
    proof -
      have "bk_startOffsetMs b \<in> set (map bk_startOffsetMs (buckets ?s))" using b by simp
      then obtain k where k: "bk_startOffsetMs b = k * w"
        unfolding buckets_rep(1) [OF series(1)] w_def by auto
      have "filter_mset (\<lambda>x. (re_tsMs x - ?st) div w * w = k * w) ?Y = in_slot (\<lambda>x. re_tsMs x - ?st) w k ?Y"
        using width(3) unfolding in_slot_def by (intro filter_mset_cong) auto
      then have "bk_koCount b = int (size (edges EndEdge False (in_slot (\<lambda>x. re_tsMs x - ?st) w k ?Y)))"
        using buckets_rep(2) [OF series(1) b] unfolding k series(2) w_def [symmetric] by (simp add: bucket_rep_def)
      then show ?thesis using z(4) [of k] ko_in_bucket [OF z(3), of ?st w k] unfolding k by simp
    qed
    have only: "en' = en" if "(k, en') \<in> set (le_series e)" "sn_id en' = run_id" for k en'
    proof -
      have "jm_ok (le_series e)" by (rule kx.keyed_rep_keys(1) [OF acc(1)])
      moreover have "k = rollupKey run_id" using that acc(1) by (force simp: kx.keyed_rep_def)
      ultimately have "jm_get (le_series e) (rollupKey run_id) = Some en'" using that(1) by (simp add: jm_ok_def)
      then show ?thesis using en(1) by simp
    qed
    show ?thesis using z(1,2) bar only unfolding w_def by (intro exI [of _ z] exI [of _ e']) fast
  qed
qed


text \<open>One snapshot of an engine that has seen a stream.\<close>

lemma snapshot_rep:
  assumes rep: "engine_rep c m evs e" and run: "runnable c m evs"
  shows "\<exists>res e'. engine_snapshot lc clone e = Some (Inr (res, e')) \<and> result_rep lc c m evs res \<and> bars_agree res"
proof -
  let ?st = "me_startedAtMs m" and ?rs = "gather requests_in evs"
  let ?R = "gather (row_obs ?st (ec_warmupMs c)) evs" and ?X = "gather series_obs evs"
  have acc: "kr.keyed_rep (le_rollups e) ?R" "kx.keyed_rep c ?st (le_series e) ?X"
    "ke.keyed_rep (le_errorsByKey e) (gather (error_obs ?st (ec_warmupMs c)) evs)"
    and cfg: "le_cfg e = c" "le_runStartMs e = ?st" using rep by (auto simp: engine_rep_def acc_def)
  have window: "window_ms e = window_of c ?st ?rs"
  proof -
    have "(case f of None \<Rightarrow> 0 | Some first \<Rightarrow> max 0 (Max (insert 0 (set (map rq_endMs rs))) - max first (?st + ec_warmupMs c))) =
        window_of c ?st rs" if "f = (if rs = [] then None else Some (Min (set (map rq_startMs rs))))" for f rs
      using that by (cases "rs = []") (simp_all add: window_of_def)
    then show ?thesis using rep by (simp only: engine_rep_def Let_def window_ms_def)
  qed
  obtain stats where stats: "snapshot_stats clone e = Inr stats"
    "list_all2 (row_for (window_of c ?st ?rs) (ec_percentiles c) ?R) (first_seen (map fst ?R)) stats"
    using snapshot_stats_rep [OF acc(1), of clone] run unfolding cfg window runnable_def by blast
  obtain verdicts where verdicts: "evaluateToolAssertions (le_declaredAssertions e) stats = Inr verdicts"
    "map (\<lambda>e. (ev_assertion e, ev_outcome e)) verdicts = concat (map (expected_verdicts stats) (le_declaredAssertions e))"
    using judge_rows [OF stats_shape(2-4) [OF stats(2)]] by blast
  obtain users where users: "users_of lc ?st (ec_maxBucketsUsers c) (gather user_obs evs) = Some users"
    using users_return [of "ec_maxBucketsUsers c" "gather user_obs evs" ?st lc] run unfolding runnable_def by blast
  have "stream_room c ?st evs" using run by (simp add: runnable_def)
  from snapshot_errors_drawn [OF rep this] obtain z e' where z: "snapshot_error_series lc e = Some (z, e')"
    "\<forall>(k, en) \<in> set (le_series e). sn_id en = run_id \<longrightarrow> ez_bucketWidthMs z = bs_widthMs (sn_series en) \<and>
     (\<forall>b \<in> set (buckets (sn_series en)). drawn (bk_startOffsetMs b) (ez_rows z) = bk_koCount b)" by blast
  have user_events: "le_userEvents e = gather user_obs evs" using rep by (simp add: engine_rep_def)
  have last: "le_lastMs e = Max (insert 0 (set (map rq_endMs ?rs)))" using rep by (simp only: engine_rep_def Let_def)
  have "\<exists>res. engine_snapshot lc clone e = Some (Inr (res, e')) \<and> xr_stats res = stats \<and>
    xr_series res = map (\<lambda>(k, en). (k, sn_id en, bs_widthMs (sn_series en), buckets (sn_series en))) (le_series e) \<and>
    xr_users res = users \<and> xr_errors res = snapshot_errors lc e \<and> xr_errorSeries res = z \<and>
    xr_endpointCount res = int (length (le_endpoints e)) \<and> xr_runStartedAtMs res = Some ?st \<and>
    xr_simulation res = le_simulation e \<and> xr_description res = le_description e \<and>
    xr_durationMs res = (if le_lastMs e = 0 then 0 else max 0 (le_lastMs e - ?st)) \<and>
    xr_activityMs res = (if le_lastMs e = 0 then 0 else window_of c ?st ?rs) \<and> xr_toolAssertions res = verdicts"
    using z(1) users user_events stats(1) verdicts(1) window cfg rep
    by (simp add: engine_snapshot_def snapshot_users_rep) (simp add: engine_rep_def)
  then obtain res where res: "engine_snapshot lc clone e = Some (Inr (res, e'))" "xr_stats res = stats"
    "xr_series res = map (\<lambda>(k, en). (k, sn_id en, bs_widthMs (sn_series en), buckets (sn_series en))) (le_series e)"
    "xr_users res = users" "xr_errors res = snapshot_errors lc e" "xr_errorSeries res = z"
    "xr_endpointCount res = int (length (le_endpoints e))" "xr_runStartedAtMs res = Some ?st"
    "xr_simulation res = le_simulation e" "xr_description res = le_description e"
    "xr_durationMs res = (if le_lastMs e = 0 then 0 else max 0 (le_lastMs e - ?st))"
    "xr_activityMs res = (if le_lastMs e = 0 then 0 else window_of c ?st ?rs)" "xr_toolAssertions res = verdicts" by blast
  have "result_rep lc c m evs res"
    using stats(2) snapshot_series_rep [OF acc(2)] snapshot_errors_rep [OF acc(3), of lc] users verdicts(2) rep
    unfolding result_rep_def Let_def res(2-) last by (simp add: engine_rep_def)
  moreover have "bars_agree res" using z(2) unfolding bars_agree_def res(3,6) by auto
  ultimately show ?thesis using res(1) by blast
qed

lemma run_result:
  assumes "runnable (engine_config_of opts) m evs" and "fits (engine_config_of opts) evs"
  shows "\<exists>res. runEngine lc (MetaE m # evs) opts = Some (EngineDone res) \<and>
    result_rep lc (engine_config_of opts) m evs res \<and> bars_agree res"
proof -
  have "\<exists>e. engine_fold evs (add_meta m (new_engine opts)) = Some (Inr e) \<and> engine_rep (engine_config_of opts) m evs e"
    using engine_fold_rep [OF engine_rep_start, of opts m evs] assms by (simp add: runnable_def)
  then obtain e where e: "engine_fold evs (add_meta m (new_engine opts)) = Some (Inr e)"
    "engine_rep (engine_config_of opts) m evs e" by blast
  from snapshot_rep [OF e(2) assms(1), of lc False] e(1) show ?thesis
    by (auto simp: runEngine_def engine_add_def)
qed

end
