(* ===== verification/LiveErrors.thy ===== *)
theory LiveErrors
  imports Errors
begin

text \<open>
  The rows of the error series are a function of the failures and of the width they are finished at:
  how wide the accumulator had become on the way leaves no trace. This is why reading a live run,
  which widens the accumulator in place, does not change what it reports at the end.
\<close>

section \<open>A strict comparison sorts uniquely\<close>

definition strict_cmp :: "('a \<Rightarrow> 'a \<Rightarrow> int) \<Rightarrow> bool" where
  "strict_cmp c \<longleftrightarrow> consistent_cmp c \<and> (\<forall>a b. c a b \<le> 0 \<and> c b a \<le> 0 \<longrightarrow> a = b)"

lemma sorted_unique:
  assumes "\<forall>a b. c a b \<le> (0 :: int) \<and> c b a \<le> 0 \<longrightarrow> a = b"
    and "sorted_wrt (\<lambda>a b. c a b \<le> 0) xs" and "sorted_wrt (\<lambda>a b. c a b \<le> 0) ys" and "mset xs = mset ys"
  shows "xs = ys"
  using assms(2-4)
proof (induction xs arbitrary: ys)
  case Nil
  then show ?case by simp
next
  case (Cons x xs)
  then obtain y zs where ys: "ys = y # zs" by (cases ys) auto
  have "x \<in> set ys" "y \<in> set (x # xs)" using Cons.prems(3) ys by (metis list.set_intros(1) mset_eq_setD)+
  then have "x = y" using Cons.prems(1,2) assms(1) unfolding ys by auto
  with Cons ys show ?case by simp
qed

lemma js_sort_unique:
  assumes "strict_cmp c" and "mset xs = mset ys"
  shows "js_sort c xs = js_sort c ys"
  using assms consistent_cmp.js_sort_sorted [of c]
  by (intro sorted_unique [of c]) (simp_all add: strict_cmp_def)

lemma strict_desc: "strict_cmp lc \<Longrightarrow> strict_cmp (cmp_count_desc lc)"
proof -
  assume lc: "strict_cmp lc"
  have "a = b" if "cmp_count_desc lc a b \<le> 0" "cmp_count_desc lc b a \<le> 0" for a b
    using that lc by (auto simp: strict_cmp_def cmp_count_desc_def cmp_then_def prod_eq_iff split: if_splits)
  then show ?thesis using lc consistent_desc by (auto simp: strict_cmp_def)
qed

lemma strict_units: "strict_cmp cmp_units"
  using by_units.consistent_cmp_axioms by (auto simp: strict_cmp_def cmp_units_def split: if_splits)

section \<open>The rows of a population\<close>

text \<open>The bars of one slot, from the failures in it.\<close>

definition slot_rows :: "int \<Rightarrow> jstr list \<Rightarrow> failure multiset \<Rightarrow> int \<Rightarrow> error_series_row list" where
  "slot_rows w ranked S i =
     (let other = int (size (turned_away S)) + int (size (filter_mset (\<lambda>m. m \<notin> set ranked) (admitted S)))
      in concat (map (\<lambda>m. if m \<in># admitted S
             then [\<lparr>er_startOffsetMs = i * w, er_message = Some m, er_count = int (count (admitted S) m)\<rparr>] else []) ranked) @
         (if 0 < other then [\<lparr>er_startOffsetMs = i * w, er_message = None, er_count = other\<rparr>] else []))"

lemma some_if: "(case if P then Some x else None of None \<Rightarrow> z | Some n \<Rightarrow> f n) = (if P then f x else z)"
  by simp

lemma error_rows_of_slot:
  assumes "error_bucket_rep off b S"
  shows "error_rows w ranked (i, b) = slot_rows w ranked S i"
proof -
  have c: "counts_rep (eb_counts b) (admitted S)" and o: "eb_overflow b = int (size (turned_away S))"
    using assms by (simp_all add: error_bucket_rep_def)
  then have get: "jm_get (eb_counts b) m = (if m \<in># admitted S then Some (int (count (admitted S) m)) else None)" for m
    by (simp add: counts_rep_def)
  show ?thesis
    by (simp add: error_rows_def slot_rows_def Let_def get o some_if counts_rep_filter_sum [OF c, of "\<lambda>m. m \<notin> set ranked"])
qed

lemma error_totals_rep:
  assumes "axis_rep time error_bucket_rep w m M"
  shows "counts_rep (error_totals m) (admitted M)"
proof -
  have b: "error_bucket_rep (i * w) b (in_slot time w i M)" if "(i, b) \<in> set m" for i b
  proof -
    have "slot_rep error_bucket_rep (i * w) (jm_get m i) (in_slot time w i M)" "jm_get m i = Some b"
      using assms that unfolding axis_rep_def jm_ok_def by (blast, simp)
    then show ?thesis by simp
  qed
  have "counts_rep (fold (\<lambda>(i, b) t. add_counts (eb_counts b) t) es t) (T + (\<Sum>e \<leftarrow> es. admitted (in_slot time w (fst e) M)))"
    if "set es \<subseteq> set m" "counts_rep t T" for es t T
    using that
  proof (induction es arbitrary: t T)
    case Nil
    then show ?case by simp
  next
    case (Cons e es)
    obtain i bk where e: "e = (i, bk)" by fastforce
    have "counts_rep (eb_counts bk) (admitted (in_slot time w i M))"
      using b [of i bk] Cons.prems(1) by (simp add: e error_bucket_rep_def)
    from Cons.IH [OF _ counts_rep_add [OF this Cons.prems(2)]] Cons.prems(1) show ?case by (simp add: e add.assoc)
  qed
  from this [of m "[]" "{#}"] have
    "counts_rep (error_totals m) (\<Sum>i \<leftarrow> map fst m. admitted (in_slot time w i M))"
    by (simp add: error_totals_def comp_def)
  also have "(\<Sum>i \<leftarrow> map fst m. admitted (in_slot time w i M)) = admitted M"
  proof -
    have sums: "(\<Sum>i \<leftarrow> is. admitted (in_slot time w i M)) = admitted (filter_mset (\<lambda>x. time x div w \<in> set is) M)"
      if "distinct is" for "is"
      using that
    proof (induction "is")
      case Nil
      then show ?case by (simp add: admitted_def)
    next
      case (Cons i js)
      have "filter_mset (\<lambda>x. time x div w \<in> set (i # js)) M = in_slot time w i M + filter_mset (\<lambda>x. time x div w \<in> set js) M"
        unfolding in_slot_def using Cons.prems by (induction M) auto
      with Cons show ?case by (simp add: admitted_def)
    qed
    have "distinct (map fst m)" using assms by (simp add: axis_rep_def jm_ok_def)
    moreover have "filter_mset (\<lambda>x. time x div w \<in> set (map fst m)) M = M"
      using axis_rep_keys [OF assms] by (simp add: filter_mset_eq_conv)
    ultimately show ?thesis using sums [of "map fst m"] by (simp only:)
  qed
  finally show ?thesis .
qed

lemma counts_rep_unique: "counts_rep a M \<Longrightarrow> counts_rep b M \<Longrightarrow> mset a = mset b"
proof -
  assume ab: "counts_rep a M" "counts_rep b M"
  then have "distinct a" "distinct b" by (auto simp: counts_rep_def jm_ok_def distinct_map)
  moreover have "set a = set b" using counts_rep_entry [OF ab(1)] counts_rep_entry [OF ab(2)] by auto
  ultimately show ?thesis by (simp add: set_eq_iff_mset_eq_distinct)
qed

lemma rows_determined:
  assumes "axis_rep time error_bucket_rep w m M" and "axis_rep time error_bucket_rep w m' M" and "strict_cmp lc"
  shows "concat (map (error_rows w (map fst (take keep (js_sort (cmp_count_desc lc) (error_totals m))))) (by_index m)) =
    concat (map (error_rows w (map fst (take keep (js_sort (cmp_count_desc lc) (error_totals m'))))) (by_index m'))"
proof -
  have ranked: "js_sort (cmp_count_desc lc) (error_totals m) = js_sort (cmp_count_desc lc) (error_totals m')"
    using counts_rep_unique error_totals_rep assms by (intro js_sort_unique strict_desc) blast+
  have rows: "concat (map (error_rows w ranked) (by_index n)) =
      concat (map (\<lambda>i. slot_rows w ranked (in_slot time w i M) i) (sorted_list_of_set ((\<lambda>x. time x div w) ` set_mset M)))"
    if n: "axis_rep time error_bucket_rep w n M" for n ranked
  proof -
    have ok: "jm_ok n" using n by (simp add: axis_rep_def)
    have entry: "error_rows w ranked e = slot_rows w ranked (in_slot time w (fst e) M) (fst e)" if "e \<in> set n" for e
    proof -
      have "slot_rep error_bucket_rep (fst e * w) (jm_get n (fst e)) (in_slot time w (fst e) M)" "jm_get n (fst e) = Some (snd e)"
        using n ok that unfolding axis_rep_def jm_ok_def by (blast, simp)
      then have "error_bucket_rep (fst e * w) (snd e) (in_slot time w (fst e) M)" by simp
      from error_rows_of_slot [OF this, of w ranked "fst e"] show ?thesis by simp
    qed
    have "map (error_rows w ranked) (by_index n) =
        map (\<lambda>i. slot_rows w ranked (in_slot time w i M) i) (map fst (by_index n))"
      using entry by simp
    moreover have "map fst (by_index n) = sorted_list_of_set (fst ` set n)"
      using ok by (simp add: by_index_def js_sort_by map_sort_key jm_ok_def)
        (metis distinct_remdups_id set_map sorted_list_of_set_sort_remdups)
    ultimately show ?thesis by (simp add: axis_rep_keys [OF n])
  qed
  show ?thesis unfolding ranked rows [OF assms(1)] rows [OF assms(2)] ..
qed

end
