(* ===== verification/LiveSnapshots.thy ===== *)
theory LiveSnapshots
  imports EngineResult LiveErrors
begin

text \<open>
  A live run is read while it is folded. A snapshot changes one thing in the engine, the width of
  the error series; this theory shows that it leaves no trace in anything the engine returns later.
\<close>

datatype live_op = AddEvent canonical_event | TakeSnapshot bool
datatype live_stop = AddThrew engine_error | SnapshotThrew stat_error

fun live_run :: "(jstr \<Rightarrow> jstr \<Rightarrow> int) \<Rightarrow> live_op list \<Rightarrow> live_engine \<Rightarrow> (live_stop + live_engine) option" where
  "live_run lc [] e = Some (Inr e)"
| "live_run lc (AddEvent ev # ops) e = (case engine_add ev e of
     None \<Rightarrow> None
   | Some (Inl (err, _)) \<Rightarrow> Some (Inl (AddThrew err))
   | Some (Inr e') \<Rightarrow> live_run lc ops e')"
| "live_run lc (TakeSnapshot clone # ops) e = (case engine_snapshot lc clone e of
     None \<Rightarrow> None
   | Some (Inl err) \<Rightarrow> Some (Inl (SnapshotThrew err))
   | Some (Inr (_, e')) \<Rightarrow> live_run lc ops e')"

fun events_of :: "live_op list \<Rightarrow> canonical_event list" where
  "events_of [] = []"
| "events_of (AddEvent ev # ops) = ev # events_of ops"
| "events_of (TakeSnapshot _ # ops) = events_of ops"

section \<open>The error series is the only difference\<close>

abbreviation with_errors :: "error_series option \<Rightarrow> live_engine \<Rightarrow> live_engine" where
  "with_errors x e \<equiv> e\<lparr>le_errorSeries := x\<rparr>"

lemma map_bind: "map_option f (Option.bind m g) = Option.bind m (\<lambda>x. map_option f (g x))"
  "Option.bind (map_option k n) h = Option.bind n (\<lambda>x. h (k x))"
  by (cases m; simp) (cases n; simp)

lemma with_errors_comm:
  "(with_errors x e)\<lparr>le_rollups := r\<rparr> = with_errors x (e\<lparr>le_rollups := r\<rparr>)"
  "(with_errors x e)\<lparr>le_errorsByKey := er\<rparr> = with_errors x (e\<lparr>le_errorsByKey := er\<rparr>)"
  "(with_errors x e)\<lparr>le_series := sr\<rparr> = with_errors x (e\<lparr>le_series := sr\<rparr>)"
  "(with_errors x e)\<lparr>le_userEvents := us\<rparr> = with_errors x (e\<lparr>le_userEvents := us\<rparr>)"
  "(with_errors x e)\<lparr>le_endpoints := a, le_firstMs := b, le_lastMs := c, le_runResponseSeries := d\<rparr> =
    with_errors x (e\<lparr>le_endpoints := a, le_firstMs := b, le_lastMs := c, le_runResponseSeries := d\<rparr>)"
  by (cases e; simp)+

lemma with_errors_steps:
  "add_rollup i d ok (with_errors x e) = map_option (with_errors x) (add_rollup i d ok e)"
  "add_error j msg (with_errors x e) = map_option (with_errors x) (add_error j msg e)"
  "add_series i cap ts v ok ed (with_errors x e) = map_option (with_errors x) (add_series i cap ts v ok ed e)"
  "in_warmup ts (with_errors x e) = in_warmup ts e"
  by (simp_all add: add_rollup_def add_error_def add_series_def in_warmup_def option.map_comp comp_def with_errors_comm)

lemma with_errors_both:
  "add_both i cap t1 t2 v ok (with_errors x e) = map_option (with_errors x) (add_both i cap t1 t2 v ok e)"
  by (simp add: add_both_def with_errors_steps map_bind)

lemma with_errors_group: "add_group g (with_errors x e) = map_option (with_errors x) (add_group g e)"
  by (simp add: add_group_def Let_def with_errors_both with_errors_steps map_bind if_distrib [of "map_option _"] cong: if_cong)

text \<open>A request, split at the failure it may add.\<close>

definition request_before :: "request_event \<Rightarrow> live_engine \<Rightarrow> live_engine option" where
  "request_before r e = (let name = request_path r; duration = rq_endMs r - rq_startMs r;
     e = e\<lparr>le_endpoints := set_insert name (le_endpoints e)\<rparr>;
     e = e\<lparr>le_firstMs := Some (case le_firstMs e of None \<Rightarrow> rq_startMs r | Some f \<Rightarrow> min f (rq_startMs r)),
           le_lastMs := max (le_lastMs e) (rq_endMs r), le_runResponseSeries := Some (rollupKey (Run, [], ResponseTimeF))\<rparr>
    in Option.bind (add_both (Run, [], ResponseTimeF) (ec_maxBucketsRun (le_cfg e)) (rq_startMs r) (rq_endMs r) duration (rq_ok r) e) (\<lambda>e.
       add_both (Request, name, ResponseTimeF) (ec_maxBucketsEndpoint (le_cfg e)) (rq_startMs r) (rq_endMs r) duration (rq_ok r) e))"

definition request_after :: "request_event \<Rightarrow> live_engine \<Rightarrow> live_engine option" where
  "request_after r e = (let name = request_path r; duration = rq_endMs r - rq_startMs r in
    if in_warmup (rq_startMs r) e then Some e
    else Option.bind (add_rollup (Run, [], ResponseTimeF) duration (rq_ok r) e) (\<lambda>e.
         Option.bind (add_rollup (Request, name, ResponseTimeF) duration (rq_ok r) e) (\<lambda>e.
         if rq_ok r then Some e
         else Option.bind (add_error (Run, []) (errorMessageOf (rq_message r)) e)
                (add_error (Request, name) (errorMessageOf (rq_message r))))))"

lemma request_split:
  "add_request r e = (if ec_maxEndpoints (le_cfg e) < int (length (set_insert (request_path r) (le_endpoints e)))
    then Some (Inl (EndpointCardinalityExceeded (ec_maxEndpoints (le_cfg e)) (last_five (set_insert (request_path r) (le_endpoints e))),
      e\<lparr>le_endpoints := set_insert (request_path r) (le_endpoints e)\<rparr>))
    else map_option Inr (Option.bind (request_before r e) (\<lambda>e.
      Option.bind (if rq_ok r then Some e else add_failure (rq_endMs r) (errorMessageOf (rq_message r)) e) (request_after r))))"
  by (simp add: add_request_def request_before_def request_after_def [abs_def] Let_def Option.bind_assoc)

lemma with_errors_before: "request_before r (with_errors x e) = map_option (with_errors x) (request_before r e)"
  by (simp add: request_before_def Let_def map_bind with_errors_both with_errors_comm)

lemma with_errors_after: "request_after r (with_errors x e) = map_option (with_errors x) (request_after r e)"
  by (simp add: request_after_def Let_def with_errors_steps map_bind if_distrib [of "map_option _"] cong: if_cong)

lemma before_keeps: "request_before r e = Some e' \<Longrightarrow>
  le_errorSeries e' = le_errorSeries e \<and> le_cfg e' = le_cfg e \<and> le_runStartMs e' = le_runStartMs e"
  by (auto simp: request_before_def Let_def add_both_def add_series_def bind_eq_Some_conv)

section \<open>Two engines that saw the same events\<close>

definition failures_seen :: "canonical_event list \<Rightarrow> (int \<times> jstr) list" where
  "failures_seen evs = gather failure_obs evs"

text \<open>
  \<open>e\<close> is \<open>e0\<close> with an error series that may have been widened, never beyond the width of the run.
\<close>

definition twin :: "engine_config \<Rightarrow> int \<Rightarrow> int \<Rightarrow> (int \<times> jstr) list \<Rightarrow> error_series \<Rightarrow> error_series \<Rightarrow> bool" where
  "twin c st W F s s0 \<longleftrightarrow> es_startMs s = st \<and> es_startMs s0 = st \<and> es_maxBuckets s = max 1 (ec_maxBucketsRun c) \<and>
     es_maxBuckets s0 = max 1 (ec_maxBucketsRun c) \<and> es_tracked s = es_tracked s0 \<and> es_widthMs s \<le> W \<and> es_widthMs s0 \<le> W \<and>
     (\<exists>M. error_series_fit s M \<and> error_series_fit s0 M \<and> image_mset event_of M = mset F)"

definition live_rep :: "engine_config \<Rightarrow> meta_event \<Rightarrow> canonical_event list \<Rightarrow> live_engine \<Rightarrow> live_engine \<Rightarrow> bool" where
  "live_rep c m evs e0 e \<longleftrightarrow> engine_rep c m evs e0 \<and> (case le_errorSeries e0 of None \<Rightarrow> e = e0
     | Some s0 \<Rightarrow> \<exists>s. e = with_errors (Some s) e0 \<and> twin c (me_startedAtMs m) (run_width e0) (failures_seen evs) s s0)"

text \<open>The run's series bounds every width its failures can need.\<close>

definition run_fits :: "engine_config \<Rightarrow> int \<Rightarrow> int \<Rightarrow> (int \<times> jstr) list \<Rightarrow> bool" where
  "run_fits c st W F \<longleftrightarrow> is_width W \<and>
     int (card ((\<lambda>f. (fst f - st) div W) ` set F)) \<le> max 1 (ec_maxBucketsRun c)"

lemma run_series:
  assumes "engine_rep c m evs e" and "gather requests_in evs \<noteq> []"
  obtains s where "run_width e = bs_widthMs s" "series_rep s (mset (obs_of run_id (gather series_obs evs)))"
    "bs_startMs s = me_startedAtMs m" "bs_maxBuckets s = max 1 (ec_maxBucketsRun c)"
proof -
  have kx: "kx.keyed_rep c (me_startedAtMs m) (le_series e) (gather series_obs evs)"
    using assms(1) by (auto simp: engine_rep_def acc_def)
  have key: "le_runResponseSeries e = Some (rollupKey run_id)"
    using assms by (simp only: engine_rep_def Let_def if_False run_id_def)
  have "run_id \<in> fst ` set (gather series_obs evs)" using assms(2) by (simp only: run_id_seen) simp
  from run_entry [OF kx this] obtain en where
    en: "jm_get (le_series e) (rollupKey run_id) = Some en" "entry_rep c (me_startedAtMs m) en (obs_of run_id (gather series_obs evs))"
      "sn_id en = run_id" .
  show thesis
    using en key by (intro that [of "sn_series en"]) (simp_all add: run_width_def entry_rep_def run_id_def)
qed

lemma failure_needs_request: "failures_seen evs \<noteq> [] \<Longrightarrow> gather requests_in evs \<noteq> []"
proof -
  have "requests_in ev = [] \<Longrightarrow> failure_obs ev = []" for ev by (cases ev) auto
  then show "failures_seen evs \<noteq> [] \<Longrightarrow> gather requests_in evs \<noteq> []" by (auto simp: failures_seen_def)
qed

lemma failures_in_run:
  "fst ` set (failures_seen evs) \<subseteq> re_tsMs ` set (obs_of run_id (gather series_obs evs))"
proof -
  have "fst ` set (failures_seen evs) = set (map fst (gather failure_obs evs))" by (simp add: failures_seen_def)
  also have "\<dots> \<subseteq> re_tsMs ` set (obs_of run_id (gather series_obs evs))" unfolding failure_times by auto
  finally show ?thesis .
qed

lemma run_fits_rep:
  assumes "engine_rep c m evs e" and "failures_seen evs \<noteq> []"
  shows "run_fits c (me_startedAtMs m) (run_width e) (failures_seen evs)"
proof -
  let ?st = "me_startedAtMs m" and ?Y = "obs_of run_id (gather series_obs evs)"
  from run_series [OF assms(1) failure_needs_request [OF assms(2)]] obtain s where
    s: "run_width e = bs_widthMs s" "series_rep s (mset ?Y)" "bs_startMs s = ?st" "bs_maxBuckets s = max 1 (ec_maxBucketsRun c)" .
  have "(\<lambda>f. (fst f - ?st) div run_width e) ` set (failures_seen evs) = (\<lambda>t. (t - ?st) div run_width e) ` fst ` set (failures_seen evs)"
    by (simp add: image_image)
  also have "\<dots> \<subseteq> (\<lambda>t. (t - ?st) div run_width e) ` re_tsMs ` set ?Y" by (intro image_mono failures_in_run)
  also have "\<dots> = (\<lambda>x. (re_tsMs x - ?st) div run_width e) ` set_mset (mset ?Y)" by (simp add: image_image)
  finally have "card ((\<lambda>f. (fst f - ?st) div run_width e) ` set (failures_seen evs)) \<le>
      card ((\<lambda>x. (re_tsMs x - ?st) div run_width e) ` set_mset (mset ?Y))" by (intro card_mono) simp_all
  moreover have "int (card ((\<lambda>x. (re_tsMs x - ?st) div run_width e) ` set_mset (mset ?Y))) \<le> max 1 (ec_maxBucketsRun c)"
    using s axis_rep_length unfolding series_rep_def by metis
  ultimately show ?thesis using s(1) series_rep_width [OF s(2)] by (simp add: run_fits_def)
qed

lemma run_width_grows:
  assumes "engine_rep c m evs e" and "engine_rep c m (evs @ [ev]) e'" and "gather requests_in evs \<noteq> []"
  shows "run_width e \<le> run_width e'"
proof -
  from run_series [OF assms(1,3)] obtain s where
    s: "run_width e = bs_widthMs s" "series_rep s (mset (obs_of run_id (gather series_obs evs)))"
      "bs_startMs s = me_startedAtMs m" "bs_maxBuckets s = max 1 (ec_maxBucketsRun c)" .
  have "gather requests_in (evs @ [ev]) \<noteq> []" using assms(3) by simp
  from run_series [OF assms(2) this] obtain s' where
    s': "run_width e' = bs_widthMs s'" "series_rep s' (mset (obs_of run_id (gather series_obs (evs @ [ev]))))"
      "bs_startMs s' = me_startedAtMs m" "bs_maxBuckets s' = max 1 (ec_maxBucketsRun c)" .
  show ?thesis unfolding s(1) s'(1)
  proof (rule narrowest_le)
    show "narrowest (max 1 (ec_maxBucketsRun c)) (\<lambda>x. re_tsMs x - me_startedAtMs m) (bs_widthMs s)
        (mset (obs_of run_id (gather series_obs evs)))" using s by (simp add: series_rep_def)
    show "int (card ((\<lambda>x. (re_tsMs x - me_startedAtMs m) div bs_widthMs s') `
        set_mset (mset (obs_of run_id (gather series_obs (evs @ [ev])))))) \<le> max 1 (ec_maxBucketsRun c)"
      using s' axis_rep_length unfolding series_rep_def by metis
  qed (use series_rep_width [OF s'(2)] in auto)
qed

lemma twin_mono: "twin c st W F s s0 \<Longrightarrow> W \<le> W' \<Longrightarrow> twin c st W' F s s0"
  by (auto simp: twin_def)

text \<open>One more failure.\<close>

lemma fit_add_bounded:
  assumes fit: "error_series_fit s M" and s: "es_startMs s = st" "es_maxBuckets s = max 1 (ec_maxBucketsRun c)"
    and F: "image_mset event_of M = mset F" and W: "run_fits c st W (F @ [(ts, msg)])" "es_widthMs s \<le> W"
    and room: "2 \<le> ec_maxBucketsRun c \<or> (\<forall>f \<in> set (F @ [(ts, msg)]). st \<le> fst f)"
  shows "\<exists>s'. error_series_add ts msg s = Some s' \<and>
    error_series_fit s' (add_mset \<lparr>fl_tsMs = ts, fl_message = msg, fl_admitted = admits s msg\<rparr> M) \<and> es_widthMs s' \<le> W \<and>
    es_startMs s' = st \<and> es_maxBuckets s' = max 1 (ec_maxBucketsRun c) \<and> es_tracked s' = track msg (es_tracked s)"
proof -
  define x where "x = \<lparr>fl_tsMs = ts, fl_message = msg, fl_admitted = admits s msg\<rparr>"
  have ev: "event_of ` set_mset (add_mset x M) = set (F @ [(ts, msg)])"
    using arg_cong [OF F, of set_mset] by (auto simp: x_def event_of_def)
  have times: "(\<lambda>y. f (fl_tsMs y)) ` set_mset (add_mset x M) = (\<lambda>e. f (fst e)) ` set (F @ [(ts, msg)])" for f :: "int \<Rightarrow> int"
    unfolding ev [symmetric] by (simp add: image_image event_of_def)
  let ?K = "\<lambda>w. is_width w \<and> w \<le> W"
  have "\<exists>s'. error_series_add ts msg s = Some s' \<and> error_series_fit s' (add_mset x M) \<and> ?K (es_widthMs s') \<and>
    es_startMs s' = es_startMs s \<and> es_maxBuckets s' = es_maxBuckets s \<and> es_tracked s' = track msg (es_tracked s)"
    unfolding x_def
  proof (rule error_series_fit_add [OF fit])
    have "\<forall>y \<in># add_mset x M. fst (event_of y) \<in> fst ` set (F @ [(ts, msg)])" unfolding ev [symmetric] by blast
    then show "2 \<le> es_maxBuckets s \<or> (\<forall>y \<in># add_mset \<lparr>fl_tsMs = ts, fl_message = msg, fl_admitted = admits s msg\<rparr> M. es_startMs s \<le> fl_tsMs y)"
      using room s unfolding x_def by (fastforce simp: event_of_def)
    show "?K (es_widthMs s)" using fit W(2) by (simp add: error_series_fit_def)
    fix w assume w: "?K w" "es_maxBuckets s < int (card ((\<lambda>y. (fl_tsMs y - es_startMs s) div w) `
       set_mset (add_mset \<lparr>fl_tsMs = ts, fl_message = msg, fl_admitted = admits s msg\<rparr> M)))"
    then have "max 1 (ec_maxBucketsRun c) < int (card ((\<lambda>f. (fst f - st) div w) ` set (F @ [(ts, msg)])))"
      using times [of "\<lambda>t. (t - st) div w"] s by (simp only: x_def [symmetric])
    then have "w \<noteq> W" using W(1) by (auto simp: run_fits_def)
    then have "w < W" using w(1) by simp
    moreover have "\<not> W < w * 2" using is_width_less [of W w] w(1) W(1) \<open>w < W\<close> by (auto simp: run_fits_def)
    ultimately have "w * 2 \<le> W" by simp
    with w(1) show "?K (w * 2)" by simp
  qed auto
  then show ?thesis using s by (auto simp: x_def)
qed


lemma fit_times:
  assumes "error_series_fit s M" and "image_mset event_of M = mset F" and "run_fits c (es_startMs s) W F"
    and "es_maxBuckets s = max 1 (ec_maxBucketsRun c)" and "es_widthMs s \<le> W"
  obtains m where "widen W (es_widthMs s) (es_buckets s) = Some (W, m)"
    "axis_rep (\<lambda>x. fl_tsMs x - es_startMs s) error_bucket_rep W m M"
    "error_series_fit (s\<lparr>es_widthMs := W, es_buckets := m\<rparr>) M"
proof -
  have W: "is_width W" using assms(3) by (simp add: run_fits_def)
  obtain m where m: "widen W (es_widthMs s) (es_buckets s) = Some (W, m)"
    "axis_rep (\<lambda>x. fl_tsMs x - es_startMs s) error_bucket_rep W m M"
    using finish_rep_errors [OF assms(1), of W] W assms(5) by metis
  have "(\<lambda>x. (fl_tsMs x - es_startMs s) div W) ` set_mset M = (\<lambda>f. (fst f - es_startMs s) div W) ` event_of ` set_mset M"
    by (simp add: image_image event_of_def)
  also have "event_of ` set_mset M = set F" using arg_cong [OF assms(2), of set_mset] by simp
  finally have "int (length m) \<le> max 1 (ec_maxBucketsRun c)"
    using assms(3) axis_rep_length [OF m(2)] by (simp add: run_fits_def)
  then have "error_series_fit (s\<lparr>es_widthMs := W, es_buckets := m\<rparr>) M"
    using assms(1,4) W m(2) by (auto simp: error_series_fit_def)
  with m that show thesis by blast
qed

lemma twin_finish:
  assumes "twin c st W F s s0" and "run_fits c st W F" and "strict_cmp lc"
  shows "\<exists>z s' s0'. error_series_finish lc W keep s = Some (z, s') \<and> error_series_finish lc W keep s0 = Some (z, s0') \<and>
    twin c st W F s' s0"
proof -
  obtain M where M: "error_series_fit s M" "error_series_fit s0 M" "image_mset event_of M = mset F"
    using assms(1) by (auto simp: twin_def)
  have t: "es_startMs s = st" "es_startMs s0 = st" "es_maxBuckets s = max 1 (ec_maxBucketsRun c)"
    "es_maxBuckets s0 = max 1 (ec_maxBucketsRun c)" "es_widthMs s \<le> W" "es_widthMs s0 \<le> W"
    using assms(1) by (simp_all add: twin_def)
  obtain m where m: "widen W (es_widthMs s) (es_buckets s) = Some (W, m)"
    "axis_rep (\<lambda>x. fl_tsMs x - st) error_bucket_rep W m M" "error_series_fit (s\<lparr>es_widthMs := W, es_buckets := m\<rparr>) M"
    using fit_times [OF M(1,3), of c W] assms(2) t by metis
  obtain m0 where m0: "widen W (es_widthMs s0) (es_buckets s0) = Some (W, m0)"
    "axis_rep (\<lambda>x. fl_tsMs x - st) error_bucket_rep W m0 M"
    using fit_times [OF M(2,3), of c W] assms(2) t by metis
  have "twin c st W F (s\<lparr>es_widthMs := W, es_buckets := m\<rparr>) s0"
    using assms(1) m(3) M by (auto simp: twin_def)
  then show ?thesis
    using m(1) m0(1) rows_determined [OF m(2) m0(2) assms(3), of keep]
    by (simp add: error_series_finish_def Let_def)
qed

lemma twin_add:
  assumes "twin c st W F s s0" and "run_fits c st W (F @ [(ts, msg)])"
    and "2 \<le> ec_maxBucketsRun c \<or> (\<forall>f \<in> set (F @ [(ts, msg)]). st \<le> fst f)"
  shows "\<exists>s' s0'. error_series_add ts msg s = Some s' \<and> error_series_add ts msg s0 = Some s0' \<and>
    twin c st W (F @ [(ts, msg)]) s' s0'"
proof -
  obtain M where M: "error_series_fit s M" "error_series_fit s0 M" "image_mset event_of M = mset F"
    using assms(1) by (auto simp: twin_def)
  let ?x = "\<lambda>s. \<lparr>fl_tsMs = ts, fl_message = msg, fl_admitted = admits s msg\<rparr>"
  have t: "es_startMs s = st" "es_startMs s0 = st" "es_maxBuckets s = max 1 (ec_maxBucketsRun c)"
    "es_maxBuckets s0 = max 1 (ec_maxBucketsRun c)" "es_widthMs s \<le> W" "es_widthMs s0 \<le> W" "es_tracked s = es_tracked s0"
    using assms(1) by (simp_all add: twin_def)
  obtain s' where s': "error_series_add ts msg s = Some s'" "error_series_fit s' (add_mset (?x s) M)" "es_widthMs s' \<le> W"
    "es_startMs s' = st" "es_maxBuckets s' = max 1 (ec_maxBucketsRun c)" "es_tracked s' = track msg (es_tracked s)"
    using fit_add_bounded [OF M(1) t(1,3) M(3) assms(2) t(5) assms(3)] by blast
  obtain s0' where s0': "error_series_add ts msg s0 = Some s0'" "error_series_fit s0' (add_mset (?x s0) M)" "es_widthMs s0' \<le> W"
    "es_startMs s0' = st" "es_maxBuckets s0' = max 1 (ec_maxBucketsRun c)" "es_tracked s0' = track msg (es_tracked s0)"
    using fit_add_bounded [OF M(2) t(2,4) M(3) assms(2) t(6) assms(3)] by blast
  have "?x s = ?x s0" using t(7) by (simp add: admits_def)
  moreover have "image_mset event_of (add_mset (?x s) M) = mset (F @ [(ts, msg)])" using M(3) by (simp add: event_of_def)
  ultimately have "twin c st W (F @ [(ts, msg)]) s' s0'"
    using s' s0' t(7) unfolding twin_def by metis
  with s'(1) s0'(1) show ?thesis by blast
qed

lemma twin_refl:
  assumes "engine_rep c m evs e" and "stream_room c (me_startedAtMs m) evs" and "le_errorSeries e = Some s"
  shows "twin c (me_startedAtMs m) (run_width e) (failures_seen evs) s s"
proof -
  let ?st = "me_startedAtMs m" and ?F = "failures_seen evs"
  have f: "?F \<noteq> []" "add_failures ?F (new_error_series ?st (ec_maxBucketsRun c)) = Some s"
    using assms(1,3) by (auto simp: engine_rep_def acc_def failures_rep_def failures_seen_def)
  have "2 \<le> ec_maxBucketsRun c \<or> (\<forall>f \<in> set ?F. ?st \<le> fst f)"
    using failures_room [OF assms(2)] by (simp only: failures_seen_def)
  from add_failures_new [OF this] f(2) obtain M where M: "error_series_rep s M" "image_mset event_of M = mset ?F"
    "es_startMs s = ?st" "es_maxBuckets s = max 1 (ec_maxBucketsRun c)" by (metis option.inject)
  from run_series [OF assms(1) failure_needs_request [OF f(1)]] obtain r where
    r: "run_width e = bs_widthMs r" "series_rep r (mset (obs_of run_id (gather series_obs evs)))"
      "bs_startMs r = ?st" "bs_maxBuckets r = max 1 (ec_maxBucketsRun c)" .
  have "fl_tsMs ` set_mset M = fst ` event_of ` set_mset M" by (simp add: image_image event_of_def)
  also have "event_of ` set_mset M = set ?F" using arg_cong [OF M(2), of set_mset] by simp
  finally have "fl_tsMs ` set_mset M \<subseteq> re_tsMs ` set (obs_of run_id (gather series_obs evs))"
    using failures_in_run [of evs] by simp
  then have "es_widthMs s \<le> run_width e"
    unfolding r(1) using r M by (intro failures_width_le) simp_all
  with M show ?thesis by (auto simp: twin_def error_series_rep_def)
qed

section \<open>One operation on a live engine\<close>

lemma with_errors_quiet:
  assumes "failure_obs ev = []" and "\<And>m. ev \<noteq> MetaE m"
  shows "engine_add ev (with_errors x e) = map_option (map_sum (map_prod id (with_errors x)) (with_errors x)) (engine_add ev e)"
proof (cases ev)
  case (RequestE r)
  then have "rq_ok r" using assms(1) by (simp split: if_splits)
  have "e\<lparr>le_errorSeries := x\<rparr>\<lparr>le_endpoints := a\<rparr> = with_errors x (e\<lparr>le_endpoints := a\<rparr>)" for a by (cases e) simp
  with \<open>rq_ok r\<close> show ?thesis
    by (simp add: RequestE engine_add_def request_split with_errors_before with_errors_after map_bind option.map_comp comp_def)
next
  case (GroupE g)
  then show ?thesis by (simp add: engine_add_def with_errors_group option.map_comp comp_def)
next
  case (UserE u)
  then show ?thesis by (simp add: engine_add_def with_errors_comm)
next
  case (ErrorE y)
  then show ?thesis by (simp add: engine_add_def with_errors_steps option.map_comp comp_def)
qed (use assms(2) in simp)

lemma with_errors_self [simp]: "with_errors (le_errorSeries e) e = e"
  by (cases e) simp

lemma with_errors_same: "le_errorSeries e = x \<Longrightarrow> with_errors x e = e"
  by (cases e) simp

lemma quiet_keeps:
  assumes "failure_obs ev = []" and "\<And>m. ev \<noteq> MetaE m" and "engine_add ev e = Some (Inr e')"
  shows "le_errorSeries e' = le_errorSeries e"
proof -
  have "e' = with_errors (le_errorSeries e) e'"
    using with_errors_quiet [OF assms(1,2), of "le_errorSeries e" e] assms(3) by simp
  then show ?thesis by (metis live_engine.select_convs(10) live_engine.surjective live_engine.update_convs(10))
qed

lemma failing_request:
  assumes "engine_add (RequestE r) e0 = Some (Inr e0')" and "\<not> rq_ok r"
  obtains s0' where "le_errorSeries e0' = Some s0'"
    "error_series_add (rq_endMs r) (errorMessageOf (rq_message r)) (case le_errorSeries e0 of Some s \<Rightarrow> s
       | None \<Rightarrow> new_error_series (le_runStartMs e0) (ec_maxBucketsRun (le_cfg e0))) = Some s0'"
    "\<And>s s'. error_series_add (rq_endMs r) (errorMessageOf (rq_message r)) s = Some s' \<Longrightarrow>
      engine_add (RequestE r) (with_errors (Some s) e0) = Some (Inr (with_errors (Some s') e0'))"
proof -
  let ?msg = "errorMessageOf (rq_message r)"
  have small: "\<not> ec_maxEndpoints (le_cfg e0) < int (length (set_insert (request_path r) (le_endpoints e0)))"
    using assms(1) by (auto simp: engine_add_def request_split split: if_splits)
  then obtain a b where a: "request_before r e0 = Some a" "add_failure (rq_endMs r) ?msg a = Some b" "request_after r b = Some e0'"
    using assms by (auto simp: engine_add_def request_split bind_eq_Some_conv)
  note keeps = before_keeps [OF a(1)]
  obtain s0' where s0': "b = with_errors (Some s0') a"
    "error_series_add (rq_endMs r) ?msg (case le_errorSeries e0 of Some s \<Rightarrow> s
       | None \<Rightarrow> new_error_series (le_runStartMs e0) (ec_maxBucketsRun (le_cfg e0))) = Some s0'"
    using a(2) keeps by (auto simp: add_failure_def cong: option.case_cong)
  obtain d where d: "request_after r a = Some d" "e0' = with_errors (Some s0') d"
    using a(3) unfolding s0'(1) with_errors_after by auto
  have "engine_add (RequestE r) (with_errors (Some s) e0) = Some (Inr (with_errors (Some s') e0'))"
    if "error_series_add (rq_endMs r) ?msg s = Some s'" for s s'
    using that small assms(2) a(1) d by (simp add: engine_add_def request_split with_errors_before with_errors_after add_failure_def)
  with s0'(2) d(2) that show thesis by simp
qed

lemma live_rep_with:
  assumes "engine_rep c m evs e0" and "le_errorSeries e0 = Some s0"
    and "twin c (me_startedAtMs m) (run_width e0) (failures_seen evs) s s0"
  shows "live_rep c m evs e0 (with_errors (Some s) e0)"
  unfolding live_rep_def assms(2) option.case using assms(1,3) by blast

lemma live_add:
  assumes rep: "live_rep c m evs e0 e" and room: "stream_room c (me_startedAtMs m) (evs @ [ev])"
    and head: "\<And>m. ev \<noteq> MetaE m" and fits: "fits c (evs @ [ev])"
  shows "\<exists>e0' e'. engine_add ev e0 = Some (Inr e0') \<and> engine_add ev e = Some (Inr e') \<and> live_rep c m (evs @ [ev]) e0' e'"
proof -
  let ?st = "me_startedAtMs m"
  have rep0: "engine_rep c m evs e0" using rep by (simp add: live_rep_def)
  from engine_step [OF rep0 room head fits_prefix [OF fits]] fits obtain e0' where
    e0': "engine_add ev e0 = Some (Inr e0')" "engine_rep c m (evs @ [ev]) e0'" by auto
  have rep_same: "live_rep c m (evs @ [ev]) e0' e0'"
  proof (cases "le_errorSeries e0'")
    case (Some x)
    from with_errors_same [OF this] twin_refl [OF e0'(2) room this] show ?thesis
      using e0'(2) Some by (auto simp: live_rep_def intro!: exI [of _ x])
  qed (use e0'(2) in \<open>simp add: live_rep_def\<close>)
  show ?thesis
  proof (cases "le_errorSeries e0")
    case None
    with rep have "e = e0" by (simp add: live_rep_def)
    with e0'(1) rep_same show ?thesis by blast
  next
    case (Some s0)
    with rep obtain s where s: "e = with_errors (Some s) e0" "twin c ?st (run_width e0) (failures_seen evs) s s0"
      by (auto simp: live_rep_def)
    have "failures_seen evs \<noteq> []"
      using rep0 Some by (auto simp: engine_rep_def acc_def failures_rep_def failures_seen_def)
    from twin_mono [OF s(2) run_width_grows [OF rep0 e0'(2) failure_needs_request [OF this]]] have
      tw: "twin c ?st (run_width e0') (failures_seen evs) s s0" .
    show ?thesis
    proof (cases "failure_obs ev = []")
      case True
      have "engine_add ev e = Some (Inr (with_errors (Some s) e0'))"
        using with_errors_quiet [OF True head, of "Some s" e0] e0'(1) s(1) by simp
      moreover have "failures_seen (evs @ [ev]) = failures_seen evs" using True by (simp add: failures_seen_def)
      moreover have "le_errorSeries e0' = Some s0" using quiet_keeps [OF True head e0'(1)] Some by simp
      ultimately show ?thesis using live_rep_with [OF e0'(2), of s0 s] tw e0'(1) by auto
    next
      case False
      then obtain r where r: "ev = RequestE r" "\<not> rq_ok r" by (cases ev) (auto split: if_splits)
      let ?msg = "errorMessageOf (rq_message r)"
      have F: "failures_seen (evs @ [ev]) = failures_seen evs @ [(rq_endMs r, ?msg)]" using r by (simp add: failures_seen_def)
      obtain s0' where s0': "le_errorSeries e0' = Some s0'" "error_series_add (rq_endMs r) ?msg s0 = Some s0'"
        and go: "\<And>s s'. error_series_add (rq_endMs r) ?msg s = Some s' \<Longrightarrow>
          engine_add (RequestE r) (with_errors (Some s) e0) = Some (Inr (with_errors (Some s') e0'))"
        using failing_request [OF e0'(1) [unfolded r(1)] r(2)] Some by (metis option.simps(5))
      have "run_fits c ?st (run_width e0') (failures_seen evs @ [(rq_endMs r, ?msg)])"
        using run_fits_rep [OF e0'(2)] F by simp
      moreover have "2 \<le> ec_maxBucketsRun c \<or> (\<forall>f \<in> set (failures_seen evs @ [(rq_endMs r, ?msg)]). ?st \<le> fst f)"
        using failures_room [OF room] unfolding F [symmetric] by (simp only: failures_seen_def)
      ultimately obtain s' where "error_series_add (rq_endMs r) ?msg s = Some s'"
        "twin c ?st (run_width e0') (failures_seen (evs @ [ev])) s' s0'"
        using twin_add [OF tw] s0'(2) unfolding F by (metis option.inject)
      with go [of s s'] show ?thesis using r(1) s(1) live_rep_with [OF e0'(2) s0'(1)] e0'(1) by blast
    qed
  qed
qed

lemma snapshot_parts:
  assumes "engine_snapshot lc clone e0 = Some (Inr (res, e0'))" and "snapshot_error_series lc e0 = Some (z, e0'')"
    and "snapshot_error_series lc (with_errors x e0) = Some (z, e')"
  shows "engine_snapshot lc clone (with_errors x e0) = Some (Inr (res, e'))"
proof -
  have [simp]: "snapshot_stats clone (with_errors x e0) = snapshot_stats clone e0"
    "snapshot_users lc (with_errors x e0) = snapshot_users lc e0" "snapshot_errors lc (with_errors x e0) = snapshot_errors lc e0"
    "window_ms (with_errors x e0) = window_ms e0"
    by (simp_all add: snapshot_stats_def snapshot_users_def snapshot_errors_def window_ms_def cong: option.case_cong)
  obtain users where users: "snapshot_users lc e0 = Some users"
    using assms(1) by (auto simp: engine_snapshot_def bind_eq_Some_conv)
  obtain stats where stats: "snapshot_stats clone e0 = Inr stats"
    using assms(1,2) users by (cases "snapshot_stats clone e0") (auto simp: engine_snapshot_def)
  obtain verdicts where "evaluateToolAssertions (le_declaredAssertions e0) stats = Inr verdicts"
    using assms(1,2) users stats
    by (cases "evaluateToolAssertions (le_declaredAssertions e0) stats") (auto simp: engine_snapshot_def)
  with users stats assms show ?thesis by (auto simp: engine_snapshot_def)
qed

lemma snapshot_leaves:
  assumes "engine_snapshot lc clone e = Some (Inr (res, e'))"
  shows "\<exists>z. snapshot_error_series lc e = Some (z, e')"
proof -
  obtain z d users where z: "snapshot_error_series lc e = Some (z, d)" "snapshot_users lc e = Some users"
    using assms by (auto simp: engine_snapshot_def bind_eq_Some_conv)
  then have "d = e'" using assms by (auto simp: engine_snapshot_def bind_sum_def split: sum.splits)
  with z show ?thesis by simp
qed

lemma live_snapshot:
  assumes rep: "live_rep c m evs e0 e" and snap: "engine_snapshot lc clone e0 = Some (Inr (res, e0'))"
    and room: "stream_room c (me_startedAtMs m) evs" and lc: "strict_cmp lc"
  shows "\<exists>e'. engine_snapshot lc clone e = Some (Inr (res, e')) \<and> live_rep c m evs e0 e'"
proof (cases "le_errorSeries e0")
  case None
  then have e: "e = e0" using rep by (simp add: live_rep_def)
  have "e0' = e0" using snapshot_leaves [OF snap] None by (auto simp: snapshot_error_series_def)
  with e snap rep show ?thesis by blast
next
  case (Some s0)
  let ?W = "run_width e0"
  from Some rep obtain s where s: "e = with_errors (Some s) e0" "twin c (me_startedAtMs m) ?W (failures_seen evs) s s0"
    by (auto simp: live_rep_def)
  have rep0: "engine_rep c m evs e0" using rep by (simp add: live_rep_def)
  then have "failures_seen evs \<noteq> []"
    using Some by (auto simp: engine_rep_def acc_def failures_rep_def failures_seen_def)
  from twin_finish [OF s(2) run_fits_rep [OF rep0 this] lc, of ERROR_SERIES_KEEP] obtain z s' s0' where
    z: "error_series_finish lc ?W ERROR_SERIES_KEEP s = Some (z, s')" "error_series_finish lc ?W ERROR_SERIES_KEEP s0 = Some (z, s0')"
      "twin c (me_startedAtMs m) ?W (failures_seen evs) s' s0" by blast
  have "run_width (with_errors (Some s) e0) = ?W" by (simp add: run_width_def cong: option.case_cong)
  then have "snapshot_error_series lc e = Some (z, with_errors (Some s') e0)"
    using z(1) by (simp add: s(1) snapshot_error_series_def)
  moreover have "snapshot_error_series lc e0 = Some (z, with_errors (Some s0') e0)"
    using z(2) Some by (simp add: snapshot_error_series_def)
  ultimately have "engine_snapshot lc clone e = Some (Inr (res, with_errors (Some s') e0))"
    unfolding s(1) by (intro snapshot_parts [OF snap])
  moreover have "live_rep c m evs e0 (with_errors (Some s') e0)" by (rule live_rep_with [OF rep0 Some z(3)])
  ultimately show ?thesis by blast
qed

lemma runnable_prefix: "runnable c m (evs @ rest) \<Longrightarrow> runnable c m evs"
  using stream_room_prefix [of c "me_startedAtMs m" evs rest] by (auto simp: runnable_def no_header_def)

lemma live_run_rep:
  assumes "live_rep c m seen e0 e" and "runnable c m (seen @ events_of ops)" and "fits c (seen @ events_of ops)"
    and "strict_cmp lc"
  shows "\<exists>e0' e'. engine_fold (events_of ops) e0 = Some (Inr e0') \<and> live_run lc ops e = Some (Inr e') \<and>
    live_rep c m (seen @ events_of ops) e0' e'"
  using assms
proof (induction ops arbitrary: seen e0 e)
  case Nil
  then show ?case by auto
next
  case (Cons op ops)
  show ?case
  proof (cases op)
    case (AddEvent ev)
    let ?rest = "events_of ops"
    have run: "runnable c m ((seen @ [ev]) @ ?rest)" and fits: "fits c ((seen @ [ev]) @ ?rest)"
      using Cons.prems(2,3) by (simp_all add: AddEvent)
    have "stream_room c (me_startedAtMs m) (seen @ [ev])" using runnable_prefix [OF run] by (simp add: runnable_def)
    moreover have "ev \<noteq> MetaE m'" for m' using run by (auto simp: runnable_def no_header_def)
    ultimately obtain e0' e' where e': "engine_add ev e0 = Some (Inr e0')" "engine_add ev e = Some (Inr e')"
      "live_rep c m (seen @ [ev]) e0' e'"
      using live_add [OF Cons.prems(1) _ _ fits_prefix [OF fits]] by blast
    from Cons.IH [OF e'(3) run fits Cons.prems(4)] e'(1,2) show ?thesis by (simp add: AddEvent)
  next
    case (TakeSnapshot clone)
    have run: "runnable c m seen" using runnable_prefix Cons.prems(2) by blast
    have "engine_rep c m seen e0" using Cons.prems(1) by (simp add: live_rep_def)
    from snapshot_rep [OF this run, of lc clone] obtain res e0' where
      "engine_snapshot lc clone e0 = Some (Inr (res, e0'))" by blast
    from live_snapshot [OF Cons.prems(1) this _ Cons.prems(4)] run obtain e' where
      e': "engine_snapshot lc clone e = Some (Inr (res, e'))" "live_rep c m seen e0 e'" by (auto simp: runnable_def)
    from Cons.IH [OF e'(2)] Cons.prems(2-4) e'(1) show ?thesis by (simp add: TakeSnapshot)
  qed
qed

end
