(* ===== verification/LiveView.thy ===== *)
theory LiveView
  imports LiveDelta MergeSeries LiveSnapshots
begin

text \<open>
  What a live consumer holds. The response-time series travels as windows that the browser upserts; this
  theory shows that the window of a tick (the frontier and a lookback of the slowest response) reaches
  every bucket that changed, so that upserting it gives the series of the tick.
\<close>

section \<open>The series as it is shown\<close>

definition latency_of :: "int multiset \<Rightarrow> int multiset \<Rightarrow> bucket_latency" where
  "latency_of M N = (let A = M + N; P = population_percentiles BUCKET_PERCENTILES in
    \<lparr>bl_minMs = (if A = {#} then 0 else Min_mset A), bl_maxMs = (if A = {#} then 0 else Max_mset A),
     bl_meanMs = (if A = {#} then 0 else fdiv (of_int (sum_mset A)) (of_nat (size A))),
     bl_percentiles = P A, bl_percentilesOk = P M, bl_percentilesKo = P N\<rparr>)"

definition wire_of :: "int \<Rightarrow> request_edge multiset \<Rightarrow> live_bucket" where
  "wire_of off M = (let n = (\<lambda>e ok. int (size (edges e ok M))) in
    \<lparr>lb_startOffsetMs = off, lb_startedCount = n StartEdge True + n StartEdge False,
     lb_endedCount = n EndEdge True + n EndEdge False, lb_okCount = n EndEdge True, lb_koCount = n EndEdge False,
     lb_startedOkCount = Some (n StartEdge True), lb_startedKoCount = Some (n StartEdge False),
     lb_latency = latency_of (edge_times True M) (edge_times False M)\<rparr>)"

lemma wire_bucket_rep:
  assumes "bucket_rep off b M"
  shows "wire_bucket b = Inr (wire_of off M)"
proof -
  have "hist_rep (bk_histogramOk b) (edge_times True M)" "hist_rep (bk_histogramKo b) (edge_times False M)"
    using assms by (simp_all add: bucket_rep_def)
  from bucket_latency_rep [OF this] have "bucketLatency (bk_histogramOk b) (bk_histogramKo b) =
      Inr (latency_of (edge_times True M) (edge_times False M))" by (simp only: latency_of_def)
  with assms show ?thesis by (simp add: wire_bucket_def wire_of_def Let_def bucket_rep_def)
qed

lemma wire_of_offset [simp]: "lb_startOffsetMs (wire_of off M) = off"
  by (simp add: wire_of_def Let_def)

text \<open>The occupied slots and the buckets of a series at a width.\<close>

definition slots :: "int \<Rightarrow> int \<Rightarrow> request_edge multiset \<Rightarrow> int set" where
  "slots st w M = slot_start st w ` set_mset M"

definition shown_at :: "int \<Rightarrow> int \<Rightarrow> request_edge multiset \<Rightarrow> int \<Rightarrow> live_bucket" where
  "shown_at st w M off = wire_of off (filter_mset (\<lambda>x. slot_start st w x = off) M)"

definition shown :: "int \<Rightarrow> int \<Rightarrow> request_edge multiset \<Rightarrow> live_bucket list" where
  "shown st w M = map (shown_at st w M) (sorted_list_of_set (slots st w M))"

lemma finite_slots [simp]: "finite (slots st w M)"
  by (simp add: slots_def)

lemma shown_at_offset [simp]: "lb_startOffsetMs (shown_at st w M off) = off"
  by (simp add: shown_at_def)

section \<open>Upserting\<close>

lemma sorted_values:
  assumes "jm_ok m" and "\<And>k v. (k, v) \<in> set m \<Longrightarrow> f v = k"
  shows "js_sort (cmp_by f) (map snd m) = map (\<lambda>k. the (jm_get m k)) (sorted_list_of_set (fst ` set m))" (is "?xs = _")
proof -
  have get: "the (jm_get m (f v)) = v" if "v \<in> snd ` set m" for v
    using that assms by (auto simp: jm_ok_def)
  have "map (\<lambda>v. the (jm_get m (f v))) ?xs = ?xs" using get by (intro map_idI) auto
  then have "?xs = map (\<lambda>k. the (jm_get m k)) (map f ?xs)" by (simp add: comp_def)
  also have "map f ?xs = sort (map f (map snd m))" by (simp only: js_sort_by map_sort_key)
  also have "map f (map snd m) = map fst m" using assms(2) by auto
  also have "sort (map fst m) = sorted_list_of_set (fst ` set m)"
    using assms(1) by (intro sorted_distinct_set_unique) (simp_all add: jm_ok_def)
  finally show ?thesis .
qed

lemma fold_set_get:
  assumes "jm_ok m" and "distinct ks" and "\<And>k. f (g k) = k"
  shows "jm_ok (fold (\<lambda>b. jm_set (f b) b) (map g ks) m) \<and>
    (\<forall>k. jm_get (fold (\<lambda>b. jm_set (f b) b) (map g ks) m) k = (if k \<in> set ks then Some (g k) else jm_get m k))"
  using assms(1,2)
proof (induction ks arbitrary: m)
  case Nil
  then show ?case by simp
next
  case (Cons k ks)
  then have "jm_ok (jm_set k (g k) m)" by simp
  from Cons.IH [OF this] Cons.prems show ?case by (simp add: assms(3))
qed

lemma upsert_shown:
  assumes "finite A" and "finite B" and "\<And>k. lb_startOffsetMs (g k) = k" and "\<And>k. lb_startOffsetMs (h k) = k"
  shows "upsert_buckets (map g (sorted_list_of_set A)) (map h (sorted_list_of_set B)) =
    map (\<lambda>k. if k \<in> B then h k else g k) (sorted_list_of_set (A \<union> B))"
proof -
  define m0 where "m0 = fold (\<lambda>b. jm_set (lb_startOffsetMs b) b) (map g (sorted_list_of_set A)) []"
  define m where "m = fold (\<lambda>b. jm_set (lb_startOffsetMs b) b) (map h (sorted_list_of_set B)) m0"
  have m0: "jm_ok m0 \<and> (\<forall>k. jm_get m0 k = (if k \<in> A then Some (g k) else None))"
    using fold_set_get [where m = "[]" and f = lb_startOffsetMs and g = g and ks = "sorted_list_of_set A"] assms
    by (simp add: m0_def)
  then have m: "jm_ok m" "jm_get m k = (if k \<in> B then Some (h k) else if k \<in> A then Some (g k) else None)" for k
    using fold_set_get [where m = m0 and f = lb_startOffsetMs and g = h and ks = "sorted_list_of_set B"] assms
    by (simp_all add: m_def)
  have keys: "fst ` set m = A \<union> B"
  proof -
    have "k \<in> fst ` set m \<longleftrightarrow> k \<in> A \<union> B" for k
    proof -
      have "k \<in> fst ` set m \<longleftrightarrow> jm_get m k \<noteq> None" by (simp add: map_of_eq_None_iff)
      then show ?thesis unfolding m(2) by simp
    qed
    then show ?thesis by blast
  qed
  have "lb_startOffsetMs v = k" if "(k, v) \<in> set m" for k v
  proof -
    have "jm_get m k = Some v" using that m(1) by (simp add: jm_ok_def)
    then show ?thesis unfolding m(2) by (auto simp: assms(3,4) split: if_splits)
  qed
  from sorted_values [OF m(1) this]
  have "upsert_buckets (map g (sorted_list_of_set A)) (map h (sorted_list_of_set B)) =
      map (\<lambda>k. the (jm_get m k)) (sorted_list_of_set (A \<union> B))"
    by (simp add: upsert_buckets_def Let_def m_def m0_def keys [unfolded m_def m0_def])
  also have "\<dots> = map (\<lambda>k. if k \<in> B then h k else g k) (sorted_list_of_set (A \<union> B))"
    using assms(1,2) by (intro map_cong) (auto simp: m(2))
  finally show ?thesis .
qed

section \<open>The window reaches every bucket that changed\<close>

text \<open>\<open>late N M d\<close>: what \<open>M\<close> has beyond \<open>N\<close> is no more than \<open>d\<close> behind anything in \<open>N\<close>.\<close>

definition late :: "request_edge multiset \<Rightarrow> request_edge multiset \<Rightarrow> int \<Rightarrow> bool" where
  "late N M d \<longleftrightarrow> (\<forall>x \<in># M - N. \<forall>y \<in># N. re_tsMs y - d \<le> re_tsMs x)"

lemma slot_start_le:
  assumes "0 < w" and "0 \<le> L" and "d \<le> L * w" and "re_tsMs y - d \<le> re_tsMs x"
  shows "slot_start st w y - L * w \<le> slot_start st w x"
proof -
  have "re_tsMs y - st - L * w \<le> re_tsMs x - st" using assms(3,4) by linarith
  then have "(re_tsMs y - st + (- L) * w) div w \<le> (re_tsMs x - st) div w" using assms(1) by (intro zdiv_mono1) simp_all
  then have "(re_tsMs y - st) div w - L \<le> (re_tsMs x - st) div w"
    using assms(1) div_mult_self1 [of w "re_tsMs y - st" "- L"] by simp
  then have "((re_tsMs y - st) div w - L) * w \<le> (re_tsMs x - st) div w * w" using assms(1) by (intro mult_right_mono) simp_all
  then show ?thesis by (simp add: slot_start_def left_diff_distrib)
qed

lemma window_suffices:
  assumes "N \<subseteq># M" and "M \<subseteq># M'" and "0 < w" and "0 \<le> L" and "d \<le> L * w" and "late N M' d"
    and "since = (if N = {#} then - 1 else Max (slots st w N))" and "\<forall>x \<in># M'. st \<le> re_tsMs x"
  shows "upsert_buckets (shown st w M) (map (shown_at st w M') (sorted_list_of_set {off \<in> slots st w M'. since - L * w \<le> off})) =
    shown st w M'"
proof -
  let ?B = "{off \<in> slots st w M'. since - L * w \<le> off}"
  have new: "since - L * w \<le> slot_start st w x" if x: "x \<in># M' - N" for x
  proof (cases "N = {#}")
    case True
    have "st \<le> re_tsMs x" using x assms(8) by (meson in_diffD)
    then have "0 \<le> slot_start st w x" using assms(3) by (simp add: slot_start_def pos_imp_zdiv_nonneg_iff)
    moreover have "0 \<le> L * w" using assms(3,4) by simp
    ultimately show ?thesis using True assms(7) by simp
  next
    case False
    then have "Max (slots st w N) \<in> slots st w N" by (intro Max_in) (simp_all add: slots_def)
    then obtain y where y: "y \<in># N" "Max (slots st w N) = slot_start st w y" by (auto simp: slots_def)
    have "re_tsMs y - d \<le> re_tsMs x" using assms(6) x y(1) by (simp add: late_def)
    from slot_start_le [OF assms(3-5) this] show ?thesis using False y(2) assms(7) by simp
  qed
  have diff: "x \<in># M' - N" if "x \<in># M' - M" for x
  proof -
    have "M' - M \<subseteq># M' - N" using assms(1) by (auto simp: subseteq_mset_def intro: diff_le_mono2)
    with that show ?thesis by (rule mset_subset_eqD [rotated])
  qed
  have same: "filter_mset (\<lambda>x. slot_start st w x = off) M = filter_mset (\<lambda>x. slot_start st w x = off) M'"
    if "\<not> since - L * w \<le> off" for off
  proof -
    have "filter_mset (\<lambda>x. slot_start st w x = off) (M' - M) = {#}"
      unfolding filter_mset_eq_mempty_iff using new [OF diff] that by blast
    moreover have "M' = M + (M' - M)" using assms(2) by simp
    ultimately show ?thesis by (metis filter_union_mset add_0_right)
  qed
  have in_slots: "off \<in> slots st w K \<longleftrightarrow> filter_mset (\<lambda>x. slot_start st w x = off) K \<noteq> {#}" for off K
    by (auto simp: slots_def)
  have AB: "slots st w M \<union> ?B = slots st w M'"
  proof -
    have "slots st w M \<subseteq> slots st w M'" using assms(2) by (auto simp: slots_def dest: mset_subset_eqD)
    moreover have "off \<in> slots st w M" if "off \<in> slots st w M'" "\<not> since - L * w \<le> off" for off
      using that same [of off] unfolding in_slots by simp
    ultimately show ?thesis by blast
  qed
  have "upsert_buckets (shown st w M) (map (shown_at st w M') (sorted_list_of_set ?B)) =
      map (\<lambda>off. if off \<in> ?B then shown_at st w M' off else shown_at st w M off) (sorted_list_of_set (slots st w M \<union> ?B))"
    unfolding shown_def by (rule upsert_shown) simp_all
  also have "\<dots> = shown st w M'" unfolding AB shown_def
    by (rule map_cong) (auto simp: shown_at_def same)
  finally show ?thesis .
qed

lemma replace_shown:
  "upsert_buckets [] (shown st w M) = shown st w M"
  using upsert_shown [of "{}" "slots st w M" "shown_at st w M" "shown_at st w M"] by (simp add: shown_def)

section \<open>One tick\<close>

definition run_edges_of :: "canonical_event list \<Rightarrow> request_edge multiset" where
  "run_edges_of evs = mset (obs_of run_id (gather series_obs evs))"

lemma run_edges_of_requests:
  "run_edges_of evs = mset (gather (\<lambda>r. [an_edge (rq_startMs r) (request_ms r) (rq_ok r) StartEdge,
     an_edge (rq_endMs r) (request_ms r) (rq_ok r) EndEdge]) (gather requests_in evs))"
proof -
  have "gather (\<lambda>ev. gather g (requests_in ev)) evs = gather g (gather requests_in evs)" for g :: "request_event \<Rightarrow> request_edge list"
    by (induction evs) simp_all
  then show ?thesis by (simp only: run_edges_of_def obs_of_gather run_edges)
qed

definition settled :: "int \<Rightarrow> int \<Rightarrow> int \<Rightarrow> request_edge multiset \<Rightarrow> bool" where
  "settled cap st w M \<longleftrightarrow> narrowest cap (\<lambda>x. re_tsMs x - st) w M \<and>
     int (card ((\<lambda>x. (re_tsMs x - st) div w) ` set_mset M)) \<le> cap"

lemma settled_width: "settled cap st w M \<Longrightarrow> is_width w \<and> 0 < w"
  using is_width_pos by (simp add: settled_def narrowest_def)

lemma settled_mono:
  assumes "settled cap st v N" and "settled cap st w M" and "N \<subseteq># M"
  shows "v \<le> w"
  using assms narrowest_le [of cap "\<lambda>x. re_tsMs x - st" v N w "\<lambda>x. re_tsMs x - st" M] settled_width [OF assms(2)]
  by (auto simp: settled_def dest: mset_subset_eqD)

text \<open>A width is at most twice the latest time, so it is a safe integer when that is.\<close>

lemma settled_small:
  assumes "settled cap st w M" and "1 \<le> cap" and "\<forall>x \<in># M. st \<le> re_tsMs x \<and> re_tsMs x - st < b" and "1000 \<le> b"
  shows "w < 2 * b"
proof (rule ccontr)
  assume "\<not> w < 2 * b"
  then have big: "2 * b \<le> w" by simp
  obtain k where k: "w = 1000 * 2 ^ k" using assms(1) settled_width is_width_def by blast
  with big assms(4) obtain j where j: "k = Suc j" by (cases k) auto
  define v where "v = (1000 * 2 ^ j :: int)"
  have v: "is_width v" "v < w" "b \<le> v" using big by (auto simp: is_width_def v_def k j)
  have "(re_tsMs x - st) div v = 0" if "x \<in># M" for x
    using assms(3) that v(3) by (intro div_pos_pos_trivial) force+
  then have "(\<lambda>x. (re_tsMs x - st) div v) ` set_mset M \<subseteq> {0}" by auto
  then have "card ((\<lambda>x. (re_tsMs x - st) div v) ` set_mset M) \<le> card {0 :: int}" by (rule card_mono [rotated]) simp
  moreover have "cap < int (card ((\<lambda>x. (re_tsMs x - st) div v) ` set_mset M))"
    using assms(1) v(1,2) unfolding settled_def narrowest_def by blast
  ultimately show False using assms(2) by simp
qed

text \<open>The run's series in a result.\<close>

lemma run_key: "rollupKey run_id = js ''run  response_time''"
  by code_simp

lemma run_series_rep:
  assumes "result_rep lc c m evs res"
  obtains w bs where "run_series_of res = (w, bs)" "settled (max 1 (ec_maxBucketsRun c)) (me_startedAtMs m) w (run_edges_of evs)"
    "map bk_startOffsetMs bs = sorted_list_of_set (slots (me_startedAtMs m) w (run_edges_of evs))"
    "\<And>b. b \<in> set bs \<Longrightarrow> wire_bucket b = Inr (shown_at (me_startedAtMs m) w (run_edges_of evs) (bk_startOffsetMs b))"
proof -
  let ?X = "gather series_obs evs" and ?st = "me_startedAtMs m" and ?M = "run_edges_of evs"
  have series: "list_all2 (series_for c ?st ?X) (first_seen (map fst ?X)) (xr_series res)"
    using assms by (simp add: result_rep_def Let_def)
  have keys: "map fst (xr_series res) = map rollupKey (first_seen (map fst ?X))"
    using series by (induction rule: list_all2_induct) (auto simp: series_for_def)
  have inj: "inj_on rollupKey A" for A by (rule inj_onI) (rule rollupKey_inj)
  have series_of: "run_series_of res = (case jm_get (xr_series res) (rollupKey run_id) of
      Some (i, w, bs) \<Rightarrow> (w, bs) | None \<Rightarrow> (1000, []))" by (simp only: run_series_of_def run_key)
  show thesis
  proof (cases "run_id \<in> set (map fst ?X)")
    case False
    have "rollupKey run_id \<notin> fst ` set (xr_series res)"
    proof
      assume "rollupKey run_id \<in> fst ` set (xr_series res)"
      then have "rollupKey run_id \<in> rollupKey ` set (map fst ?X)"
        unfolding set_map [symmetric, of fst "xr_series res"] keys by (simp only: set_map first_seen_set)
      then show False using False by (metis imageE rollupKey_inj)
    qed
    then have "jm_get (xr_series res) (rollupKey run_id) = None" by (rule map_of_eq_None_iff [THEN iffD2])
    then have "run_series_of res = (1000, [])"
      unfolding series_of by simp
    moreover have "?M = {#}"
    proof -
      have "gather requests_in evs = []" using False run_id_seen by simp
      then show ?thesis by (simp add: run_edges_of_requests)
    qed
    ultimately show thesis by (intro that [of 1000 "[]"]) (simp_all add: settled_def slots_def)
  next
    case True
    then have "run_id \<in> set (first_seen (map fst ?X))" by (simp only: first_seen_set)
    from list_all2_left [OF series this] obtain z where z: "z \<in> set (xr_series res)" "series_for c ?st ?X run_id z" by blast
    then obtain s where s: "z = (rollupKey run_id, run_id, bs_widthMs s, buckets s)" "bs_startMs s = ?st"
      "bs_maxBuckets s = max 1 (ec_maxBucketsRun c)" "series_rep s ?M"
      by (auto simp: series_for_def run_edges_of_def run_id_def)
    have "distinct (map fst (xr_series res))"
      unfolding keys by (simp only: distinct_map first_seen_set inj simp_thms)
    from map_of_is_SomeI [OF this z(1) [unfolded s(1)]]
    have "run_series_of res = (bs_widthMs s, buckets s)" unfolding series_of by simp
    moreover have "settled (max 1 (ec_maxBucketsRun c)) ?st (bs_widthMs s) ?M"
      using s axis_rep_length [of "\<lambda>x. re_tsMs x - ?st" bucket_rep "bs_widthMs s" "bs_buckets s" ?M]
      by (simp add: settled_def series_rep_def)
    ultimately show thesis
      using that buckets_rep [OF s(4)] wire_bucket_rep unfolding s(2) slots_def slot_start_def shown_at_def by blast
  qed
qed

end
