(* ===== verification/LiveTick.thy ===== *)
theory LiveTick
  imports LiveView "HOL-Library.Sublist"
begin

text \<open>
  One tick of the live view. A cursor stands for the events of the last publication that reached everyone
  (\<open>cursor_at\<close>); the message built from it takes any consumer that holds at least those events to the
  series of the tick.
\<close>

section \<open>Orderly streams\<close>

text \<open>
  What the lookback relies on: responses arrive in the order they ended, none starts inside the warm-up,
  and the times are far from the range of a double.
\<close>

definition orderly :: "engine_config \<Rightarrow> int \<Rightarrow> canonical_event list \<Rightarrow> bool" where
  "orderly c st evs \<longleftrightarrow> sorted (map rq_endMs (gather requests_in evs)) \<and>
     (\<forall>r \<in> set (gather requests_in evs). st \<le> rq_startMs r \<and> rq_startMs r \<le> rq_endMs r \<and> rq_endMs r - st < 2 ^ 51 \<and>
        \<not> isWarmup (rq_startMs r) st (ec_warmupMs c))"

lemma orderly_append: "orderly c st (a @ b) \<Longrightarrow> orderly c st a"
  by (auto simp: orderly_def sorted_append)

definition slowest :: "request_event list \<Rightarrow> int" where
  "slowest rs = (if rs = [] then 0 else Max (set (map request_ms rs)))"

lemma run_obs: "obs_of run_id (row_obs st wu ev) =
    map (\<lambda>r. (request_ms r, rq_ok r)) (filter (\<lambda>r. \<not> isWarmup (rq_startMs r) st wu) (requests_in ev))"
  by (cases ev) (simp_all add: obs_of_def run_id_def)

text \<open>The requests that the run's row counts.\<close>

definition cold_requests :: "engine_config \<Rightarrow> int \<Rightarrow> canonical_event list \<Rightarrow> request_event list" where
  "cold_requests c st evs = filter (\<lambda>r. \<not> isWarmup (rq_startMs r) st (ec_warmupMs c)) (gather requests_in evs)"

lemma orderly_cold: "orderly c st evs \<Longrightarrow> cold_requests c st evs = gather requests_in evs"
  unfolding cold_requests_def by (intro filter_True) (simp add: orderly_def)

lemma run_obs_cold:
  "obs_of run_id (gather (row_obs st (ec_warmupMs c)) evs) = map (\<lambda>r. (request_ms r, rq_ok r)) (cold_requests c st evs)"
  by (induction evs) (simp_all add: run_obs obs_of_gather cold_requests_def)

lemma pops_of:
  assumes "\<forall>r \<in> set rs. 0 \<le> f r"
  shows "pop_ok (map (\<lambda>r. (f r, g r)) rs) + pop_ko (map (\<lambda>r. (f r, g r)) rs) = mset (map f rs)"
  using assms by (induction rs) (auto simp: pop_ok_def pop_ko_def ok_part_def ko_part_def as_durations_def max_def)

text \<open>The slowest response of the tick's snapshot: of those outside the warm-up.\<close>

lemma run_stat_max:
  assumes "result_rep lc c m evs res" and long: "\<forall>r \<in> set (cold_requests c (me_startedAtMs m) evs). 0 \<le> request_ms r"
  shows "(case run_stat_of res of Some s \<Rightarrow> sr_maxMs s | None \<Rightarrow> 0) = slowest (cold_requests c (me_startedAtMs m) evs)"
proof -
  let ?R = "gather (row_obs (me_startedAtMs m) (ec_warmupMs c)) evs" and ?rs = "cold_requests c (me_startedAtMs m) evs"
  let ?w = "window_of c (me_startedAtMs m) (gather requests_in evs)" and ?ps = "ec_percentiles c"
  have rows: "list_all2 (row_for ?w ?ps ?R) (first_seen (map fst ?R)) (xr_stats res)"
    using assms(1) by (simp add: result_rep_def Let_def)
  have is_run: "sr_scope s = Run \<and> sr_family s = ResponseTimeF \<longleftrightarrow> row_identity s = run_id" if s: "s \<in> set (xr_stats res)" for s
  proof -
    have "row_identity s \<in> fst ` set ?R" using stats_shape(1) [OF rows] s by (metis first_seen_set image_eqI list.set_map)
    then obtain ev p where "p \<in> set (row_obs (me_startedAtMs m) (ec_warmupMs c) ev)" "row_identity s = fst p" by auto
    with row_obs_identity [OF this(1)] have "row_identity s = (Run, [], ResponseTimeF) \<or> fst (row_identity s) \<noteq> Run"
      by (auto simp: row_identity_def)
    then show ?thesis by (auto simp: row_identity_def run_id_def)
  qed
  have at: "row_for ?w ?ps ?R run_id s" if s: "s \<in> set (xr_stats res)" "row_identity s = run_id" for s
  proof -
    have "\<forall>s \<in> set (xr_stats res). row_for ?w ?ps ?R (row_identity s) s"
      using rows by (rule list_all2_right) (metis row_for_reads(1))
    with s show ?thesis by metis
  qed
  have obs: "obs_of run_id ?R = map (\<lambda>r. (request_ms r, rq_ok r)) ?rs" by (rule run_obs_cold)
  show ?thesis
  proof (cases "run_stat_of res")
    case None
    then have no: "run_id \<notin> set (map row_identity (xr_stats res))"
      unfolding run_stat_of_def find_None_iff set_map image_iff using is_run by metis
    then have "run_id \<notin> fst ` set ?R" unfolding stats_shape(1) [OF rows] by (simp only: first_seen_set set_map) simp
    then have "obs_of run_id ?R = []" by (rule obs_of_none)
    then show ?thesis using None obs by (simp add: slowest_def)
  next
    case (Some s)
    then have s: "s \<in> set (xr_stats res)" "sr_scope s = Run \<and> sr_family s = ResponseTimeF"
      by (auto simp: run_stat_of_def find_Some_iff)
    then have "row_for ?w ?ps ?R run_id s" using is_run [OF s(1)] at by simp
    then have "sr_maxMs s = (let A = mset (map request_ms ?rs) in if A = {#} then 0 else Max_mset A)"
      unfolding row_for_def obs by (auto simp: row_of_def Let_def pops_of [OF long])
    then show ?thesis using Some by (simp add: slowest_def Let_def)
  qed
qed

section \<open>The lookback\<close>

lemma is_width_safe: "is_width w \<Longrightarrow> w < 2 ^ 52 \<Longrightarrow> 0 < w \<and> w \<le> 2 ^ 53"
  using is_width_pos by fastforce

lemma lookback_covers:
  assumes "0 \<le> d" and "d < 2 ^ 53" and "0 < w" and "w \<le> 2 ^ 53"
  obtains L where "lookback_ms d w = L * w" "0 \<le> L" "d \<le> L * w"
proof
  let ?q = "of_int d / of_int w :: rat" and ?L = "\<lceil>fdiv (of_int d) (of_int w)\<rceil>"
  have L: "?L = \<lceil>?q\<rceil>" using assms by (rule ceil_fdiv)
  show "lookback_ms d w = ?L * w" by (simp add: lookback_ms_def)
  have "0 \<le> ?q" using assms by simp
  then show "0 \<le> ?L" unfolding L by linarith
  have "?q \<le> of_int \<lceil>?q\<rceil>" by (rule le_of_int_ceiling)
  then have "of_int d \<le> (of_int \<lceil>?q\<rceil> * of_int w :: rat)" using assms(3) by (subst (asm) pos_divide_le_eq) simp_all
  then have "of_int d \<le> (of_int (\<lceil>?q\<rceil> * w) :: rat)" by (simp only: of_int_mult)
  then show "d \<le> ?L * w" unfolding L by (simp only: of_int_le_iff)
qed

lemma run_edge_of:
  assumes "x \<in># run_edges_of evs"
  obtains r where "r \<in> set (gather requests_in evs)" "re_tsMs x = rq_startMs r \<or> re_tsMs x = rq_endMs r"
proof -
  have "\<exists>r \<in> set (gather requests_in evs). re_tsMs x = rq_startMs r \<or> re_tsMs x = rq_endMs r"
    using assms unfolding run_edges_of_requests by (simp add: an_edge_def) fastforce
  with that show thesis by blast
qed

lemma run_edges_append: "run_edges_of (a @ b) = run_edges_of a + run_edges_of b"
  by (simp add: run_edges_of_requests)

lemma slowest_ge: "r \<in> set rs \<Longrightarrow> request_ms r \<le> slowest rs"
  by (auto simp: slowest_def)

lemma slowest_bounds:
  assumes "orderly c st evs"
  shows "0 \<le> slowest (gather requests_in evs)" "slowest (gather requests_in evs) < 2 ^ 53"
proof -
  define rs where "rs = gather requests_in evs"
  have all: "0 \<le> request_ms r \<and> request_ms r < 2 ^ 53" if "r \<in> set rs" for r
    using assms that unfolding rs_def [symmetric] orderly_def by (fastforce simp: request_ms_def)
  show "0 \<le> slowest (gather requests_in evs)" "slowest (gather requests_in evs) < 2 ^ 53" unfolding rs_def [symmetric]
  proof -
    have "slowest rs = 0 \<or> (\<exists>r \<in> set rs. slowest rs = request_ms r)"
    proof (cases "rs = []")
      case False
      then have "Max (set (map request_ms rs)) \<in> set (map request_ms rs)" by (intro Max_in) simp_all
      then show ?thesis using False by (metis (mono_tags) image_iff list.set_map slowest_def)
    qed (simp add: slowest_def)
    with all show "0 \<le> slowest rs" "slowest rs < 2 ^ 53" by auto
  qed
qed

lemma orderly_late:
  assumes "orderly c st (a @ b)"
  shows "late (run_edges_of a) (run_edges_of (a @ b)) (slowest (gather requests_in (a @ b)))"
  unfolding late_def
proof (intro ballI)
  fix x y assume "x \<in># run_edges_of (a @ b) - run_edges_of a" and y: "y \<in># run_edges_of a"
  then have x: "x \<in># run_edges_of b" by (simp add: run_edges_append)
  obtain r where r: "r \<in> set (gather requests_in b)" "re_tsMs x = rq_startMs r \<or> re_tsMs x = rq_endMs r"
    using x by (rule run_edge_of)
  obtain q where q: "q \<in> set (gather requests_in a)" "re_tsMs y = rq_startMs q \<or> re_tsMs y = rq_endMs q"
    using y by (rule run_edge_of)
  have "rq_endMs q \<le> rq_endMs r" using assms r(1) q(1) by (auto simp: orderly_def sorted_append)
  moreover have "rq_startMs q \<le> rq_endMs q" "rq_startMs r \<le> rq_endMs r" using assms r(1) q(1) by (auto simp: orderly_def)
  moreover have "request_ms r \<le> slowest (gather requests_in (a @ b))" using r(1) by (intro slowest_ge) simp
  ultimately show "re_tsMs y - slowest (gather requests_in (a @ b)) \<le> re_tsMs x"
    using r(2) q(2) by (auto simp: request_ms_def)
qed

section \<open>The message of a tick\<close>

text \<open>
  The cursor of a publication that told of the events \<open>a\<close>, and the cursor of a fresh owner.
\<close>

definition cursor_at :: "engine_config \<Rightarrow> int \<Rightarrow> canonical_event list \<Rightarrow> delta_cursor \<Rightarrow> bool" where
  "cursor_at c st a cur \<longleftrightarrow> (let w = dc_lastBucketWidthMs cur; N = run_edges_of a in
     settled (max 1 (ec_maxBucketsRun c)) st w N \<and> dc_lastPublishedOffsetMs cur = (if N = {#} then - 1 else Max (slots st w N)))"

definition fresh_cursor :: "delta_cursor \<Rightarrow> bool" where
  "fresh_cursor cur \<longleftrightarrow> dc_lastPublishedOffsetMs cur = - 1 \<and> dc_lastBucketWidthMs cur = 0"

lemma INITIAL_fresh: "fresh_cursor INITIAL_CURSOR"
  by (simp add: fresh_cursor_def INITIAL_CURSOR_def)

text \<open>The series of the tick at the events \<open>b\<close>, and a consumer's series that shows it.\<close>

definition series_at :: "engine_config \<Rightarrow> int \<Rightarrow> canonical_event list \<Rightarrow> series_response \<Rightarrow> bool" where
  "series_at c st b q \<longleftrightarrow> settled (max 1 (ec_maxBucketsRun c)) st (sq_bucketWidthMs q) (run_edges_of b) \<and>
     sq_buckets q = shown st (sq_bucketWidthMs q) (run_edges_of b)"

text \<open>
  \<open>brings a b env\<close>: the response-time envelope takes any consumer that holds the series of some events
  between \<open>a\<close> and \<open>b\<close> to the series of \<open>b\<close>; a whole envelope takes any consumer there.
\<close>

definition between :: "'a list \<Rightarrow> 'a list \<Rightarrow> 'a list \<Rightarrow> bool" where
  "between a x b \<longleftrightarrow> prefix a x \<and> prefix x b"

definition whole :: "engine_config \<Rightarrow> int \<Rightarrow> canonical_event list \<Rightarrow> live_response_time \<Rightarrow> bool" where
  "whole c st b env \<longleftrightarrow> rt_replaces env \<and> settled (max 1 (ec_maxBucketsRun c)) st (rt_widthMs env) (run_edges_of b) \<and>
     rt_buckets env = shown st (rt_widthMs env) (run_edges_of b)"

definition brings :: "engine_config \<Rightarrow> int \<Rightarrow> canonical_event list \<Rightarrow> canonical_event list \<Rightarrow> live_response_time \<Rightarrow> bool" where
  "brings c st a b env \<longleftrightarrow> (\<forall>x q runId. between a x b \<longrightarrow> series_at c st x q \<longrightarrow>
     series_at c st b (mergeResponseTime runId (Some q) env))"

lemma whole_seeds: "whole c st b env \<Longrightarrow> series_at c st b (mergeResponseTime runId prev env)"
  by (cases prev) (simp_all add: whole_def series_at_def mergeResponseTime_def Let_def replace_shown)

lemma settled_unique:
  assumes "settled cap st v M" and "settled cap st w M"
  shows "v = w"
  using settled_mono [OF assms] settled_mono [OF assms(2,1)] by simp

lemma run_edges_prefix: "prefix a b \<Longrightarrow> run_edges_of a \<subseteq># run_edges_of b"
  by (auto simp: prefix_def run_edges_append)

lemma window_brings:
  assumes "orderly c st b" and "prefix a b" and "cursor_at c st a cur" and "w = dc_lastBucketWidthMs cur"
    and "settled (max 1 (ec_maxBucketsRun c)) st w (run_edges_of b)"
    and "lookback_ms (slowest (gather requests_in b)) w = L * w" and "0 \<le> L" and "slowest (gather requests_in b) \<le> L * w"
    and "rt_widthMs env = w" and "\<not> rt_replaces env"
    and "rt_buckets env = map (shown_at st w (run_edges_of b))
      (sorted_list_of_set {off \<in> slots st w (run_edges_of b). dc_lastPublishedOffsetMs cur - L * w \<le> off})"
  shows "brings c st a b env"
  unfolding brings_def
proof (intro allI impI)
  fix x q runId assume x: "between a x b" and q: "series_at c st x q"
  let ?cap = "max 1 (ec_maxBucketsRun c)" and ?N = "run_edges_of a" and ?M = "run_edges_of x" and ?M' = "run_edges_of b"
  have sub: "?N \<subseteq># ?M" "?M \<subseteq># ?M'" using x by (auto simp: between_def intro: run_edges_prefix)
  have N: "settled ?cap st w ?N" using assms(3,4) by (simp add: cursor_at_def Let_def)
  have "w \<le> sq_bucketWidthMs q" "sq_bucketWidthMs q \<le> w"
    using settled_mono [OF N _ sub(1)] settled_mono [OF _ assms(5) sub(2)] q by (auto simp: series_at_def)
  then have width: "sq_bucketWidthMs q = w" by simp
  obtain y where y: "b = a @ y" using assms(2) by (auto simp: prefix_def)
  have "late ?N ?M' (slowest (gather requests_in b))" using orderly_late [OF assms(1) [unfolded y]] by (simp only: y)
  moreover have "\<forall>x \<in># ?M'. st \<le> re_tsMs x"
  proof
    fix e assume "e \<in># ?M'"
    then obtain r where "r \<in> set (gather requests_in b)" "re_tsMs e = rq_startMs r \<or> re_tsMs e = rq_endMs r"
      by (rule run_edge_of)
    with assms(1) show "st \<le> re_tsMs e" by (fastforce simp: orderly_def)
  qed
  moreover have "dc_lastPublishedOffsetMs cur = (if ?N = {#} then - 1 else Max (slots st w ?N))"
    using assms(3,4) by (simp add: cursor_at_def Let_def)
  ultimately have "upsert_buckets (shown st w ?M) (rt_buckets env) = shown st w ?M'"
    unfolding assms(11) using sub settled_width [OF N] assms(7,8) by (intro window_suffices) simp_all
  then show "series_at c st b (mergeResponseTime runId (Some q) env)"
    using q assms(5,9,10) by (simp add: series_at_def mergeResponseTime_def Let_def width)
qed

lemma fresh_max:
  assumes "finite S" and "\<forall>s \<in> S. 0 \<le> s" and "since = - 1 \<or> since \<in> S" and "(0 :: int) \<le> lb"
  shows "(if {s \<in> S. since - lb \<le> s} \<noteq> {} then Max {s \<in> S. since - lb \<le> s} else since) = (if S = {} then - 1 else Max S)"
proof (cases "S = {}")
  case True
  then show ?thesis using assms(3) by simp
next
  case False
  let ?F = "{s \<in> S. since - lb \<le> s}"
  have "Max S \<in> S" using False assms(1) by simp
  moreover have "since \<le> Max S" using assms(1-3) \<open>Max S \<in> S\<close> by (metis Max_ge le_minus_one_simps(1) order.trans)
  then have "since - lb \<le> Max S" using assms(4) by linarith
  ultimately have F: "Max S \<in> ?F" by simp
  then have "Max ?F = Max S" using assms(1) by (intro Max_eqI) auto
  with F False show ?thesis by auto
qed

lemma sum_list_all_map: "(\<And>x. x \<in> set xs \<Longrightarrow> f x = Inr (g x)) \<Longrightarrow> sum_list_all (map f xs) = Inr (map g xs)"
  by (induction xs) simp_all

lemma slots_nonneg:
  assumes "orderly c st b" and "0 < w"
  shows "\<forall>s \<in> slots st w (run_edges_of b). 0 \<le> s"
proof -
  have "0 \<le> slot_start st w e" if e: "e \<in># run_edges_of b" for e
  proof -
    obtain r where "r \<in> set (gather requests_in b)" "re_tsMs e = rq_startMs r \<or> re_tsMs e = rq_endMs r"
      using e by (rule run_edge_of)
    with assms(1) have "st \<le> re_tsMs e" by (fastforce simp: orderly_def)
    then show ?thesis using assms(2) by (simp add: slot_start_def pos_imp_zdiv_nonneg_iff)
  qed
  then show ?thesis by (auto simp: slots_def)
qed

lemma fresh_list:
  assumes "map f bs = sorted_list_of_set S" and "finite (S :: int set)"
  shows "map f (filter (\<lambda>b. k \<le> f b) bs) = sorted_list_of_set {s \<in> S. k \<le> s}"
proof -
  have "map f (filter (\<lambda>b. k \<le> f b) bs) = filter ((\<le>) k) (sorted_list_of_set S)"
    by (simp add: filter_map comp_def flip: assms(1))
  also have "\<dots> = sorted_list_of_set {s \<in> S. k \<le> s}"
    using assms(2) by (intro sorted_distinct_set_unique sorted_wrt_filter) auto
  finally show ?thesis .
qed

lemma settled_safe:
  assumes "orderly c st b" and "settled (max 1 cap) st w (run_edges_of b)"
  shows "0 < w" "w \<le> 2 ^ 53"
proof -
  show "0 < w" using settled_width [OF assms(2)] by simp
  have "st \<le> re_tsMs e \<and> re_tsMs e - st < 2 ^ 51" if e: "e \<in># run_edges_of b" for e
  proof -
    obtain r where "r \<in> set (gather requests_in b)" "re_tsMs e = rq_startMs r \<or> re_tsMs e = rq_endMs r"
      using e by (rule run_edge_of)
    with assms(1) show ?thesis by (fastforce simp: orderly_def)
  qed
  then have "w < 2 * 2 ^ 51" by (intro settled_small [OF assms(2)] ballI) auto
  then show "w \<le> 2 ^ 53" by simp
qed

text \<open>The message of a tick from a cursor: what it carries, and the cursor after it.\<close>

definition tells :: "engine_result \<Rightarrow> live_delta \<Rightarrow> bool" where
  "tells res d \<longleftrightarrow> ld_summary d = summary_of res \<and> ld_users d = users_envelope (xr_users res) \<and> ld_errors d = error_rows_of res"

lemma buildDelta_rep:
  assumes "result_rep lc c m b res" and "orderly c (me_startedAtMs m) b"
    and "fresh_cursor cur \<or> prefix a b \<and> cursor_at c (me_startedAtMs m) a cur"
  obtains d nxt where "buildDelta runId res cur sla = Inr (d, nxt)" "cursor_at c (me_startedAtMs m) b nxt"
    "dc_seq nxt = dc_seq cur + 1" "ld_seq d = dc_seq cur" "ld_runId d = runId" "tells res d" "ld_sla d = sla_envelope sla"
    "whole c (me_startedAtMs m) b (ld_responseTime d) \<or> \<not> fresh_cursor cur \<and> brings c (me_startedAtMs m) a b (ld_responseTime d)"
proof -
  let ?st = "me_startedAtMs m" and ?M = "run_edges_of b" and ?cap = "max 1 (ec_maxBucketsRun c)"
  obtain w bs where s: "run_series_of res = (w, bs)" "settled ?cap ?st w ?M"
    "map bk_startOffsetMs bs = sorted_list_of_set (slots ?st w ?M)"
    "\<And>b'. b' \<in> set bs \<Longrightarrow> wire_bucket b' = Inr (shown_at ?st w ?M (bk_startOffsetMs b'))"
    by (rule run_series_rep [OF assms(1)]) blast
  have w: "0 < w" "w \<le> 2 ^ 53" by (rule settled_safe [OF assms(2) s(2)])+
  define d where "d = slowest (gather requests_in b)"
  have max: "(case run_stat_of res of None \<Rightarrow> 0 | Some s \<Rightarrow> sr_maxMs s) = d"
    using run_stat_max [OF assms(1)] assms(2) unfolding d_def orderly_cold [OF assms(2)]
    by (auto simp: orderly_def request_ms_def)
  obtain L where L: "lookback_ms d w = L * w" "0 \<le> L" "d \<le> L * w"
    using lookback_covers [OF _ _ w] slowest_bounds [OF assms(2)] unfolding d_def by blast
  define replaces where "replaces \<longleftrightarrow> w \<noteq> dc_lastBucketWidthMs cur"
  define since where "since = (if replaces then - 1 else dc_lastPublishedOffsetMs cur)"
  define fresh where "fresh = filter (\<lambda>b. since - L * w \<le> bk_startOffsetMs b) bs"
  define F where "F = {off \<in> slots ?st w ?M. since - L * w \<le> off}"
  have offs: "map bk_startOffsetMs fresh = sorted_list_of_set F"
    unfolding fresh_def F_def by (rule fresh_list [OF s(3)]) simp
  have wire: "sum_list_all (map wire_bucket fresh) = Inr (map (shown_at ?st w ?M) (sorted_list_of_set F))"
    unfolding offs [symmetric] map_map comp_def by (rule sum_list_all_map) (auto simp: fresh_def s(4))
  have since: "since = - 1 \<or> since \<in> slots ?st w ?M"
  proof (cases "replaces \<or> fresh_cursor cur")
    case True
    then show ?thesis by (auto simp: since_def fresh_cursor_def)
  next
    case False
    then have c: "prefix a b" "cursor_at c ?st a cur" "dc_lastBucketWidthMs cur = w" "since = dc_lastPublishedOffsetMs cur"
      using assms(3) by (auto simp: replaces_def since_def)
    then have "since = (if run_edges_of a = {#} then - 1 else Max (slots ?st w (run_edges_of a)))" by (simp add: cursor_at_def Let_def)
    moreover have "Max (slots ?st w (run_edges_of a)) \<in> slots ?st w (run_edges_of a)" if "run_edges_of a \<noteq> {#}"
      using that by (intro Max_in) (simp_all add: slots_def)
    moreover have "slots ?st w (run_edges_of a) \<subseteq> slots ?st w ?M"
      using mset_subset_eqD [OF run_edges_prefix [OF c(1)]] by (auto simp: slots_def)
    ultimately show ?thesis by auto
  qed
  define env where "env = \<lparr>rt_widthMs = w, rt_replaces = replaces, rt_buckets = map (shown_at ?st w ?M) (sorted_list_of_set F)\<rparr>"
  let ?last = "if fresh \<noteq> [] then Max (set (map bk_startOffsetMs fresh)) else since"
  have ne: "fresh \<noteq> [] \<longleftrightarrow> F \<noteq> {}" using arg_cong [OF offs, of set] by (fastforce simp: F_def)
  have finF: "finite F" by (simp add: F_def)
  have "?last = (if F \<noteq> {} then Max F else since)" unfolding ne offs set_sorted_list_of_set [OF finF] ..
  also have "\<dots> = (if slots ?st w ?M = {} then - 1 else Max (slots ?st w ?M))"
    unfolding F_def using since L(2) w(1) slots_nonneg [OF assms(2) w(1)] by (intro fresh_max) simp_all
  finally have last: "?last = (if ?M = {#} then - 1 else Max (slots ?st w ?M))" by (simp add: slots_def)
  have "F = slots ?st w ?M" if "since = - 1"
  proof -
    have "0 \<le> L * w" using L(2) w(1) by simp
    then show ?thesis using slots_nonneg [OF assms(2) w(1)] that unfolding F_def by force
  qed
  then have wh: "whole c ?st b env" if "replaces"
    using that s(2) by (simp add: whole_def env_def shown_def since_def)
  have fresh_replaces: "replaces" if "fresh_cursor cur" using that w by (simp add: replaces_def fresh_cursor_def)
  have br: "brings c ?st a b env" if "\<not> replaces"
  proof -
    have c: "prefix a b" "cursor_at c ?st a cur" "w = dc_lastBucketWidthMs cur"
      using assms(3) that fresh_replaces by (auto simp: replaces_def)
    show ?thesis
      by (rule window_brings [OF assms(2) c s(2) L [unfolded d_def]]) (simp_all add: env_def that F_def since_def)
  qed
  let ?d = "\<lparr>ld_runId = runId, ld_seq = dc_seq cur, ld_summary = summary_of res, ld_responseTime = env,
     ld_users = users_envelope (xr_users res), ld_errors = error_rows_of res, ld_sla = sla_envelope sla\<rparr>"
  let ?nxt = "\<lparr>dc_seq = dc_seq cur + 1, dc_lastPublishedOffsetMs = ?last, dc_lastBucketWidthMs = w\<rparr>"
  have "fresh_buckets replaces cur d w bs = (since, fresh)"
    by (simp add: fresh_buckets_def since_def fresh_def L(1) Let_def)
  then have "buildDelta runId res cur sla = Inr (?d, ?nxt)"
    by (simp add: buildDelta_def s(1) max replaces_def [symmetric] wire env_def)
  moreover have "whole c ?st b env \<or> \<not> fresh_cursor cur \<and> brings c ?st a b env" using wh br fresh_replaces by blast
  ultimately show thesis using that [of ?d ?nxt] last s(2) by (simp add: cursor_at_def tells_def)
qed

end
