(* ===== verification/LiveSchema.thy ===== *)
theory LiveSchema
  imports LiveDelta
begin

text \<open>
  The wire contract of the live view (\<open>LiveDeltaSchema\<close> of \<open>contracts/live-delta.ts\<close>): what both ends
  accept. \<open>z.number()\<close> refuses values that are not finite, \<open>z.number().int()\<close> is a safe integer; the GUID
  pattern is the validation library's and a parameter. Fields whose model type already satisfies their
  schema (strings, booleans, finite numbers) leave no condition.
\<close>

definition zod_number :: "jnum \<Rightarrow> bool" where
  "zod_number v \<longleftrightarrow> (case v of JFin _ \<Rightarrow> True | _ \<Rightarrow> False)"

definition zod_int :: "int \<Rightarrow> bool" where
  "zod_int n \<longleftrightarrow> \<bar>n\<bar> \<le> 2 ^ 53 - 1"

definition zod_nullable :: "('a \<Rightarrow> bool) \<Rightarrow> 'a option \<Rightarrow> bool" where
  "zod_nullable P v \<longleftrightarrow> (case v of None \<Rightarrow> True | Some x \<Rightarrow> P x)"

definition LiveSummarySchema :: "live_summary \<Rightarrow> bool" where
  "LiveSummarySchema s \<longleftrightarrow> zod_int (su_count s) \<and> zod_int (su_okCount s) \<and> zod_int (su_koCount s) \<and>
     0 \<le> su_errorRate s \<and> su_errorRate s \<le> 1"

definition LiveSeriesBucketSchema :: "live_bucket \<Rightarrow> bool" where
  "LiveSeriesBucketSchema b \<longleftrightarrow> zod_int (lb_startOffsetMs b) \<and> zod_int (lb_startedCount b) \<and> zod_int (lb_endedCount b) \<and>
     zod_int (lb_okCount b) \<and> zod_int (lb_koCount b) \<and> zod_nullable zod_int (lb_startedOkCount b) \<and>
     zod_nullable zod_int (lb_startedKoCount b)"

definition LiveResponseTimeSchema :: "live_response_time \<Rightarrow> bool" where
  "LiveResponseTimeSchema r \<longleftrightarrow> zod_int (rt_widthMs r) \<and> 0 < rt_widthMs r \<and> list_all LiveSeriesBucketSchema (rt_buckets r)"

definition LiveUserBucketSchema :: "live_user_bucket \<Rightarrow> bool" where
  "LiveUserBucketSchema b \<longleftrightarrow> zod_int (lu_startOffsetMs b) \<and> zod_int (lu_started b) \<and> zod_int (lu_ended b)"

definition LiveUsersSchema :: "live_users \<Rightarrow> bool" where
  "LiveUsersSchema u \<longleftrightarrow> zod_int (lv_widthMs u) \<and> 0 < lv_widthMs u \<and> list_all LiveUserBucketSchema (lv_buckets u)"

definition LiveErrorsSchema :: "(jstr option \<times> int) list \<Rightarrow> bool" where
  "LiveErrorsSchema rows \<longleftrightarrow> list_all (\<lambda>(message, count). zod_int count) rows"

definition AssertionRuleSchema :: "wire_rule \<Rightarrow> bool" where
  "AssertionRuleSchema r \<longleftrightarrow> wr_scope r \<in> set SLA_RULE_SCOPES \<and> wr_family r \<in> set SLA_RULE_FAMILIES"

definition LiveBreachSchema :: "live_breach \<Rightarrow> bool" where
  "LiveBreachSchema b \<longleftrightarrow> zod_number (lq_actualValue b) \<and> zod_int (lq_sinceOffsetMs b) \<and> zod_nullable AssertionRuleSchema (lq_rule b)"

definition LiveSlaSchema :: "live_sla \<Rightarrow> bool" where
  "LiveSlaSchema s \<longleftrightarrow> zod_int (ls_evaluated s) \<and> zod_int (ls_notJudged s) \<and> list_all LiveBreachSchema (ls_breaching s)"

definition LiveDeltaSchema :: "(jstr \<Rightarrow> bool) \<Rightarrow> live_delta \<Rightarrow> bool" where
  "LiveDeltaSchema guid d \<longleftrightarrow> guid (ld_runId d) \<and> zod_int (ld_seq d) \<and> 0 \<le> ld_seq d \<and> LiveSummarySchema (ld_summary d) \<and>
     LiveResponseTimeSchema (ld_responseTime d) \<and> LiveUsersSchema (ld_users d) \<and> LiveErrorsSchema (ld_errors d) \<and>
     LiveSlaSchema (ld_sla d)"

end
