(* ===== verification/LiveOwner.thy ===== *)
theory LiveOwner
  imports LiveTick LiveSchema
begin

text \<open>
  The fold owner's side of the live view (\<open>worker/src/live/fold-owner.ts\<close>): folding what arrived since the
  last tick, publishing the tick on the channel and the replay stream, the periodic snapshot, and what a
  new owner resumes from. The size of a serialised message (\<open>bytes\<close>) is a parameter.
\<close>

section \<open>State and operations\<close>

record fold_state =
  fs_engine :: live_engine
  fs_cursor :: delta_cursor
  fs_rules :: "evaluable_rule list"
  fs_rulesLoadFailed :: bool
  fs_breachingSince :: "(jstr, int) jmap"
  fs_ticksSinceSnapshot :: int

text \<open>The two keys of a run: \<open>live:{runId}:deltas\<close> (oldest first) and \<open>live:{runId}:snapshot\<close>.\<close>

record run_keys =
  rk_stream :: "live_delta list"
  rk_snapshot :: "live_delta option"

text \<open>How far the three Redis calls of a publication got.\<close>

datatype redis_outcome = AllWritten | PublishRefused | XaddRefused | ExpireRefused

definition REPLAY_BUDGET_BYTES :: int where "REPLAY_BUDGET_BYTES = 4 * 1024 * 1024"
definition REPLAY_MAX_ENTRIES :: int where "REPLAY_MAX_ENTRIES = 200"
definition SNAPSHOT_EVERY_N_TICKS :: int where "SNAPSHOT_EVERY_N_TICKS = 60"

definition replayEntryCap :: "int \<Rightarrow> int" where
  "replayEntryCap bytes = min REPLAY_MAX_ENTRIES (max 1 \<lfloor>fdiv (of_int REPLAY_BUDGET_BYTES) (of_int bytes)\<rfloor>)"

text \<open>\<open>XADD key MAXLEN n\<close>: append, then keep the newest \<open>n\<close>.\<close>

definition xadd_maxlen :: "int \<Rightarrow> 'a \<Rightarrow> 'a list \<Rightarrow> 'a list" where
  "xadd_maxlen n x xs = (let ys = xs @ [x] in drop (length ys - nat n) ys)"

definition breaching_since :: "sla_assertion list \<Rightarrow> int \<Rightarrow> (jstr, int) jmap \<Rightarrow> (jstr, int) jmap" where
  "breaching_since breaching durationMs since =
     (let seen = map sa_ruleId breaching; kept = filter (\<lambda>(ruleId, _). ruleId \<in> set seen) since
      in fold (\<lambda>a m. if jm_get m (sa_ruleId a) = None then jm_set (sa_ruleId a) durationMs m else m) breaching kept)"

definition appended :: "redis_outcome \<Rightarrow> bool" where
  "appended outcome \<longleftrightarrow> outcome = AllWritten \<or> outcome = ExpireRefused"

definition write_snapshot :: "bool \<Rightarrow> jstr \<Rightarrow> engine_result \<Rightarrow> int \<Rightarrow> sla_input \<Rightarrow> fold_state \<times> run_keys \<Rightarrow> fold_state \<times> run_keys" where
  "write_snapshot setOk runId snapshot seq sla = (\<lambda>(s, k).
     let s = s\<lparr>fs_ticksSinceSnapshot := fs_ticksSinceSnapshot s + 1\<rparr>
     in if SNAPSHOT_EVERY_N_TICKS \<le> fs_ticksSinceSnapshot s
        then (case buildSnapshot runId snapshot seq sla of
            Inr body \<Rightarrow> if setOk then (s\<lparr>fs_ticksSinceSnapshot := 0\<rparr>, k\<lparr>rk_snapshot := Some body\<rparr>) else (s, k)
          | Inl _ \<Rightarrow> (s, k))
        else (s, k))"

definition publish :: "(jstr \<Rightarrow> jstr \<Rightarrow> int) \<Rightarrow> (live_delta \<Rightarrow> int) \<Rightarrow> redis_outcome \<Rightarrow> bool \<Rightarrow> jstr \<Rightarrow> fold_state \<times> run_keys \<Rightarrow>
    (stat_error + (fold_state \<times> run_keys) \<times> live_delta) option" where
  "publish lc bytes outcome setOk runId = (\<lambda>(s, k). case engine_snapshot lc True (fs_engine s) of
     None \<Rightarrow> None
   | Some (Inl err) \<Rightarrow> Some (Inl err)
   | Some (Inr (snapshot, e)) \<Rightarrow> Some (bind_sum
       (evaluateRules (Some liveEvidenceFloor) (fs_rules s) (toEvaluableStats (xr_stats snapshot))) (\<lambda>(assertions, _).
         let breaching = filter (\<lambda>a. sa_outcome a = RuleFailed) assertions;
             since = breaching_since breaching (xr_durationMs snapshot) (fs_breachingSince s);
             sla = \<lparr>si_assertions = assertions, si_breachingSince = since, si_rulesUnavailable = fs_rulesLoadFailed s\<rparr>;
             s = s\<lparr>fs_engine := e, fs_breachingSince := since\<rparr>
         in bind_sum (buildDelta runId snapshot (fs_cursor s) sla) (\<lambda>(delta, nxt).
           let k = (if appended outcome
                 then k\<lparr>rk_stream := xadd_maxlen (replayEntryCap (bytes delta)) delta (rk_stream k)\<rparr> else k)
           in if outcome = AllWritten
              then Inr (write_snapshot setOk runId snapshot (dc_seq nxt) sla (s\<lparr>fs_cursor := nxt\<rparr>, k), delta)
              else Inr ((s\<lparr>fs_cursor := (fs_cursor s)\<lparr>dc_seq := dc_seq nxt\<rparr>\<rparr>, k), delta)))))"

text \<open>What a claim starts from: the tip of the replay stream, when it reads as a delta.\<close>

definition resumeState :: "live_delta option \<Rightarrow> delta_cursor \<times> (jstr, int) jmap" where
  "resumeState tip = (case tip of None \<Rightarrow> (INITIAL_CURSOR, [])
   | Some d \<Rightarrow> if ld_seq d < 0 then (INITIAL_CURSOR, [])
       else (INITIAL_CURSOR\<lparr>dc_seq := ld_seq d + 1\<rparr>, if \<not> LiveSlaSchema (ld_sla d) then [] else
         fold (\<lambda>b. jm_set (lq_ruleId b) (lq_sinceOffsetMs b)) (ls_breaching (ld_sla d)) []))"

definition stream_tip :: "run_keys \<Rightarrow> live_delta option" where
  "stream_tip k = (if rk_stream k = [] then None else Some (last (rk_stream k)))"

definition claimed :: "live_delta option \<Rightarrow> engine_options \<Rightarrow> evaluable_rule list \<Rightarrow> bool \<Rightarrow> fold_state" where
  "claimed tip opts rules rulesLoadFailed = (let (cursor, since) = resumeState tip in
     \<lparr>fs_engine = new_engine opts, fs_cursor = cursor, fs_rules = rules, fs_rulesLoadFailed = rulesLoadFailed,
      fs_breachingSince = since, fs_ticksSinceSnapshot = SNAPSHOT_EVERY_N_TICKS\<rparr>)"

section \<open>A run of ticks\<close>

record tick =
  tk_events :: "canonical_event list"
  tk_outcome :: redis_outcome
  tk_setOk :: bool

text \<open>What was sent, with how far it got.\<close>

type_synonym sent = "(live_delta \<times> redis_outcome) list"

definition owner_tick :: "(jstr \<Rightarrow> jstr \<Rightarrow> int) \<Rightarrow> (live_delta \<Rightarrow> int) \<Rightarrow> jstr \<Rightarrow> tick \<Rightarrow> fold_state \<times> run_keys \<Rightarrow>
    (live_stop + (fold_state \<times> run_keys) \<times> live_delta) option" where
  "owner_tick lc bytes runId t = (\<lambda>(s, k). case engine_fold (tk_events t) (fs_engine s) of
     None \<Rightarrow> None
   | Some (Inl (err, _)) \<Rightarrow> Some (Inl (AddThrew err))
   | Some (Inr e) \<Rightarrow> map_option (map_sum SnapshotThrew id)
       (publish lc bytes (tk_outcome t) (tk_setOk t) runId (s\<lparr>fs_engine := e\<rparr>, k)))"

fun owner_run :: "(jstr \<Rightarrow> jstr \<Rightarrow> int) \<Rightarrow> (live_delta \<Rightarrow> int) \<Rightarrow> jstr \<Rightarrow> tick list \<Rightarrow> fold_state \<times> run_keys \<Rightarrow>
    (live_stop + (fold_state \<times> run_keys) \<times> sent) option" where
  "owner_run lc bytes runId [] S = Some (Inr (S, []))"
| "owner_run lc bytes runId (t # ts) S = (case owner_tick lc bytes runId t S of
     None \<Rightarrow> None
   | Some (Inl err) \<Rightarrow> Some (Inl err)
   | Some (Inr (S', d)) \<Rightarrow> map_option (map_sum id (map_prod id ((#) (d, tk_outcome t)))) (owner_run lc bytes runId ts S'))"

section \<open>What a consumer holds\<close>

text \<open>The three queries of the live page, for a run that has told the events \<open>b\<close>.\<close>

definition views :: "(jstr \<Rightarrow> jstr \<Rightarrow> int) \<Rightarrow> engine_config \<Rightarrow> meta_event \<Rightarrow> jstr \<Rightarrow> canonical_event list \<Rightarrow> live_cache \<Rightarrow> bool" where
  "views lc c m runId b cache \<longleftrightarrow> (\<exists>q. lc_series cache = Some q \<and> series_at c (me_startedAtMs m) b q) \<and>
     (\<exists>res. result_rep lc c m b res \<and> lc_users cache = Some (usersResponseFrom runId (users_envelope (xr_users res))) \<and>
       lc_errors cache = Some (error_rows_of res))"

text \<open>
  \<open>carries a b d\<close>: the message takes every consumer that holds the view of some events from \<open>a\<close> on to the
  view of \<open>b\<close>. \<open>reseeds b d\<close>: it takes every consumer there.
\<close>

definition carries :: "(jstr \<Rightarrow> jstr \<Rightarrow> int) \<Rightarrow> engine_config \<Rightarrow> meta_event \<Rightarrow> canonical_event list \<Rightarrow> canonical_event list \<Rightarrow> live_delta \<Rightarrow> bool" where
  "carries lc c m a b d \<longleftrightarrow> (\<forall>x cache runId. between a x b \<longrightarrow> views lc c m runId x cache \<longrightarrow> views lc c m runId b (applyDelta runId d cache))"

definition reseeds :: "(jstr \<Rightarrow> jstr \<Rightarrow> int) \<Rightarrow> engine_config \<Rightarrow> meta_event \<Rightarrow> canonical_event list \<Rightarrow> live_delta \<Rightarrow> bool" where
  "reseeds lc c m b d \<longleftrightarrow> (\<forall>cache runId. views lc c m runId b (applyDelta runId d cache))"

lemma whole_reseeds:
  assumes "result_rep lc c m b res" and "tells res d" and "whole c (me_startedAtMs m) b (ld_responseTime d)"
  shows "reseeds lc c m b d"
  using assms whole_seeds [OF assms(3)] by (auto simp: reseeds_def views_def applyDelta_def tells_def)

lemma brings_carries:
  assumes "result_rep lc c m b res" and "tells res d" and "brings c (me_startedAtMs m) a b (ld_responseTime d)"
  shows "carries lc c m a b d"
  unfolding carries_def
proof (intro allI impI)
  fix x cache runId assume x: "between a x b" and "views lc c m runId x cache"
  then obtain q where "lc_series cache = Some q" "series_at c (me_startedAtMs m) x q" by (auto simp: views_def)
  then show "views lc c m runId b (applyDelta runId d cache)"
    using assms x by (auto simp: views_def applyDelta_def tells_def brings_def)
qed

lemma reseeds_carries: "reseeds lc c m b d \<Longrightarrow> carries lc c m a b d"
  by (simp add: carries_def reseeds_def)

text \<open>The figures of a tick are those of the run folded in one go.\<close>

definition shows_result :: "jstr \<Rightarrow> engine_result \<Rightarrow> live_cache \<Rightarrow> bool" where
  "shows_result runId res cache \<longleftrightarrow> (\<exists>q bs. lc_series cache = Some q \<and> run_series_of res = (sq_bucketWidthMs q, bs) \<and>
     map wire_bucket bs = map Inr (sq_buckets q)) \<and>
     lc_users cache = Some (usersResponseFrom runId (users_envelope (xr_users res))) \<and> lc_errors cache = Some (error_rows_of res)"

lemma result_rep_same:
  assumes "result_rep lc c m b res" and "result_rep lc c m b res'"
  shows "xr_users res = xr_users res'" "xr_errors res = xr_errors res'"
  using assms by (simp_all add: result_rep_def Let_def)

lemma views_shows:
  assumes "views lc c m runId b cache" and "result_rep lc c m b res"
  shows "shows_result runId res cache"
proof -
  obtain q res' where q: "lc_series cache = Some q" "series_at c (me_startedAtMs m) b q" "result_rep lc c m b res'"
    "lc_users cache = Some (usersResponseFrom runId (users_envelope (xr_users res')))" "lc_errors cache = Some (error_rows_of res')"
    using assms(1) by (auto simp: views_def)
  obtain w bs where s: "run_series_of res = (w, bs)" "settled (max 1 (ec_maxBucketsRun c)) (me_startedAtMs m) w (run_edges_of b)"
    "map bk_startOffsetMs bs = sorted_list_of_set (slots (me_startedAtMs m) w (run_edges_of b))"
    "\<And>b'. b' \<in> set bs \<Longrightarrow> wire_bucket b' = Inr (shown_at (me_startedAtMs m) w (run_edges_of b) (bk_startOffsetMs b'))"
    by (rule run_series_rep [OF assms(2)]) blast
  have w: "sq_bucketWidthMs q = w" using q(2) s(2) by (auto simp: series_at_def dest: settled_unique)
  have "map wire_bucket bs = map (\<lambda>off. Inr (shown_at (me_startedAtMs m) w (run_edges_of b) off)) (map bk_startOffsetMs bs)"
    unfolding map_map comp_def by (rule map_cong) (simp_all add: s(4))
  also have "\<dots> = map Inr (sq_buckets q)" using q(2) unfolding s(3) w by (simp add: series_at_def shown_def w comp_def)
  finally have "map wire_bucket bs = map Inr (sq_buckets q)" .
  moreover have "xr_users res' = xr_users res" "error_rows_of res' = error_rows_of res"
    using result_rep_same [OF q(3) assms(2)] by (simp_all add: error_rows_of_def)
  ultimately show ?thesis using q s(1) w by (auto simp: shows_result_def)
qed

section \<open>One tick keeps the owner's state\<close>

lemma evaluate_never_throws: "plain_rules rules \<Longrightarrow> \<exists>as v. evaluateRules f rules stats = Inr (as, v)"
proof -
  assume rules: "plain_rules rules"
  have "\<exists>a. evaluate_rule f stats r = Inr a" if "r \<in> set rules" for r
    using evaluate_rule_spec [of r f stats] rules that by (auto simp: plain_rules_def list_all_iff)
  then have "sum_list_all (map (evaluate_rule f stats) rules) = Inr (map projr (map (evaluate_rule f stats) rules))"
    by (intro sum_list_all_Inr) auto
  then show ?thesis by (simp add: evaluateRules_def)
qed

text \<open>
  The owner's engine has folded \<open>evs\<close>, and its cursor stands for the events \<open>a\<close> of the last publication
  that was fully written (none so far: \<open>a = None\<close>). No rule of the claim names an inherited member as its metric.
\<close>

definition owner_rep :: "engine_config \<Rightarrow> meta_event \<Rightarrow> canonical_event list \<Rightarrow> canonical_event list option \<Rightarrow> fold_state \<Rightarrow> bool" where
  "owner_rep c m evs a s \<longleftrightarrow> (\<exists>e0. live_rep c m evs e0 (fs_engine s)) \<and> plain_rules (fs_rules s) \<and>
     (case a of None \<Rightarrow> fresh_cursor (fs_cursor s)
      | Some a \<Rightarrow> prefix a evs \<and> cursor_at c (me_startedAtMs m) a (fs_cursor s))"

lemma cursor_seq [simp]: "cursor_at c st a (cur\<lparr>dc_seq := n\<rparr>) = cursor_at c st a cur"
  "fresh_cursor (cur\<lparr>dc_seq := n\<rparr>) = fresh_cursor cur"
  by (simp_all add: cursor_at_def fresh_cursor_def)

lemma write_snapshot_keeps [simp]: "fs_cursor (fst (write_snapshot setOk runId res n sla (s, k))) = fs_cursor s"
  "fs_engine (fst (write_snapshot setOk runId res n sla (s, k))) = fs_engine s"
  "fs_rules (fst (write_snapshot setOk runId res n sla (s, k))) = fs_rules s"
  "rk_stream (snd (write_snapshot setOk runId res n sla (s, k))) = rk_stream k"
  by (simp_all add: write_snapshot_def Let_def split: sum.splits)

lemma bind_sum_Inr_eq: "bind_sum x f = Inr y \<longleftrightarrow> (\<exists>z. x = Inr z \<and> f z = Inr y)"
  by (cases x) auto

text \<open>A publication: its message, and the state and keys that it leaves.\<close>

lemma publish_rep:
  assumes rep: "owner_rep c m b a s" and run: "runnable c m b" and ord: "orderly c (me_startedAtMs m) b" and lc: "strict_cmp lc"
  obtains s' k' d where "publish lc bytes outcome setOk runId (s, k) = Some (Inr ((s', k'), d))"
    "owner_rep c m b (if outcome = AllWritten then Some b else a) s'" "ld_seq d = dc_seq (fs_cursor s)"
    "dc_seq (fs_cursor s') = dc_seq (fs_cursor s) + 1" "ld_runId d = runId"
    "case a of None \<Rightarrow> reseeds lc c m b d | Some a \<Rightarrow> carries lc c m a b d"
    "rk_stream k' = (if appended outcome then xadd_maxlen (replayEntryCap (bytes d)) d (rk_stream k) else rk_stream k)"
    "rk_snapshot k' = rk_snapshot k \<or> outcome = AllWritten \<and>
      (\<exists>sn. rk_snapshot k' = Some sn \<and> ld_seq sn = ld_seq d + 1 \<and> reseeds lc c m b sn)"
proof -
  obtain e0 where e0: "live_rep c m b e0 (fs_engine s)" using rep by (auto simp: owner_rep_def)
  then have "engine_rep c m b e0" by (simp add: live_rep_def)
  from snapshot_rep [OF this run, of lc True] obtain res e0' where
    snap: "engine_snapshot lc True e0 = Some (Inr (res, e0'))" and res: "result_rep lc c m b res" by blast
  from live_snapshot [OF e0 snap _ lc] run obtain e where
    e: "engine_snapshot lc True (fs_engine s) = Some (Inr (res, e))" "live_rep c m b e0 e" by (auto simp: runnable_def)
  obtain as v where as: "evaluateRules (Some liveEvidenceFloor) (fs_rules s) (toEvaluableStats (xr_stats res)) = Inr (as, v)"
    using evaluate_never_throws rep unfolding owner_rep_def by blast
  define sla where "sla = \<lparr>si_assertions = as, si_breachingSince = breaching_since (filter (\<lambda>a. sa_outcome a = RuleFailed) as)
    (xr_durationMs res) (fs_breachingSince s), si_rulesUnavailable = fs_rulesLoadFailed s\<rparr>"
  have "fresh_cursor (fs_cursor s) \<or> prefix (the a) b \<and> cursor_at c (me_startedAtMs m) (the a) (fs_cursor s)"
    using rep by (auto simp: owner_rep_def split: option.splits)
  from buildDelta_rep [OF res ord this, of runId sla] obtain d nxt where
    d: "buildDelta runId res (fs_cursor s) sla = Inr (d, nxt)" "cursor_at c (me_startedAtMs m) b nxt"
      "dc_seq nxt = dc_seq (fs_cursor s) + 1" "ld_seq d = dc_seq (fs_cursor s)" "ld_runId d = runId" "tells res d"
      "whole c (me_startedAtMs m) b (ld_responseTime d) \<or>
       \<not> fresh_cursor (fs_cursor s) \<and> brings c (me_startedAtMs m) (the a) b (ld_responseTime d)" by metis
  have "case a of None \<Rightarrow> reseeds lc c m b d | Some a \<Rightarrow> carries lc c m a b d"
    using d(7) rep whole_reseeds [OF res d(6)] brings_carries [OF res d(6)] reseeds_carries
    by (auto simp: owner_rep_def split: option.splits)
  note says = this
  define s1 where "s1 = s\<lparr>fs_engine := e, fs_breachingSince := si_breachingSince sla\<rparr>"
  define k1 where "k1 = (if appended outcome then k\<lparr>rk_stream := xadd_maxlen (replayEntryCap (bytes d)) d (rk_stream k)\<rparr> else k)"
  define S' where "S' = (if outcome = AllWritten then write_snapshot setOk runId res (dc_seq nxt) sla (s1\<lparr>fs_cursor := nxt\<rparr>, k1)
    else (s1\<lparr>fs_cursor := (fs_cursor s)\<lparr>dc_seq := dc_seq nxt\<rparr>\<rparr>, k1))"
  have pub: "publish lc bytes outcome setOk runId (s, k) = Some (Inr (S', d))"
    using e d(1) by (simp add: publish_def as S'_def s1_def k1_def sla_def Let_def)
  have sn: "\<exists>sn. buildSnapshot runId res (dc_seq nxt) sla = Inr sn \<and> ld_seq sn = dc_seq nxt \<and> reseeds lc c m b sn"
  proof -
    obtain d0 n0 where "buildDelta runId res INITIAL_CURSOR sla = Inr (d0, n0)" "tells res d0"
      "whole c (me_startedAtMs m) b (ld_responseTime d0)"
      using buildDelta_rep [OF res ord, of INITIAL_CURSOR] INITIAL_fresh by metis
    then show ?thesis using whole_reseeds [OF res, of "d0\<lparr>ld_seq := dc_seq nxt\<rparr>"]
      by (auto simp: buildSnapshot_def tells_def)
  qed
  have fs: "fs_engine (fst S') = e" "fs_rules (fst S') = fs_rules s"
    "fs_cursor (fst S') = (if outcome = AllWritten then nxt else (fs_cursor s)\<lparr>dc_seq := dc_seq nxt\<rparr>)"
    "rk_stream (snd S') = rk_stream k1" by (simp_all add: S'_def s1_def)
  have "rk_snapshot (snd S') = rk_snapshot k1 \<or> outcome = AllWritten \<and>
      (\<exists>sn. rk_snapshot (snd S') = Some sn \<and> ld_seq sn = ld_seq d + 1 \<and> reseeds lc c m b sn)"
    using sn d(3,4) by (auto simp: S'_def write_snapshot_def Let_def)
  moreover have "rk_snapshot k1 = rk_snapshot k"
    "rk_stream k1 = (if appended outcome then xadd_maxlen (replayEntryCap (bytes d)) d (rk_stream k) else rk_stream k)"
    by (simp_all add: k1_def)
  moreover have "owner_rep c m b (if outcome = AllWritten then Some b else a) (fst S')"
    using e(2) d(2) rep unfolding owner_rep_def fs(1-3) by (auto split: option.splits)
  ultimately show thesis
    using that [of "fst S'" "snd S'" d] pub d(3-5) says fs by (simp split: if_splits)
qed

section \<open>The history of what was sent\<close>

text \<open>
  \<open>history n a evs ts sent\<close>: from the seq \<open>n\<close> on, after the events \<open>evs\<close> and a last full publication at \<open>a\<close>,
  the ticks \<open>ts\<close> sent these messages. Only a publication that was fully written moves the frontier.
\<close>

fun history :: "(jstr \<Rightarrow> jstr \<Rightarrow> int) \<Rightarrow> engine_config \<Rightarrow> meta_event \<Rightarrow> int \<Rightarrow> canonical_event list option \<Rightarrow> canonical_event list \<Rightarrow>
    tick list \<Rightarrow> sent \<Rightarrow> bool" where
  "history lc c m n a evs [] sent \<longleftrightarrow> sent = []"
| "history lc c m n a evs (t # ts) sent \<longleftrightarrow> (\<exists>d rest. sent = (d, tk_outcome t) # rest \<and> ld_seq d = n \<and>
     (case a of None \<Rightarrow> reseeds lc c m (evs @ tk_events t) d
      | Some a \<Rightarrow> prefix a evs \<and> carries lc c m a (evs @ tk_events t) d) \<and>
     history lc c m (n + 1) (if tk_outcome t = AllWritten then Some (evs @ tk_events t) else a) (evs @ tk_events t) ts rest)"

lemma live_run_adds: "live_run lc (map AddEvent evs) e = map_option (map_sum (AddThrew \<circ> fst) id) (engine_fold evs e)"
  by (induction evs arbitrary: e) (auto split: option.splits sum.splits)

lemma events_of_adds [simp]: "events_of (map AddEvent evs) = evs"
  by (induction evs) simp_all

lemma live_fold:
  fixes lc :: "jstr \<Rightarrow> jstr \<Rightarrow> int"
  assumes "live_rep c m seen e0 e" and "runnable c m (seen @ evs)" and "fits c (seen @ evs)" and "strict_cmp lc"
  shows "\<exists>e0' e'. engine_fold evs e = Some (Inr e') \<and> live_rep c m (seen @ evs) e0' e'"
proof -
  obtain e0' e' where "live_run lc (map AddEvent evs) e = Some (Inr e')" "live_rep c m (seen @ evs) e0' e'"
    using live_run_rep [of c m seen e0 e "map AddEvent evs" lc] assms by auto
  moreover have "engine_fold evs e = Some (Inr e')" if "live_run lc (map AddEvent evs) e = Some (Inr e')"
    using that unfolding live_run_adds by (cases "engine_fold evs e"; cases "the (engine_fold evs e)") auto
  ultimately show ?thesis by blast
qed

text \<open>The keys after the ticks \<open>ts\<close>: a tail of what was appended, and a snapshot of a fully written tick.\<close>

abbreviation told :: "canonical_event list \<Rightarrow> tick list \<Rightarrow> canonical_event list" where
  "told evs ts \<equiv> evs @ concat (map tk_events ts)"

definition tail_of :: "'a list \<Rightarrow> 'a list \<Rightarrow> bool" where
  "tail_of xs ys \<longleftrightarrow> suffix xs ys \<and> (xs = [] \<longrightarrow> ys = [])"

definition snapshot_rep_at :: "(jstr \<Rightarrow> jstr \<Rightarrow> int) \<Rightarrow> engine_config \<Rightarrow> meta_event \<Rightarrow> int \<Rightarrow> canonical_event list \<Rightarrow> tick list \<Rightarrow> live_delta \<Rightarrow> bool" where
  "snapshot_rep_at lc c m n evs ts sn \<longleftrightarrow> (\<exists>ts1 ts2. ts = ts1 @ ts2 \<and> ts1 \<noteq> [] \<and> tk_outcome (last ts1) = AllWritten \<and>
     ld_seq sn = n + int (length ts1) \<and> reseeds lc c m (told evs ts1) sn)"

definition keys_rep :: "(jstr \<Rightarrow> jstr \<Rightarrow> int) \<Rightarrow> engine_config \<Rightarrow> meta_event \<Rightarrow> int \<Rightarrow> canonical_event list \<Rightarrow> tick list \<Rightarrow> sent \<Rightarrow> run_keys \<Rightarrow> bool" where
  "keys_rep lc c m n evs ts sent k \<longleftrightarrow> tail_of (rk_stream k) (map fst (filter (appended \<circ> snd) sent)) \<and>
     (\<forall>sn. rk_snapshot k = Some sn \<longrightarrow> snapshot_rep_at lc c m n evs ts sn)"

lemma xadd_tail: "tail_of xs ys \<Longrightarrow> 1 \<le> n \<Longrightarrow> tail_of (xadd_maxlen n x xs) (ys @ [x])"
  unfolding tail_of_def xadd_maxlen_def Let_def
  by (auto simp: suffix_def drop_append) (metis append.assoc append_take_drop_id)

lemma replayEntryCap_pos: "1 \<le> replayEntryCap b" "replayEntryCap b \<le> 200"
  by (simp_all add: replayEntryCap_def REPLAY_MAX_ENTRIES_def)

text \<open>One tick of the owner.\<close>

lemma owner_tick_rep:
  assumes rep: "owner_rep c m evs a s" and b: "b = evs @ tk_events t" and "runnable c m b" "fits c b"
    and ord: "orderly c (me_startedAtMs m) b" and lc: "strict_cmp lc"
  obtains s' k' d where "owner_tick lc bytes runId t (s, k) = Some (Inr ((s', k'), d))"
    "owner_rep c m b (if tk_outcome t = AllWritten then Some b else a) s'" "ld_seq d = dc_seq (fs_cursor s)"
    "dc_seq (fs_cursor s') = dc_seq (fs_cursor s) + 1" "ld_runId d = runId"
    "case a of None \<Rightarrow> reseeds lc c m b d | Some a \<Rightarrow> prefix a evs \<and> carries lc c m a b d"
    "rk_stream k' = (if appended (tk_outcome t) then xadd_maxlen (replayEntryCap (bytes d)) d (rk_stream k) else rk_stream k)"
    "rk_snapshot k' = rk_snapshot k \<or> tk_outcome t = AllWritten \<and>
      (\<exists>sn. rk_snapshot k' = Some sn \<and> ld_seq sn = ld_seq d + 1 \<and> reseeds lc c m b sn)"
proof -
  obtain e0 where e0: "live_rep c m evs e0 (fs_engine s)" using rep by (auto simp: owner_rep_def)
  from live_fold [OF e0 _ _ lc] assms(3,4) b obtain e0' e where
    e: "engine_fold (tk_events t) (fs_engine s) = Some (Inr e)" "live_rep c m b e0' e" by blast
  have before: "case a of None \<Rightarrow> True | Some a \<Rightarrow> prefix a evs" using rep by (simp add: owner_rep_def split: option.splits)
  have "owner_rep c m b a (s\<lparr>fs_engine := e\<rparr>)" using rep e(2) b by (auto simp: owner_rep_def split: option.splits)
  from publish_rep [OF this assms(3) ord lc, of bytes "tk_outcome t" "tk_setOk t" runId k] obtain s' k' d where
    p: "publish lc bytes (tk_outcome t) (tk_setOk t) runId (s\<lparr>fs_engine := e\<rparr>, k) = Some (Inr ((s', k'), d))"
    "owner_rep c m b (if tk_outcome t = AllWritten then Some b else a) s'" "ld_seq d = dc_seq (fs_cursor s)"
    "dc_seq (fs_cursor s') = dc_seq (fs_cursor s) + 1" "ld_runId d = runId"
    "case a of None \<Rightarrow> reseeds lc c m b d | Some a \<Rightarrow> carries lc c m a b d"
    "rk_stream k' = (if appended (tk_outcome t) then xadd_maxlen (replayEntryCap (bytes d)) d (rk_stream k) else rk_stream k)"
    "rk_snapshot k' = rk_snapshot k \<or> tk_outcome t = AllWritten \<and>
      (\<exists>sn. rk_snapshot k' = Some sn \<and> ld_seq sn = ld_seq d + 1 \<and> reseeds lc c m b sn)" by auto
  have "case a of None \<Rightarrow> reseeds lc c m b d | Some a \<Rightarrow> prefix a evs \<and> carries lc c m a b d"
    using p(6) before by (auto split: option.splits)
  moreover have "owner_tick lc bytes runId t (s, k) = Some (Inr ((s', k'), d))" by (simp add: owner_tick_def e(1) p(1))
  ultimately show thesis using that [of s' k' d] p(2-8) by blast
qed

section \<open>A run of ticks\<close>

lemma owner_run_append: "owner_run lc bytes runId (ts @ us) S = (case owner_run lc bytes runId ts S of
     None \<Rightarrow> None
   | Some (Inl err) \<Rightarrow> Some (Inl err)
   | Some (Inr (S', sent)) \<Rightarrow> map_option (map_sum id (map_prod id ((@) sent))) (owner_run lc bytes runId us S'))"
proof (induction ts arbitrary: S)
  case Nil
  have "map_option (map_sum id (map_prod id ((@) []))) x = x" for x :: "(live_stop + (fold_state \<times> run_keys) \<times> sent) option"
    by (cases x; cases "the x") auto
  then show ?case by simp
next
  case (Cons t ts)
  have "(@) (x # xs) = (\<lambda>ys. x # xs @ ys)" for x :: "live_delta \<times> redis_outcome" and xs by auto
  then show ?case
    by (simp add: Cons.IH comp_def option.map_comp sum.map_comp prod.map_comp id_def split: option.splits sum.splits prod.splits)
qed

lemma snapshot_rep_Cons:
  "snapshot_rep_at lc c m (n + 1) (evs @ tk_events t) ts sn \<Longrightarrow> snapshot_rep_at lc c m n evs (t # ts) sn"
  unfolding snapshot_rep_at_def by (elim exE conjE) (rule_tac x = "t # ts1" in exI, simp add: algebra_simps)

lemma snapshot_rep_first:
  assumes "tk_outcome t = AllWritten" and "ld_seq sn = n + 1" and "reseeds lc c m (evs @ tk_events t) sn"
  shows "snapshot_rep_at lc c m n evs (t # ts) sn"
  unfolding snapshot_rep_at_def using assms by (intro exI [of _ "[t]"] exI [of _ ts]) simp

lemma owner_run_rep:
  assumes "owner_rep c m evs a s" and "dc_seq (fs_cursor s) = n" and "runnable c m (told evs ts)" and "fits c (told evs ts)"
    and "orderly c (me_startedAtMs m) (told evs ts)" and lc: "strict_cmp lc"
  shows "\<exists>s' k' sent a'. owner_run lc bytes runId ts (s, k) = Some (Inr ((s', k'), sent)) \<and> history lc c m n a evs ts sent \<and>
    owner_rep c m (told evs ts) a' s' \<and> dc_seq (fs_cursor s') = n + int (length ts) \<and>
    (\<forall>ys. tail_of (rk_stream k) ys \<longrightarrow> tail_of (rk_stream k') (ys @ map fst (filter (appended \<circ> snd) sent))) \<and>
    (rk_snapshot k' = rk_snapshot k \<or> (\<exists>sn. rk_snapshot k' = Some sn \<and> snapshot_rep_at lc c m n evs ts sn))"
  using assms(1-5)
proof (induction ts arbitrary: evs a s n k)
  case Nil
  then show ?case by auto
next
  case (Cons t ts)
  let ?b = "evs @ tk_events t"
  have more: "runnable c m (told ?b ts)" "fits c (told ?b ts)" "orderly c (me_startedAtMs m) (told ?b ts)" using Cons.prems by simp_all
  obtain s1 k1 d where t: "owner_tick lc bytes runId t (s, k) = Some (Inr ((s1, k1), d))"
    "owner_rep c m ?b (if tk_outcome t = AllWritten then Some ?b else a) s1" "ld_seq d = dc_seq (fs_cursor s)"
    "dc_seq (fs_cursor s1) = dc_seq (fs_cursor s) + 1"
    "case a of None \<Rightarrow> reseeds lc c m ?b d | Some a \<Rightarrow> prefix a evs \<and> carries lc c m a ?b d"
    "rk_stream k1 = (if appended (tk_outcome t) then xadd_maxlen (replayEntryCap (bytes d)) d (rk_stream k) else rk_stream k)"
    "rk_snapshot k1 = rk_snapshot k \<or> tk_outcome t = AllWritten \<and>
      (\<exists>sn. rk_snapshot k1 = Some sn \<and> ld_seq sn = ld_seq d + 1 \<and> reseeds lc c m ?b sn)"
    by (rule owner_tick_rep [OF Cons.prems(1) refl runnable_prefix [OF more(1)] fits_prefix [OF more(2)] orderly_append [OF more(3)] lc,
        of bytes runId k]) (rule that)
  have n1: "dc_seq (fs_cursor s1) = n + 1" using t(4) Cons.prems(2) by simp
  from Cons.IH [OF t(2) n1 more, of k1] obtain s' k' sent a' where
    IH: "owner_run lc bytes runId ts (s1, k1) = Some (Inr ((s', k'), sent))"
    "history lc c m (n + 1) (if tk_outcome t = AllWritten then Some ?b else a) ?b ts sent"
    "owner_rep c m (told ?b ts) a' s'" "dc_seq (fs_cursor s') = n + 1 + int (length ts)"
    "\<forall>ys. tail_of (rk_stream k1) ys \<longrightarrow> tail_of (rk_stream k') (ys @ map fst (filter (appended \<circ> snd) sent))"
    "rk_snapshot k' = rk_snapshot k1 \<or> (\<exists>sn. rk_snapshot k' = Some sn \<and> snapshot_rep_at lc c m (n + 1) ?b ts sn)" by blast
  let ?sent = "(d, tk_outcome t) # sent"
  have "owner_run lc bytes runId (t # ts) (s, k) = Some (Inr ((s', k'), ?sent))" using t(1) IH(1) by simp
  moreover have "history lc c m n a evs (t # ts) ?sent" using IH(2) t(3,5) Cons.prems(2) by simp
  moreover have "owner_rep c m (told evs (t # ts)) a' s'" using IH(3) by simp
  moreover have "tail_of (rk_stream k') (ys @ map fst (filter (appended \<circ> snd) ?sent))" if "tail_of (rk_stream k) ys" for ys
  proof (cases "appended (tk_outcome t)")
    case True
    then have "tail_of (rk_stream k1) (ys @ [d])" using t(6) xadd_tail [OF that replayEntryCap_pos(1)] by simp
    from IH(5) [rule_format, OF this] True show ?thesis by simp
  next
    case False
    then show ?thesis using IH(5) t(6) that by simp
  qed
  moreover have "rk_snapshot k' = rk_snapshot k \<or> (\<exists>sn. rk_snapshot k' = Some sn \<and> snapshot_rep_at lc c m n evs (t # ts) sn)"
    using IH(6) t(3,7) Cons.prems(2) snapshot_rep_Cons [of lc c m n evs t ts] snapshot_rep_first [of t _ n lc c m evs ts] by auto
  moreover have "dc_seq (fs_cursor s') = n + int (length (t # ts))" using IH(4) by simp
  ultimately show ?case by blast
qed

text \<open>A claim, and its first tick: the one that reads the header.\<close>

lemma claimed_rep:
  assumes "plain_rules rules"
  shows "owner_rep (engine_config_of opts) m [] None ((claimed tip opts rules failed)\<lparr>fs_engine := add_meta m (new_engine opts)\<rparr>)"
proof -
  have "fresh_cursor (fst (resumeState tip))"
    by (simp add: resumeState_def INITIAL_fresh split: option.splits)
  then show ?thesis
    using engine_rep_start [of opts m] assms
    by (auto simp: owner_rep_def claimed_def live_rep_def add_meta_def new_engine_def split: prod.splits)
qed

lemma header_tick:
  assumes "tk_events t = MetaE m # evs"
  shows "owner_run lc bytes runId (t # ts) (claimed tip opts rules failed, k) =
    owner_run lc bytes runId (t\<lparr>tk_events := evs\<rparr> # ts)
      ((claimed tip opts rules failed)\<lparr>fs_engine := add_meta m (new_engine opts)\<rparr>, k)"
proof -
  have "fs_engine (claimed tip opts rules failed) = new_engine opts" by (simp add: claimed_def split: prod.splits)
  then show ?thesis by (simp add: owner_tick_def assms engine_add_def cong: option.case_cong sum.case_cong)
qed

end
