(* ===== verification/LiveGateway.thy ===== *)
theory LiveGateway
  imports LiveOwner
begin

text \<open>
  The gateway between the run's keys and a browser (\<open>api/src/live/live.gateway.ts\<close>): how a connection is
  seeded from the snapshot and the replay stream, what is held back meanwhile, and what is relayed
  afterwards. The authorization before the handshake and the process's socket bookkeeping are not modelled.
\<close>

definition MAX_BUFFERED_BYTES :: int where "MAX_BUFFERED_BYTES = 8 * 1024 * 1024"
definition MAX_PENDING_DELTAS :: int where "MAX_PENDING_DELTAS = 8"
definition CLOSE_UNAUTHORIZED :: int where "CLOSE_UNAUTHORIZED = 4401"
definition CLOSE_TOO_FAR_BEHIND :: int where "CLOSE_TOO_FAR_BEHIND = 4408"

datatype frame = SnapshotFrame (fr_partial: bool) (fr_lastSeq: int) live_delta | DeltaFrame live_delta

definition seqOf :: "live_delta \<Rightarrow> int option" where
  "seqOf body = (if 0 \<le> ld_seq body then Some (ld_seq body) else None)"

definition readResumeCursor :: "jstr option \<Rightarrow> int option" where
  "readResumeCursor raw = (case raw of None \<Rightarrow> None
   | Some s \<Rightarrow> if s = [] \<or> \<not> list_all is_digit s then None
       else let value = digits_value s 0 in if value \<le> 2 ^ 53 - 1 then Some value else None)"

definition emptyDelta :: "jstr \<Rightarrow> live_delta" where
  "emptyDelta runId = \<lparr>ld_runId = runId, ld_seq = 0,
     ld_summary = \<lparr>su_count = 0, su_okCount = 0, su_koCount = 0, su_errorRate = 0, su_percentiles = [], su_maxUsers = 0,
       su_durationMs = 0, su_activityMs = None\<rparr>,
     ld_responseTime = \<lparr>rt_widthMs = 1000, rt_replaces = True, rt_buckets = []\<rparr>,
     ld_users = \<lparr>lv_widthMs = 1000, lv_buckets = []\<rparr>, ld_errors = [],
     ld_sla = \<lparr>ls_evaluated = 0, ls_notJudged = 0, ls_rulesUnavailable = False, ls_breaching = []\<rparr>\<rparr>"

section \<open>Seeding\<close>

type_synonym stream_entry = "int \<times> live_delta"

definition readStream :: "run_keys \<Rightarrow> stream_entry list" where
  "readStream k = List.map_filter (\<lambda>body. map_option (\<lambda>seq. (seq, body)) (seqOf body)) (rk_stream k)"

definition readSnapshot :: "run_keys \<Rightarrow> stream_entry option" where
  "readSnapshot k = Option.bind (rk_snapshot k) (\<lambda>body. map_option (\<lambda>seq. (seq, body)) (seqOf body))"

record seed =
  sd_snapshot :: "live_delta option"
  sd_partial :: bool
  sd_replay :: "stream_entry list"
  sd_lastSeq :: int

definition last_seq_or :: "int \<Rightarrow> stream_entry list \<Rightarrow> int" where
  "last_seq_or d entries = (if entries = [] then d else fst (last entries))"

text \<open>One attempt: the snapshot is read before the stream. The flag says that the stream starts after it.\<close>

definition attemptSeed :: "jstr \<Rightarrow> run_keys \<Rightarrow> run_keys \<Rightarrow> seed \<times> bool" where
  "attemptSeed runId atSnapshot atStream =
     (let snapshot = readSnapshot atSnapshot; entries = readStream atStream
      in case snapshot of
        None \<Rightarrow> (\<lparr>sd_snapshot = Some (case entries of [] \<Rightarrow> emptyDelta runId | (_, body) # _ \<Rightarrow> body), sd_partial = True,
          sd_replay = drop 1 entries, sd_lastSeq = last_seq_or (- 1) entries\<rparr>, False)
      | Some (seq, body) \<Rightarrow>
          (let holed = (entries \<noteq> [] \<and> seq < fst (hd entries)); replay = filter (\<lambda>(s, _). seq \<le> s) entries
           in (\<lparr>sd_snapshot = Some body, sd_partial = holed, sd_replay = replay,
             sd_lastSeq = last_seq_or (seq - 1) replay\<rparr>, holed)))"

text \<open>The keys as they are at each read: the resume read, and the snapshot and stream reads of two attempts.\<close>

record seed_reads =
  at_resume :: run_keys
  at_snapshot1 :: run_keys
  at_stream1 :: run_keys
  at_snapshot2 :: run_keys
  at_stream2 :: run_keys

definition seed_fresh :: "jstr \<Rightarrow> seed_reads \<Rightarrow> seed" where
  "seed_fresh runId reads = (let (first, holed) = attemptSeed runId (at_snapshot1 reads) (at_stream1 reads)
     in if holed then fst (attemptSeed runId (at_snapshot2 reads) (at_stream2 reads)) else first)"

definition seed_of :: "jstr \<Rightarrow> int option \<Rightarrow> seed_reads \<Rightarrow> seed" where
  "seed_of runId clientLastSeq reads = (case clientLastSeq of
     None \<Rightarrow> seed_fresh runId reads
   | Some cursor \<Rightarrow> (let entries = readStream (at_resume reads)
       in if entries = [] \<or> fst (hd entries) \<le> cursor + 1
          then (let replay = filter (\<lambda>(s, _). cursor < s) entries
            in \<lparr>sd_snapshot = None, sd_partial = False, sd_replay = replay, sd_lastSeq = last_seq_or cursor replay\<rparr>)
          else seed_fresh runId reads))"

section \<open>Serving one socket\<close>

text \<open>
  The socket as \<open>serve\<close> sees it: messages of the channel wait in \<open>gs_pending\<close> until the seed is out.
  \<open>gs_closed\<close> is the close code once the gateway closed it.
\<close>

record gateway_socket =
  gs_seeded :: bool
  gs_pending :: "live_delta list"
  gs_sent :: "frame list"
  gs_closed :: "int option"

definition joined :: gateway_socket where
  "joined = \<lparr>gs_seeded = False, gs_pending = [], gs_sent = [], gs_closed = None\<rparr>"

text \<open>\<open>write\<close>: \<open>bufferedAmount\<close> is what the peer has not read yet.\<close>

definition gw_write :: "int \<Rightarrow> frame \<Rightarrow> gateway_socket \<Rightarrow> gateway_socket" where
  "gw_write bufferedAmount f g = (if gs_closed g \<noteq> None then g
     else if MAX_BUFFERED_BYTES < bufferedAmount then g\<lparr>gs_closed := Some CLOSE_TOO_FAR_BEHIND\<rparr>
     else g\<lparr>gs_sent := gs_sent g @ [f]\<rparr>)"

definition gw_deliver :: "int \<Rightarrow> live_delta \<Rightarrow> gateway_socket \<Rightarrow> gateway_socket" where
  "gw_deliver bufferedAmount body = gw_write bufferedAmount (DeltaFrame body)"

definition sink_send :: "int \<Rightarrow> live_delta \<Rightarrow> gateway_socket \<Rightarrow> gateway_socket" where
  "sink_send bufferedAmount body g = (if gs_seeded g
     then (if seqOf body \<noteq> None then gw_deliver bufferedAmount body g else g)
     else if MAX_PENDING_DELTAS \<le> int (length (gs_pending g))
     then g\<lparr>gs_closed := (case gs_closed g of None \<Rightarrow> Some CLOSE_TOO_FAR_BEHIND | code \<Rightarrow> code)\<rparr>
     else g\<lparr>gs_pending := gs_pending g @ [body]\<rparr>)"

text \<open>The seed is out: snapshot, replay, then what was held back and is newer.\<close>

definition finish_seed :: "int \<Rightarrow> seed \<Rightarrow> gateway_socket \<Rightarrow> gateway_socket" where
  "finish_seed bufferedAmount s g = (if gs_closed g \<noteq> None then g
     else let g1 = (case sd_snapshot s of None \<Rightarrow> g
            | Some body \<Rightarrow> gw_write bufferedAmount (SnapshotFrame (sd_partial s) (sd_lastSeq s) body) g);
          g2 = fold (\<lambda>(_, body). gw_deliver bufferedAmount body) (sd_replay s) g1;
          buffered = gs_pending g2;
          newer = filter (\<lambda>body. case seqOf body of Some seq \<Rightarrow> sd_lastSeq s < seq | None \<Rightarrow> False) buffered
      in fold (gw_deliver bufferedAmount) newer (g2\<lparr>gs_pending := [], gs_seeded := True\<rparr>))"

definition serve :: "jstr \<Rightarrow> int \<Rightarrow> int option \<Rightarrow> seed_reads \<Rightarrow> live_delta list \<Rightarrow> live_delta list \<Rightarrow> gateway_socket" where
  "serve runId bufferedAmount clientLastSeq reads during after =
     fold (sink_send bufferedAmount) after (finish_seed bufferedAmount (seed_of runId clientLastSeq reads)
       (fold (sink_send bufferedAmount) during joined))"

end
