(* ===== verification/LiveClient.thy ===== *)
theory LiveClient
  imports LiveGateway
begin

text \<open>
  The browser's end of the socket (\<open>useLiveRun\<close> of \<open>web/src/api/live.ts\<close>): the resume point, the gap
  detector and the reconnect schedule.
\<close>

definition BASE_BACKOFF_MS :: int where "BASE_BACKOFF_MS = 1000"
definition MAX_BACKOFF_MS :: int where "MAX_BACKOFF_MS = 30000"

definition backoffDelayMs :: "nat \<Rightarrow> rat \<Rightarrow> rat" where
  "backoffDelayMs attempt random = fmul random (of_int (min MAX_BACKOFF_MS (BASE_BACKOFF_MS * 2 ^ attempt)))"

record live_client =
  cl_cache :: live_cache
  cl_lastSeq :: "int option"
  cl_expectSeq :: "int option"
  cl_attempt :: nat
  cl_partial :: bool
  cl_connected :: bool
  cl_unauthorized :: bool
  cl_applied :: bool

definition new_client :: "live_cache \<Rightarrow> live_client" where
  "new_client cache = \<lparr>cl_cache = cache, cl_lastSeq = None, cl_expectSeq = None, cl_attempt = 0, cl_partial = False,
     cl_connected = False, cl_unauthorized = False, cl_applied = False\<rparr>"

text \<open>The resume parameter of the URL; a negative cursor is sent, and reads as a fresh connection.\<close>

definition resume_param :: "live_client \<Rightarrow> jstr option" where
  "resume_param cl = map_option js_int (cl_lastSeq cl)"

definition on_open :: "live_client \<Rightarrow> live_client" where
  "on_open cl = cl\<lparr>cl_connected := True\<rparr>"

definition apply_frame :: "jstr \<Rightarrow> live_delta \<Rightarrow> live_client \<Rightarrow> live_client" where
  "apply_frame runId delta cl = cl\<lparr>cl_attempt := 0, cl_cache := applyDelta runId delta (cl_cache cl), cl_applied := True\<rparr>"

text \<open>A message of the socket; the flag says that the client closed it.\<close>

fun on_message :: "jstr \<Rightarrow> frame \<Rightarrow> live_client \<Rightarrow> live_client \<times> bool" where
  "on_message runId (SnapshotFrame isPartial lastSeq delta) cl =
     (apply_frame runId delta (cl\<lparr>cl_lastSeq := Some lastSeq, cl_expectSeq := None, cl_partial := isPartial\<rparr>), False)"
| "on_message runId (DeltaFrame delta) cl = (let seq = ld_seq delta in case cl_expectSeq cl of
     Some expect \<Rightarrow>
       if expect < seq then (cl, True)
       else if seq < expect then (cl, False)
       else (apply_frame runId delta (cl\<lparr>cl_lastSeq := Some seq, cl_expectSeq := Some (seq + 1)\<rparr>), False)
   | None \<Rightarrow> (apply_frame runId delta (cl\<lparr>cl_lastSeq := Some seq, cl_expectSeq := Some (seq + 1)\<rparr>), False))"

text \<open>A socket that was closed delivers nothing more.\<close>

fun on_messages :: "jstr \<Rightarrow> frame list \<Rightarrow> live_client \<Rightarrow> live_client \<times> bool" where
  "on_messages runId [] cl = (cl, False)"
| "on_messages runId (f # fs) cl = (case on_message runId f cl of
     (cl', True) \<Rightarrow> (cl', True)
   | (cl', False) \<Rightarrow> on_messages runId fs cl')"

text \<open>The socket closed: the delay until the next connection, or none for good.\<close>

definition on_close :: "int \<Rightarrow> rat \<Rightarrow> live_client \<Rightarrow> live_client \<times> rat option" where
  "on_close code random cl = (let cl = cl\<lparr>cl_connected := False\<rparr> in
     if code = CLOSE_UNAUTHORIZED then (cl\<lparr>cl_unauthorized := True\<rparr>, None)
     else (cl\<lparr>cl_attempt := cl_attempt cl + 1\<rparr>, Some (backoffDelayMs (cl_attempt cl) random)))"

end
