(* ===== verification/LiveReplay.thy ===== *)
theory LiveReplay
  imports LiveClient JsDecimal
begin

text \<open>
  Joining a live run: the seed, the replay and what was held back meet without a hole. The owner's calls to
  Redis and the viewer's reads may interleave in any way, as long as the reads see every message that was published
  before the viewer joined the channel.
\<close>

section \<open>Numbered messages\<close>

definition numbered :: "int \<Rightarrow> live_delta list \<Rightarrow> bool" where
  "numbered n ds \<longleftrightarrow> (\<forall>i < length ds. ld_seq (ds ! i) = n + int i)"

lemma numbered_Nil [simp]: "numbered n []"
  by (simp add: numbered_def)

lemma numbered_Cons [simp]: "numbered n (d # ds) \<longleftrightarrow> ld_seq d = n \<and> numbered (n + 1) ds"
  unfolding numbered_def by (simp add: All_less_Suc2 algebra_simps)

lemma numbered_drop: "numbered n ds \<Longrightarrow> numbered (n + int x) (drop x ds)"
  by (auto simp: numbered_def algebra_simps)

lemma numbered_take: "numbered n ds \<Longrightarrow> numbered n (take x ds)"
  by (auto simp: numbered_def)

lemma numbered_filter: "numbered n ds \<Longrightarrow> filter (\<lambda>d. v \<le> ld_seq d) ds = drop (nat (v - n)) ds"
proof (induction ds arbitrary: n)
  case (Cons d ds)
  show ?case
  proof (cases "v \<le> n")
    case True
    then show ?thesis using Cons.IH [of "n + 1"] Cons.prems by simp
  next
    case False
    then have "nat (v - n) = Suc (nat (v - (n + 1)))" by simp
    with Cons False show ?thesis by (simp del: diff_diff_eq)
  qed
qed simp

lemma numbered_last: "numbered n ds \<Longrightarrow> ds \<noteq> [] \<Longrightarrow> ld_seq (last ds) = n + int (length ds) - 1"
proof (cases ds rule: rev_cases)
  case (snoc ys y)
  moreover assume "numbered n ds"
  ultimately have "ld_seq ((ys @ [y]) ! length ys) = n + int (length ys)" unfolding numbered_def by auto
  then show ?thesis by (simp add: snoc)
qed simp

lemma numbered_nonneg: "numbered n ds \<Longrightarrow> 0 \<le> n \<Longrightarrow> d \<in> set ds \<Longrightarrow> seqOf d = Some (ld_seq d)"
  by (auto simp: numbered_def seqOf_def in_set_conv_nth)

abbreviation entries_of :: "live_delta list \<Rightarrow> stream_entry list" where
  "entries_of ds \<equiv> map (\<lambda>d. (ld_seq d, d)) ds"

lemma readStream_entries:
  assumes "\<forall>d \<in> set (rk_stream k). seqOf d = Some (ld_seq d)"
  shows "readStream k = entries_of (rk_stream k)"
  using assms unfolding readStream_def by (induction "rk_stream k" arbitrary: k) (auto simp: map_filter_def)

lemma filter_entries: "filter (\<lambda>(s, _). P s) (entries_of ds) = entries_of (filter (\<lambda>d. P (ld_seq d)) ds)"
  by (simp add: filter_map comp_def)

lemma last_seq_entries: "last_seq_or d (entries_of ds) = (if ds = [] then d else ld_seq (last ds))"
  by (simp add: last_seq_or_def last_map)

section \<open>The client follows numbered deltas\<close>

lemma follow_deltas:
  assumes "numbered m xs" and "cl_expectSeq cl = None \<or> cl_expectSeq cl = Some m"
  shows "\<exists>cl'. on_messages runId (map DeltaFrame xs) cl = (cl', False) \<and> cl_cache cl' = fold (applyDelta runId) xs (cl_cache cl) \<and>
    cl_partial cl' = cl_partial cl \<and> cl_lastSeq cl' = (if xs = [] then cl_lastSeq cl else Some (m + int (length xs) - 1)) \<and>
    (xs \<noteq> [] \<longrightarrow> cl_expectSeq cl' = Some (m + int (length xs)) \<and> cl_attempt cl' = 0)"
  using assms
proof (induction xs arbitrary: m cl)
  case Nil
  then show ?case by simp
next
  case (Cons x xs)
  define cl1 where "cl1 = apply_frame runId x (cl\<lparr>cl_lastSeq := Some m, cl_expectSeq := Some (m + 1)\<rparr>)"
  have "on_message runId (DeltaFrame x) cl = (cl1, False)"
    using Cons.prems by (auto simp: cl1_def Let_def)
  moreover obtain cl' where "on_messages runId (map DeltaFrame xs) cl1 = (cl', False)"
    "cl_cache cl' = fold (applyDelta runId) xs (cl_cache cl1)" "cl_partial cl' = cl_partial cl1"
    "cl_lastSeq cl' = (if xs = [] then cl_lastSeq cl1 else Some (m + 1 + int (length xs) - 1))"
    "xs \<noteq> [] \<longrightarrow> cl_expectSeq cl' = Some (m + 1 + int (length xs)) \<and> cl_attempt cl' = 0"
    using Cons.IH [of "m + 1" cl1] Cons.prems(1) by (auto simp: cl1_def apply_frame_def)
  ultimately show ?case by (cases "xs = []") (auto simp: cl1_def apply_frame_def)
qed

section \<open>What the gateway sends\<close>

lemma sink_during:
  assumes "int (length (gs_pending g) + length ds) \<le> MAX_PENDING_DELTAS" and "\<not> gs_seeded g"
  shows "fold (sink_send b) ds g = g\<lparr>gs_pending := gs_pending g @ ds\<rparr>"
  using assms by (induction ds arbitrary: g) (simp_all add: sink_send_def)

lemma deliver_all:
  assumes "gs_closed g = None" and "b \<le> MAX_BUFFERED_BYTES"
  shows "fold (gw_deliver b) ds g = g\<lparr>gs_sent := gs_sent g @ map DeltaFrame ds\<rparr>"
  using assms(1) by (induction ds arbitrary: g) (use assms(2) in \<open>simp_all add: gw_deliver_def gw_write_def\<close>)

lemma deliver_entries:
  "fold (\<lambda>(_, body). gw_deliver b body) (entries_of ds) = fold (gw_deliver b) ds"
  by (simp add: fold_map comp_def)

lemma sink_after:
  assumes "gs_closed g = None" and "b \<le> MAX_BUFFERED_BYTES" and "gs_seeded g" and "\<forall>d \<in> set ds. seqOf d \<noteq> None"
  shows "fold (sink_send b) ds g = fold (gw_deliver b) ds g"
  using assms(1,3,4) by (induction ds arbitrary: g) (use assms(2) in \<open>simp_all add: sink_send_def gw_deliver_def gw_write_def\<close>)

lemma serve_frames:
  assumes "b \<le> MAX_BUFFERED_BYTES" and "int (length during) \<le> MAX_PENDING_DELTAS"
    and "\<forall>d \<in> set during \<union> set after. seqOf d = Some (ld_seq d)" and "sd_replay (seed_of runId cursor reads) = entries_of rs"
  shows "gs_sent (serve runId b cursor reads during after) =
    (case sd_snapshot (seed_of runId cursor reads) of None \<Rightarrow> []
      | Some body \<Rightarrow> [SnapshotFrame (sd_partial (seed_of runId cursor reads)) (sd_lastSeq (seed_of runId cursor reads)) body]) @
    map DeltaFrame (rs @ filter (\<lambda>d. sd_lastSeq (seed_of runId cursor reads) < ld_seq d) during @ after)"
proof -
  have "fold (sink_send b) during joined = joined\<lparr>gs_pending := during\<rparr>"
    using sink_during [of joined during b] assms(2) by (simp add: joined_def)
  moreover have "filter (\<lambda>d. case seqOf d of None \<Rightarrow> False | Some seq \<Rightarrow> L < seq) during = filter (\<lambda>d. L < ld_seq d) during" for L
    using assms(3) by (intro filter_cong) auto
  moreover have "\<forall>d \<in> set after. seqOf d \<noteq> None" using assms(3) by auto
  ultimately show ?thesis
    using assms(1) by (cases "sd_snapshot (seed_of runId cursor reads)")
      (simp_all add: serve_def finish_seed_def joined_def deliver_all sink_after assms(4) deliver_entries gw_write_def Let_def)
qed

section \<open>The seed meets what follows\<close>

text \<open>
  The messages \<open>ds\<close> of a run, numbered from \<open>n\<close>, and its keys after each of them: the stream is a tail of
  the messages so far, a snapshot gives the view (\<open>V\<close>) of the message before its number.
\<close>

definition feed :: "jstr \<Rightarrow> int \<Rightarrow> live_delta list \<Rightarrow> (nat \<Rightarrow> live_cache \<Rightarrow> bool) \<Rightarrow> (nat \<Rightarrow> run_keys) \<Rightarrow> bool" where
  "feed runId n ds V keys \<longleftrightarrow> 0 \<le> n \<and> numbered n ds \<and>
     (\<forall>i cache. i < length ds \<longrightarrow> i = 0 \<or> V i cache \<longrightarrow> V (Suc i) (applyDelta runId (ds ! i) cache)) \<and>
     (\<forall>i \<le> length ds. tail_of (rk_stream (keys i)) (take i ds)) \<and>
     (\<forall>i sn. i \<le> length ds \<longrightarrow> rk_snapshot (keys i) = Some sn \<longrightarrow>
       (\<exists>p. 1 \<le> p \<and> p \<le> i \<and> ld_seq sn = n + int p \<and> (\<forall>cache. V p (applyDelta runId sn cache))))"

lemma feed_stream:
  assumes "feed runId n ds V keys" and "i \<le> length ds"
  obtains x where "rk_stream (keys i) = drop x (take i ds)" "x \<le> i" "0 < i \<Longrightarrow> x < i"
    "readStream (keys i) = entries_of (drop x (take i ds))"
proof -
  have tail: "tail_of (rk_stream (keys i)) (take i ds)" using assms by (simp add: feed_def)
  then obtain zs where zs: "take i ds = zs @ rk_stream (keys i)" by (auto simp: tail_of_def suffix_def)
  then have d: "rk_stream (keys i) = drop (length zs) (take i ds)" by simp
  have "length zs \<le> i" using arg_cong [OF zs, of length] assms(2) by simp
  moreover have "length zs < i" if "0 < i"
  proof -
    have "take i ds \<noteq> []" using that assms(2) by auto
    then have "rk_stream (keys i) \<noteq> []" using tail by (auto simp: tail_of_def)
    then show ?thesis using arg_cong [OF zs, of length] assms(2) by (cases "rk_stream (keys i)") auto
  qed
  moreover have "readStream (keys i) = entries_of (rk_stream (keys i))"
  proof (rule readStream_entries, intro ballI)
    fix b assume "b \<in> set (rk_stream (keys i))"
    then have "b \<in> set ds" using d by (metis in_set_dropD in_set_takeD)
    then show "seqOf b = Some (ld_seq b)" using assms(1) numbered_nonneg by (auto simp: feed_def)
  qed
  ultimately show thesis using that d by metis
qed

lemma feed_follow:
  assumes "feed runId n ds V keys" and "1 \<le> y" and "y \<le> length ds" and "V y cache"
  shows "V (length ds) (fold (applyDelta runId) (drop y ds) cache)"
  using assms(2-4)
proof (induction "length ds - y" arbitrary: y cache)
  case 0
  then show ?case by simp
next
  case (Suc k)
  then have y: "y < length ds" by simp
  then have "V (Suc y) (applyDelta runId (ds ! y) cache)" using assms(1) Suc.prems by (auto simp: feed_def)
  moreover have "drop y ds = ds ! y # drop (Suc y) ds" using y by (rule Cons_nth_drop_Suc [symmetric])
  ultimately show ?case using Suc.hyps(1) [of "Suc y"] Suc.hyps(2) y by simp
qed

lemma feed_filter:
  assumes "numbered n ds" and "x \<le> t"
  shows "filter (\<lambda>d. n + int v \<le> ld_seq d) (drop x (take t ds)) = drop (max x v) (take t ds)"
proof -
  have "nat (n + int v - (n + int x)) + x = max x v" by auto
  then show ?thesis using numbered_filter [OF numbered_drop [OF numbered_take [OF assms(1)]], of "n + int v" x t]
    by (simp only: drop_drop)
qed

text \<open>A seed whose replay runs from \<open>y\<close> to what the stream held at \<open>t\<close>.\<close>

definition seeds_from :: "int \<Rightarrow> live_delta list \<Rightarrow> nat \<Rightarrow> nat \<Rightarrow> seed \<Rightarrow> bool" where
  "seeds_from n ds y t s \<longleftrightarrow> y \<le> t \<and> sd_replay s = entries_of (drop y (take t ds)) \<and>
     (sd_lastSeq s = n + int t - 1 \<or> t = 0 \<and> sd_lastSeq s = - 1)"

lemma flush_newer:
  assumes "numbered n ds" and "0 \<le> n" and "seeds_from n ds y t s" and "j \<le> t" and "t \<le> f" and "f \<le> length ds"
  shows "drop y (take t ds) @ filter (\<lambda>d. sd_lastSeq s < ld_seq d) (drop j (take f ds)) @ drop f ds = drop y ds"
proof -
  have "filter (\<lambda>d. sd_lastSeq s < ld_seq d) (drop j (take f ds)) = filter (\<lambda>d. n + int t \<le> ld_seq d) (drop j (take f ds))"
  proof (rule filter_cong [OF refl])
    fix d assume "d \<in> set (drop j (take f ds))"
    then have "d \<in> set ds" by (metis in_set_dropD in_set_takeD)
    then have "n \<le> ld_seq d" using assms(1) by (auto simp: numbered_def in_set_conv_nth)
    then show "sd_lastSeq s < ld_seq d \<longleftrightarrow> n + int t \<le> ld_seq d" using assms(2,3) by (auto simp: seeds_from_def)
  qed
  also have "\<dots> = drop t (take f ds)" using feed_filter [OF assms(1), of j f t] assms(4,5) by (simp add: max_def)
  finally have "filter (\<lambda>d. sd_lastSeq s < ld_seq d) (drop j (take f ds)) @ drop f ds = drop t ds"
    using assms(5,6) by (simp add: drop_take) (metis append_take_drop_id drop_drop le_add_diff_inverse2 add.commute)
  moreover have "drop y (take t ds) @ drop t ds = drop y ds"
    using assms(3,5,6) by (simp add: seeds_from_def drop_take) (metis append_take_drop_id drop_drop le_add_diff_inverse2)
  ultimately show ?thesis by simp
qed

lemma attempt_seeds:
  assumes "feed runId n ds V keys" and "s \<le> t" and "t \<le> length ds" and "attemptSeed runId (keys s) (keys t) = (sd, holed)"
  shows "\<exists>y body. seeds_from n ds y t sd \<and> sd_snapshot sd = Some body \<and>
    (sd_partial sd \<or> \<not> holed \<and> 1 \<le> y \<and> (\<forall>cache. V y (applyDelta runId body cache)))"
proof -
  have ds: "0 \<le> n" "numbered n ds" using assms(1) by (simp_all add: feed_def)
  obtain x where x: "x \<le> t" "0 < t \<Longrightarrow> x < t" "readStream (keys t) = entries_of (drop x (take t ds))"
    by (rule feed_stream [OF assms(1,3)]) blast
  have lt: "ld_seq (last (drop z (take t ds))) = n + int t - 1" if "z < t" for z
    using numbered_last [OF numbered_drop [OF numbered_take [OF ds(2)]], of z t] that assms(3) by simp
  show ?thesis
  proof (cases "rk_snapshot (keys s)")
    case None
    then have sd: "sd_partial sd" "sd_replay sd = drop 1 (entries_of (drop x (take t ds)))"
      "sd_lastSeq sd = last_seq_or (- 1) (entries_of (drop x (take t ds)))" "\<exists>body. sd_snapshot sd = Some body"
      using assms(4) by (auto simp: attemptSeed_def readSnapshot_def x(3) Let_def)
    have "seeds_from n ds (if t = 0 then 0 else Suc x) t sd"
    proof (cases "t = 0")
      case True
      then show ?thesis using sd(2,3) by (simp add: seeds_from_def last_seq_or_def)
    next
      case False
      then show ?thesis
        using sd(2,3) x(2) lt [of x] assms(3) by (auto simp: seeds_from_def last_seq_entries drop_map drop_Suc tl_drop)
    qed
    with sd show ?thesis by blast
  next
    case (Some sn)
    then obtain p where p: "1 \<le> p" "p \<le> s" "ld_seq sn = n + int p" "\<forall>cache. V p (applyDelta runId sn cache)"
      using assms(1-3) unfolding feed_def by (meson order_trans)
    have "readSnapshot (keys s) = Some (n + int p, sn)" using Some p ds(1) by (simp add: readSnapshot_def seqOf_def)
    moreover have rp: "filter (\<lambda>(q, _). n + int p \<le> q) (entries_of (drop x (take t ds))) = entries_of (drop (max x p) (take t ds))"
      using feed_filter [OF ds(2) x(1), of p] by (simp only: filter_entries)
    ultimately have sd: "sd_snapshot sd = Some sn" "sd_replay sd = entries_of (drop (max x p) (take t ds))"
      "sd_lastSeq sd = last_seq_or (n + int p - 1) (entries_of (drop (max x p) (take t ds)))" "sd_partial sd = holed"
      "holed \<longleftrightarrow> drop x (take t ds) \<noteq> [] \<and> n + int p < fst (hd (entries_of (drop x (take t ds))))"
      using assms(4) by (auto simp: attemptSeed_def x(3) Let_def)
    have "x < t" using x(2) p assms(2) by simp
    then have "hd (drop x (take t ds)) = ds ! x" "drop x (take t ds) \<noteq> []" using assms(3) by (simp_all add: hd_drop_conv_nth)
    then have "holed \<longleftrightarrow> p < x" using sd(5) ds(2) \<open>x < t\<close> assms(3) by (auto simp: hd_map numbered_def)
    moreover have "seeds_from n ds (max x p) t sd"
    proof (cases "max x p < t")
      case True
      then have "drop (max x p) (take t ds) \<noteq> []" using assms(3) by (simp del: max_less_iff_conj)
      then show ?thesis using True sd(2,3) lt [OF True] unfolding seeds_from_def last_seq_entries by simp
    next
      case False
      then show ?thesis using sd(2,3) \<open>x < t\<close> p(1,2) assms(2,3) by (auto simp: seeds_from_def last_seq_or_def)
    qed
    ultimately show ?thesis using sd(1,4) p(1,4) by (intro exI [of _ "max x p"] exI [of _ sn]) (auto simp: max_def)
  qed
qed

section \<open>A connection\<close>

text \<open>
  The moments of a connection: joined, the resume read, the reads of the two attempts, and the flush. Counted
  in messages, a moment is the number of messages that the channel, the stream or the snapshot key held by then.
\<close>

record moments =
  mo_join :: nat
  mo_resume :: nat
  mo_snapshot1 :: nat
  mo_stream1 :: nat
  mo_snapshot2 :: nat
  mo_stream2 :: nat
  mo_flush :: nat

definition in_order :: "nat \<Rightarrow> moments \<Rightarrow> bool" where
  "in_order len mo \<longleftrightarrow> mo_join mo \<le> mo_resume mo \<and> mo_resume mo \<le> mo_flush mo \<and>
     mo_join mo \<le> mo_stream1 mo \<and> mo_snapshot1 mo \<le> mo_stream1 mo \<and> mo_stream1 mo \<le> mo_flush mo \<and>
     mo_join mo \<le> mo_stream2 mo \<and> mo_snapshot2 mo \<le> mo_stream2 mo \<and> mo_stream2 mo \<le> mo_flush mo \<and> mo_flush mo \<le> len \<and>
     int (mo_flush mo - mo_join mo) \<le> MAX_PENDING_DELTAS"

definition reads_at :: "(nat \<Rightarrow> run_keys) \<Rightarrow> moments \<Rightarrow> seed_reads" where
  "reads_at keys mo = \<lparr>at_resume = keys (mo_resume mo), at_snapshot1 = keys (mo_snapshot1 mo), at_stream1 = keys (mo_stream1 mo),
     at_snapshot2 = keys (mo_snapshot2 mo), at_stream2 = keys (mo_stream2 mo)\<rparr>"

text \<open>What the channel carried by the moments of joining and of the flush is \<open>pub\<close> of them.\<close>

definition connection :: "jstr \<Rightarrow> int \<Rightarrow> live_delta list \<Rightarrow> (nat \<Rightarrow> nat) \<Rightarrow> (nat \<Rightarrow> run_keys) \<Rightarrow> moments \<Rightarrow> live_client \<Rightarrow>
    live_client \<times> bool" where
  "connection runId b ds pub keys mo cl = on_messages runId (gs_sent (serve runId b (readResumeCursor (resume_param cl))
     (reads_at keys mo) (drop (pub (mo_join mo)) (take (pub (mo_flush mo)) ds)) (drop (pub (mo_flush mo)) ds))) (on_open cl)"

text \<open>A client that lost nothing: it never saw a message, or it shows the message it would resume after.\<close>

definition consistent :: "int \<Rightarrow> (nat \<Rightarrow> live_cache \<Rightarrow> bool) \<Rightarrow> nat \<Rightarrow> live_client \<Rightarrow> bool" where
  "consistent n V joins cl \<longleftrightarrow> (case cl_lastSeq cl of None \<Rightarrow> True
     | Some v \<Rightarrow> v < 0 \<or> v < 2 ^ 53 \<and> (\<exists>q. 1 \<le> q \<and> q \<le> joins \<and> v = n + int q - 1 \<and> V q (cl_cache cl) \<and>
         (cl_expectSeq cl = None \<or> cl_expectSeq cl = Some (n + int q))))"

lemma resume_cursor:
  "0 \<le> v \<Longrightarrow> v < 2 ^ 53 \<Longrightarrow> readResumeCursor (Some (js_int v)) = Some v"
  "v < 0 \<Longrightarrow> readResumeCursor (Some (js_int v)) = None"
proof -
  assume v: "0 \<le> v" "v < 2 ^ 53"
  have "digs v \<noteq> []" using digs_length [OF v(1)] by auto
  with v show "readResumeCursor (Some (js_int v)) = Some v"
    using digits_value_digs [OF v(1)] by (simp add: readResumeCursor_def js_int_digs Let_def)
next
  assume "v < 0"
  then have "js_int v = js ''-'' @ js_pos_string (- of_int v)" by (simp add: js_int_def js_num_def)
  moreover have "js ''-'' = [0x2D]" by code_simp
  ultimately have "\<not> list_all is_digit (js_int v)" by (simp add: is_digit_def)
  then show "readResumeCursor (Some (js_int v)) = None" by (simp add: readResumeCursor_def)
qed

text \<open>
  When a seed has to say that it is not whole: no snapshot, or a replay stream that starts after the
  snapshot in both attempts.
\<close>

definition outran :: "run_keys \<Rightarrow> run_keys \<Rightarrow> bool" where
  "outran atSnapshot atStream \<longleftrightarrow> rk_stream atStream \<noteq> [] \<and>
     (\<forall>sn. rk_snapshot atSnapshot = Some sn \<longrightarrow> ld_seq sn < ld_seq (hd (rk_stream atStream)))"

definition degraded :: "(nat \<Rightarrow> run_keys) \<Rightarrow> moments \<Rightarrow> bool" where
  "degraded keys mo \<longleftrightarrow> rk_snapshot (keys (mo_snapshot1 mo)) = None \<or> outran (keys (mo_snapshot1 mo)) (keys (mo_stream1 mo)) \<and>
     (rk_snapshot (keys (mo_snapshot2 mo)) = None \<or> outran (keys (mo_snapshot2 mo)) (keys (mo_stream2 mo)))"

lemma attempt_partial:
  assumes "feed runId n ds V keys" and "s \<le> t" and "t \<le> length ds" and "attemptSeed runId (keys s) (keys t) = (sd, holed)"
  shows "(sd_partial sd \<longrightarrow> rk_snapshot (keys s) = None \<or> holed) \<and> (holed \<longrightarrow> outran (keys s) (keys t))"
proof (cases "rk_snapshot (keys s)")
  case None
  then show ?thesis using assms(4) by (auto simp: attemptSeed_def readSnapshot_def Let_def)
next
  case (Some sn)
  then obtain p where p: "ld_seq sn = n + int p" using assms(1-3) unfolding feed_def by (meson order_trans)
  then have "readSnapshot (keys s) = Some (ld_seq sn, sn)" using Some assms(1) by (simp add: readSnapshot_def seqOf_def feed_def)
  moreover obtain x where "rk_stream (keys t) = drop x (take t ds)" "readStream (keys t) = entries_of (drop x (take t ds))"
    by (rule feed_stream [OF assms(1,3)])
  ultimately show ?thesis using assms(4) Some by (auto simp: attemptSeed_def Let_def outran_def hd_map)
qed

lemma fresh_seeds:
  assumes "feed runId n ds V keys" and "in_order (length ds) mo"
  shows "\<exists>y t body. seeds_from n ds y t (seed_fresh runId (reads_at keys mo)) \<and> mo_join mo \<le> t \<and> t \<le> mo_flush mo \<and>
    sd_snapshot (seed_fresh runId (reads_at keys mo)) = Some body \<and>
    (sd_partial (seed_fresh runId (reads_at keys mo)) \<or> 1 \<le> y \<and> (\<forall>cache. V y (applyDelta runId body cache))) \<and>
    (sd_partial (seed_fresh runId (reads_at keys mo)) \<longrightarrow> degraded keys mo)"
proof -
  obtain sd1 h1 sd2 h2 where a: "attemptSeed runId (keys (mo_snapshot1 mo)) (keys (mo_stream1 mo)) = (sd1, h1)"
    "attemptSeed runId (keys (mo_snapshot2 mo)) (keys (mo_stream2 mo)) = (sd2, h2)" by fastforce
  have "seed_fresh runId (reads_at keys mo) = (if h1 then sd2 else sd1)" by (simp add: seed_fresh_def reads_at_def a)
  moreover obtain y1 body1 where "seeds_from n ds y1 (mo_stream1 mo) sd1 \<and> sd_snapshot sd1 = Some body1 \<and>
      (sd_partial sd1 \<or> \<not> h1 \<and> 1 \<le> y1 \<and> (\<forall>cache. V y1 (applyDelta runId body1 cache)))"
    using attempt_seeds [OF assms(1) _ _ a(1)] assms(2) by (auto simp: in_order_def)
  moreover obtain y2 body2 where "seeds_from n ds y2 (mo_stream2 mo) sd2 \<and> sd_snapshot sd2 = Some body2 \<and>
      (sd_partial sd2 \<or> \<not> h2 \<and> 1 \<le> y2 \<and> (\<forall>cache. V y2 (applyDelta runId body2 cache)))"
    using attempt_seeds [OF assms(1) _ _ a(2)] assms(2) by (auto simp: in_order_def)
  moreover have "mo_join mo \<le> mo_stream1 mo" "mo_stream1 mo \<le> mo_flush mo" "mo_join mo \<le> mo_stream2 mo" "mo_stream2 mo \<le> mo_flush mo"
    using assms(2) by (auto simp: in_order_def)
  moreover have "(sd_partial sd1 \<longrightarrow> rk_snapshot (keys (mo_snapshot1 mo)) = None \<or> h1) \<and> (h1 \<longrightarrow> outran (keys (mo_snapshot1 mo)) (keys (mo_stream1 mo)))"
    "(sd_partial sd2 \<longrightarrow> rk_snapshot (keys (mo_snapshot2 mo)) = None \<or> h2) \<and> (h2 \<longrightarrow> outran (keys (mo_snapshot2 mo)) (keys (mo_stream2 mo)))"
    using attempt_partial [OF assms(1) _ _ a(1)] attempt_partial [OF assms(1) _ _ a(2)] assms(2) by (simp_all add: in_order_def)
  ultimately show ?thesis unfolding degraded_def by (cases h1) (simp_all, blast+)
qed

lemma connection_catches_up:
  assumes "feed runId n ds V keys" and "in_order (length ds) mo" and "ds \<noteq> []" and "b \<le> MAX_BUFFERED_BYTES"
    and "consistent n V (mo_join mo) cl"
  shows "\<exists>cl'. connection runId b ds id keys mo cl = (cl', False) \<and> cl_lastSeq cl' = Some (n + int (length ds) - 1) \<and>
    (cl_partial cl' \<or> V (length ds) (cl_cache cl')) \<and> (cl_partial cl' \<longrightarrow> cl_partial cl \<or> degraded keys mo)"
proof -
  have ds: "0 \<le> n" "numbered n ds" using assms(1) by (simp_all add: feed_def)
  define during where "during = drop (mo_join mo) (take (mo_flush mo) ds)"
  define cursor where "cursor = readResumeCursor (resume_param cl)"
  define s where "s = seed_of runId cursor (reads_at keys mo)"
  have order: "mo_join mo \<le> mo_resume mo" "mo_resume mo \<le> mo_flush mo" "mo_flush mo \<le> length ds"
    using assms(2) by (auto simp: in_order_def)
  have dur: "int (length during) \<le> MAX_PENDING_DELTAS" using assms(2) order by (simp add: during_def in_order_def)
  have seqs: "\<forall>d \<in> set during \<union> set (drop (mo_flush mo) ds). seqOf d = Some (ld_seq d)"
    using numbered_nonneg [OF ds(2,1)] by (auto simp: during_def dest: in_set_dropD in_set_takeD)
  have sent: "connection runId b ds id keys mo cl = on_messages runId ((case sd_snapshot s of None \<Rightarrow> []
      | Some body \<Rightarrow> [SnapshotFrame (sd_partial s) (sd_lastSeq s) body]) @ map DeltaFrame (drop y ds)) (on_open cl)"
    if "seeds_from n ds y t s" "mo_join mo \<le> t" "t \<le> mo_flush mo" for y t
  proof -
    have "sd_replay (seed_of runId cursor (reads_at keys mo)) = entries_of (drop y (take t ds))"
      using that(1) by (simp add: seeds_from_def s_def)
    from serve_frames [OF assms(4) dur seqs this] show ?thesis
      unfolding s_def [symmetric] flush_newer [OF ds(2,1) that order(3), folded during_def]
      by (simp only: connection_def cursor_def during_def id_apply)
  qed
  show ?thesis
  proof (cases "cursor \<noteq> None \<and> sd_snapshot s = None")
    case True
    then obtain c where c: "cursor = Some c" by blast
    then obtain v where v: "cl_lastSeq cl = Some v"
      by (cases "cl_lastSeq cl") (auto simp: cursor_def resume_param_def readResumeCursor_def)
    then have "\<not> v < 0" using c resume_cursor(2) by (auto simp: cursor_def resume_param_def)
    then obtain q where q: "1 \<le> q" "q \<le> mo_join mo" "v = n + int q - 1" "V q (cl_cache cl)"
      "cl_expectSeq cl = None \<or> cl_expectSeq cl = Some (n + int q)" "v < 2 ^ 53"
      using assms(5) v unfolding consistent_def by auto
    have cv: "c = v" using c v \<open>\<not> v < 0\<close> q(6) resume_cursor(1) [of v] by (simp add: cursor_def resume_param_def)
    then have cq: "c = n + int q - 1" using q(3) by simp
    obtain x where x: "x \<le> mo_resume mo" "0 < mo_resume mo \<Longrightarrow> x < mo_resume mo"
      "readStream (keys (mo_resume mo)) = entries_of (drop x (take (mo_resume mo) ds))"
      by (rule feed_stream [OF assms(1), of "mo_resume mo"]) (use order in auto)
    let ?es = "entries_of (drop x (take (mo_resume mo) ds))"
    have x': "x < mo_resume mo" using x(2) q(1,2) order(1) by simp
    obtain y0 t0 body where "sd_snapshot (seed_fresh runId (reads_at keys mo)) = Some body" using fresh_seeds [OF assms(1,2)] by blast
    then have reach: "?es = [] \<or> fst (hd ?es) \<le> c + 1"
      and sd: "s = \<lparr>sd_snapshot = None, sd_partial = False, sd_replay = filter (\<lambda>(z, _). c < z) ?es,
        sd_lastSeq = last_seq_or c (filter (\<lambda>(z, _). c < z) ?es)\<rparr>"
      using True by (auto simp: s_def c seed_of_def reads_at_def x(3) Let_def split: if_splits)
    have "fst (hd ?es) = n + int x" using x' order ds(2) by (simp add: hd_map hd_drop_conv_nth numbered_def)
    moreover have "?es \<noteq> []" using x' order by simp
    ultimately have "x \<le> q" using reach cq by simp
    have rp: "filter (\<lambda>(z, _). c < z) ?es = entries_of (drop q (take (mo_resume mo) ds))"
    proof -
      have "filter (\<lambda>d. c < ld_seq d) (drop x (take (mo_resume mo) ds)) = filter (\<lambda>d. n + int q \<le> ld_seq d) (drop x (take (mo_resume mo) ds))"
        using cq by (intro filter_cong) auto
      then show ?thesis using feed_filter [OF ds(2) x(1), of q] \<open>x \<le> q\<close> by (simp only: filter_entries max_def if_True)
    qed
    have L: "sd_lastSeq s = last_seq_or c (entries_of (drop q (take (mo_resume mo) ds)))"
      "sd_replay s = entries_of (drop q (take (mo_resume mo) ds))" "sd_snapshot s = None"
      unfolding sd seed.simps rp by (rule refl)+
    have "sd_lastSeq s = n + int (mo_resume mo) - 1"
    proof (cases "q = mo_resume mo")
      case True
      then show ?thesis using cq order(3) unfolding L last_seq_entries by simp
    next
      case False
      then have "q < mo_resume mo" using q(2) order(1) by simp
      then show ?thesis using numbered_last [OF numbered_drop [OF numbered_take [OF ds(2)]], of q "mo_resume mo"] order
        by (simp add: L last_seq_entries)
    qed
    then have "seeds_from n ds q (mo_resume mo) s" using q(2) order(1) by (simp add: seeds_from_def L(2))
    from sent [OF this order(1,2)] have "connection runId b ds id keys mo cl = on_messages runId (map DeltaFrame (drop q ds)) (on_open cl)"
      by (simp add: L(3))
    moreover obtain cl' where "on_messages runId (map DeltaFrame (drop q ds)) (on_open cl) = (cl', False)"
      "cl_cache cl' = fold (applyDelta runId) (drop q ds) (cl_cache cl)" "cl_partial cl' = cl_partial cl"
      "cl_lastSeq cl' = (if drop q ds = [] then cl_lastSeq cl else Some (n + int q + int (length (drop q ds)) - 1))"
      using follow_deltas [OF numbered_drop [OF ds(2)], of "on_open cl" q runId] q(5) by (auto simp: on_open_def)
    moreover have "V (length ds) (fold (applyDelta runId) (drop q ds) (cl_cache cl))"
      using feed_follow [OF assms(1) q(1) _ q(4)] q(2) order by simp
    moreover have "cl_lastSeq cl = Some c" by (simp add: v cv)
    ultimately show ?thesis using q(2) cq order by (auto split: if_splits)
  next
    case False
    have "s = seed_fresh runId (reads_at keys mo)"
      using False by (auto simp: s_def seed_of_def Let_def split: option.splits if_splits)
    with fresh_seeds [OF assms(1,2)] obtain y t body where y: "seeds_from n ds y t s" "mo_join mo \<le> t" "t \<le> mo_flush mo"
      "sd_snapshot s = Some body" "sd_partial s \<or> 1 \<le> y \<and> (\<forall>cache. V y (applyDelta runId body cache))"
      "sd_partial s \<longrightarrow> degraded keys mo" by auto
    define cl1 where "cl1 = apply_frame runId body ((on_open cl)\<lparr>cl_lastSeq := Some (sd_lastSeq s), cl_expectSeq := None, cl_partial := sd_partial s\<rparr>)"
    obtain cl' where cl': "on_messages runId (map DeltaFrame (drop y ds)) cl1 = (cl', False)"
      "cl_cache cl' = fold (applyDelta runId) (drop y ds) (cl_cache cl1)" "cl_partial cl' = cl_partial cl1"
      "cl_lastSeq cl' = (if drop y ds = [] then cl_lastSeq cl1 else Some (n + int y + int (length (drop y ds)) - 1))"
      using follow_deltas [OF numbered_drop [OF ds(2)], of cl1 y runId] by (auto simp: cl1_def apply_frame_def)
    have "connection runId b ds id keys mo cl = (cl', False)" using sent [OF y(1-3)] cl'(1) by (simp add: y(4) cl1_def)
    moreover have "cl_lastSeq cl' = Some (n + int (length ds) - 1)"
      using cl'(4) y(1,3) order(3) assms(3) by (auto simp: cl1_def apply_frame_def seeds_from_def)
    moreover have "V (length ds) (cl_cache cl')" if "\<not> sd_partial s"
    proof -
      have "1 \<le> y" "V y (cl_cache cl1)" using y(5) that by (simp_all add: cl1_def apply_frame_def)
      then show ?thesis unfolding cl'(2) using y(1,3) order(3) by (intro feed_follow [OF assms(1)]) (auto simp: seeds_from_def)
    qed
    ultimately show ?thesis using cl'(3) y(6) by (auto simp: cl1_def apply_frame_def)
  qed
qed

section \<open>Counting the owner's calls\<close>

text \<open>
  A tick of the owner makes its calls to Redis one after the other: \<open>PUBLISH\<close>, \<open>XADD\<close>, \<open>EXPIRE\<close> and \<open>SET\<close>
  (nothing where no snapshot is due). After \<open>i\<close> calls, this many messages are on the channel, in the stream, and
  behind the snapshot key.
\<close>

definition published :: "nat \<Rightarrow> nat" where
  "published i = (i + 3) div 4"

definition xadded :: "nat \<Rightarrow> nat" where
  "xadded i = (i + 2) div 4"

definition in_messages :: "moments \<Rightarrow> moments" where
  "in_messages mo = \<lparr>mo_join = published (mo_join mo), mo_resume = xadded (mo_resume mo), mo_snapshot1 = mo_snapshot1 mo div 4,
     mo_stream1 = xadded (mo_stream1 mo), mo_snapshot2 = mo_snapshot2 mo div 4, mo_stream2 = xadded (mo_stream2 mo),
     mo_flush = published (mo_flush mo)\<rparr>"

text \<open>
  Moments counted in calls: in the order of \<open>serve\<close>, with the first read of the keys after the \<open>XADD\<close> of every
  message whose \<open>PUBLISH\<close> came before the viewer was subscribed.
\<close>

definition in_call_order :: "nat \<Rightarrow> moments \<Rightarrow> bool" where
  "in_call_order len mo \<longleftrightarrow> sorted [mo_join mo, mo_resume mo, mo_snapshot1 mo, mo_stream1 mo, mo_snapshot2 mo, mo_stream2 mo, mo_flush mo,
     4 * len] \<and> published (mo_join mo) \<le> xadded (mo_resume mo) \<and>
     int (published (mo_flush mo) - published (mo_join mo)) \<le> MAX_PENDING_DELTAS"

text \<open>The keys in the middle of a tick: the \<open>XADD\<close> has reached the stream, the \<open>SET\<close> not yet the snapshot.\<close>

definition keys_between :: "(nat \<Rightarrow> run_keys) \<Rightarrow> nat \<Rightarrow> run_keys" where
  "keys_between keys i = (if 2 \<le> i mod 4 then (keys (i div 4))\<lparr>rk_stream := rk_stream (keys (Suc (i div 4)))\<rparr> else keys (i div 4))"

lemma keys_between_simps [simp]: "rk_stream (keys_between keys i) = rk_stream (keys (xadded i))"
  "rk_snapshot (keys_between keys i) = rk_snapshot (keys (i div 4))"
proof -
  have "xadded i = (if 2 \<le> i mod 4 then Suc (i div 4) else i div 4)" unfolding xadded_def by presburger
  then show "rk_stream (keys_between keys i) = rk_stream (keys (xadded i))"
    "rk_snapshot (keys_between keys i) = rk_snapshot (keys (i div 4))" by (simp_all add: keys_between_def)
qed

lemma calls_mono: "i \<le> j \<Longrightarrow> xadded i \<le> published j" "i \<le> j \<Longrightarrow> i div 4 \<le> xadded j" "i \<le> j \<Longrightarrow> xadded i \<le> xadded j"
  "i \<le> j \<Longrightarrow> published i \<le> published j" "published (4 * n) = n"
  by (simp_all add: xadded_def published_def div_le_mono)

lemma in_call_order_messages:
  assumes "in_call_order len mo"
  shows "in_order len (in_messages mo)"
proof -
  have order: "mo_resume mo \<le> mo_flush mo" "mo_resume mo \<le> mo_stream1 mo" "mo_snapshot1 mo \<le> mo_stream1 mo" "mo_stream1 mo \<le> mo_flush mo"
    "mo_resume mo \<le> mo_stream2 mo" "mo_snapshot2 mo \<le> mo_stream2 mo" "mo_stream2 mo \<le> mo_flush mo" "mo_flush mo \<le> 4 * len"
    and room: "int (published (mo_flush mo) - published (mo_join mo)) \<le> MAX_PENDING_DELTAS"
    and seen: "published (mo_join mo) \<le> xadded (mo_resume mo)"
    using assms by (simp_all add: in_call_order_def)
  have flush: "published (mo_flush mo) \<le> len" using calls_mono(4) [OF order(8)] unfolding calls_mono(5) .
  show ?thesis unfolding in_order_def in_messages_def moments.simps
    using order seen room flush calls_mono(3) [OF order(2)] calls_mono(3) [OF order(5)]
    by (intro conjI) (simp_all only: calls_mono le_trans [OF seen])
qed

lemma attempt_reads_only:
  "rk_snapshot k = rk_snapshot k' \<Longrightarrow> rk_stream l = rk_stream l' \<Longrightarrow> attemptSeed runId k l = attemptSeed runId k' l'"
  by (simp only: attemptSeed_def readStream_def readSnapshot_def)

lemma seed_reads_only:
  assumes "rk_stream (at_resume r) = rk_stream (at_resume r')" and "rk_snapshot (at_snapshot1 r) = rk_snapshot (at_snapshot1 r')"
    and "rk_stream (at_stream1 r) = rk_stream (at_stream1 r')" and "rk_snapshot (at_snapshot2 r) = rk_snapshot (at_snapshot2 r')"
    and "rk_stream (at_stream2 r) = rk_stream (at_stream2 r')"
  shows "seed_of runId c r = seed_of runId c r'"
proof -
  have "seed_fresh runId r = seed_fresh runId r'"
    unfolding seed_fresh_def attempt_reads_only [OF assms(2,3)] attempt_reads_only [OF assms(4,5)] by (rule refl)
  then show ?thesis by (simp only: seed_of_def readStream_def assms(1))
qed

lemma connection_between:
  "connection runId b ds published (keys_between keys) mo cl = connection runId b ds id keys (in_messages mo) cl"
proof -
  have "seed_of runId c (reads_at (keys_between keys) mo) = seed_of runId c (reads_at keys (in_messages mo))" for c
    by (rule seed_reads_only) (simp_all add: reads_at_def in_messages_def)
  then show ?thesis by (simp add: connection_def serve_def) (simp add: in_messages_def)
qed

lemma degraded_between: "degraded (keys_between keys) mo = degraded keys (in_messages mo)"
  by (simp add: degraded_def outran_def in_messages_def)

section \<open>The owner feeds its keys\<close>

definition keys_after :: "(jstr \<Rightarrow> jstr \<Rightarrow> int) \<Rightarrow> (live_delta \<Rightarrow> int) \<Rightarrow> jstr \<Rightarrow> tick list \<Rightarrow> fold_state \<times> run_keys \<Rightarrow> nat \<Rightarrow> run_keys" where
  "keys_after lc bytes runId ts S i = (case owner_run lc bytes runId (take i ts) S of
     Some (Inr ((s, k), sent)) \<Rightarrow> k | _ \<Rightarrow> snd S)"

definition no_keys :: run_keys where
  "no_keys = \<lparr>rk_stream = [], rk_snapshot = None\<rparr>"

lemma carries_later: "carries lc c m a b d \<Longrightarrow> prefix a x \<Longrightarrow> carries lc c m x b d"
  unfolding carries_def between_def by (meson prefix_order.trans)

lemma history_nth:
  assumes "history lc c m n a evs ts sent"
  shows "length sent = length ts \<and> numbered n (map fst sent) \<and> map snd sent = map tk_outcome ts \<and>
    (\<forall>i < length ts. carries lc c m (told evs (take i ts)) (told evs (take (Suc i) ts)) (fst (sent ! i))) \<and>
    (a = None \<and> ts \<noteq> [] \<longrightarrow> reseeds lc c m (told evs (take 1 ts)) (fst (sent ! 0)))"
  using assms
proof (induction ts arbitrary: n a evs sent)
  case Nil
  then show ?case by simp
next
  case (Cons t ts)
  let ?b = "evs @ tk_events t"
  obtain d rest where d: "sent = (d, tk_outcome t) # rest" "ld_seq d = n" "case a of None \<Rightarrow> reseeds lc c m ?b d
      | Some a \<Rightarrow> prefix a evs \<and> carries lc c m a ?b d"
      "history lc c m (n + 1) (if tk_outcome t = AllWritten then Some ?b else a) ?b ts rest"
    using Cons.prems by auto
  note IH = Cons.IH [OF d(4)]
  have "carries lc c m evs ?b d"
    using d(3) by (auto split: option.splits intro: reseeds_carries carries_later)
  then have "carries lc c m (told evs (take i (t # ts))) (told evs (take (Suc i) (t # ts))) (fst (sent ! i))" if "i < length (t # ts)" for i
    using IH that by (cases i) (simp_all add: d(1))
  moreover have "reseeds lc c m (told evs (take 1 (t # ts))) (fst (sent ! 0))" if "a = None" using d(1,3) that by simp
  ultimately show ?case using IH d(1,2) by auto
qed

lemma owner_feed:
  assumes rep: "owner_rep c m evs None s" and n: "dc_seq (fs_cursor s) = n" "0 \<le> n" and ok: "runnable c m (told evs ts)" "fits c (told evs ts)"
    "orderly c (me_startedAtMs m) (told evs ts)" and lc: "strict_cmp lc" and app: "\<forall>t \<in> set ts. appended (tk_outcome t)"
  shows "\<exists>S sent. owner_run lc bytes runId ts (s, no_keys) = Some (Inr (S, sent)) \<and> length sent = length ts \<and>
    (\<forall>id. feed id n (map fst sent) (\<lambda>i. views lc c m id (told evs (take i ts))) (keys_after lc bytes runId ts (s, no_keys)))"
proof -
  obtain S sent where run: "owner_run lc bytes runId ts (s, no_keys) = Some (Inr (S, sent))" "history lc c m n None evs ts sent"
    using owner_run_rep [OF rep n(1) ok lc, of bytes runId no_keys] by blast
  note h = history_nth [OF run(2)]
  have part: "\<exists>s' k' sent'. owner_run lc bytes runId (take i ts) (s, no_keys) = Some (Inr ((s', k'), sent')) \<and> sent' = take i sent \<and>
      tail_of (rk_stream k') (map fst (filter (appended \<circ> snd) sent')) \<and>
      (rk_snapshot k' = None \<or> (\<exists>sn. rk_snapshot k' = Some sn \<and> snapshot_rep_at lc c m n evs (take i ts) sn))" for i
  proof -
    have split: "told evs ts = told evs (take i ts) @ concat (map tk_events (drop i ts))"
      by (simp flip: concat_append map_append)
    obtain s' k' sent' where r: "owner_run lc bytes runId (take i ts) (s, no_keys) = Some (Inr ((s', k'), sent'))"
      "history lc c m n None evs (take i ts) sent'"
      "tail_of (rk_stream no_keys) [] \<longrightarrow> tail_of (rk_stream k') ([] @ map fst (filter (appended \<circ> snd) sent'))"
      "rk_snapshot k' = rk_snapshot no_keys \<or> (\<exists>sn. rk_snapshot k' = Some sn \<and> snapshot_rep_at lc c m n evs (take i ts) sn)"
      using owner_run_rep [OF rep n(1) runnable_prefix [OF ok(1) [unfolded split]] fits_prefix [OF ok(2) [unfolded split]]
          orderly_append [OF ok(3) [unfolded split]] lc, of bytes runId no_keys] by blast
    have "length sent' = length (take i ts)" using history_nth [OF r(2)] by simp
    moreover have "\<exists>more. sent = sent' @ more"
      using run(1) owner_run_append [of lc bytes runId "take i ts" "drop i ts" "(s, no_keys)"] r(1)
      by (cases "owner_run lc bytes runId (drop i ts) (s', k')"; cases "the (owner_run lc bytes runId (drop i ts) (s', k'))")
        (auto simp: append_take_drop_id)
    moreover have "take i sent = take (min (length ts) i) sent" using h by (simp add: min_def)
    ultimately have "sent' = take i sent" by auto
    with r show ?thesis by (auto simp: no_keys_def tail_of_def)
  qed
  have "feed id n (map fst sent) (\<lambda>i. views lc c m id (told evs (take i ts))) (keys_after lc bytes runId ts (s, no_keys))" for id
    unfolding feed_def
  proof (intro conjI allI impI)
    fix i cache assume i: "i < length (map fst sent)" "i = 0 \<or> views lc c m id (told evs (take i ts)) cache"
    then have len: "i < length ts" using h by simp
    show "views lc c m id (told evs (take (Suc i) ts)) (applyDelta id (map fst sent ! i) cache)"
    proof (cases "i = 0")
      case True
      then show ?thesis using h len i(1) by (auto simp: reseeds_def)
    next
      case False
      have "between (told evs (take i ts)) (told evs (take i ts)) (told evs (take (Suc i) ts))"
        using len by (simp add: between_def take_Suc_conv_app_nth)
      then show ?thesis using h len i False by (auto simp: carries_def)
    qed
  next
    fix i assume i: "i \<le> length (map fst sent)"
    obtain s' k' where p: "owner_run lc bytes runId (take i ts) (s, no_keys) = Some (Inr ((s', k'), take i sent))"
      "tail_of (rk_stream k') (map fst (filter (appended \<circ> snd) (take i sent)))" using part [of i] by blast
    have "\<forall>x \<in> set (take i sent). (appended \<circ> snd) x"
    proof
      fix x assume "x \<in> set (take i sent)"
      then have "snd x \<in> set (map snd sent)" by (auto dest: in_set_takeD)
      then show "(appended \<circ> snd) x" using h app by auto
    qed
    then have "filter (appended \<circ> snd) (take i sent) = take i sent" by (rule filter_True)
    with p show "tail_of (rk_stream (keys_after lc bytes runId ts (s, no_keys) i)) (take i (map fst sent))"
      by (simp add: keys_after_def take_map)
  next
    fix i sn assume i: "i \<le> length (map fst sent)" "rk_snapshot (keys_after lc bytes runId ts (s, no_keys) i) = Some sn"
    then have "snapshot_rep_at lc c m n evs (take i ts) sn" using part [of i] by (auto simp: keys_after_def)
    then obtain ts1 ts2 where t: "take i ts = ts1 @ ts2" "ts1 \<noteq> []" "ld_seq sn = n + int (length ts1)" "reseeds lc c m (told evs ts1) sn"
      by (auto simp: snapshot_rep_at_def)
    then have "length ts1 \<le> i" "take (length ts1) ts = ts1"
      by (metis length_append length_take le_add1 min.cobounded2 order_trans) (metis append_eq_conv_conj take_take min.absorb1
        length_append length_take le_add1 min.cobounded2 order_trans t(1))
    with t show "\<exists>p. 1 \<le> p \<and> p \<le> i \<and> ld_seq sn = n + int p \<and> (\<forall>cache. views lc c m id (told evs (take p ts)) (applyDelta id sn cache))"
      by (intro exI [of _ "length ts1"]) (auto simp: reseeds_def Suc_le_eq)
  qed (use n h in auto)
  with run(1) h show ?thesis by blast
qed

end
