(* ===== verification/EngineProperties.thy ===== *)
theory EngineProperties
  imports LiveSnapshots
begin

text \<open>
  Properties of the engine over whole runs: what it computes, how its figures reconcile, when it
  refuses a run, and what its live snapshots leave alone.
\<close>

section \<open>Sums over identities\<close>

lemma obs_partition:
  assumes "distinct ids" and "fst ` set L \<subseteq> set ids"
  shows "(\<Sum>i \<leftarrow> filter P ids. int (length (obs_of i L))) = int (length (filter (P \<circ> fst) L))"
  using assms(2)
proof (induction L)
  case Nil
  then show ?case by (simp add: obs_of_def)
next
  case (Cons x L)
  have one: "(\<Sum>i \<leftarrow> filter P js. if i = fst x then 1 else 0) = (if P (fst x) \<and> fst x \<in> set js then 1 else (0 :: int))"
    if "distinct js" for js
    using that by (induction js) auto
  have "int (length (obs_of i (x # L))) = int (length (obs_of i L)) + (if i = fst x then 1 else 0)" for i
    by (simp add: obs_of_def)
  then have "(\<Sum>i \<leftarrow> filter P ids. int (length (obs_of i (x # L)))) =
      (\<Sum>i \<leftarrow> filter P ids. int (length (obs_of i L))) + (\<Sum>i \<leftarrow> filter P ids. if i = fst x then 1 else 0)"
    by (simp add: sum_list_addf)
  with Cons one [OF assms(1)] show ?case by simp
qed

lemma sum_rows:
  assumes "list_all2 Q ids rows" and "\<And>i row. Q i row \<Longrightarrow> row_identity row = i \<and> f row = g i"
  shows "(\<Sum>row \<leftarrow> filter (P \<circ> row_identity) rows. f row) = (\<Sum>i \<leftarrow> filter P ids. (g i :: int))"
  using assms by (induction rule: list_all2_induct) auto

lemma obs_of_filter: "obs_of i (filter (Q \<circ> snd) L) = filter Q (obs_of i L)"
  by (induction L) (auto simp: obs_of_def)

text \<open>Any count over the rows is a count over the durations that reached them.\<close>

lemma row_sums:
  assumes "list_all2 (row_for w ps R) (first_seen (map fst R)) rows"
  shows "(\<Sum>row \<leftarrow> filter (P \<circ> row_identity) rows. sr_count row) = int (length (filter (P \<circ> fst) R))"
    and "(\<Sum>row \<leftarrow> filter (P \<circ> row_identity) rows. sr_koCount row) =
      int (length (filter (P \<circ> fst) (filter (\<lambda>p. \<not> snd (snd p)) R)))"
proof -
  have "(\<Sum>row \<leftarrow> filter (P \<circ> row_identity) rows. sr_count row) =
      (\<Sum>i \<leftarrow> filter P (first_seen (map fst R)). int (length (obs_of i R)))"
    using row_for_reads by (intro sum_rows [OF assms]) simp
  also have "\<dots> = int (length (filter (P \<circ> fst) R))" by (intro obs_partition) simp_all
  finally show "(\<Sum>row \<leftarrow> filter (P \<circ> row_identity) rows. sr_count row) = int (length (filter (P \<circ> fst) R))" .
  let ?K = "filter ((\<lambda>x. \<not> snd x) \<circ> snd) R"
  have "(\<Sum>row \<leftarrow> filter (P \<circ> row_identity) rows. sr_koCount row) =
      (\<Sum>i \<leftarrow> filter P (first_seen (map fst R)). int (length (obs_of i ?K)))"
    unfolding obs_of_filter using row_for_reads by (intro sum_rows [OF assms]) (simp add: pop_sizes)
  also have "\<dots> = int (length (filter (P \<circ> fst) ?K))" by (intro obs_partition) auto
  finally show "(\<Sum>row \<leftarrow> filter (P \<circ> row_identity) rows. sr_koCount row) =
      int (length (filter (P \<circ> fst) (filter (\<lambda>p. \<not> snd (snd p)) R)))" by (simp add: comp_def)
qed

lemma error_sums:
  "(\<Sum>t \<leftarrow> filter (\<lambda>t. P (fst t)) (errors_of lc E). snd (snd t)) = int (length (filter (P \<circ> fst) E))"
proof -
  let ?f = "\<lambda>i. map (\<lambda>t. (i, et_message t, et_count t)) (error_rollup_top lc 200 (fold error_rollup_add (obs_of i E) []))"
  have one: "(\<Sum>t \<leftarrow> filter (\<lambda>t. P (fst t)) (?f i). snd (snd t)) = (if P i then int (length (obs_of i E)) else 0)" for i
    using error_rollup_top_sum [of lc 200 "obs_of i E"] by (simp add: filter_map comp_def)
  have "(\<Sum>t \<leftarrow> filter (\<lambda>t. P (fst t)) (concat (map ?f ids)). snd (snd t)) =
      (\<Sum>i \<leftarrow> filter P ids. int (length (obs_of i E)))" for ids
    by (induction ids) (simp_all add: one)
  then show ?thesis unfolding errors_of_def by (simp add: obs_partition)
qed

lemma length_gather: "int (length (filter P (gather f evs))) = (\<Sum>ev \<leftarrow> evs. int (length (filter P (f ev))))"
  by (induction evs) simp_all

lemma length_gather_all: "int (length (gather f evs)) = (\<Sum>ev \<leftarrow> evs. int (length (f ev)))"
  by (induction evs) simp_all

lemma sum_events: "(\<And>ev. f ev = g ev) \<Longrightarrow> (\<Sum>ev \<leftarrow> evs. f ev) = (\<Sum>ev \<leftarrow> evs. g ev)"
  by simp

section \<open>Properties\<close>

text \<open>
  C1: A run whose stream has one header, room to coalesce and no more request paths
  than the cap is always finished, and every part of the result is a function of its events: one
  row per identity in first-seen order with the statistics of the durations outside the warm-up, one
  losslessly bucketed series per identity with the warm-up included, the errors per identity, the
  users per scenario, the figures of the header and the verdicts of the declared assertions.
\<close>

theorem run_is_its_events:
  assumes "runnable (engine_config_of opts) m evs" and "fits (engine_config_of opts) evs"
  shows "\<exists>res. runEngine lc (MetaE m # evs) opts = Some (EngineDone res) \<and> result_rep lc (engine_config_of opts) m evs res"
  using run_result [OF assms] by blast

definition sample_request :: "jstr \<Rightarrow> int \<Rightarrow> int \<Rightarrow> bool \<Rightarrow> request_event" where
  "sample_request name t1 t2 ok = \<lparr>rq_name = name, rq_groups = [], rq_scenario = None, rq_userId = [], rq_startMs = t1,
     rq_endMs = t2, rq_firstByteMs = None, rq_ok = ok, rq_message = None\<rparr>"

definition sample_header :: "int \<Rightarrow> meta_event" where
  "sample_header st = \<lparr>me_simulation = [], me_toolVersion = [], me_startedAtMs = st, me_description = None, me_assertions = None\<rparr>"

definition no_options :: engine_options where
  "no_options = \<lparr>eo_warmupMs = None, eo_percentiles = None, eo_maxEndpoints = None, eo_maxBucketsRun = None,
     eo_maxBucketsEndpoint = None, eo_maxBucketsGroup = None, eo_maxBucketsUsers = None\<rparr>"

definition sample_stream :: "canonical_event list" where
  "sample_stream = [RequestE (sample_request (js ''a'') 1000 1200 True), RequestE (sample_request (js ''b'') 1500 3900 False)]"

lemma default_room: "stream_room (engine_config_of no_options) st evs"
proof -
  have "edge_room (engine_config_of no_options) st p" if "p \<in> set (series_obs ev)" for p ev
    using that by (cases ev) (auto simp: both_edges_def edge_room_def engine_config_of_def no_options_def or_default_def
        DEFAULT_MAX_BUCKETS_ENDPOINT_def)
  then show ?thesis by (auto simp: stream_room_def)
qed

lemma default_runnable: "no_header evs \<Longrightarrow> runnable (engine_config_of no_options) m evs"
  using default_room by (simp add: runnable_def engine_config_of_def no_options_def or_default_def in_range_def)

lemma sample_ok: "runnable (engine_config_of no_options) m sample_stream" "fits (engine_config_of no_options) sample_stream"
  by (rule default_runnable, simp add: no_header_def sample_stream_def)
    (simp add: fits_def request_paths_def sample_stream_def first_seen_def set_insert_def engine_config_of_def no_options_def or_default_def)

theorem run_is_its_events_witness:
  "\<exists>res. runEngine cmp_units (MetaE (sample_header 1000) # sample_stream) no_options = Some (EngineDone res) \<and>
    result_rep cmp_units (engine_config_of no_options) (sample_header 1000) sample_stream res"
  by (rule run_is_its_events [OF sample_ok])

text \<open>
  C9: The counts of a finished run reconcile. The request rows add up to the run
  row, which counts exactly the requests outside the warm-up; the run's errors table adds up to its KO
  count plus the errors that no request caused; and the errors of a request add up to its KO count.
\<close>

theorem figures_reconcile:
  assumes "runnable (engine_config_of opts) m evs" and "fits (engine_config_of opts) evs"
    and "runEngine lc (MetaE m # evs) opts = Some (EngineDone res)"
  shows "let cold = (\<lambda>ts. \<not> isWarmup ts (me_startedAtMs m) (ec_warmupMs (engine_config_of opts)));
      rows = (\<lambda>P f. \<Sum>row \<leftarrow> filter (\<lambda>row. P (row_identity row)) (xr_stats res). f row);
      errors = (\<lambda>i. \<Sum>t \<leftarrow> filter (\<lambda>t. fst t = i) (xr_errors res). snd (snd t)) in
    rows (\<lambda>i. i = run_id) sr_count = int (length (filter (\<lambda>r. cold (rq_startMs r)) (gather requests_in evs))) \<and>
    rows (\<lambda>i. fst i = Request) sr_count = rows (\<lambda>i. i = run_id) sr_count \<and>
    rows (\<lambda>i. fst i = Request) sr_koCount = rows (\<lambda>i. i = run_id) sr_koCount \<and>
    errors (Run, []) = rows (\<lambda>i. i = run_id) sr_koCount +
      int (length (filter (\<lambda>ev. case ev of ErrorE x \<Rightarrow> cold (er_tsMs x) | _ \<Rightarrow> False) evs)) \<and>
    (\<forall>name. errors (Request, name) = rows (\<lambda>i. i = (Request, name, ResponseTimeF)) sr_koCount)"
proof -
  let ?c = "engine_config_of opts" and ?st = "me_startedAtMs m" and ?wu = "ec_warmupMs (engine_config_of opts)"
  let ?R = "gather (row_obs ?st ?wu) evs" and ?E = "gather (error_obs ?st ?wu) evs"
  have res: "result_rep lc ?c m evs res" using run_result [OF assms(1,2), of lc] assms(3) by auto
  then have rows: "list_all2 (row_for (window_of ?c ?st (gather requests_in evs)) (ec_percentiles ?c) ?R) (first_seen (map fst ?R)) (xr_stats res)"
    and errors: "xr_errors res = errors_of lc ?E" by (simp_all add: result_rep_def Let_def)
  let ?row = "\<lambda>P ev. int (length (filter (\<lambda>p. P (fst p)) (row_obs ?st ?wu ev)))"
  let ?ko = "\<lambda>P ev. int (length (filter (\<lambda>p. P (fst p)) (filter (\<lambda>p. \<not> snd (snd p)) (row_obs ?st ?wu ev))))"
  let ?loose = "\<lambda>ev. case ev of ErrorE x \<Rightarrow> \<not> isWarmup (er_tsMs x) ?st ?wu | _ \<Rightarrow> False"
  let ?rows = "\<lambda>P f. \<Sum>row \<leftarrow> filter (\<lambda>row. P (row_identity row)) (xr_stats res). (f row :: int)"
  let ?errors = "\<lambda>i. \<Sum>t \<leftarrow> filter (\<lambda>t. fst t = i) (xr_errors res). snd (snd t)"
  have count: "?rows P sr_count = (\<Sum>ev \<leftarrow> evs. ?row P ev)" for P
    using row_sums(1) [OF rows, of P] unfolding comp_def length_gather .
  have ko: "?rows P sr_koCount = (\<Sum>ev \<leftarrow> evs. ?ko P ev)" for P
    using row_sums(2) [OF rows, of P] unfolding comp_def gather_filter length_gather_all .
  have err: "?errors i = (\<Sum>ev \<leftarrow> evs. int (length (filter (\<lambda>p. fst p = i) (error_obs ?st ?wu ev))))" for i
    using error_sums [of "\<lambda>j. j = i" lc ?E] unfolding errors comp_def length_gather .
  show ?thesis unfolding Let_def
  proof (intro conjI allI)
    show "?rows (\<lambda>i. i = run_id) sr_count = int (length (filter (\<lambda>r. \<not> isWarmup (rq_startMs r) ?st ?wu) (gather requests_in evs)))"
      unfolding count [of "\<lambda>i. i = run_id"] length_gather by (rule sum_events) (case_tac ev; simp add: run_id_def)
    show "?rows (\<lambda>i. fst i = Request) sr_count = ?rows (\<lambda>i. i = run_id) sr_count"
      unfolding count [of "\<lambda>i. i = run_id"] count [of "\<lambda>i. fst i = Request"]
      by (rule sum_events) (case_tac ev; simp add: run_id_def)
    show "?rows (\<lambda>i. fst i = Request) sr_koCount = ?rows (\<lambda>i. i = run_id) sr_koCount"
      unfolding ko [of "\<lambda>i. i = run_id"] ko [of "\<lambda>i. fst i = Request"]
      by (rule sum_events) (case_tac ev; simp add: run_id_def)
    show "?errors (Run, []) = ?rows (\<lambda>i. i = run_id) sr_koCount + int (length (filter ?loose evs))"
      unfolding ko [of "\<lambda>i. i = run_id"] err length_filter_sum [of ?loose] sum_list_addf [symmetric]
      by (rule sum_events) (case_tac ev; simp add: run_id_def)
    show "?errors (Request, name) = ?rows (\<lambda>i. i = (Request, name, ResponseTimeF)) sr_koCount" for name
      unfolding ko [of "\<lambda>i. i = (Request, name, ResponseTimeF)"] err by (rule sum_events) (case_tac ev; simp)
  qed
qed

lemma sample_run:
  "\<exists>res. runEngine cmp_units (MetaE (sample_header 1000) # sample_stream) no_options = Some (EngineDone res) \<and>
    result_rep cmp_units (engine_config_of no_options) (sample_header 1000) sample_stream res \<and> bars_agree res"
  by (rule run_result [OF sample_ok])

theorem figures_reconcile_witness:
  "\<exists>res. runEngine cmp_units (MetaE (sample_header 1000) # sample_stream) no_options = Some (EngineDone res) \<and>
    (\<Sum>row \<leftarrow> filter (\<lambda>row. row_identity row = run_id) (xr_stats res). sr_count row) = 2 \<and>
    (\<Sum>row \<leftarrow> filter (\<lambda>row. fst (row_identity row) = Request) (xr_stats res). sr_count row) = 2"
proof -
  obtain res where res: "runEngine cmp_units (MetaE (sample_header 1000) # sample_stream) no_options = Some (EngineDone res)"
    using sample_run by blast
  from figures_reconcile [OF sample_ok res] have
    "(\<Sum>row \<leftarrow> filter (\<lambda>row. row_identity row = run_id) (xr_stats res). sr_count row) = 2"
    "(\<Sum>row \<leftarrow> filter (\<lambda>row. fst (row_identity row) = Request) (xr_stats res). sr_count row) = 2"
    by (simp_all add: Let_def sample_stream_def isWarmup_def engine_config_of_def no_options_def or_default_def)
  with res show ?thesis by blast
qed

text \<open>
  C8: In every finished run the failures drawn at a bucket of the run's
  response-time series add up to that bucket's KO count, and both series have the same width,
  however often each of them coalesced.
\<close>

theorem bars_sum_to_ko_counts:
  assumes "runnable (engine_config_of opts) m evs" and "fits (engine_config_of opts) evs"
    and "runEngine lc (MetaE m # evs) opts = Some (EngineDone res)"
    and "(rollupKey run_id, run_id, w, bs) \<in> set (xr_series res)" and "b \<in> set bs"
  shows "ez_bucketWidthMs (xr_errorSeries res) = w \<and> drawn (bk_startOffsetMs b) (ez_rows (xr_errorSeries res)) = bk_koCount b"
proof -
  have "bars_agree res" using run_result [OF assms(1,2), of lc] assms(3) by auto
  with assms(4,5) show ?thesis unfolding bars_agree_def by fastforce
qed

theorem bars_sum_to_ko_counts_witness:
  "\<exists>res w bs. runEngine cmp_units (MetaE (sample_header 1000) # sample_stream) no_options = Some (EngineDone res) \<and>
    (rollupKey run_id, run_id, w, bs) \<in> set (xr_series res) \<and> bs \<noteq> [] \<and>
    (\<forall>b \<in> set bs. drawn (bk_startOffsetMs b) (ez_rows (xr_errorSeries res)) = bk_koCount b)"
proof -
  obtain res where res: "runEngine cmp_units (MetaE (sample_header 1000) # sample_stream) no_options = Some (EngineDone res)"
    "result_rep cmp_units (engine_config_of no_options) (sample_header 1000) sample_stream res" using sample_run by blast
  let ?X = "gather series_obs sample_stream"
  have "list_all2 (series_for (engine_config_of no_options) 1000 ?X) (first_seen (map fst ?X)) (xr_series res)"
    using res(2) by (simp add: result_rep_def Let_def sample_header_def)
  moreover have "first_seen (map fst ?X) = [run_id, (Request, js ''a'', ResponseTimeF), (Request, js ''b'', ResponseTimeF)]"
    by (simp add: sample_stream_def sample_request_def request_path_def both_edges_def first_seen_def set_insert_def run_id_def)
  ultimately obtain s rest where s: "xr_series res = (rollupKey run_id, run_id, bs_widthMs s, buckets s) # rest"
    "series_rep s (mset (obs_of run_id ?X))" by (auto simp: list_all2_Cons1 series_for_def)
  have "obs_of run_id ?X \<noteq> []" by (simp add: sample_stream_def both_edges_def run_id_def obs_of_def)
  then have "map bk_startOffsetMs (buckets s) \<noteq> []"
    unfolding buckets_rep(1) [OF s(2)] by (simp add: sorted_list_of_set_eq_Nil_iff)
  moreover have mem: "(rollupKey run_id, run_id, bs_widthMs s, buckets s) \<in> set (xr_series res)" by (simp add: s(1) del: rollupKey.simps)
  ultimately show ?thesis
    using bars_sum_to_ko_counts [OF sample_ok res(1) mem] res(1) by (intro exI conjI ballI) (assumption | blast | simp)+
qed


text \<open>
  C23: A run with more distinct request paths than the cap is refused at the
  request that brings the first path too many, whatever follows it; the error carries the cap and the
  last distinct paths, at most five, the newest of which is that request's.
\<close>

theorem cap_names_the_culprit:
  assumes "runnable (engine_config_of opts) m evs" and "\<not> fits (engine_config_of opts) evs"
    and "0 \<le> ec_maxEndpoints (engine_config_of opts)"
  shows "\<exists>pre r post samples. evs = pre @ RequestE r # post \<and>
    int (length (request_paths pre)) = ec_maxEndpoints (engine_config_of opts) \<and> request_path r \<notin> set (request_paths pre) \<and>
    runEngine lc (MetaE m # evs) opts =
      Some (EngineThrew (EndpointCardinalityExceeded (ec_maxEndpoints (engine_config_of opts)) samples)) \<and>
    samples = last_five (request_paths pre @ [request_path r]) \<and> last samples = request_path r \<and> length samples \<le> 5"
proof -
  let ?c = "engine_config_of opts"
  have "fits ?c []" using assms(3) by (simp add: fits_def request_paths_def)
  moreover have "stream_room ?c (me_startedAtMs m) ([] @ evs)" "no_header evs" using assms(1) by (simp_all add: runnable_def)
  ultimately obtain pre ev post e' where ev: "evs = pre @ ev # post" "fits ?c pre" "\<not> fits ?c (pre @ [ev])"
    "engine_fold evs (add_meta m (new_engine opts)) = Some (Inl (too_many ?c (pre @ [ev]), e'))"
    using engine_fold_breaks [OF engine_rep_start, of opts m evs] assms(2) by auto
  obtain r where r: "ev = RequestE r" "request_path r \<notin> set (request_paths pre)"
    "request_paths (pre @ [ev]) = request_paths pre @ [request_path r]"
    using ev(2,3) by (cases ev) (auto simp: fits_def request_paths_def first_seen_snoc set_insert_def split: if_splits)
  have "int (length (request_paths pre)) = ec_maxEndpoints ?c" using ev(2,3) r(3) by (simp add: fits_def)
  moreover have "last (last_five (xs @ [x])) = x" "length (last_five (xs @ [x])) \<le> 5" for xs and x :: jstr
    by (simp_all add: last_five_def)
  ultimately show ?thesis
    using ev(1,4) r by (intro exI [of _ pre] exI [of _ r] exI [of _ post]) (simp add: runEngine_def engine_add_def too_many_def)
qed

theorem cap_names_the_culprit_witness:
  "\<exists>samples. runEngine cmp_units (MetaE (sample_header 1000) # sample_stream) (no_options\<lparr>eo_maxEndpoints := Some 1\<rparr>) =
    Some (EngineThrew (EndpointCardinalityExceeded 1 samples)) \<and> length samples \<le> 5"
proof -
  let ?o = "no_options\<lparr>eo_maxEndpoints := Some 1\<rparr>"
  have c: "engine_config_of ?o = (engine_config_of no_options)\<lparr>ec_maxEndpoints := 1\<rparr>"
    by (simp add: engine_config_of_def no_options_def or_default_def)
  have "series_cap (engine_config_of ?o) i = series_cap (engine_config_of no_options) i" for i
    by (cases "(engine_config_of no_options, i)" rule: series_cap.cases) (simp_all add: c)
  then have "runnable (engine_config_of ?o) (sample_header 1000) sample_stream"
    using sample_ok(1) [of "sample_header 1000"] by (simp add: runnable_def c stream_room_def edge_room_def)
  moreover have "\<not> fits (engine_config_of ?o) sample_stream"
    by (simp add: c fits_def request_paths_def sample_stream_def first_seen_def set_insert_def sample_request_def request_path_def)
  ultimately show ?thesis using cap_names_the_culprit [of ?o "sample_header 1000" sample_stream cmp_units] by (auto simp: c)
qed

lemma edge_of_request:
  assumes "ev \<in> set evs" and "((scope, name, ResponseTimeF), x) \<in> set (series_obs ev)"
  shows "\<exists>r \<in> set (gather requests_in evs). re_tsMs x = rq_startMs r \<or> re_tsMs x = rq_endMs r"
proof -
  have "\<exists>r \<in> set (requests_in ev). re_tsMs x = rq_startMs r \<or> re_tsMs x = rq_endMs r"
    using assms(2) by (cases ev) (auto simp: both_edges_def an_edge_def)
  with assms(1) show ?thesis by auto
qed

text \<open>
  Every bucket of a response-time series starts within the duration
  the run reports, so the response-time charts fit the axis it spans.
\<close>

lemma requests_end_within_duration:
  assumes "runnable (engine_config_of opts) m evs" and "fits (engine_config_of opts) evs"
    and "runEngine lc (MetaE m # evs) opts = Some (EngineDone res)"
    and "0 \<le> me_startedAtMs m" and "\<forall>r \<in> set (gather requests_in evs). rq_startMs r \<le> rq_endMs r"
    and "(k, (scope, name, ResponseTimeF), w, bs) \<in> set (xr_series res)" and "b \<in> set bs"
  shows "bk_startOffsetMs b \<le> xr_durationMs res"
proof -
  let ?c = "engine_config_of opts" and ?st = "me_startedAtMs m" and ?X = "gather series_obs evs" and ?i = "(scope, name, ResponseTimeF)"
  have res: "result_rep lc (engine_config_of opts) m evs res" using run_result [OF assms(1,2), of lc] assms(3) by auto
  then have "list_all2 (series_for ?c ?st ?X) (first_seen (map fst ?X)) (xr_series res)" by (simp add: result_rep_def Let_def)
  then have "\<forall>z \<in> set (xr_series res). \<exists>i. series_for ?c ?st ?X i z" by (rule list_all2_right) blast
  then obtain i where "series_for ?c ?st ?X i (k, ?i, w, bs)" using assms(6) by blast
  then obtain s where s: "bs = buckets s" "bs_startMs s = ?st" "series_rep s (mset (obs_of ?i ?X))" by (auto simp: series_for_def)
  let ?W = "bs_widthMs s"
  have "bk_startOffsetMs b \<in> set (map bk_startOffsetMs (buckets s))" using assms(7) s(1) by simp
  then obtain x where x: "x \<in> set (obs_of ?i ?X)" "bk_startOffsetMs b = (re_tsMs x - ?st) div ?W * ?W"
    unfolding buckets_rep(1) [OF s(3)] s(2) by auto
  then obtain ev where ev: "ev \<in> set evs" "(?i, x) \<in> set (series_obs ev)" by (auto simp: obs_of_def)
  then obtain r where r: "r \<in> set (gather requests_in evs)" "re_tsMs x = rq_startMs r \<or> re_tsMs x = rq_endMs r"
    using edge_of_request by blast
  let ?last = "Max (insert 0 (set (map rq_endMs (gather requests_in evs))))"
  have "rq_endMs r \<in> set (map rq_endMs (gather requests_in evs))" using r(1) by (simp only: set_map) (rule imageI)
  then have last: "rq_endMs r \<le> ?last" "0 \<le> ?last" by simp_all
  have dur: "xr_durationMs res = (if ?last = 0 then 0 else max 0 (?last - ?st))"
    using res by (simp only: result_rep_def Let_def)
  have "re_tsMs x \<le> rq_endMs r" using r assms(5) by auto
  moreover have "0 < ?W" using series_rep_width [OF s(3)] by blast
  then have "(re_tsMs x - ?st) div ?W * ?W \<le> re_tsMs x - ?st" by (simp add: minus_mod_eq_div_mult [symmetric])
  ultimately have "bk_startOffsetMs b \<le> ?last - ?st" "bk_startOffsetMs b \<le> 0 \<or> ?last \<noteq> 0"
    using last assms(4) unfolding x(2) by linarith+
  with dur show ?thesis by (cases "?last = 0") (simp_all only: if_True if_False le_max_iff_disj simp_thms)
qed


lemma series_has_edge:
  assumes "result_rep lc c m evs res" and "p \<in> set (gather series_obs evs)"
  obtains s where "(rollupKey (fst p), fst p, bs_widthMs s, buckets s) \<in> set (xr_series res)" "0 < bs_widthMs s"
    "(re_tsMs (snd p) - me_startedAtMs m) div bs_widthMs s * bs_widthMs s \<in> bk_startOffsetMs ` set (buckets s)"
    "narrowest (max 1 (series_cap c (fst p))) (\<lambda>x. re_tsMs x - me_startedAtMs m) (bs_widthMs s) (mset (obs_of (fst p) (gather series_obs evs)))"
proof -
  let ?st = "me_startedAtMs m" and ?X = "gather series_obs evs"
  have all: "list_all2 (series_for c ?st ?X) (first_seen (map fst ?X)) (xr_series res)" using assms(1) by (simp add: result_rep_def Let_def)
  have "fst p \<in> set (first_seen (map fst ?X))" using assms(2) by (simp only: first_seen_set set_map) (rule imageI)
  from list_all2_left [OF all this] obtain z where z: "z \<in> set (xr_series res)" "series_for c ?st ?X (fst p) z" by blast
  then obtain s where s: "z = (rollupKey (fst p), fst p, bs_widthMs s, buckets s)" "bs_startMs s = ?st"
    "bs_maxBuckets s = max 1 (series_cap c (fst p))" "series_rep s (mset (obs_of (fst p) ?X))" by (auto simp: series_for_def)
  have "snd p \<in> snd ` {q \<in> set ?X. fst q = fst p}" using assms(2) by (intro imageI) simp
  then have "snd p \<in> set (obs_of (fst p) ?X)" by (simp only: obs_of_def set_map set_filter)
  then have "(re_tsMs (snd p) - ?st) div bs_widthMs s * bs_widthMs s \<in> set (map bk_startOffsetMs (buckets s))"
    unfolding buckets_rep(1) [OF s(4)] s(2) by (auto intro!: imageI)
  with z(1) s series_rep_width [OF s(4)] that [of s] show thesis by (simp add: series_rep_def)
qed

lemma series_nonempty:
  assumes "result_rep lc c m evs res" and "p \<in> set (gather series_obs evs)"
  shows "\<exists>w bs. (rollupKey (fst p), fst p, w, bs) \<in> set (xr_series res) \<and> bs \<noteq> []"
proof -
  obtain s where s: "(rollupKey (fst p), fst p, bs_widthMs s, buckets s) \<in> set (xr_series res)"
    "(re_tsMs (snd p) - me_startedAtMs m) div bs_widthMs s * bs_widthMs s \<in> bk_startOffsetMs ` set (buckets s)"
    by (rule series_has_edge [OF assms])
  then have "buckets s \<noteq> []" by auto
  with s(1) show ?thesis by blast
qed

lemma narrowest_few: "narrowest cap time w M \<Longrightarrow> int (size M) \<le> cap \<Longrightarrow> w = 1000"
proof (rule ccontr)
  assume n: "narrowest cap time w M" "int (size M) \<le> cap" "w \<noteq> 1000"
  then have "1000 < w" using is_width_ge by (fastforce simp: narrowest_def)
  then have "cap < int (card ((\<lambda>x. time x div 1000) ` set_mset M))" using n(1) by (simp add: narrowest_def)
  moreover have "card ((\<lambda>x. time x div 1000) ` set_mset M) \<le> size M"
    by (metis card_image_le finite_set_mset order_trans size_multiset_overloaded_eq sum_mono2 card_eq_sum count_greater_eq_one_iff sum_mono)
  ultimately show False using n(2) by simp
qed

lemma requests_end_within_duration_witness:
  "\<exists>res w bs. runEngine cmp_units (MetaE (sample_header 1000) # sample_stream) no_options = Some (EngineDone res) \<and>
    (rollupKey run_id, run_id, w, bs) \<in> set (xr_series res) \<and> bs \<noteq> [] \<and> (\<forall>b \<in> set bs. bk_startOffsetMs b \<le> xr_durationMs res)"
proof -
  obtain res where res: "runEngine cmp_units (MetaE (sample_header 1000) # sample_stream) no_options = Some (EngineDone res)"
    "result_rep cmp_units (engine_config_of no_options) (sample_header 1000) sample_stream res" using sample_run by blast
  let ?p = "(run_id, an_edge 1000 200 True StartEdge)"
  have "?p \<in> set (gather series_obs sample_stream)"
    by (simp add: sample_stream_def both_edges_def sample_request_def run_id_def request_ms_def)
  from series_nonempty [OF res(2) this] obtain w bs where
    mem: "(rollupKey run_id, run_id, w, bs) \<in> set (xr_series res)" "bs \<noteq> []" unfolding fst_conv by blast
  have "0 \<le> me_startedAtMs (sample_header 1000)" "\<forall>r \<in> set (gather requests_in sample_stream). rq_startMs r \<le> rq_endMs r"
    by (simp_all add: sample_header_def sample_stream_def sample_request_def)
  from requests_end_within_duration [OF sample_ok res(1) this mem(1) [unfolded run_id_def]] have
    "\<forall>b \<in> set bs. bk_startOffsetMs b \<le> xr_durationMs res" by blast
  with res(1) mem show ?thesis by blast
qed

definition late_group :: "canonical_event list" where
  "late_group = [RequestE (sample_request (js ''a'') 1000 1200 True), GroupE \<lparr>gr_groups = [js ''g''], gr_userId = [],
     gr_startMs = 1000, gr_endMs = 9000, gr_cumulatedResponseTimeMs = 200, gr_ok = True\<rparr>]"

text \<open>
  C36: A group that ends after the last response has a bucket outside the
  reported duration: the duration is measured to the last request, not to the last event. Here it is
  200 ms and the group's series has a bucket 8 seconds in.
\<close>

theorem group_outlives_duration:
  "\<exists>res w bs b. runEngine lc (MetaE (sample_header 1000) # late_group) no_options = Some (EngineDone res) \<and>
    xr_durationMs res = 200 \<and> (rollupKey (Group, js ''g'', GroupDuration), (Group, js ''g'', GroupDuration), w, bs) \<in> set (xr_series res) \<and>
    b \<in> set bs \<and> bk_startOffsetMs b = 8000"
proof -
  let ?c = "engine_config_of no_options" and ?p = "((Group, js ''g'', GroupDuration), an_edge 9000 8000 True EndEdge)"
  have "runnable ?c (sample_header 1000) late_group" by (rule default_runnable) (simp add: no_header_def late_group_def)
  moreover have "fits ?c late_group"
    by (simp add: fits_def request_paths_def late_group_def first_seen_def set_insert_def engine_config_of_def no_options_def or_default_def)
  ultimately obtain res where res: "runEngine lc (MetaE (sample_header 1000) # late_group) no_options = Some (EngineDone res)"
    "result_rep lc ?c (sample_header 1000) late_group res" using run_result by blast
  have "?p \<in> set (gather series_obs late_group)" by (simp add: late_group_def both_edges_def group_name_def)
  from series_has_edge [OF res(2) this] obtain s where
    s: "(rollupKey (fst ?p), fst ?p, bs_widthMs s, buckets s) \<in> set (xr_series res)"
    "(re_tsMs (snd ?p) - me_startedAtMs (sample_header 1000)) div bs_widthMs s * bs_widthMs s \<in> bk_startOffsetMs ` set (buckets s)"
    "narrowest (max 1 (series_cap ?c (fst ?p))) (\<lambda>x. re_tsMs x - me_startedAtMs (sample_header 1000)) (bs_widthMs s)
      (mset (obs_of (fst ?p) (gather series_obs late_group)))" by metis
  have "bs_widthMs s = 1000"
    using s(3) by (rule narrowest_few) (simp add: late_group_def obs_of_def both_edges_def group_name_def engine_config_of_def
        no_options_def or_default_def)
  with s(2) obtain b where b: "b \<in> set (buckets s)" "bk_startOffsetMs b = 8000"
    by (auto simp: an_edge_def sample_header_def)
  have "xr_durationMs res = 200"
    using res(2) by (simp add: result_rep_def Let_def late_group_def sample_request_def sample_header_def)
  with res(1) s(1) b show ?thesis unfolding fst_conv by blast
qed


text \<open>
  C12: However often a live run is read between its events, cloning or not,
  the run is folded to the end and reports exactly what a run that was never read reports, although each
  read widens the error series in place. The only demand is that no two different messages compare
  as equal.
\<close>

theorem live_snapshots_are_harmless:
  assumes "runnable (engine_config_of opts) m (events_of ops)" and "fits (engine_config_of opts) (events_of ops)"
    and "strict_cmp lc"
  shows "\<exists>e res e'. live_run lc (AddEvent (MetaE m) # ops) (new_engine opts) = Some (Inr e) \<and>
    engine_snapshot lc False e = Some (Inr (res, e')) \<and>
    runEngine lc (MetaE m # events_of ops) opts = Some (EngineDone res)"
proof -
  let ?c = "engine_config_of opts" and ?e = "add_meta m (new_engine opts)"
  have "live_rep ?c m [] ?e ?e" using engine_rep_start by (simp add: live_rep_def add_meta_def new_engine_def)
  from live_run_rep [OF this, of ops lc] assms obtain e0 e where
    e: "engine_fold (events_of ops) ?e = Some (Inr e0)" "live_run lc ops ?e = Some (Inr e)" "live_rep ?c m (events_of ops) e0 e"
    by auto
  have "engine_rep ?c m (events_of ops) e0" using e(3) by (simp add: live_rep_def)
  from snapshot_rep [OF this assms(1), of lc False] obtain res e0' where
    res: "engine_snapshot lc False e0 = Some (Inr (res, e0'))" by blast
  obtain e' where "engine_snapshot lc False e = Some (Inr (res, e'))"
    using live_snapshot [OF e(3) res _ assms(3)] assms(1) by (auto simp: runnable_def)
  moreover have "runEngine lc (MetaE m # events_of ops) opts = Some (EngineDone res)"
    using e(1) res by (simp add: runEngine_def engine_add_def)
  moreover have "live_run lc (AddEvent (MetaE m) # ops) (new_engine opts) = Some (Inr e)"
    using e(2) by (simp add: engine_add_def)
  ultimately show ?thesis by blast
qed

theorem live_snapshots_are_harmless_witness:
  "\<exists>e res e'. live_run cmp_units [AddEvent (MetaE (sample_header 1000)), TakeSnapshot True,
      AddEvent (RequestE (sample_request (js ''a'') 1000 1200 True)), AddEvent (RequestE (sample_request (js ''b'') 1500 3900 False)),
      TakeSnapshot False] (new_engine no_options) = Some (Inr e) \<and>
    engine_snapshot cmp_units False e = Some (Inr (res, e')) \<and>
    runEngine cmp_units (MetaE (sample_header 1000) # sample_stream) no_options = Some (EngineDone res)"
  using live_snapshots_are_harmless [of no_options "sample_header 1000" "[TakeSnapshot True,
      AddEvent (RequestE (sample_request (js ''a'') 1000 1200 True)), AddEvent (RequestE (sample_request (js ''b'') 1500 3900 False)),
      TakeSnapshot False]", OF _ _ strict_units] sample_ok by (simp add: sample_stream_def)

end
