(* ===== verification/LiveProperties.thy ===== *)
theory LiveProperties
  imports LiveOwner EngineProperties
begin

text \<open>
  What the fold owner promises a consumer: whatever happens to single publications, the figures on a
  page that is still being told are those of the run.
\<close>

section \<open>Hearing some of the messages\<close>

fun heard :: "bool list \<Rightarrow> sent \<Rightarrow> live_delta list" where
  "heard (h # hs) ((d, oc) # sent) = (if h then [d] else []) @ heard hs sent"
| "heard _ _ = []"

text \<open>A message that was fully written is heard; one that was refused on the way may or may not be.\<close>

definition hears :: "bool list \<Rightarrow> tick list \<Rightarrow> bool" where
  "hears ears ts \<longleftrightarrow> list_all2 (\<lambda>h t. tk_outcome t = AllWritten \<longrightarrow> h) ears ts"

lemma between_refl: "prefix a b \<Longrightarrow> between a b b"
  by (simp add: between_def)

lemma between_step: "between a x b \<Longrightarrow> between a x (b @ c)"
  by (simp add: between_def)

lemma heard_views:
  assumes "history lc c m n a evs ts sent" and "hears ears ts" and "ears \<noteq> []" and "last ears"
    and "\<forall>a'. a = Some a' \<longrightarrow> (\<exists>x. between a' x evs \<and> views lc c m runId x cache)"
  shows "views lc c m runId (told evs ts) (fold (applyDelta runId) (heard ears sent) cache)"
  using assms
proof (induction ts arbitrary: n a evs sent ears cache)
  case Nil
  then show ?case by (simp add: hears_def)
next
  case (Cons t ts)
  obtain h hs where ears: "ears = h # hs" using Cons.prems(3) by (cases ears) auto
  let ?b = "evs @ tk_events t" and ?a = "if tk_outcome t = AllWritten then Some (evs @ tk_events t) else a"
  obtain d rest where d: "sent = (d, tk_outcome t) # rest" "case a of None \<Rightarrow> reseeds lc c m ?b d
      | Some a \<Rightarrow> prefix a evs \<and> carries lc c m a ?b d" "history lc c m (n + 1) ?a ?b ts rest"
    using Cons.prems(1) by auto
  define cache' where "cache' = (if h then applyDelta runId d cache else cache)"
  have now: "views lc c m runId ?b cache'" if h
  proof (cases a)
    case None
    then show ?thesis using d(2) that by (simp add: reseeds_def cache'_def)
  next
    case (Some a')
    then obtain x where "between a' x evs" "views lc c m runId x cache" using Cons.prems(5) by blast
    moreover have "carries lc c m a' ?b d" using d(2) Some by simp
    ultimately show ?thesis using that unfolding carries_def cache'_def by (metis between_step)
  qed
  have "\<exists>x. between a' x ?b \<and> views lc c m runId x cache'" if a': "?a = Some a'" for a'
  proof (cases h)
    case True
    have "prefix a' ?b" using a' d(2) by (auto split: if_splits)
    with now [OF True] show ?thesis by (blast intro: between_refl)
  next
    case False
    then have "a = Some a'" using a' Cons.prems(2) by (auto simp: ears hears_def)
    then show ?thesis using Cons.prems(5) False by (auto simp: cache'_def intro: between_step)
  qed
  then have "\<forall>a'. ?a = Some a' \<longrightarrow> (\<exists>x. between a' x ?b \<and> views lc c m runId x cache')" by blast
  note IH = Cons.IH [OF d(3) _ _ _ this]
  show ?case
  proof (cases "hs = []")
    case True
    then have "ts = []" "h" using Cons.prems(2,4) by (auto simp: ears hears_def)
    then show ?thesis using now d(1,3) by (simp add: ears cache'_def)
  next
    case False
    then show ?thesis
      using IH [of hs] Cons.prems(2,4) by (simp add: ears d(1) hears_def cache'_def split: if_splits)
  qed
qed

text \<open>
  C3: However many publications are refused half-way (by the channel, by the replay
  stream or by its expiry), and whichever of those a page still heard, once it hears a tick it shows the
  series, the users and the errors of the whole run folded so far, whatever it showed before: a failed
  publication leaves the frontier where it was and the next message covers it. Responses arrive in the
  order they ended and none starts in the warm-up; no rule names an inherited member of an object as its metric.
\<close>

theorem live_view_is_the_run:
  assumes "tk_events t = MetaE m # evs0" and "evs = told evs0 ts"
    and "runnable (engine_config_of opts) m evs" and "fits (engine_config_of opts) evs"
    and "orderly (engine_config_of opts) (me_startedAtMs m) evs" and "strict_cmp lc"
    and "hears ears (t # ts)" and "last ears" and "plain_rules rules"
  shows "\<exists>S sent res. owner_run lc bytes runId (t # ts) (claimed tip opts rules failed, k) = Some (Inr (S, sent)) \<and>
    runEngine lc (MetaE m # evs) opts = Some (EngineDone res) \<and>
    shows_result runId res (fold (applyDelta runId) (heard ears sent) cache)"
proof -
  let ?c = "engine_config_of opts" and ?ts = "t\<lparr>tk_events := evs0\<rparr> # ts"
  let ?s = "(claimed tip opts rules failed)\<lparr>fs_engine := add_meta m (new_engine opts)\<rparr>"
  have evs: "told [] ?ts = evs" by (simp add: assms(2))
  obtain S sent where run: "owner_run lc bytes runId ?ts (?s, k) = Some (Inr (S, sent))"
    "history lc ?c m (dc_seq (fs_cursor ?s)) None [] ?ts sent"
    using owner_run_rep [OF claimed_rep [OF assms(9)] refl, where ts = ?ts and lc = lc and m = m and bytes = bytes and runId = runId and k = k] assms(3-6)
    unfolding evs by metis
  obtain res where res: "runEngine lc (MetaE m # evs) opts = Some (EngineDone res)" "result_rep lc ?c m evs res"
    using run_result [OF assms(3,4)] by blast
  have "hears ears ?ts" using assms(7) by (auto simp: hears_def list_all2_Cons2)
  moreover have "ears \<noteq> []" using assms(7) by (auto simp: hears_def)
  ultimately have "views lc ?c m runId evs (fold (applyDelta runId) (heard ears sent) cache)"
    using heard_views [OF run(2)] assms(8) unfolding evs by simp
  from views_shows [OF this res(2)] run(1) res(1) show ?thesis
    using header_tick [OF assms(1), of lc bytes runId ts tip opts rules failed k] by metis
qed

definition live_ticks :: "tick list" where
  "live_ticks = [\<lparr>tk_events = [MetaE (sample_header 1000), RequestE (sample_request (js ''a'') 1000 1200 True)],
       tk_outcome = AllWritten, tk_setOk = False\<rparr>,
     \<lparr>tk_events = [RequestE (sample_request (js ''b'') 1500 3900 False)], tk_outcome = XaddRefused, tk_setOk = True\<rparr>,
     \<lparr>tk_events = [], tk_outcome = AllWritten, tk_setOk = True\<rparr>]"

theorem live_view_is_the_run_witness:
  "\<exists>S sent res. owner_run cmp_units (\<lambda>d. 4096) (js ''r'') live_ticks (claimed None no_options [] False, \<lparr>rk_stream = [], rk_snapshot = None\<rparr>) =
      Some (Inr (S, sent)) \<and>
    runEngine cmp_units (MetaE (sample_header 1000) # sample_stream) no_options = Some (EngineDone res) \<and>
    shows_result (js ''r'') res (fold (applyDelta (js ''r'')) (heard [True, False, True] sent)
      \<lparr>lc_series = None, lc_users = None, lc_errors = None\<rparr>)"
proof -
  have "orderly (engine_config_of no_options) (me_startedAtMs (sample_header 1000)) sample_stream"
    by (simp add: orderly_def sample_stream_def sample_request_def sample_header_def isWarmup_def engine_config_of_def
        no_options_def or_default_def)
  from live_view_is_the_run [OF _ _ sample_ok this strict_units, of "hd live_ticks" "[RequestE (sample_request (js ''a'') 1000 1200 True)]"
      "tl live_ticks" "[True, False, True]"] show ?thesis
    by (simp add: live_ticks_def sample_stream_def hears_def)
qed

end
