(* ===== verification/LiveViewers.thy ===== *)
theory LiveViewers
  imports LiveReplay LiveProperties
begin

text \<open>
  What a viewer of a live run can rely on, end to end from the owner's ticks through the gateway to the
  page, and the two ways in which the protocol falls short.
\<close>

section \<open>Catching up\<close>

text \<open>The page shows the figures of the run with these events.\<close>

definition is_current :: "(jstr \<Rightarrow> jstr \<Rightarrow> int) \<Rightarrow> engine_options \<Rightarrow> meta_event \<Rightarrow> jstr \<Rightarrow> canonical_event list \<Rightarrow> live_cache \<Rightarrow> bool" where
  "is_current lc opts m runId evs cache \<longleftrightarrow>
     (\<exists>res. runEngine lc (MetaE m # evs) opts = Some (EngineDone res) \<and> shows_result runId res cache)"

lemma shows_views:
  assumes "shows_result runId res cache" and "result_rep lc c m b res"
  shows "views lc c m runId b cache"
proof -
  obtain q bs where q: "lc_series cache = Some q" "run_series_of res = (sq_bucketWidthMs q, bs)"
    "map wire_bucket bs = map Inr (sq_buckets q)" using assms(1) by (auto simp: shows_result_def)
  let ?st = "me_startedAtMs m" and ?M = "run_edges_of b"
  obtain w bs' where s: "run_series_of res = (w, bs')" "settled (max 1 (ec_maxBucketsRun c)) ?st w ?M"
    "map bk_startOffsetMs bs' = sorted_list_of_set (slots ?st w ?M)"
    "\<And>b'. b' \<in> set bs' \<Longrightarrow> wire_bucket b' = Inr (shown_at ?st w ?M (bk_startOffsetMs b'))"
    by (rule run_series_rep [OF assms(2)]) blast
  have wb: "w = sq_bucketWidthMs q" "bs' = bs" using q(2) s(1) by simp_all
  have "map wire_bucket bs = map (\<lambda>off. Inr (shown_at ?st w ?M off)) (map bk_startOffsetMs bs)"
    unfolding map_map comp_def using s(4) wb(2) by (intro map_cong) simp_all
  also have "\<dots> = map Inr (shown ?st w ?M)" using s(3) wb(2) by (simp add: shown_def comp_def)
  finally have "map Inr (sq_buckets q) = map (Inr :: live_bucket \<Rightarrow> stat_error + live_bucket) (shown ?st w ?M)" unfolding q(3) .
  then have "sq_buckets q = shown ?st w ?M" by (simp add: inj_map_eq_map)
  then have "series_at c ?st b q" using s(2) wb(1) by (simp add: series_at_def)
  with q(1) assms show ?thesis by (auto simp: views_def shows_result_def)
qed

lemma views_current:
  assumes "runnable (engine_config_of opts) m evs" and "fits (engine_config_of opts) evs"
  shows "views lc (engine_config_of opts) m runId evs cache \<longleftrightarrow> is_current lc opts m runId evs cache"
proof -
  obtain res where "runEngine lc (MetaE m # evs) opts = Some (EngineDone res)" "result_rep lc (engine_config_of opts) m evs res"
    using run_result [OF assms] by blast
  then show ?thesis using views_shows shows_views by (fastforce simp: is_current_def)
qed

text \<open>
  C6: A page that opens, or reconnects after losing nothing it had counted, ends one
  connection at the newest message without closing it, and shows the run folded so far or says that it is
  partial; it says so only when no snapshot was there or the replay stream had outrun it in both attempts.
  The joining, each read of the keys and the flush may fall between any two of the owner's calls to Redis, under
  these conditions: the first read comes after the \<open>XADD\<close> of every message published before the viewer was
  subscribed, at most \<open>MAX_PENDING_DELTAS\<close> messages come in before the flush, every tick of the owner is appended
  to the stream, and the owner is the first to claim the run. The viewer counts as subscribed once the channel
  reaches it: that the reads of a viewer who shares a subscription still in flight come after that is assumed here.
\<close>

theorem a_viewer_catches_up:
  assumes "tk_events t = MetaE m # evs0" and "runnable (engine_config_of opts) m (told evs0 ts)" and "fits (engine_config_of opts) (told evs0 ts)"
    and "orderly (engine_config_of opts) (me_startedAtMs m) (told evs0 ts)" and "strict_cmp lc"
    and "\<forall>x \<in> set (t # ts). appended (tk_outcome x)" and "in_call_order (length (t # ts)) mo" and "b \<le> MAX_BUFFERED_BYTES"
    and "consistent 0 (\<lambda>q. is_current lc opts m runId (told evs0 (take (q - 1) ts))) (published (mo_join mo)) cl" and "plain_rules rules"
    and "keys = keys_between (keys_after lc bytes runId (t # ts) (claimed None opts rules failed, no_keys))"
  shows "\<exists>S sent cl'. owner_run lc bytes runId (t # ts) (claimed None opts rules failed, no_keys) = Some (Inr (S, sent)) \<and>
    connection runId b (map fst sent) published keys mo cl = (cl', False) \<and>
    cl_lastSeq cl' = Some (int (length ts)) \<and>
    (cl_partial cl' \<or> is_current lc opts m runId (told evs0 ts) (cl_cache cl')) \<and>
    (cl_partial cl' \<longrightarrow> cl_partial cl \<or> degraded keys mo)"
proof -
  let ?c = "engine_config_of opts" and ?ts = "t\<lparr>tk_events := evs0\<rparr> # ts" and ?claim = "claimed None opts rules failed"
  let ?s = "?claim\<lparr>fs_engine := add_meta m (new_engine opts)\<rparr>"
  let ?V = "\<lambda>i. views lc ?c m runId (told [] (take i ?ts))"
  have n: "dc_seq (fs_cursor ?s) = 0" by (simp add: claimed_def resumeState_def INITIAL_CURSOR_def)
  have all: "told [] ?ts = told evs0 ts" by simp
  have app: "\<forall>x \<in> set ?ts. appended (tk_outcome x)" using assms(6) by simp
  obtain S sent where run: "owner_run lc bytes runId ?ts (?s, no_keys) = Some (Inr (S, sent))" "length sent = length ?ts"
    and feed: "feed runId 0 (map fst sent) ?V (keys_after lc bytes runId ?ts (?s, no_keys))"
    using owner_feed [OF claimed_rep [OF assms(10)] n _ _ _ _ assms(5) app, where bytes = bytes and runId = runId] assms(2-4) unfolding all by blast
  have same: "owner_run lc bytes runId (take i (t # ts)) (?claim, no_keys) = owner_run lc bytes runId (take i ?ts) (?s, no_keys)" if "i \<noteq> 0" for i
    using that header_tick [OF assms(1)] by (simp only: take_Cons' if_False)
  have keys: "keys_after lc bytes runId (t # ts) (?claim, no_keys) = keys_after lc bytes runId ?ts (?s, no_keys)"
  proof
    fix i show "keys_after lc bytes runId (t # ts) (?claim, no_keys) i = keys_after lc bytes runId ?ts (?s, no_keys) i"
      unfolding keys_after_def snd_conv using same [of i] by (cases "i = 0") simp_all
  qed
  have V: "?V q cache \<longleftrightarrow> is_current lc opts m runId (told evs0 (take (q - 1) ts)) cache" if "1 \<le> q" for q cache
  proof -
    have q: "told [] (take q ?ts) = told evs0 (take (q - 1) ts)" using that by (cases q) simp_all
    have split: "told evs0 ts = told evs0 (take (q - 1) ts) @ concat (map tk_events (drop (q - 1) ts))"
      by (simp flip: concat_append map_append)
    show ?thesis unfolding q
      by (rule views_current [OF runnable_prefix [OF assms(2) [unfolded split]] fits_prefix [OF assms(3) [unfolded split]]])
  qed
  let ?mo = "in_messages mo" and ?keys = "keys_after lc bytes runId ?ts (?s, no_keys)"
  have order: "in_order (length (t # ts)) ?mo" by (rule in_call_order_messages [OF assms(7)])
  have "consistent 0 ?V (mo_join ?mo) cl" using assms(9) V unfolding consistent_def in_messages_def by (auto split: option.splits)
  moreover have "in_order (length (map fst sent)) ?mo" "map fst sent \<noteq> []" using run(2) order by auto
  ultimately obtain cl' where cl': "connection runId b (map fst sent) id ?keys ?mo cl = (cl', False)"
    "cl_lastSeq cl' = Some (0 + int (length (map fst sent)) - 1)" "cl_partial cl' \<or> ?V (length (map fst sent)) (cl_cache cl')"
    "cl_partial cl' \<longrightarrow> cl_partial cl \<or> degraded ?keys ?mo"
    using connection_catches_up [OF feed _ _ assms(8)] by blast
  then have "cl_lastSeq cl' = Some (int (length ts))" "cl_partial cl' \<or> is_current lc opts m runId (told evs0 ts) (cl_cache cl')"
    using run(2) V [of "length ?ts"] by simp_all
  moreover have "owner_run lc bytes runId (t # ts) (?claim, no_keys) = Some (Inr (S, sent))"
    using run(1) same [of "length ?ts"] by simp
  ultimately show ?thesis using cl'(1,4) unfolding assms(11) keys connection_between degraded_between by blast
qed

text \<open>
  Joined after the first \<open>PUBLISH\<close>, with the reads spread over the next tick: the stream of the first attempt is read
  between the \<open>XADD\<close> and the \<open>EXPIRE\<close>, the flush comes after the third \<open>PUBLISH\<close>.
\<close>

definition seen_moments :: moments where
  "seen_moments = \<lparr>mo_join = 1, mo_resume = 2, mo_snapshot1 = 5, mo_stream1 = 6, mo_snapshot2 = 7, mo_stream2 = 8, mo_flush = 9\<rparr>"

definition viewer_ticks :: "tick list" where
  "viewer_ticks = [\<lparr>tk_events = [MetaE (sample_header 1000), RequestE (sample_request (js ''a'') 1000 1200 True)],
       tk_outcome = AllWritten, tk_setOk = True\<rparr>,
     \<lparr>tk_events = [RequestE (sample_request (js ''b'') 1500 3900 False)], tk_outcome = ExpireRefused, tk_setOk = True\<rparr>,
     \<lparr>tk_events = [], tk_outcome = AllWritten, tk_setOk = True\<rparr>]"

definition empty_page :: live_cache where
  "empty_page = \<lparr>lc_series = None, lc_users = None, lc_errors = None\<rparr>"

theorem a_viewer_catches_up_witness:
  "\<exists>S sent cl'. owner_run cmp_units (\<lambda>d. 4096) [] viewer_ticks (claimed None no_options [] False, no_keys) = Some (Inr (S, sent)) \<and>
    connection [] 0 (map fst sent) published (keys_between (keys_after cmp_units (\<lambda>d. 4096) [] viewer_ticks (claimed None no_options [] False, no_keys)))
      seen_moments (new_client empty_page) = (cl', False) \<and> cl_lastSeq cl' = Some 2 \<and>
    (cl_partial cl' \<or> is_current cmp_units no_options (sample_header 1000) [] sample_stream (cl_cache cl')) \<and>
    (cl_partial cl' \<longrightarrow> cl_partial (new_client empty_page) \<or>
      degraded (keys_between (keys_after cmp_units (\<lambda>d. 4096) [] viewer_ticks (claimed None no_options [] False, no_keys))) seen_moments)"
proof -
  define t where "t = hd viewer_ticks"
  define ts where "ts = tl viewer_ticks"
  define evs0 where "evs0 = [RequestE (sample_request (js ''a'') 1000 1200 True)]"
  have ticks: "viewer_ticks = t # ts" by (simp add: t_def ts_def viewer_ticks_def)
  have header: "tk_events t = MetaE (sample_header 1000) # evs0" by (simp add: t_def viewer_ticks_def evs0_def)
  have evs: "told evs0 ts = sample_stream" by (simp add: ts_def viewer_ticks_def evs0_def sample_stream_def)
  have len: "length ts = 2" by (simp add: ts_def viewer_ticks_def)
  have "orderly (engine_config_of no_options) (me_startedAtMs (sample_header 1000)) (told evs0 ts)"
    unfolding evs by (simp add: orderly_def sample_stream_def sample_request_def sample_header_def isWarmup_def engine_config_of_def
        no_options_def or_default_def)
  moreover have "\<forall>x \<in> set (t # ts). appended (tk_outcome x)" by (simp add: t_def ts_def viewer_ticks_def appended_def)
  moreover have "in_call_order (length (t # ts)) seen_moments"
    by (simp add: len in_call_order_def seen_moments_def published_def xadded_def MAX_PENDING_DELTAS_def)
  moreover have "consistent 0 V i (new_client empty_page)" for V i by (simp add: consistent_def new_client_def)
  ultimately show ?thesis
    using a_viewer_catches_up [OF header _ _ _ strict_units, of no_options ts seen_moments 0 "[]" "new_client empty_page" "[]"
        "keys_between (keys_after cmp_units (\<lambda>d. 4096) [] (t # ts) (claimed None no_options [] False, no_keys))" "\<lambda>d. 4096" False]
      sample_ok unfolding evs ticks len by (simp add: MAX_BUFFERED_BYTES_def)
qed

end
