(* ===== verification/LiveFaults.thy ===== *)
theory LiveFaults
  imports LiveViewers
begin

text \<open>
  Where the live protocol falls short of what its comments promise: a sequence number that no message
  carries, a connection that drops between the snapshot and its replay, and responses of the warm-up.
\<close>

section \<open>A number that no message carries\<close>

text \<open>The stream reaches the viewer's cursor but has no message with the next number.\<close>

definition stream_hole :: "int \<Rightarrow> run_keys \<Rightarrow> bool" where
  "stream_hole v k \<longleftrightarrow> rk_stream k \<noteq> [] \<and> ld_seq (hd (rk_stream k)) \<le> v + 1 \<and>
     list_all (\<lambda>d. 0 \<le> ld_seq d \<and> ld_seq d \<noteq> v + 1) (rk_stream k) \<and> list_ex (\<lambda>d. v + 1 < ld_seq d) (rk_stream k)"

record reconnect =
  re_reads :: seed_reads
  re_during :: "live_delta list"
  re_after :: "live_delta list"
  re_code :: int
  re_random :: rat

definition reconnected :: "jstr \<Rightarrow> int \<Rightarrow> reconnect \<Rightarrow> live_client \<Rightarrow> live_client" where
  "reconnected runId b r cl = fst (on_close (re_code r) (re_random r) (fst (on_messages runId
     (gs_sent (serve runId b (readResumeCursor (resume_param cl)) (re_reads r) (re_during r) (re_after r))) (on_open cl))))"

text \<open>A connection on such a stream, whatever the channel carries meanwhile.\<close>

definition holed_reconnect :: "int \<Rightarrow> int \<Rightarrow> reconnect \<Rightarrow> bool" where
  "holed_reconnect b v r \<longleftrightarrow> stream_hole v (at_resume (re_reads r)) \<and> int (length (re_during r)) \<le> MAX_PENDING_DELTAS \<and>
     b \<le> MAX_BUFFERED_BYTES \<and> list_all (\<lambda>d. 0 \<le> ld_seq d) (re_during r @ re_after r) \<and> re_code r \<noteq> CLOSE_UNAUTHORIZED"

lemma hole_closes:
  assumes "holed_reconnect b v r" and "cl_lastSeq cl = Some v" and "cl_expectSeq cl = Some (v + 1)" and "0 \<le> v" and "v < 2 ^ 53"
  shows "on_messages runId (gs_sent (serve runId b (readResumeCursor (resume_param cl)) (re_reads r) (re_during r) (re_after r)))
    (on_open cl) = (on_open cl, True)"
proof -
  let ?k = "at_resume (re_reads r)"
  have hole: "rk_stream ?k \<noteq> []" "ld_seq (hd (rk_stream ?k)) \<le> v + 1" "\<forall>d \<in> set (rk_stream ?k). 0 \<le> ld_seq d \<and> ld_seq d \<noteq> v + 1"
    "\<exists>d \<in> set (rk_stream ?k). v + 1 < ld_seq d" using assms(1) by (auto simp: holed_reconnect_def stream_hole_def list_all_iff list_ex_iff)
  define rs where "rs = filter (\<lambda>d. v < ld_seq d) (rk_stream ?k)"
  have read: "readStream ?k = entries_of (rk_stream ?k)" using hole(3) by (intro readStream_entries) (simp add: seqOf_def)
  obtain d0 where "d0 \<in> set (rk_stream ?k)" "v + 1 < ld_seq d0" using hole(4) by blast
  then have "d0 \<in> set rs" by (simp add: rs_def)
  then have "rs \<noteq> []" by auto
  then obtain d rest where d: "rs = d # rest" by (cases rs) auto
  then have "d \<in> set rs" by simp
  then have "d \<in> set (rk_stream ?k)" "v < ld_seq d" by (simp_all add: rs_def)
  then have gap: "v + 1 < ld_seq d" using hole(3) by fastforce
  have cursor: "readResumeCursor (resume_param cl) = Some v" using assms(2,4,5) resume_cursor(1) by (simp add: resume_param_def)
  have seed: "sd_snapshot (seed_of runId (Some v) (re_reads r)) = None" "sd_replay (seed_of runId (Some v) (re_reads r)) = entries_of rs"
    using hole(1,2) by (simp_all add: seed_of_def read Let_def hd_map filter_entries rs_def)
  have seqs: "\<forall>d \<in> set (re_during r) \<union> set (re_after r). seqOf d = Some (ld_seq d)"
    using assms(1) by (auto simp: holed_reconnect_def list_all_iff seqOf_def)
  have "\<exists>more. gs_sent (serve runId b (Some v) (re_reads r) (re_during r) (re_after r)) = DeltaFrame d # more"
    using serve_frames [OF _ _ seqs seed(2)] assms(1) by (simp add: seed(1) d holed_reconnect_def)
  then show ?thesis unfolding cursor using gap assms(3) by (auto simp: on_open_def Let_def)
qed

lemma map_sum_Inr_eq: "map_sum id f x = Inr y \<longleftrightarrow> (\<exists>z. x = Inr z \<and> f z = y)"
  by (cases x) auto

lemma buildDelta_seq:
  assumes "buildDelta runId res cur sla = Inr (d, nxt)"
  shows "ld_seq d = dc_seq cur \<and> dc_seq nxt = dc_seq cur + 1"
  using assms unfolding buildDelta_def Let_def by (auto simp: map_sum_Inr_eq split: prod.splits)

lemma refused_keeps_stream:
  assumes "publish lc bytes PublishRefused setOk runId (s, k) = Some (Inr ((s', k'), d))"
  shows "k' = k \<and> ld_seq d = dc_seq (fs_cursor s) \<and> dc_seq (fs_cursor s') = ld_seq d + 1"
proof -
  obtain res e where "engine_snapshot lc True (fs_engine s) = Some (Inr (res, e))"
    using assms by (auto simp: publish_def split: option.splits sum.splits)
  with assms obtain sla nxt where "buildDelta runId res (fs_cursor s) sla = Inr (d, nxt)" "k' = k" "fs_cursor s' = (fs_cursor s)\<lparr>dc_seq := dc_seq nxt\<rparr>"
    by (auto simp: publish_def bind_sum_Inr_eq appended_def Let_def)
  with buildDelta_seq [OF this(1)] show ?thesis by simp
qed

text \<open>
  C39: A publication that Redis refused takes its sequence number with it: the
  stream is as before and the next message is numbered one further. A viewer at the number before the gap
  closes every connection on its first message for as long as the stream still reaches back to its cursor:
  however often it reconnects it shows the same figures, with one more attempt each time.
\<close>

theorem skipped_seq_freezes_viewers:
  assumes "cl_lastSeq cl = Some v" and "cl_expectSeq cl = Some (v + 1)" and "0 \<le> v" and "v < 2 ^ 53"
    and "list_all (holed_reconnect b v) rounds"
  shows "(publish lc bytes PublishRefused setOk runId (s, k) = Some (Inr ((s', k'), d)) \<longrightarrow>
      k' = k \<and> ld_seq d = dc_seq (fs_cursor s) \<and> dc_seq (fs_cursor s') = ld_seq d + 1) \<and>
    (let cl' = fold (reconnected runId b) rounds cl in
      cl_cache cl' = cl_cache cl \<and> cl_lastSeq cl' = Some v \<and> cl_expectSeq cl' = Some (v + 1) \<and>
      cl_attempt cl' = cl_attempt cl + length rounds)"
proof (rule conjI)
  show "publish lc bytes PublishRefused setOk runId (s, k) = Some (Inr ((s', k'), d)) \<longrightarrow>
      k' = k \<and> ld_seq d = dc_seq (fs_cursor s) \<and> dc_seq (fs_cursor s') = ld_seq d + 1"
    using refused_keeps_stream by blast
  show "let cl' = fold (reconnected runId b) rounds cl in
      cl_cache cl' = cl_cache cl \<and> cl_lastSeq cl' = Some v \<and> cl_expectSeq cl' = Some (v + 1) \<and>
      cl_attempt cl' = cl_attempt cl + length rounds"
    using assms(1,2,5)
  proof (induction rounds arbitrary: cl)
    case Nil
    then show ?case by simp
  next
    case (Cons r rounds)
    then have r: "holed_reconnect b v r" by simp
    have "reconnected runId b r cl = cl\<lparr>cl_connected := False, cl_attempt := cl_attempt cl + 1\<rparr>"
      unfolding reconnected_def hole_closes [OF r Cons.prems(1,2) assms(3,4)]
      using r by (simp add: on_close_def on_open_def holed_reconnect_def Let_def)
    with Cons show ?case by (simp add: Let_def)
  qed
qed

definition message_at :: "int \<Rightarrow> live_delta" where
  "message_at i = (emptyDelta [])\<lparr>ld_seq := i\<rparr>"

definition reads_of :: "run_keys \<Rightarrow> seed_reads" where
  "reads_of k = \<lparr>at_resume = k, at_snapshot1 = k, at_stream1 = k, at_snapshot2 = k, at_stream2 = k\<rparr>"

definition holed_round :: reconnect where
  "holed_round = \<lparr>re_reads = reads_of \<lparr>rk_stream = map message_at [0, 2, 3], rk_snapshot = Some (message_at 1)\<rparr>,
     re_during = [], re_after = [message_at 4], re_code = 1005, re_random = 1 / 2\<rparr>"

definition waiting_client :: live_client where
  "waiting_client = (new_client empty_page)\<lparr>cl_lastSeq := Some 0, cl_expectSeq := Some 1\<rparr>"

theorem skipped_seq_freezes_viewers_witness:
  "cl_attempt (fold (reconnected [] 0) (replicate 5 holed_round) waiting_client) = 5 \<and>
   cl_cache (fold (reconnected [] 0) (replicate 5 holed_round) waiting_client) = empty_page"
proof -
  have "holed_reconnect 0 0 holed_round"
    by (simp add: holed_reconnect_def holed_round_def reads_of_def message_at_def stream_hole_def MAX_PENDING_DELTAS_def
        MAX_BUFFERED_BYTES_def CLOSE_UNAUTHORIZED_def)
  then have "list_all (holed_reconnect 0 0) (replicate 5 holed_round)" by (simp add: list_all_iff)
  from skipped_seq_freezes_viewers [OF _ _ _ _ this, of waiting_client] show ?thesis
    by (simp add: waiting_client_def new_client_def Let_def)
qed

section \<open>A connection that drops during the replay\<close>

text \<open>
  C38: The snapshot frame already carries the number of the last message of the
  replay that follows it. A connection that drops in between resumes after that number, gets nothing more,
  and shows the snapshot as the newest state without saying that it is partial: the messages of the replay
  never arrive.
\<close>

theorem drop_during_replay_is_lost:
  assumes "rk_snapshot k = Some sn" and "rk_stream k = ds" and "numbered n ds" and "0 \<le> n" and "n + int (length ds) < 2 ^ 53"
    and "n \<le> ld_seq sn" and "ld_seq sn < n + int (length ds)" and "b \<le> MAX_BUFFERED_BYTES"
  shows "let reads = reads_of k; sent = gs_sent (serve runId b None reads [] []); cl = fst (on_messages runId (take 1 sent) (new_client page))
    in sent = SnapshotFrame False (n + int (length ds) - 1) sn # map DeltaFrame (drop (nat (ld_seq sn - n)) ds) \<and>
      gs_sent (serve runId b (readResumeCursor (resume_param cl)) reads [] []) = [] \<and>
      \<not> cl_partial cl \<and> cl_cache cl = applyDelta runId sn page \<and> drop (nat (ld_seq sn - n)) ds \<noteq> []"
proof -
  define reads where "reads = reads_of k"
  define L where "L = n + int (length ds) - 1"
  define y where "y = nat (ld_seq sn - n)"
  have ds: "ds \<noteq> []" "ld_seq (hd ds) = n" using assms(3,6,7) by (cases ds; simp)+
  have y: "int y = ld_seq sn - n" "y < length ds" using assms(6,7) by (simp_all add: y_def)
  have read: "readStream k = entries_of ds" using assms(2) numbered_nonneg [OF assms(3,4)] by (simp add: readStream_entries)
  have snap: "readSnapshot k = Some (ld_seq sn, sn)" using assms(1,4,6) by (simp add: readSnapshot_def seqOf_def)
  have rp: "filter (\<lambda>(q, _). ld_seq sn \<le> q) (entries_of ds) = entries_of (drop y ds)"
    using numbered_filter [OF assms(3), of "ld_seq sn"] by (simp only: filter_entries y_def)
  have last: "ld_seq (last (drop y ds)) = L" "drop y ds \<noteq> []" "ld_seq (last ds) = L"
    using numbered_last [OF assms(3) ds(1)] y(2) by (simp_all add: L_def)
  have s1: "seed_of runId None reads = \<lparr>sd_snapshot = Some sn, sd_partial = False, sd_replay = entries_of (drop y ds), sd_lastSeq = L\<rparr>"
    using ds assms(6) last by (simp add: seed_of_def seed_fresh_def attemptSeed_def reads_def reads_of_def snap read rp Let_def hd_map last_seq_entries)
  have "\<not> L < ld_seq d" if "d \<in> set ds" for d using that assms(3) by (auto simp: numbered_def in_set_conv_nth L_def)
  then have "filter (\<lambda>(q, _). L < q) (entries_of ds) = entries_of []" unfolding filter_entries by (simp add: filter_empty_conv)
  then have s2: "seed_of runId (Some L) reads = \<lparr>sd_snapshot = None, sd_partial = False, sd_replay = entries_of [], sd_lastSeq = L\<rparr>"
    using ds assms(4) by (simp add: seed_of_def reads_def reads_of_def read Let_def hd_map last_seq_or_def L_def)
  have sent: "gs_sent (serve runId b None reads [] []) = SnapshotFrame False L sn # map DeltaFrame (drop y ds)"
    "gs_sent (serve runId b (Some L) reads [] []) = []"
    using serve_frames [OF assms(8), of "[]" "[]" runId None reads "drop y ds"] serve_frames [OF assms(8), of "[]" "[]" runId "Some L" reads "[]"]
    by (simp_all add: s1 s2 MAX_PENDING_DELTAS_def)
  moreover have "readResumeCursor (Some (js_int L)) = Some L" using assms(4,5) ds(1) by (intro resume_cursor) (cases ds; simp add: L_def)+
  ultimately show ?thesis
    unfolding Let_def reads_def [symmetric] using last(2)
    by (simp add: resume_param_def apply_frame_def new_client_def L_def y_def)
qed

definition replayed_keys :: run_keys where
  "replayed_keys = \<lparr>rk_stream = map message_at [0, 1, 2], rk_snapshot = Some (message_at 1)\<rparr>"

theorem drop_during_replay_is_lost_witness:
  "let reads = reads_of replayed_keys; sent = gs_sent (serve [] 0 None reads [] []);
      cl = fst (on_messages [] (take 1 sent) (new_client empty_page))
    in sent = SnapshotFrame False (0 + int (length (map message_at [0, 1, 2])) - 1) (message_at 1) #
        map DeltaFrame (drop (nat (ld_seq (message_at 1) - 0)) (map message_at [0, 1, 2])) \<and>
      gs_sent (serve [] 0 (readResumeCursor (resume_param cl)) reads [] []) = [] \<and>
      \<not> cl_partial cl \<and> cl_cache cl = applyDelta [] (message_at 1) empty_page \<and>
      drop (nat (ld_seq (message_at 1) - 0)) (map message_at [0, 1, 2]) \<noteq> []"
  by (rule drop_during_replay_is_lost) (simp_all add: replayed_keys_def message_at_def MAX_BUFFERED_BYTES_def)

section \<open>Joining between the two calls of a publication\<close>

text \<open>
  A viewer that is subscribed between the \<open>PUBLISH\<close> and the \<open>XADD\<close> of a message, and whose reads of the keys are
  answered before that \<open>XADD\<close>, gets the message from neither. When the snapshot is of the message before, nothing is
  replayed, so that the first message of the channel is taken without a check of its number: the hole goes unnoticed.
\<close>

lemma join_in_flight_is_lost:
  assumes "rk_snapshot k = Some sn" and "rk_stream k = ds" and "ds \<noteq> []" and "numbered n ds" and "0 \<le> n"
    and "ld_seq sn = n + int (length ds)" and "numbered (ld_seq sn + 1) later" and "b \<le> MAX_BUFFERED_BYTES"
  shows "\<exists>cl. on_messages runId (gs_sent (serve runId b None (reads_of k) [] later)) (new_client page) = (cl, False) \<and>
    \<not> cl_partial cl \<and> cl_cache cl = fold (applyDelta runId) later (applyDelta runId sn page)"
proof -
  have hd: "ld_seq (hd ds) = n" using assms(3,4) by (cases ds; simp)
  have read: "readStream k = entries_of ds" using assms(2) numbered_nonneg [OF assms(4,5)] by (simp add: readStream_entries)
  have snap: "readSnapshot k = Some (ld_seq sn, sn)" using assms(1,5,6) by (simp add: readSnapshot_def seqOf_def)
  have "filter (\<lambda>(q, _). ld_seq sn \<le> q) (entries_of ds) = entries_of []"
    unfolding filter_entries numbered_filter [OF assms(4)] by (simp add: assms(6))
  then have s: "seed_of runId None (reads_of k) = \<lparr>sd_snapshot = Some sn, sd_partial = False, sd_replay = entries_of [],
      sd_lastSeq = ld_seq sn - 1\<rparr>"
    using assms(3,6) hd by (simp add: seed_of_def seed_fresh_def attemptSeed_def reads_of_def snap read Let_def hd_map last_seq_or_def)
  have "0 \<le> ld_seq sn + 1" using assms(5,6) by simp
  then have seqs: "\<forall>d \<in> set [] \<union> set later. seqOf d = Some (ld_seq d)" using numbered_nonneg [OF assms(7)] by simp
  have frames: "gs_sent (serve runId b None (reads_of k) [] later) = SnapshotFrame False (ld_seq sn - 1) sn # map DeltaFrame later"
    using serve_frames [OF assms(8) _ seqs, of runId None "reads_of k" "[]"] by (simp add: s MAX_PENDING_DELTAS_def)
  define cl1 where "cl1 = apply_frame runId sn ((new_client page)\<lparr>cl_lastSeq := Some (ld_seq sn - 1), cl_expectSeq := None, cl_partial := False\<rparr>)"
  have "cl_expectSeq cl1 = None" by (simp add: cl1_def apply_frame_def)
  with follow_deltas [OF assms(7), of cl1 runId] obtain cl where "on_messages runId (map DeltaFrame later) cl1 = (cl, False)"
    "cl_cache cl = fold (applyDelta runId) later (cl_cache cl1)" "cl_partial cl = cl_partial cl1" by blast
  then show ?thesis by (simp add: frames cl1_def [symmetric]) (simp add: cl1_def apply_frame_def new_client_def)
qed

text \<open>Such keys: messages 0 and 1 appended, a snapshot of both, message 2 between its two calls, message 3 on the channel.\<close>

lemma join_in_flight_sample:
  "\<exists>cl. on_messages [] (gs_sent (serve [] 0 None (reads_of \<lparr>rk_stream = map message_at [0, 1], rk_snapshot = Some (message_at 2)\<rparr>)
      [] [message_at 3])) (new_client empty_page) = (cl, False) \<and> \<not> cl_partial cl \<and>
    cl_cache cl = fold (applyDelta []) [message_at 3] (applyDelta [] (message_at 2) empty_page)"
  by (rule join_in_flight_is_lost [where ds = "map message_at [0, 1]" and n = 0])
    (simp_all add: message_at_def MAX_BUFFERED_BYTES_def)

end
