(* ===== verification/LiveWarmup.thy ===== *)
theory LiveWarmup
  imports LiveFaults
begin

text \<open>
  The lookback of the live series and the warm-up: the run's series counts responses of the warm-up, the
  slowest response that sizes the lookback does not.
\<close>

section \<open>A message on any stream\<close>

text \<open>Without any assumption on the order of the responses: a message is built, and what it carries.\<close>

lemma buildDelta_total:
  assumes "result_rep lc c m b res"
  obtains d nxt w bs where "buildDelta runId res cur sla = Inr (d, nxt)" "run_series_of res = (w, bs)"
    "settled (max 1 (ec_maxBucketsRun c)) (me_startedAtMs m) w (run_edges_of b)"
    "bk_startOffsetMs ` set bs = slots (me_startedAtMs m) w (run_edges_of b)"
    "rt_widthMs (ld_responseTime d) = w" "rt_replaces (ld_responseTime d) \<longleftrightarrow> w \<noteq> dc_lastBucketWidthMs cur"
    "rt_buckets (ld_responseTime d) = map (shown_at (me_startedAtMs m) w (run_edges_of b)) (sorted_list_of_set
      {off \<in> slots (me_startedAtMs m) w (run_edges_of b).
        (if w \<noteq> dc_lastBucketWidthMs cur then - 1 else dc_lastPublishedOffsetMs cur) -
          lookback_ms (case run_stat_of res of Some s \<Rightarrow> sr_maxMs s | None \<Rightarrow> 0) w \<le> off})"
proof -
  let ?st = "me_startedAtMs m" and ?M = "run_edges_of b"
  obtain w bs where s: "run_series_of res = (w, bs)" "settled (max 1 (ec_maxBucketsRun c)) ?st w ?M"
    "map bk_startOffsetMs bs = sorted_list_of_set (slots ?st w ?M)"
    "\<And>b'. b' \<in> set bs \<Longrightarrow> wire_bucket b' = Inr (shown_at ?st w ?M (bk_startOffsetMs b'))"
    by (rule run_series_rep [OF assms]) blast
  define d where "d = (case run_stat_of res of Some s \<Rightarrow> sr_maxMs s | None \<Rightarrow> 0)"
  define since where "since = (if w \<noteq> dc_lastBucketWidthMs cur then - 1 else dc_lastPublishedOffsetMs cur)"
  define fresh where "fresh = filter (\<lambda>b. since - lookback_ms d w \<le> bk_startOffsetMs b) bs"
  define F where "F = {off \<in> slots ?st w ?M. since - lookback_ms d w \<le> off}"
  have offs: "map bk_startOffsetMs fresh = sorted_list_of_set F"
    unfolding fresh_def F_def by (rule fresh_list [OF s(3)]) simp
  have wire: "sum_list_all (map wire_bucket fresh) = Inr (map (shown_at ?st w ?M) (sorted_list_of_set F))"
    unfolding offs [symmetric] map_map comp_def by (rule sum_list_all_map) (auto simp: fresh_def s(4))
  have bs: "bk_startOffsetMs ` set bs = slots ?st w ?M" using arg_cong [OF s(3), of set] by simp
  have fb: "fresh_buckets (w \<noteq> dc_lastBucketWidthMs cur) cur d w bs = (since, fresh)"
    by (simp add: fresh_buckets_def since_def fresh_def Let_def)
  let ?last = "if fresh \<noteq> [] then Max (set (map bk_startOffsetMs fresh)) else since"
  have "buildDelta runId res cur sla = Inr (\<lparr>ld_runId = runId, ld_seq = dc_seq cur, ld_summary = summary_of res,
       ld_responseTime = \<lparr>rt_widthMs = w, rt_replaces = w \<noteq> dc_lastBucketWidthMs cur,
         rt_buckets = map (shown_at ?st w ?M) (sorted_list_of_set F)\<rparr>,
       ld_users = users_envelope (xr_users res), ld_errors = error_rows_of res, ld_sla = sla_envelope sla\<rparr>,
      \<lparr>dc_seq = dc_seq cur + 1, dc_lastPublishedOffsetMs = ?last, dc_lastBucketWidthMs = w\<rparr>)" (is "_ = Inr (?d, _)")
    by (simp add: buildDelta_def s(1) d_def [symmetric] fb wire)
  from that [OF this s(1,2) bs] show thesis by (simp add: since_def [symmetric] d_def [symmetric] F_def [symmetric])
qed

lemma publish_total:
  assumes rep: "owner_rep c m b a s" and run: "runnable c m b" and lc: "strict_cmp lc"
  obtains S' d nxt res sla where "publish lc bytes outcome setOk runId (s, k) = Some (Inr (S', d))"
    "result_rep lc c m b res" "buildDelta runId res (fs_cursor s) sla = Inr (d, nxt)"
proof -
  obtain e0 where e0: "live_rep c m b e0 (fs_engine s)" using rep by (auto simp: owner_rep_def)
  then have "engine_rep c m b e0" by (simp add: live_rep_def)
  from snapshot_rep [OF this run, of lc True] obtain res e0' where
    snap: "engine_snapshot lc True e0 = Some (Inr (res, e0'))" and res: "result_rep lc c m b res" by blast
  from live_snapshot [OF e0 snap _ lc] run obtain e where
    e: "engine_snapshot lc True (fs_engine s) = Some (Inr (res, e))" by (auto simp: runnable_def)
  obtain as v where as: "evaluateRules (Some liveEvidenceFloor) (fs_rules s) (toEvaluableStats (xr_stats res)) = Inr (as, v)"
    using evaluate_never_throws rep unfolding owner_rep_def by blast
  define sla where "sla = \<lparr>si_assertions = as, si_breachingSince = breaching_since (filter (\<lambda>a. sa_outcome a = RuleFailed) as)
    (xr_durationMs res) (fs_breachingSince s), si_rulesUnavailable = fs_rulesLoadFailed s\<rparr>"
  obtain d nxt where d: "buildDelta runId res (fs_cursor s) sla = Inr (d, nxt)"
    by (rule buildDelta_total [OF res])
  have "\<exists>S'. publish lc bytes outcome setOk runId (s, k) = Some (Inr (S', d))"
    using e d by (simp add: publish_def as sla_def Let_def)
  with that res d show thesis by blast
qed

section \<open>The last full publication\<close>

lemma owner_run_written:
  assumes "owner_rep c m evs a s" and "runnable c m (told evs ts)" and "fits c (told evs ts)"
    and "orderly c (me_startedAtMs m) (told evs ts)" and lc: "strict_cmp lc" and "ts \<noteq> []" and "tk_outcome (last ts) = AllWritten"
  obtains s' k' sent where "owner_run lc bytes runId ts (s, k) = Some (Inr ((s', k'), sent))"
    "history lc c m (dc_seq (fs_cursor s)) a evs ts sent" "owner_rep c m (told evs ts) (Some (told evs ts)) s'"
proof -
  obtain us l where ts: "ts = us @ [l]" using assms(6) by (cases ts rule: rev_cases) auto
  have b: "told evs ts = told evs us @ tk_events l" by (simp add: ts)
  have pre: "runnable c m (told evs us)" "fits c (told evs us)" "orderly c (me_startedAtMs m) (told evs us)"
    using assms(2-4) runnable_prefix fits_prefix orderly_append unfolding b by blast+
  from owner_run_rep [OF assms(1) refl pre lc, of bytes runId k] obtain s1 k1 sent1 a1 where
    us: "owner_run lc bytes runId us (s, k) = Some (Inr ((s1, k1), sent1))" "owner_rep c m (told evs us) a1 s1" by blast
  obtain s2 k2 d where l: "owner_tick lc bytes runId l (s1, k1) = Some (Inr ((s2, k2), d))"
    "owner_rep c m (told evs ts) (if tk_outcome l = AllWritten then Some (told evs ts) else a1) s2"
    by (rule owner_tick_rep [OF us(2) b assms(2-4) lc]) (rule that)
  from owner_run_rep [OF assms(1) refl assms(2-4) lc, of bytes runId k] obtain s' k' sent where
    run: "owner_run lc bytes runId ts (s, k) = Some (Inr ((s', k'), sent))" "history lc c m (dc_seq (fs_cursor s)) a evs ts sent" by blast
  have "s' = s2" using run(1) us(1) l(1) unfolding ts by (simp add: owner_run_append)
  then show thesis using that [OF run] l(2) assms(7) by (simp add: ts)
qed

lemma heard_all: "history lc c m n a evs ts sent \<Longrightarrow> heard (replicate (length ts) True) sent = map fst sent"
  by (induction ts arbitrary: n a evs sent) auto


lemma series_offsets:
  assumes "result_rep lc c m b res" and "run_series_of res = (w, bs)"
  shows "settled (max 1 (ec_maxBucketsRun c)) (me_startedAtMs m) w (run_edges_of b)"
    "bk_startOffsetMs ` set bs = slots (me_startedAtMs m) w (run_edges_of b)"
  using buildDelta_total [OF assms(1)] assms(2) by (metis prod.inject)+

lemma message_window:
  assumes "result_rep lc c m b res" and "buildDelta runId res cur sla = Inr (d, nxt)"
    and "settled (max 1 (ec_maxBucketsRun c)) (me_startedAtMs m) w (run_edges_of b)"
    and "dc_lastBucketWidthMs cur = w" and "dc_lastPublishedOffsetMs cur = since"
    and "(case run_stat_of res of Some s \<Rightarrow> sr_maxMs s | None \<Rightarrow> 0) = longest"
  shows "rt_widthMs (ld_responseTime d) = w" "\<not> rt_replaces (ld_responseTime d)"
    "rt_buckets (ld_responseTime d) = map (shown_at (me_startedAtMs m) w (run_edges_of b)) (sorted_list_of_set
      {x \<in> slots (me_startedAtMs m) w (run_edges_of b). since - lookback_ms longest w \<le> x})"
proof -
  obtain d' nxt' w' bs where b: "buildDelta runId res cur sla = Inr (d', nxt')"
    "settled (max 1 (ec_maxBucketsRun c)) (me_startedAtMs m) w' (run_edges_of b)"
    "rt_widthMs (ld_responseTime d') = w'" "rt_replaces (ld_responseTime d') \<longleftrightarrow> w' \<noteq> dc_lastBucketWidthMs cur"
    "rt_buckets (ld_responseTime d') = map (shown_at (me_startedAtMs m) w' (run_edges_of b)) (sorted_list_of_set
      {off \<in> slots (me_startedAtMs m) w' (run_edges_of b).
        (if w' \<noteq> dc_lastBucketWidthMs cur then - 1 else dc_lastPublishedOffsetMs cur) -
          lookback_ms (case run_stat_of res of Some s \<Rightarrow> sr_maxMs s | None \<Rightarrow> 0) w' \<le> off})"
    by (rule buildDelta_total [OF assms(1)]) (rule that)
  have "w' = w" by (rule settled_unique [OF b(2) assms(3)])
  with b assms(2,4-6) show "rt_widthMs (ld_responseTime d) = w" "\<not> rt_replaces (ld_responseTime d)"
    "rt_buckets (ld_responseTime d) = map (shown_at (me_startedAtMs m) w (run_edges_of b)) (sorted_list_of_set
      {x \<in> slots (me_startedAtMs m) w (run_edges_of b). since - lookback_ms longest w \<le> x})" by simp_all
qed

lemma wired_offsets:
  assumes "map wire_bucket bs = map Inr ws"
  shows "bk_startOffsetMs ` set bs = lb_startOffsetMs ` set ws"
proof -
  have "wire_bucket b = Inr x \<Longrightarrow> lb_startOffsetMs x = bk_startOffsetMs b" for b x
    by (auto simp: wire_bucket_def map_sum_Inr_eq)
  then have "map bk_startOffsetMs bs = map lb_startOffsetMs ws"
    using assms by (auto simp: list_eq_iff_nth_eq)
  then show ?thesis by (metis list.set_map)
qed

lemma stale_page:
  assumes "owner_rep c m a (Some a) s" and "views lc c m runId a page" and "result_rep lc c m a before" and "result_rep lc c m b after"
    and "result_rep lc c m b res" and "buildDelta runId res (fs_cursor s) sla = Inr (d, nxt)"
    and "b = a @ es" and "orderly c (me_startedAtMs m) a"
    and "\<forall>r \<in> set (gather requests_in es). isWarmup (rq_startMs r) (me_startedAtMs m) (ec_warmupMs c)"
    and "run_series_of before = (w, bs0)" and "run_series_of after = (w, bs1)"
    and "off \<in> bk_startOffsetMs ` set bs1 - bk_startOffsetMs ` set bs0"
    and "off + lookback_ms (slowest (gather requests_in a)) w < Max (bk_startOffsetMs ` set bs0)" and "bs0 \<noteq> []"
  shows "\<not> shows_result runId after (applyDelta runId d page)"
proof
  assume "shows_result runId after (applyDelta runId d page)"
  let ?st = "me_startedAtMs m"
  have A: "settled (max 1 (ec_maxBucketsRun c)) ?st w (run_edges_of a)" "bk_startOffsetMs ` set bs0 = slots ?st w (run_edges_of a)"
    and B: "settled (max 1 (ec_maxBucketsRun c)) ?st w (run_edges_of b)" "bk_startOffsetMs ` set bs1 = slots ?st w (run_edges_of b)"
    by (rule series_offsets [OF assms(3,10)] series_offsets [OF assms(4,11)])+
  have cur: "cursor_at c ?st a (fs_cursor s)" using assms(1) by (simp add: owner_rep_def)
  then have cw: "dc_lastBucketWidthMs (fs_cursor s) = w" using A(1) settled_unique by (auto simp: cursor_at_def Let_def)
  have ne: "run_edges_of a \<noteq> {#}" using A(2) assms(14) by (auto simp: slots_def)
  with cur cw have last: "dc_lastPublishedOffsetMs (fs_cursor s) = Max (slots ?st w (run_edges_of a))" by (simp add: cursor_at_def Let_def)
  have "cold_requests c ?st es = []" using assms(9) by (simp add: cold_requests_def filter_empty_conv)
  then have cold: "cold_requests c ?st b = gather requests_in a"
    using orderly_cold [OF assms(8)] by (simp add: assms(7) cold_requests_def)
  then have max: "(case run_stat_of res of Some s \<Rightarrow> sr_maxMs s | None \<Rightarrow> 0) = slowest (gather requests_in a)"
    using run_stat_max [OF assms(5)] assms(8) by (fastforce simp: orderly_def request_ms_def)
  obtain q where q: "lc_series page = Some q" "sq_buckets q = shown ?st w (run_edges_of a)" "sq_bucketWidthMs q = w"
    using assms(2) settled_unique [OF A(1)] by (auto simp: views_def series_at_def)
  define F where "F = {x \<in> slots ?st w (run_edges_of b). Max (slots ?st w (run_edges_of a)) - lookback_ms (slowest (gather requests_in a)) w \<le> x}"
  have d: "rt_widthMs (ld_responseTime d) = w" "\<not> rt_replaces (ld_responseTime d)"
    "rt_buckets (ld_responseTime d) = map (shown_at ?st w (run_edges_of b)) (sorted_list_of_set F)"
    unfolding F_def by (rule message_window [OF assms(5,6) B(1) cw last max])+
  have "sq_buckets (mergeResponseTime runId (Some q) (ld_responseTime d)) =
     map (\<lambda>x. if x \<in> F then shown_at ?st w (run_edges_of b) x else shown_at ?st w (run_edges_of a) x)
       (sorted_list_of_set (slots ?st w (run_edges_of a) \<union> F))"
    unfolding mergeResponseTime_def Let_def using q d upsert_shown [of "slots ?st w (run_edges_of a)" F]
    by (simp add: shown_def F_def)
  then have "off \<notin> lb_startOffsetMs ` set (sq_buckets (mergeResponseTime runId (Some q) (ld_responseTime d)))"
    using assms(12,13) unfolding A(2) B(2) by (auto simp: F_def split: if_splits)
  moreover have "map wire_bucket bs1 = map Inr (sq_buckets (mergeResponseTime runId (Some q) (ld_responseTime d)))"
    using \<open>shows_result _ _ _\<close> q(1) assms(11) by (auto simp: shows_result_def applyDelta_def)
  ultimately show False using assms(12) wired_offsets by blast
qed

lemma hears_all: "hears (replicate (length ts) True) ts"
  unfolding hears_def by (induction ts) simp_all

section \<open>A response of the warm-up\<close>

text \<open>
  C40: The lookback of a message is the slowest response outside the warm-up,
  while the series counts all. When the responses of a tick started in the warm-up and one of them opens a
  bucket further back than that, the bucket is in the result of the run but not in the message: a page that
  heard every message up to that tick, the last of them fully written, no longer shows the run after it.
\<close>

theorem warmup_response_is_never_shown:
  assumes "tk_events t = MetaE m # evs0" and "a = told evs0 ts" and "tk_outcome (last (t # ts)) = AllWritten"
    and "runnable (engine_config_of opts) m (a @ tk_events u)" and "fits (engine_config_of opts) (a @ tk_events u)"
    and "orderly (engine_config_of opts) (me_startedAtMs m) a" and "strict_cmp lc"
    and "\<forall>r \<in> set (gather requests_in (tk_events u)). isWarmup (rq_startMs r) (me_startedAtMs m) (ec_warmupMs (engine_config_of opts))"
    and "runEngine lc (MetaE m # a) opts = Some (EngineDone before)" and "run_series_of before = (w, bs0)"
    and "runEngine lc (MetaE m # a @ tk_events u) opts = Some (EngineDone after)" and "run_series_of after = (w, bs1)"
    and "off \<in> bk_startOffsetMs ` set bs1 - bk_startOffsetMs ` set bs0"
    and "off + lookback_ms (slowest (gather requests_in a)) w < Max (bk_startOffsetMs ` set bs0)" and "bs0 \<noteq> []" and "plain_rules rules"
  shows "\<exists>S sent S' d. owner_run lc bytes runId (t # ts) (claimed tip opts rules failed, k) = Some (Inr (S, sent)) \<and>
    owner_tick lc bytes runId u S = Some (Inr (S', d)) \<and>
    shows_result runId before (fold (applyDelta runId) (map fst sent) cache) \<and>
    \<not> shows_result runId after (fold (applyDelta runId) (map fst sent @ [d]) cache)"
proof -
  let ?c = "engine_config_of opts" and ?ts = "t\<lparr>tk_events := evs0\<rparr> # ts" and ?st = "me_startedAtMs m" and ?b = "a @ tk_events u"
  let ?s = "(claimed tip opts rules failed)\<lparr>fs_engine := add_meta m (new_engine opts)\<rparr>"
  have a: "told [] ?ts = a" by (simp add: assms(2))
  have pre: "runnable ?c m a" "fits ?c a" using assms(4,5) runnable_prefix fits_prefix by blast+
  have "tk_outcome (last ?ts) = AllWritten" using assms(3) by (cases ts) auto
  then obtain s k' sent where run: "owner_run lc bytes runId ?ts (?s, k) = Some (Inr ((s, k'), sent))"
    "history lc ?c m (dc_seq (fs_cursor ?s)) None [] ?ts sent" "owner_rep ?c m a (Some a) s"
    using owner_run_written [OF claimed_rep [OF assms(16)], where ts = ?ts and lc = lc and m = m and bytes = bytes and runId = runId and k = k]
      pre assms(6,7) unfolding a by blast
  have ears: "hears (replicate (length ?ts) True) ?ts" "replicate (length ?ts) True \<noteq> []" "last (replicate (length ?ts) True)"
    by (rule hears_all) simp_all
  have page: "views lc ?c m runId a (fold (applyDelta runId) (map fst sent) cache)"
    using heard_views [OF run(2) ears, of runId cache] unfolding heard_all [OF run(2)] a by simp
  have res: "result_rep lc ?c m a before" "result_rep lc ?c m ?b after"
    using run_result [OF pre, of lc] run_result [OF assms(4,5), of lc] assms(9,11) by auto
  obtain e0 where "live_rep ?c m a e0 (fs_engine s)" using run(3) by (auto simp: owner_rep_def)
  from live_fold [OF this assms(4,5,7)] obtain e0' e where
    e: "engine_fold (tk_events u) (fs_engine s) = Some (Inr e)" "live_rep ?c m ?b e0' e" by blast
  have "owner_rep ?c m ?b (Some a) (s\<lparr>fs_engine := e\<rparr>)" using run(3) e(2) by (auto simp: owner_rep_def)
  then obtain S' d nxt res' sla where
    p: "publish lc bytes (tk_outcome u) (tk_setOk u) runId (s\<lparr>fs_engine := e\<rparr>, k') = Some (Inr (S', d))"
    "result_rep lc ?c m ?b res'" "buildDelta runId res' (fs_cursor (s\<lparr>fs_engine := e\<rparr>)) sla = Inr (d, nxt)"
    by (rule publish_total [OF _ assms(4,7), of _ _ bytes "tk_outcome u" "tk_setOk u" runId k']) (rule that)
  have tick: "owner_tick lc bytes runId u (s, k') = Some (Inr (S', d))" by (simp add: owner_tick_def e(1) p(1))
  have "\<not> shows_result runId after (applyDelta runId d (fold (applyDelta runId) (map fst sent) cache))"
    by (rule stale_page [OF run(3) page res p(2) p(3) [simplified] refl assms(6,8,10,12-15)])
  then show ?thesis
    using views_shows [OF page res(1)] tick run(1) header_tick [OF assms(1), of lc bytes runId ts tip opts rules failed k]
    by (intro exI [of _ "(s, k')"] exI [of _ sent] exI [of _ S'] exI [of _ d]) simp
qed

text \<open>One request after the warm-up; then one that started in it and ended later.\<close>

definition warm_options :: engine_options where
  "warm_options = no_options\<lparr>eo_warmupMs := Some 5000\<rparr>"

definition late_response :: canonical_event where
  "late_response = RequestE (sample_request (js ''a'') 1500 9000 True)"

definition early_response :: canonical_event where
  "early_response = RequestE (sample_request (js ''a'') 8000 8100 True)"

definition warm_tick :: "canonical_event list \<Rightarrow> tick" where
  "warm_tick evs = \<lparr>tk_events = evs, tk_outcome = AllWritten, tk_setOk = True\<rparr>"

lemma warm_config: "engine_config_of warm_options = (engine_config_of no_options)\<lparr>ec_warmupMs := 5000\<rparr>"
  by (simp add: warm_options_def no_options_def engine_config_of_def or_default_def)

lemma series_cap_warmup: "series_cap (c\<lparr>ec_warmupMs := x\<rparr>) i = series_cap c i"
  by (cases "(c, i)" rule: series_cap.cases) simp_all

lemma warm_runnable: "no_header evs \<Longrightarrow> runnable (engine_config_of warm_options) m evs"
  using default_runnable [of evs m] by (simp add: warm_config runnable_def stream_room_def edge_room_def series_cap_warmup)

lemma warm_runs: "runnable (engine_config_of warm_options) m [early_response]"
  "runnable (engine_config_of warm_options) m [early_response, late_response]"
  by (rule warm_runnable, simp add: no_header_def early_response_def late_response_def)+

lemma warm_fits: "fits (engine_config_of warm_options) [early_response]"
  "fits (engine_config_of warm_options) [early_response, late_response]"
  by (simp_all add: fits_def request_paths_def early_response_def late_response_def sample_request_def
      first_seen_def set_insert_def warm_options_def engine_config_of_def no_options_def or_default_def request_path_def)

theorem warmup_response_is_never_shown_witness:
  "\<exists>S sent S' d after. owner_run cmp_units (\<lambda>d. 4096) [] [warm_tick [MetaE (sample_header 1000), early_response]]
      (claimed None warm_options [] False, no_keys) = Some (Inr (S, sent)) \<and>
    owner_tick cmp_units (\<lambda>d. 4096) [] (warm_tick [late_response]) S = Some (Inr (S', d)) \<and>
    runEngine cmp_units [MetaE (sample_header 1000), early_response, late_response] warm_options = Some (EngineDone after) \<and>
    \<not> shows_result [] after (fold (applyDelta []) (map fst sent @ [d]) empty_page)"
proof -
  let ?m = "sample_header 1000" and ?c = "engine_config_of warm_options"
  have ok: "runnable ?c ?m [early_response]" "fits ?c [early_response]" "runnable ?c ?m [early_response, late_response]"
    "fits ?c [early_response, late_response]" by (rule warm_runs warm_fits)+
  obtain before after where res: "runEngine cmp_units (MetaE ?m # [early_response]) warm_options = Some (EngineDone before)"
    "result_rep cmp_units ?c ?m [early_response] before"
    "runEngine cmp_units (MetaE ?m # [early_response, late_response]) warm_options = Some (EngineDone after)"
    "result_rep cmp_units ?c ?m [early_response, late_response] after"
    using run_result [OF ok(1,2), of cmp_units] run_result [OF ok(3,4), of cmp_units] by blast
  obtain w0 bs0 w1 bs1 where rs: "run_series_of before = (w0, bs0)" "run_series_of after = (w1, bs1)" by fastforce
  have edges: "run_edges_of [early_response] = {#an_edge 8000 100 True StartEdge, an_edge 8100 100 True EndEdge#}"
    "run_edges_of [early_response, late_response] = {#an_edge 8000 100 True StartEdge, an_edge 8100 100 True EndEdge,
      an_edge 1500 7500 True StartEdge, an_edge 9000 7500 True EndEdge#}"
    by (simp_all add: run_edges_of_requests early_response_def late_response_def sample_request_def request_ms_def)
  have w: "w0 = 1000" "w1 = 1000"
    by (rule narrowest_few [OF series_offsets(1) [OF res(2) rs(1), unfolded settled_def edges, THEN conjunct1]],
        simp add: warm_options_def engine_config_of_def no_options_def or_default_def,
        rule narrowest_few [OF series_offsets(1) [OF res(4) rs(2), unfolded settled_def edges, THEN conjunct1]],
        simp add: warm_options_def engine_config_of_def no_options_def or_default_def)
  have offs: "bk_startOffsetMs ` set bs0 = {7000}" "bk_startOffsetMs ` set bs1 = {0, 7000, 8000}"
    using series_offsets(2) [OF res(2) rs(1)] series_offsets(2) [OF res(4) rs(2)]
    by (auto simp: w edges slots_def slot_start_def an_edge_def sample_header_def)
  have look: "lookback_ms (slowest (gather requests_in [early_response])) 1000 = 1000"
    by (simp add: slowest_def early_response_def sample_request_def request_ms_def lookback_ms_def) code_simp
  have ord: "orderly ?c (me_startedAtMs ?m) [early_response]"
    by (simp add: orderly_def early_response_def sample_request_def sample_header_def isWarmup_def warm_config)
  have warm: "\<forall>r \<in> set (gather requests_in [late_response]). isWarmup (rq_startMs r) (me_startedAtMs ?m) (ec_warmupMs ?c)"
    by (simp add: late_response_def sample_request_def sample_header_def isWarmup_def warm_config)
  have "0 + lookback_ms (slowest (gather requests_in [early_response])) 1000 < Max (bk_startOffsetMs ` set bs0)"
    unfolding look offs by simp
  moreover have "0 \<in> bk_startOffsetMs ` set bs1 - bk_startOffsetMs ` set bs0" unfolding offs by simp
  moreover have "bs0 \<noteq> []" using offs(1) by auto
  ultimately have "\<exists>S sent S' d. owner_run cmp_units (\<lambda>d. 4096) [] [warm_tick [MetaE ?m, early_response]]
      (claimed None warm_options [] False, no_keys) = Some (Inr (S, sent)) \<and>
    owner_tick cmp_units (\<lambda>d. 4096) [] (warm_tick [late_response]) S = Some (Inr (S', d)) \<and>
    shows_result [] before (fold (applyDelta []) (map fst sent) empty_page) \<and>
    \<not> shows_result [] after (fold (applyDelta []) (map fst sent @ [d]) empty_page)"
    using warmup_response_is_never_shown [of "warm_tick [MetaE ?m, early_response]" ?m "[early_response]" "[early_response]" "[]"
        warm_options "warm_tick [late_response]" cmp_units before 1000 bs0 after bs1 0 "[]" "\<lambda>d. 4096" "[]" None False no_keys empty_page]
      ok ord warm res(1,3) rs [unfolded w] strict_units by (simp add: warm_tick_def)
  then show ?thesis using res(3) by blast
qed

end
