(* ===== verification/Verify.thy ===== *)
theory Verify
  imports Engine
begin

text \<open>
  \<open>packages/verify\<close>: every stored figure recomputed from the events, from the plain lists of values and
  without the engine's histograms and coalescing buckets (\<open>rank.ts\<close>, \<open>stats.ts\<close>, \<open>series.ts\<close>, \<open>errors.ts\<close>,
  \<open>users.ts\<close>). The comparison \<open>lc\<close> is \<open>localeCompare\<close>. The figures of the agent file and Gatling's own
  method are not modelled.
\<close>

section \<open>Figures\<close>

definition BASE_WIDTH_MS :: int where "BASE_WIDTH_MS = 1000"

record verify_options =
  vp_runStartMs :: int
  vp_warmupMs :: int
  vp_percentiles :: "rat list"
  vp_maxBucketsRun :: int
  vp_maxBucketsEndpoint :: int

record expected_stat =
  xt_scope :: jstr
  xt_name :: jstr
  xt_family :: jstr
  xt_count :: int
  xt_okCount :: int
  xt_koCount :: int
  xt_errorRate :: rat
  xt_minMs :: int
  xt_maxMs :: int
  xt_meanMs :: rat
  xt_stddevMs :: rat
  xt_throughputRps :: rat
  xt_percentiles :: percentile_map

record expected_series_bucket =
  xb_scope :: jstr
  xb_name :: jstr
  xb_family :: jstr
  xb_startOffsetMs :: int
  xb_startedCount :: int
  xb_endedCount :: int
  xb_okCount :: int
  xb_koCount :: int
  xb_startedOkCount :: int
  xb_startedKoCount :: int
  xb_minMs :: int
  xb_maxMs :: int
  xb_meanMs :: rat
  xb_percentiles :: percentile_map
  xb_percentilesOk :: percentile_map
  xb_percentilesKo :: percentile_map

record expected_error =
  xe_scope :: jstr
  xe_name :: jstr
  xe_message :: jstr
  xe_isOther :: bool
  xe_count :: int

record expected_error_bucket =
  xg_startOffsetMs :: int
  xg_message :: jstr
  xg_isOther :: bool
  xg_count :: int
  xg_bucketWidthMs :: int

record expected_user_bucket =
  xu_scenario :: jstr
  xu_startOffsetMs :: int
  xu_started :: int
  xu_ended :: int
  xu_maxConcurrent :: int

record run_spans =
  xn_durationMs :: int
  xn_activityMs :: int

record expected =
  ex_stats :: "expected_stat list"
  ex_series :: "expected_series_bucket list"
  ex_errors :: "expected_error list"
  ex_errorBuckets :: "expected_error_bucket list"
  ex_users :: "expected_user_bucket list"
  ex_run :: run_spans

text \<open>The knobs frozen on the run, with the defaults filled in.\<close>

definition optionsFrom :: "engine_options \<Rightarrow> int \<Rightarrow> verify_options" where
  "optionsFrom engineOptions runStartMs = \<lparr>vp_runStartMs = runStartMs,
     vp_warmupMs = or_default (eo_warmupMs engineOptions) 0,
     vp_percentiles = or_default (eo_percentiles engineOptions) [50, 75, 95, 99],
     vp_maxBucketsRun = or_default (eo_maxBucketsRun engineOptions) 1200,
     vp_maxBucketsEndpoint = or_default (eo_maxBucketsEndpoint engineOptions) 300\<rparr>"

section \<open>The nearest rank\<close>

text \<open>
  \<open>while (rank * denominator < numerator) rank += 1\<close>, and the loop back down; the denominator is
  \<open>100 * 10 ** fraction.length\<close>.
\<close>

function rank_up :: "int \<Rightarrow> nat \<Rightarrow> int \<Rightarrow> int" where
  "rank_up numerator decimals rank =
     (if rank * (100 * 10 ^ decimals) < numerator then rank_up numerator decimals (rank + 1) else rank)"
  by pat_completeness auto
termination
  by (relation "measure (\<lambda>(numerator, decimals, rank). nat (numerator - rank * (100 * 10 ^ decimals)))")
    (auto simp: algebra_simps)

function rank_down :: "int \<Rightarrow> nat \<Rightarrow> int \<Rightarrow> int" where
  "rank_down numerator decimals rank =
     (if 0 < rank \<and> numerator \<le> (rank - 1) * (100 * 10 ^ decimals) then rank_down numerator decimals (rank - 1) else rank)"
  by pat_completeness auto
termination by (relation "measure (\<lambda>(numerator, decimals, rank). nat rank)") auto

declare rank_up.simps [simp del] rank_down.simps [simp del]

definition verified_rank_index :: "rat \<Rightarrow> int \<Rightarrow> int" where
  "verified_rank_index p n = (if n \<le> 0 then - 1
     else let decimals = rank_decimals p; numerator = js_round (fmul p (of_int (10 ^ decimals))) * n;
              rank = rank_down numerator decimals (rank_up numerator decimals
                \<lfloor>fdiv (of_int numerator) (of_int (100 * 10 ^ decimals))\<rfloor>);
              rank = (if rank < 1 then 1 else rank);
              rank = (if n < rank then n else rank)
          in rank - 1)"

section \<open>Rows\<close>

record row_acc =
  ra_scope :: jstr
  ra_name :: jstr
  ra_family :: jstr
  ra_values :: "int list"
  ra_ok :: int

definition nul :: "16 word" where "nul = 0"

definition observed :: "int \<Rightarrow> int" where
  "observed v = max 0 (js_round (of_int v))"

definition verify_isWarmup :: "verify_options \<Rightarrow> int \<Rightarrow> bool" where
  "verify_isWarmup opts t \<longleftrightarrow> 0 < vp_warmupMs opts \<and> t - vp_runStartMs opts < vp_warmupMs opts"

definition row_key3 :: "jstr \<Rightarrow> jstr \<Rightarrow> jstr \<Rightarrow> jstr" where
  "row_key3 scope name family = scope @ [nul] @ name @ [nul] @ family"

definition verify_add :: "jstr \<Rightarrow> jstr \<Rightarrow> jstr \<Rightarrow> int \<Rightarrow> bool \<Rightarrow> (jstr, row_acc) jmap \<Rightarrow> (jstr, row_acc) jmap" where
  "verify_add scope name family v ok rows =
     (let key = row_key3 scope name family;
          row = (case jm_get rows key of Some row \<Rightarrow> row
            | None \<Rightarrow> \<lparr>ra_scope = scope, ra_name = name, ra_family = family, ra_values = [], ra_ok = 0\<rparr>)
      in jm_set key (row\<lparr>ra_values := ra_values row @ [v], ra_ok := (if ok then ra_ok row + 1 else ra_ok row)\<rparr>) rows)"

record verify_scan =
  vs_rows :: "(jstr, row_acc) jmap"
  vs_sawRequest :: bool
  vs_firstMs :: "int option"
  vs_lastMs :: int

text \<open>\<open>firstMs\<close> starts at \<open>Infinity\<close>: \<open>None\<close>.\<close>

fun scan_event :: "verify_options \<Rightarrow> canonical_event \<Rightarrow> verify_scan \<Rightarrow> verify_scan" where
  "scan_event opts (RequestE r) s =
     (let s = s\<lparr>vs_sawRequest := True,
          vs_firstMs := (case vs_firstMs s of None \<Rightarrow> Some (rq_startMs r)
            | Some f \<Rightarrow> if rq_startMs r < f then Some (rq_startMs r) else Some f),
          vs_lastMs := (if vs_lastMs s < rq_endMs r then rq_endMs r else vs_lastMs s)\<rparr>
      in if verify_isWarmup opts (rq_startMs r) then s
         else let v = observed (rq_endMs r - rq_startMs r)
          in s\<lparr>vs_rows := verify_add (js ''request'') (js_join [slash] (rq_groups r @ [rq_name r])) (js ''response_time'') v (rq_ok r)
               (verify_add (js ''run'') [] (js ''response_time'') v (rq_ok r) (vs_rows s))\<rparr>)"
| "scan_event opts (GroupE g) s =
     (if verify_isWarmup opts (gr_startMs g) then s
      else let path = js_join [slash] (gr_groups g)
       in s\<lparr>vs_rows := verify_add (js ''group'') path (js ''group_duration'') (observed (gr_endMs g - gr_startMs g)) (gr_ok g)
            (verify_add (js ''group'') path (js ''group_cumulated'') (observed (gr_cumulatedResponseTimeMs g)) (gr_ok g) (vs_rows s))\<rparr>)"
| "scan_event opts _ s = s"

definition scan_events :: "verify_options \<Rightarrow> canonical_event list \<Rightarrow> verify_scan" where
  "scan_events opts events = fold (scan_event opts) events
     \<lparr>vs_rows = [], vs_sawRequest = False, vs_firstMs = None, vs_lastMs = 0\<rparr>"

definition verify_window :: "verify_options \<Rightarrow> verify_scan \<Rightarrow> int" where
  "verify_window opts s = (if vs_sawRequest s \<and> vs_lastMs s \<noteq> 0
     then (case vs_firstMs s of Some f \<Rightarrow> max 0 (vs_lastMs s - max f (vp_runStartMs opts + vp_warmupMs opts)) | None \<Rightarrow> 0) else 0)"

definition statOf :: "row_acc \<Rightarrow> int \<Rightarrow> rat list \<Rightarrow> expected_stat" where
  "statOf row windowMs percentiles =
     (let sorted = js_sort (cmp_by id) (ra_values row); n = int (length sorted); sum = fold (+) sorted 0;
          mean = fdiv (of_int sum) (of_int n);
          squares = foldl (\<lambda>squares v. fadd squares (fmul (fsub (of_int v) mean) (fsub (of_int v) mean))) 0 sorted;
          ranked = fold (\<lambda>p. jm_set (pkey p) (sorted ! nat (verified_rank_index p n))) percentiles [];
          ko = n - ra_ok row
      in \<lparr>xt_scope = ra_scope row, xt_name = ra_name row, xt_family = ra_family row, xt_count = n,
          xt_okCount = ra_ok row, xt_koCount = ko, xt_errorRate = (if n = 0 then 0 else fdiv (of_int ko) (of_int n)),
          xt_minMs = sorted ! 0, xt_maxMs = sorted ! (length sorted - 1), xt_meanMs = mean,
          xt_stddevMs = fsqrt (fdiv squares (of_int n)),
          xt_throughputRps = (if windowMs = 0 then 0 else fmul (fdiv (of_int n) (of_int windowMs)) 1000),
          xt_percentiles = ranked\<rparr>)"

definition SCOPE_ORDER :: "jstr \<Rightarrow> int" where
  "SCOPE_ORDER s = (if s = js ''run'' then 0 else if s = js ''request'' then 1 else if s = js ''group'' then 2 else 9)"

definition cmp_stat :: "expected_stat \<Rightarrow> expected_stat \<Rightarrow> int" where
  "cmp_stat = cmp_then (cmp_by (SCOPE_ORDER \<circ> xt_scope))
     (cmp_then (\<lambda>a b. cmp_units (xt_name a) (xt_name b)) (\<lambda>a b. cmp_units (xt_family a) (xt_family b)))"

definition expectedStats :: "canonical_event list \<Rightarrow> verify_options \<Rightarrow> expected_stat list" where
  "expectedStats events opts = (let s = scan_events opts events
     in js_sort cmp_stat (map (\<lambda>(_, row). statOf row (verify_window opts s) (vp_percentiles opts)) (vs_rows s)))"

definition expectedRun :: "canonical_event list \<Rightarrow> verify_options \<Rightarrow> run_spans" where
  "expectedRun events opts = (let s = scan_events opts events
     in \<lparr>xn_durationMs = (if vs_lastMs s = 0 then 0 else max 0 (vs_lastMs s - vp_runStartMs opts)),
         xn_activityMs = (if vs_lastMs s = 0 then 0 else verify_window opts s)\<rparr>)"

section \<open>Series\<close>

definition SERIES_PERCENTILES :: "rat list" where "SERIES_PERCENTILES = [25, 50, 75, 80, 85, 90, 95, 99]"
definition GROUP_SERIES_CAP :: int where "GROUP_SERIES_CAP = 300"

record observation =
  ob_start :: int
  ob_end :: int
  ob_value :: int
  ob_ok :: bool

record series_acc =
  sx_scope :: jstr
  sx_name :: jstr
  sx_family :: jstr
  sx_cap :: int
  sx_observations :: "observation list"

record bucket_acc =
  ba_startedCount :: int
  ba_endedCount :: int
  ba_okCount :: int
  ba_koCount :: int
  ba_startedOkCount :: int
  ba_startedKoCount :: int
  ba_ok :: "int list"
  ba_ko :: "int list"

text \<open>The loop of \<open>seriesWidth\<close>; its \<open>k\<close>-th pass is at the width \<open>1000 * 2 ^ k\<close>.\<close>

function width_pass :: "int list \<Rightarrow> int \<Rightarrow> int \<Rightarrow> nat \<Rightarrow> int" where
  "width_pass ts cap reach k =
     (let width = BASE_WIDTH_MS * 2 ^ k; seen = fold (\<lambda>t. set_insert (t div width)) ts []
      in if int (length seen) \<le> cap \<or> reach < width then width else width_pass ts cap reach (Suc k))"
  by pat_completeness auto
termination
proof (relation "measure (\<lambda>(ts, cap, reach, k). nat reach - k)", goal_cases)
  case (2 ts cap reach k width seen)
  have "k < 2 ^ k" by simp
  then have "int k < 2 ^ k" by (metis of_nat_less_iff of_nat_numeral of_nat_power)
  then have "int k < 1000 * 2 ^ k" by linarith
  then have "int k < reach" using 2 unfolding BASE_WIDTH_MS_def by linarith
  then show ?case by simp
qed simp

declare width_pass.simps [simp del]

definition seriesWidth :: "int list \<Rightarrow> int \<Rightarrow> int" where
  "seriesWidth ts rawCap = width_pass ts (max 1 rawCap) (fold (\<lambda>t reach. max reach \<bar>t\<bar>) ts 0) 0"

fun run_edges_in :: "int \<Rightarrow> canonical_event \<Rightarrow> int list" where
  "run_edges_in runStartMs (RequestE r) = [rq_startMs r - runStartMs, rq_endMs r - runStartMs]"
| "run_edges_in runStartMs _ = []"

definition runSeriesWidth :: "canonical_event list \<Rightarrow> verify_options \<Rightarrow> int option" where
  "runSeriesWidth events opts = (let ts = concat (map (run_edges_in (vp_runStartMs opts)) events)
     in if ts = [] then None else Some (seriesWidth ts (vp_maxBucketsRun opts)))"

definition ranked_values :: "int list \<Rightarrow> percentile_map" where
  "ranked_values values = (if values = [] then []
     else let sorted = js_sort (cmp_by id) values
          in fold (\<lambda>p. jm_set (pkey p) (sorted ! nat (verified_rank_index p (int (length sorted))))) SERIES_PERCENTILES [])"

definition observe :: "jstr \<Rightarrow> jstr \<Rightarrow> jstr \<Rightarrow> int \<Rightarrow> observation \<Rightarrow> (jstr, series_acc) jmap \<Rightarrow> (jstr, series_acc) jmap" where
  "observe scope name family cap ob all =
     (let key = row_key3 scope name family;
          a = (case jm_get all key of Some a \<Rightarrow> a
            | None \<Rightarrow> \<lparr>sx_scope = scope, sx_name = name, sx_family = family, sx_cap = cap, sx_observations = []\<rparr>)
      in jm_set key (a\<lparr>sx_observations := sx_observations a @ [ob]\<rparr>) all)"

fun observe_event :: "verify_options \<Rightarrow> canonical_event \<Rightarrow> (jstr, series_acc) jmap \<Rightarrow> (jstr, series_acc) jmap" where
  "observe_event opts (RequestE r) all =
     (let st = vp_runStartMs opts; ob = \<lparr>ob_start = rq_startMs r - st, ob_end = rq_endMs r - st,
          ob_value = observed (rq_endMs r - rq_startMs r), ob_ok = rq_ok r\<rparr>
      in observe (js ''request'') (js_join [slash] (rq_groups r @ [rq_name r])) (js ''response_time'') (vp_maxBucketsEndpoint opts) ob
        (observe (js ''run'') [] (js ''response_time'') (vp_maxBucketsRun opts) ob all))"
| "observe_event opts (GroupE g) all =
     (let st = vp_runStartMs opts; path = js_join [slash] (gr_groups g);
          ob = (\<lambda>v. \<lparr>ob_start = gr_startMs g - st, ob_end = gr_endMs g - st, ob_value = observed v, ob_ok = gr_ok g\<rparr>)
      in observe (js ''group'') path (js ''group_duration'') GROUP_SERIES_CAP (ob (gr_endMs g - gr_startMs g))
        (observe (js ''group'') path (js ''group_cumulated'') GROUP_SERIES_CAP (ob (gr_cumulatedResponseTimeMs g)) all))"
| "observe_event opts _ all = all"

definition at_bucket :: "int \<Rightarrow> (int, bucket_acc) jmap \<Rightarrow> bucket_acc" where
  "at_bucket index bs = (case jm_get bs index of Some b \<Rightarrow> b
     | None \<Rightarrow> \<lparr>ba_startedCount = 0, ba_endedCount = 0, ba_okCount = 0, ba_koCount = 0, ba_startedOkCount = 0,
         ba_startedKoCount = 0, ba_ok = [], ba_ko = []\<rparr>)"

definition bucket_edges :: "int \<Rightarrow> observation \<Rightarrow> (int, bucket_acc) jmap \<Rightarrow> (int, bucket_acc) jmap" where
  "bucket_edges width ob bs =
     (let i = ob_start ob div width; s = at_bucket i bs;
          s = s\<lparr>ba_startedCount := ba_startedCount s + 1\<rparr>;
          s = (if ob_ok ob then s\<lparr>ba_startedOkCount := ba_startedOkCount s + 1, ba_ok := ba_ok s @ [ob_value ob]\<rparr>
            else s\<lparr>ba_startedKoCount := ba_startedKoCount s + 1, ba_ko := ba_ko s @ [ob_value ob]\<rparr>);
          bs = jm_set i s bs;
          j = ob_end ob div width; e = at_bucket j bs;
          e = e\<lparr>ba_endedCount := ba_endedCount e + 1\<rparr>;
          e = (if ob_ok ob then e\<lparr>ba_okCount := ba_okCount e + 1\<rparr> else e\<lparr>ba_koCount := ba_koCount e + 1\<rparr>)
      in jm_set j e bs)"

definition bucket_figures :: "series_acc \<Rightarrow> int \<Rightarrow> int \<times> bucket_acc \<Rightarrow> expected_series_bucket" where
  "bucket_figures a width e = (case e of (index, b) \<Rightarrow>
     (let values = ba_ok b @ ba_ko b; n = int (length values)
      in \<lparr>xb_scope = sx_scope a, xb_name = sx_name a, xb_family = sx_family a, xb_startOffsetMs = index * width,
          xb_startedCount = ba_startedCount b, xb_endedCount = ba_endedCount b, xb_okCount = ba_okCount b,
          xb_koCount = ba_koCount b, xb_startedOkCount = ba_startedOkCount b, xb_startedKoCount = ba_startedKoCount b,
          xb_minMs = (if n = 0 then 0 else fold min values (hd values)),
          xb_maxMs = (if n = 0 then 0 else fold max values (hd values)),
          xb_meanMs = (if n = 0 then 0 else fdiv (of_int (fold (+) values 0)) (of_int n)),
          xb_percentiles = ranked_values values, xb_percentilesOk = ranked_values (ba_ok b),
          xb_percentilesKo = ranked_values (ba_ko b)\<rparr>))"

definition bucketsOf :: "series_acc \<Rightarrow> int option \<Rightarrow> expected_series_bucket list" where
  "bucketsOf a given =
     (let width = (case given of Some w \<Rightarrow> w
            | None \<Rightarrow> seriesWidth (concat (map (\<lambda>ob. [ob_start ob, ob_end ob]) (sx_observations a))) (sx_cap a))
      in map (bucket_figures a width) (fold (bucket_edges width) (sx_observations a) []))"

definition cmp_series :: "expected_series_bucket \<Rightarrow> expected_series_bucket \<Rightarrow> int" where
  "cmp_series = cmp_then (cmp_by (SCOPE_ORDER \<circ> xb_scope))
     (cmp_then (\<lambda>a b. cmp_units (xb_name a) (xb_name b))
     (cmp_then (\<lambda>a b. cmp_units (xb_family a) (xb_family b)) (cmp_by xb_startOffsetMs)))"

definition expectedSeries :: "canonical_event list \<Rightarrow> verify_options \<Rightarrow> expected_series_bucket list" where
  "expectedSeries events opts =
     (let all = fold (observe_event opts) events []; runWidth = runSeriesWidth events opts
      in js_sort cmp_series (concat (map (\<lambda>(_, a). bucketsOf a (if sx_scope a = js ''run'' then runWidth else None)) all)))"

section \<open>Errors\<close>

definition NO_MESSAGE :: jstr where "NO_MESSAGE = js ''(no message)''"
definition ERROR_ROW_CAP :: nat where "ERROR_ROW_CAP = 200"
definition ERROR_BUCKET_ADMISSION :: nat where "ERROR_BUCKET_ADMISSION = 200"
definition ERROR_BUCKET_TOP :: nat where "ERROR_BUCKET_TOP = 5"

definition errorLabel :: "jstr option \<Rightarrow> jstr" where
  "errorLabel message = (case message of None \<Rightarrow> NO_MESSAGE | Some s \<Rightarrow> if s = [] then NO_MESSAGE else s)"

definition ranked_labels :: "(jstr \<Rightarrow> jstr \<Rightarrow> int) \<Rightarrow> (jstr, int) jmap \<Rightarrow> (jstr \<times> int) list" where
  "ranked_labels lc counts = js_sort (cmp_then (\<lambda>a b. snd b - snd a) (\<lambda>a b. lc (fst a) (fst b))) counts"

definition verify_bump :: "'k \<Rightarrow> ('k, int) jmap \<Rightarrow> ('k, int) jmap" where
  "verify_bump label counts = jm_set label (jm_get_or 0 counts label + 1) counts"

record error_acc =
  ea_scope :: jstr
  ea_name :: jstr
  ea_counts :: "(jstr, int) jmap"

definition verify_add_error :: "jstr \<Rightarrow> jstr \<Rightarrow> jstr \<Rightarrow> (jstr, error_acc) jmap \<Rightarrow> (jstr, error_acc) jmap" where
  "verify_add_error scope name label rows =
     (let key = scope @ [nul] @ name;
          a = (case jm_get rows key of Some a \<Rightarrow> a | None \<Rightarrow> \<lparr>ea_scope = scope, ea_name = name, ea_counts = []\<rparr>)
      in jm_set key (a\<lparr>ea_counts := verify_bump label (ea_counts a)\<rparr>) rows)"

fun error_event_rows :: "verify_options \<Rightarrow> canonical_event \<Rightarrow> (jstr, error_acc) jmap \<Rightarrow> (jstr, error_acc) jmap" where
  "error_event_rows opts (RequestE r) rows =
     (if rq_ok r \<or> verify_isWarmup opts (rq_startMs r) then rows
      else let label = errorLabel (rq_message r)
        in verify_add_error (js ''request'') (js_join [slash] (rq_groups r @ [rq_name r])) label
          (verify_add_error (js ''run'') [] label rows))"
| "error_event_rows opts (ErrorE e) rows =
     (if verify_isWarmup opts (er_tsMs e) then rows
      else verify_add_error (js ''run'') [] (errorLabel (Some (Events.er_message e))) rows)"
| "error_event_rows opts _ rows = rows"

definition error_group_rows :: "(jstr \<Rightarrow> jstr \<Rightarrow> int) \<Rightarrow> error_acc \<Rightarrow> expected_error list" where
  "error_group_rows lc g =
     (let order = ranked_labels lc (ea_counts g); rest = drop ERROR_ROW_CAP order
      in map (\<lambda>(message, count). \<lparr>xe_scope = ea_scope g, xe_name = ea_name g, xe_message = message, xe_isOther = False,
           xe_count = count\<rparr>) (take ERROR_ROW_CAP order) @
         (if 0 < length rest then [\<lparr>xe_scope = ea_scope g, xe_name = ea_name g, xe_message = [], xe_isOther = True,
           xe_count = fold (\<lambda>(_, c) n. n + c) rest 0\<rparr>] else []))"

definition cmp_error_group :: "error_acc \<Rightarrow> error_acc \<Rightarrow> int" where
  "cmp_error_group = cmp_then (cmp_by (SCOPE_ORDER \<circ> ea_scope)) (\<lambda>a b. cmp_units (ea_name a) (ea_name b))"

definition expectedErrors :: "(jstr \<Rightarrow> jstr \<Rightarrow> int) \<Rightarrow> canonical_event list \<Rightarrow> verify_options \<Rightarrow> expected_error list" where
  "expectedErrors lc events opts =
     concat (map (error_group_rows lc) (js_sort cmp_error_group (map snd (fold (error_event_rows opts) events []))))"

record failure_scan =
  fx_totals :: "(jstr, int) jmap"
  fx_buckets :: "(int, (jstr, int) jmap \<times> int) jmap"

fun failure_event :: "verify_options \<Rightarrow> int \<Rightarrow> canonical_event \<Rightarrow> failure_scan \<Rightarrow> failure_scan" where
  "failure_event opts width (RequestE r) s = (if rq_ok r then s
     else let index = (rq_endMs r - vp_runStartMs opts) div width;
            (counts, overflow) = (case jm_get (fx_buckets s) index of Some b \<Rightarrow> b | None \<Rightarrow> ([], 0));
            label = errorLabel (rq_message r)
        in if jm_get (fx_totals s) label = None \<and> ERROR_BUCKET_ADMISSION \<le> length (fx_totals s)
           then s\<lparr>fx_buckets := jm_set index (counts, overflow + 1) (fx_buckets s)\<rparr>
           else s\<lparr>fx_totals := verify_bump label (fx_totals s),
             fx_buckets := jm_set index (verify_bump label counts, overflow) (fx_buckets s)\<rparr>)"
| "failure_event opts width _ s = s"

definition failure_rows :: "int \<Rightarrow> jstr list \<Rightarrow> int \<times> (jstr, int) jmap \<times> int \<Rightarrow> expected_error_bucket list" where
  "failure_rows width top' b = (case b of (index, counts, overflow) \<Rightarrow>
     (let row = (\<lambda>message isOther count. \<lparr>xg_startOffsetMs = index * width, xg_message = message, xg_isOther = isOther,
            xg_count = count, xg_bucketWidthMs = width\<rparr>);
          own = map (\<lambda>(message, count). row message False count) (filter (\<lambda>e. fst e \<in> set top') counts);
          other = fold (\<lambda>e n. if fst e \<in> set top' then n else n + snd e) counts overflow
      in (if 0 < other then [row [] True other] else []) @ js_sort (\<lambda>x y. cmp_units (xg_message x) (xg_message y)) own))"

definition expectedErrorBuckets :: "(jstr \<Rightarrow> jstr \<Rightarrow> int) \<Rightarrow> canonical_event list \<Rightarrow> verify_options \<Rightarrow> expected_error_bucket list" where
  "expectedErrorBuckets lc events opts = (case runSeriesWidth events opts of None \<Rightarrow> []
     | Some width \<Rightarrow>
       (let s = fold (failure_event opts width) events \<lparr>fx_totals = [], fx_buckets = []\<rparr>;
            top' = map fst (take ERROR_BUCKET_TOP (ranked_labels lc (fx_totals s)))
        in concat (map (failure_rows width top') (js_sort (cmp_by fst) (fx_buckets s)))))"

section \<open>Users\<close>

definition USER_BUCKET_CAP :: int where "USER_BUCKET_CAP = 1200"

record verify_second =
  sc_started :: int
  sc_ended :: int
  sc_maxConcurrent :: int

fun user_event_list :: "verify_options \<Rightarrow> canonical_event \<Rightarrow> (jstr, (int \<times> bool) list) jmap \<Rightarrow> (jstr, (int \<times> bool) list) jmap" where
  "user_event_list opts (UserE u) m = jm_set (us_scenario u)
     (jm_get_or [] m (us_scenario u) @ [(us_tsMs u - vp_runStartMs opts, us_kind u = UserStart)]) m"
| "user_event_list opts _ m = m"

definition second_step :: "int \<times> bool \<Rightarrow> (int, verify_second) jmap \<times> int \<Rightarrow> (int, verify_second) jmap \<times> int" where
  "second_step ev st = (case st of (secs, concurrency) \<Rightarrow>
     (let index = fst ev div BASE_WIDTH_MS;
          s = (case jm_get secs index of Some s \<Rightarrow> s | None \<Rightarrow> \<lparr>sc_started = 0, sc_ended = 0, sc_maxConcurrent = concurrency\<rparr>);
          (s, concurrency) = (if snd ev then (s\<lparr>sc_started := sc_started s + 1\<rparr>, concurrency + 1)
            else (s\<lparr>sc_ended := sc_ended s + 1\<rparr>, concurrency - 1))
      in (jm_set index (s\<lparr>sc_maxConcurrent := max (sc_maxConcurrent s) concurrency\<rparr>) secs, concurrency)))"

text \<open>\<open>while (... > USER_BUCKET_CAP) factor *= 2\<close>; the \<open>k\<close>-th pass is at the factor \<open>2 ^ k\<close>.\<close>

function factor_pass :: "int \<Rightarrow> int \<Rightarrow> nat \<Rightarrow> int" where
  "factor_pass lo hi k = (if USER_BUCKET_CAP < hi div 2 ^ k - lo div 2 ^ k + 1 then factor_pass lo hi (Suc k) else 2 ^ k)"
  by pat_completeness auto
termination
proof (relation "measure (\<lambda>(lo, hi, k). nat (hi - lo) - k)", goal_cases)
  case (2 lo hi k)
  have "k < 2 ^ k" by simp
  then have k: "int k < 2 ^ k" by (metis of_nat_less_iff of_nat_numeral of_nat_power)
  have "(2 :: int) ^ k * (hi div 2 ^ k) \<le> hi" "lo < 2 ^ k * (lo div 2 ^ k + 1)"
    using pos_mod_bound [of "2 ^ k" lo] by (simp_all add: minus_mod_eq_mult_div [symmetric] algebra_simps)
  moreover have "2 ^ k * 1 \<le> (2 :: int) ^ k * (hi div 2 ^ k - lo div 2 ^ k - 1)"
    using 2 by (intro mult_left_mono) (simp_all add: USER_BUCKET_CAP_def)
  ultimately have "2 ^ k \<le> hi - lo" by (simp add: algebra_simps)
  with k have "int k < hi - lo" by linarith
  then show ?case by simp
qed simp

declare factor_pass.simps [simp del]

definition coarse_step :: "(int, verify_second) jmap \<Rightarrow> int \<Rightarrow> int \<Rightarrow> (int, verify_second) jmap \<times> int \<Rightarrow> (int, verify_second) jmap \<times> int" where
  "coarse_step secs factor i st = (case st of (coarse, standing) \<Rightarrow>
     (let (one, standing) = (case jm_get secs i of
            None \<Rightarrow> (\<lparr>sc_started = 0, sc_ended = 0, sc_maxConcurrent = standing\<rparr>, standing)
          | Some s \<Rightarrow> (s, standing + sc_started s - sc_ended s));
          j = i div factor
      in (jm_set j (case jm_get coarse j of None \<Rightarrow> one
            | Some c \<Rightarrow> \<lparr>sc_started = sc_started c + sc_started one, sc_ended = sc_ended c + sc_ended one,
                sc_maxConcurrent = max (sc_maxConcurrent c) (sc_maxConcurrent one)\<rparr>) coarse, standing)))"

definition user_bucketsOf :: "jstr \<times> (int \<times> bool) list \<Rightarrow> expected_user_bucket list" where
  "user_bucketsOf e = (case e of (scenario, list) \<Rightarrow>
     (let sorted = js_sort (cmp_then (cmp_by fst) (\<lambda>a b. of_bool (snd b) - of_bool (snd a))) list;
          secs = fst (fold second_step sorted ([], 0));
          indexes = js_sort (cmp_by id) (map fst secs);
          factor = factor_pass (hd indexes) (last indexes) 0;
          coarse = fst (fold (coarse_step secs factor) [hd indexes..last indexes] ([], 0))
      in map (\<lambda>(j, c). \<lparr>xu_scenario = scenario, xu_startOffsetMs = j * (BASE_WIDTH_MS * factor), xu_started = sc_started c,
           xu_ended = sc_ended c, xu_maxConcurrent = sc_maxConcurrent c\<rparr>) coarse))"

definition expectedUsers :: "canonical_event list \<Rightarrow> verify_options \<Rightarrow> expected_user_bucket list" where
  "expectedUsers events opts = concat (map user_bucketsOf
     (js_sort (\<lambda>a b. cmp_units (fst a) (fst b)) (fold (user_event_list opts) events [])))"

section \<open>All of it\<close>

definition expectedFrom :: "(jstr \<Rightarrow> jstr \<Rightarrow> int) \<Rightarrow> canonical_event list \<Rightarrow> verify_options \<Rightarrow> expected" where
  "expectedFrom lc events opts = \<lparr>ex_stats = expectedStats events opts, ex_series = expectedSeries events opts,
     ex_errors = expectedErrors lc events opts, ex_errorBuckets = expectedErrorBuckets lc events opts,
     ex_users = expectedUsers events opts, ex_run = expectedRun events opts\<rparr>"

end
