(* ===== verification/VerifyCompare.thy ===== *)
theory VerifyCompare
  imports Verify Sla
begin

text \<open>
  \<open>packages/verify/src/compare.ts\<close>: the ledger and one comparator per table; and the way of a result into
  the tables and back (\<open>MetricWriter.persist\<close>, \<open>readStoredFigures\<close>, \<open>toStored\<close>). The comparators of the
  agent tables are not modelled: they return at once for a run without an agent file.
\<close>

section \<open>The ledger\<close>

definition RELATIVE_TOLERANCE :: rat where "RELATIVE_TOLERANCE = rnd (1 / 10 ^ 9)"

datatype population = AllP | OkP | KoP
datatype figure_value = FNum jnum | FStr jstr | FNull
datatype figure_table = RunStat | RunSeriesBucket | RunError | RunErrorBucket | RunUserBucket | RunT

record row_place =
  rp_table :: figure_table
  rp_scope :: jstr
  rp_name :: jstr
  rp_family :: jstr
  rp_bucket :: "int option"

record figure_mismatch =
  fm_place :: row_place
  fm_population :: "population option"
  fm_figure :: jstr
  fm_stored :: figure_value
  fm_recomputed :: figure_value

record ledger =
  lg_figuresChecked :: int
  lg_mismatches :: "figure_mismatch list"

text \<open>\<open>stored !== recomputed\<close>: \<open>NaN\<close> differs from everything.\<close>

fun same_value :: "figure_value \<Rightarrow> figure_value \<Rightarrow> bool" where
  "same_value (FNum a) (FNum b) = jeq a b"
| "same_value a b = (a = b)"

definition check_figure :: "bool \<Rightarrow> row_place \<Rightarrow> jstr \<Rightarrow> population option \<Rightarrow> figure_value \<Rightarrow> figure_value \<Rightarrow> ledger \<Rightarrow> ledger" where
  "check_figure agrees place figure pop stored recomputed l =
     l\<lparr>lg_figuresChecked := lg_figuresChecked l + 1,
       lg_mismatches := (if agrees then lg_mismatches l else lg_mismatches l @
         [\<lparr>fm_place = place, fm_population = pop, fm_figure = figure, fm_stored = stored, fm_recomputed = recomputed\<rparr>])\<rparr>"

definition ledger_exact :: "row_place \<Rightarrow> jstr \<Rightarrow> population option \<Rightarrow> figure_value \<Rightarrow> figure_value \<Rightarrow> ledger \<Rightarrow> ledger" where
  "ledger_exact place figure pop stored recomputed =
     check_figure (same_value stored recomputed) place figure pop stored recomputed"

definition closeEnough :: "rat \<Rightarrow> rat \<Rightarrow> bool" where
  "closeEnough stored recomputed \<longleftrightarrow> (if recomputed = 0 then \<bar>stored\<bar> \<le> RELATIVE_TOLERANCE
     else \<bar>fsub stored recomputed\<bar> \<le> fmul RELATIVE_TOLERANCE \<bar>recomputed\<bar>)"

definition ledger_close :: "row_place \<Rightarrow> jstr \<Rightarrow> population option \<Rightarrow> rat \<Rightarrow> rat \<Rightarrow> ledger \<Rightarrow> ledger" where
  "ledger_close place figure pop stored recomputed =
     check_figure (closeEnough stored recomputed) place figure pop (FNum (JFin stored)) (FNum (JFin recomputed))"

definition ledger_row :: "row_place \<Rightarrow> figure_value \<Rightarrow> figure_value \<Rightarrow> ledger \<Rightarrow> ledger" where
  "ledger_row place stored recomputed = check_figure False place (js ''row'') None stored recomputed"

abbreviation fint :: "int \<Rightarrow> figure_value" where "fint n \<equiv> FNum (JFin (of_int n))"

definition fint_or_null :: "int option \<Rightarrow> figure_value" where
  "fint_or_null v = (case v of Some n \<Rightarrow> fint n | None \<Rightarrow> FNull)"

text \<open>
  \<open>Number(key.slice(1))\<close> of a key \<open>p<number>\<close>, for the strings that \<open>String\<close> makes of a number without
  an exponent; other keys compare as text.
\<close>

definition percentile_number :: "jstr \<Rightarrow> rat option" where
  "percentile_number key = (case key of [] \<Rightarrow> None
     | c # s \<Rightarrow> if [c] \<noteq> js ''p'' then None else
       (case js_split 0x2E s of
          [whole] \<Rightarrow> if whole \<noteq> [] \<and> list_all is_digit whole then Some (rnd (of_int (digits_value whole 0))) else None
        | [whole, part] \<Rightarrow> if whole \<noteq> [] \<and> part \<noteq> [] \<and> list_all is_digit (whole @ part)
            then Some (rnd (of_int (digits_value (whole @ part) 0) / 10 ^ length part)) else None
        | _ \<Rightarrow> None))"

definition byPercentileKey :: "jstr \<Rightarrow> jstr \<Rightarrow> int" where
  "byPercentileKey a b = (case (percentile_number a, percentile_number b) of
     (Some x, Some y) \<Rightarrow> if x < y then - 1 else if y < x then 1 else 0
   | _ \<Rightarrow> cmp_units a b)"

definition ledger_exactMap :: "row_place \<Rightarrow> population option \<Rightarrow> percentile_map \<Rightarrow> percentile_map \<Rightarrow> ledger \<Rightarrow> ledger" where
  "ledger_exactMap place pop stored recomputed =
     fold (\<lambda>k. ledger_exact place k pop (fint_or_null (jm_get stored k)) (fint_or_null (jm_get recomputed k)))
       (js_sort byPercentileKey (fold set_insert (map fst recomputed @ map fst stored) []))"

section \<open>Pairing rows\<close>

definition group_rows :: "('a \<Rightarrow> jstr) \<Rightarrow> 'a list \<Rightarrow> (jstr, 'a list) jmap" where
  "group_rows keyOf rows = fold (\<lambda>r m. jm_set (keyOf r) (jm_get_or [] m (keyOf r) @ [r]) m) rows []"

definition matchRows :: "'e list \<Rightarrow> 's list \<Rightarrow> ('e \<Rightarrow> jstr) \<Rightarrow> ('s \<Rightarrow> jstr) \<Rightarrow> ('e \<Rightarrow> 's \<Rightarrow> ledger \<Rightarrow> ledger) \<Rightarrow>
    ('e \<Rightarrow> ledger \<Rightarrow> ledger) \<Rightarrow> ('s \<Rightarrow> ledger \<Rightarrow> ledger) \<Rightarrow> ledger \<Rightarrow> ledger" where
  "matchRows expected stored keyE keyS both missing extra =
     (let want = group_rows keyE expected; have' = group_rows keyS stored;
          keys = js_sort cmp_units (fold set_insert (map fst want @ map fst have') [])
      in fold (\<lambda>k. let es = jm_get_or [] want k; ss = jm_get_or [] have' k; paired = min (length es) (length ss)
           in fold extra (drop paired ss) \<circ> fold missing (drop paired es) \<circ>
             fold (\<lambda>(e, s). both e s) (zip (take paired es) (take paired ss))) keys)"

section \<open>What is stored\<close>

text \<open>A row of \<open>run_series_bucket\<close>: four columns may be null.\<close>

record stored_series_bucket =
  zb_scope :: jstr
  zb_name :: jstr
  zb_family :: jstr
  zb_startOffsetMs :: int
  zb_startedCount :: int
  zb_endedCount :: int
  zb_okCount :: int
  zb_koCount :: int
  zb_startedOkCount :: "int option"
  zb_startedKoCount :: "int option"
  zb_minMs :: int
  zb_maxMs :: int
  zb_meanMs :: rat
  zb_percentiles :: percentile_map
  zb_percentilesOk :: "percentile_map option"
  zb_percentilesKo :: "percentile_map option"

record stored_figures =
  sf_stats :: "expected_stat list"
  sf_seriesBuckets :: "stored_series_bucket list"
  sf_errors :: "expected_error list"
  sf_errorBuckets :: "expected_error_bucket list"
  sf_userBuckets :: "expected_user_bucket list"
  sf_durationMs :: "int option"
  sf_activityMs :: "int option"

definition stat_columns :: "stat_rollup \<Rightarrow> expected_stat" where
  "stat_columns s = \<lparr>xt_scope = scope_js (sr_scope s), xt_name = sr_name s, xt_family = family_js (sr_family s),
     xt_count = sr_count s, xt_okCount = sr_okCount s, xt_koCount = sr_koCount s, xt_errorRate = sr_errorRate s,
     xt_minMs = sr_minMs s, xt_maxMs = sr_maxMs s, xt_meanMs = sr_meanMs s, xt_stddevMs = sr_stddevMs s,
     xt_throughputRps = sr_throughputRps s, xt_percentiles = sr_percentiles s\<rparr>"

definition bucket_columns :: "row_id \<Rightarrow> bucket \<Rightarrow> stat_error + stored_series_bucket" where
  "bucket_columns i b = (case i of (scope, name, family) \<Rightarrow>
     map_sum id (\<lambda>lat. \<lparr>zb_scope = scope_js scope, zb_name = name, zb_family = family_js family,
       zb_startOffsetMs = bk_startOffsetMs b, zb_startedCount = bk_startedCount b, zb_endedCount = bk_endedCount b,
       zb_okCount = bk_okCount b, zb_koCount = bk_koCount b, zb_startedOkCount = Some (bk_startedOkCount b),
       zb_startedKoCount = Some (bk_startedKoCount b), zb_minMs = bl_minMs lat, zb_maxMs = bl_maxMs lat,
       zb_meanMs = bl_meanMs lat, zb_percentiles = bl_percentiles lat, zb_percentilesOk = Some (bl_percentilesOk lat),
       zb_percentilesKo = Some (bl_percentilesKo lat)\<rparr>) (bucketLatency (bk_histogramOk b) (bk_histogramKo b)))"

definition user_columns :: "user_scenario \<Rightarrow> expected_user_bucket list" where
  "user_columns u = map (\<lambda>b. \<lparr>xu_scenario = uc_scenario u, xu_startOffsetMs = ub_startOffsetMs b, xu_started = ub_started b,
     xu_ended = ub_ended b, xu_maxConcurrent = ub_maxConcurrent b\<rparr>) (uc_buckets u)"

text \<open>The remainder row is carried by \<open>is_other\<close>, with an empty message.\<close>

definition error_columns :: "error_id \<times> jstr option \<times> int \<Rightarrow> expected_error" where
  "error_columns e = (case e of ((scope, name), message, n) \<Rightarrow> \<lparr>xe_scope = scope_js scope, xe_name = name,
     xe_message = (case message of Some m \<Rightarrow> m | None \<Rightarrow> []), xe_isOther = (message = None), xe_count = n\<rparr>)"

definition error_bucket_columns :: "int \<Rightarrow> error_series_row \<Rightarrow> expected_error_bucket" where
  "error_bucket_columns width r = \<lparr>xg_startOffsetMs = er_startOffsetMs r,
     xg_message = (case er_message r of Some m \<Rightarrow> m | None \<Rightarrow> []), xg_isOther = (er_message r = None),
     xg_count = er_count r, xg_bucketWidthMs = width\<rparr>"

definition persist :: "engine_result \<Rightarrow> stat_error + stored_figures" where
  "persist result = map_sum id (\<lambda>series. \<lparr>sf_stats = map stat_columns (xr_stats result), sf_seriesBuckets = series,
     sf_errors = map error_columns (xr_errors result),
     sf_errorBuckets = map (error_bucket_columns (ez_bucketWidthMs (xr_errorSeries result))) (ez_rows (xr_errorSeries result)),
     sf_userBuckets = concat (map user_columns (xr_users result)),
     sf_durationMs = Some (xr_durationMs result), sf_activityMs = Some (xr_activityMs result)\<rparr>)
     (sum_list_all (concat (map (\<lambda>(k, i, w, bs). map (bucket_columns i) bs) (xr_series result))))"

record stored =
  so_stats :: "expected_stat list"
  so_series :: "stored_series_bucket list"
  so_errors :: "expected_error list"
  so_errorBuckets :: "expected_error_bucket list"
  so_users :: "expected_user_bucket list"
  so_durationMs :: jnum
  so_activityMs :: jnum

text \<open>A null span is passed as \<open>NaN\<close>.\<close>

definition num_or_nan :: "int option \<Rightarrow> jnum" where
  "num_or_nan v = (case v of Some n \<Rightarrow> JFin (of_int n) | None \<Rightarrow> JNaN)"

definition toStored :: "stored_figures \<Rightarrow> stored" where
  "toStored f = \<lparr>so_stats = sf_stats f, so_series = sf_seriesBuckets f, so_errors = sf_errors f,
     so_errorBuckets = sf_errorBuckets f, so_users = sf_userBuckets f, so_durationMs = num_or_nan (sf_durationMs f),
     so_activityMs = num_or_nan (sf_activityMs f)\<rparr>"

text \<open>
  What the database promises: a read returns the rows that were written, in the order asked for. The orders
  of \<open>readStoredFigures\<close> depend on the database's collation, so any order is allowed.
\<close>

definition reads_back :: "stored_figures \<Rightarrow> stored_figures \<Rightarrow> bool" where
  "reads_back written read \<longleftrightarrow> mset (sf_stats read) = mset (sf_stats written) \<and>
     mset (sf_seriesBuckets read) = mset (sf_seriesBuckets written) \<and> mset (sf_errors read) = mset (sf_errors written) \<and>
     mset (sf_errorBuckets read) = mset (sf_errorBuckets written) \<and> mset (sf_userBuckets read) = mset (sf_userBuckets written) \<and>
     sf_durationMs read = sf_durationMs written \<and> sf_activityMs read = sf_activityMs written"

section \<open>The comparators\<close>

definition place :: "figure_table \<Rightarrow> jstr \<Rightarrow> jstr \<Rightarrow> jstr \<Rightarrow> int option \<Rightarrow> row_place" where
  "place table scope name family bucket = \<lparr>rp_table = table, rp_scope = scope, rp_name = name, rp_family = family, rp_bucket = bucket\<rparr>"

definition stat_key :: "expected_stat \<Rightarrow> jstr" where
  "stat_key r = row_key3 (xt_scope r) (xt_name r) (xt_family r)"

definition stat_place :: "expected_stat \<Rightarrow> row_place" where
  "stat_place r = place RunStat (xt_scope r) (xt_name r) (xt_family r) None"

definition stat_both :: "expected_stat \<Rightarrow> expected_stat \<Rightarrow> ledger \<Rightarrow> ledger" where
  "stat_both e s = (let at' = stat_place e in
     ledger_exactMap at' (Some AllP) (xt_percentiles s) (xt_percentiles e) \<circ>
     ledger_close at' (js ''throughput_rps'') None (xt_throughputRps s) (xt_throughputRps e) \<circ>
     ledger_close at' (js ''stddev_ms'') (Some AllP) (xt_stddevMs s) (xt_stddevMs e) \<circ>
     ledger_close at' (js ''mean_ms'') (Some AllP) (xt_meanMs s) (xt_meanMs e) \<circ>
     ledger_exact at' (js ''max_ms'') (Some AllP) (fint (xt_maxMs s)) (fint (xt_maxMs e)) \<circ>
     ledger_exact at' (js ''min_ms'') (Some AllP) (fint (xt_minMs s)) (fint (xt_minMs e)) \<circ>
     ledger_close at' (js ''error_rate'') None (xt_errorRate s) (xt_errorRate e) \<circ>
     ledger_exact at' (js ''ko_count'') None (fint (xt_koCount s)) (fint (xt_koCount e)) \<circ>
     ledger_exact at' (js ''ok_count'') None (fint (xt_okCount s)) (fint (xt_okCount e)) \<circ>
     ledger_exact at' (js ''count'') None (fint (xt_count s)) (fint (xt_count e)))"

definition compareStats :: "expected \<Rightarrow> stored \<Rightarrow> ledger \<Rightarrow> ledger" where
  "compareStats expected stored = matchRows (ex_stats expected) (so_stats stored) stat_key stat_key stat_both
     (\<lambda>e. ledger_row (stat_place e) FNull (fint (xt_count e))) (\<lambda>s. ledger_row (stat_place s) (fint (xt_count s)) FNull)"

definition compareRun :: "expected \<Rightarrow> stored \<Rightarrow> ledger \<Rightarrow> ledger" where
  "compareRun expected stored = (let at' = place RunT (js ''run'') [] [] None in
     ledger_exact at' (js ''activity_ms'') None (FNum (so_activityMs stored)) (fint (xn_activityMs (ex_run expected))) \<circ>
     ledger_exact at' (js ''duration_ms'') None (FNum (so_durationMs stored)) (fint (xn_durationMs (ex_run expected))))"

definition series_key4 :: "jstr \<Rightarrow> jstr \<Rightarrow> jstr \<Rightarrow> int \<Rightarrow> jstr" where
  "series_key4 scope name family offset = row_key3 scope name family @ [nul] @ js_int offset"

definition series_both :: "expected_series_bucket \<Rightarrow> stored_series_bucket \<Rightarrow> ledger \<Rightarrow> ledger" where
  "series_both e s = (let at' = place RunSeriesBucket (xb_scope e) (xb_name e) (xb_family e) (Some (xb_startOffsetMs e)) in
     ledger_exactMap at' (Some KoP) (or_default (zb_percentilesKo s) []) (xb_percentilesKo e) \<circ>
     ledger_exactMap at' (Some OkP) (or_default (zb_percentilesOk s) []) (xb_percentilesOk e) \<circ>
     ledger_exactMap at' (Some AllP) (zb_percentiles s) (xb_percentiles e) \<circ>
     ledger_close at' (js ''mean_ms'') (Some AllP) (zb_meanMs s) (xb_meanMs e) \<circ>
     ledger_exact at' (js ''max_ms'') (Some AllP) (fint (zb_maxMs s)) (fint (xb_maxMs e)) \<circ>
     ledger_exact at' (js ''min_ms'') (Some AllP) (fint (zb_minMs s)) (fint (xb_minMs e)) \<circ>
     ledger_exact at' (js ''started_ko_count'') None (fint_or_null (zb_startedKoCount s)) (fint (xb_startedKoCount e)) \<circ>
     ledger_exact at' (js ''started_ok_count'') None (fint_or_null (zb_startedOkCount s)) (fint (xb_startedOkCount e)) \<circ>
     ledger_exact at' (js ''ko_count'') None (fint (zb_koCount s)) (fint (xb_koCount e)) \<circ>
     ledger_exact at' (js ''ok_count'') None (fint (zb_okCount s)) (fint (xb_okCount e)) \<circ>
     ledger_exact at' (js ''ended_count'') None (fint (zb_endedCount s)) (fint (xb_endedCount e)) \<circ>
     ledger_exact at' (js ''started_count'') None (fint (zb_startedCount s)) (fint (xb_startedCount e)))"

definition compareSeries :: "expected \<Rightarrow> stored \<Rightarrow> ledger \<Rightarrow> ledger" where
  "compareSeries expected stored = matchRows (ex_series expected) (so_series stored)
     (\<lambda>b. series_key4 (xb_scope b) (xb_name b) (xb_family b) (xb_startOffsetMs b))
     (\<lambda>b. series_key4 (zb_scope b) (zb_name b) (zb_family b) (zb_startOffsetMs b)) series_both
     (\<lambda>e. ledger_row (place RunSeriesBucket (xb_scope e) (xb_name e) (xb_family e) (Some (xb_startOffsetMs e)))
       FNull (fint (xb_startedCount e + xb_endedCount e)))
     (\<lambda>s. ledger_row (place RunSeriesBucket (zb_scope s) (zb_name s) (zb_family s) (Some (zb_startOffsetMs s)))
       (fint (zb_startedCount s + zb_endedCount s)) FNull)"

definition familyOf :: "bool \<Rightarrow> jstr \<Rightarrow> jstr" where
  "familyOf isOther message = (if isOther then [] else message)"

definition label_key :: "bool \<Rightarrow> jstr \<Rightarrow> jstr" where
  "label_key isOther message = (if isOther then js ''other'' else js ''message'' @ [nul] @ message)"

definition error_key :: "expected_error \<Rightarrow> jstr" where
  "error_key r = xe_scope r @ [nul] @ xe_name r @ [nul] @ label_key (xe_isOther r) (xe_message r)"

definition error_place :: "expected_error \<Rightarrow> row_place" where
  "error_place r = place RunError (xe_scope r) (xe_name r) (familyOf (xe_isOther r) (xe_message r)) None"

definition error_both :: "expected_error \<Rightarrow> expected_error \<Rightarrow> ledger \<Rightarrow> ledger" where
  "error_both e s = (let at' = error_place e in
     (if xe_isOther e then ledger_exact at' (js ''message'') None (FStr (xe_message s)) (FStr (xe_message e)) else id) \<circ>
     ledger_exact at' (js ''count'') None (fint (xe_count s)) (fint (xe_count e)))"

definition compareErrors :: "expected \<Rightarrow> stored \<Rightarrow> ledger \<Rightarrow> ledger" where
  "compareErrors expected stored = matchRows (ex_errors expected) (so_errors stored) error_key error_key error_both
     (\<lambda>e. ledger_row (error_place e) FNull (fint (xe_count e))) (\<lambda>s. ledger_row (error_place s) (fint (xe_count s)) FNull)"

definition error_bucket_key :: "expected_error_bucket \<Rightarrow> jstr" where
  "error_bucket_key b = js_int (xg_startOffsetMs b) @ [nul] @ label_key (xg_isOther b) (xg_message b)"

definition error_bucket_place :: "expected_error_bucket \<Rightarrow> row_place" where
  "error_bucket_place b = place RunErrorBucket (js ''run'') [] (familyOf (xg_isOther b) (xg_message b)) (Some (xg_startOffsetMs b))"

definition error_bucket_both :: "expected_error_bucket \<Rightarrow> expected_error_bucket \<Rightarrow> ledger \<Rightarrow> ledger" where
  "error_bucket_both e s = (let at' = error_bucket_place e in
     (if xg_isOther e then ledger_exact at' (js ''message'') None (FStr (xg_message s)) (FStr (xg_message e)) else id) \<circ>
     ledger_exact at' (js ''bucket_width_ms'') None (fint (xg_bucketWidthMs s)) (fint (xg_bucketWidthMs e)) \<circ>
     ledger_exact at' (js ''count'') None (fint (xg_count s)) (fint (xg_count e)))"

definition compareErrorBuckets :: "expected \<Rightarrow> stored \<Rightarrow> ledger \<Rightarrow> ledger" where
  "compareErrorBuckets expected stored = matchRows (ex_errorBuckets expected) (so_errorBuckets stored)
     error_bucket_key error_bucket_key error_bucket_both
     (\<lambda>e. ledger_row (error_bucket_place e) FNull (fint (xg_count e)))
     (\<lambda>s. ledger_row (error_bucket_place s) (fint (xg_count s)) FNull)"

definition user_key :: "expected_user_bucket \<Rightarrow> jstr" where
  "user_key b = xu_scenario b @ [nul] @ js_int (xu_startOffsetMs b)"

definition user_place :: "expected_user_bucket \<Rightarrow> row_place" where
  "user_place b = place RunUserBucket (js ''scenario'') (xu_scenario b) [] (Some (xu_startOffsetMs b))"

definition user_both :: "expected_user_bucket \<Rightarrow> expected_user_bucket \<Rightarrow> ledger \<Rightarrow> ledger" where
  "user_both e s = (let at' = user_place e in
     ledger_exact at' (js ''max_concurrent'') None (fint (xu_maxConcurrent s)) (fint (xu_maxConcurrent e)) \<circ>
     ledger_exact at' (js ''ended'') None (fint (xu_ended s)) (fint (xu_ended e)) \<circ>
     ledger_exact at' (js ''started'') None (fint (xu_started s)) (fint (xu_started e)))"

definition compareUsers :: "expected \<Rightarrow> stored \<Rightarrow> ledger \<Rightarrow> ledger" where
  "compareUsers expected stored = matchRows (ex_users expected) (so_users stored) user_key user_key user_both
     (\<lambda>e. ledger_row (user_place e) FNull (fint (xu_maxConcurrent e)))
     (\<lambda>s. ledger_row (user_place s) (fint (xu_maxConcurrent s)) FNull)"

definition COMPARATORS :: "(expected \<Rightarrow> stored \<Rightarrow> ledger \<Rightarrow> ledger) list" where
  "COMPARATORS = [compareStats, compareSeries, compareErrors, compareErrorBuckets, compareUsers, compareRun]"

definition compare_figures :: "expected \<Rightarrow> stored \<Rightarrow> ledger" where
  "compare_figures expected stored = fold (\<lambda>c. c expected stored) COMPARATORS \<lparr>lg_figuresChecked = 0, lg_mismatches = []\<rparr>"

end
