(* ===== verification/VerifyMatch.thy ===== *)
theory VerifyMatch
  imports VerifyCompare
begin

text \<open>
  What a comparison writes to the ledger: a comparator that pairs rows with the same keys one to one writes
  only what the pairs write.
\<close>

section \<open>What is written\<close>

definition writes_only :: "(figure_mismatch \<Rightarrow> bool) \<Rightarrow> (ledger \<Rightarrow> ledger) \<Rightarrow> bool" where
  "writes_only P f \<longleftrightarrow> (\<forall>l. \<exists>ms. lg_mismatches (f l) = lg_mismatches l @ ms \<and> list_all P ms)"

lemma writes_only_id [simp, intro]: "writes_only P id"
  by (simp add: writes_only_def)

lemma writes_only_comp [intro]:
  assumes "writes_only P f" and "writes_only P g"
  shows "writes_only P (f \<circ> g)"
  unfolding writes_only_def
proof
  fix l
  obtain ms where "lg_mismatches (g l) = lg_mismatches l @ ms" "list_all P ms" using assms(2) by (auto simp: writes_only_def)
  moreover obtain ns where "lg_mismatches (f (g l)) = lg_mismatches (g l) @ ns" "list_all P ns"
    using assms(1) by (auto simp: writes_only_def)
  ultimately show "\<exists>ms. lg_mismatches ((f \<circ> g) l) = lg_mismatches l @ ms \<and> list_all P ms" by auto
qed

lemma writes_only_fold [intro]: "(\<And>x. x \<in> set xs \<Longrightarrow> writes_only P (f x)) \<Longrightarrow> writes_only P (fold f xs)"
proof (induction xs)
  case (Cons x xs)
  then have "writes_only P (fold f xs \<circ> f x)" by (intro writes_only_comp) auto
  then show ?case by (simp add: comp_def)
qed (simp add: writes_only_def)

lemma writes_check [intro]: "agrees \<Longrightarrow> writes_only P (check_figure agrees pl figure pop s r)"
  by (simp add: writes_only_def check_figure_def)

lemma same_value_refl: "v \<noteq> FNum JNaN \<Longrightarrow> same_value v v"
proof (cases v)
  case (FNum x)
  then show "v \<noteq> FNum JNaN \<Longrightarrow> same_value v v" by (cases x) simp_all
qed simp_all

lemma writes_exact [intro]: "s = r \<Longrightarrow> r \<noteq> FNum JNaN \<Longrightarrow> writes_only P (ledger_exact pl figure pop s r)"
  unfolding ledger_exact_def using same_value_refl by (intro writes_check) simp

lemma rnd_small_pos: "0 \<le> x \<Longrightarrow> 0 \<le> fmul RELATIVE_TOLERANCE x"
  unfolding fmul_def RELATIVE_TOLERANCE_def by (intro rnd_nonneg mult_nonneg_nonneg) simp_all

lemma closeEnough_refl: "closeEnough x x"
proof -
  have "0 \<le> RELATIVE_TOLERANCE" by (simp add: RELATIVE_TOLERANCE_def rnd_nonneg)
  then show ?thesis using rnd_small_pos [of "\<bar>x\<bar>"] by (simp add: closeEnough_def fsub_def)
qed

lemma writes_close [intro]: "closeEnough s r \<Longrightarrow> writes_only P (ledger_close pl figure pop s r)"
  unfolding ledger_close_def by (intro writes_check)

lemma writes_map [intro]: "jm_get s = jm_get r \<Longrightarrow> writes_only P (ledger_exactMap pl pop s r)"
  unfolding ledger_exactMap_def
  by (intro writes_only_fold writes_exact) (auto simp: fint_or_null_def split: option.splits)

section \<open>Pairing\<close>

lemma group_rows_get: "jm_get_or [] (group_rows key rows) k = filter (\<lambda>r. key r = k) rows"
proof (induction rows rule: rev_induct)
  case (snoc r rows)
  then show ?case by (auto simp: group_rows_def jm_get_or_set)
qed (simp add: group_rows_def jm_get_or_def)

lemma count_filter: "count (mset (map f xs)) k = length (filter (\<lambda>x. f x = k) xs)"
  by (induction xs) auto

lemma matchRows_writes:
  assumes "mset (map keyE es) = mset (map keyS ss)"
    and "\<And>e s. e \<in> set es \<Longrightarrow> s \<in> set ss \<Longrightarrow> keyE e = keyS s \<Longrightarrow> writes_only P (both e s)"
  shows "writes_only P (matchRows es ss keyE keyS both missing extra)"
  unfolding matchRows_def Let_def group_rows_get
proof (intro writes_only_fold)
  fix k
  have len: "length (filter (\<lambda>r. keyE r = k) es) = length (filter (\<lambda>r. keyS r = k) ss)"
    using assms(1) by (metis count_filter)
  have "writes_only P (fold (\<lambda>(e, s). both e s) (zip (filter (\<lambda>r. keyE r = k) es) (filter (\<lambda>r. keyS r = k) ss)))"
  proof (intro writes_only_fold)
    fix p assume "p \<in> set (zip (filter (\<lambda>r. keyE r = k) es) (filter (\<lambda>r. keyS r = k) ss))"
    moreover obtain e s where "p = (e, s)" by fastforce
    ultimately show "writes_only P (case p of (e, s) \<Rightarrow> both e s)"
      using assms(2) [of e s] set_zip_leftD [of e s] set_zip_rightD [of e s] by force
  qed
  then show "writes_only P (fold extra (drop (min (length (filter (\<lambda>r. keyE r = k) es)) (length (filter (\<lambda>r. keyS r = k) ss)))
        (filter (\<lambda>r. keyS r = k) ss)) \<circ>
      fold missing (drop (min (length (filter (\<lambda>r. keyE r = k) es)) (length (filter (\<lambda>r. keyS r = k) ss))) (filter (\<lambda>r. keyE r = k) es)) \<circ>
      fold (\<lambda>(e, s). both e s) (zip (take (min (length (filter (\<lambda>r. keyE r = k) es)) (length (filter (\<lambda>r. keyS r = k) ss))) (filter (\<lambda>r. keyE r = k) es))
        (take (min (length (filter (\<lambda>r. keyE r = k) es)) (length (filter (\<lambda>r. keyS r = k) ss))) (filter (\<lambda>r. keyS r = k) ss))))"
    by (simp add: len)
qed

end
