(* ===== verification/FloatError.thy ===== *)
theory FloatError
  imports Rollup VerifyCompare
begin

text \<open>
  Accumulated rounding: \<open>near k x y\<close> says that \<open>y\<close> comes from the exact value \<open>x\<close> by at most \<open>k\<close> roundings
  in a row. Sums, products and square roots of non-negative figures keep it, so two orders of summation of
  the same figures stay close.
\<close>

definition unit_error :: rat where "unit_error = 1 / 2 ^ 53"

definition near :: "nat \<Rightarrow> rat \<Rightarrow> rat \<Rightarrow> bool" where
  "near k x y \<longleftrightarrow> x * (1 - unit_error) ^ k \<le> y \<and> y \<le> x * (1 + unit_error) ^ k"

lemma unit_bounds: "0 < unit_error" "unit_error < 1" "0 < 1 - unit_error" "0 < 1 + unit_error"
  by (simp_all add: unit_error_def)

lemma near_refl [simp]: "near 0 x x"
  by (simp add: near_def)

lemma near_0 [simp]: "near k 0 0"
  by (simp add: near_def)

lemma near_mono:
  assumes "near j x y" and "j \<le> k" and "0 \<le> x"
  shows "near k x y"
proof -
  have "(1 - unit_error) ^ k \<le> (1 - unit_error) ^ j" "(1 + unit_error) ^ j \<le> (1 + unit_error) ^ k"
    using assms(2) unit_bounds by (auto intro: power_decreasing power_increasing)
  then have "x * (1 - unit_error) ^ k \<le> x * (1 - unit_error) ^ j" "x * (1 + unit_error) ^ j \<le> x * (1 + unit_error) ^ k"
    using assms(3) by (auto intro: mult_left_mono)
  with assms(1) show ?thesis by (simp add: near_def)
qed

lemma near_trans:
  assumes "near j x y" and "near k y z"
  shows "near (j + k) x z"
proof -
  have "x * (1 - unit_error) ^ j * (1 - unit_error) ^ k \<le> y * (1 - unit_error) ^ k"
    "y * (1 + unit_error) ^ k \<le> x * (1 + unit_error) ^ j * (1 + unit_error) ^ k"
    using assms(1) unit_bounds by (auto simp: near_def intro!: mult_right_mono)
  with assms(2) show ?thesis by (simp add: near_def power_add mult.assoc)
qed

lemma near_add: "near k a b \<Longrightarrow> near k a' b' \<Longrightarrow> near k (a + a') (b + b')"
  by (simp add: near_def distrib_right add_mono)

lemma near_scale: "near k a b \<Longrightarrow> 0 \<le> c \<Longrightarrow> near k (c * a) (c * b)"
  by (auto simp: near_def mult.assoc intro: mult_left_mono)

lemma near_nonneg: "near k x y \<Longrightarrow> 0 \<le> x \<Longrightarrow> 0 \<le> y"
proof -
  assume "near k x y" "0 \<le> x"
  moreover have "0 \<le> (1 - unit_error) ^ k" using unit_bounds(3) by (intro zero_le_power) simp
  ultimately have "0 \<le> x * (1 - unit_error) ^ k" "x * (1 - unit_error) ^ k \<le> y" by (simp_all add: near_def)
  then show "0 \<le> y" by (rule order_trans)
qed

lemma near_zero: "near k x 0 \<Longrightarrow> 0 \<le> x \<Longrightarrow> x = 0"
proof -
  assume "near k x 0" "0 \<le> x"
  then have "x * (1 - unit_error) ^ k \<le> 0" by (simp add: near_def)
  moreover have "0 < (1 - unit_error) ^ k" using unit_bounds(3) by (rule zero_less_power)
  ultimately show "x = 0" using \<open>0 \<le> x\<close> by (metis mult_pos_pos not_le order_le_less)
qed

lemma near_square:
  assumes "near k x y" and "0 \<le> x"
  shows "near (2 * k) (x * x) (y * y)"
proof -
  have "near k (x * x) (x * y)" by (rule near_scale [OF assms])
  moreover have "near k (x * y) (y * y)"
    using near_scale [OF assms(1) near_nonneg [OF assms]] by (simp add: mult.commute)
  ultimately show ?thesis unfolding mult_2 by (rule near_trans)
qed

section \<open>Figures far from underflow\<close>

definition figure_size :: "int \<Rightarrow> rat \<Rightarrow> bool" where
  "figure_size e x \<longleftrightarrow> x = 0 \<or> 2 powi (- e) \<le> x"

lemma figure_size_nonneg: "figure_size e x \<Longrightarrow> 0 \<le> x"
  by (auto simp: figure_size_def intro: order_trans [OF less_imp_le [OF powi2_pos]])

lemma figure_size_mono: "figure_size d x \<Longrightarrow> d \<le> e \<Longrightarrow> figure_size e x"
  using powi2_mono [of "- e" "- d"] by (auto simp: figure_size_def)

lemma figure_size_add: "figure_size e x \<Longrightarrow> figure_size e y \<Longrightarrow> figure_size e (x + y)"
  using figure_size_nonneg [of e x] figure_size_nonneg [of e y] by (auto simp: figure_size_def)

lemma figure_size_mult: "figure_size d x \<Longrightarrow> figure_size e y \<Longrightarrow> figure_size (d + e) (x * y)"
proof (cases "x = 0 \<or> y = 0")
  case False
  assume "figure_size d x" "figure_size e y"
  then have "2 powi (- d) \<le> x" "2 powi (- e) \<le> y" using False by (auto simp: figure_size_def)
  then have "2 powi (- d) * 2 powi (- e) \<le> x * y"
    using order_trans [OF less_imp_le [OF powi2_pos]] by (intro mult_mono) auto
  then show ?thesis by (simp add: figure_size_def flip: powi2_add)
qed (simp add: figure_size_def)

lemma powi_double: "- 1022 \<le> e \<Longrightarrow> rnd (2 powi e) = 2 powi e"
  by (rule rnd_double, unfold is_double_def, intro exI [of _ "1 :: int"] exI [of _ e]) simp

lemma figure_size_rnd:
  assumes "figure_size e x" and "e \<le> 1022"
  shows "figure_size e (rnd x)"
proof (cases "x = 0")
  case False
  then have "rnd (2 powi (- e)) \<le> rnd x" using assms(1) by (intro rnd_mono) (simp add: figure_size_def)
  then show ?thesis using assms(2) powi_double [of "- e"] by (simp add: figure_size_def)
qed (simp add: figure_size_def)

lemma near_rnd:
  assumes "figure_size e x" and "e \<le> 1022"
  shows "near 1 x (rnd x)"
proof (cases "x = 0")
  case False
  then have "2 powi (- 1022) \<le> x" using assms powi2_mono [of "- 1022" "- e"] by (simp add: figure_size_def)
  from rnd_error [OF this] have "x - x / 2 ^ 53 \<le> rnd x" "rnd x \<le> x + x / 2 ^ 53" by linarith+
  then show ?thesis by (simp add: near_def unit_error_def algebra_simps)
qed simp

text \<open>A rounded running sum of terms that are near to exact ones.\<close>

lemma near_sum:
  assumes "\<And>v. v \<in> set vs \<Longrightarrow> near k (f v) (g v) \<and> figure_size e (g v) \<and> 0 \<le> f v"
    and "near j x y" and "figure_size e y" and "0 \<le> x" and "k \<le> j" and "e \<le> 1022"
  shows "near (j + length vs) (x + sum_list (map f vs)) (foldl (\<lambda>a v. fadd a (g v)) y vs) \<and>
    figure_size e (foldl (\<lambda>a v. fadd a (g v)) y vs)"
  using assms(1-5)
proof (induction vs arbitrary: x y j)
  case (Cons v vs)
  have v: "near k (f v) (g v)" "figure_size e (g v)" "0 \<le> f v" using Cons.prems(1) [of v] by auto
  have "near j (f v) (g v)" by (rule near_mono [OF v(1) Cons.prems(5) v(3)])
  then have "near j (x + f v) (y + g v)" by (rule near_add [OF Cons.prems(2)])
  moreover have big: "figure_size e (y + g v)" by (rule figure_size_add [OF Cons.prems(3) v(2)])
  ultimately have step: "near (j + 1) (x + f v) (fadd y (g v))"
    unfolding fadd_def using near_trans near_rnd [OF _ assms(6)] by blast
  have "figure_size e (fadd y (g v))" unfolding fadd_def by (rule figure_size_rnd [OF big assms(6)])
  from Cons.IH [OF _ step this] Cons.prems v(3) show ?case by (simp add: add.assoc)
qed simp

section \<open>Square roots\<close>

text \<open>The square of the rounded root is three roundings away from the argument.\<close>

lemma root_near:
  assumes "2 ^ 120 \<le> X" and "r = isqrt \<lfloor>X\<rfloor>" and "y = (if of_int (r * r) = X then of_int r else of_int r + 1 / 2)"
  shows "near 1 X (y * y)" "2 ^ 60 \<le> y"
proof -
  have "0 \<le> \<lfloor>X\<rfloor>" using assms(1) by (simp add: le_floor_iff)
  then have b: "0 \<le> r" "r * r \<le> \<lfloor>X\<rfloor>" "\<lfloor>X\<rfloor> < (r + 1) * (r + 1)" using isqrt_bounds [of "\<lfloor>X\<rfloor>"] by (simp_all add: assms(2))
  have "(2 :: int) ^ 120 \<le> \<lfloor>X\<rfloor>" using assms(1) by (simp add: le_floor_iff)
  also have "\<dots> < (r + 1) * (r + 1)" by (rule b(3))
  finally have "(2 :: int) ^ 60 * 2 ^ 60 < (r + 1) * (r + 1)" by simp
  then have "(2 :: int) ^ 60 < r + 1"
    using b(1) by (metis mult_mono' not_le le_add_same_cancel1 zero_le_numeral zero_le_power add_nonneg_nonneg zero_le_one)
  then have r: "2 ^ 60 \<le> r" by simp
  then have r': "(2 :: rat) ^ 60 \<le> of_int r" by (metis of_int_le_iff of_int_numeral of_int_power)
  then show "2 ^ 60 \<le> y" by (simp add: assms(3))
  have lo: "of_int (r * r) \<le> X" using b(2) by (simp add: le_floor_iff)
  have hi: "X < of_int ((r + 1) * (r + 1))" using b(3) by (simp add: floor_less_iff)
  show "near 1 X (y * y)"
  proof (cases "of_int (r * r) = X")
    case True
    then have "y * y = X" by (simp add: assms(3))
    moreover have "0 \<le> X" using assms(1) by (rule order_trans [rotated]) simp
    ultimately show ?thesis using near_mono [of 0 X X 1] by simp
  next
    case False
    let ?r = "of_int r :: rat"
    have yy: "y * y = ?r * ?r + ?r + 1 / 4" using False by (simp add: assms(3) algebra_simps)
    have X: "?r * ?r \<le> X" "X \<le> ?r * ?r + 2 * ?r + 1" using lo hi by (simp_all add: algebra_simps)
    have "2 ^ 53 * (?r + 1) \<le> 2 ^ 60 * ?r" using r' by simp
    also have "\<dots> \<le> ?r * ?r" using r' by (intro mult_right_mono) (auto intro: order_trans [rotated])
    finally have small: "2 ^ 53 * (?r + 1) \<le> X" using X(1) by simp
    have "y * y \<le> X + (?r + 1)" using X(1) yy by simp
    moreover have "X - (?r + 1) \<le> y * y" using X(2) yy by simp
    moreover have "?r + 1 \<le> X / 2 ^ 53" using small by (simp add: field_simps)
    ultimately show ?thesis by (simp add: near_def unit_error_def algebra_simps)
  qed
qed

lemma powi4: "(4 :: rat) powi s = 2 powi s * 2 powi s"
  by (metis mult_2 mult_2_right numeral_Bit0 powi2_add power_int_mult power2_eq_square power_int_add_numeral power_int_mult_distrib numeral_times_numeral)

lemma fsqrt_near:
  assumes "figure_size e x" and "0 \<le> e" and "e \<le> 1000"
  shows "near 3 x (fsqrt x * fsqrt x)"
proof (cases "x = 0")
  case True
  then show ?thesis by (simp add: fsqrt_def)
next
  case False
  then have x: "2 powi (- e) \<le> x" using assms(1) by (simp add: figure_size_def)
  have "0 < x" by (rule less_le_trans [OF powi2_pos x])
  with x have x: "2 powi (- e) \<le> x" "0 < x" by simp_all
  define l where "l = floor_log2 x"
  define s where "s = 60 - l div 2"
  define X where "X = x * 4 powi s"
  define r where "r = isqrt \<lfloor>X\<rfloor>"
  define y where "y = (if of_int (r * r) = X then of_int r else of_int r + 1 / 2 :: rat)"
  define z where "z = y * 2 powi (- s)"
  have fs: "fsqrt x = rnd z" using x(2) by (simp add: fsqrt_def l_def s_def X_def r_def y_def z_def Let_def)
  have "2 powi (120 :: int) \<le> (2 :: rat) powi (l + 2 * s)" unfolding s_def by (intro powi2_mono) presburger
  also have "\<dots> = 2 powi l * (2 powi s * 2 powi s)" by (simp only: mult_2 powi2_add)
  also have "\<dots> \<le> X" unfolding X_def powi4 l_def using floor_log2_bounds(1) [OF x(2)] by (intro mult_right_mono) simp_all
  finally have "2 ^ 120 \<le> X" by simp
  note root = root_near [OF this r_def y_def]
  have cancels: "2 powi (- s) * (2 :: rat) powi s = 1" by (simp flip: powi2_add)
  have "z * z = (y * y) * (2 powi (- s) * 2 powi (- s))" by (simp add: z_def)
  moreover have "x = X * (2 powi (- s) * 2 powi (- s))" unfolding X_def powi4 using cancels by (simp add: algebra_simps)
  moreover have "near 1 (X * (2 powi (- s) * 2 powi (- s))) ((y * y) * (2 powi (- s) * 2 powi (- s)))"
    using near_scale [OF root(1), of "2 powi (- s) * 2 powi (- s)"] by (simp add: mult.commute)
  ultimately have zz: "near 1 x (z * z)" by simp
  have l: "- e \<le> l"
  proof (rule ccontr)
    assume "\<not> - e \<le> l"
    then have "(2 :: rat) powi (l + 1) \<le> 2 powi (- e)" by (intro powi2_mono) simp
    with x(1) floor_log2_bounds(2) [OF x(2)] show False by (simp add: l_def)
  qed
  have "(2 :: rat) powi (- 1000) \<le> 2 powi (60 - s)" unfolding s_def using l assms(2,3) by (intro powi2_mono) presburger
  also have "\<dots> = 2 ^ 60 * 2 powi (- s)" by (simp add: power_int_diff power_int_minus field_simps)
  also have "\<dots> \<le> z" unfolding z_def using root(2) by (intro mult_right_mono) simp_all
  finally have z: "figure_size 1000 z" by (simp add: figure_size_def)
  have "near 2 (z * z) (rnd z * rnd z)" using near_square [OF near_rnd [OF z] figure_size_nonneg [OF z]] by simp
  from near_trans [OF zz this] show ?thesis by (simp add: fs numeral_3_eq_3)
qed

section \<open>Two sums of the same figures\<close>

lemma power_lower: "1 - of_nat k * unit_error \<le> (1 - unit_error) ^ k"
proof (induction k)
  case (Suc k)
  have "1 - of_nat (Suc k) * unit_error \<le> (1 - of_nat k * unit_error) * (1 - unit_error)"
    using unit_bounds by (simp add: algebra_simps)
  also have "\<dots> \<le> (1 - unit_error) ^ k * (1 - unit_error)" using Suc unit_bounds by (intro mult_right_mono) simp_all
  finally show ?case by (simp add: mult.commute)
qed simp

lemma near_roots:
  assumes "near k Q (a * a)" and "near k Q (b * b)" and "0 \<le> a" and "0 \<le> b" and "0 \<le> Q"
  shows "a * (1 - of_nat k * unit_error) \<le> b"
proof -
  define u where "u = (1 - unit_error) ^ k"
  define v where "v = (1 + unit_error) ^ k"
  have u: "0 \<le> u" "1 - of_nat k * unit_error \<le> u" using unit_bounds power_lower by (simp_all add: u_def)
  have "(1 + unit_error) * (1 - unit_error) \<le> 1" by (simp add: unit_error_def)
  then have uv: "v * u \<le> 1" unfolding u_def v_def power_mult_distrib [symmetric]
    using unit_bounds by (intro power_le_one) simp_all
  have "(a * u) * (a * u) = (a * a) * u * u" by simp
  also have "\<dots> \<le> (Q * v) * u * u" using assms(1) u(1) by (intro mult_right_mono) (simp_all add: near_def v_def)
  also have "\<dots> = (v * u) * (Q * u)" by simp
  also have "\<dots> \<le> 1 * (Q * u)" using uv u(1) assms(5) by (intro mult_right_mono) simp_all
  also have "\<dots> \<le> b * b" using assms(2) by (simp add: near_def u_def)
  finally have "a * u \<le> b" using assms(3,4) u(1) by (metis mult_nonneg_nonneg abs_le_square_iff abs_of_nonneg power2_eq_square)
  moreover have "a * (1 - of_nat k * unit_error) \<le> a * u" using u(2) assms(3) by (intro mult_left_mono)
  ultimately show ?thesis by simp
qed

section \<open>Standard deviations\<close>

text \<open>The mean of up to \<open>2 ^ 52\<close> whole numbers is a multiple of \<open>2 ^ -105\<close>, so a deviation from it is too.\<close>

lemma grid_size: "x = of_int m * 2 powi (- 105) \<Longrightarrow> figure_size 105 \<bar>x\<bar>"
proof (cases "m = 0")
  case False
  assume x: "x = of_int m * 2 powi (- 105)"
  have "(1 :: rat) \<le> of_int \<bar>m\<bar>" using False by (metis of_int_1_le_iff zero_less_abs_iff int_one_le_iff_zero_less)
  then have "1 * 2 powi (- 105) \<le> (of_int \<bar>m\<bar> :: rat) * 2 powi (- 105)" by (intro mult_right_mono) simp_all
  then show ?thesis by (simp add: x figure_size_def abs_mult)
qed (simp add: figure_size_def)

lemma mean_grid:
  assumes "0 \<le> s" and "0 < n" and "n \<le> 2 ^ 52"
  shows "\<exists>m. fdiv (of_int s) (of_int n) = of_int m * 2 powi (- 105)"
proof (cases "s = 0")
  case True
  then have "fdiv (of_int s) (of_int n) = of_int 0 * 2 powi (- 105)" by (simp add: fdiv_def)
  then show ?thesis ..
next
  case False
  define x :: rat where "x = of_int s / of_int n"
  have x: "0 < x" using assms False by (simp add: x_def)
  have "(1 :: rat) \<le> of_int s" using assms(1) False by simp
  moreover have "(of_int n :: rat) \<le> of_int (2 ^ 52)" using assms(3) by (simp only: of_int_le_iff)
  ultimately have "1 / 2 ^ 52 \<le> x" unfolding x_def using assms(2) by (intro frac_le) simp_all
  then have low: "2 powi (- 52) \<le> x" by (simp add: power_int_minus field_simps)
  have "- 53 \<le> floor_log2 x"
  proof (rule ccontr)
    assume "\<not> - 53 \<le> floor_log2 x"
    then have "(2 :: rat) powi (floor_log2 x + 1) \<le> 2 powi (- 52)" by (intro powi2_mono) simp
    with low floor_log2_bounds [OF x] show False by linarith
  qed
  then have u: "0 \<le> ulp_exp x + 105" using x by (simp add: ulp_exp_def)
  define R where "R = round_half_even (x / 2 powi ulp_exp x)"
  have "(2 :: rat) powi ulp_exp x = 2 powi (ulp_exp x + 105) * 2 powi (- 105)" by (simp only: powi2_add [symmetric]) simp
  also have "(2 :: rat) powi (ulp_exp x + 105) = of_int (2 ^ nat (ulp_exp x + 105))" by (rule powi2_nat [OF u])
  finally have "rnd x = of_int R * (of_int (2 ^ nat (ulp_exp x + 105)) * 2 powi (- 105))"
    using x by (simp add: rnd_def R_def)
  then have "fdiv (of_int s) (of_int n) = of_int (R * 2 ^ nat (ulp_exp x + 105)) * 2 powi (- 105)"
    by (simp add: fdiv_def x_def)
  then show ?thesis ..
qed

lemma rnd_abs: "rnd \<bar>x\<bar> = \<bar>rnd x\<bar>"
  using rnd_nonneg [of x] rnd_nonneg [of "- x"] by (cases "0 \<le> x") simp_all

lemma deviation_size:
  assumes "0 \<le> s" and "0 < n" and "n \<le> 2 ^ 52"
  shows "figure_size 105 \<bar>fsub (of_int v) (fdiv (of_int s) (of_int n))\<bar>"
proof -
  obtain m where m: "fdiv (of_int s) (of_int n) = of_int m * 2 powi (- 105)" using mean_grid [OF assms] ..
  have "of_int v - fdiv (of_int s) (of_int n) = of_int (v * 2 ^ 105 - m) * 2 powi (- 105)"
    unfolding m by (simp add: algebra_simps power_int_minus)
  from grid_size [OF this] have "figure_size 105 (rnd \<bar>of_int v - fdiv (of_int s) (of_int n)\<bar>)" by (rule figure_size_rnd) simp
  then show ?thesis by (simp only: fsub_def rnd_abs)
qed

text \<open>A squared deviation, taken \<open>c\<close> times, in the two ways of computing it.\<close>

lemma square_near: "figure_size 105 \<bar>d\<bar> \<Longrightarrow> near 1 (d * d) (fmul d d) \<and> figure_size 210 (fmul d d)"
proof -
  assume "figure_size 105 \<bar>d\<bar>"
  from figure_size_mult [OF this this] have "figure_size 210 (d * d)" by simp
  then show ?thesis using near_rnd [of 210] figure_size_rnd [of 210] by (simp add: fmul_def)
qed

lemma weighted_square_near:
  assumes "figure_size 105 \<bar>d\<bar>" and "0 \<le> (c :: int)"
  shows "near 2 (of_int c * (d * d)) (fmul (fmul (of_int c) d) d) \<and> figure_size 210 (fmul (fmul (of_int c) d) d)"
proof -
  have c: "figure_size 0 (of_int c)" using assms(2) by (cases "c = 0") (auto simp: figure_size_def)
  define e where "e = \<bar>d\<bar>"
  have abs: "fmul (fmul (of_int c) d) d = fmul (fmul (of_int c) e) e" by (simp add: fmul_def abs_if e_def)
  have d: "d * d = e * e" "0 \<le> e" by (simp_all add: e_def)
  have e: "figure_size 105 e" using assms(1) by (simp add: e_def)
  have one: "figure_size 105 (of_int c * e)" using figure_size_mult [OF c e] by simp
  have one': "near 1 (of_int c * e) (fmul (of_int c) e)" "figure_size 105 (fmul (of_int c) e)"
    using near_rnd [OF one] figure_size_rnd [OF one] by (simp_all add: fmul_def)
  have two: "figure_size 210 (fmul (of_int c) e * e)" using figure_size_mult [OF one'(2) e] by simp
  have two': "near 1 (fmul (of_int c) e * e) (fmul (fmul (of_int c) e) e)" "figure_size 210 (fmul (fmul (of_int c) e) e)"
    using near_rnd [OF two] figure_size_rnd [OF two] by (simp_all add: fmul_def)
  have "near 1 (e * (of_int c * e)) (e * fmul (of_int c) e)" by (rule near_scale [OF one'(1) d(2)])
  then have "near 1 (of_int c * (e * e)) (fmul (of_int c) e * e)" by (simp add: mult.commute mult.left_commute)
  from near_trans [OF this two'(1)] two'(2) show ?thesis by (simp add: abs d(1) numeral_2_eq_2)
qed

text \<open>From a sum near the sum of squares to the root of the mean square.\<close>

lemma deviation_near:
  assumes "near k Q dev" and "figure_size 210 dev" and "0 \<le> Q" and "0 < n" and "n \<le> 2 ^ 52"
  shows "near (k + 4) (Q / of_int n) (fsqrt (fdiv dev (of_int n)) * fsqrt (fdiv dev (of_int n)))"
proof -
  have inv: "figure_size 52 (1 / of_int n)"
  proof -
    have "(of_int n :: rat) \<le> of_int (2 ^ 52)" using assms(5) by (simp only: of_int_le_iff)
    then have "1 / 2 ^ 52 \<le> (1 :: rat) / of_int n" using assms(4) by (intro divide_left_mono) simp_all
    then show ?thesis by (simp add: figure_size_def power_int_minus field_simps)
  qed
  have "figure_size (210 + 52) (dev * (1 / of_int n))" by (rule figure_size_mult [OF assms(2) inv])
  then have q: "figure_size 262 (dev / of_int n)" by simp
  have "near k (1 / of_int n * Q) (1 / of_int n * dev)" using assms(4) by (intro near_scale [OF assms(1)]) simp
  then have "near k (Q / of_int n) (dev / of_int n)" by simp
  from near_trans [OF this near_rnd [OF q]] have "near (k + 1) (Q / of_int n) (fdiv dev (of_int n))" by (simp add: fdiv_def)
  moreover have "figure_size 262 (fdiv dev (of_int n))" using figure_size_rnd [OF q] by (simp add: fdiv_def)
  then have "near 3 (fdiv dev (of_int n)) (fsqrt (fdiv dev (of_int n)) * fsqrt (fdiv dev (of_int n)))"
    by (rule fsqrt_near) simp_all
  ultimately show ?thesis using near_trans [of "k + 1" _ _ 3] by (simp add: add.commute)
qed

text \<open>The tolerance of the comparison is wider than the roundings of up to eight million observations.\<close>

lemma tolerance: "17 / 2 ^ 34 \<le> RELATIVE_TOLERANCE"
proof -
  have "rnd (17 / 2 ^ 34) = 17 / 2 ^ 34"
    by (rule rnd_double, unfold is_double_def, intro exI [of _ "17 :: int"] exI [of _ "- 34 :: int"])
      (simp add: power_int_minus)
  then show ?thesis using rnd_mono [of "17 / 2 ^ 34" "1 / 10 ^ 9"] by (simp add: RELATIVE_TOLERANCE_def)
qed

lemma roots_closeEnough:
  assumes "near k Q (a * a)" and "near k Q (b * b)" and "0 \<le> a" and "0 \<le> b" and "0 \<le> Q" and "k \<le> 2 ^ 23"
  shows "closeEnough a b"
proof -
  have k: "of_nat k * unit_error \<le> 1 / 2 ^ 30" "0 \<le> of_nat k * unit_error"
  proof -
    have "(of_nat k :: rat) \<le> of_nat (2 ^ 23)" using assms(6) by (simp only: of_nat_le_iff)
    then show "of_nat k * unit_error \<le> 1 / 2 ^ 30" by (simp add: unit_error_def)
    show "0 \<le> of_nat k * unit_error" by (simp add: unit_error_def)
  qed
  have ab: "a * (1 - of_nat k * unit_error) \<le> b" by (rule near_roots [OF assms(1-5)])
  have ba: "b * (1 - of_nat k * unit_error) \<le> a" by (rule near_roots [OF assms(2,1,4,3,5)])
  have ka: "a * (of_nat k * unit_error) \<le> a * (1 / 2 ^ 30)" "b * (of_nat k * unit_error) \<le> b * (1 / 2 ^ 30)"
    using k(1) assms(3,4) by (intro mult_left_mono; simp)+
  have lo: "b - a \<le> b * (17 / 2 ^ 34)" using ba ka(2) assms(4) by (simp add: algebra_simps)
  have "a * (1 - 1 / 2 ^ 30) \<le> b" using ab ka(1) by (simp add: algebra_simps)
  then have hi: "a - b \<le> b * (17 / 2 ^ 34)" using assms(3) by (simp add: algebra_simps)
  have tol: "b * (17 / 2 ^ 34) \<le> b * RELATIVE_TOLERANCE" using tolerance assms(4) by (intro mult_left_mono)
  show ?thesis
  proof (cases "b = 0")
    case True
    then have "a = 0" using hi assms(3) by simp
    then show ?thesis using True by (simp add: closeEnough_def RELATIVE_TOLERANCE_def rnd_nonneg)
  next
    case False
    have "rnd (a - b) \<le> fmul RELATIVE_TOLERANCE b" unfolding fmul_def
      using hi tol by (intro rnd_mono) (simp add: mult.commute)
    moreover have "rnd (b - a) \<le> fmul RELATIVE_TOLERANCE b" unfolding fmul_def
      using lo tol by (intro rnd_mono) (simp add: mult.commute)
    moreover have "rnd (b - a) = - rnd (a - b)" by (metis minus_diff_eq rnd_minus)
    ultimately show ?thesis using False assms(4) by (simp add: closeEnough_def fsub_def abs_le_iff)
  qed
qed

text \<open>
  The deviation of a population over its distinct values, as the histogram has it, and over the sorted
  values one by one, as the recomputation has it.
\<close>

definition plain_stddev :: "int list \<Rightarrow> rat" where
  "plain_stddev vs = (let n = int (length vs); mean = fdiv (of_int (fold (+) vs 0)) (of_int n)
     in fsqrt (fdiv (foldl (\<lambda>squares v. fadd squares (fmul (fsub (of_int v) mean) (fsub (of_int v) mean))) 0 vs) (of_int n)))"

lemma sum_expanded:
  "(\<And>v. v \<in> set ks \<Longrightarrow> 0 \<le> cnt v) \<Longrightarrow>
    sum_list (map f (concat (map (\<lambda>v. replicate (nat (cnt v)) v) ks))) = (\<Sum>v \<leftarrow> ks. of_int (cnt v) * (f v :: rat))"
  by (induction ks) (simp_all add: sum_list_replicate)

lemma fold_plus_list: "fold (+) xs (a :: int) = a + sum_list xs"
  by (induction xs arbitrary: a) simp_all

lemma stddevs_close:
  assumes "M \<noteq> {#}" and "size M \<le> 8000000" and "\<And>v. v \<in># M \<Longrightarrow> 0 \<le> v"
  shows "closeEnough (mset_stddev M) (plain_stddev (sorted_list_of_multiset M))"
proof -
  define h where "h = fold hist_record (sorted_list_of_multiset M) new_histogram"
  define L where "L = sorted_list_of_multiset M"
  have h: "hist_rep h M" unfolding h_def using hist.rep_list [of "sorted_list_of_multiset M"] assms(3) by (simp add: list_all_iff)
  define n where "n = int (size M)"
  define mean where "mean = fdiv (of_int (sum_mset M)) (of_int n)"
  define f where "f v = fsub (of_int v) mean * fsub (of_int v) mean" for v
  define Q where "Q = sum_list (map f L)"
  have n: "0 < n" "n \<le> 2 ^ 52" "int (length L) = n" "size M = length L"
  proof -
    show "size M = length L" unfolding L_def by (metis mset_sorted_list_of_multiset size_mset)
    then show "int (length L) = n" by (simp add: n_def)
    show "0 < n" using assms(1) by (simp add: n_def nonempty_has_size [symmetric])
    show "n \<le> 2 ^ 52" using assms(2) by (simp add: n_def)
  qed
  have "0 \<le> sum_list L" using assms(3) by (intro sum_list_nonneg) (simp add: L_def)
  moreover have "sum_mset M = sum_list L" by (simp add: L_def flip: sum_mset_sum_list)
  ultimately have "0 \<le> sum_mset M" by simp
  from deviation_size [OF this n(1,2)] have dev: "figure_size 105 \<bar>fsub (of_int v) mean\<bar>" for v by (simp add: mean_def)
  have f: "0 \<le> f v" for v by (simp add: f_def)
  have Q: "0 \<le> Q" unfolding Q_def by (intro sum_list_nonneg) (auto simp: f)
  have sorted: "near (2 + length L) Q (foldl (\<lambda>a v. fadd a (fmul (fsub (of_int v) mean) (fsub (of_int v) mean))) 0 L) \<and>
      figure_size 210 (foldl (\<lambda>a v. fadd a (fmul (fsub (of_int v) mean) (fsub (of_int v) mean))) 0 L)"
    using near_sum [of L 1 f "\<lambda>v. fmul (fsub (of_int v) mean) (fsub (of_int v) mean)" 210 2 0 0] square_near [OF dev] f
    by (simp add: f_def Q_def figure_size_def)
  define ks where "ks = hist_keys h"
  have cnt: "0 \<le> countAt h v" for v using h by (simp add: hist_rep_def)
  define g where "g v = fmul (fmul (of_int (countAt h v)) (fsub (of_int v) mean)) (fsub (of_int v) mean)" for v
  have keyed: "near (2 + length ks) (sum_list (map (\<lambda>v. of_int (countAt h v) * f v) ks)) (foldl (\<lambda>a v. fadd a (g v)) 0 ks) \<and>
      figure_size 210 (foldl (\<lambda>a v. fadd a (g v)) 0 ks)"
    using near_sum [of ks 2 "\<lambda>v. of_int (countAt h v) * f v" g 210 2 0 0] weighted_square_near [OF dev cnt] f cnt
    by (simp add: f_def g_def figure_size_def)
  have "Q = sum_list (map (\<lambda>v. of_int (countAt h v) * f v) ks)"
    using sum_expanded [of ks "countAt h" f] cnt hist_rep_expand [OF h] by (simp add: Q_def L_def hist_expand_def ks_def)
  with keyed have keyed': "near (2 + length ks) Q (foldl (\<lambda>a v. fadd a (g v)) 0 ks)" "figure_size 210 (foldl (\<lambda>a v. fadd a (g v)) 0 ks)"
    by simp_all
  have "length ks = card (set_mset M)" using hist_rep_keys [OF h] by (simp add: ks_def)
  also have "\<dots> = card (set L)" by (simp add: L_def)
  finally have ks: "length ks \<le> length L" by (simp add: card_length)
  have a: "mset_stddev M = fsqrt (fdiv (foldl (\<lambda>a v. fadd a (g v)) 0 ks) (of_int n))"
    using h n(1) unfolding mset_stddev_def h_def [symmetric]
    by (auto simp: hist_variance_def hist_rep_def ks_def g_def mean_def n_def Let_def)
  have b: "plain_stddev L = fsqrt (fdiv (foldl (\<lambda>a v. fadd a (fmul (fsub (of_int v) mean) (fsub (of_int v) mean))) 0 L) (of_int n))"
  proof -
    have "fold (+) L 0 = sum_mset M" by (simp add: fold_plus_list L_def flip: sum_mset_sum_list)
    then show ?thesis by (simp add: plain_stddev_def Let_def mean_def n(3))
  qed
  have "near (2 + length L) Q (foldl (\<lambda>a v. fadd a (g v)) 0 ks)" using near_mono [OF keyed'(1) _ Q] ks by simp
  from deviation_near [OF this keyed'(2) Q n(1,2)] deviation_near [OF sorted [THEN conjunct1] sorted [THEN conjunct2] Q n(1,2)]
  show ?thesis unfolding a [symmetric] b [symmetric] L_def [symmetric]
    using fsqrt_nonneg Q n assms(2) by (intro roots_closeEnough [of "2 + length L + 4" "Q / of_int n"]) (simp_all add: a b)
qed

end
