(* ===== verification/VerifyStats.thy ===== *)
theory VerifyStats
  imports VerifyMatch FloatError EngineResult
begin

text \<open>
  The rows recomputed from the events hold the populations that the engine's rows hold, in the same order;
  every figure of the two agrees, the standard deviation up to the order of its sums.
\<close>

section \<open>Identities as strings\<close>

definition scope_of :: "jstr \<Rightarrow> metric_scope" where
  "scope_of s = (if s = js ''run'' then Run else if s = js ''group'' then Group else if s = js ''request'' then Request else Scenario)"

definition family_of :: "jstr \<Rightarrow> metric_family" where
  "family_of f = (if f = js ''response_time'' then ResponseTimeF else if f = js ''latency'' then Latency
     else if f = js ''group_cumulated'' then GroupCumulated else GroupDuration)"

lemma scope_of_js [simp]: "scope_of (scope_js s) = s"
  by (cases s) (simp_all add: scope_of_def)

lemma family_of_js [simp]: "family_of (family_js f) = f"
  by (cases f) (simp_all add: family_of_def)

lemma nul_free [simp]: "nul \<notin> set (scope_js s)" "nul \<notin> set (family_js f)"
  by (cases s; simp add: nul_def) (cases f; simp add: nul_def)

fun nul_key :: "row_id \<Rightarrow> jstr" where
  "nul_key (s, n, f) = row_key3 (scope_js s) n (family_js f)"

lemma nul_key_inj: "nul_key i = nul_key j \<Longrightarrow> i = j"
proof -
  assume eq: "nul_key i = nul_key j"
  obtain s n f s' n' f' where ij: "i = (s, n, f)" "j = (s', n', f')" by (cases i, cases j) blast
  from eq have "scope_js s @ nul # (n @ nul # family_js f) = scope_js s' @ nul # (n' @ nul # family_js f')"
    by (simp add: ij row_key3_def)
  from append_sep_eq_left [OF this] have "s = s'" "n @ nul # family_js f = n' @ nul # family_js f'" by simp_all
  with append_sep_eq_right [OF this(2)] show "i = j" by (simp add: ij)
qed

section \<open>The rows after the events\<close>

definition row_ident :: "row_acc \<Rightarrow> row_id" where
  "row_ident a = (scope_of (ra_scope a), ra_name a, family_of (ra_family a))"

fun fresh_row :: "row_id \<Rightarrow> row_acc" where
  "fresh_row (s, n, f) = \<lparr>ra_scope = scope_js s, ra_name = n, ra_family = family_js f, ra_values = [], ra_ok = 0\<rparr>"

definition row_add :: "int \<times> bool \<Rightarrow> row_acc \<Rightarrow> row_acc option" where
  "row_add x a = Some (a\<lparr>ra_values := ra_values a @ [observed (fst x)], ra_ok := (if snd x then ra_ok a + 1 else ra_ok a)\<rparr>)"

definition row_acc_rep :: "row_acc \<Rightarrow> (int \<times> bool) list \<Rightarrow> bool" where
  "row_acc_rep a xs \<longleftrightarrow> ra_values a = map (observed \<circ> fst) xs \<and> ra_ok a = int (length (filter snd xs)) \<and>
     ra_scope a = scope_js (fst (row_ident a)) \<and> ra_family a = family_js (snd (snd (row_ident a)))"

interpretation vr: keyed nul_key row_ident fresh_row row_add row_acc_rep "\<lambda>_ _. True"
proof unfold_locales
  fix i show "row_ident (fresh_row i) = i" by (cases i) (simp add: row_ident_def)
  show "row_acc_rep (fresh_row i) []" by (cases i) (simp add: row_acc_rep_def row_ident_def)
next
  fix en xs x
  assume "row_acc_rep en xs"
  then show "\<exists>en'. row_add x en = Some en' \<and> row_ident en' = row_ident en \<and> row_acc_rep en' (xs @ [x])"
    by (auto simp: row_add_def row_acc_rep_def row_ident_def)
qed (rule nul_key_inj)

lemma verify_add_upsert:
  "Some (verify_add (scope_js s) n (family_js f) (observed d) ok rows) = upsert nul_key fresh_row row_add (s, n, f) (d, ok) rows"
  by (simp add: verify_add_def upsert_def row_add_def Let_def split: option.splits)

lemma verify_add_rep:
  "vr.keyed_rep rows L \<Longrightarrow> vr.keyed_rep (verify_add (scope_js s) n (family_js f) (observed d) ok rows) (L @ [((s, n, f), (d, ok))])"
  using vr.keyed_upsert [of rows L "(s, n, f)" "(d, ok)"] verify_add_upsert [of s n f d ok rows] by auto

text \<open>Warm-up, window and span, over the requests.\<close>

definition opts_for :: "engine_config \<Rightarrow> int \<Rightarrow> verify_options \<Rightarrow> bool" where
  "opts_for c st opts \<longleftrightarrow> vp_runStartMs opts = st \<and> vp_warmupMs opts = ec_warmupMs c \<and> vp_percentiles opts = ec_percentiles c \<and>
     vp_maxBucketsRun opts = ec_maxBucketsRun c \<and> vp_maxBucketsEndpoint opts = ec_maxBucketsEndpoint c"

lemma opts_warmup: "opts_for c st opts \<Longrightarrow> verify_isWarmup opts t = isWarmup t st (ec_warmupMs c)"
  by (simp add: opts_for_def verify_isWarmup_def isWarmup_def)

definition scan_rep :: "engine_config \<Rightarrow> int \<Rightarrow> canonical_event list \<Rightarrow> verify_scan \<Rightarrow> bool" where
  "scan_rep c st evs s \<longleftrightarrow> (let rs = gather requests_in evs in
     vr.keyed_rep (vs_rows s) (gather (row_obs st (ec_warmupMs c)) evs) \<and> vs_sawRequest s = (rs \<noteq> []) \<and>
     vs_firstMs s = (if rs = [] then None else Some (Min (set (map rq_startMs rs)))) \<and>
     vs_lastMs s = Max (insert 0 (set (map rq_endMs rs))))"

lemma literals: "js ''run'' = scope_js Run" "js ''request'' = scope_js Request" "js ''group'' = scope_js Group"
  "js ''response_time'' = family_js ResponseTimeF" "js ''group_cumulated'' = family_js GroupCumulated"
  "js ''group_duration'' = family_js GroupDuration"
  by simp_all

lemma scan_step:
  assumes "opts_for c st opts" and "scan_rep c st evs s"
  shows "scan_rep c st (evs @ [ev]) (scan_event opts ev s)"
proof (cases ev)
  case (RequestE r)
  define s1 where "s1 = s\<lparr>vs_sawRequest := True,
          vs_firstMs := (case vs_firstMs s of None \<Rightarrow> Some (rq_startMs r)
            | Some f \<Rightarrow> if rq_startMs r < f then Some (rq_startMs r) else Some f),
          vs_lastMs := (if vs_lastMs s < rq_endMs r then rq_endMs r else vs_lastMs s)\<rparr>"
  define rs where "rs = gather requests_in evs"
  define R where "R = gather (row_obs st (ec_warmupMs c)) evs"
  have old: "vr.keyed_rep (vs_rows s) R" "vs_firstMs s = (if rs = [] then None else Some (Min (set (map rq_startMs rs))))"
    "vs_lastMs s = Max (insert 0 (set (map rq_endMs rs)))"
    using assms(2) unfolding scan_rep_def Let_def rs_def [symmetric] R_def [symmetric] by blast+
  have first: "vs_firstMs s1 = Some (Min (set (map rq_startMs (rs @ [r]))))"
  proof (cases "rs = []")
    case False
    then have "Min (insert (rq_startMs r) (rq_startMs ` set rs)) = min (rq_startMs r) (Min (rq_startMs ` set rs))"
      by (intro Min_insert) simp_all
    then have "Min (set (map rq_startMs (rs @ [r]))) = min (rq_startMs r) (Min (set (map rq_startMs rs)))" by simp
    moreover define m where "m = Min (set (map rq_startMs rs))"
    moreover have "vs_firstMs s = Some m" using old(2) False by (simp add: m_def)
    ultimately show ?thesis unfolding m_def [symmetric] by (simp add: s1_def min_def)
  qed (use old(2) in \<open>simp add: s1_def\<close>)
  have "Max (insert 0 (set (map rq_endMs (rs @ [r])))) = Max (insert (rq_endMs r) (insert 0 (set (map rq_endMs rs))))"
    by (simp add: insert_commute)
  also have "\<dots> = max (rq_endMs r) (Max (insert 0 (set (map rq_endMs rs))))" by (rule Max_insert) simp_all
  finally have eq: "Max (insert 0 (set (map rq_endMs (rs @ [r])))) = max (rq_endMs r) (vs_lastMs s)" unfolding old(3) .
  have last: "vs_lastMs s1 = Max (insert 0 (set (map rq_endMs (rs @ [r]))))"
    unfolding eq by (simp add: s1_def max_def)
  have s1: "vs_rows s1 = vs_rows s" "vs_sawRequest s1" by (simp_all add: s1_def)
  define s2 where "s2 = scan_event opts ev s"
  have rows: "vr.keyed_rep (vs_rows s2) (R @ row_obs st (ec_warmupMs c) ev)"
  proof (cases "isWarmup (rq_startMs r) st (ec_warmupMs c)")
    case True
    then show ?thesis using old(1) by (simp add: s2_def RequestE s1_def opts_warmup [OF assms(1)])
  next
    case False
    have "vr.keyed_rep (verify_add (scope_js Request) (request_path r) (family_js ResponseTimeF) (observed (request_ms r)) (rq_ok r)
        (verify_add (scope_js Run) [] (family_js ResponseTimeF) (observed (request_ms r)) (rq_ok r) (vs_rows s)))
      ((R @ [((Run, [], ResponseTimeF), (request_ms r, rq_ok r))]) @ [((Request, request_path r, ResponseTimeF), (request_ms r, rq_ok r))])"
      by (intro verify_add_rep old(1))
    then show ?thesis using False
      by (simp add: s2_def RequestE Let_def opts_warmup [OF assms(1)] request_path_def request_ms_def)
  qed
  have "vs_sawRequest s2 = vs_sawRequest s1" "vs_firstMs s2 = vs_firstMs s1" "vs_lastMs s2 = vs_lastMs s1"
    by (simp_all add: s2_def s1_def RequestE Let_def)
  with rows first last s1(2) show ?thesis
    unfolding s2_def [symmetric] scan_rep_def Let_def by (simp add: RequestE rs_def R_def)
next
  case (GroupE g)
  define R where "R = gather (row_obs st (ec_warmupMs c)) evs"
  define s2 where "s2 = scan_event opts ev s"
  have old: "vr.keyed_rep (vs_rows s) R" using assms(2) by (simp add: scan_rep_def Let_def R_def)
  have rows: "vr.keyed_rep (vs_rows s2) (R @ row_obs st (ec_warmupMs c) ev)"
  proof (cases "isWarmup (gr_startMs g) st (ec_warmupMs c)")
    case True
    then show ?thesis using old by (simp add: s2_def GroupE opts_warmup [OF assms(1)])
  next
    case False
    have "vr.keyed_rep (verify_add (scope_js Group) (group_name g) (family_js GroupDuration) (observed (gr_endMs g - gr_startMs g)) (gr_ok g)
        (verify_add (scope_js Group) (group_name g) (family_js GroupCumulated) (observed (gr_cumulatedResponseTimeMs g)) (gr_ok g) (vs_rows s)))
      ((R @ [((Group, group_name g, GroupCumulated), (gr_cumulatedResponseTimeMs g, gr_ok g))]) @
        [((Group, group_name g, GroupDuration), (gr_endMs g - gr_startMs g, gr_ok g))])"
      by (intro verify_add_rep old)
    then show ?thesis using False by (simp add: s2_def GroupE Let_def opts_warmup [OF assms(1)] group_name_def)
  qed
  have "vs_sawRequest s2 = vs_sawRequest s" "vs_firstMs s2 = vs_firstMs s" "vs_lastMs s2 = vs_lastMs s"
    by (simp_all add: s2_def GroupE Let_def)
  with rows assms(2) show ?thesis
    unfolding s2_def [symmetric] scan_rep_def Let_def by (simp add: GroupE R_def)
qed (use assms(2) in \<open>simp_all add: scan_rep_def Let_def\<close>)

lemma scan_events_rep: "opts_for c st opts \<Longrightarrow> scan_rep c st evs (scan_events opts evs)"
proof (induction evs rule: rev_induct)
  case Nil
  then show ?case by (simp add: scan_events_def scan_rep_def vr.keyed_rep_Nil)
next
  case (snoc ev evs)
  then show ?case using scan_step [of c st opts evs "scan_events opts evs" ev] by (simp add: scan_events_def)
qed

section \<open>Figures of a population\<close>

text \<open>The two nearest-rank formulas agree while the scaled percentile is exact.\<close>

lemma rank_up_ge: "\<lceil>of_int numerator / (of_int (100 * 10 ^ d) :: rat)\<rceil> \<le> rank_up numerator d rank"
proof (induction numerator d rank rule: rank_up.induct)
  case (1 numerator decimals rank)
  show ?case
  proof (cases "rank * (100 * 10 ^ decimals) < numerator")
    case True
    then show ?thesis using 1 by (simp add: rank_up.simps [of numerator decimals rank])
  next
    case False
    then have "numerator \<le> rank * (100 * 10 ^ decimals)" by simp
    then have "(of_int numerator :: rat) \<le> of_int (rank * (100 * 10 ^ decimals))" by (simp only: of_int_le_iff)
    then have "of_int numerator / (of_int (100 * 10 ^ decimals) :: rat) \<le> of_int rank" by (simp add: divide_le_eq)
    then show ?thesis using False by (simp add: rank_up.simps [of numerator decimals rank] ceiling_le_iff)
  qed
qed

lemma rank_down_eq:
  assumes "\<lceil>of_int numerator / (of_int (100 * 10 ^ d) :: rat)\<rceil> \<le> rank" and "0 \<le> numerator"
  shows "rank_down numerator d rank = \<lceil>of_int numerator / (of_int (100 * 10 ^ d) :: rat)\<rceil>"
  using assms
proof (induction numerator d rank rule: rank_down.induct)
  case (1 numerator d rank)
  let ?q = "of_int numerator / (of_int (100 * 10 ^ d) :: rat)"
  have iff: "numerator \<le> (rank - 1) * (100 * 10 ^ d) \<longleftrightarrow> \<lceil>?q\<rceil> \<le> rank - 1"
  proof -
    have "numerator \<le> (rank - 1) * (100 * 10 ^ d) \<longleftrightarrow> (of_int numerator :: rat) \<le> of_int ((rank - 1) * (100 * 10 ^ d))"
      by (simp only: of_int_le_iff)
    also have "\<dots> \<longleftrightarrow> ?q \<le> of_int (rank - 1)" by (simp add: divide_le_eq)
    finally show ?thesis by (simp only: ceiling_le_iff)
  qed
  have nonneg: "0 \<le> ?q" using 1(3) by simp
  show ?case
  proof (cases "0 < rank \<and> numerator \<le> (rank - 1) * (100 * 10 ^ d)")
    case True
    then show ?thesis using 1 iff by (simp add: rank_down.simps [of numerator d rank])
  next
    case False
    then have "rank \<le> \<lceil>?q\<rceil>" using iff nonneg by linarith
    then have "rank = \<lceil>?q\<rceil>" using 1(2) by simp
    moreover have "rank_down numerator d rank = rank" using False by (subst rank_down.simps) auto
    ultimately show ?thesis by simp
  qed
qed

lemma verified_rank_index_eq:
  assumes "0 \<le> p" and "p \<le> 100" and "0 < n" and "n \<le> 2 ^ 53" and "rank_safe p n"
  shows "verified_rank_index p n = rank_index p n"
proof -
  let ?num = "rank_num p * n" and ?d = "rank_decimals p"
  have num: "js_round (fmul p (of_int (10 ^ ?d))) * n = ?num" by (simp add: rank_num_def)
  have "0 \<le> ?num" using assms(5) by (simp add: rank_safe_def)
  then have "rank_down ?num ?d (rank_up ?num ?d x) = \<lceil>of_int ?num / (of_int (100 * 10 ^ ?d) :: rat)\<rceil>" for x
    using rank_down_eq [OF rank_up_ge] by blast
  moreover have "rank_index p n = min n (max 1 \<lceil>of_int ?num / (of_int (100 * 10 ^ ?d) :: rat)\<rceil>) - 1"
    using nearestRankIndex_exact [OF assms(3,4,1,2,5)] by (simp add: rank_index_def)
  ultimately show ?thesis using assms(3) unfolding verified_rank_index_def Let_def num by auto
qed

text \<open>Percentiles that stay exact on up to \<open>N\<close> values.\<close>

definition ranks_safe :: "int \<Rightarrow> rat list \<Rightarrow> bool" where
  "ranks_safe N ps \<longleftrightarrow> N \<le> 2 ^ 53 \<and> list_all (\<lambda>p. in_range p \<and> 0 \<le> rank_num p \<and> rank_num p * N < 2 ^ 53 \<and>
     rank_num p \<le> 2 ^ 53 \<and> rank_decimals p \<le> 13) ps"

lemma ranks_safe_at:
  assumes "ranks_safe N ps" and "p \<in> set ps" and "0 < n" and "n \<le> N"
  shows "verified_rank_index p n = rank_index p n"
proof -
  have p: "in_range p" "0 \<le> rank_num p" "rank_num p * N < 2 ^ 53" "rank_num p \<le> 2 ^ 53" "rank_decimals p \<le> 13" "N \<le> 2 ^ 53"
    using assms(1,2) by (auto simp: ranks_safe_def list_all_iff)
  have "rank_num p * n \<le> rank_num p * N" using assms(4) p(2) by (intro mult_left_mono)
  then have "rank_safe p n" using p assms(3) by (simp add: rank_safe_def)
  then show ?thesis using p(1,6) assms(3,4) by (intro verified_rank_index_eq) (simp_all add: in_range_def)
qed

lemma put_all: "put_percentiles ps (map (\<lambda>p. Some (f p)) ps) = fold (\<lambda>p. jm_set (pkey p) (f p)) ps []"
proof -
  have "fold (\<lambda>(p, v) out. case v of Some x \<Rightarrow> jm_set (pkey p) x out | None \<Rightarrow> out) (zip ps (map (\<lambda>p. Some (f p)) ps)) out =
      fold (\<lambda>p. jm_set (pkey p) (f p)) ps out" for out
    by (induction ps arbitrary: out) simp_all
  then show ?thesis by (simp add: put_percentiles_def)
qed

lemma sorted_of_mset: "js_sort (cmp_by id) vs = sorted_list_of_multiset (mset vs)"
  by (metis js_sort_id sorted_list_of_multiset_mset)

lemma ranked_population:
  assumes "ranks_safe N ps" and "vs \<noteq> []" and "int (length vs) \<le> N"
  shows "fold (\<lambda>p. jm_set (pkey p) (js_sort (cmp_by id) vs ! nat (verified_rank_index p (int (length vs))))) ps [] =
    population_percentiles ps (mset vs)"
proof -
  have "mset vs \<noteq> {#}" using assms(2) by simp
  then have "population_percentiles ps (mset vs) =
      fold (\<lambda>p. jm_set (pkey p) (sorted_list_of_multiset (mset vs) ! nat (rank_index p (int (length vs))))) ps []"
    unfolding population_percentiles_def by (simp only: if_False put_all size_mset)
  moreover have "fold (\<lambda>p. jm_set (pkey p) (js_sort (cmp_by id) vs ! nat (verified_rank_index p (int (length vs))))) ps [] =
      fold (\<lambda>p. jm_set (pkey p) (sorted_list_of_multiset (mset vs) ! nat (rank_index p (int (length vs))))) ps []"
    unfolding sorted_of_mset using ranks_safe_at [OF assms(1)] assms(2,3) by (intro fold_cong) auto
  ultimately show ?thesis by simp
qed

section \<open>Row by row\<close>

definition same_but_stddev :: "expected_stat \<Rightarrow> expected_stat \<Rightarrow> bool" where
  "same_but_stddev e s \<longleftrightarrow> e\<lparr>xt_stddevMs := 0\<rparr> = s\<lparr>xt_stddevMs := 0\<rparr>"

lemma part_values: "ok_part (as_durations xs) = mset (map (observed \<circ> fst) (filter snd xs))"
  "ko_part (as_durations xs) = mset (map (observed \<circ> fst) (filter (\<lambda>x. \<not> snd x) xs))"
  by (induction xs) (auto simp: ok_part_def ko_part_def as_durations_def observed_def clampMs_def)

lemma pops_values: "pop_ok xs + pop_ko xs = mset (map (observed \<circ> fst) xs)"
proof -
  have "mset (map f (filter P xs)) + mset (map f (filter (\<lambda>x. \<not> P x) xs)) = mset (map f xs)" for f :: "int \<times> bool \<Rightarrow> int" and P
    by (induction xs) auto
  then show ?thesis by (simp add: pop_ok_def pop_ko_def part_values)
qed

lemma fold_plus: "fold (+) xs (a :: int) = a + sum_list xs"
  by (induction xs arbitrary: a) simp_all

lemma extremes:
  assumes "vs \<noteq> []"
  shows "js_sort (cmp_by id) vs ! 0 = Min_mset (mset vs)" "js_sort (cmp_by id) vs ! (length vs - 1) = Max_mset (mset vs)"
proof -
  have "length (sort vs) = length vs" by simp
  with assms have s: "sorted (sort vs)" "sort vs \<noteq> []" "length (sort vs) = length vs" by (auto simp del: length_sort)
  have ends: "hd (sort vs) = Min (set (sort vs))" "last (sort vs) = Max (set (sort vs))"
    using sorted_ends [OF s(1,2)] by blast+
  show "js_sort (cmp_by id) vs ! 0 = Min_mset (mset vs)" using ends(1) s(2) by (simp add: js_sort_id hd_conv_nth)
  show "js_sort (cmp_by id) vs ! (length vs - 1) = Max_mset (mset vs)"
    using ends(2) s(2,3) by (simp add: js_sort_id last_conv_nth)
qed

lemma row_figures:
  assumes "row_acc_rep a xs" and "row_for windowMs ps R i row" and "obs_of i R = xs" and "row_ident a = i"
    and "xs \<noteq> []" and "ranks_safe N ps" and "int (length xs) \<le> N"
  shows "same_but_stddev (statOf a windowMs ps) (stat_columns row)"
proof -
  let ?vs = "ra_values a" and ?A = "pop_ok xs + pop_ko xs"
  have vs: "?vs = map (observed \<circ> fst) xs" "ra_ok a = int (length (filter snd xs))" using assms(1) by (simp_all add: row_acc_rep_def)
  have A: "mset ?vs = ?A" by (simp add: vs(1) pops_values)
  have ne: "?vs \<noteq> []" "?A \<noteq> {#}" using assms(5) A by (simp_all add: vs(1) flip: A)
  have n: "int (size ?A) = int (length ?vs)" using A by (metis size_mset)
  obtain ok ko where row: "row = row_of (fst i) (fst (snd i)) (snd (snd i)) windowMs ps (pop_ok xs) (pop_ko xs) ok ko"
    using assms(2,3) by (auto simp: row_for_def)
  have ident: "scope_js (fst i) = ra_scope a" "fst (snd i) = ra_name a" "family_js (snd (snd i)) = ra_family a"
    using assms(1,4) by (auto simp: row_acc_rep_def row_ident_def)
  have ko: "int (length ?vs) - ra_ok a = int (size (pop_ko xs))"
    using pop_sizes [of xs] by (simp add: vs)
  have pcts: "fold (\<lambda>p. jm_set (pkey p) (js_sort (cmp_by id) ?vs ! nat (verified_rank_index p (int (length ?vs))))) ps [] =
      population_percentiles ps ?A"
    using ranked_population [OF assms(6) ne(1)] assms(7) unfolding A by (simp add: vs(1))
  have sum: "fold (+) (js_sort (cmp_by id) ?vs) 0 = sum_mset ?A"
  proof -
    have "fold (+) (js_sort (cmp_by id) ?vs) 0 = sum_mset (mset (js_sort (cmp_by id) ?vs))"
      by (simp add: fold_plus sum_mset_sum_list del: mset_js_sort)
    then show ?thesis by (simp add: A)
  qed
  define A where "A = ?A"
  have A': "A \<noteq> {#}" "int (size A) = int (length ?vs)" "length ?vs \<noteq> 0" using ne n by (simp_all add: A_def)
  have sizes: "int (size (pop_ok xs)) = ra_ok a" "int (size (pop_ko xs)) = int (length ?vs) - ra_ok a"
    using ko vs(2) pop_sizes(1) [of xs] by simp_all
  show ?thesis
    unfolding same_but_stddev_def statOf_def Let_def stat_columns_def row row_of_def length_js_sort pcts sum
      extremes [OF ne(1)] A sizes A_def [symmetric] A'(2) ident
    using A'(1,3) ident by simp
qed

lemma row_stddev:
  assumes "row_acc_rep a xs" and "row_for windowMs ps R i row" and "obs_of i R = xs" and "xs \<noteq> []" and "length xs \<le> 8000000"
  shows "closeEnough (xt_stddevMs (stat_columns row)) (xt_stddevMs (statOf a windowMs ps))"
proof -
  let ?A = "pop_ok xs + pop_ko xs"
  have vs: "ra_values a = map (observed \<circ> fst) xs" using assms(1) by (simp add: row_acc_rep_def)
  have A: "mset (ra_values a) = ?A" by (simp add: vs pops_values)
  have "?A \<noteq> {#}" "size ?A \<le> 8000000" using assms(4,5) by (simp_all add: vs flip: A)
  moreover have "0 \<le> v" if "v \<in># ?A" for v using that unfolding A [symmetric] vs by (auto simp: observed_def)
  ultimately have "closeEnough (mset_stddev ?A) (plain_stddev (sorted_list_of_multiset ?A))" by (rule stddevs_close)
  moreover obtain ok ko where "row = row_of (fst i) (fst (snd i)) (snd (snd i)) windowMs ps (pop_ok xs) (pop_ko xs) ok ko"
    using assms(2,3) by (auto simp: row_for_def)
  moreover have "js_sort (cmp_by id) (ra_values a) = sorted_list_of_multiset ?A" by (simp only: sorted_of_mset A)
  ultimately show ?thesis by (simp add: stat_columns_def row_of_def statOf_def plain_stddev_def Let_def)
qed

section \<open>The table\<close>

lemma one_observation: "length (obs_of i (row_obs st wu ev)) \<le> 1"
  by (cases ev) (auto simp: obs_of_def)

lemma observations_bounded: "length (obs_of i (gather (row_obs st wu) evs)) \<le> length evs"
proof (induction evs)
  case (Cons ev evs)
  then show ?case using one_observation [of i st wu ev] by (simp add: obs_of_append)
qed (simp add: obs_of_def)

lemma window_same:
  assumes "scan_rep c st evs s" and "opts_for c st opts" and "0 \<le> st + ec_warmupMs c"
  shows "verify_window opts s = window_of c st (gather requests_in evs)"
proof -
  define rs where "rs = gather requests_in evs"
  have s: "vs_sawRequest s = (rs \<noteq> [])" "vs_firstMs s = (if rs = [] then None else Some (Min (set (map rq_startMs rs))))"
    "vs_lastMs s = Max (insert 0 (set (map rq_endMs rs)))"
    using assms(1) unfolding scan_rep_def Let_def rs_def [symmetric] by blast+
  have "max 0 (0 - max x (st + ec_warmupMs c)) = 0" for x using assms(3) by linarith
  then show ?thesis using assms(2) unfolding rs_def [symmetric]
    by (simp add: verify_window_def window_of_def s opts_for_def)
qed

lemma stats_pairs:
  assumes "result_rep lc c m evs res" and "opts_for c (me_startedAtMs m) opts" and "0 \<le> me_startedAtMs m + ec_warmupMs c"
    and "ranks_safe N (ec_percentiles c)" and "int (length evs) \<le> N" and "length evs \<le> 8000000"
  obtains E S L where "distinct L" "mset (expectedStats evs opts) = mset (map E L)" "map stat_columns (xr_stats res) = map S L"
    "\<And>i. i \<in> set L \<Longrightarrow> stat_key (E i) = nul_key i \<and> stat_key (S i) = nul_key i \<and> same_but_stddev (E i) (S i) \<and>
      closeEnough (xt_stddevMs (S i)) (xt_stddevMs (E i))"
proof -
  let ?st = "me_startedAtMs m" and ?R = "gather (row_obs (me_startedAtMs m) (ec_warmupMs c)) evs"
  define s where "s = scan_events opts evs"
  have scan: "scan_rep c ?st evs s" unfolding s_def by (rule scan_events_rep [OF assms(2)])
  have w: "verify_window opts s = window_of c ?st (gather requests_in evs)" by (rule window_same [OF scan assms(2,3)])
  have keyed: "vr.keyed_rep (vs_rows s) ?R" using scan by (simp add: scan_rep_def Let_def)
  have ps: "vp_percentiles opts = ec_percentiles c" using assms(2) by (simp add: opts_for_def)
  have rows: "list_all2 (row_for (window_of c ?st (gather requests_in evs)) (ec_percentiles c) ?R) (first_seen (map fst ?R)) (xr_stats res)"
    using assms(1) by (simp add: result_rep_def Let_def)
  define L where "L = first_seen (map fst ?R)"
  have len: "length L = length (vs_rows s)" "length L = length (xr_stats res)"
    using keyed rows by (metis L_def vr.keyed_rep_def length_map, simp add: L_def list_all2_lengthD)
  have dist: "distinct L" by (simp add: L_def)
  define a where "a i = (THE r. \<exists>k < length L. L ! k = i \<and> r = snd (vs_rows s ! k))" for i
  define b where "b i = (THE r. \<exists>k < length L. L ! k = i \<and> r = xr_stats res ! k)" for i
  have a: "a (L ! k) = snd (vs_rows s ! k)" and b: "b (L ! k) = xr_stats res ! k" if "k < length L" for k
    using that dist unfolding a_def b_def by (auto simp: nth_eq_iff_index_eq intro!: the_equality)
  let ?E = "\<lambda>i. statOf (a i) (window_of c ?st (gather requests_in evs)) (ec_percentiles c)" and ?S = "\<lambda>i. stat_columns (b i)"
  have "map (\<lambda>(_, r). statOf r (verify_window opts s) (vp_percentiles opts)) (vs_rows s) = map ?E L"
    using len(1) a by (auto simp: list_eq_iff_nth_eq w ps case_prod_beta)
  then have E: "mset (expectedStats evs opts) = mset (map ?E L)"
    unfolding expectedStats_def Let_def s_def [symmetric] by (simp only: mset_js_sort)
  have S: "map stat_columns (xr_stats res) = map ?S L" using len(2) b by (auto simp: list_eq_iff_nth_eq)
  have "stat_key (?E i) = nul_key i \<and> stat_key (?S i) = nul_key i \<and> same_but_stddev (?E i) (?S i) \<and>
      closeEnough (xt_stddevMs (?S i)) (xt_stddevMs (?E i))" if i: "i \<in> set L" for i
  proof -
    obtain k where k: "k < length L" "L ! k = i" using i by (auto simp: in_set_conv_nth)
    have "vs_rows s ! k \<in> set (vs_rows s)" using k(1) len(1) by simp
    moreover have "row_ident (snd (vs_rows s ! k)) = i"
    proof -
      have "map (\<lambda>e. row_ident (snd e)) (vs_rows s) = L" using keyed by (simp add: vr.keyed_rep_def L_def)
      then show ?thesis using k len(1) by (metis nth_map)
    qed
    ultimately have rep: "row_acc_rep (a i) (obs_of i ?R)" "row_ident (a i) = i"
      using keyed a [OF k(1)] by (auto simp: vr.keyed_rep_def k(2))
    have row: "row_for (window_of c ?st (gather requests_in evs)) (ec_percentiles c) ?R i (b i)"
      using list_all2_nthD [OF rows, of k] k by (simp add: L_def [symmetric] b [OF k(1), unfolded k(2)])
    have "i \<in> fst ` set ?R" using i by (simp add: L_def)
    then have "obs_of i ?R \<noteq> []" by (auto simp: obs_of_def filter_empty_conv)
    moreover have "int (length (obs_of i ?R)) \<le> N" using observations_bounded [of i ?st "ec_warmupMs c" evs] assms(5) by linarith
    ultimately have same: "same_but_stddev (?E i) (?S i)"
      using row_figures [OF rep(1) row refl rep(2) _ assms(4)] by blast
    have "length (obs_of i ?R) \<le> 8000000" using observations_bounded [of i ?st "ec_warmupMs c" evs] assms(6) by linarith
    with row_stddev [OF rep(1) row refl] \<open>obs_of i ?R \<noteq> []\<close>
    have close: "closeEnough (xt_stddevMs (?S i)) (xt_stddevMs (?E i))" by blast
    have "stat_key (?E i) = nul_key i"
      using rep by (cases i) (auto simp: stat_key_def statOf_def Let_def row_acc_rep_def row_ident_def)
    moreover have "stat_key (?S i) = nul_key i"
      using row_for_reads(1) [OF row] by (cases i) (simp add: stat_key_def stat_columns_def row_identity_def)
    ultimately show ?thesis using same close by blast
  qed
  with dist E S show thesis by (rule that)
qed

lemma same_but_stddev_reads:
  assumes "same_but_stddev e s"
  shows "xt_scope e = xt_scope s" "xt_name e = xt_name s" "xt_family e = xt_family s" "xt_count e = xt_count s"
    "xt_okCount e = xt_okCount s" "xt_koCount e = xt_koCount s" "xt_errorRate e = xt_errorRate s" "xt_minMs e = xt_minMs s"
    "xt_maxMs e = xt_maxMs s" "xt_meanMs e = xt_meanMs s" "xt_throughputRps e = xt_throughputRps s"
    "xt_percentiles e = xt_percentiles s"
  using assms by (cases e; cases s; simp add: same_but_stddev_def)+

lemma stat_both_writes:
  assumes "same_but_stddev e s" and "closeEnough (xt_stddevMs s) (xt_stddevMs e)"
  shows "writes_only P (stat_both e s)"
  unfolding stat_both_def Let_def same_but_stddev_reads [OF assms(1)]
  by (intro writes_only_comp writes_map writes_close writes_exact closeEnough_refl assms(2) refl) simp_all

section \<open>The comparison of rows and spans\<close>

lemma compareStats_writes:
  assumes "result_rep lc c m evs res" and "opts_for c (me_startedAtMs m) opts" and "0 \<le> me_startedAtMs m + ec_warmupMs c"
    and "ranks_safe N (ec_percentiles c)" and "int (length evs) \<le> N" and "length evs \<le> 8000000"
    and "mset (so_stats st) = mset (map stat_columns (xr_stats res))"
  shows "writes_only P (compareStats (expectedFrom lc evs opts) st)"
proof -
  obtain E S L where p: "distinct L" "mset (expectedStats evs opts) = mset (map E L)" "map stat_columns (xr_stats res) = map S L"
    "\<And>i. i \<in> set L \<Longrightarrow> stat_key (E i) = nul_key i \<and> stat_key (S i) = nul_key i \<and> same_but_stddev (E i) (S i) \<and>
      closeEnough (xt_stddevMs (S i)) (xt_stddevMs (E i))"
    by (rule stats_pairs [OF assms(1-6)]) (rule that)
  have S: "mset (so_stats st) = mset (map S L)" using assms(7) p(3) by simp
  show ?thesis unfolding compareStats_def
  proof (intro matchRows_writes)
    have "image_mset stat_key (mset (map E L)) = image_mset stat_key (mset (map S L))"
      using p(4) by (auto simp flip: mset_map intro!: arg_cong [where f = mset])
    then show "mset (map stat_key (ex_stats (expectedFrom lc evs opts))) = mset (map stat_key (so_stats st))"
      by (simp add: expectedFrom_def p(2) S)
  next
    fix e s assume es: "e \<in> set (ex_stats (expectedFrom lc evs opts))" "s \<in> set (so_stats st)" "stat_key e = stat_key s"
    have "e \<in> E ` set L" "s \<in> S ` set L"
      using es(1,2) mset_eq_setD [OF p(2)] mset_eq_setD [OF S] by (simp_all add: expectedFrom_def)
    then obtain i j where ij: "i \<in> set L" "e = E i" "j \<in> set L" "s = S j" by blast
    then have "i = j" using es(3) p(4) nul_key_inj by metis
    then show "writes_only P (stat_both e s)" using p(4) [OF ij(1)] ij by (intro stat_both_writes) auto
  qed
qed

lemma compareRun_writes:
  assumes "result_rep lc c m evs res" and "opts_for c (me_startedAtMs m) opts" and "0 \<le> me_startedAtMs m + ec_warmupMs c"
    and "so_durationMs st = JFin (of_int (xr_durationMs res))" and "so_activityMs st = JFin (of_int (xr_activityMs res))"
  shows "writes_only P (compareRun (expectedFrom lc evs opts) st)"
proof -
  define s where "s = scan_events opts evs"
  have scan: "scan_rep c (me_startedAtMs m) evs s" unfolding s_def by (rule scan_events_rep [OF assms(2)])
  have "vp_runStartMs opts = me_startedAtMs m" using assms(2) by (simp add: opts_for_def)
  moreover have "vs_lastMs s = Max (insert 0 (set (map rq_endMs (gather requests_in evs))))"
    using scan by (simp only: scan_rep_def Let_def)
  moreover have "xr_durationMs res = (let l = Max (insert 0 (set (map rq_endMs (gather requests_in evs))))
      in if l = 0 then 0 else max 0 (l - me_startedAtMs m))"
    "xr_activityMs res = (let l = Max (insert 0 (set (map rq_endMs (gather requests_in evs))))
      in if l = 0 then 0 else window_of c (me_startedAtMs m) (gather requests_in evs))"
    using assms(1) by (simp_all only: result_rep_def Let_def)
  ultimately have "xr_durationMs res = xn_durationMs (expectedRun evs opts)" "xr_activityMs res = xn_activityMs (expectedRun evs opts)"
    using window_same [OF scan assms(2,3)] by (simp_all only: expectedRun_def s_def [symmetric] Let_def run_spans.simps)
  then show ?thesis unfolding compareRun_def Let_def assms(4,5) expectedFrom_def
    by (intro writes_only_comp writes_exact) simp_all
qed

end
