(* ===== verification/VerifyErrors.thy ===== *)
theory VerifyErrors
  imports VerifyStats
begin

text \<open>
  The errors table: the recomputation and the engine rank the same counters, so they have the same rows, group
  by group.
\<close>

section \<open>Tables whose rows are equal\<close>

lemma matchRows_equal:
  assumes "mset es = mset ss" and "inj_on key (set es)" and "\<And>e. e \<in> set es \<Longrightarrow> writes_only P (both e e)"
  shows "writes_only P (matchRows es ss key key both missing extra)"
proof (rule matchRows_writes)
  have "image_mset key (mset es) = image_mset key (mset ss)" using assms(1) by simp
  then show "mset (map key es) = mset (map key ss)" by simp
next
  fix e s assume "e \<in> set es" "s \<in> set ss" "key e = key s"
  then have "e = s" using inj_onD [OF assms(2)] mset_eq_setD [OF assms(1)] by auto
  then show "writes_only P (both e s)" using assms(3) [OF \<open>e \<in> set es\<close>] by simp
qed

lemma mset_concat_map: "mset xs = mset ys \<Longrightarrow> mset (concat (map f xs)) = mset (concat (map f ys))"
  by (metis mset_concat mset_map sum_mset_sum_list)

lemma jm_get_new: "jm_get [] k = None"
  by simp

section \<open>The counters\<close>

definition fresh_errors :: "error_id \<Rightarrow> error_acc" where
  "fresh_errors i = \<lparr>ea_scope = scope_js (fst i), ea_name = snd i, ea_counts = []\<rparr>"

definition errors_ident :: "error_acc \<Rightarrow> error_id" where
  "errors_ident a = (scope_of (ea_scope a), ea_name a)"

definition errors_add :: "jstr \<Rightarrow> error_acc \<Rightarrow> error_acc option" where
  "errors_add m a = Some (a\<lparr>ea_counts := verify_bump m (ea_counts a)\<rparr>)"

definition error_acc_rep :: "error_acc \<Rightarrow> jstr list \<Rightarrow> bool" where
  "error_acc_rep a ms \<longleftrightarrow> ea_scope a = scope_js (fst (errors_ident a)) \<and> ea_counts a = fold error_rollup_add ms []"

definition errors_token :: "error_id \<Rightarrow> jstr" where
  "errors_token i = scope_js (fst i) @ [nul] @ snd i"

lemma errors_token_inj: "errors_token i = errors_token j \<Longrightarrow> i = j"
  using append_sep_eq_left [of "scope_js (fst i)" nul "snd i" "scope_js (fst j)" "snd j"]
  by (simp add: errors_token_def prod_eq_iff)

interpretation ve: keyed errors_token errors_ident fresh_errors errors_add error_acc_rep "\<lambda>_ _. True"
proof unfold_locales
  fix i show "errors_ident (fresh_errors i) = i" by (simp add: errors_ident_def fresh_errors_def)
  show "error_acc_rep (fresh_errors i) []" by (simp add: error_acc_rep_def fresh_errors_def errors_ident_def)
next
  fix en xs x
  assume "error_acc_rep en xs"
  then show "\<exists>en'. errors_add x en = Some en' \<and> errors_ident en' = errors_ident en \<and> error_acc_rep en' (xs @ [x])"
    by (auto simp: errors_add_def error_acc_rep_def errors_ident_def error_rollup_add_def verify_bump_def bump_def)
qed (rule errors_token_inj)

lemma verify_add_error_rep:
  assumes "ve.keyed_rep rows L"
  shows "ve.keyed_rep (verify_add_error (scope_js s) n label rows) (L @ [((s, n), label)])"
proof -
  have "Some (verify_add_error (scope_js s) n label rows) = upsert errors_token fresh_errors errors_add (s, n) label rows"
    by (simp add: verify_add_error_def upsert_def errors_add_def errors_token_def fresh_errors_def Let_def split: option.splits)
  then show ?thesis using ve.keyed_upsert [OF assms, of "(s, n)" label] by auto
qed

lemma errorLabel_eq: "errorLabel m = errorMessageOf m"
  by (simp add: errorLabel_def errorMessageOf_def NO_MESSAGE_def split: option.splits)

lemma error_event_rep:
  assumes "opts_for c st opts" and "ve.keyed_rep rows L"
  shows "ve.keyed_rep (error_event_rows opts ev rows) (L @ error_obs st (ec_warmupMs c) ev)"
proof (cases ev)
  case (RequestE r)
  have "ve.keyed_rep (verify_add_error (scope_js Request) (request_path r) (errorMessageOf (rq_message r))
      (verify_add_error (scope_js Run) [] (errorMessageOf (rq_message r)) rows))
      ((L @ [((Run, []), errorMessageOf (rq_message r))]) @ [((Request, request_path r), errorMessageOf (rq_message r))])"
    by (intro verify_add_error_rep assms(2))
  then show ?thesis using assms(2)
    by (simp add: RequestE opts_warmup [OF assms(1)] errorLabel_eq request_path_def Let_def)
next
  case (ErrorE x)
  have "ve.keyed_rep (verify_add_error (scope_js Run) [] (errorMessageOf (Some (Events.er_message x))) rows)
      (L @ [((Run, []), errorMessageOf (Some (Events.er_message x)))])"
    by (intro verify_add_error_rep assms(2))
  then show ?thesis using assms(2) by (simp add: ErrorE opts_warmup [OF assms(1)] errorLabel_eq)
qed (use assms(2) in simp_all)

lemma error_events_rep:
  assumes "opts_for c st opts"
  shows "ve.keyed_rep (fold (error_event_rows opts) evs []) (gather (error_obs st (ec_warmupMs c)) evs)"
proof (induction evs rule: rev_induct)
  case (snoc ev evs)
  from error_event_rep [OF assms snoc, of ev] show ?case by simp
qed (simp add: ve.keyed_rep_Nil)

section \<open>The rows\<close>

lemma ranked_labels_eq: "ranked_labels lc = js_sort (cmp_count_desc lc)"
  by (simp add: fun_eq_iff ranked_labels_def cmp_count_desc_def)

lemma fold_counts: "fold (\<lambda>(_, c) n. n + c) es n = n + (\<Sum>e \<leftarrow> es. snd e)" for n :: int
  by (induction es arbitrary: n) (auto simp: case_prod_beta)

lemma group_rows_same:
  assumes "error_acc_rep a ms" and "errors_ident a = i"
  shows "error_group_rows lc a = map (\<lambda>t. error_columns (i, et_message t, et_count t))
    (error_rollup_top lc 200 (fold error_rollup_add ms []))"
proof -
  define c where "c = fold error_rollup_add ms []"
  define es where "es = js_sort (cmp_count_desc lc) c"
  have a: "ea_scope a = scope_js (fst i)" "ea_name a = snd i" "ea_counts a = c"
    using assms by (auto simp: error_acc_rep_def errors_ident_def c_def)
  have "error_group_rows lc a = map (\<lambda>(message, count). \<lparr>xe_scope = scope_js (fst i), xe_name = snd i, xe_message = message,
      xe_isOther = False, xe_count = count\<rparr>) (take 200 es) @
      (if 200 < length es then [\<lparr>xe_scope = scope_js (fst i), xe_name = snd i, xe_message = [], xe_isOther = True,
        xe_count = (\<Sum>e \<leftarrow> drop 200 es. snd e)\<rparr>] else [])"
    by (simp add: error_group_rows_def ranked_labels_eq a es_def Let_def ERROR_ROW_CAP_def fold_counts)
  moreover have "map (\<lambda>t. error_columns (i, et_message t, et_count t)) (error_rollup_top lc 200 c) =
      map (\<lambda>(message, count). \<lparr>xe_scope = scope_js (fst i), xe_name = snd i, xe_message = message,
      xe_isOther = False, xe_count = count\<rparr>) (take 200 es) @
      (if 200 < length es then [\<lparr>xe_scope = scope_js (fst i), xe_name = snd i, xe_message = [], xe_isOther = True,
        xe_count = (\<Sum>e \<leftarrow> drop 200 es. snd e)\<rparr>] else [])"
    by (cases i) (simp add: error_rollup_top_def Let_def es_def [symmetric] error_columns_def take_map drop_map comp_def case_prod_beta)
  ultimately show ?thesis by (simp add: c_def)
qed

lemma errors_same:
  assumes "opts_for c st opts"
  shows "mset (expectedErrors lc evs opts) = mset (map error_columns (errors_of lc (gather (error_obs st (ec_warmupMs c)) evs)))"
proof -
  let ?E = "gather (error_obs st (ec_warmupMs c)) evs"
  define accs where "accs = fold (error_event_rows opts) evs []"
  have rep: "ve.keyed_rep accs ?E" unfolding accs_def by (rule error_events_rep [OF assms])
  let ?f = "\<lambda>i. map (\<lambda>t. error_columns (i, et_message t, et_count t)) (error_rollup_top lc 200 (fold error_rollup_add (obs_of i ?E) []))"
  have "map (error_group_rows lc) (map snd accs) = map ?f (map (\<lambda>e. errors_ident (snd e)) accs)"
    unfolding map_map using rep by (intro map_cong refl) (auto simp: ve.keyed_rep_def intro!: group_rows_same)
  also have "map (\<lambda>e. errors_ident (snd e)) accs = first_seen (map fst ?E)" using rep by (simp add: ve.keyed_rep_def)
  finally have rows: "concat (map (error_group_rows lc) (map snd accs)) = map error_columns (errors_of lc ?E)"
    by (simp add: errors_of_def map_concat comp_def)
  have "mset (expectedErrors lc evs opts) = mset (concat (map (error_group_rows lc) (map snd accs)))"
    unfolding expectedErrors_def accs_def [symmetric] by (rule mset_concat_map) simp
  then show ?thesis by (simp only: rows)
qed

section \<open>The comparison\<close>

text \<open>Names without NUL: a database text cannot hold one.\<close>

definition plain_paths :: "canonical_event list \<Rightarrow> bool" where
  "plain_paths evs \<longleftrightarrow> (\<forall>p \<in> set (request_paths evs). nul \<notin> set p)"

lemma label_key_inj: "label_key a x = label_key b y \<Longrightarrow> a = b \<and> (\<not> a \<longrightarrow> x = y)"
  by (auto simp: label_key_def split: if_splits)

lemma error_rows_plain:
  assumes "e \<in> set (errors_of lc E)" and "\<forall>i \<in> fst ` set E. nul \<notin> set (snd i)"
  shows "nul \<notin> set (xe_name (error_columns e))" "xe_scope (error_columns e) \<in> range scope_js"
    "xe_isOther (error_columns e) \<Longrightarrow> xe_message (error_columns e) = []"
  using assms by (auto simp: errors_of_def error_columns_def split: option.splits)

lemma error_key_inj:
  assumes "\<And>e. e \<in> A \<Longrightarrow> nul \<notin> set (xe_name e) \<and> xe_scope e \<in> range scope_js \<and> (xe_isOther e \<longrightarrow> xe_message e = [])"
    and "\<And>e f. e \<in> A \<Longrightarrow> f \<in> A \<Longrightarrow> xe_scope e = xe_scope f \<Longrightarrow> xe_name e = xe_name f \<Longrightarrow>
      xe_isOther e = xe_isOther f \<Longrightarrow> xe_message e = xe_message f \<Longrightarrow> xe_count e = xe_count f"
  shows "inj_on error_key A"
proof (rule inj_onI)
  fix e f assume ef: "e \<in> A" "f \<in> A" "error_key e = error_key f"
  have plain: "nul \<notin> set (xe_scope e)" "nul \<notin> set (xe_scope f)" using assms(1) [OF ef(1)] assms(1) [OF ef(2)] by auto
  from ef(3) have "xe_scope e @ nul # (xe_name e @ nul # label_key (xe_isOther e) (xe_message e)) =
      xe_scope f @ nul # (xe_name f @ nul # label_key (xe_isOther f) (xe_message f))" by (simp add: error_key_def)
  from append_sep_eq_left [OF this plain] have s: "xe_scope e = xe_scope f"
    "xe_name e @ nul # label_key (xe_isOther e) (xe_message e) = xe_name f @ nul # label_key (xe_isOther f) (xe_message f)"
    by blast+
  from append_sep_eq_left [OF s(2)] assms(1) [OF ef(1)] assms(1) [OF ef(2)]
  have n: "xe_name e = xe_name f" "label_key (xe_isOther e) (xe_message e) = label_key (xe_isOther f) (xe_message f)" by blast+
  from label_key_inj [OF n(2)] assms(1) [OF ef(1)] assms(1) [OF ef(2)] have "xe_isOther e = xe_isOther f" "xe_message e = xe_message f"
    by auto
  with s(1) n(1) assms(2) [OF ef(1,2)] show "e = f" by (cases e; cases f) simp
qed

lemma tally_counts:
  assumes "t \<in> set (error_rollup_top lc limit (fold error_rollup_add ms []))"
  shows "et_count t = (case et_message t of Some m \<Rightarrow> int (count (mset ms) m)
    | None \<Rightarrow> (\<Sum>e \<leftarrow> drop limit (js_sort (cmp_count_desc lc) (fold error_rollup_add ms [])). snd e))"
proof -
  define c where "c = fold error_rollup_add ms []"
  have entry: "n = int (count (mset ms) m)" if "(m, n) \<in> set (js_sort (cmp_count_desc lc) c)" for m n
    using that counts_rep_entry [OF error_rollup_rep [of ms]] by (simp add: c_def)
  then show ?thesis using assms unfolding c_def [symmetric]
    by (fastforce simp: error_rollup_top_def Let_def drop_map comp_def case_prod_beta split: if_splits dest: in_set_takeD)
qed

lemma errors_of_counts:
  assumes "(i, m, n) \<in> set (errors_of lc E)" and "(i, m, n') \<in> set (errors_of lc E)"
  shows "n = n'"
proof -
  have "\<exists>t \<in> set (error_rollup_top lc 200 (fold error_rollup_add (obs_of i E) [])). et_message t = m \<and> et_count t = k"
    if "(i, m, k) \<in> set (errors_of lc E)" for k
    using that by (auto simp: errors_of_def)
  with assms tally_counts show ?thesis by metis
qed

lemma compareErrors_writes:
  assumes "opts_for c st opts" and "plain_paths evs"
    and "mset (so_errors stored) = mset (map error_columns (errors_of lc (gather (error_obs st (ec_warmupMs c)) evs)))"
  shows "writes_only P (compareErrors (expectedFrom lc evs opts) stored)"
proof -
  define E where "E = gather (error_obs st (ec_warmupMs c)) evs"
  define rows where "rows = map error_columns (errors_of lc E)"
  have same: "mset (ex_errors (expectedFrom lc evs opts)) = mset rows"
    using errors_same [OF assms(1)] by (simp add: expectedFrom_def rows_def E_def)
  have "nul \<notin> set (snd i)" if "i \<in> fst ` set E" for i
  proof -
    obtain ev x where "ev \<in> set evs" "(i, x) \<in> set (error_obs st (ec_warmupMs c) ev)" using \<open>i \<in> fst ` set E\<close> by (auto simp: E_def)
    then have "snd i = [] \<or> (\<exists>r. ev = RequestE r \<and> snd i = request_path r)" by (cases ev rule: canonical_event.exhaust) (auto split: if_splits)
    moreover have "request_path r \<in> set (request_paths evs)" if "ev = RequestE r" for r
      using that \<open>ev \<in> set evs\<close> unfolding request_paths_def first_seen_set by force
    ultimately show ?thesis using assms(2) by (auto simp: plain_paths_def)
  qed
  then have paths: "\<forall>i \<in> fst ` set E. nul \<notin> set (snd i)" by blast
  have "inj_on error_key (set rows)"
  proof (rule error_key_inj)
    fix e assume "e \<in> set rows"
    then obtain x where "x \<in> set (errors_of lc E)" "e = error_columns x" by (auto simp: rows_def)
    then show "nul \<notin> set (xe_name e) \<and> xe_scope e \<in> range scope_js \<and> (xe_isOther e \<longrightarrow> xe_message e = [])"
      using error_rows_plain [OF _ paths] by blast
  next
    fix e f assume ef: "e \<in> set rows" "f \<in> set rows" "xe_scope e = xe_scope f" "xe_name e = xe_name f"
      "xe_isOther e = xe_isOther f" "xe_message e = xe_message f"
    obtain i m n where e: "(i, m, n) \<in> set (errors_of lc E)" "e = error_columns (i, m, n)" using ef(1) by (auto simp: rows_def)
    obtain j m' n' where f: "(j, m', n') \<in> set (errors_of lc E)" "f = error_columns (j, m', n')" using ef(2) by (auto simp: rows_def)
    have "scope_of (xe_scope e) = fst i" "xe_name e = snd i" "scope_of (xe_scope f) = fst j" "xe_name f = snd j"
      by (simp_all add: e(2) f(2) error_columns_def case_prod_beta)
    then have "i = j" using ef(3,4) by (simp add: prod_eq_iff)
    moreover have "m = m'" using ef(5,6) by (cases m; cases m') (simp_all add: e(2) f(2) error_columns_def case_prod_beta)
    ultimately have "n = n'" using errors_of_counts e(1) f(1) by blast
    then show "xe_count e = xe_count f" by (simp add: e(2) f(2) error_columns_def case_prod_beta)
  qed
  moreover have "set (ex_errors (expectedFrom lc evs opts)) = set rows" using mset_eq_setD [OF same] .
  ultimately show ?thesis unfolding compareErrors_def
    using same assms(3) unfolding E_def [symmetric] rows_def [symmetric]
    by (intro matchRows_equal) (auto simp: error_both_def Let_def intro!: writes_only_comp writes_exact)
qed

end
