(* ===== verification/VerifyWidth.thy ===== *)
theory VerifyWidth
  imports VerifyErrors
begin

text \<open>
  The widths of the recomputation are those on which the engine's series settle: the first power of two of
  seconds that fits the cap.
\<close>

lemma seen_slots:
  fixes ts :: "int list"
  shows "int (length (fold (\<lambda>t. set_insert (t div w)) ts [])) = int (card ((\<lambda>t. t div w) ` set ts))"
proof -
  have "fold (\<lambda>t. set_insert (t div w)) ts xs = fold set_insert (map (\<lambda>t. t div w) ts) xs" for xs :: "int list"
    by (simp add: fold_map comp_def)
  then have "fold (\<lambda>t. set_insert (t div w)) ts [] = first_seen (map (\<lambda>t. t div w) ts)" by (simp add: first_seen_def)
  then show ?thesis by (simp add: distinct_card [symmetric] del: distinct_card)
qed

text \<open>A width beyond every time leaves the slots -1 and 0.\<close>

lemma far_slots:
  fixes T :: "int set"
  assumes "\<And>t. t \<in> T \<Longrightarrow> \<bar>t\<bar> < w" and "2 \<le> cap \<or> (\<forall>t \<in> T. 0 \<le> t)" and "1 \<le> cap"
  shows "int (card ((\<lambda>t. t div w) ` T)) \<le> cap"
proof -
  have slot: "t div w = (if 0 \<le> t then 0 else - 1)" if "t \<in> T" for t
  proof (cases "0 \<le> t")
    case True
    then show ?thesis using assms(1) [OF that] by (simp add: div_pos_pos_trivial)
  next
    case False
    then have "0 \<le> t + w" "t + w < w" using assms(1) [OF that] by linarith+
    then have "(t + w) div w = 0" by (rule div_pos_pos_trivial)
    moreover have "(t + w) div w = t div w + 1" using \<open>0 \<le> t + w\<close> \<open>t + w < w\<close> by (intro div_add_self2) linarith
    ultimately show ?thesis using False by simp
  qed
  show ?thesis
  proof (cases "\<forall>t \<in> T. 0 \<le> t")
    case True
    then have "(\<lambda>t. t div w) ` T \<subseteq> {0}" using slot by auto
    then have "card ((\<lambda>t. t div w) ` T) \<le> card {0 :: int}" by (rule card_mono [rotated]) simp
    then show ?thesis using assms(3) by simp
  next
    case False
    have "(\<lambda>t. t div w) ` T \<subseteq> {0, - 1}" using slot by auto
    then have "card ((\<lambda>t. t div w) ` T) \<le> card {0, - 1 :: int}" by (rule card_mono [rotated]) simp
    then show ?thesis using assms(2) False by simp
  qed
qed

definition fits_at :: "int \<Rightarrow> int set \<Rightarrow> int \<Rightarrow> bool" where
  "fits_at cap T w \<longleftrightarrow> int (card ((\<lambda>t. t div w) ` T)) \<le> cap"

lemma width_pass_eq:
  assumes "k \<le> j" and "fits_at cap (set ts) (1000 * 2 ^ j)" and "\<And>i. i < j \<Longrightarrow> \<not> fits_at cap (set ts) (1000 * 2 ^ i)"
    and "\<forall>t \<in> set ts. \<bar>t\<bar> \<le> reach" and "2 \<le> cap \<or> (\<forall>t \<in> set ts. 0 \<le> t)" and "1 \<le> cap"
  shows "width_pass ts cap reach k = 1000 * 2 ^ j"
  using assms(1)
proof (induction rule: inc_induct)
  case base
  show ?case using assms(2) by (subst width_pass.simps) (simp add: BASE_WIDTH_MS_def fits_at_def seen_slots)
next
  case (step n)
  have no: "\<not> fits_at cap (set ts) (1000 * 2 ^ n)" by (rule assms(3) [OF step(2)])
  moreover have "\<not> reach < 1000 * 2 ^ n"
  proof
    assume "reach < 1000 * 2 ^ n"
    then have "fits_at cap (set ts) (1000 * 2 ^ n)"
      unfolding fits_at_def using assms(4-6) by (intro far_slots) fastforce+
    with no show False ..
  qed
  ultimately show ?case
    using step(3) by (subst width_pass.simps) (simp add: BASE_WIDTH_MS_def fits_at_def seen_slots)
qed

lemma reach_bounds: "x \<le> fold (\<lambda>t reach. max reach \<bar>t\<bar>) ts x \<and> (\<forall>t \<in> set ts. \<bar>t\<bar> \<le> fold (\<lambda>t reach. max reach \<bar>t\<bar>) ts x)"
  for ts :: "int list"
proof (induction ts arbitrary: x)
  case (Cons t ts)
  show ?case using Cons [of "max x \<bar>t\<bar>"] by auto
qed simp

lemma seriesWidth_eq:
  assumes "narrowest (max 1 cap) time w M" and "int (card ((\<lambda>x. time x div w) ` set_mset M)) \<le> max 1 cap"
    and "set ts = time ` set_mset M" and "2 \<le> cap \<or> (\<forall>t \<in> set ts. 0 \<le> t)"
  shows "seriesWidth ts cap = w"
proof -
  obtain j where w: "w = 1000 * 2 ^ j" using assms(1) by (auto simp: narrowest_def is_width_def)
  have slots: "(\<lambda>t. t div v) ` set ts = (\<lambda>x. time x div v) ` set_mset M" for v by (simp add: assms(3) image_image)
  have "width_pass ts (max 1 cap) (fold (\<lambda>t reach. max reach \<bar>t\<bar>) ts 0) 0 = 1000 * 2 ^ j"
  proof (rule width_pass_eq)
    show "fits_at (max 1 cap) (set ts) (1000 * 2 ^ j)" using assms(2) unfolding fits_at_def slots w .
  next
    fix i assume "i < j"
    then have "(1000 :: int) * 2 ^ i < w" by (simp add: w)
    moreover have "is_width (1000 * 2 ^ i)" by (auto simp: is_width_def)
    ultimately show "\<not> fits_at (max 1 cap) (set ts) (1000 * 2 ^ i)"
      using assms(1) unfolding fits_at_def slots by (auto simp: narrowest_def not_le)
  qed (use assms(4) reach_bounds [of 0 ts] in auto)
  then show ?thesis by (simp add: seriesWidth_def w)
qed

end
