(* ===== verification/VerifySeries.thy ===== *)
theory VerifySeries
  imports VerifyWidth
begin

text \<open>
  The series table: each series is recomputed over the same observations and the same width, so bucket by
  bucket it has the figures that the engine's histograms give.
\<close>

section \<open>Observations\<close>

type_synonym span = "int \<times> int \<times> int \<times> bool"

fun span_obs :: "canonical_event \<Rightarrow> (row_id \<times> span) list" where
  "span_obs (RequestE r) =
     [((Run, [], ResponseTimeF), (rq_startMs r, rq_endMs r, request_ms r, rq_ok r)),
      ((Request, request_path r, ResponseTimeF), (rq_startMs r, rq_endMs r, request_ms r, rq_ok r))]"
| "span_obs (GroupE g) =
     [((Group, group_name g, GroupCumulated), (gr_startMs g, gr_endMs g, gr_cumulatedResponseTimeMs g, gr_ok g)),
      ((Group, group_name g, GroupDuration), (gr_startMs g, gr_endMs g, gr_endMs g - gr_startMs g, gr_ok g))]"
| "span_obs _ = []"

fun span_edges :: "span \<Rightarrow> request_edge list" where
  "span_edges (s, e, v, ok) = [an_edge s v ok StartEdge, an_edge e v ok EndEdge]"

fun span_ob :: "int \<Rightarrow> span \<Rightarrow> observation" where
  "span_ob st (s, e, v, ok) = \<lparr>ob_start = s - st, ob_end = e - st, ob_value = observed v, ob_ok = ok\<rparr>"

lemma span_series: "series_obs ev = concat (map (\<lambda>(i, x). map (Pair i) (span_edges x)) (span_obs ev))"
  by (cases ev) (simp_all add: both_edges_def)

lemma obs_of_spans: "obs_of i (concat (map (\<lambda>(i, x). map (Pair i) (span_edges x)) L)) = concat (map span_edges (obs_of i L))"
proof (induction L)
  case (Cons p L)
  obtain j x where p: "p = (j, x)" by (rule prod.exhaust)
  have "obs_of i (map (Pair j) ys @ R) = (if i = j then ys else []) @ obs_of i R" for ys :: "request_edge list" and R
    by (auto simp: obs_of_def comp_def)
  then show ?case using Cons by (simp add: p obs_of_def)
qed simp

lemma gather_gather: "concat (map f (concat (map g xs))) = concat (map (\<lambda>x. concat (map f (g x))) xs)"
  by (induction xs) simp_all

lemma series_spans:
  "obs_of i (gather series_obs evs) = concat (map span_edges (obs_of i (gather span_obs evs)))"
  "fst ` set (gather series_obs evs) = fst ` set (gather span_obs evs)"
proof -
  have "map series_obs evs = map (\<lambda>ev. concat (map (\<lambda>(i, x). map (Pair i) (span_edges x)) (span_obs ev))) evs"
    by (intro map_cong refl span_series)
  then have X: "gather series_obs evs = concat (map (\<lambda>(i, x). map (Pair i) (span_edges x)) (gather span_obs evs))"
    by (simp only: gather_gather)
  show "obs_of i (gather series_obs evs) = concat (map span_edges (obs_of i (gather span_obs evs)))"
    unfolding X by (rule obs_of_spans)
  have "fst ` set (concat (map (\<lambda>(i, x). map (Pair i) (span_edges x)) L)) = fst ` set L" for L
  proof (induction L)
    case (Cons p L)
    obtain i s e v ok where p: "p = (i, s, e, v, ok)" by (rule prod_cases5)
    show ?case by (simp only: p list.map concat.simps set_append image_Un Cons prod.case span_edges.simps) simp
  qed simp
  then show "fst ` set (gather series_obs evs) = fst ` set (gather span_obs evs)" unfolding X .
qed

section \<open>The observations per series\<close>

definition series_ident :: "series_acc \<Rightarrow> row_id" where
  "series_ident a = (scope_of (sx_scope a), sx_name a, family_of (sx_family a))"

definition fresh_series :: "engine_config \<Rightarrow> row_id \<Rightarrow> series_acc" where
  "fresh_series c i = \<lparr>sx_scope = scope_js (fst i), sx_name = fst (snd i), sx_family = family_js (snd (snd i)),
     sx_cap = series_cap c i, sx_observations = []\<rparr>"

definition series_add :: "int \<Rightarrow> span \<Rightarrow> series_acc \<Rightarrow> series_acc option" where
  "series_add st x a = Some (a\<lparr>sx_observations := sx_observations a @ [span_ob st x]\<rparr>)"

definition series_acc_rep :: "engine_config \<Rightarrow> int \<Rightarrow> series_acc \<Rightarrow> span list \<Rightarrow> bool" where
  "series_acc_rep c st a xs \<longleftrightarrow> a = fresh_series c (series_ident a)\<lparr>sx_observations := map (span_ob st) xs\<rparr>"

interpretation vx: keyed nul_key series_ident "fresh_series c" "series_add st" "series_acc_rep c st" "\<lambda>_ _. True" for c st
proof unfold_locales
  fix i show "series_ident (fresh_series c i) = i" by (simp add: series_ident_def fresh_series_def)
  then show "series_acc_rep c st (fresh_series c i) []" by (simp add: series_acc_rep_def) (simp add: fresh_series_def)
next
  fix en xs x
  assume rep: "series_acc_rep c st en xs"
  let ?en = "en\<lparr>sx_observations := sx_observations en @ [span_ob st x]\<rparr>"
  have "series_ident ?en = series_ident en" by (simp add: series_ident_def)
  moreover have "series_acc_rep c st ?en (xs @ [x])"
    using rep unfolding series_acc_rep_def calculation by (cases en) (simp add: fresh_series_def)
  ultimately show "\<exists>en'. series_add st x en = Some en' \<and> series_ident en' = series_ident en \<and> series_acc_rep c st en' (xs @ [x])"
    by (simp add: series_add_def)
qed (rule nul_key_inj)

lemma observe_rep:
  assumes "vx.keyed_rep c st all L" and "cap = series_cap c (s, n, f)" and "ob = span_ob st x"
  shows "vx.keyed_rep c st (observe (scope_js s) n (family_js f) cap ob all) (L @ [((s, n, f), x)])"
proof -
  have "Some (observe (scope_js s) n (family_js f) cap ob all) = upsert nul_key (fresh_series c) (series_add st) (s, n, f) x all"
    by (simp add: observe_def upsert_def series_add_def fresh_series_def Let_def assms(2,3) split: option.splits)
  then show ?thesis using vx.keyed_upsert [OF assms(1), of "(s, n, f)" x] by auto
qed

lemma observe_event_rep:
  assumes "opts_for c st opts" and "ec_maxBucketsGroup c = GROUP_SERIES_CAP" and "vx.keyed_rep c st all L"
  shows "vx.keyed_rep c st (observe_event opts ev all) (L @ span_obs ev)"
proof (cases ev)
  case (RequestE r)
  let ?x = "(rq_startMs r, rq_endMs r, request_ms r, rq_ok r)"
  have "vx.keyed_rep c st (observe (scope_js Request) (request_path r) (family_js ResponseTimeF) (ec_maxBucketsEndpoint c) (span_ob st ?x)
      (observe (scope_js Run) [] (family_js ResponseTimeF) (ec_maxBucketsRun c) (span_ob st ?x) all))
      ((L @ [((Run, [], ResponseTimeF), ?x)]) @ [((Request, request_path r, ResponseTimeF), ?x)])"
    by (intro observe_rep assms(3)) simp_all
  then show ?thesis using assms(1) by (simp add: RequestE Let_def opts_for_def request_ms_def request_path_def)
next
  case (GroupE g)
  let ?x = "\<lambda>v. (gr_startMs g, gr_endMs g, v, gr_ok g)"
  have "vx.keyed_rep c st (observe (scope_js Group) (group_name g) (family_js GroupDuration) GROUP_SERIES_CAP
        (span_ob st (?x (gr_endMs g - gr_startMs g)))
      (observe (scope_js Group) (group_name g) (family_js GroupCumulated) GROUP_SERIES_CAP
        (span_ob st (?x (gr_cumulatedResponseTimeMs g))) all))
      ((L @ [((Group, group_name g, GroupCumulated), ?x (gr_cumulatedResponseTimeMs g))]) @
        [((Group, group_name g, GroupDuration), ?x (gr_endMs g - gr_startMs g))])"
    by (intro observe_rep assms(3)) (simp_all add: assms(2))
  then show ?thesis using assms(1) by (simp add: GroupE Let_def opts_for_def group_name_def)
qed (use assms(3) in simp_all)

lemma observe_events_rep:
  assumes "opts_for c st opts" and "ec_maxBucketsGroup c = GROUP_SERIES_CAP"
  shows "vx.keyed_rep c st (fold (observe_event opts) evs []) (gather span_obs evs)"
proof (induction evs rule: rev_induct)
  case (snoc ev evs)
  from observe_event_rep [OF assms snoc, of ev] show ?case by simp
qed (simp add: vx.keyed_rep_Nil)

section \<open>Buckets\<close>

definition bucket_acc_rep :: "int \<Rightarrow> bucket_acc \<Rightarrow> request_edge multiset \<Rightarrow> bool" where
  "bucket_acc_rep off b M \<longleftrightarrow>
     ba_startedOkCount b = int (size (edges StartEdge True M)) \<and> ba_startedKoCount b = int (size (edges StartEdge False M)) \<and>
     ba_startedCount b = ba_startedOkCount b + ba_startedKoCount b \<and>
     ba_okCount b = int (size (edges EndEdge True M)) \<and> ba_koCount b = int (size (edges EndEdge False M)) \<and>
     ba_endedCount b = ba_okCount b + ba_koCount b \<and>
     mset (ba_ok b) = edge_times True M \<and> mset (ba_ko b) = edge_times False M"

lemma at_bucket_rep:
  assumes "axis_rep time bucket_acc_rep w bs M"
  shows "bucket_acc_rep (i * w) (at_bucket i bs) (in_slot time w i M)"
proof -
  have "slot_rep bucket_acc_rep (i * w) (jm_get bs i) (in_slot time w i M)" using assms by (simp add: axis_rep_def)
  then show ?thesis by (cases "jm_get bs i") (simp_all add: at_bucket_def bucket_acc_rep_def)
qed

lemma observed_clamp: "clampMs (of_int v) = observed v"
  by (simp add: clampMs_def observed_def)

lemma bucket_edges_rep:
  assumes "axis_rep (\<lambda>x. re_tsMs x - st) bucket_acc_rep w bs M"
  shows "axis_rep (\<lambda>x. re_tsMs x - st) bucket_acc_rep w (bucket_edges w (span_ob st x) bs) (M + mset (span_edges x))"
proof -
  obtain s e v ok where x: "x = (s, e, v, ok)" by (cases x) blast
  let ?time = "\<lambda>x. re_tsMs x - st"
  define i where "i = (s - st) div w"
  define b where "b = (let b = (at_bucket i bs)\<lparr>ba_startedCount := ba_startedCount (at_bucket i bs) + 1\<rparr>
    in if ok then b\<lparr>ba_startedOkCount := ba_startedOkCount b + 1, ba_ok := ba_ok b @ [observed v]\<rparr>
       else b\<lparr>ba_startedKoCount := ba_startedKoCount b + 1, ba_ko := ba_ko b @ [observed v]\<rparr>)"
  have one: "axis_rep ?time bucket_acc_rep w (jm_set i b bs) (add_mset (an_edge s v ok StartEdge) M)"
    using at_bucket_rep [OF assms, of i]
    by (intro axis_rep_add [OF assms]) (auto simp: i_def b_def bucket_acc_rep_def an_edge_def Let_def observed_def)
  define j where "j = (e - st) div w"
  define c where "c = (let c = (at_bucket j (jm_set i b bs))\<lparr>ba_endedCount := ba_endedCount (at_bucket j (jm_set i b bs)) + 1\<rparr>
    in if ok then c\<lparr>ba_okCount := ba_okCount c + 1\<rparr> else c\<lparr>ba_koCount := ba_koCount c + 1\<rparr>)"
  have "axis_rep ?time bucket_acc_rep w (jm_set j c (jm_set i b bs))
      (add_mset (an_edge e v ok EndEdge) (add_mset (an_edge s v ok StartEdge) M))"
    using at_bucket_rep [OF one, of j]
    by (intro axis_rep_add [OF one]) (auto simp: j_def c_def bucket_acc_rep_def an_edge_def Let_def)
  moreover have "bucket_edges w (span_ob st x) bs = jm_set j c (jm_set i b bs)"
    by (simp add: bucket_edges_def x i_def [symmetric] j_def [symmetric] b_def [symmetric] c_def [symmetric] Let_def)
      (simp add: b_def c_def Let_def)
  ultimately show ?thesis by (simp add: x add_mset_commute)
qed

lemma bucket_accs_rep:
  "axis_rep (\<lambda>x. re_tsMs x - st) bucket_acc_rep w (fold (bucket_edges w) (map (span_ob st) xs) [])
     (mset (concat (map span_edges xs)))"
proof (induction xs rule: rev_induct)
  case (snoc x xs)
  from bucket_edges_rep [OF snoc, of x] show ?case by simp
qed simp

end
