(* ===== verification/VerifyBuckets.thy ===== *)
theory VerifyBuckets
  imports VerifySeries JsDecimal
begin

text \<open>
  The series table, row by row: what the engine stores and what is recomputed are the same functions of the
  observations in a slot.
\<close>

section \<open>The figures of a slot\<close>

lemma whole_rank: "0 \<le> k \<Longrightarrow> k < 2 ^ 53 \<Longrightarrow> rank_decimals (of_int k) = 0 \<and> rank_num (of_int k) = k"
proof -
  assume k: "0 \<le> k" "k < 2 ^ 53"
  have "js_num (of_int k) = digs k" using js_int_digs [OF k] by (simp add: js_int_def)
  then have "rank_decimals (of_int k) = 0" by (simp add: rank_decimals_def js_split_none digs_no_dot k)
  moreover have "rnd (of_int k) = of_int k" using k by (intro rnd_of_int) simp
  ultimately show ?thesis by (simp add: rank_num_def fmul_def)
qed

lemma bucket_ranks: "ranks_safe 8000000 BUCKET_PERCENTILES"
  using whole_rank [of 25] whole_rank [of 50] whole_rank [of 75] whole_rank [of 80] whole_rank [of 85] whole_rank [of 90]
    whole_rank [of 95] whole_rank [of 99]
  by (simp add: ranks_safe_def BUCKET_PERCENTILES_def in_range_def)

lemma ranked_values_rep:
  assumes "length values \<le> 8000000"
  shows "ranked_values values = population_percentiles BUCKET_PERCENTILES (mset values)"
proof (cases "values = []")
  case False
  moreover have "SERIES_PERCENTILES = BUCKET_PERCENTILES" by (simp add: SERIES_PERCENTILES_def BUCKET_PERCENTILES_def)
  ultimately show ?thesis
    using ranked_population [OF bucket_ranks False] assms by (simp add: ranked_values_def Let_def)
qed (simp add: ranked_values_def)

lemma fold_ends: "xs \<noteq> [] \<Longrightarrow> fold min xs (hd xs) = Min (set xs)" "xs \<noteq> [] \<Longrightarrow> fold max xs (hd xs) = Max (set xs)" for xs :: "int list"
proof -
  show "xs \<noteq> [] \<Longrightarrow> fold min xs (hd xs) = Min (set xs)"
    using Min.set_eq_fold [of "hd xs" "tl xs"] by (cases xs) simp_all
  show "xs \<noteq> [] \<Longrightarrow> fold max xs (hd xs) = Max (set xs)"
    using Max.set_eq_fold [of "hd xs" "tl xs"] by (cases xs) simp_all
qed

definition recomputed_bucket :: "row_id \<Rightarrow> int \<Rightarrow> request_edge multiset \<Rightarrow> expected_series_bucket" where
  "recomputed_bucket i off M = (let A = edge_times True M + edge_times False M;
      P = population_percentiles BUCKET_PERCENTILES in
    \<lparr>xb_scope = scope_js (fst i), xb_name = fst (snd i), xb_family = family_js (snd (snd i)), xb_startOffsetMs = off,
     xb_startedCount = int (size (edges StartEdge True M)) + int (size (edges StartEdge False M)),
     xb_endedCount = int (size (edges EndEdge True M)) + int (size (edges EndEdge False M)),
     xb_okCount = int (size (edges EndEdge True M)), xb_koCount = int (size (edges EndEdge False M)),
     xb_startedOkCount = int (size (edges StartEdge True M)), xb_startedKoCount = int (size (edges StartEdge False M)),
     xb_minMs = (if A = {#} then 0 else Min_mset A), xb_maxMs = (if A = {#} then 0 else Max_mset A),
     xb_meanMs = (if A = {#} then 0 else fdiv (of_int (sum_mset A)) (of_nat (size A))),
     xb_percentiles = P A, xb_percentilesOk = P (edge_times True M), xb_percentilesKo = P (edge_times False M)\<rparr>)"

definition stored_bucket :: "expected_series_bucket \<Rightarrow> stored_series_bucket" where
  "stored_bucket e = \<lparr>zb_scope = xb_scope e, zb_name = xb_name e, zb_family = xb_family e, zb_startOffsetMs = xb_startOffsetMs e,
     zb_startedCount = xb_startedCount e, zb_endedCount = xb_endedCount e, zb_okCount = xb_okCount e, zb_koCount = xb_koCount e,
     zb_startedOkCount = Some (xb_startedOkCount e), zb_startedKoCount = Some (xb_startedKoCount e), zb_minMs = xb_minMs e,
     zb_maxMs = xb_maxMs e, zb_meanMs = xb_meanMs e, zb_percentiles = xb_percentiles e,
     zb_percentilesOk = Some (xb_percentilesOk e), zb_percentilesKo = Some (xb_percentilesKo e)\<rparr>"

lemma bucket_columns_rep:
  assumes "bucket_rep off b M"
  shows "bucket_columns i b = Inr (stored_bucket (recomputed_bucket i off M))"
proof -
  have "hist_rep (bk_histogramOk b) (edge_times True M)" "hist_rep (bk_histogramKo b) (edge_times False M)"
    using assms by (simp_all add: bucket_rep_def)
  from bucket_latency_rep [OF this] assms show ?thesis
    by (cases i) (simp add: bucket_columns_def stored_bucket_def recomputed_bucket_def Let_def bucket_rep_def)
qed

lemma bucket_figures_rep:
  assumes "bucket_acc_rep off b M" and "off = idx * w" and "a = fresh_series c i\<lparr>sx_observations := obs\<rparr>"
    and "length (ba_ok b @ ba_ko b) \<le> 8000000"
  shows "bucket_figures a w (idx, b) = recomputed_bucket i off M"
proof -
  define vals where "vals = ba_ok b @ ba_ko b"
  have A: "mset vals = edge_times True M + edge_times False M" "mset (ba_ok b) = edge_times True M"
    "mset (ba_ko b) = edge_times False M" using assms(1) by (simp_all add: bucket_acc_rep_def vals_def)
  have empty: "edge_times True M + edge_times False M = {#} \<longleftrightarrow> vals = []" using A(1) by (metis mset_zero_iff)
  have figures: "(if int (length vals) = 0 then 0 else fold min vals (hd vals)) =
      (if mset vals = {#} then 0 else Min_mset (mset vals))"
    "(if int (length vals) = 0 then 0 else fold max vals (hd vals)) =
      (if mset vals = {#} then 0 else Max_mset (mset vals))"
    "(if int (length vals) = 0 then 0 else fdiv (of_int (fold (+) vals 0)) (of_int (int (length vals)))) =
      (if mset vals = {#} then 0 else fdiv (of_int (sum_mset (mset vals))) (of_nat (size (mset vals))))"
    by (simp_all add: fold_ends fold_plus sum_mset_sum_list)
  have ranks: "ranked_values vals = population_percentiles BUCKET_PERCENTILES (mset vals)"
    "ranked_values (ba_ok b) = population_percentiles BUCKET_PERCENTILES (mset (ba_ok b))"
    "ranked_values (ba_ko b) = population_percentiles BUCKET_PERCENTILES (mset (ba_ko b))"
    using assms(4) by (simp_all add: ranked_values_rep vals_def)
  have "bucket_figures a w (idx, b) = \<lparr>xb_scope = sx_scope a, xb_name = sx_name a, xb_family = sx_family a, xb_startOffsetMs = off,
      xb_startedCount = ba_startedCount b, xb_endedCount = ba_endedCount b, xb_okCount = ba_okCount b,
      xb_koCount = ba_koCount b, xb_startedOkCount = ba_startedOkCount b, xb_startedKoCount = ba_startedKoCount b,
      xb_minMs = (if mset vals = {#} then 0 else Min_mset (mset vals)),
      xb_maxMs = (if mset vals = {#} then 0 else Max_mset (mset vals)),
      xb_meanMs = (if mset vals = {#} then 0 else fdiv (of_int (sum_mset (mset vals))) (of_nat (size (mset vals)))),
      xb_percentiles = population_percentiles BUCKET_PERCENTILES (mset vals),
      xb_percentilesOk = population_percentiles BUCKET_PERCENTILES (mset (ba_ok b)),
      xb_percentilesKo = population_percentiles BUCKET_PERCENTILES (mset (ba_ko b))\<rparr>"
    unfolding bucket_figures_def prod.case Let_def vals_def [symmetric] figures ranks by (simp add: assms(2))
  then show ?thesis using assms(1) unfolding A recomputed_bucket_def Let_def
    by (simp add: bucket_acc_rep_def assms(3) fresh_series_def)
qed

lemma series_both_writes: "writes_only P (series_both e (stored_bucket e))"
  unfolding series_both_def Let_def stored_bucket_def
  by (simp only: stored_series_bucket.simps)
    (intro writes_only_comp writes_map writes_close writes_exact closeEnough_refl refl;
      simp add: or_default_def fint_or_null_def)

section \<open>The series\<close>

definition own_edges :: "canonical_event list \<Rightarrow> row_id \<Rightarrow> request_edge multiset" where
  "own_edges evs i = mset (obs_of i (gather series_obs evs))"

definition slot_edges :: "int \<Rightarrow> int \<Rightarrow> request_edge multiset \<Rightarrow> int \<Rightarrow> request_edge multiset" where
  "slot_edges st w M off = filter_mset (\<lambda>x. (re_tsMs x - st) div w * w = off) M"

definition slot_offsets :: "int \<Rightarrow> int \<Rightarrow> request_edge multiset \<Rightarrow> int list" where
  "slot_offsets st w M = sorted_list_of_set ((\<lambda>x. (re_tsMs x - st) div w * w) ` set_mset M)"

lemma series_width:
  assumes "series_for c st X i z" and "set ts = (\<lambda>x. re_tsMs x - st) ` set (obs_of i X)"
    and "2 \<le> series_cap c i \<or> (\<forall>t \<in> set ts. 0 \<le> t)"
  obtains s where "z = (rollupKey i, i, seriesWidth ts (series_cap c i), buckets s)" and "bs_startMs s = st"
    and "bs_widthMs s = seriesWidth ts (series_cap c i)" and "series_rep s (mset (obs_of i X))"
proof -
  obtain s where s: "z = (rollupKey i, i, bs_widthMs s, buckets s)" "bs_startMs s = st"
    "bs_maxBuckets s = max 1 (series_cap c i)" "series_rep s (mset (obs_of i X))" using assms(1) by (auto simp: series_for_def)
  have "int (card ((\<lambda>x. (re_tsMs x - st) div bs_widthMs s) ` set_mset (mset (obs_of i X)))) \<le> max 1 (series_cap c i)"
    using s(2,3,4) axis_rep_length unfolding series_rep_def by metis
  moreover have "narrowest (max 1 (series_cap c i)) (\<lambda>x. re_tsMs x - st) (bs_widthMs s) (mset (obs_of i X))"
    using s(2,3,4) by (simp add: series_rep_def)
  ultimately have "seriesWidth ts (series_cap c i) = bs_widthMs s"
    using assms(2,3) by (intro seriesWidth_eq [where M = "mset (obs_of i X)" and time = "\<lambda>x. re_tsMs x - st"]) simp_all
  with s that show thesis by metis
qed

lemma stored_series_rep:
  assumes "series_rep s M" and "bs_startMs s = st" and "bs_widthMs s = w"
  shows "map (bucket_columns i) (buckets s) =
    map (\<lambda>off. Inr (stored_bucket (recomputed_bucket i off (slot_edges st w M off)))) (slot_offsets st w M)"
proof -
  have "map (bucket_columns i) (buckets s) =
      map (\<lambda>b. Inr (stored_bucket (recomputed_bucket i (bk_startOffsetMs b) (slot_edges st w M (bk_startOffsetMs b))))) (buckets s)"
    using buckets_rep(2) [OF assms(1)] by (intro map_cong refl bucket_columns_rep) (simp add: slot_edges_def assms(2,3))
  also have "\<dots> = map (\<lambda>off. Inr (stored_bucket (recomputed_bucket i off (slot_edges st w M off)))) (map bk_startOffsetMs (buckets s))"
    by simp
  also have "map bk_startOffsetMs (buckets s) = slot_offsets st w M"
    unfolding slot_offsets_def buckets_rep(1) [OF assms(1)] assms(2,3) ..
  finally show ?thesis .
qed

lemma bucketsOf_rep:
  assumes "series_acc_rep c st a xs" and "series_ident a = i" and "0 < w" and "4 * length xs \<le> 8000000"
    and "(case given of Some v \<Rightarrow> v | None \<Rightarrow> seriesWidth (concat (map (\<lambda>ob. [ob_start ob, ob_end ob]) (sx_observations a))) (sx_cap a)) = w"
  defines "M \<equiv> mset (concat (map span_edges xs))"
  shows "mset (bucketsOf a given) = mset (map (\<lambda>off. recomputed_bucket i off (slot_edges st w M off)) (slot_offsets st w M))"
proof -
  define bs where "bs = fold (bucket_edges w) (map (span_ob st) xs) []"
  have a: "a = fresh_series c i\<lparr>sx_observations := map (span_ob st) xs\<rparr>" using assms(1,2) by (simp add: series_acc_rep_def)
  have axis: "axis_rep (\<lambda>x. re_tsMs x - st) bucket_acc_rep w bs M" unfolding bs_def M_def by (rule bucket_accs_rep)
  then have ok: "jm_ok bs" by (simp add: axis_rep_def)
  have slot: "in_slot (\<lambda>x. re_tsMs x - st) w idx M = slot_edges st w M (idx * w)" for idx
    unfolding in_slot_def slot_edges_def using assms(3) by (intro filter_mset_cong) auto
  have size: "size M \<le> 2 * length xs" unfolding M_def by (induction xs) (auto simp: case_prod_beta)
  have fig: "bucket_figures a w (idx, b) = recomputed_bucket i (idx * w) (slot_edges st w M (idx * w))" if "(idx, b) \<in> set bs" for idx b
  proof -
    have "jm_get bs idx = Some b" using that ok by (simp add: jm_ok_def)
    then have rep: "bucket_acc_rep (idx * w) b (slot_edges st w M (idx * w))"
      using axis unfolding axis_rep_def slot by (metis slot_rep.simps(2))
    have "size (edge_times ok N) \<le> size N" for ok N
      unfolding edge_times_def edges_def size_image_mset by (rule size_filter_mset_lesseq)
    moreover have "size (slot_edges st w M (idx * w)) \<le> size M" unfolding slot_edges_def by (rule size_filter_mset_lesseq)
    moreover have "length (ba_ok b) = size (edge_times True (slot_edges st w M (idx * w)))"
      "length (ba_ko b) = size (edge_times False (slot_edges st w M (idx * w)))"
      using rep by (simp_all add: bucket_acc_rep_def flip: size_mset)
    ultimately have "length (ba_ok b) \<le> 2 * length xs" "length (ba_ko b) \<le> 2 * length xs" using size by (metis order_trans)+
    then have "length (ba_ok b @ ba_ko b) \<le> 8000000" using assms(4) by simp
    then show ?thesis by (rule bucket_figures_rep [OF rep refl a])
  qed
  have "bucketsOf a given = map (bucket_figures a w) bs" unfolding bucketsOf_def Let_def assms(5) by (simp add: bs_def a)
  also have "\<dots> = map (\<lambda>off. recomputed_bucket i off (slot_edges st w M off)) (map (\<lambda>e. fst e * w) bs)"
    using fig by auto
  finally have eq: "bucketsOf a given = map (\<lambda>off. recomputed_bucket i off (slot_edges st w M off)) (map (\<lambda>e. fst e * w) bs)" .
  have "distinct (map (\<lambda>e. fst e * w) bs)"
    using ok assms(3) by (auto simp: jm_ok_def distinct_map inj_on_def)
  moreover have "set (map (\<lambda>e. fst e * w) bs) = set (slot_offsets st w M)"
  proof -
    have "set (map (\<lambda>e. fst e * w) bs) = (\<lambda>j. j * w) ` fst ` set bs" by (simp add: image_image)
    then show ?thesis unfolding axis_rep_keys [OF axis] by (simp add: slot_offsets_def image_image)
  qed
  moreover have "distinct (slot_offsets st w M)" by (simp add: slot_offsets_def)
  ultimately have "mset (map (\<lambda>e. fst e * w) bs) = mset (slot_offsets st w M)" using set_eq_iff_mset_eq_distinct by blast
  then show ?thesis unfolding eq by (simp only: mset_map)
qed

end
