(* ===== verification/VerifyTables.thy ===== *)
theory VerifyTables
  imports VerifyBuckets
begin

text \<open>The series table of the engine and that of the recomputation write nothing to the ledger.\<close>

section \<open>Offsets as strings\<close>

definition plain_int :: "int \<Rightarrow> bool" where "plain_int k \<longleftrightarrow> \<bar>k\<bar> < 2 ^ 53"

lemma js_int_neg: "n < 0 \<Longrightarrow> plain_int n \<Longrightarrow> js_int n = 0x2D # digs (- n)"
proof -
  assume n: "n < 0" "plain_int n"
  then have "js_int (- n) = digs (- n)" by (intro js_int_digs) (simp_all add: plain_int_def)
  then show ?thesis using n by (simp add: js_int_def js_num_def)
qed

lemma js_int_chars: "plain_int n \<Longrightarrow> (0 \<le> n \<longrightarrow> js_int n = digs n) \<and> (n < 0 \<longrightarrow> js_int n = 0x2D # digs (- n))"
  using js_int_neg js_int_digs [of n] by (simp add: plain_int_def)

lemma nul_js_int: "plain_int n \<Longrightarrow> nul \<notin> set (js_int n)"
  using js_int_chars [of n] digits_value_digs [of n] digits_value_digs [of "- n"]
  by (cases "0 \<le> n") (auto simp: nul_def list_all_iff is_digit_def)

lemma js_int_inj: "plain_int a \<Longrightarrow> plain_int b \<Longrightarrow> js_int a = js_int b \<Longrightarrow> a = b"
proof -
  assume ab: "plain_int a" "plain_int b" "js_int a = js_int b"
  have digits: "digs m = digs n \<Longrightarrow> m = n" if "0 \<le> m" "0 \<le> n" for m n
    using digits_value_digs that by metis
  have minus: "0x2D \<notin> set (digs m)" if "0 \<le> m" for m
    using digits_value_digs [OF that] by (auto simp: list_all_iff is_digit_def)
  show "a = b"
  proof (cases "0 \<le> a"; cases "0 \<le> b")
    assume "0 \<le> a" "0 \<le> b"
    then show ?thesis using ab js_int_chars digits by metis
  next
    assume n: "0 \<le> a" "\<not> 0 \<le> b"
    then have "digs a = 0x2D # digs (- b)" using ab js_int_chars [of a] js_int_chars [of b] by simp
    then show ?thesis using minus [OF n(1)] by simp
  next
    assume n: "\<not> 0 \<le> a" "0 \<le> b"
    then have "digs b = 0x2D # digs (- a)" using ab js_int_chars [of a] js_int_chars [of b] by simp
    then show ?thesis using minus [OF n(2)] by simp
  next
    assume n: "\<not> 0 \<le> a" "\<not> 0 \<le> b"
    then have "digs (- a) = digs (- b)" using ab js_int_chars [of a] js_int_chars [of b] by simp
    then show ?thesis using digits [of "- a" "- b"] n by simp
  qed
qed

section \<open>Rows in pairs\<close>

lemma matchRows_paired:
  assumes "mset es = mset (map E L)" and "mset ss = mset (map S L)" and "inj_on tok (set L)"
    and "\<And>l. l \<in> set L \<Longrightarrow> keyE (E l) = tok l" and "\<And>l. l \<in> set L \<Longrightarrow> keyS (S l) = tok l"
    and "\<And>l. l \<in> set L \<Longrightarrow> writes_only P (both (E l) (S l))"
  shows "writes_only P (matchRows es ss keyE keyS both missing extra)"
proof (rule matchRows_writes)
  have "map (\<lambda>l. keyE (E l)) L = map (\<lambda>l. keyS (S l)) L" using assms(4,5) by simp
  then have "mset (map keyE (map E L)) = mset (map keyS (map S L))" by (simp only: map_map comp_def)
  then have "image_mset keyE (mset (map E L)) = image_mset keyS (mset (map S L))" by (simp only: mset_map)
  then show "mset (map keyE es) = mset (map keyS ss)" by (simp only: mset_map assms(1,2))
next
  fix e s assume es: "e \<in> set es" "s \<in> set ss" "keyE e = keyS s"
  have "e \<in> E ` set L" "s \<in> S ` set L" using es(1,2) mset_eq_setD [OF assms(1)] mset_eq_setD [OF assms(2)] by simp_all
  then obtain k l where kl: "k \<in> set L" "e = E k" "l \<in> set L" "s = S l" by blast
  then have "k = l" using es(3) assms(4,5) inj_onD [OF assms(3)] by metis
  then show "writes_only P (both e s)" using assms(6) [OF kl(1)] kl by simp
qed

section \<open>Offsets stay small\<close>

definition near_start :: "int \<Rightarrow> canonical_event list \<Rightarrow> bool" where
  "near_start st evs \<longleftrightarrow> (\<forall>p \<in> set (gather series_obs evs). \<bar>re_tsMs (snd p) - st\<bar> < 2 ^ 50)"

lemma width_bound:
  assumes "\<And>t. t \<in> set ts \<Longrightarrow> \<bar>t\<bar> < 2 ^ 50" and "narrowest (max 1 cap) time w M" and "set ts = time ` set_mset M"
    and "2 \<le> cap \<or> (\<forall>t \<in> set ts. 0 \<le> t)"
  shows "w \<le> 2 ^ 51"
proof (rule ccontr)
  assume big: "\<not> w \<le> 2 ^ 51"
  obtain j where w: "w = 1000 * 2 ^ j" using assms(2) by (auto simp: narrowest_def is_width_def)
  then obtain i where j: "j = Suc i" using big by (cases j) simp_all
  have v: "is_width (1000 * 2 ^ i)" "1000 * 2 ^ i < w" "2 ^ 50 \<le> (1000 * 2 ^ i :: int)"
    using big by (auto simp: w j is_width_def)
  have "int (card ((\<lambda>t. t div (1000 * 2 ^ i)) ` set ts)) \<le> max 1 cap"
    using assms(1,4) v(3) by (intro far_slots) (fastforce intro: order_less_le_trans)+
  moreover have "max 1 cap < int (card ((\<lambda>x. time x div (1000 * 2 ^ i)) ` set_mset M))"
    using assms(2) v(1,2) by (simp add: narrowest_def)
  ultimately show False by (simp add: assms(3) image_image)
qed

lemma offset_bound: "\<bar>t\<bar> < 2 ^ 50 \<Longrightarrow> 0 < w \<Longrightarrow> w \<le> 2 ^ 51 \<Longrightarrow> plain_int (t div w * w)"
proof -
  assume t: "\<bar>t\<bar> < 2 ^ 50" "0 < w" "w \<le> 2 ^ 51"
  have "t div w * w \<le> t" "t < t div w * w + w"
    using t(2) pos_mod_bound [of w t] by (simp_all add: minus_mod_eq_div_mult [symmetric])
  then have "- (2 ^ 53) < t div w * w" "t div w * w < 2 ^ 53" using t by simp_all
  then show ?thesis by (simp add: plain_int_def)
qed

section \<open>The series table\<close>

definition engine_width :: "engine_config \<Rightarrow> int \<Rightarrow> canonical_event list \<Rightarrow> row_id \<Rightarrow> int" where
  "engine_width c st evs i = seriesWidth (map (\<lambda>x. re_tsMs x - st) (obs_of i (gather series_obs evs))) (series_cap c i)"

definition table_row :: "engine_config \<Rightarrow> int \<Rightarrow> canonical_event list \<Rightarrow> row_id \<times> int \<Rightarrow> expected_series_bucket" where
  "table_row c st evs l = recomputed_bucket (fst l) (snd l)
     (slot_edges st (engine_width c st evs (fst l)) (own_edges evs (fst l)) (snd l))"

definition table_rows :: "engine_config \<Rightarrow> int \<Rightarrow> canonical_event list \<Rightarrow> row_id \<Rightarrow> (row_id \<times> int) list" where
  "table_rows c st evs i = map (Pair i) (slot_offsets st (engine_width c st evs i) (own_edges evs i))"

lemma room_of:
  assumes "stream_room c st evs"
  shows "2 \<le> series_cap c i \<or> (\<forall>t \<in> (\<lambda>x. re_tsMs x - st) ` set (obs_of i (gather series_obs evs)). 0 \<le> t)"
proof -
  have "2 \<le> series_cap c i \<or> st \<le> re_tsMs x" if "x \<in> set (obs_of i (gather series_obs evs))" for x
  proof -
    have "(i, x) \<in> set (gather series_obs evs)" using that by (auto simp: obs_of_def)
    then have "edge_room c st (i, x)" using assms by (simp only: stream_room_def)
    then show ?thesis by (simp add: edge_room_def)
  qed
  then show ?thesis by auto
qed

lemma engine_series:
  assumes "series_for c st (gather series_obs evs) i z" and "stream_room c st evs"
  obtains s where "z = (rollupKey i, i, engine_width c st evs i, buckets s)" and "bs_startMs s = st"
    and "bs_widthMs s = engine_width c st evs i" and "series_rep s (own_edges evs i)"
  using series_width [OF assms(1), of "map (\<lambda>x. re_tsMs x - st) (obs_of i (gather series_obs evs))"] room_of [OF assms(2), of i]
  by (auto simp: engine_width_def own_edges_def)

lemma engine_series_columns:
  assumes "series_for c st (gather series_obs evs) i z" and "stream_room c st evs"
  shows "(case z of (k, i, w, bs) \<Rightarrow> map (bucket_columns i) bs) =
    map (\<lambda>l. Inr (stored_bucket (table_row c st evs l))) (table_rows c st evs i)"
proof -
  obtain s where s: "z = (rollupKey i, i, engine_width c st evs i, buckets s)" "bs_startMs s = st"
    "bs_widthMs s = engine_width c st evs i" "series_rep s (own_edges evs i)"
    by (rule engine_series [OF assms]) (rule that)
  from stored_series_rep [OF s(4,2,3), of i] show ?thesis by (simp add: s(1) table_rows_def table_row_def)
qed

lemma sum_list_all_rows: "sum_list_all (map (\<lambda>x. Inr (g x)) xs) = Inr (map g xs)"
  by (induction xs) simp_all

lemma stored_table:
  assumes "list_all2 (series_for c st (gather series_obs evs)) ids zs" and "stream_room c st evs"
  shows "sum_list_all (concat (map (\<lambda>(k, i, w, bs). map (bucket_columns i) bs) zs)) =
    Inr (map (\<lambda>l. stored_bucket (table_row c st evs l)) (concat (map (table_rows c st evs) ids)))"
proof -
  have "map (\<lambda>(k, i, w, bs). map (bucket_columns i) bs) zs =
      map (\<lambda>i. map (\<lambda>l. Inr (stored_bucket (table_row c st evs l))) (table_rows c st evs i)) ids"
    using assms(1) by (induction rule: list_all2_induct) (simp_all add: engine_series_columns [OF _ assms(2), symmetric])
  then have "concat (map (\<lambda>(k, i, w, bs). map (bucket_columns i) bs) zs) =
      map (\<lambda>l. Inr (stored_bucket (table_row c st evs l))) (concat (map (table_rows c st evs) ids))"
    by (simp add: map_concat comp_def)
  then show ?thesis by (simp only: sum_list_all_rows)
qed

section \<open>The recomputed table\<close>

lemma same_width:
  assumes "series_for c st (gather series_obs evs) i z" and "stream_room c st evs"
    and "set ts = (\<lambda>x. re_tsMs x - st) ` set (obs_of i (gather series_obs evs))"
  shows "seriesWidth ts (series_cap c i) = engine_width c st evs i"
proof -
  obtain s where "z = (rollupKey i, i, seriesWidth ts (series_cap c i), buckets s)"
    by (rule series_width [OF assms(1,3)]) (use room_of [OF assms(2), of i] assms(3) in \<open>simp only:\<close>, rule that)
  moreover obtain s' where "z = (rollupKey i, i, engine_width c st evs i, buckets s')"
    by (rule engine_series [OF assms(1,2)]) (rule that)
  ultimately show ?thesis by simp
qed

lemma span_times:
  "set (concat (map (\<lambda>ob. [ob_start ob, ob_end ob]) (map (span_ob st) xs))) =
    (\<lambda>x. re_tsMs x - st) ` set (concat (map span_edges xs))"
  by (induction xs) (auto simp: an_edge_def)

lemma run_times:
  "set (concat (map (run_edges_in st) evs)) = (\<lambda>x. re_tsMs x - st) ` set (obs_of (Run, [], ResponseTimeF) (gather series_obs evs))"
proof (induction evs)
  case (Cons ev evs)
  then show ?case by (cases ev) (auto simp: obs_of_append obs_of_def both_edges_def an_edge_def)
qed (simp add: obs_of_def)

lemma one_span: "length (obs_of i (span_obs ev)) \<le> 1"
  by (cases ev) (auto simp: obs_of_def)

lemma spans_bounded: "length (obs_of i (gather span_obs evs)) \<le> length evs"
proof (induction evs)
  case (Cons ev evs)
  then show ?case using one_span [of i ev] by (simp add: obs_of_append)
qed (simp add: obs_of_def)

lemma run_scope:
  assumes "i \<in> fst ` set (gather span_obs evs)" and "fst i = Run"
  shows "i = (Run, [], ResponseTimeF)"
proof -
  have "fst p = Run \<longrightarrow> p = (Run, [], ResponseTimeF)" if "(p, x) \<in> set (span_obs ev)" for p x ev
    using that by (cases ev) auto
  with assms show ?thesis by auto
qed

lemma mset_concat_cong: "(\<And>x. x \<in> set xs \<Longrightarrow> mset (f x) = mset (g x)) \<Longrightarrow> mset (concat (map f xs)) = mset (concat (map g xs))"
  by (induction xs) simp_all

lemma recomputed_table:
  assumes ids: "list_all2 (series_for c st (gather series_obs evs)) (first_seen (map fst (gather series_obs evs))) zs"
    and room: "stream_room c st evs" and opts: "opts_for c st opts" and grp: "ec_maxBucketsGroup c = GROUP_SERIES_CAP"
    and few: "length evs \<le> 2000000"
  shows "mset (expectedSeries evs opts) =
    mset (map (table_row c st evs) (concat (map (table_rows c st evs) (first_seen (map fst (gather series_obs evs))))))"
proof -
  define all where "all = fold (observe_event opts) evs []"
  have rep: "vx.keyed_rep c st all (gather span_obs evs)" unfolding all_def by (rule observe_events_rep [OF opts grp])
  let ?given = "\<lambda>a. if sx_scope a = js ''run'' then runSeriesWidth evs opts else None"
  have run: "vp_runStartMs opts = st" "vp_maxBucketsRun opts = ec_maxBucketsRun c" using opts by (simp_all add: opts_for_def)
  have one: "mset (bucketsOf a (?given a)) = mset (map (table_row c st evs) (table_rows c st evs (series_ident a)))"
    if entry: "(k, a) \<in> set all" for k a
  proof -
    define i where "i = series_ident a"
    define xs where "xs = obs_of i (gather span_obs evs)"
    have a: "series_acc_rep c st a xs" using rep entry by (force simp: vx.keyed_rep_def i_def xs_def)
    then have fresh: "a = fresh_series c i\<lparr>sx_observations := map (span_ob st) xs\<rparr>" by (simp add: series_acc_rep_def i_def)
    have "series_ident a \<in> set (map (\<lambda>e. series_ident (snd e)) all)" using entry by force
    then have seen: "i \<in> fst ` set (gather span_obs evs)" using rep by (simp only: vx.keyed_rep_def i_def [symmetric]) simp
    then have "i \<in> set (first_seen (map fst (gather series_obs evs)))" unfolding first_seen_set set_map series_spans(2) .
    with list_all2_left [OF ids] obtain z where z: "series_for c st (gather series_obs evs) i z" by blast
    have own: "own_edges evs i = mset (concat (map span_edges xs))" by (simp add: own_edges_def series_spans(1) xs_def)
    have width: "seriesWidth (concat (map (\<lambda>ob. [ob_start ob, ob_end ob]) (sx_observations a))) (sx_cap a) = engine_width c st evs i"
    proof -
      have "sx_observations a = map (span_ob st) xs" "sx_cap a = series_cap c i" by (simp_all add: fresh fresh_series_def)
      then show ?thesis using same_width [OF z room] span_times [of st xs] by (simp only: series_spans(1) xs_def)
    qed
    have "(case ?given a of Some v \<Rightarrow> v | None \<Rightarrow>
        seriesWidth (concat (map (\<lambda>ob. [ob_start ob, ob_end ob]) (sx_observations a))) (sx_cap a)) = engine_width c st evs i"
    proof (cases "sx_scope a = js ''run'' \<and> concat (map (run_edges_in st) evs) \<noteq> []")
      case True
      then have "scope_js (fst i) = js ''run''" by (simp add: fresh fresh_series_def)
      then have "fst i = Run" by (cases "fst i") simp_all
      from run_scope [OF seen this] have i: "i = (Run, [], ResponseTimeF)" .
      have "seriesWidth (concat (map (run_edges_in st) evs)) (series_cap c i) = engine_width c st evs i"
        using same_width [OF z room] run_times [of st evs] unfolding i by (simp only:)
      moreover have "?given a = Some (seriesWidth (concat (map (run_edges_in st) evs)) (ec_maxBucketsRun c))"
        using True unfolding runSeriesWidth_def run Let_def by (simp only: simp_thms if_True if_False)
      ultimately show ?thesis by (simp add: i)
    next
      case False
      then have "?given a = None" by (auto simp: runSeriesWidth_def run)
      then show ?thesis using width by simp
    qed
    moreover have "0 < engine_width c st evs i" using series_rep_width by (metis engine_series [OF z room])
    moreover have "4 * length xs \<le> 8000000" using spans_bounded [of i evs] few by (simp add: xs_def)
    ultimately have "mset (bucketsOf a (?given a)) =
        mset (map (\<lambda>off. recomputed_bucket i off (slot_edges st (engine_width c st evs i) (own_edges evs i) off))
          (slot_offsets st (engine_width c st evs i) (own_edges evs i)))"
      unfolding own by (intro bucketsOf_rep [OF a]) (simp_all add: i_def)
    then show ?thesis by (simp add: table_rows_def table_row_def comp_def i_def)
  qed
  have "mset (expectedSeries evs opts) = mset (concat (map (\<lambda>(_, a). bucketsOf a (?given a)) all))"
    by (simp add: expectedSeries_def all_def Let_def)
  also have "\<dots> = mset (concat (map (\<lambda>e. map (table_row c st evs) (table_rows c st evs (series_ident (snd e)))) all))"
    using one by (intro mset_concat_cong) auto
  also have "\<dots> = mset (concat (map (\<lambda>i. map (table_row c st evs) (table_rows c st evs i)) (map (\<lambda>e. series_ident (snd e)) all)))"
    by (simp add: comp_def)
  also have "map (\<lambda>e. series_ident (snd e)) all = first_seen (map fst (gather span_obs evs))"
    using rep by (simp add: vx.keyed_rep_def)
  also have "mset (concat (map (\<lambda>i. map (table_row c st evs) (table_rows c st evs i)) (first_seen (map fst (gather span_obs evs))))) =
      mset (concat (map (\<lambda>i. map (table_row c st evs) (table_rows c st evs i)) (first_seen (map fst (gather series_obs evs)))))"
  proof (rule mset_concat_map)
    have "set (first_seen (map fst (gather span_obs evs))) = set (first_seen (map fst (gather series_obs evs)))"
      unfolding first_seen_set set_map series_spans(2) ..
    then show "mset (first_seen (map fst (gather span_obs evs))) = mset (first_seen (map fst (gather series_obs evs)))"
      using set_eq_iff_mset_eq_distinct first_seen_set(2) by blast
  qed
  also have "concat (map (\<lambda>i. map (table_row c st evs) (table_rows c st evs i)) (first_seen (map fst (gather series_obs evs)))) =
      map (table_row c st evs) (concat (map (table_rows c st evs) (first_seen (map fst (gather series_obs evs)))))"
    by (simp add: map_concat comp_def)
  finally show ?thesis .
qed

section \<open>The comparison\<close>

definition table_token :: "row_id \<times> int \<Rightarrow> jstr" where
  "table_token l = nul_key (fst l) @ [nul] @ js_int (snd l)"

lemma table_token_inj: "(\<And>l. l \<in> A \<Longrightarrow> plain_int (snd l)) \<Longrightarrow> inj_on table_token A"
proof (rule inj_onI)
  fix k l assume plain: "\<And>l. l \<in> A \<Longrightarrow> plain_int (snd l)" and kl: "k \<in> A" "l \<in> A" "table_token k = table_token l"
  from kl(3) have "nul_key (fst k) @ nul # js_int (snd k) = nul_key (fst l) @ nul # js_int (snd l)" by (simp add: table_token_def)
  from append_sep_eq_right [OF this nul_js_int nul_js_int] plain kl
  have "nul_key (fst k) = nul_key (fst l)" "js_int (snd k) = js_int (snd l)" by blast+
  then show "k = l" using nul_key_inj js_int_inj plain kl by (metis prod_eqI)
qed

lemma table_keys:
  "series_key4 (xb_scope (table_row c st evs l)) (xb_name (table_row c st evs l)) (xb_family (table_row c st evs l))
     (xb_startOffsetMs (table_row c st evs l)) = table_token l"
  by (cases l; cases "fst l") (simp add: table_row_def recomputed_bucket_def series_key4_def table_token_def Let_def)

lemma table_offsets_plain:
  assumes "series_for c st (gather series_obs evs) i z" and "stream_room c st evs" and "near_start st evs"
    and "l \<in> set (table_rows c st evs i)"
  shows "plain_int (snd l)"
proof -
  let ?M = "own_edges evs i" and ?w = "engine_width c st evs i"
  obtain s where s: "bs_startMs s = st" "bs_widthMs s = ?w" "series_rep s ?M" "bs_maxBuckets s = max 1 (series_cap c i)"
  proof -
    obtain s where s: "z = (rollupKey i, i, bs_widthMs s, buckets s)" "bs_startMs s = st"
      "bs_maxBuckets s = max 1 (series_cap c i)" "series_rep s ?M" using assms(1) by (auto simp: series_for_def own_edges_def)
    moreover obtain s' where "z = (rollupKey i, i, ?w, buckets s')" by (rule engine_series [OF assms(1,2)]) (rule that)
    ultimately show thesis using that by simp
  qed
  have close: "\<bar>re_tsMs x - st\<bar> < 2 ^ 50" if "x \<in># ?M" for x
  proof -
    have "(i, x) \<in> set (gather series_obs evs)" using that by (auto simp: own_edges_def obs_of_def)
    with assms(3) have "\<bar>re_tsMs (snd (i, x)) - st\<bar> < 2 ^ 50" unfolding near_start_def by (rule bspec)
    then show ?thesis by simp
  qed
  have "?w \<le> 2 ^ 51"
  proof (rule width_bound)
    show "narrowest (max 1 (series_cap c i)) (\<lambda>x. re_tsMs x - st) ?w ?M" using s by (simp add: series_rep_def)
    show "set (map (\<lambda>x. re_tsMs x - st) (obs_of i (gather series_obs evs))) = (\<lambda>x. re_tsMs x - st) ` set_mset ?M"
      by (simp add: own_edges_def)
    show "2 \<le> series_cap c i \<or> (\<forall>t \<in> set (map (\<lambda>x. re_tsMs x - st) (obs_of i (gather series_obs evs))). 0 \<le> t)"
      using room_of [OF assms(2), of i] by simp
  next
    fix t assume "t \<in> set (map (\<lambda>x. re_tsMs x - st) (obs_of i (gather series_obs evs)))"
    then show "\<bar>t\<bar> < 2 ^ 50" using close by (auto simp: own_edges_def)
  qed
  moreover have "0 < ?w" using series_rep_width [OF s(3)] s(2) by simp
  moreover obtain x where "x \<in># ?M" "snd l = (re_tsMs x - st) div ?w * ?w"
    using assms(4) by (auto simp: table_rows_def slot_offsets_def)
  ultimately show ?thesis using offset_bound close by metis
qed

lemma compareSeries_writes:
  assumes ids: "list_all2 (series_for c st (gather series_obs evs)) (first_seen (map fst (gather series_obs evs))) zs"
    and room: "stream_room c st evs" and opts: "opts_for c st opts" and grp: "ec_maxBucketsGroup c = GROUP_SERIES_CAP"
    and few: "length evs \<le> 2000000" and near: "near_start st evs"
    and rows: "sum_list_all (concat (map (\<lambda>(k, i, w, bs). map (bucket_columns i) bs) zs)) = Inr series"
    and kept: "mset (so_series stored) = mset series"
  shows "writes_only P (compareSeries (expectedFrom lc evs opts) stored)"
proof -
  define L where "L = concat (map (table_rows c st evs) (first_seen (map fst (gather series_obs evs))))"
  have series: "series = map (\<lambda>l. stored_bucket (table_row c st evs l)) L"
    using stored_table [OF ids room] rows by (simp add: L_def)
  have plain: "plain_int (snd l)" if l: "l \<in> set L" for l
  proof -
    obtain i where i: "i \<in> set (first_seen (map fst (gather series_obs evs)))" "l \<in> set (table_rows c st evs i)"
      using l unfolding L_def set_concat set_map by blast
    from list_all2_left [OF ids i(1)] obtain z where "series_for c st (gather series_obs evs) i z" by blast
    from table_offsets_plain [OF this room near i(2)] show ?thesis .
  qed
  have stored_key: "zb_scope (stored_bucket e) = xb_scope e" "zb_name (stored_bucket e) = xb_name e"
    "zb_family (stored_bucket e) = xb_family e" "zb_startOffsetMs (stored_bucket e) = xb_startOffsetMs e" for e
    by (simp_all add: stored_bucket_def)
  show ?thesis unfolding compareSeries_def
  proof (rule matchRows_paired)
    show "mset (ex_series (expectedFrom lc evs opts)) = mset (map (table_row c st evs) L)"
      using recomputed_table [OF ids room opts grp few] by (simp add: expectedFrom_def L_def)
    show "mset (so_series stored) = mset (map (\<lambda>l. stored_bucket (table_row c st evs l)) L)" using kept by (simp add: series)
    show "inj_on table_token (set L)" using plain by (rule table_token_inj)
  qed (use table_keys series_both_writes in \<open>simp_all only: stored_key\<close>)
qed

end
