(* ===== verification/VerifyFailures.thy ===== *)
theory VerifyFailures
  imports VerifyTables LiveErrors
begin

text \<open>
  The failures on the time axis: the recomputation admits the same messages, puts every failure in the same
  slot and ranks the same totals, so its rows are the engine's.
\<close>

section \<open>The scan\<close>

fun as_bucket :: "(jstr, int) jmap \<times> int \<Rightarrow> error_bucket" where
  "as_bucket (counts, overflow) = \<lparr>eb_counts = counts, eb_overflow = overflow\<rparr>"

definition pair_rep :: "int \<Rightarrow> (jstr, int) jmap \<times> int \<Rightarrow> failure multiset \<Rightarrow> bool" where
  "pair_rep off b M \<longleftrightarrow> error_bucket_rep off (as_bucket b) M"

lemma keys_in_order: "map fst (jm_set k v m) = set_insert k (map fst m)"
  by (induction m) (auto simp: set_insert_def)

definition failures_seen :: "int \<Rightarrow> int \<Rightarrow> (int \<times> jstr) list \<Rightarrow> failure_scan \<Rightarrow> failure multiset \<Rightarrow> bool" where
  "failures_seen st w F s M \<longleftrightarrow> image_mset event_of M = mset F \<and> counts_rep (fx_totals s) (admitted M) \<and>
     map fst (fx_totals s) = fold track (map snd F) [] \<and>
     (\<forall>x \<in># M. fl_admitted x \<longleftrightarrow> fl_message x \<in> set (map fst (fx_totals s))) \<and>
     (length (fx_totals s) < MAX_TRACKED_MESSAGES \<longrightarrow> (\<forall>x \<in># M. fl_admitted x)) \<and>
     axis_rep (\<lambda>x. fl_tsMs x - st) pair_rep w (fx_buckets s) M"

text \<open>One failure, and which failures an event has.\<close>

definition failure_at :: "int \<Rightarrow> int \<Rightarrow> int \<times> jstr \<Rightarrow> failure_scan \<Rightarrow> failure_scan" where
  "failure_at st w f s =
     (let index = (fst f - st) div w; b = (case jm_get (fx_buckets s) index of Some b \<Rightarrow> b | None \<Rightarrow> ([], 0));
          label = snd f
      in if label \<notin> set (map fst (fx_totals s)) \<and> MAX_TRACKED_MESSAGES \<le> length (fx_totals s)
         then s\<lparr>fx_buckets := jm_set index (fst b, snd b + 1) (fx_buckets s)\<rparr>
         else s\<lparr>fx_totals := bump label 1 (fx_totals s),
           fx_buckets := jm_set index (bump label 1 (fst b), snd b) (fx_buckets s)\<rparr>)"

lemma no_key: "jm_get m k = None \<longleftrightarrow> k \<notin> set (map fst m)"
  by (simp add: map_of_eq_None_iff)

lemma failure_event_at:
  "vp_runStartMs opts = st \<Longrightarrow> failure_event opts w ev s = fold (failure_at st w) (failure_obs ev) s"
  by (cases ev) (auto simp: failure_at_def Let_def no_key errorLabel_eq ERROR_BUCKET_ADMISSION_def MAX_TRACKED_MESSAGES_def
      verify_bump_def bump_def split: prod.splits option.splits)

lemma failure_at_seen:
  assumes "failures_seen st w F s M"
  shows "\<exists>M'. failures_seen st w (F @ [f]) (failure_at st w f s) M'"
proof -
  let ?time = "\<lambda>x. fl_tsMs x - st"
  define index where "index = (fst f - st) div w"
  define b where "b = (case jm_get (fx_buckets s) index of Some b \<Rightarrow> b | None \<Rightarrow> ([], 0))"
  define full where "full \<longleftrightarrow> snd f \<notin> set (map fst (fx_totals s)) \<and> MAX_TRACKED_MESSAGES \<le> length (fx_totals s)"
  define x where "x = \<lparr>fl_tsMs = fst f, fl_message = snd f, fl_admitted = (\<not> full)\<rparr>"
  have old: "image_mset event_of M = mset F" "counts_rep (fx_totals s) (admitted M)"
    "map fst (fx_totals s) = fold track (map snd F) []"
    "\<forall>x \<in># M. fl_admitted x \<longleftrightarrow> fl_message x \<in> set (map fst (fx_totals s))"
    "length (fx_totals s) < MAX_TRACKED_MESSAGES \<longrightarrow> (\<forall>x \<in># M. fl_admitted x)"
    and axis: "axis_rep ?time pair_rep w (fx_buckets s) M" using assms unfolding failures_seen_def by blast+
  have "slot_rep pair_rep (index * w) (jm_get (fx_buckets s) index) (in_slot ?time w index M)"
    using axis by (simp add: axis_rep_def)
  then have b: "counts_rep (fst b) (admitted (in_slot ?time w index M))" "snd b = int (size (turned_away (in_slot ?time w index M)))"
    by (cases "jm_get (fx_buckets s) index"; cases b; simp add: b_def pair_rep_def error_bucket_rep_def admitted_def turned_away_def)+
  define b' where "b' = (if full then (fst b, snd b + 1) else (bump (snd f) 1 (fst b), snd b))"
  define totals where "totals = (if full then fx_totals s else bump (snd f) 1 (fx_totals s))"
  have step: "failure_at st w f s = s\<lparr>fx_totals := totals, fx_buckets := jm_set index b' (fx_buckets s)\<rparr>"
    unfolding failure_at_def Let_def index_def [symmetric] b_def [symmetric] full_def [symmetric]
    by (cases full) (simp_all add: totals_def b'_def)
  have "pair_rep (index * w) b' (add_mset x (in_slot ?time w index M))"
    using b counts_rep_bump [OF b(1), of 1 "snd f"]
    by (simp add: b'_def pair_rep_def error_bucket_rep_def admitted_def turned_away_def x_def)
  then have "axis_rep ?time pair_rep w (jm_set index b' (fx_buckets s)) (add_mset x M)"
    by (intro axis_rep_add [OF axis]) (simp_all add: index_def x_def)
  moreover have "counts_rep totals (admitted (add_mset x M))"
    using old(2) counts_rep_bump [OF old(2), of 1 "snd f"] by (simp add: totals_def admitted_def x_def)
  moreover have keys: "map fst totals = track (snd f) (map fst (fx_totals s))"
    by (auto simp: totals_def full_def bump_def keys_in_order track_def)
  moreover have "\<forall>y \<in># add_mset x M. fl_admitted y \<longleftrightarrow> fl_message y \<in> set (map fst totals)"
    using old(4,5) unfolding keys by (auto simp: track_def x_def full_def intro: rev_image_eqI)
  moreover have "length totals < MAX_TRACKED_MESSAGES \<longrightarrow> (\<forall>y \<in># add_mset x M. fl_admitted y)"
  proof -
    have "length totals = length (track (snd f) (map fst (fx_totals s)))" using keys by (metis length_map)
    then show ?thesis using old(5) by (auto simp: track_def x_def full_def set_insert_def split: if_splits)
  qed
  moreover have "event_of x = f" by (simp add: event_of_def x_def)
  ultimately have "failures_seen st w (F @ [f]) (failure_at st w f s) (add_mset x M)"
    using old(1,3) by (simp add: failures_seen_def step)
  then show ?thesis ..
qed

definition no_failures :: failure_scan where
  "no_failures = \<lparr>fx_totals = [], fx_buckets = []\<rparr>"

lemma fold_gather: "(\<And>x s. g x s = fold h (f x) s) \<Longrightarrow> fold g xs s = fold h (concat (map f xs)) s"
  by (induction xs arbitrary: s) simp_all

lemma failures_scanned:
  assumes "vp_runStartMs opts = st"
  obtains M where "failures_seen st w (gather failure_obs evs) (fold (failure_event opts w) evs no_failures) M"
proof -
  have "\<exists>M. failures_seen st w F (fold (failure_at st w) F no_failures) M" for F
  proof (induction F rule: rev_induct)
    case Nil
    have "failures_seen st w [] no_failures {#}" by (simp add: failures_seen_def no_failures_def admitted_def)
    then show ?case by auto
  next
    case (snoc f F)
    then show ?case using failure_at_seen by fastforce
  qed
  moreover have "fold (failure_event opts w) evs no_failures = fold (failure_at st w) (gather failure_obs evs) no_failures"
    by (rule fold_gather) (rule failure_event_at [OF assms])
  ultimately show thesis using that by metis
qed

text \<open>Which failures were admitted is a function of the failures.\<close>

lemma admissions_determined:
  assumes "image_mset event_of M = image_mset event_of N" and "\<forall>x \<in># M. fl_admitted x \<longleftrightarrow> fl_message x \<in> T"
    and "\<forall>x \<in># N. fl_admitted x \<longleftrightarrow> fl_message x \<in> T"
  shows "M = (N :: failure multiset)"
proof -
  define mk where "mk = (\<lambda>(t, m). \<lparr>fl_tsMs = t, fl_message = m, fl_admitted = (m \<in> T)\<rparr>)"
  have "image_mset mk (image_mset event_of K) = K" if "\<forall>x \<in># K. fl_admitted x \<longleftrightarrow> fl_message x \<in> T" for K
  proof -
    have "image_mset mk (image_mset event_of K) = image_mset (\<lambda>x. x) K"
      unfolding image_mset.compositionality using that by (intro image_mset_cong) (simp add: mk_def event_of_def)
    then show ?thesis by simp
  qed
  with assms show ?thesis by metis
qed

section \<open>The rows of a slot\<close>

definition ranked_names :: "(jstr \<Rightarrow> jstr \<Rightarrow> int) \<Rightarrow> (jstr, int) jmap \<Rightarrow> jstr list" where
  "ranked_names lc totals = map fst (take ERROR_SERIES_KEEP (js_sort (cmp_count_desc lc) totals))"

lemma fold_outside: "fold (\<lambda>e n. if P e then n else n + snd e) es n = n + (\<Sum>e \<leftarrow> filter (\<lambda>e. \<not> P e) es. snd e)"
  for n :: int
  by (induction es arbitrary: n) auto

lemma row_columns: "error_bucket_columns w \<lparr>er_startOffsetMs = off, er_message = m, er_count = n\<rparr> =
  \<lparr>xg_startOffsetMs = off, xg_message = (case m of Some s \<Rightarrow> s | None \<Rightarrow> []), xg_isOther = (m = None), xg_count = n, xg_bucketWidthMs = w\<rparr>"
  by (simp add: error_bucket_columns_def)

lemma named_rows:
  assumes "jm_ok counts" and "distinct ranked"
  shows "mset (concat (map (\<lambda>m. case jm_get counts m of None \<Rightarrow> [] | Some n \<Rightarrow> [f m n]) ranked)) =
    mset (map (\<lambda>(m, n). f m n) (filter (\<lambda>e. fst e \<in> set ranked) counts))"
  using assms
proof (induction ranked)
  case (Cons m ms)
  have "mset (filter (\<lambda>e. fst e \<in> set (m # ms)) counts) =
      mset (filter (\<lambda>e. fst e = m) counts) + mset (filter (\<lambda>e. fst e \<in> set ms) counts)"
    using Cons.prems(2) by (induction counts) auto
  moreover have "filter (\<lambda>e. fst e = m) counts = (case jm_get counts m of None \<Rightarrow> [] | Some n \<Rightarrow> [(m, n)])"
    using Cons.prems(1)
  proof (induction counts)
    case (Cons e es)
    have ok: "fst e \<notin> fst ` set es" "jm_ok es" using Cons.prems by (cases e; simp add: jm_ok_Cons)+
    then have "fst e = m \<Longrightarrow> filter (\<lambda>e. fst e = m) es = []" by (auto simp: filter_empty_conv intro: rev_image_eqI)
    with Cons.IH [OF ok(2)] show ?case by (cases e) auto
  qed simp
  ultimately have "mset (map (\<lambda>(m, n). f m n) (filter (\<lambda>e. fst e \<in> set (m # ms)) counts)) =
      mset (case jm_get counts m of None \<Rightarrow> [] | Some n \<Rightarrow> [f m n]) + mset (map (\<lambda>(m, n). f m n) (filter (\<lambda>e. fst e \<in> set ms) counts))"
    by (simp add: mset_map split: option.splits)
  with Cons show ?case by simp
qed simp

lemma failure_rows_same:
  assumes "jm_ok (fst b)" and "distinct ranked"
  shows "mset (failure_rows w ranked (i, b)) = mset (map (error_bucket_columns w) (error_rows w ranked (i, as_bucket b)))"
proof -
  obtain counts overflow where b: "b = (counts, overflow)" by fastforce
  define row where "row = (\<lambda>message isOther count. \<lparr>xg_startOffsetMs = i * w, xg_message = message, xg_isOther = isOther,
            xg_count = count, xg_bucketWidthMs = w\<rparr>)"
  define other where "other = overflow + (\<Sum>e \<leftarrow> filter (\<lambda>e. fst e \<notin> set ranked) counts. snd e)"
  have "mset (failure_rows w ranked (i, b)) = mset (if 0 < other then [row [] True other] else []) +
      mset (map (\<lambda>(m, n). row m False n) (filter (\<lambda>e. fst e \<in> set ranked) counts))"
    by (simp add: failure_rows_def b Let_def fold_outside other_def row_def)
  moreover have "mset (map (error_bucket_columns w) (error_rows w ranked (i, as_bucket b))) =
      mset (concat (map (\<lambda>m. case jm_get counts m of None \<Rightarrow> [] | Some n \<Rightarrow> [row m False n]) ranked)) +
      mset (if 0 < other then [row [] True other] else [])"
  proof -
    have "map (error_bucket_columns w) (concat (map (\<lambda>m. case jm_get counts m of None \<Rightarrow> []
             | Some n \<Rightarrow> [\<lparr>er_startOffsetMs = i * w, er_message = Some m, er_count = n\<rparr>]) ms)) =
        concat (map (\<lambda>m. case jm_get counts m of None \<Rightarrow> [] | Some n \<Rightarrow> [row m False n]) ms)" for ms
      by (induction ms) (simp_all add: row_columns row_def split: option.splits)
    then show ?thesis by (simp add: error_rows_def b Let_def other_def row_columns row_def)
  qed
  ultimately show ?thesis using named_rows [OF assms(1,2) [unfolded b fst_conv], of "\<lambda>m n. row m False n"]
    by (simp add: b)
qed

end
