(* ===== verification/VerifyErrorBuckets.thy ===== *)
theory VerifyErrorBuckets
  imports VerifyFailures
begin

text \<open>The rows of the failures per bucket, as the engine stores them and as they are recomputed.\<close>

section \<open>The engine's rows\<close>

lemma run_errors_at:
  assumes "runnable (engine_config_of opts) m evs" and "fits (engine_config_of opts) evs"
    and "runEngine lc (MetaE m # evs) opts = Some (EngineDone res)"
  obtains e e' where "engine_rep (engine_config_of opts) m evs e" and "snapshot_error_series lc e = Some (xr_errorSeries res, e')"
proof -
  have "\<exists>e. engine_fold evs (add_meta m (new_engine opts)) = Some (Inr e) \<and> engine_rep (engine_config_of opts) m evs e"
    using engine_fold_rep [OF engine_rep_start, of opts m evs] assms(1,2) by (simp add: runnable_def)
  then obtain e where e: "engine_fold evs (add_meta m (new_engine opts)) = Some (Inr e)"
    "engine_rep (engine_config_of opts) m evs e" by blast
  from snapshot_rep [OF e(2) assms(1), of lc False] obtain res' e' where
    snap: "engine_snapshot lc False e = Some (Inr (res', e'))" by blast
  with e(1) assms(3) have "res' = res" by (simp add: runEngine_def engine_add_def)
  with snap have "\<exists>e''. snapshot_error_series lc e = Some (xr_errorSeries res, e'')"
  proof (cases "snapshot_stats False e")
    case (Inr stats)
    then show ?thesis using snap \<open>res' = res\<close>
      by (cases "evaluateToolAssertions (le_declaredAssertions e) stats")
        (auto simp: engine_snapshot_def Option.bind_eq_Some_conv)
  qed (auto simp: engine_snapshot_def Option.bind_eq_Some_conv)
  with e(2) that show thesis by blast
qed

definition series_rows :: "(jstr \<Rightarrow> jstr \<Rightarrow> int) \<Rightarrow> int \<Rightarrow> (int, error_bucket) jmap \<Rightarrow> error_series_row list" where
  "series_rows lc w m = concat (map (error_rows w (ranked_names lc (error_totals m))) (by_index m))"

lemma finish_rows:
  assumes "error_series_fit s M" and "is_width W" and "es_widthMs s \<le> W"
  shows "\<exists>m. error_series_finish lc W ERROR_SERIES_KEEP s =
      Some (\<lparr>ez_bucketWidthMs = W, ez_rows = series_rows lc W m\<rparr>, s\<lparr>es_widthMs := W, es_buckets := m\<rparr>) \<and>
    axis_rep (\<lambda>x. fl_tsMs x - es_startMs s) error_bucket_rep W m M"
proof -
  obtain m where m: "widen W (es_widthMs s) (es_buckets s) = Some (W, m)"
    "axis_rep (\<lambda>x. fl_tsMs x - es_startMs s) error_bucket_rep W m M"
    using finish_rep_errors [OF assms(1), of W] assms(2,3) by metis
  then show ?thesis by (auto simp: error_series_finish_def Let_def series_rows_def ranked_names_def)
qed

text \<open>What the error series of an engine holds after a stream with requests.\<close>

lemma engine_error_rows:
  assumes rep: "engine_rep c m evs e" and room: "stream_room c (me_startedAtMs m) evs" and some: "gather requests_in evs \<noteq> []"
    and snap: "snapshot_error_series lc e = Some (z, e')"
  obtains M bm zr where "axis_rep (\<lambda>x. fl_tsMs x - me_startedAtMs m) error_bucket_rep (ez_bucketWidthMs z) bm M"
    and "ez_rows z = series_rows lc (ez_bucketWidthMs z) bm" and "image_mset event_of M = mset (gather failure_obs evs)"
    and "\<forall>x \<in># M. fl_admitted x \<longleftrightarrow> fl_message x \<in> set (fold track (map snd (gather failure_obs evs)) [])"
    and "ez_bucketWidthMs z = engine_width c (me_startedAtMs m) evs run_id"
    and "series_for c (me_startedAtMs m) (gather series_obs evs) run_id zr"
proof -
  let ?st = "me_startedAtMs m" and ?X = "gather series_obs evs" and ?F = "gather failure_obs evs"
  have acc: "kx.keyed_rep c ?st (le_series e) ?X" "failures_rep e ?F" and cfg: "le_cfg e = c" "le_runStartMs e = ?st"
    using rep by (auto simp: engine_rep_def acc_def)
  have "run_id \<in> fst ` set ?X" using some by (simp only: run_id_seen) simp
  from run_entry [OF acc(1) this] obtain en where
    en: "jm_get (le_series e) (rollupKey run_id) = Some en" "entry_rep c ?st en (obs_of run_id ?X)" "sn_id en = run_id" .
  let ?s = "sn_series en"
  define w where "w = bs_widthMs ?s"
  have series: "series_rep ?s (mset (obs_of run_id ?X))" "bs_startMs ?s = ?st" "bs_maxBuckets ?s = max 1 (ec_maxBucketsRun c)"
    using en(2,3) by (simp_all add: entry_rep_def run_id_def)
  define zr where "zr = (rollupKey run_id, run_id, w, buckets ?s)"
  have zr: "series_for c ?st ?X run_id zr"
    using series by (auto simp: series_for_def zr_def w_def run_id_def)
  have w_eq: "w = engine_width c ?st evs run_id" by (rule engine_series [OF zr room]) (simp add: zr_def)
  have "le_runResponseSeries e = Some (rollupKey run_id)"
    using rep some by (simp only: engine_rep_def Let_def if_False run_id_def)
  then have width: "run_width e = w" "is_width w"
    using en(1) series_rep_width [OF series(1)] by (simp_all add: run_width_def w_def)
  show thesis
  proof (cases "le_errorSeries e")
    case None
    then have "?F = []" using acc(2) by (simp add: failures_rep_def)
    moreover have "z = \<lparr>ez_bucketWidthMs = w, ez_rows = []\<rparr>" using snap None width(1) by (simp add: snapshot_error_series_def)
    ultimately show thesis using w_eq
      by (intro that [of "[]" "{#}", OF _ _ _ _ _ zr]) (simp_all add: series_rows_def by_index_def)
  next
    case (Some s)
    then have add: "add_failures ?F (new_error_series ?st (ec_maxBucketsRun c)) = Some s"
      using acc(2) cfg by (simp add: failures_rep_def)
    from add_failures_new [OF failures_room [OF room]] add obtain M where M: "error_series_rep s M" "image_mset event_of M = mset ?F"
      "es_startMs s = ?st" "es_maxBuckets s = max 1 (ec_maxBucketsRun c)"
      "es_tracked s = take MAX_TRACKED_MESSAGES (first_seen (map snd ?F))" by (metis option.inject)
    have "fl_tsMs ` set_mset M = fst ` set_mset (image_mset event_of M)" by (simp add: image_image event_of_def)
    also have "\<dots> = set (map fst ?F)" by (simp add: M(2))
    also have "\<dots> \<subseteq> re_tsMs ` set (obs_of run_id ?X)" unfolding failure_times by auto
    finally have "es_widthMs s \<le> w" unfolding w_def using series M by (intro failures_width_le) simp_all
    moreover have fit: "error_series_fit s M" using M(1) by (simp add: error_series_rep_def)
    ultimately obtain bm where bm: "error_series_finish lc w ERROR_SERIES_KEEP s =
        Some (\<lparr>ez_bucketWidthMs = w, ez_rows = series_rows lc w bm\<rparr>, s\<lparr>es_widthMs := w, es_buckets := bm\<rparr>)"
      "axis_rep (\<lambda>x. fl_tsMs x - ?st) error_bucket_rep w bm M"
      using finish_rows [OF _ width(2), of s M lc] M(3) by metis
    then have z: "z = \<lparr>ez_bucketWidthMs = w, ez_rows = series_rows lc w bm\<rparr>"
      using snap Some width(1) by (simp add: snapshot_error_series_def)
    have "\<forall>x \<in># M. fl_admitted x \<longleftrightarrow> fl_message x \<in> set (fold track (map snd ?F) [])"
      using fit unfolding error_series_fit_def M(5) track_first_seen by blast
    with bm(2) M(2) w_eq show thesis by (intro that [of bm M, OF _ _ _ _ _ zr]) (simp_all add: z)
  qed
qed

section \<open>The recomputed rows\<close>

definition as_buckets :: "(int, (jstr, int) jmap \<times> int) jmap \<Rightarrow> (int, error_bucket) jmap" where
  "as_buckets bs = map (map_prod id as_bucket) bs"

lemma axis_as_buckets: "axis_rep time pair_rep w bs M \<Longrightarrow> axis_rep time error_bucket_rep w (as_buckets bs) M"
proof -
  assume axis: "axis_rep time pair_rep w bs M"
  have "jm_get (as_buckets bs) i = map_option as_bucket (jm_get bs i)" for i
    unfolding as_buckets_def by (induction bs) auto
  moreover have "slot_rep error_bucket_rep off (map_option as_bucket b) N" if "slot_rep pair_rep off b N" for off b N
    using that by (cases b) (simp_all add: pair_rep_def)
  moreover have "jm_ok (as_buckets bs)" using axis by (simp add: as_buckets_def axis_rep_def jm_ok_def comp_def case_prod_beta)
  ultimately show ?thesis using axis by (simp add: axis_rep_def)
qed

lemma error_buckets_same:
  assumes lc: "strict_cmp lc" and st: "vp_runStartMs opts = st" and width: "runSeriesWidth evs opts = Some w"
    and bm: "axis_rep (\<lambda>x. fl_tsMs x - st) error_bucket_rep w bm M" and F: "image_mset event_of M = mset (gather failure_obs evs)"
    and adm: "\<forall>x \<in># M. fl_admitted x \<longleftrightarrow> fl_message x \<in> set (fold track (map snd (gather failure_obs evs)) [])"
  shows "mset (expectedErrorBuckets lc evs opts) = mset (map (error_bucket_columns w) (series_rows lc w bm))"
proof -
  define s where "s = fold (failure_event opts w) evs no_failures"
  obtain N where N: "failures_seen st w (gather failure_obs evs) s N"
    using failures_scanned [OF st, where w = w and evs = evs] unfolding s_def by blast
  have "N = M"
  proof (rule admissions_determined)
    show "image_mset event_of N = image_mset event_of M" using N F by (simp add: failures_seen_def)
    show "\<forall>x \<in># N. fl_admitted x \<longleftrightarrow> fl_message x \<in> set (fold track (map snd (gather failure_obs evs)) [])"
      using N unfolding failures_seen_def by metis
  qed (rule adm)
  with N have seen: "counts_rep (fx_totals s) (admitted M)" "axis_rep (\<lambda>x. fl_tsMs x - st) pair_rep w (fx_buckets s) M"
    by (simp_all add: failures_seen_def)
  define am where "am = as_buckets (fx_buckets s)"
  have am: "axis_rep (\<lambda>x. fl_tsMs x - st) error_bucket_rep w am M" unfolding am_def by (rule axis_as_buckets [OF seen(2)])
  define ranked where "ranked = ranked_names lc (fx_totals s)"
  have top: "map fst (take ERROR_BUCKET_TOP (ranked_labels lc (fx_totals s))) = ranked"
    by (simp add: ranked_def ranked_names_def ranked_labels_eq ERROR_BUCKET_TOP_def ERROR_SERIES_KEEP_def)
  have "js_sort (cmp_count_desc lc) (fx_totals s) = js_sort (cmp_count_desc lc) (error_totals am)"
    using counts_rep_unique [OF seen(1) error_totals_rep [OF am]] by (intro js_sort_unique strict_desc lc)
  then have ranked_am: "ranked = ranked_names lc (error_totals am)" by (simp add: ranked_def ranked_names_def)
  have dist: "distinct ranked" unfolding ranked_am ranked_names_def by (rule ranked_distinct [OF am])
  have row: "mset (failure_rows w ranked e) = mset (map (error_bucket_columns w) (error_rows w ranked (map_prod id as_bucket e)))"
    if e: "e \<in> set (fx_buckets s)" for e
  proof -
    obtain i b where ib: "e = (i, b)" by (rule prod.exhaust)
    have "jm_get (fx_buckets s) i = Some b" using e seen(2) by (simp add: ib axis_rep_def jm_ok_def)
    then have "pair_rep (i * w) b (in_slot (\<lambda>x. fl_tsMs x - st) w i M)" using seen(2) unfolding axis_rep_def by (metis slot_rep.simps(2))
    then have "jm_ok (fst b)" by (cases b) (simp add: pair_rep_def error_bucket_rep_def counts_rep_def)
    from failure_rows_same [OF this dist, of w i] show ?thesis by (simp add: ib)
  qed
  have "mset (expectedErrorBuckets lc evs opts) = mset (concat (map (failure_rows w ranked) (fx_buckets s)))"
    unfolding expectedErrorBuckets_def width option.case Let_def s_def [unfolded no_failures_def, symmetric] top
    by (rule mset_concat_map) simp
  also have "\<dots> = mset (concat (map (\<lambda>e. map (error_bucket_columns w) (error_rows w ranked (map_prod id as_bucket e))) (fx_buckets s)))"
    using row by (rule mset_concat_cong)
  also have "concat (map (\<lambda>e. map (error_bucket_columns w) (error_rows w ranked (map_prod id as_bucket e))) (fx_buckets s)) =
      concat (map (\<lambda>e. map (error_bucket_columns w) (error_rows w ranked e)) am)"
    by (simp add: am_def as_buckets_def comp_def)
  also have "mset \<dots> = mset (concat (map (\<lambda>e. map (error_bucket_columns w) (error_rows w ranked e)) (by_index am)))"
    by (rule mset_concat_map) (simp add: by_index_def)
  also have "concat (map (\<lambda>e. map (error_bucket_columns w) (error_rows w ranked e)) (by_index am)) =
      map (error_bucket_columns w) (series_rows lc w am)"
    by (simp add: series_rows_def ranked_am map_concat comp_def)
  also have "series_rows lc w am = series_rows lc w bm"
    unfolding series_rows_def ranked_names_def by (rule rows_determined [OF am bm lc])
  finally show ?thesis .
qed

section \<open>One row per key\<close>

lemma slot_row_entry:
  assumes "r \<in> set (slot_rows w ranked S i)"
  shows "er_startOffsetMs r = i * w" and "er_count r = (case er_message r of Some m \<Rightarrow> int (count (admitted S) m)
    | None \<Rightarrow> int (size (turned_away S)) + int (size (filter_mset (\<lambda>m. m \<notin> set ranked) (admitted S))))"
  using assms by (auto simp: slot_rows_def Let_def split: if_splits)

lemma series_rows_entry:
  assumes "axis_rep time error_bucket_rep w bm M" and "r \<in> set (series_rows lc w bm)"
  obtains i where "r \<in> set (slot_rows w (ranked_names lc (error_totals bm)) (in_slot time w i M) i)"
    and "in_slot time w i M \<noteq> {#}"
proof -
  obtain i b where ib: "(i, b) \<in> set bm" "r \<in> set (error_rows w (ranked_names lc (error_totals bm)) (i, b))"
    using assms(2) by (auto simp: series_rows_def by_index_def)
  have "jm_get bm i = Some b" using ib(1) assms(1) by (simp add: axis_rep_def jm_ok_def)
  moreover have "slot_rep error_bucket_rep (i * w) (jm_get bm i) (in_slot time w i M)" using assms(1) by (simp add: axis_rep_def)
  ultimately have "in_slot time w i M \<noteq> {#}" "error_bucket_rep (i * w) b (in_slot time w i M)" by simp_all
  with ib(2) error_rows_of_slot that show thesis by metis
qed

lemma error_bucket_keys:
  assumes "axis_rep time error_bucket_rep w bm M" and "0 < w" and "\<And>x. x \<in># M \<Longrightarrow> plain_int (time x div w * w)"
  shows "inj_on error_bucket_key (set (map (error_bucket_columns w) (series_rows lc w bm)))"
proof (rule inj_onI)
  let ?rank = "ranked_names lc (error_totals bm)"
  fix e f assume ef: "e \<in> set (map (error_bucket_columns w) (series_rows lc w bm))"
    "f \<in> set (map (error_bucket_columns w) (series_rows lc w bm))" "error_bucket_key e = error_bucket_key f"
  have entry: "\<exists>i r. e = error_bucket_columns w r \<and> r \<in> set (slot_rows w ?rank (in_slot time w i M) i) \<and> plain_int (i * w)"
    if e: "e \<in> set (map (error_bucket_columns w) (series_rows lc w bm))" for e
  proof -
    obtain r where r: "r \<in> set (series_rows lc w bm)" "e = error_bucket_columns w r" using e by auto
    obtain i where i: "r \<in> set (slot_rows w ?rank (in_slot time w i M) i)" "in_slot time w i M \<noteq> {#}"
      by (rule series_rows_entry [OF assms(1) r(1)]) (rule that)
    then obtain x where "x \<in># M" "time x div w = i" by (auto simp: in_slot_def filter_mset_eq_conv dest: multiset_nonemptyE)
    then have "plain_int (i * w)" using assms(3) by blast
    with r(2) i(1) show ?thesis by blast
  qed
  obtain i r where r: "e = error_bucket_columns w r" "r \<in> set (slot_rows w ?rank (in_slot time w i M) i)" "plain_int (i * w)"
    using entry [OF ef(1)] by blast
  obtain j t where t: "f = error_bucket_columns w t" "t \<in> set (slot_rows w ?rank (in_slot time w j M) j)" "plain_int (j * w)"
    using entry [OF ef(2)] by blast
  have offs: "xg_startOffsetMs e = i * w" "xg_startOffsetMs f = j * w"
    using slot_row_entry(1) r(2) t(2) by (simp_all add: r(1) t(1) error_bucket_columns_def)
  have "js_int (i * w) @ nul # label_key (xg_isOther e) (xg_message e) = js_int (j * w) @ nul # label_key (xg_isOther f) (xg_message f)"
    using ef(3) by (simp add: error_bucket_key_def offs)
  from append_sep_eq_left [OF this nul_js_int [OF r(3)] nul_js_int [OF t(3)]]
  have k: "js_int (i * w) = js_int (j * w)" "label_key (xg_isOther e) (xg_message e) = label_key (xg_isOther f) (xg_message f)" by blast+
  have ij: "i = j" using js_int_inj [OF r(3) t(3) k(1)] assms(2) by simp
  have "er_message r = er_message t"
    using label_key_inj [OF k(2)] by (cases "er_message r"; cases "er_message t") (simp_all add: r(1) t(1) error_bucket_columns_def)
  moreover from this have "er_count r = er_count t" "er_startOffsetMs r = er_startOffsetMs t"
    using slot_row_entry r(2) t(2) ij by metis+
  ultimately show "e = f" by (simp add: r(1) t(1) error_bucket_columns_def)
qed

section \<open>The comparison\<close>

lemma run_width_same:
  assumes "series_for c st (gather series_obs evs) run_id z" and "stream_room c st evs" and "opts_for c st opts"
    and "gather requests_in evs \<noteq> []"
  shows "runSeriesWidth evs opts = Some (engine_width c st evs run_id)"
proof -
  have run: "vp_runStartMs opts = st" "vp_maxBucketsRun opts = series_cap c run_id"
    using assms(3) by (simp_all add: opts_for_def run_id_def)
  have "gather requests_in evs \<noteq> [] \<Longrightarrow> concat (map (run_edges_in st) evs) \<noteq> []"
  proof (induction evs)
    case (Cons ev evs)
    then show ?case by (cases ev) simp_all
  qed simp
  then have "concat (map (run_edges_in st) evs) \<noteq> []" using assms(4) .
  moreover have "seriesWidth (concat (map (run_edges_in st) evs)) (series_cap c run_id) = engine_width c st evs run_id"
    using same_width [OF assms(1,2)] run_times [of st evs] by (simp only: run_id_def)
  ultimately show ?thesis unfolding runSeriesWidth_def run Let_def by (simp only: if_False)
qed

lemma failure_slots:
  assumes "image_mset event_of M = mset (gather failure_obs evs)" and "x \<in># M"
  shows "(run_id, (fl_tsMs x - st) div engine_width c st evs run_id * engine_width c st evs run_id) \<in> set (table_rows c st evs run_id)"
proof -
  have "event_of x \<in> set (gather failure_obs evs)" using assms by (metis image_eqI set_image_mset set_mset_mset)
  then have "fl_tsMs x \<in> set (map fst (gather failure_obs evs))" by (force simp: event_of_def)
  then obtain y where "y \<in> set (obs_of run_id (gather series_obs evs))" "re_tsMs y = fl_tsMs x" unfolding failure_times by auto
  then show ?thesis by (force simp: table_rows_def slot_offsets_def own_edges_def)
qed

lemma compareErrorBuckets_writes:
  assumes rep: "engine_rep c m evs e" and room: "stream_room c (me_startedAtMs m) evs"
    and snap: "snapshot_error_series lc e = Some (z, e')" and opts: "opts_for c (me_startedAtMs m) opts" and lc: "strict_cmp lc"
    and close: "near_start (me_startedAtMs m) evs"
    and kept: "mset (so_errorBuckets stored) = mset (map (error_bucket_columns (ez_bucketWidthMs z)) (ez_rows z))"
  shows "writes_only P (compareErrorBuckets (expectedFrom lc evs opts) stored)"
proof -
  let ?st = "me_startedAtMs m"
  have st: "vp_runStartMs opts = ?st" using opts by (simp add: opts_for_def)
  have "mset (expectedErrorBuckets lc evs opts) = mset (map (error_bucket_columns (ez_bucketWidthMs z)) (ez_rows z)) \<and>
    inj_on error_bucket_key (set (map (error_bucket_columns (ez_bucketWidthMs z)) (ez_rows z)))"
  proof (cases "gather requests_in evs = []")
    case True
    have "gather requests_in evs = [] \<Longrightarrow> concat (map (run_edges_in ?st) evs) = [] \<and> gather failure_obs evs = []"
    proof (induction evs)
      case (Cons ev evs)
      then show ?case by (cases ev) simp_all
    qed simp
    then have none: "concat (map (run_edges_in ?st) evs) = []" "gather failure_obs evs = []" using True by blast+
    have "failures_rep e (gather failure_obs evs)" using rep by (simp add: engine_rep_def acc_def)
    then have "ez_rows z = []" using snap none(2) by (auto simp: failures_rep_def snapshot_error_series_def split: option.splits)
    moreover have "runSeriesWidth evs opts = None" unfolding runSeriesWidth_def st Let_def none(1) by simp
    ultimately show ?thesis by (simp add: expectedErrorBuckets_def)
  next
    case False
    obtain M bm zr where e: "axis_rep (\<lambda>x. fl_tsMs x - ?st) error_bucket_rep (ez_bucketWidthMs z) bm M"
      "ez_rows z = series_rows lc (ez_bucketWidthMs z) bm" "image_mset event_of M = mset (gather failure_obs evs)"
      "\<forall>x \<in># M. fl_admitted x \<longleftrightarrow> fl_message x \<in> set (fold track (map snd (gather failure_obs evs)) [])"
      "ez_bucketWidthMs z = engine_width c ?st evs run_id" "series_for c ?st (gather series_obs evs) run_id zr"
      by (rule engine_error_rows [OF rep room False snap]) (rule that)
    have width: "runSeriesWidth evs opts = Some (ez_bucketWidthMs z)"
      unfolding e(5) by (rule run_width_same [OF e(6) room opts False])
    have pos: "0 < ez_bucketWidthMs z"
      unfolding e(5) using series_rep_width by (metis engine_series [OF e(6) room])
    have plain: "plain_int ((fl_tsMs x - ?st) div ez_bucketWidthMs z * ez_bucketWidthMs z)" if "x \<in># M" for x
      using table_offsets_plain [OF e(6) room close failure_slots [OF e(3) that]] by (simp add: e(5))
    show ?thesis
      using error_buckets_same [OF lc st width e(1,3,4)] error_bucket_keys [OF e(1) pos plain, of lc] unfolding e(2) by blast
  qed
  then have same: "mset (expectedErrorBuckets lc evs opts) = mset (so_errorBuckets stored)"
    and inj: "inj_on error_bucket_key (set (expectedErrorBuckets lc evs opts))"
    using kept mset_eq_setD by metis+
  then show ?thesis unfolding compareErrorBuckets_def expectedFrom_def
    by (intro matchRows_equal) (auto simp: error_bucket_both_def Let_def intro!: writes_only_comp writes_exact)
qed

end
