(* ===== verification/VerifyUsers.thy ===== *)
theory VerifyUsers
  imports VerifyErrorBuckets
begin

text \<open>
  The users table: the recomputation sweeps the same events second by second, and puts the seconds together at
  the width on which the engine settles.
\<close>

section \<open>The seconds\<close>

definition user_ev :: "int \<Rightarrow> user_delta \<Rightarrow> int \<times> bool" where
  "user_ev st d = (ud_tsMs d - st, ud_delta d = 1)"

definition strip :: "user_bucket \<Rightarrow> verify_second" where
  "strip b = \<lparr>sc_started = ub_started b, sc_ended = ub_ended b, sc_maxConcurrent = ub_maxConcurrent b\<rparr>"

definition strips :: "(int, user_bucket) jmap \<Rightarrow> (int, verify_second) jmap" where
  "strips m = map (\<lambda>e. (fst e, strip (snd e))) m"

lemma strips_simps [simp]: "jm_get (strips m) k = map_option strip (jm_get m k)" "strips [] = []"
  "map fst (strips m) = map fst m"
  unfolding strips_def by (induction m) auto

lemma set_strips: "jm_set k (strip v) (strips m) = strips (jm_set k v m)"
  unfolding strips_def by (induction m) auto

lemma insort_mapped:
  "(\<And>a b. a \<in> insert x (set xs) \<Longrightarrow> b \<in> insert x (set xs) \<Longrightarrow> c (f a) (f b) \<le> 0 \<longleftrightarrow> d a b \<le> (0 :: int)) \<Longrightarrow>
    insort_cmp c (f x) (map f xs) = map f (insort_cmp d x xs)"
  by (induction xs) auto

lemma js_sort_mapped:
  "(\<And>a b. a \<in> set xs \<Longrightarrow> b \<in> set xs \<Longrightarrow> c (f a) (f b) \<le> 0 \<longleftrightarrow> d a b \<le> (0 :: int)) \<Longrightarrow>
    js_sort c (map f xs) = map f (js_sort d xs)"
proof (induction xs)
  case (Cons x xs)
  then have "insort_cmp c (f x) (map f (js_sort d xs)) = map f (insort_cmp d x (js_sort d xs))"
    by (intro insort_mapped) simp
  with Cons show ?case by (simp only: list.map js_sort_Cons) simp
qed simp

definition proper :: "user_delta \<Rightarrow> bool" where "proper d \<longleftrightarrow> ud_delta d = 1 \<or> ud_delta d = - 1"

lemma events_sorted:
  assumes "\<forall>d \<in> set ds. proper d"
  shows "js_sort (cmp_then (cmp_by fst) (\<lambda>a b. of_bool (snd b) - of_bool (snd a))) (map (user_ev st) ds) =
    map (user_ev st) (js_sort cmp_delta ds)"
  using assms
proof (intro js_sort_mapped)
  fix a b assume "a \<in> set ds" "b \<in> set ds"
  then have "ud_delta a = 1 \<or> ud_delta a = - 1" "ud_delta b = 1 \<or> ud_delta b = - 1" using assms by (auto simp: proper_def)
  then show "cmp_then (cmp_by fst) (\<lambda>a b. of_bool (snd b) - of_bool (snd a)) (user_ev st a) (user_ev st b) \<le> 0 \<longleftrightarrow> cmp_delta a b \<le> 0"
    by (auto simp: user_ev_def cmp_delta_def cmp_then_def cmp_by_def)
qed

lemma second_steps:
  "fold second_step (map (user_ev st) es) (strips m, k) =
    (strips (fst (fold (user_step st 1000) es (m, k))), snd (fold (user_step st 1000) es (m, k)))"
proof (induction es arbitrary: m k)
  case (Cons e es)
  have "second_step (user_ev st e) (strips m, k) = (strips (fst (user_step st 1000 e (m, k))), snd (user_step st 1000 e (m, k)))"
    by (cases "jm_get m ((ud_tsMs e - st) div 1000)")
      (simp_all add: second_step_def user_step_def user_ev_def set_strips [symmetric] strip_def BASE_WIDTH_MS_def Let_def)
  moreover obtain m' k' where "user_step st 1000 e (m, k) = (m', k')" by (rule prod.exhaust)
  ultimately show ?case using Cons [of m' k'] by simp
qed simp

section \<open>Putting seconds together\<close>

definition coarse_rep :: "int \<Rightarrow> user_delta list \<Rightarrow> int \<Rightarrow> verify_second \<Rightarrow> int multiset \<Rightarrow> bool" where
  "coarse_rep s es off b M \<longleftrightarrow> M \<noteq> {#} \<and> sc_started b = (\<Sum>i \<in># M. started_in s es i) \<and>
     sc_ended b = (\<Sum>i \<in># M. ended_in s es i) \<and> sc_maxConcurrent b = Max (peak_in s es ` set_mset M)"

lemma Max_insert_peak: "M \<noteq> {#} \<Longrightarrow> Max (insert (f i) (f ` set_mset M)) = max (Max (f ` set_mset M)) (f i)" for f :: "int \<Rightarrow> int"
  by (subst Max_insert) (auto simp: max.commute)

lemma coarse_step_rep:
  assumes sw: "swept s es m" and axis: "axis_rep (\<lambda>i. i) (coarse_rep s es) f coarse N"
  shows "axis_rep (\<lambda>i. i) (coarse_rep s es) f (fst (coarse_step (strips m) f b (coarse, standing_at s es b))) (add_mset b N) \<and>
    snd (coarse_step (strips m) f b (coarse, standing_at s es b)) = standing_at s es (b + 1)"
proof -
  define one where "one = strip (second_bucket s es b)"
  define j where "j = b div f"
  define c where "c = (case jm_get coarse j of None \<Rightarrow> one
            | Some c \<Rightarrow> \<lparr>sc_started = sc_started c + sc_started one, sc_ended = sc_ended c + sc_ended one,
                sc_maxConcurrent = max (sc_maxConcurrent c) (sc_maxConcurrent one)\<rparr>)"
  have step: "coarse_step (strips m) f b (coarse, standing_at s es b) = (jm_set j c coarse, standing_at s es (b + 1))"
  proof (cases "b \<in> second s ` set es")
    case True
    then have "jm_get m b = Some (second_bucket s es b)" using sw by (simp add: swept_def)
    moreover have "standing_at s es b + sc_started one - sc_ended one = standing_at s es (b + 1)"
      by (simp add: one_def strip_def second_bucket_def standing_Suc)
    ultimately show ?thesis by (simp add: coarse_step_def one_def [symmetric] j_def [symmetric] c_def [symmetric] Let_def)
  next
    case False
    then have none: "\<forall>e \<in> set es. second s e \<noteq> b" by auto
    then have zero: "started_in s es b = 0" "ended_in s es b = 0"
      by (auto simp: started_in_def ended_in_def filter_empty_conv)
    have "jm_get m b = None" using False sw by (simp add: swept_def)
    moreover have "\<lparr>sc_started = 0, sc_ended = 0, sc_maxConcurrent = standing_at s es b\<rparr> = one"
      using zero peak_none [OF none] by (simp add: one_def strip_def second_bucket_def)
    moreover have "standing_at s es (b + 1) = standing_at s es b" using zero by (simp add: standing_Suc)
    ultimately show ?thesis
      by (cases "jm_get coarse j") (auto simp: coarse_step_def j_def [symmetric] c_def Let_def)
  qed
  have slot: "slot_rep (coarse_rep s es) (j * f) (jm_get coarse j) (in_slot (\<lambda>i. i) f j N)" using axis by (simp add: axis_rep_def)
  have one: "sc_started one = started_in s es b" "sc_ended one = ended_in s es b" "sc_maxConcurrent one = peak_in s es b"
    by (simp_all add: one_def strip_def second_bucket_def)
  have "coarse_rep s es (j * f) c (add_mset b (in_slot (\<lambda>i. i) f j N))"
  proof (cases "jm_get coarse j")
    case None
    then show ?thesis using slot by (simp add: c_def coarse_rep_def one)
  next
    case (Some d)
    then have d: "coarse_rep s es (j * f) d (in_slot (\<lambda>i. i) f j N)" using slot by simp
    then show ?thesis using Max_insert_peak [of "in_slot (\<lambda>i. i) f j N" "peak_in s es" b]
      by (simp add: c_def Some coarse_rep_def one del: Max_insert)
  qed
  then have "axis_rep (\<lambda>i. i) (coarse_rep s es) f (jm_set j c coarse) (add_mset b N)"
    by (intro axis_rep_add [OF axis]) (simp_all add: j_def)
  then show ?thesis by (simp add: step)
qed

lemma coarse_fold:
  assumes "swept s es m" and "standing_at s es a = 0"
  shows "axis_rep (\<lambda>i. i) (coarse_rep s es) f (fst (fold (coarse_step (strips m) f) [a..a + int k - 1] ([], 0))) (mset [a..a + int k - 1]) \<and>
    snd (fold (coarse_step (strips m) f) [a..a + int k - 1] ([], 0)) = standing_at s es (a + int k)"
proof (induction k)
  case (Suc k)
  define st where "st = fold (coarse_step (strips m) f) [a..a + int k - 1] ([], 0)"
  have st: "axis_rep (\<lambda>i. i) (coarse_rep s es) f (fst st) (mset [a..a + int k - 1])" "snd st = standing_at s es (a + int k)"
    using Suc by (simp_all add: st_def)
  have snoc: "[a..a + int (Suc k) - 1] = [a..a + int k - 1] @ [a + int k]" using upto_rec2 [of a "a + int k"] by simp
  have next': "a + int (Suc k) = a + int k + 1" by simp
  from coarse_step_rep [OF assms(1) st(1), of "a + int k"] show ?case
    unfolding snoc unfolding next' st(2) [symmetric] by (simp add: st_def)
qed (use assms(2) in simp)

section \<open>The factor\<close>

lemma div_range: "lo \<le> hi \<Longrightarrow> (\<lambda>i. i div 2 ^ k) ` {lo..hi} = {lo div 2 ^ k..hi div (2 :: int) ^ k}"
proof
  assume "lo \<le> hi"
  show "(\<lambda>i. i div 2 ^ k) ` {lo..hi} \<subseteq> {lo div 2 ^ k..hi div (2 :: int) ^ k}" by (auto intro!: zdiv_mono1)
  show "{lo div 2 ^ k..hi div (2 :: int) ^ k} \<subseteq> (\<lambda>i. i div 2 ^ k) ` {lo..hi}"
  proof
    fix j assume j: "j \<in> {lo div 2 ^ k..hi div (2 :: int) ^ k}"
    define i where "i = max lo (j * 2 ^ k)"
    have "j * 2 ^ k \<le> hi div 2 ^ k * 2 ^ k" using j by (intro mult_right_mono) simp_all
    also have "\<dots> \<le> hi" by (simp add: minus_mod_eq_div_mult [symmetric])
    finally have "i \<in> {lo..hi}" using \<open>lo \<le> hi\<close> by (simp add: i_def)
    moreover have "i div 2 ^ k = j"
    proof (cases "lo \<le> j * 2 ^ k")
      case False
      then have "j * 2 ^ k div 2 ^ k \<le> lo div 2 ^ k" by (intro zdiv_mono1) simp_all
      then have "j \<le> lo div 2 ^ k" by simp
      then show ?thesis using j False by (simp add: i_def)
    qed (simp add: i_def)
    ultimately show "j \<in> (\<lambda>i. i div 2 ^ k) ` {lo..hi}" by blast
  qed
qed

lemma range_card: "lo \<le> hi \<Longrightarrow> int (card ((\<lambda>i. i div 2 ^ k) ` {lo..hi})) = hi div 2 ^ k - lo div (2 :: int) ^ k + 1"
  using zdiv_mono1 [of lo hi "2 ^ k"] by (simp add: div_range)

lemma factor_pass_eq:
  assumes "k \<le> j" and "hi div 2 ^ j - lo div 2 ^ j + 1 \<le> USER_BUCKET_CAP"
    and "\<And>i. i < j \<Longrightarrow> USER_BUCKET_CAP < hi div 2 ^ i - lo div 2 ^ i + 1"
  shows "factor_pass lo hi k = 2 ^ j"
  using assms(1)
proof (induction rule: inc_induct)
  case base
  show ?case using assms(2) by (subst factor_pass.simps) simp
next
  case (step n)
  then show ?case using assms(3) [OF step(2)] by (subst factor_pass.simps) simp
qed

lemma factor_width:
  assumes "narrowest USER_BUCKET_CAP (\<lambda>i. i * 1000) w (mset [lo..hi])" and "lo \<le> hi"
    and "int (card ((\<lambda>i. i * 1000 div w * w) ` {lo..hi})) \<le> USER_BUCKET_CAP"
  shows "w = 1000 * factor_pass lo hi 0"
proof -
  obtain j where w: "w = 1000 * 2 ^ j" using assms(1) by (auto simp: narrowest_def is_width_def)
  have slots: "i * 1000 div (1000 * 2 ^ k) = i div 2 ^ k" for i :: int and k by (simp add: mult.commute)
  have "factor_pass lo hi 0 = 2 ^ j"
  proof (rule factor_pass_eq)
    have "inj_on (\<lambda>i. i * w) ((\<lambda>i. i div 2 ^ j) ` {lo..hi})" by (auto simp: inj_on_def w)
    then have "card ((\<lambda>i. i * w) ` (\<lambda>i. i div 2 ^ j) ` {lo..hi}) = card ((\<lambda>i. i div 2 ^ j) ` {lo..hi})" by (rule card_image)
    moreover have "(\<lambda>i. i * 1000 div w * w) ` {lo..hi} = (\<lambda>i. i * w) ` (\<lambda>i. i div 2 ^ j) ` {lo..hi}"
      unfolding image_image by (simp only: w slots)
    ultimately show "hi div 2 ^ j - lo div 2 ^ j + 1 \<le> USER_BUCKET_CAP" using assms(2,3) by (simp add: range_card)
  next
    fix i assume "i < j"
    then have "is_width (1000 * 2 ^ i)" "(1000 :: int) * 2 ^ i < w" by (auto simp: is_width_def w)
    with assms(1) have "USER_BUCKET_CAP < int (card ((\<lambda>x. x * 1000 div (1000 * 2 ^ i)) ` {lo..hi}))"
      unfolding narrowest_def by (metis set_mset_mset set_upto)
    then show "USER_BUCKET_CAP < hi div 2 ^ i - lo div 2 ^ i + 1" using assms(2) by (simp only: slots range_card)
  qed simp
  then show ?thesis by (simp add: w)
qed

end
