(* ===== verification/VerifyUserRows.thy ===== *)
theory VerifyUserRows
  imports VerifyUsers
begin

text \<open>The users table, row by row.\<close>

section \<open>The rows of a scenario\<close>

definition user_row :: "jstr \<Rightarrow> int \<Rightarrow> user_delta list \<Rightarrow> int \<Rightarrow> int \<Rightarrow> expected_user_bucket" where
  "user_row sc st es w off = (let N = filter_mset (\<lambda>i. i * 1000 div w * w = off) (mset (seconds st es)) in
     \<lparr>xu_scenario = sc, xu_startOffsetMs = off, xu_started = (\<Sum>i \<in># N. started_in st es i),
      xu_ended = (\<Sum>i \<in># N. ended_in st es i), xu_maxConcurrent = Max (peak_in st es ` set_mset N)\<rparr>)"

definition user_offsets :: "int \<Rightarrow> user_delta list \<Rightarrow> int \<Rightarrow> int list" where
  "user_offsets st es w = sorted_list_of_set ((\<lambda>i. i * 1000 div w * w) ` set (seconds st es))"

lemma seconds_range:
  assumes "es \<noteq> []"
  obtains a b where "seconds st es = [a..b]" "a = Min (second st ` set es)" "b = Max (second st ` set es)" "a \<le> b"
proof -
  have "Min (second st ` set es) \<le> Max (second st ` set es)"
    using assms by (meson Max_ge Min_in finite_imageI finite_set image_is_empty set_empty)
  then show thesis using that assms by (simp add: seconds_def)
qed

lemma swept_ends:
  assumes "swept st es m" and "es \<noteq> []"
  shows "hd (js_sort (cmp_by id) (map fst m)) = Min (second st ` set es)" "last (js_sort (cmp_by id) (map fst m)) = Max (second st ` set es)"
proof -
  have keys: "fst ` set m = second st ` set es"
  proof -
    have "i \<in> fst ` set m \<longleftrightarrow> i \<in> second st ` set es" for i
      using assms(1) map_of_eq_None_iff [of m i] by (auto simp: swept_def split: if_splits)
    then show ?thesis by blast
  qed
  define ks where "ks = js_sort (cmp_by id) (map fst m)"
  have ks: "ks = sort (map fst m)" by (simp add: ks_def js_sort_by id_def)
  then have "set ks = second st ` set es" "sorted ks" using keys by simp_all
  moreover have "ks \<noteq> []" using keys assms(2) ks by (metis calculation(1) image_is_empty set_empty)
  ultimately have "hd ks = Min (second st ` set es)" "last ks = Max (second st ` set es)" using sorted_ends [of ks] by simp_all
  then show "hd (js_sort (cmp_by id) (map fst m)) = Min (second st ` set es)" "last (js_sort (cmp_by id) (map fst m)) = Max (second st ` set es)"
    by (simp_all add: ks_def)
qed

lemma coarse_entry:
  assumes "axis_rep (\<lambda>i. i) (coarse_rep st es) f coarse (mset (seconds st es))" and "w = 1000 * f" and "0 < f" and "(j, c) \<in> set coarse"
  shows "\<lparr>xu_scenario = sc, xu_startOffsetMs = j * w, xu_started = sc_started c, xu_ended = sc_ended c,
    xu_maxConcurrent = sc_maxConcurrent c\<rparr> = user_row sc st es w (j * w)"
proof -
  have "jm_get coarse j = Some c" using assms(1,4) by (simp add: axis_rep_def jm_ok_def)
  moreover have "slot_rep (coarse_rep st es) (j * f) (jm_get coarse j) (in_slot (\<lambda>i. i) f j (mset (seconds st es)))"
    using assms(1) by (simp add: axis_rep_def)
  ultimately have rep: "coarse_rep st es (j * f) c (in_slot (\<lambda>i. i) f j (mset (seconds st es)))" by simp
  have "i * 1000 div w = i div f" for i by (simp add: assms(2) mult.commute)
  then have "filter_mset (\<lambda>i. i * 1000 div w * w = j * w) N = in_slot (\<lambda>i. i) f j N" for N
    unfolding in_slot_def using assms(2,3) by (intro filter_mset_cong) auto
  then show ?thesis using rep by (simp add: user_row_def coarse_rep_def Let_def)
qed

lemma recomputed_users:
  assumes ds: "ds \<noteq> []" "\<forall>d \<in> set ds. proper d" and es: "es = js_sort cmp_delta ds"
    and w: "narrowest USER_BUCKET_CAP (\<lambda>i. i * 1000) w (mset (seconds st es))"
    and fit: "int (length (user_offsets st es w)) \<le> USER_BUCKET_CAP"
  shows "mset (user_bucketsOf (sc, map (user_ev st) ds)) = mset (map (user_row sc st es w) (user_offsets st es w))"
proof -
  have ne: "es \<noteq> []" using ds(1) es by (metis length_0_conv length_js_sort)
  obtain a b where ab: "seconds st es = [a..b]" "a = Min (second st ` set es)" "b = Max (second st ` set es)" "a \<le> b"
    by (rule seconds_range [OF ne]) (rule that)
  define m where "m = fst (fold (user_step st 1000) es ([], 0))"
  have sw: "swept st es m" unfolding m_def using swept_fold [of es st] sweep_sorted [of ds] es by blast
  define f where "f = factor_pass a b 0"
  have "int (card ((\<lambda>i. i * 1000 div w * w) ` {a..b})) \<le> USER_BUCKET_CAP" using fit by (simp add: user_offsets_def ab(1))
  then have wf: "w = 1000 * f" using factor_width [of w a b] w ab(4) by (simp add: f_def ab(1))
  then have f: "0 < f" using narrowest_pos [OF w] by simp
  define coarse where "coarse = fst (fold (coarse_step (strips m) f) [a..b] ([], 0))"
  have "filter (\<lambda>e. second st e < a) es = []" unfolding ab(2) by (auto simp: filter_empty_conv not_less)
  then have "standing_at st es a = 0" by (simp add: standing_at_def level_def)
  moreover have "a + int (nat (b + 1 - a)) - 1 = b" using ab(4) by simp
  ultimately have axis: "axis_rep (\<lambda>i. i) (coarse_rep st es) f coarse (mset (seconds st es))"
    using coarse_fold [OF sw, of a f "nat (b + 1 - a)"] by (simp only: coarse_def ab(1))
  have "user_bucketsOf (sc, map (user_ev st) ds) = map (\<lambda>(j, c). \<lparr>xu_scenario = sc, xu_startOffsetMs = j * (BASE_WIDTH_MS * f),
      xu_started = sc_started c, xu_ended = sc_ended c, xu_maxConcurrent = sc_maxConcurrent c\<rparr>) coarse"
    unfolding user_bucketsOf_def prod.case Let_def events_sorted [OF ds(2)] es [symmetric]
      second_steps [of st es "[]", unfolded strips_simps] fst_conv m_def [symmetric] strips_simps swept_ends [OF sw ne]
      ab(2,3) [symmetric] f_def [symmetric] coarse_def [symmetric] ..
  also have "\<dots> = map (user_row sc st es w) (map (\<lambda>e. fst e * w) coarse)"
    using coarse_entry [OF axis wf f] by (auto simp: wf BASE_WIDTH_MS_def)
  finally have rows: "user_bucketsOf (sc, map (user_ev st) ds) = map (user_row sc st es w) (map (\<lambda>e. fst e * w) coarse)" .
  have "i * 1000 div w = i div f" for i by (simp add: wf mult.commute)
  moreover have "set (map (\<lambda>e. fst e * w) coarse) = (\<lambda>j. j * w) ` fst ` set coarse" by (simp add: image_image)
  then have "set (map (\<lambda>e. fst e * w) coarse) = (\<lambda>i. i div f * w) ` set (seconds st es)"
    unfolding axis_rep_keys [OF axis] by (simp add: image_image)
  ultimately have "set (map (\<lambda>e. fst e * w) coarse) = set (user_offsets st es w)" by (simp add: user_offsets_def)
  moreover have "distinct (map (\<lambda>e. fst e * w) coarse)" using axis wf f by (auto simp: axis_rep_def jm_ok_def distinct_map inj_on_def)
  moreover have "distinct (user_offsets st es w)" by (simp add: user_offsets_def)
  ultimately have "mset (map (\<lambda>e. fst e * w) coarse) = mset (user_offsets st es w)" using set_eq_iff_mset_eq_distinct by blast
  then show ?thesis unfolding rows by (simp only: mset_map)
qed

lemma stored_users:
  assumes "user_sweep st cap ds = Some (w, bs)" and "2 \<le> cap" and "es = js_sort cmp_delta ds"
  shows "map (\<lambda>b. \<lparr>xu_scenario = sc, xu_startOffsetMs = ub_startOffsetMs b, xu_started = ub_started b,
      xu_ended = ub_ended b, xu_maxConcurrent = ub_maxConcurrent b\<rparr>) bs = map (user_row sc st es w) (user_offsets st es w)"
    and "narrowest cap (\<lambda>i. i * 1000) w (mset (seconds st es))" and "int (length (user_offsets st es w)) \<le> cap"
proof -
  obtain w' bs' where r: "user_sweep st cap ds = Some (w', bs')"
    "narrowest cap (\<lambda>i. i * 1000) w' (mset (seconds st es))" "int (length bs') \<le> cap"
    "map ub_startOffsetMs bs' = sorted_list_of_set ((\<lambda>i. i * 1000 div w' * w') ` set (seconds st es))"
    "\<And>b. b \<in> set bs' \<Longrightarrow> user_rep st es (ub_startOffsetMs b) b
       (filter_mset (\<lambda>i. i * 1000 div w' * w' = ub_startOffsetMs b) (mset (seconds st es)))"
    using user_sweep_rep [OF disjI1 [OF assms(2)] assms(3)] by metis
  have eq: "w' = w" "bs' = bs" using r(1) assms(1) by simp_all
  have "\<lparr>xu_scenario = sc, xu_startOffsetMs = ub_startOffsetMs b, xu_started = ub_started b, xu_ended = ub_ended b,
      xu_maxConcurrent = ub_maxConcurrent b\<rparr> = user_row sc st es w (ub_startOffsetMs b)" if "b \<in> set bs" for b
    using r(5) [of b] that by (simp add: eq user_rep_def user_row_def Let_def)
  then have "map (\<lambda>b. \<lparr>xu_scenario = sc, xu_startOffsetMs = ub_startOffsetMs b, xu_started = ub_started b,
      xu_ended = ub_ended b, xu_maxConcurrent = ub_maxConcurrent b\<rparr>) bs = map (user_row sc st es w) (map ub_startOffsetMs bs)"
    by simp
  then show "map (\<lambda>b. \<lparr>xu_scenario = sc, xu_startOffsetMs = ub_startOffsetMs b, xu_started = ub_started b,
      xu_ended = ub_ended b, xu_maxConcurrent = ub_maxConcurrent b\<rparr>) bs = map (user_row sc st es w) (user_offsets st es w)"
    using r(4) by (simp only: eq user_offsets_def)
  show "narrowest cap (\<lambda>i. i * 1000) w (mset (seconds st es))" using r(2) by (simp add: eq)
  have "length (user_offsets st es w) = length bs" using r(4) by (metis eq length_map user_offsets_def)
  then show "int (length (user_offsets st es w)) \<le> cap" using r(3) by (simp add: eq)
qed

section \<open>Scenarios\<close>

lemma get_or_mapped: "f [] = [] \<Longrightarrow> jm_get_or [] (map (\<lambda>(k, v). (k, f v)) m) k = f (jm_get_or [] m k)"
  by (induction m) (auto simp: jm_get_or_def)

lemma jm_set_mapped: "jm_set k (f v) (map (\<lambda>(k, v). (k, f v)) m) = map (\<lambda>(k, v). (k, f v)) (jm_set k v m)"
  by (induction m) auto

lemma user_events_rep:
  assumes "vp_runStartMs opts = st"
  shows "fold (user_event_list opts) evs [] =
    map (\<lambda>sc. (sc, map (user_ev st) (deltas_of sc (gather user_obs evs)))) (first_seen (map fst (gather user_obs evs)))"
proof -
  let ?step = "\<lambda>(scenario, kind, tsMs). user_series_add scenario kind tsMs"
  let ?f = "\<lambda>(k, ds). (k, map (user_ev st) ds)"
  have "fold (user_event_list opts) evs [] = map ?f (us_events (fold ?step (gather user_obs evs) (new_user_series st 1)))"
  proof (induction evs rule: rev_induct)
    case (snoc ev evs)
    show ?case
    proof (cases ev)
      case (UserE u)
      have ev: "(us_tsMs u - st, us_kind u = UserStart) =
          user_ev st \<lparr>ud_tsMs = us_tsMs u, ud_delta = (if us_kind u = UserStart then 1 else - 1)\<rparr>"
        by (simp add: user_ev_def)
      let ?d = "\<lparr>ud_tsMs = us_tsMs u, ud_delta = (if us_kind u = UserStart then 1 else - 1)\<rparr>"
      define s0 where "s0 = fold ?step (gather user_obs evs) (new_user_series st 1)"
      define m where "m = us_events s0"
      have "fold ?step (gather user_obs (evs @ [ev])) (new_user_series st 1) = user_series_add (us_scenario u) (us_kind u) (us_tsMs u) s0"
        by (simp add: UserE s0_def)
      then have new: "us_events (fold ?step (gather user_obs (evs @ [ev])) (new_user_series st 1)) =
          jm_set (us_scenario u) (jm_get_or [] m (us_scenario u) @ [?d]) m"
        by (simp add: user_series_add_def m_def)
      have old: "fold (user_event_list opts) evs [] = map ?f m" using snoc by (simp only: m_def s0_def)
      have "fold (user_event_list opts) (evs @ [ev]) [] = jm_set (us_scenario u)
          (jm_get_or [] (map ?f m) (us_scenario u) @ [(us_tsMs u - st, us_kind u = UserStart)]) (map ?f m)"
        by (simp only: fold_append comp_apply old) (simp add: UserE assms)
      also have "jm_get_or [] (map ?f m) (us_scenario u) @ [(us_tsMs u - st, us_kind u = UserStart)] =
          map (user_ev st) (jm_get_or [] m (us_scenario u) @ [?d])"
        unfolding ev using get_or_mapped [of "map (user_ev st)" m "us_scenario u"] by simp
      also have "jm_set (us_scenario u) (map (user_ev st) (jm_get_or [] m (us_scenario u) @ [?d])) (map ?f m) =
          map ?f (jm_set (us_scenario u) (jm_get_or [] m (us_scenario u) @ [?d]) m)"
        by (rule jm_set_mapped)
      finally show ?thesis unfolding new .
    qed (use snoc in simp_all)
  qed (simp add: new_user_series_def)
  then show ?thesis by (simp add: user_series_events comp_def)
qed

lemma deltas_proper: "\<forall>d \<in> set (deltas_of sc us). proper d"
  by (auto simp: deltas_of_def proper_def)

lemma deltas_some: "sc \<in> set (first_seen (map fst us)) \<Longrightarrow> deltas_of sc us \<noteq> []"
  by (auto simp: deltas_of_def filter_empty_conv)

definition scenario_rows :: "int \<Rightarrow> (jstr \<times> user_kind \<times> int) list \<Rightarrow> jstr \<Rightarrow> expected_user_bucket list" where
  "scenario_rows st us sc = (case user_sweep st USER_BUCKET_CAP (deltas_of sc us) of None \<Rightarrow> []
     | Some (w, bs) \<Rightarrow> map (user_row sc st (js_sort cmp_delta (deltas_of sc us)) w)
         (user_offsets st (js_sort cmp_delta (deltas_of sc us)) w))"

lemma users_same:
  assumes "vp_runStartMs opts = st" and "users_of lc st USER_BUCKET_CAP (gather user_obs evs) = Some users"
  shows "mset (expectedUsers evs opts) = mset (concat (map (scenario_rows st (gather user_obs evs)) (first_seen (map fst (gather user_obs evs)))))"
    and "mset (concat (map user_columns users)) = mset (concat (map (scenario_rows st (gather user_obs evs)) (first_seen (map fst (gather user_obs evs)))))"
proof -
  let ?us = "gather user_obs evs"
  define ids where "ids = first_seen (map fst ?us)"
  define F where "F sc = map_option (\<lambda>(w, bs). \<lparr>uc_scenario = sc, uc_bucketWidthMs = w, uc_buckets = bs\<rparr>)
       (user_sweep st USER_BUCKET_CAP (deltas_of sc ?us))" for sc
  have cap: "max 1 USER_BUCKET_CAP = USER_BUCKET_CAP" "2 \<le> USER_BUCKET_CAP" by (simp_all add: USER_BUCKET_CAP_def)
  have "users_of lc st USER_BUCKET_CAP ?us = map_option (js_sort (\<lambda>a b. lc (uc_scenario a) (uc_scenario b))) (those (map F ids))"
    by (simp only: users_of_def F_def [abs_def] ids_def cap)
  with assms(2) obtain ys where ys: "those (map F ids) = Some ys" "users = js_sort (\<lambda>a b. lc (uc_scenario a) (uc_scenario b)) ys"
    by auto
  have "those (map F xs) = Some zs \<Longrightarrow> list_all2 (\<lambda>sc z. F sc = Some z) xs zs" for xs zs
    by (induction xs arbitrary: zs) (auto split: option.splits)
  with ys(1) have rel: "list_all2 (\<lambda>sc z. F sc = Some z) ids ys" by blast
  have one: "user_columns z = scenario_rows st ?us sc" if "F sc = Some z" for sc z
  proof -
    obtain w bs where wb: "user_sweep st USER_BUCKET_CAP (deltas_of sc ?us) = Some (w, bs)"
      "z = \<lparr>uc_scenario = sc, uc_bucketWidthMs = w, uc_buckets = bs\<rparr>" using \<open>F sc = Some z\<close> by (auto simp: F_def)
    from stored_users(1) [OF wb(1) cap(2) refl, of sc] show ?thesis by (simp add: user_columns_def scenario_rows_def wb)
  qed
  have "map user_columns ys = map (scenario_rows st ?us) ids" using rel by (induction rule: list_all2_induct) (simp_all add: one)
  then have "concat (map user_columns ys) = concat (map (scenario_rows st ?us) ids)" by simp
  moreover have "mset (concat (map user_columns users)) = mset (concat (map user_columns ys))"
    by (rule mset_concat_map) (simp add: ys(2))
  ultimately show "mset (concat (map user_columns users)) = mset (concat (map (scenario_rows st ?us) (first_seen (map fst ?us))))"
    by (simp add: ids_def)
  have row: "mset (user_bucketsOf (sc, map (user_ev st) (deltas_of sc ?us))) = mset (scenario_rows st ?us sc)" if sc: "sc \<in> set ids" for sc
  proof -
    from list_all2_left [OF rel sc] obtain z where "F sc = Some z" by blast
    then obtain w bs where wb: "user_sweep st USER_BUCKET_CAP (deltas_of sc ?us) = Some (w, bs)" by (auto simp: F_def)
    have "deltas_of sc ?us \<noteq> []" using sc unfolding ids_def by (rule deltas_some)
    from recomputed_users [OF this deltas_proper refl stored_users(2,3) [OF wb cap(2) refl], of sc]
    show ?thesis by (simp add: scenario_rows_def wb)
  qed
  have "mset (expectedUsers evs opts) = mset (concat (map user_bucketsOf (map (\<lambda>sc. (sc, map (user_ev st) (deltas_of sc ?us))) ids)))"
    unfolding expectedUsers_def user_events_rep [OF assms(1)] ids_def by (rule mset_concat_map) simp
  also have "\<dots> = mset (concat (map (\<lambda>sc. user_bucketsOf (sc, map (user_ev st) (deltas_of sc ?us))) ids))" by (simp add: comp_def)
  also have "\<dots> = mset (concat (map (scenario_rows st ?us) ids))" using row by (rule mset_concat_cong)
  finally show "mset (expectedUsers evs opts) = mset (concat (map (scenario_rows st ?us) (first_seen (map fst ?us))))"
    by (simp add: ids_def)
qed

section \<open>The comparison\<close>

definition users_near_start :: "int \<Rightarrow> canonical_event list \<Rightarrow> bool" where
  "users_near_start st evs \<longleftrightarrow> (\<forall>u \<in> set (gather user_obs evs). \<bar>snd (snd u) - st\<bar> < 2 ^ 49)"

lemma second_bound: "\<bar>ud_tsMs d - st\<bar> < 2 ^ 49 \<Longrightarrow> \<bar>second st d * 1000\<bar> < 2 ^ 50"
proof -
  assume d: "\<bar>ud_tsMs d - st\<bar> < 2 ^ 49"
  define t where "t = ud_tsMs d - st"
  have "t div 1000 * 1000 \<le> t" "t < t div 1000 * 1000 + 1000" by presburger+
  then show ?thesis using d by (simp add: second_def t_def [symmetric])
qed

lemma user_width_small:
  assumes sweep: "user_sweep st cap ds = Some (w, bs)" and cap: "2 \<le> cap" and near: "\<forall>d \<in> set ds. \<bar>ud_tsMs d - st\<bar> < 2 ^ 49"
  shows "0 < w" "w \<le> 2 ^ 51" "i \<in> set (seconds st (js_sort cmp_delta ds)) \<Longrightarrow> \<bar>i * 1000\<bar> < 2 ^ 50"
proof -
  define es where "es = js_sort cmp_delta ds"
  have w: "narrowest cap (\<lambda>i. i * 1000) w (mset (seconds st es))" using stored_users(2) [OF sweep cap] by (simp add: es_def)
  have small: "\<bar>j * 1000\<bar> < 2 ^ 50" if j: "j \<in> set (seconds st es)" for j
  proof -
    have ne: "es \<noteq> []" using j by (auto simp: seconds_def)
    obtain a b where ab: "seconds st es = [a..b]" "a = Min (second st ` set es)" "b = Max (second st ` set es)" "a \<le> b"
      by (rule seconds_range [OF ne]) (rule that)
    have "a \<in> second st ` set es" "b \<in> second st ` set es" unfolding ab(2,3) using ne by (intro Min_in Max_in; simp)+
    then have "\<bar>a * 1000\<bar> < 2 ^ 50" "\<bar>b * 1000\<bar> < 2 ^ 50" using near second_bound by (auto simp: es_def)
    then show ?thesis using j by (simp add: ab(1) abs_less_iff)
  qed
  show "0 < w" using narrowest_pos [OF w] .
  show "w \<le> 2 ^ 51"
  proof (rule width_bound)
    show "narrowest (max 1 cap) (\<lambda>i. i * 1000) w (mset (seconds st es))" using w cap by (simp add: max_def)
    show "set (map (\<lambda>i. i * 1000) (seconds st es)) = (\<lambda>i. i * 1000) ` set_mset (mset (seconds st es))" by simp
    show "\<bar>t\<bar> < 2 ^ 50" if "t \<in> set (map (\<lambda>i. i * 1000) (seconds st es))" for t using that small by auto
  qed (simp add: cap)
  show "i \<in> set (seconds st (js_sort cmp_delta ds)) \<Longrightarrow> \<bar>i * 1000\<bar> < 2 ^ 50" using small by (simp add: es_def)
qed

lemma user_offset_plain:
  assumes "user_sweep st cap ds = Some (w, bs)" and "2 \<le> cap" and "\<forall>d \<in> set ds. \<bar>ud_tsMs d - st\<bar> < 2 ^ 49"
    and off: "off \<in> set (user_offsets st (js_sort cmp_delta ds) w)"
  shows "plain_int off"
proof -
  obtain i where "i \<in> set (seconds st (js_sort cmp_delta ds))" "off = i * 1000 div w * w"
    using off by (auto simp: user_offsets_def)
  then show ?thesis using user_width_small [OF assms(1-3)] offset_bound by blast
qed

lemma user_cap_room: "2 \<le> USER_BUCKET_CAP"
  by (simp add: USER_BUCKET_CAP_def)

lemma user_keys:
  assumes "users_near_start st evs"
  shows "inj_on user_key (set (concat (map (scenario_rows st (gather user_obs evs)) ids)))"
proof (rule inj_onI)
  let ?us = "gather user_obs evs"
  fix e f assume ef: "e \<in> set (concat (map (scenario_rows st ?us) ids))" "f \<in> set (concat (map (scenario_rows st ?us) ids))"
    "user_key e = user_key f"
  have row: "\<exists>sc w off. e = user_row sc st (js_sort cmp_delta (deltas_of sc ?us)) w off \<and> plain_int off \<and>
      map_option fst (user_sweep st USER_BUCKET_CAP (deltas_of sc ?us)) = Some w"
    if e: "e \<in> set (concat (map (scenario_rows st ?us) ids))" for e
  proof -
    obtain sc where "e \<in> set (scenario_rows st ?us sc)" using e by auto
    moreover obtain w bs where "user_sweep st USER_BUCKET_CAP (deltas_of sc ?us) = Some (w, bs)"
      using \<open>e \<in> set (scenario_rows st ?us sc)\<close> by (cases "user_sweep st USER_BUCKET_CAP (deltas_of sc ?us)") (auto simp: scenario_rows_def)
    ultimately obtain w bs off where r: "user_sweep st USER_BUCKET_CAP (deltas_of sc ?us) = Some (w, bs)"
      "off \<in> set (user_offsets st (js_sort cmp_delta (deltas_of sc ?us)) w)"
      "e = user_row sc st (js_sort cmp_delta (deltas_of sc ?us)) w off"
      by (auto simp: scenario_rows_def)
    have "\<forall>d \<in> set (deltas_of sc ?us). \<bar>ud_tsMs d - st\<bar> < 2 ^ 49"
      using assms by (force simp: deltas_of_def users_near_start_def)
    from user_offset_plain [OF r(1) user_cap_room this r(2)] r(1,3) show ?thesis by auto
  qed
  obtain sc w off where r: "e = user_row sc st (js_sort cmp_delta (deltas_of sc ?us)) w off" "plain_int off"
    "map_option fst (user_sweep st USER_BUCKET_CAP (deltas_of sc ?us)) = Some w" using row [OF ef(1)] by blast
  obtain sc' w' off' where r': "f = user_row sc' st (js_sort cmp_delta (deltas_of sc' ?us)) w' off'" "plain_int off'"
    "map_option fst (user_sweep st USER_BUCKET_CAP (deltas_of sc' ?us)) = Some w'" using row [OF ef(2)] by blast
  have "sc @ nul # js_int off = sc' @ nul # js_int off'" using ef(3) by (simp add: user_key_def r(1) r'(1) user_row_def Let_def)
  from append_sep_eq_right [OF this nul_js_int [OF r(2)] nul_js_int [OF r'(2)]] have "sc = sc'" "js_int off = js_int off'" by blast+
  with js_int_inj [OF r(2) r'(2)] r(3) r'(3) show "e = f" by (simp add: r(1) r'(1))
qed

lemma compareUsers_writes:
  assumes st: "vp_runStartMs opts = st" and users: "users_of lc st USER_BUCKET_CAP (gather user_obs evs) = Some users"
    and near: "users_near_start st evs" and kept: "mset (so_users stored) = mset (concat (map user_columns users))"
  shows "writes_only P (compareUsers (expectedFrom lc' evs opts) stored)"
proof -
  note same = users_same [OF st users]
  have "set (expectedUsers evs opts) = set (concat (map (scenario_rows st (gather user_obs evs)) (first_seen (map fst (gather user_obs evs)))))"
    using mset_eq_setD [OF same(1)] .
  then have "inj_on user_key (set (expectedUsers evs opts))" using user_keys [OF near] by metis
  moreover have "mset (expectedUsers evs opts) = mset (so_users stored)" using same kept by simp
  ultimately show ?thesis unfolding compareUsers_def expectedFrom_def
    by (intro matchRows_equal) (auto simp: user_both_def Let_def intro!: writes_only_comp writes_exact)
qed

end
