(* ===== verification/VerifySilence.thy ===== *)
theory VerifySilence
  imports VerifyMatch
begin

text \<open>
  What a silent ledger says: a comparison appends a fixed list of mismatches, so when none was appended every
  row has its counterpart and every figure checked agrees.
\<close>

section \<open>What a comparison appends\<close>

definition empty_ledger :: ledger where "empty_ledger = \<lparr>lg_figuresChecked = 0, lg_mismatches = []\<rparr>"

definition marks :: "(ledger \<Rightarrow> ledger) \<Rightarrow> figure_mismatch list" where
  "marks f = lg_mismatches (f empty_ledger)"

definition steady :: "(ledger \<Rightarrow> ledger) \<Rightarrow> bool" where
  "steady f \<longleftrightarrow> (\<forall>l. lg_mismatches (f l) = lg_mismatches l @ marks f)"

lemma steady_id [simp, intro]: "steady id" and marks_id [simp]: "marks id = []"
  by (simp_all add: steady_def marks_def empty_ledger_def)

lemma marks_comp [simp]: "steady f \<Longrightarrow> marks (f \<circ> g) = marks g @ marks f"
proof -
  assume f: "steady f"
  have "lg_mismatches (f (g empty_ledger)) = lg_mismatches (g empty_ledger) @ marks f"
    using f by (simp only: steady_def)
  then show "marks (f \<circ> g) = marks g @ marks f" by (simp only: marks_def comp_apply)
qed

lemma steady_comp [intro]: "steady f \<Longrightarrow> steady g \<Longrightarrow> steady (f \<circ> g)"
proof -
  assume f: "steady f" and g: "steady g"
  have "lg_mismatches (f (g l)) = lg_mismatches l @ marks g @ marks f" for l
    using f [unfolded steady_def, rule_format, of "g l"] g [unfolded steady_def, rule_format, of l] by simp
  then show "steady (f \<circ> g)" using marks_comp [OF f, of g] by (simp add: steady_def)
qed

lemma fold_steady:
  assumes "\<And>x. x \<in> set xs \<Longrightarrow> steady (f x)"
  shows "steady (fold f xs) \<and> marks (fold f xs) = concat (map (\<lambda>x. marks (f x)) xs)"
  using assms
proof (induction xs)
  case (Cons x xs)
  then have s: "steady (fold f xs)" "steady (f x)" "marks (fold f xs) = concat (map (\<lambda>x. marks (f x)) xs)" by simp_all
  have "fold f (x # xs) = fold f xs \<circ> f x" by (simp add: fun_eq_iff)
  then show ?case using steady_comp [OF s(1,2)] marks_comp [OF s(1), of "f x"] s(3) by (simp only:) simp
qed simp

lemma check_steady [simp, intro]: "steady (check_figure agrees pl figure pop s r)"
  and check_marks: "marks (check_figure agrees pl figure pop s r) = [] \<longleftrightarrow> agrees"
  by (simp_all add: steady_def marks_def check_figure_def empty_ledger_def)

lemma ledger_steady [simp, intro]:
  "steady (ledger_exact pl figure pop s r)" "steady (ledger_close pl figure pop x y)" "steady (ledger_row pl s r)"
  "steady (ledger_exactMap pl pop m n)"
  by (simp_all add: ledger_exact_def ledger_close_def ledger_row_def) (simp add: ledger_exactMap_def ledger_exact_def fold_steady)

lemma row_marks: "marks (ledger_row pl s r) \<noteq> []"
  by (simp add: ledger_row_def check_marks)

lemma exact_marks: "marks (ledger_exact pl figure pop s r) = [] \<longleftrightarrow> same_value s r"
  and close_marks: "marks (ledger_close pl figure pop x y) = [] \<longleftrightarrow> closeEnough x y"
  by (simp_all add: ledger_exact_def ledger_close_def check_marks)

lemma same_int: "same_value (fint a) (fint b) \<longleftrightarrow> a = b"
  by simp

lemma same_or_null: "same_value (fint_or_null a) (fint_or_null b) \<longleftrightarrow> a = b"
  by (cases a; cases b) (simp_all add: fint_or_null_def)

lemma map_marks: "marks (ledger_exactMap pl pop m n) = [] \<Longrightarrow> jm_get m = jm_get n"
proof
  fix k assume silent: "marks (ledger_exactMap pl pop m n) = []"
  define ks where "ks = js_sort byPercentileKey (fold set_insert (map fst n @ map fst m) [])"
  have "marks (ledger_exactMap pl pop m n) =
      concat (map (\<lambda>k. marks (ledger_exact pl k pop (fint_or_null (jm_get m k)) (fint_or_null (jm_get n k)))) ks)"
    unfolding ledger_exactMap_def ks_def by (rule fold_steady [THEN conjunct2]) simp
  with silent have agree: "jm_get m j = jm_get n j" if "j \<in> set ks" for j
    using that by (simp add: exact_marks same_or_null)
  have "set ks = fst ` set n \<union> fst ` set m" using first_seen_set(1) [of "map fst n @ map fst m"] by (simp add: ks_def first_seen_def)
  then show "jm_get m k = jm_get n k" using agree [of k] by (cases "k \<in> set ks") (auto simp: map_of_eq_None_iff [symmetric])
qed

section \<open>Rows\<close>

lemma group_rows_keys: "fst ` set (group_rows key rows) = key ` set rows"
proof (induction rows rule: rev_induct)
  case (snoc r rows)
  have "group_rows key (rows @ [r]) = jm_set (key r) (jm_get_or [] (group_rows key rows) (key r) @ [r]) (group_rows key rows)"
    by (simp add: group_rows_def)
  then show ?case using snoc by (simp add: keys_jm_set)
qed (simp add: group_rows_def)

text \<open>Two tables correspond: the same keys, and one row per key agrees with its counterpart.\<close>

definition correspond :: "('e \<Rightarrow> jstr) \<Rightarrow> ('s \<Rightarrow> jstr) \<Rightarrow> ('e \<Rightarrow> 's \<Rightarrow> bool) \<Rightarrow> 'e list \<Rightarrow> 's list \<Rightarrow> bool" where
  "correspond keyE keyS R es ss \<longleftrightarrow> mset (map keyE es) = mset (map keyS ss) \<and>
     (distinct (map keyE es) \<longrightarrow> (\<forall>e \<in> set es. \<forall>s \<in> set ss. keyE e = keyS s \<longrightarrow> R e s))"

lemma only_row: "distinct (map f xs) \<Longrightarrow> x \<in> set xs \<Longrightarrow> filter (\<lambda>y. f y = f x) xs = [x]"
proof (induction xs)
  case (Cons y ys)
  show ?case
  proof (cases "x = y")
    case True
    then have "f x \<notin> f ` set ys" using Cons.prems(1) by simp
    then have "filter (\<lambda>z. f z = f x) ys = []" by (auto simp: filter_empty_conv image_iff)
    then show ?thesis using True by simp
  next
    case False
    then have "x \<in> set ys" "f y \<noteq> f x" using Cons.prems by force+
    then show ?thesis using Cons by simp
  qed
qed simp

lemma matchRows_marks:
  assumes "\<And>e s. steady (both e s)" and "\<And>e. steady (missing e) \<and> marks (missing e) \<noteq> []"
    and "\<And>s. steady (extra s) \<and> marks (extra s) \<noteq> []"
  shows "steady (matchRows es ss keyE keyS both missing extra)"
    and "marks (matchRows es ss keyE keyS both missing extra) = [] \<Longrightarrow> correspond keyE keyS (\<lambda>e s. marks (both e s) = []) es ss"
proof -
  define E where "E k = filter (\<lambda>r. keyE r = k) es" for k
  define S where "S k = filter (\<lambda>r. keyS r = k) ss" for k
  define p where "p k = min (length (E k)) (length (S k))" for k
  define ks where "ks = js_sort cmp_units (fold set_insert (map fst (group_rows keyE es) @ map fst (group_rows keyS ss)) [])"
  define f where "f k = fold extra (drop (p k) (S k)) \<circ> fold missing (drop (p k) (E k)) \<circ>
    fold (\<lambda>(e, s). both e s) (zip (take (p k) (E k)) (take (p k) (S k)))" for k
  have whole: "matchRows es ss keyE keyS both missing extra = fold f ks"
    by (simp add: matchRows_def Let_def group_rows_get E_def [symmetric] S_def [symmetric] p_def [symmetric] f_def [abs_def] ks_def)
  have pairs: "steady (case q of (e, s) \<Rightarrow> both e s)" for q by (cases q) (simp add: assms(1))
  have f: "steady (f k)" "marks (f k) = concat (map (\<lambda>(e, s). marks (both e s)) (zip (take (p k) (E k)) (take (p k) (S k)))) @
      concat (map (\<lambda>e. marks (missing e)) (drop (p k) (E k))) @ concat (map (\<lambda>s. marks (extra s)) (drop (p k) (S k)))" for k
  proof -
    have a: "steady (fold extra (drop (p k) (S k)))" "marks (fold extra (drop (p k) (S k))) = concat (map (\<lambda>s. marks (extra s)) (drop (p k) (S k)))"
      using fold_steady [of "drop (p k) (S k)" extra] assms(3) by blast+
    have b: "steady (fold missing (drop (p k) (E k)))" "marks (fold missing (drop (p k) (E k))) = concat (map (\<lambda>e. marks (missing e)) (drop (p k) (E k)))"
      using fold_steady [of "drop (p k) (E k)" missing] assms(2) by blast+
    have c: "steady (fold (\<lambda>(e, s). both e s) zs)" "marks (fold (\<lambda>(e, s). both e s) zs) = concat (map (\<lambda>(e, s). marks (both e s)) zs)" for zs
      using fold_steady [of zs "\<lambda>(e, s). both e s"] pairs by (simp_all add: case_prod_beta')
    show "steady (f k)" unfolding f_def by (intro steady_comp a(1) b(1) c(1))
    show "marks (f k) = concat (map (\<lambda>(e, s). marks (both e s)) (zip (take (p k) (E k)) (take (p k) (S k)))) @
      concat (map (\<lambda>e. marks (missing e)) (drop (p k) (E k))) @ concat (map (\<lambda>s. marks (extra s)) (drop (p k) (S k)))"
      unfolding f_def by (simp add: steady_comp a b c)
  qed
  have all: "steady (fold f ks)" "marks (fold f ks) = concat (map (\<lambda>k. marks (f k)) ks)"
    using fold_steady [of ks f] f(1) by blast+
  show "steady (matchRows es ss keyE keyS both missing extra)" unfolding whole by (rule all(1))
  assume silent: "marks (matchRows es ss keyE keyS both missing extra) = []"
  have keys: "set ks = keyE ` set es \<union> keyS ` set ss"
    using first_seen_set(1) [of "map fst (group_rows keyE es) @ map fst (group_rows keyS ss)"]
    by (simp add: ks_def first_seen_def group_rows_keys)
  have none: "drop (p k) (E k) = [] \<and> drop (p k) (S k) = [] \<and> (\<forall>q \<in> set (zip (take (p k) (E k)) (take (p k) (S k))). marks (both (fst q) (snd q)) = [])"
    if "k \<in> set ks" for k
  proof -
    have "marks (f k) = []" using silent that unfolding whole all(2) by simp
    then have "\<forall>e \<in> set (drop (p k) (E k)). marks (missing e) = []" "\<forall>s \<in> set (drop (p k) (S k)). marks (extra s) = []"
      "\<forall>q \<in> set (zip (take (p k) (E k)) (take (p k) (S k))). marks (both (fst q) (snd q)) = []"
      unfolding f(2) by (simp_all add: case_prod_beta)
    then show ?thesis using assms(2,3) by (metis list.set_intros(1) neq_Nil_conv)
  qed
  have len: "length (E k) = length (S k)" for k
  proof (cases "k \<in> set ks")
    case True
    then show ?thesis using none [OF True] by (simp add: p_def min_def split: if_splits)
  next
    case False
    then have "E k = []" "S k = []" using keys by (auto simp: E_def S_def filter_empty_conv)
    then show ?thesis by simp
  qed
  have "mset (map keyE es) = mset (map keyS ss)"
    by (rule multiset_eqI) (use len in \<open>simp only: count_filter E_def S_def\<close>)
  moreover have "marks (both e s) = []" if d: "distinct (map keyE es)" and e: "e \<in> set es" and s: "s \<in> set ss" "keyE e = keyS s" for e s
  proof -
    have "distinct (map keyS ss)" using d calculation by (metis mset_eq_imp_distinct_iff)
    then have rows: "E (keyE e) = [e]" "S (keyE e) = [s]" using only_row [OF d e] only_row [of keyS ss s] s by (simp_all add: E_def S_def)
    have "keyE e \<in> set ks" using e keys by simp
    from none [OF this] show ?thesis by (simp add: rows p_def)
  qed
  ultimately show "correspond keyE keyS (\<lambda>e s. marks (both e s) = []) es ss" by (simp add: correspond_def)
qed

lemma correspond_mono: "correspond keyE keyS R es ss \<Longrightarrow> (\<And>e s. R e s \<Longrightarrow> Q e s) \<Longrightarrow> correspond keyE keyS Q es ss"
  by (auto simp: correspond_def)

section \<open>Table by table\<close>

definition same_percentiles :: "percentile_map \<Rightarrow> percentile_map \<Rightarrow> bool" where
  "same_percentiles m n \<longleftrightarrow> jm_get m = jm_get n"

definition stats_agree :: "expected_stat \<Rightarrow> expected_stat \<Rightarrow> bool" where
  "stats_agree e s \<longleftrightarrow> xt_count s = xt_count e \<and> xt_okCount s = xt_okCount e \<and> xt_koCount s = xt_koCount e \<and>
     xt_minMs s = xt_minMs e \<and> xt_maxMs s = xt_maxMs e \<and> same_percentiles (xt_percentiles s) (xt_percentiles e) \<and>
     closeEnough (xt_errorRate s) (xt_errorRate e) \<and> closeEnough (xt_meanMs s) (xt_meanMs e) \<and>
     closeEnough (xt_stddevMs s) (xt_stddevMs e) \<and> closeEnough (xt_throughputRps s) (xt_throughputRps e)"

definition series_agree :: "expected_series_bucket \<Rightarrow> stored_series_bucket \<Rightarrow> bool" where
  "series_agree e s \<longleftrightarrow> zb_startedCount s = xb_startedCount e \<and> zb_endedCount s = xb_endedCount e \<and>
     zb_okCount s = xb_okCount e \<and> zb_koCount s = xb_koCount e \<and> zb_startedOkCount s = Some (xb_startedOkCount e) \<and>
     zb_startedKoCount s = Some (xb_startedKoCount e) \<and> zb_minMs s = xb_minMs e \<and> zb_maxMs s = xb_maxMs e \<and>
     closeEnough (zb_meanMs s) (xb_meanMs e) \<and> same_percentiles (zb_percentiles s) (xb_percentiles e) \<and>
     same_percentiles (or_default (zb_percentilesOk s) []) (xb_percentilesOk e) \<and>
     same_percentiles (or_default (zb_percentilesKo s) []) (xb_percentilesKo e)"

lemmas figure_marks = Let_def exact_marks close_marks same_int same_or_null steady_comp

lemma stat_both_marks: "steady (stat_both e s) \<and> (marks (stat_both e s) = [] \<longrightarrow> stats_agree e s)"
  using map_marks [of "stat_place e" "Some AllP" "xt_percentiles s" "xt_percentiles e"]
  by (auto simp: stat_both_def figure_marks stats_agree_def same_percentiles_def simp del: same_value.simps)

lemma some_null: "same_value (fint_or_null v) (fint n) \<longleftrightarrow> v = Some n"
  by (cases v) (simp_all add: fint_or_null_def)

lemma series_both_marks: "steady (series_both e s) \<and> (marks (series_both e s) = [] \<longrightarrow> series_agree e s)"
  using map_marks [of "place RunSeriesBucket (xb_scope e) (xb_name e) (xb_family e) (Some (xb_startOffsetMs e))"]
  by (auto simp: series_both_def figure_marks some_null series_agree_def same_percentiles_def simp del: same_value.simps)

lemma error_both_marks: "steady (error_both e s) \<and>
    (marks (error_both e s) = [] \<longrightarrow> xe_count s = xe_count e \<and> (xe_isOther e \<longrightarrow> xe_message s = xe_message e))"
  by (auto simp: error_both_def figure_marks simp del: same_value.simps) simp_all

lemma error_bucket_both_marks: "steady (error_bucket_both e s) \<and>
    (marks (error_bucket_both e s) = [] \<longrightarrow> xg_count s = xg_count e \<and> xg_bucketWidthMs s = xg_bucketWidthMs e)"
  by (auto simp: error_bucket_both_def figure_marks simp del: same_value.simps)

lemma user_both_marks: "steady (user_both e s) \<and>
    (marks (user_both e s) = [] \<longrightarrow> xu_started s = xu_started e \<and> xu_ended s = xu_ended e \<and> xu_maxConcurrent s = xu_maxConcurrent e)"
  by (auto simp: user_both_def figure_marks simp del: same_value.simps)

lemma run_marks: "steady (compareRun E S) \<and> (marks (compareRun E S) = [] \<longrightarrow>
    so_durationMs S = JFin (of_int (xn_durationMs (ex_run E))) \<and> so_activityMs S = JFin (of_int (xn_activityMs (ex_run E))))"
proof -
  have num: "same_value (FNum x) (fint n) \<longleftrightarrow> x = JFin (of_int n)" for x n by (cases x) simp_all
  show ?thesis by (auto simp: compareRun_def figure_marks num simp del: same_value.simps)
qed

definition tables_agree :: "expected \<Rightarrow> stored \<Rightarrow> bool" where
  "tables_agree E S \<longleftrightarrow> correspond stat_key stat_key stats_agree (ex_stats E) (so_stats S) \<and>
     correspond (\<lambda>b. series_key4 (xb_scope b) (xb_name b) (xb_family b) (xb_startOffsetMs b))
       (\<lambda>b. series_key4 (zb_scope b) (zb_name b) (zb_family b) (zb_startOffsetMs b)) series_agree (ex_series E) (so_series S) \<and>
     correspond error_key error_key (\<lambda>e s. xe_count s = xe_count e \<and> (xe_isOther e \<longrightarrow> xe_message s = xe_message e))
       (ex_errors E) (so_errors S) \<and>
     correspond error_bucket_key error_bucket_key (\<lambda>e s. xg_count s = xg_count e \<and> xg_bucketWidthMs s = xg_bucketWidthMs e)
       (ex_errorBuckets E) (so_errorBuckets S) \<and>
     correspond user_key user_key (\<lambda>e s. xu_started s = xu_started e \<and> xu_ended s = xu_ended e \<and>
       xu_maxConcurrent s = xu_maxConcurrent e) (ex_users E) (so_users S) \<and>
     so_durationMs S = JFin (of_int (xn_durationMs (ex_run E))) \<and> so_activityMs S = JFin (of_int (xn_activityMs (ex_run E)))"

lemma table_marks:
  assumes "f = matchRows es ss keyE keyS both missing extra" and "\<And>e s. steady (both e s) \<and> (marks (both e s) = [] \<longrightarrow> R e s)"
    and "\<And>e. steady (missing e) \<and> marks (missing e) \<noteq> []" and "\<And>s. steady (extra s) \<and> marks (extra s) \<noteq> []"
  shows "steady f \<and> (marks f = [] \<longrightarrow> correspond keyE keyS R es ss)"
proof -
  note m = matchRows_marks [of both missing extra, OF _ assms(3,4)]
  have "steady f" unfolding assms(1) using m(1) assms(2) by blast
  moreover have "correspond keyE keyS R es ss" if "marks f = []"
    by (rule correspond_mono [OF m(2)]) (use assms(2) that in \<open>auto simp: assms(1)\<close>)
  ultimately show ?thesis by blast
qed

text \<open>
  C13: a comparison that reports nothing vouches for the stored figures: every table has the keys
  that were recomputed and no others, each as often, and the row under a key that was recomputed once
  carries the recomputed figures: the exact ones equal, percentile by percentile, the others within the tolerance.
\<close>

theorem silent_ledger_vouches:
  assumes "lg_mismatches (compare_figures E S) = []"
  shows "tables_agree E S"
proof -
  have row: "steady (ledger_row pl s r) \<and> marks (ledger_row pl s r) \<noteq> []" for pl s r by (simp add: row_marks)
  note stats = table_marks [OF compareStats_def [of E S] stat_both_marks row row]
  note series = table_marks [OF compareSeries_def [of E S] series_both_marks row row]
  note errors = table_marks [OF compareErrors_def [of E S] error_both_marks row row]
  note error_buckets = table_marks [OF compareErrorBuckets_def [of E S] error_bucket_both_marks row row]
  note users = table_marks [OF compareUsers_def [of E S] user_both_marks row row]
  have "compare_figures E S = (compareRun E S \<circ> (compareUsers E S \<circ> (compareErrorBuckets E S \<circ>
      (compareErrors E S \<circ> (compareSeries E S \<circ> compareStats E S))))) empty_ledger"
    by (simp add: compare_figures_def COMPARATORS_def empty_ledger_def)
  with assms have "marks (compareRun E S \<circ> (compareUsers E S \<circ> (compareErrorBuckets E S \<circ>
      (compareErrors E S \<circ> (compareSeries E S \<circ> compareStats E S))))) = []" by (simp add: marks_def)
  then have "marks (compareStats E S) = []" "marks (compareSeries E S) = []" "marks (compareErrors E S) = []"
    "marks (compareErrorBuckets E S) = []" "marks (compareUsers E S) = []" "marks (compareRun E S) = []"
    using stats series errors error_buckets users run_marks by simp_all
  with stats series errors error_buckets users run_marks show ?thesis unfolding tables_agree_def by blast
qed

definition sample_error :: "char list \<Rightarrow> int \<Rightarrow> expected_error" where
  "sample_error s n = \<lparr>xe_scope = js ''run'', xe_name = [], xe_message = js s, xe_isOther = False, xe_count = n\<rparr>"

definition sample_expected :: expected where
  "sample_expected = \<lparr>ex_stats = [], ex_series = [], ex_errors = [sample_error ''b'' 7, sample_error ''a'' 2], ex_errorBuckets = [],
     ex_users = [\<lparr>xu_scenario = js ''s'', xu_startOffsetMs = 1000, xu_started = 3, xu_ended = 1, xu_maxConcurrent = 4\<rparr>],
     ex_run = \<lparr>xn_durationMs = 1500, xn_activityMs = 900\<rparr>\<rparr>"

definition sample_stored :: stored where
  "sample_stored = \<lparr>so_stats = [], so_series = [], so_errors = [sample_error ''a'' 2, sample_error ''b'' 7], so_errorBuckets = [],
     so_users = ex_users sample_expected, so_durationMs = JFin 1500, so_activityMs = JFin 900\<rparr>"

theorem silent_ledger_vouches_witness: "tables_agree sample_expected sample_stored"
  by (rule silent_ledger_vouches) code_simp

end
