(* ===== verification/VerifyProperties.thy ===== *)
theory VerifyProperties
  imports VerifyUserRows VerifySilence EngineProperties
begin

text \<open>
  The verifier and the engine agree: what the engine writes for a run, read back from the tables, is confirmed
  figure by figure by the recomputation from the same events.
\<close>

lemma opts_for_frozen: "opts_for (engine_config_of opts) st (optionsFrom opts st)"
  by (simp add: opts_for_def optionsFrom_def engine_config_of_def DEFAULT_MAX_BUCKETS_ENDPOINT_def)

lemma writes_nothing:
  assumes "writes_only (\<lambda>_. False) f"
  shows "lg_mismatches (f l) = lg_mismatches l"
proof -
  obtain ms where "lg_mismatches (f l) = lg_mismatches l @ ms" "list_all (\<lambda>_. False) ms" using assms by (auto simp: writes_only_def)
  then show ?thesis by (cases ms) simp_all
qed

text \<open>
  The runs for which the recomputation is claimed: names without NUL, times within \<open>2 ^ 49\<close> milliseconds of
  the start, at most two million events, and percentiles that stay exact on that many.
\<close>

definition verifiable :: "engine_options \<Rightarrow> meta_event \<Rightarrow> canonical_event list \<Rightarrow> bool" where
  "verifiable opts m evs \<longleftrightarrow> plain_paths evs \<and> near_start (me_startedAtMs m) evs \<and> users_near_start (me_startedAtMs m) evs \<and>
     length evs \<le> 2000000 \<and> ranks_safe 2000000 (ec_percentiles (engine_config_of opts)) \<and>
     0 \<le> me_startedAtMs m + or_default (eo_warmupMs opts) 0 \<and> eo_maxBucketsGroup opts = None \<and> eo_maxBucketsUsers opts = None"

text \<open>
  C2: every result that the engine computes is confirmed by the verifier: every
  column to store is derived without an error, and whatever order the tables are read back in, the recomputation from the same events
  finds no missing row, no extra row and no figure that differs.
\<close>

theorem verifier_confirms_the_engine:
  assumes "runnable (engine_config_of opts) m evs" and "fits (engine_config_of opts) evs" and "verifiable opts m evs"
    and "strict_cmp lc"
  shows "\<exists>res written. runEngine lc (MetaE m # evs) opts = Some (EngineDone res) \<and> persist res = Inr written \<and>
    (\<forall>read. reads_back written read \<longrightarrow>
      lg_mismatches (compare_figures (expectedFrom lc evs (optionsFrom opts (me_startedAtMs m))) (toStored read)) = [])"
proof -
  let ?c = "engine_config_of opts" and ?st = "me_startedAtMs m"
  let ?opts = "optionsFrom opts ?st"
  note ver = assms(3) [unfolded verifiable_def]
  obtain res where res: "runEngine lc (MetaE m # evs) opts = Some (EngineDone res)" "result_rep lc ?c m evs res"
    using run_result [OF assms(1,2), of lc] by blast
  obtain e e' where e: "engine_rep ?c m evs e" "snapshot_error_series lc e = Some (xr_errorSeries res, e')"
    by (rule run_errors_at [OF assms(1,2) res(1)]) (rule that)
  have room: "stream_room ?c ?st evs" using assms(1) by (simp add: runnable_def)
  note opts = opts_for_frozen [of opts ?st]
  have warm: "0 \<le> ?st + ec_warmupMs ?c" using ver by (simp add: engine_config_of_def)
  have caps: "ec_maxBucketsGroup ?c = GROUP_SERIES_CAP" "ec_maxBucketsUsers ?c = USER_BUCKET_CAP"
    using ver by (simp_all add: engine_config_of_def or_default_def GROUP_SERIES_CAP_def USER_BUCKET_CAP_def)
  have few: "length evs \<le> 2000000" "length evs \<le> 8000000" "int (length evs) \<le> 2000000" using ver by simp_all
  have series: "list_all2 (series_for ?c ?st (gather series_obs evs)) (first_seen (map fst (gather series_obs evs))) (xr_series res)"
    using res(2) by (simp only: result_rep_def Let_def)
  have errors: "xr_errors res = errors_of lc (gather (error_obs ?st (ec_warmupMs ?c)) evs)"
    using res(2) by (simp only: result_rep_def Let_def)
  have users: "users_of lc ?st USER_BUCKET_CAP (gather user_obs evs) = Some (xr_users res)"
    using res(2) by (simp only: result_rep_def Let_def caps)
  note table = stored_table [OF series room]
  obtain written where w: "persist res = Inr written" using table by (simp add: persist_def)
  have "lg_mismatches (compare_figures (expectedFrom lc evs ?opts) (toStored read)) = []" if rb: "reads_back written read" for read
  proof -
    let ?E = "expectedFrom lc evs ?opts" and ?S = "toStored read"
    obtain rows where rows: "sum_list_all (concat (map (\<lambda>(k, i, w, bs). map (bucket_columns i) bs) (xr_series res))) = Inr rows"
      using table by blast
    have written: "mset (so_stats ?S) = mset (map stat_columns (xr_stats res))" "mset (so_series ?S) = mset rows"
      "mset (so_errors ?S) = mset (map error_columns (errors_of lc (gather (error_obs ?st (ec_warmupMs ?c)) evs)))"
      "mset (so_errorBuckets ?S) = mset (map (error_bucket_columns (ez_bucketWidthMs (xr_errorSeries res))) (ez_rows (xr_errorSeries res)))"
      "mset (so_users ?S) = mset (concat (map user_columns (xr_users res)))"
      "so_durationMs ?S = JFin (of_int (xr_durationMs res))" "so_activityMs ?S = JFin (of_int (xr_activityMs res))"
      using rb w rows errors by (auto simp: persist_def reads_back_def toStored_def num_or_nan_def)
    have "writes_only (\<lambda>_. False) (compareStats ?E ?S)"
      by (rule compareStats_writes [OF res(2) opts warm _ few(3,2) written(1)]) (use ver in blast)
    moreover have "writes_only (\<lambda>_. False) (compareSeries ?E ?S)"
      by (rule compareSeries_writes [OF series room opts caps(1) few(1) _ rows written(2)]) (use ver in blast)
    moreover have "writes_only (\<lambda>_. False) (compareErrors ?E ?S)"
      by (rule compareErrors_writes [OF opts _ written(3)]) (use ver in blast)
    moreover have "writes_only (\<lambda>_. False) (compareErrorBuckets ?E ?S)"
      by (rule compareErrorBuckets_writes [OF e(1) room e(2) opts assms(4) _ written(4)]) (use ver in blast)
    moreover have "writes_only (\<lambda>_. False) (compareUsers ?E ?S)"
      by (rule compareUsers_writes [OF _ users _ written(5)]) (use ver in \<open>simp_all add: optionsFrom_def\<close>)
    moreover have "writes_only (\<lambda>_. False) (compareRun ?E ?S)"
      by (rule compareRun_writes [OF res(2) opts warm written(6,7)])
    ultimately show ?thesis by (simp add: compare_figures_def COMPARATORS_def writes_nothing)
  qed
  with res(1) w show ?thesis by blast
qed

lemma sample_near: "near_start 1000 sample_stream" "users_near_start 1000 sample_stream"
  by (simp_all add: near_start_def users_near_start_def sample_stream_def both_edges_def sample_request_def an_edge_def)

lemma sample_verifiable: "verifiable no_options (sample_header 1000) sample_stream"
proof -
  have "ranks_safe 2000000 (ec_percentiles (engine_config_of no_options))"
    using whole_rank [of 50] whole_rank [of 75] whole_rank [of 95] whole_rank [of 99]
    by (simp add: ranks_safe_def engine_config_of_def no_options_def or_default_def in_range_def)
  moreover have "plain_paths sample_stream"
    by (simp add: plain_paths_def request_paths_def sample_stream_def first_seen_def set_insert_def sample_request_def
        request_path_def nul_def)
  moreover have "length sample_stream \<le> 2000000" by (simp add: sample_stream_def)
  ultimately show ?thesis using sample_near by (simp add: verifiable_def sample_header_def no_options_def or_default_def)
qed

theorem verifier_confirms_the_engine_witness:
  "\<exists>res written. runEngine cmp_units (MetaE (sample_header 1000) # sample_stream) no_options = Some (EngineDone res) \<and>
    persist res = Inr written \<and>
    lg_mismatches (compare_figures (expectedFrom cmp_units sample_stream (optionsFrom no_options 1000)) (toStored written)) = []"
proof -
  from verifier_confirms_the_engine [OF sample_ok sample_verifiable strict_units] obtain res written where
    "runEngine cmp_units (MetaE (sample_header 1000) # sample_stream) no_options = Some (EngineDone res)" "persist res = Inr written"
    "\<And>read. reads_back written read \<Longrightarrow>
      lg_mismatches (compare_figures (expectedFrom cmp_units sample_stream (optionsFrom no_options (me_startedAtMs (sample_header 1000))))
        (toStored read)) = []"
    by blast
  moreover have "reads_back written written" by (simp add: reads_back_def)
  ultimately show ?thesis by (auto simp: sample_header_def)
qed

end
