(* ===== verification/LiveTyped.thy ===== *)
theory LiveTyped
  imports VerifyProperties LiveProperties
begin

text \<open>
  Every message that the owner of a fold publishes satisfies the schema that the browser parses it with
  (\<open>LiveDeltaSchema\<close>): the browser drops a whole frame that does not.
\<close>

section \<open>Bounds\<close>

lemma zod_plain: "zod_int n \<longleftrightarrow> plain_int n"
  by (simp add: zod_int_def plain_int_def) linarith

lemma plain_count: "0 \<le> n \<Longrightarrow> n \<le> k \<Longrightarrow> plain_int k \<Longrightarrow> plain_int n"
  by (simp add: plain_int_def)

lemma gather_length: "(\<And>x. x \<in> set xs \<Longrightarrow> length (f x) \<le> n) \<Longrightarrow> length (gather f xs) \<le> n * length xs"
  by (induction xs) (simp_all add: add_mono)

lemma obs_of_length: "length (obs_of i L) \<le> length L"
  by (simp add: obs_of_def)

text \<open>The streams for which it is claimed: fewer than \<open>2 ^ 50\<close> events, all within \<open>2 ^ 49\<close> milliseconds of the start.\<close>

definition modest :: "int \<Rightarrow> canonical_event list \<Rightarrow> bool" where
  "modest st evs \<longleftrightarrow> near_start st evs \<and> users_near_start st evs \<and> int (length evs) < 2 ^ 50"

lemma modest_prefix: "modest st (a @ b) \<Longrightarrow> modest st a"
  by (simp add: modest_def near_start_def users_near_start_def)

lemma gather_obs_length:
  assumes "\<And>x. length (f x) \<le> n"
  shows "length (obs_of i (gather f xs)) \<le> n * length xs"
  by (rule order.trans [OF obs_of_length gather_length]) (rule assms)

lemma rows_counted: "length (obs_of i (gather (row_obs st wu) evs)) \<le> 2 * length evs"
proof (rule gather_obs_length)
  show "length (row_obs st wu ev) \<le> 2" for ev by (cases ev) simp_all
qed

lemma edges_counted: "size (run_edges_of evs) \<le> 4 * length evs"
proof -
  have "length (obs_of run_id (gather series_obs evs)) \<le> 4 * length evs"
  proof (rule gather_obs_length)
    show "length (series_obs ev) \<le> 4" for ev by (cases ev) (simp_all add: both_edges_def)
  qed
  then show ?thesis by (simp add: run_edges_of_def)
qed

lemma errors_counted: "length (obs_of i (gather (error_obs st wu) evs)) \<le> 2 * length evs"
proof (rule gather_obs_length)
  show "length (error_obs st wu ev) \<le> 2" for ev by (cases ev) simp_all
qed

lemma deltas_counted: "length (deltas_of sc (gather user_obs evs)) \<le> length evs"
proof -
  have "length (user_obs ev) \<le> 1" for ev by (cases ev) simp_all
  then have "length (gather user_obs evs) \<le> 1 * length evs" by (rule gather_length)
  moreover have "length (deltas_of sc us) \<le> length us" for us by (simp add: deltas_of_def)
  ultimately show ?thesis by (metis mult_1 order.trans)
qed

section \<open>The summary\<close>

lemma share_bounds: "0 \<le> a \<Longrightarrow> a \<le> b \<Longrightarrow> 0 < b \<Longrightarrow> 0 \<le> fdiv (of_int a) (of_int b) \<and> fdiv (of_int a) (of_int b) \<le> 1"
  using rnd_mono [of "of_int a / of_int b" 1] rnd_of_int [of 1] by (simp add: fdiv_def rnd_nonneg)

lemma summary_typed:
  assumes "result_rep lc c m evs res" and "int (length evs) < 2 ^ 50"
  shows "LiveSummarySchema (summary_of res)"
proof (cases "run_stat_of res")
  case None
  then show ?thesis by (simp add: summary_of_def LiveSummarySchema_def zod_int_def)
next
  case (Some s)
  let ?R = "gather (row_obs (me_startedAtMs m) (ec_warmupMs c)) evs"
  let ?w = "window_of c (me_startedAtMs m) (gather requests_in evs)"
  have "list_all2 (row_for ?w (ec_percentiles c) ?R) (first_seen (map fst ?R)) (xr_stats res)"
    using assms(1) by (simp add: result_rep_def Let_def)
  then have "\<forall>s \<in> set (xr_stats res). \<exists>i. row_for ?w (ec_percentiles c) ?R i s" by (rule list_all2_right) blast
  moreover have "s \<in> set (xr_stats res)" using Some by (auto simp: run_stat_of_def find_Some_iff)
  ultimately obtain i where row: "row_for ?w (ec_percentiles c) ?R i s" by blast
  let ?M = "pop_ok (obs_of i ?R)" and ?N = "pop_ko (obs_of i ?R)"
  have n: "size ?M + size ?N = length (obs_of i ?R)" "length (obs_of i ?R) \<le> 2 * length evs"
    by (rule pop_sizes(3), rule rows_counted)
  have counts: "sr_count s = int (size ?M + size ?N)" "sr_okCount s = int (size ?M)" "sr_koCount s = int (size ?N)"
    using row_for_reads [OF row] n(1) by simp_all
  have rate: "sr_errorRate s = (if ?M + ?N = {#} then 0 else fdiv (of_int (int (size ?N))) (of_int (int (size (?M + ?N)))))"
    using row by (auto simp: row_for_def row_of_def Let_def)
  have "0 \<le> sr_errorRate s \<and> sr_errorRate s \<le> 1"
  proof (cases "?M + ?N = {#}")
    case False
    then have "0 < size (?M + ?N)" by (simp only: size_eq_0_iff_empty neq0_conv [symmetric] simp_thms)
    then have "0 < int (size (?M + ?N))" by (simp only: of_nat_0_less_iff)
    moreover have "int (size ?N) \<le> int (size (?M + ?N))" by simp
    ultimately show ?thesis unfolding rate if_not_P [OF False] by (intro share_bounds) simp_all
  qed (simp add: rate)
  moreover have "zod_int (sr_count s)" "zod_int (sr_okCount s)" "zod_int (sr_koCount s)"
    using n assms(2) by (simp_all add: counts zod_int_def)
  ultimately show ?thesis using Some by (simp add: summary_of_def LiveSummarySchema_def)
qed

section \<open>The response-time series\<close>

lemma edges_part: "size (edges e True M) + size (edges e False M) \<le> size M"
proof -
  have "edges e True M + edges e False M = filter_mset (\<lambda>x. re_edge x = e) M" by (induction M) (auto simp: edges_def)
  then show ?thesis by (metis size_filter_mset_lesseq size_union)
qed

lemma wire_typed:
  assumes "zod_int off" and "int (size M) < 2 ^ 53"
  shows "LiveSeriesBucketSchema (wire_of off M)"
  using assms edges_part [of StartEdge M] edges_part [of EndEdge M]
  by (simp add: LiveSeriesBucketSchema_def wire_of_def Let_def zod_int_def zod_nullable_def)

lemma run_series_typed:
  assumes res: "result_rep lc c m evs res" and room: "stream_room c (me_startedAtMs m) evs" and modest: "modest (me_startedAtMs m) evs"
  shows "\<exists>w bs. run_series_of res = (w, bs) \<and> zod_int w \<and> 0 < w \<and>
    (\<forall>b \<in> set bs. \<exists>x. wire_bucket b = Inr x \<and> LiveSeriesBucketSchema x)"
proof -
  let ?st = "me_startedAtMs m" and ?M = "run_edges_of evs"
  obtain w bs where s: "run_series_of res = (w, bs)" "settled (max 1 (ec_maxBucketsRun c)) ?st w ?M"
    "map bk_startOffsetMs bs = sorted_list_of_set (slots ?st w ?M)"
    "\<And>b. b \<in> set bs \<Longrightarrow> wire_bucket b = Inr (shown_at ?st w ?M (bk_startOffsetMs b))"
    by (rule run_series_rep [OF res]) (rule that)
  have near: "\<bar>re_tsMs x - ?st\<bar> < 2 ^ 50" if "x \<in># ?M" for x
  proof -
    have "(run_id, x) \<in> set (gather series_obs evs)" using that by (auto simp: run_edges_of_def obs_of_def)
    moreover have "near_start ?st evs" using modest by (simp add: modest_def)
    ultimately show ?thesis unfolding near_start_def by force
  qed
  have "w \<le> 2 ^ 51"
  proof (rule width_bound)
    show "narrowest (max 1 (ec_maxBucketsRun c)) (\<lambda>x. re_tsMs x - ?st) w ?M" using s(2) by (simp add: settled_def)
    show "set (map (\<lambda>x. re_tsMs x - ?st) (obs_of run_id (gather series_obs evs))) = (\<lambda>x. re_tsMs x - ?st) ` set_mset ?M"
      by (simp add: run_edges_of_def)
    show "2 \<le> ec_maxBucketsRun c \<or> (\<forall>t \<in> set (map (\<lambda>x. re_tsMs x - ?st) (obs_of run_id (gather series_obs evs))). 0 \<le> t)"
      using room_of [OF room, of run_id] by (simp add: run_id_def)
  next
    fix t assume "t \<in> set (map (\<lambda>x. re_tsMs x - ?st) (obs_of run_id (gather series_obs evs)))"
    then show "\<bar>t\<bar> < 2 ^ 50" using near by (auto simp: run_edges_of_def)
  qed
  moreover have w: "0 < w" using settled_width [OF s(2)] by simp
  ultimately have "zod_int w" "\<And>t. \<bar>t\<bar> < 2 ^ 50 \<Longrightarrow> zod_int (t div w * w)"
    unfolding zod_plain using offset_bound by (simp add: plain_int_def, blast)
  moreover have "LiveSeriesBucketSchema (shown_at ?st w ?M (bk_startOffsetMs b))" if "b \<in> set bs" for b
    unfolding shown_at_def
  proof (rule wire_typed)
    have "bk_startOffsetMs b \<in> slots ?st w ?M" using that s(3) by (metis finite_slots image_eqI set_map set_sorted_list_of_set)
    then show "zod_int (bk_startOffsetMs b)" using calculation(2) near by (auto simp: slots_def slot_start_def)
    have "size (filter_mset (\<lambda>x. slot_start ?st w x = bk_startOffsetMs b) ?M) \<le> 4 * length evs"
      using edges_counted [of evs] size_filter_mset_lesseq order.trans by blast
    then show "int (size (filter_mset (\<lambda>x. slot_start ?st w x = bk_startOffsetMs b) ?M)) < 2 ^ 53"
      using modest by (simp add: modest_def)
  qed
  ultimately show ?thesis using s(1,4) w by blast
qed

section \<open>The users\<close>

lemma one_second: "finite A \<Longrightarrow> (\<Sum>i \<in> A. if P \<and> s = i then 1 else 0 :: int) \<le> 1"
  by (cases P) (simp_all add: sum.delta')

lemma counted_once:
  assumes "finite A" and "\<And>i. f [] i = 0" and "\<And>e es i. f (e # es) i = (if P e \<and> s e = i then 1 else 0) + f es i"
  shows "(\<Sum>i \<in> A. f es i) \<le> int (length es) \<and> 0 \<le> (\<Sum>i \<in> A. f es i)"
proof (induction es)
  case (Cons e es)
  have "(\<Sum>i \<in> A. f (e # es) i) = (\<Sum>i \<in> A. if P e \<and> s e = i then 1 else 0 :: int) + (\<Sum>i \<in> A. f es i)"
    by (simp add: assms(3) sum.distrib)
  moreover have "0 \<le> (\<Sum>i \<in> A. if P e \<and> s e = i then 1 else 0 :: int)" by (simp add: sum_nonneg)
  ultimately show ?case using Cons one_second [OF assms(1), of "P e" "s e"] by simp
qed (simp add: assms(2))

lemma starts_counted: "finite A \<Longrightarrow> (\<Sum>i \<in> A. started_in st es i) \<le> int (length es) \<and> 0 \<le> (\<Sum>i \<in> A. started_in st es i)"
  by (rule counted_once [where P = "\<lambda>e. ud_delta e = 1" and s = "second st"]) (simp_all add: started_in_def)

lemma ends_counted: "finite A \<Longrightarrow> (\<Sum>i \<in> A. ended_in st es i) \<le> int (length es) \<and> 0 \<le> (\<Sum>i \<in> A. ended_in st es i)"
  by (rule counted_once [where P = "\<lambda>e. ud_delta e \<noteq> 1" and s = "second st"]) (simp_all add: ended_in_def)

lemma user_row_counts:
  "0 \<le> xu_started (user_row sc st es w off) \<and> xu_started (user_row sc st es w off) \<le> int (length es)"
  "0 \<le> xu_ended (user_row sc st es w off) \<and> xu_ended (user_row sc st es w off) \<le> int (length es)"
proof -
  have "filter_mset (\<lambda>i. i * 1000 div w * w = off) (mset (seconds st es)) = mset_set {i \<in> set (seconds st es). i * 1000 div w * w = off}"
    by (simp add: mset_set_set [symmetric])
  then have "(\<Sum>i \<in># filter_mset (\<lambda>i. i * 1000 div w * w = off) (mset (seconds st es)). f i) =
      (\<Sum>i \<in> {i \<in> set (seconds st es). i * 1000 div w * w = off}. f i)" for f :: "int \<Rightarrow> int"
    by (simp add: sum_unfold_sum_mset)
  then show "0 \<le> xu_started (user_row sc st es w off) \<and> xu_started (user_row sc st es w off) \<le> int (length es)"
    "0 \<le> xu_ended (user_row sc st es w off) \<and> xu_ended (user_row sc st es w off) \<le> int (length es)"
    using starts_counted [of "{i \<in> set (seconds st es). i * 1000 div w * w = off}" st es]
      ends_counted [of "{i \<in> set (seconds st es). i * 1000 div w * w = off}" st es]
    by (simp_all add: user_row_def Let_def)
qed

lemma those_elem: "those (map f xs) = Some ys \<Longrightarrow> y \<in> set ys \<Longrightarrow> \<exists>x \<in> set xs. f x = Some y"
  by (induction xs arbitrary: ys) (auto split: option.splits)

lemma users_of_elem:
  assumes "users_of lc st cap us = Some users" and "u \<in> set users"
  obtains sc where "user_sweep st (max 1 cap) (deltas_of sc us) = Some (uc_bucketWidthMs u, uc_buckets u)"
proof -
  obtain vs where vs: "those (map (\<lambda>sc. map_option (\<lambda>(w, bs). \<lparr>uc_scenario = sc, uc_bucketWidthMs = w, uc_buckets = bs\<rparr>)
       (user_sweep st (max 1 cap) (deltas_of sc us))) (first_seen (map fst us))) = Some vs" "u \<in> set vs"
    using assms by (auto simp: users_of_def)
  from those_elem [OF this] that show thesis by auto
qed

lemma users_typed:
  assumes res: "result_rep lc c m evs res" and cap: "2 \<le> ec_maxBucketsUsers c" and modest: "modest (me_startedAtMs m) evs"
  shows "LiveUsersSchema (users_envelope (xr_users res))"
proof -
  let ?st = "me_startedAtMs m" and ?us = "gather user_obs evs"
  have users: "users_of lc ?st (ec_maxBucketsUsers c) ?us = Some (xr_users res)" using res by (simp add: result_rep_def Let_def)
  have one: "zod_int (uc_bucketWidthMs u) \<and> 0 < uc_bucketWidthMs u \<and>
      (\<forall>b \<in> set (uc_buckets u). zod_int (ub_startOffsetMs b) \<and> zod_int (ub_started b) \<and> zod_int (ub_ended b))"
    if u: "u \<in> set (xr_users res)" for u
  proof -
    obtain sc where sw: "user_sweep ?st (max 1 (ec_maxBucketsUsers c)) (deltas_of sc ?us) = Some (uc_bucketWidthMs u, uc_buckets u)"
      by (rule users_of_elem [OF users u]) (rule that)
    let ?ds = "deltas_of sc ?us" and ?w = "uc_bucketWidthMs u"
    have near: "\<forall>d \<in> set ?ds. \<bar>ud_tsMs d - ?st\<bar> < 2 ^ 49"
      using modest by (force simp: modest_def deltas_of_def users_near_start_def)
    have cap2: "2 \<le> max 1 (ec_maxBucketsUsers c)" using cap by simp
    have "zod_int (ub_startOffsetMs b) \<and> zod_int (ub_started b) \<and> zod_int (ub_ended b)" if b: "b \<in> set (uc_buckets u)" for b
    proof -
      let ?row = "\<lambda>b. \<lparr>xu_scenario = sc, xu_startOffsetMs = ub_startOffsetMs b, xu_started = ub_started b,
        xu_ended = ub_ended b, xu_maxConcurrent = ub_maxConcurrent b\<rparr>"
      have "?row b \<in> set (map ?row (uc_buckets u))" using b by simp
      then obtain off where off: "off \<in> set (user_offsets ?st (js_sort cmp_delta ?ds) ?w)"
        "?row b = user_row sc ?st (js_sort cmp_delta ?ds) ?w off"
        unfolding stored_users(1) [OF sw cap2 refl] by auto
      have "xu_startOffsetMs (?row b) = off" unfolding off(2) by (simp add: user_row_def Let_def)
      then have "zod_int (ub_startOffsetMs b)" using user_offset_plain [OF sw cap2 near off(1)] by (simp add: zod_plain)
      moreover have "length ?ds \<le> length evs" by (rule deltas_counted)
      then have "0 \<le> xu_started (?row b) \<and> xu_started (?row b) \<le> int (length evs)"
        "0 \<le> xu_ended (?row b) \<and> xu_ended (?row b) \<le> int (length evs)"
        unfolding off(2) using user_row_counts [of sc ?st "js_sort cmp_delta ?ds" ?w off] by simp_all
      ultimately show ?thesis using modest by (simp add: modest_def zod_int_def)
    qed
    moreover have "0 < ?w" "?w \<le> 2 ^ 51" using user_width_small [OF sw cap2 near] by blast+
    ultimately show ?thesis by (simp add: zod_int_def)
  qed
  have "zod_int (lv_widthMs (users_envelope (xr_users res))) \<and> 0 < lv_widthMs (users_envelope (xr_users res))"
  proof (cases "xr_users res = []")
    case False
    then have "Min (uc_bucketWidthMs ` set (xr_users res)) \<in> uc_bucketWidthMs ` set (xr_users res)" by (intro Min_in) simp_all
    then obtain u where "u \<in> set (xr_users res)" "Min (uc_bucketWidthMs ` set (xr_users res)) = uc_bucketWidthMs u" by (rule imageE) simp
    then show ?thesis using one False by (simp add: users_envelope_def)
  qed (simp add: users_envelope_def zod_int_def)
  moreover have "list_all LiveUserBucketSchema (lv_buckets (users_envelope (xr_users res)))"
    using one by (auto simp: list_all_iff users_envelope_def LiveUserBucketSchema_def)
  ultimately show ?thesis by (simp add: LiveUsersSchema_def)
qed

section \<open>The errors\<close>

lemma top_counts:
  assumes "t \<in> set (error_rollup_top lc limit (fold error_rollup_add msgs []))"
  shows "0 \<le> et_count t \<and> et_count t \<le> int (length msgs)"
proof -
  let ?c = "fold error_rollup_add msgs []"
  let ?ts = "error_rollup_top lc limit ?c"
  have entry: "0 \<le> snd e" if "e \<in> set ?c" for e
    using counts_rep_entry [OF error_rollup_rep, of "fst e" "snd e" msgs] that by simp
  then have "0 \<le> et_count t" if "t \<in> set ?ts" for t
    using that by (auto simp: error_rollup_top_def Let_def split: if_splits dest!: in_set_takeD in_set_dropD intro!: sum_list_nonneg)
  then have "0 \<le> et_count t" "et_count t \<le> (\<Sum>t \<leftarrow> ?ts. et_count t)"
    using assms member_le_sum_list [of "et_count t" "map et_count ?ts"] by auto
  then show ?thesis by (simp add: error_rollup_top_sum)
qed

lemma errors_typed:
  assumes "result_rep lc c m evs res" and "int (length evs) < 2 ^ 50"
  shows "LiveErrorsSchema (error_rows_of res)"
proof -
  let ?E = "gather (error_obs (me_startedAtMs m) (ec_warmupMs c)) evs"
  have errors: "xr_errors res = errors_of lc ?E" using assms(1) by (simp add: result_rep_def Let_def)
  have "zod_int n" if row: "(i, message, n) \<in> set (errors_of lc ?E)" for i message n
  proof -
    obtain t where "t \<in> set (error_rollup_top lc 200 (fold error_rollup_add (obs_of i ?E) []))" "n = et_count t"
      using row by (auto simp: errors_of_def)
    then have "0 \<le> n \<and> n \<le> int (length (obs_of i ?E))" using top_counts by blast
    moreover have "length (obs_of i ?E) \<le> 2 * length evs" by (rule errors_counted)
    ultimately show ?thesis using assms(2) by (simp add: zod_int_def)
  qed
  then show ?thesis by (auto simp: LiveErrorsSchema_def list_all_iff error_rows_of_def errors)
qed

section \<open>The rules\<close>

lemma resolve_finite:
  assumes "stat \<in> set (toEvaluableStats stats)" and "resolveMetric stat metric = Inr (Some v)"
  shows "\<exists>x. v = JFin x"
proof -
  have stored: "\<exists>x. v = JFin x" if "jm_get (sv_percentiles stat) metric = Some v" for v
  proof -
    obtain s where "stat = toEvaluableStat s" using assms(1) by (auto simp: toEvaluableStats_def)
    with map_of_SomeD [OF that] show ?thesis by (auto simp: toEvaluableStat_def)
  qed
  have "\<exists>x. v = JFin x" if "map_sum id (map_option (\<lambda>v. JFin (of_int v))) y = Inr (Some v)" for y :: "stat_error + int option"
    using that by (cases y) auto
  with assms(2) stored show ?thesis by (auto simp: resolveMetric_def split: option.splits if_splits)
qed

lemma sum_list_all_elems:
  "sum_list_all (map g xs) = Inr as \<Longrightarrow> length as = length xs \<and> (\<forall>a \<in> set as. \<exists>x \<in> set xs. g x = Inr a)"
  by (induction xs arbitrary: as) (fastforce simp: bind_sum_Inr_eq)+

lemma evaluated_each:
  assumes "evaluateRules f rules stats = Inr (as, v)"
  shows "length as = length rules" "\<forall>a \<in> set as. \<exists>r \<in> set rules. evaluate_rule f stats r = Inr a"
proof -
  have "sum_list_all (map (evaluate_rule f stats) rules) = Inr as"
    using assms by (cases "sum_list_all (map (evaluate_rule f stats) rules)") (simp_all add: evaluateRules_def)
  from sum_list_all_elems [OF this] show "length as = length rules" "\<forall>a \<in> set as. \<exists>r \<in> set rules. evaluate_rule f stats r = Inr a"
    by blast+
qed

lemma filter_first: "filter P xs = x # ys \<Longrightarrow> x \<in> set xs"
proof -
  assume "filter P xs = x # ys"
  then have "x \<in> set (filter P xs)" by (metis list.set_intros(1))
  then show "x \<in> set xs" by (simp only: set_filter mem_Collect_eq)
qed

lemma bound_candidate: "bound_row rule stats = Some s \<Longrightarrow> s \<in> set (candidates_of rule stats)"
  unfolding bound_row_def by (auto split: list.splits if_splits dest!: filter_first)

lemma failed_finite:
  assumes "evaluateRules f rules (toEvaluableStats stats) = Inr (as, v)" and "a \<in> set as" and "sa_outcome a = RuleFailed"
    and "plain_rules rules"
  shows "\<exists>x. sa_actualValue a = Some (JFin x)"
proof -
  obtain rule where rule: "rule \<in> set rules" "evaluate_rule f (toEvaluableStats stats) rule = Inr a"
    using evaluated_each [OF assms(1)] assms(2) by blast
  then have "plain_metric (ru_metric rule)" using assms(4) by (simp add: plain_rules_def list_all_iff)
  from evaluate_rule_spec [OF this, of f "toEvaluableStats stats"] rule(2) obtain x where
    x: "measured f (toEvaluableStats stats) rule = Some x" "sa_actualValue a = Some x"
    using assms(3) by (auto split: option.splits if_splits)
  then obtain s where s: "bound_row rule (toEvaluableStats stats) = Some s" "resolveMetric s (ru_metric rule) = Inr (Some x)"
    by (auto simp: measured_def split: option.splits sum.splits if_splits)
  have "set (candidates_of rule (toEvaluableStats stats)) \<subseteq> set (toEvaluableStats stats)" by (auto simp: candidates_of_def)
  moreover have "s \<in> set (candidates_of rule (toEvaluableStats stats))"
    by (rule bound_candidate [OF s(1)])
  ultimately have "s \<in> set (toEvaluableStats stats)" by blast
  from resolve_finite [OF this s(2)] show ?thesis using x(2) by blast
qed

lemma find_elem: "find P xs = Some x \<Longrightarrow> x \<in> set xs"
  by (auto simp: find_Some_iff)

lemma wireRule_typed: "zod_nullable AssertionRuleSchema (wireRule rule)"
proof (cases "wireRule rule")
  case (Some r)
  then obtain s f where "find (\<lambda>s. s = ru_scope rule) SLA_RULE_SCOPES = Some s" "find (\<lambda>f. f = ru_family rule) SLA_RULE_FAMILIES = Some f"
    "wr_scope r = s" "wr_family r = f" by (auto simp: wireRule_def split: option.splits)
  then have "wr_scope r \<in> set SLA_RULE_SCOPES" "wr_family r \<in> set SLA_RULE_FAMILIES" by (auto dest: find_elem)
  then show ?thesis using Some by (simp add: AssertionRuleSchema_def zod_nullable_def)
qed (simp add: zod_nullable_def)

definition since_safe :: "(jstr, int) jmap \<Rightarrow> bool" where
  "since_safe since \<longleftrightarrow> (\<forall>e \<in> set since. zod_int (snd e))"

lemma since_or: "since_safe since \<Longrightarrow> zod_int (jm_get_or 0 since k)"
  by (cases "jm_get since k") (force simp: since_safe_def jm_get_or_def zod_int_def dest: map_of_SomeD)+

lemma sla_typed:
  assumes "evaluateRules f rules (toEvaluableStats stats) = Inr (as, v)" and "since_safe since" and "int (length rules) < 2 ^ 53"
    and "plain_rules rules"
  shows "LiveSlaSchema (sla_envelope \<lparr>si_assertions = as, si_breachingSince = since, si_rulesUnavailable = u\<rparr>)"
proof -
  have n: "length as = length rules" by (rule evaluated_each [OF assms(1)])
  have "length (filter P as) \<le> length rules" for P using n length_filter_le [of P as] by simp
  then have "int (length (filter P as)) < 2 ^ 53" for P using assms(3) by (meson le_less_trans of_nat_mono)
  then have "zod_int (int (length (filter P as)))" "zod_int (int (length as) - int (length (filter P as)))" for P
    using assms(3) n length_filter_le [of P as] by (simp_all add: zod_int_def less_imp_le)
  moreover have "LiveBreachSchema (breach_of since a)" if "a \<in> set as" "sa_outcome a = RuleFailed" for a
    using failed_finite [OF assms(1) that assms(4)] since_or [OF assms(2)] wireRule_typed
    by (auto simp: LiveBreachSchema_def breach_of_def zod_number_def)
  ultimately show ?thesis by (auto simp: LiveSlaSchema_def sla_envelope_def Let_def list_all_iff)
qed

section \<open>One message\<close>

lemma sum_list_all_good:
  assumes "\<forall>x \<in> set xs. \<exists>y. f x = Inr y \<and> P y"
  shows "\<exists>ys. sum_list_all (map f xs) = Inr ys \<and> list_all P ys"
  using assms by (induction xs) auto

lemma message_typed:
  assumes res: "result_rep lc c m evs res" and room: "stream_room c (me_startedAtMs m) evs" and modest: "modest (me_startedAtMs m) evs"
    and cap: "2 \<le> ec_maxBucketsUsers c" and sla: "LiveSlaSchema (sla_envelope sla)" and guid: "guid runId"
    and seq: "0 \<le> dc_seq cur" "zod_int (dc_seq cur)"
  shows "\<exists>d nxt. buildDelta runId res cur sla = Inr (d, nxt) \<and> LiveDeltaSchema guid d \<and> dc_seq nxt = dc_seq cur + 1"
proof -
  obtain w bs where s: "run_series_of res = (w, bs)" "zod_int w" "0 < w"
    "\<forall>b \<in> set bs. \<exists>x. wire_bucket b = Inr x \<and> LiveSeriesBucketSchema x"
    using run_series_typed [OF res room modest] by blast
  define maxMs where "maxMs = (case run_stat_of res of Some s \<Rightarrow> sr_maxMs s | None \<Rightarrow> 0)"
  define rep where "rep \<longleftrightarrow> w \<noteq> dc_lastBucketWidthMs cur"
  obtain since fresh where f: "fresh_buckets rep cur maxMs w bs = (since, fresh)" by (rule prod.exhaust)
  then have "set fresh \<subseteq> set bs" by (auto simp: fresh_buckets_def Let_def)
  with s(4) obtain wire where wire: "sum_list_all (map wire_bucket fresh) = Inr wire" "list_all LiveSeriesBucketSchema wire"
    using sum_list_all_good [of fresh wire_bucket LiveSeriesBucketSchema] by blast
  define last' where "last' = (if fresh \<noteq> [] then Max (set (map bk_startOffsetMs fresh)) else since)"
  have "buildDelta runId res cur sla = Inr
      (\<lparr>ld_runId = runId, ld_seq = dc_seq cur, ld_summary = summary_of res,
        ld_responseTime = \<lparr>rt_widthMs = w, rt_replaces = rep, rt_buckets = wire\<rparr>,
        ld_users = users_envelope (xr_users res), ld_errors = error_rows_of res, ld_sla = sla_envelope sla\<rparr>,
       \<lparr>dc_seq = dc_seq cur + 1, dc_lastPublishedOffsetMs = last', dc_lastBucketWidthMs = w\<rparr>)"
    unfolding buildDelta_def s(1) Let_def prod.case maxMs_def [symmetric] rep_def [symmetric] f last'_def by (simp add: wire(1))
  moreover have "int (length evs) < 2 ^ 50" using modest by (simp add: modest_def)
  ultimately show ?thesis
    using summary_typed [OF res] errors_typed [OF res] users_typed [OF res cap modest] s(2,3) wire(2) sla guid seq
    by (simp add: LiveDeltaSchema_def LiveResponseTimeSchema_def)
qed

lemma snapshot_typed:
  assumes "result_rep lc c m evs res" and "stream_room c (me_startedAtMs m) evs" and "modest (me_startedAtMs m) evs"
    and "2 \<le> ec_maxBucketsUsers c" and "LiveSlaSchema (sla_envelope sla)" and "guid runId" and "0 \<le> n" "zod_int n"
  shows "\<exists>d. buildSnapshot runId res n sla = Inr d \<and> LiveDeltaSchema guid d"
proof -
  have "0 \<le> dc_seq INITIAL_CURSOR" "zod_int (dc_seq INITIAL_CURSOR)" by (simp_all add: INITIAL_CURSOR_def zod_int_def)
  from message_typed [where guid = guid and runId = runId, OF assms(1-6) this] obtain d nxt where
    "buildDelta runId res INITIAL_CURSOR sla = Inr (d, nxt)" "LiveDeltaSchema guid d" by blast
  then show ?thesis using assms(7,8) by (auto simp: buildSnapshot_def LiveDeltaSchema_def)
qed

lemma duration_safe:
  assumes "result_rep lc c m evs res" and "modest (me_startedAtMs m) evs"
  shows "zod_int (xr_durationMs res)"
proof -
  let ?st = "me_startedAtMs m" and ?rs = "gather requests_in evs"
  define lastMs where "lastMs = Max (insert 0 (set (map rq_endMs ?rs)))"
  have d: "xr_durationMs res = (if lastMs = 0 then 0 else max 0 (lastMs - ?st))"
    using assms(1) by (simp add: result_rep_def Let_def lastMs_def)
  have "lastMs \<in> insert 0 (set (map rq_endMs ?rs))" unfolding lastMs_def by (rule Max_in) simp_all
  then consider "lastMs = 0" | r where "r \<in> set ?rs" "lastMs = rq_endMs r" by auto
  then show ?thesis
  proof cases
    case 2
    then obtain ev where ev: "ev \<in> set evs" "r \<in> set (requests_in ev)" by auto
    have "\<exists>p \<in> set (series_obs ev). re_tsMs (snd p) = lastMs" using ev(2) 2(2) by (cases ev) (auto simp: both_edges_def an_edge_def)
    then obtain p where p: "p \<in> set (series_obs ev)" "re_tsMs (snd p) = lastMs" by blast
    then have "p \<in> set (gather series_obs evs)" using ev(1) by (simp only: set_concat set_map) blast
    moreover have "near_start ?st evs" using assms(2) by (simp add: modest_def)
    ultimately have "\<bar>lastMs - ?st\<bar> < 2 ^ 50" unfolding near_start_def p(2) [symmetric] by (rule bspec [rotated])
    then show ?thesis by (auto simp: d zod_int_def)
  qed (simp add: d zod_int_def)
qed

section \<open>Ticks\<close>

lemma jm_set_elems: "set (jm_set k v m) \<subseteq> insert (k, v) (set m)"
  by (induction m) auto

lemma since_set: "since_safe since \<Longrightarrow> zod_int v \<Longrightarrow> since_safe (jm_set k v since)"
  using jm_set_elems [of k v since] by (auto simp: since_safe_def)

lemma since_fold:
  assumes "\<And>x m. x \<in> set xs \<Longrightarrow> since_safe m \<Longrightarrow> since_safe (f x m)" and "since_safe m"
  shows "since_safe (fold f xs m)"
  using assms by (induction xs arbitrary: m) auto

lemma breaching_since_safe:
  assumes "since_safe since" and "zod_int durationMs"
  shows "since_safe (breaching_since breaching durationMs since)"
  unfolding breaching_since_def Let_def
proof (rule since_fold)
  show "since_safe (if jm_get m (sa_ruleId a) = None then jm_set (sa_ruleId a) durationMs m else m)" if "since_safe m" for a m
    using that since_set assms(2) by simp
  show "since_safe (filter (\<lambda>(ruleId, _). ruleId \<in> set (map sa_ruleId breaching)) since)"
    using assms(1) by (auto simp: since_safe_def)
qed

lemma resumed:
  "0 \<le> dc_seq (fst (resumeState tip)) \<and> since_safe (snd (resumeState tip))"
proof -
  have "since_safe (fold (\<lambda>b. jm_set (lq_ruleId b) (lq_sinceOffsetMs b)) (ls_breaching s) [])" if "LiveSlaSchema s" for s
  proof (rule since_fold)
    show "since_safe (jm_set (lq_ruleId b) (lq_sinceOffsetMs b) m)" if b: "b \<in> set (ls_breaching s)" "since_safe m" for b m
      using \<open>LiveSlaSchema s\<close> b by (intro since_set) (auto simp: LiveSlaSchema_def list_all_iff LiveBreachSchema_def)
  qed (simp add: since_safe_def)
  then show ?thesis by (auto simp: resumeState_def INITIAL_CURSOR_def since_safe_def split: option.splits)
qed

text \<open>An owner that goes on sending well-typed messages up to the seq \<open>n\<close>.\<close>

definition typed_owner :: "engine_config \<Rightarrow> meta_event \<Rightarrow> canonical_event list \<Rightarrow> fold_state \<Rightarrow> bool" where
  "typed_owner c m evs s \<longleftrightarrow> (\<exists>e0. live_rep c m evs e0 (fs_engine s)) \<and> since_safe (fs_breachingSince s) \<and>
     plain_rules (fs_rules s) \<and> int (length (fs_rules s)) < 2 ^ 53 \<and> 0 \<le> dc_seq (fs_cursor s)"

lemma publish_typed:
  assumes s: "typed_owner c m b s" and run: "runnable c m b" and modest: "modest (me_startedAtMs m) b"
    and cap: "2 \<le> ec_maxBucketsUsers c" and lc: "strict_cmp lc" and guid: "guid runId"
    and seq: "dc_seq (fs_cursor s) + 1 < 2 ^ 53"
  shows "\<exists>s' k' d. publish lc bytes outcome setOk runId (s, k) = Some (Inr ((s', k'), d)) \<and> LiveDeltaSchema guid d \<and>
    typed_owner c m b s' \<and> dc_seq (fs_cursor s') = dc_seq (fs_cursor s) + 1 \<and>
    (\<forall>sn. rk_snapshot k' = Some sn \<longrightarrow> rk_snapshot k = Some sn \<or> LiveDeltaSchema guid sn)"
proof -
  obtain e0 where e0: "live_rep c m b e0 (fs_engine s)" using s by (auto simp: typed_owner_def)
  then have "engine_rep c m b e0" by (simp add: live_rep_def)
  from snapshot_rep [OF this run, of lc True] obtain res e0' where
    snap: "engine_snapshot lc True e0 = Some (Inr (res, e0'))" and res: "result_rep lc c m b res" by blast
  from live_snapshot [OF e0 snap _ lc] run obtain e where
    e: "engine_snapshot lc True (fs_engine s) = Some (Inr (res, e))" "live_rep c m b e0 e" by (auto simp: runnable_def)
  obtain as v where as: "evaluateRules (Some liveEvidenceFloor) (fs_rules s) (toEvaluableStats (xr_stats res)) = Inr (as, v)"
    using evaluate_never_throws s unfolding typed_owner_def by blast
  define since where "since = breaching_since (filter (\<lambda>a. sa_outcome a = RuleFailed) as) (xr_durationMs res) (fs_breachingSince s)"
  define sla where "sla = \<lparr>si_assertions = as, si_breachingSince = since, si_rulesUnavailable = fs_rulesLoadFailed s\<rparr>"
  have since: "since_safe since" unfolding since_def
    using s duration_safe [OF res modest] by (intro breaching_since_safe) (simp_all add: typed_owner_def)
  have "LiveSlaSchema (sla_envelope sla)" unfolding sla_def
    using sla_typed [OF as since] s by (simp add: typed_owner_def)
  note here = res _ modest cap this
  have room: "stream_room c (me_startedAtMs m) b" using run by (simp add: runnable_def)
  have n: "0 \<le> dc_seq (fs_cursor s)" "zod_int (dc_seq (fs_cursor s))" using s seq by (simp_all add: typed_owner_def zod_int_def)
  obtain d nxt where d: "buildDelta runId res (fs_cursor s) sla = Inr (d, nxt)" "LiveDeltaSchema guid d"
    "dc_seq nxt = dc_seq (fs_cursor s) + 1"
    using message_typed [where guid = guid and runId = runId, OF here(1) room here(3,4,5) guid n] by blast
  have "0 \<le> dc_seq nxt" "zod_int (dc_seq nxt)" using n seq by (simp_all add: d(3) zod_int_def)
  then obtain sn where sn: "buildSnapshot runId res (dc_seq nxt) sla = Inr sn" "LiveDeltaSchema guid sn"
    using snapshot_typed [where guid = guid and runId = runId, OF here(1) room here(3,4,5) guid] by blast
  define s1 where "s1 = s\<lparr>fs_engine := e, fs_breachingSince := since\<rparr>"
  define k1 where "k1 = (if appended outcome then k\<lparr>rk_stream := xadd_maxlen (replayEntryCap (bytes d)) d (rk_stream k)\<rparr> else k)"
  define S' where "S' = (if outcome = AllWritten then write_snapshot setOk runId res (dc_seq nxt) sla (s1\<lparr>fs_cursor := nxt\<rparr>, k1)
    else (s1\<lparr>fs_cursor := (fs_cursor s)\<lparr>dc_seq := dc_seq nxt\<rparr>\<rparr>, k1))"
  have pub: "publish lc bytes outcome setOk runId (s, k) = Some (Inr (S', d))"
    using e d(1) by (simp add: publish_def as S'_def s1_def k1_def sla_def since_def Let_def)
  have "rk_snapshot k1 = rk_snapshot k" by (simp add: k1_def)
  then have "\<forall>x. rk_snapshot (snd S') = Some x \<longrightarrow> rk_snapshot k = Some x \<or> LiveDeltaSchema guid x"
    using sn by (auto simp: S'_def write_snapshot_def Let_def)
  moreover have "fs_engine (fst S') = e" "fs_breachingSince (fst S') = since" "fs_rules (fst S') = fs_rules s"
    "dc_seq (fs_cursor (fst S')) = dc_seq nxt"
    by (simp_all add: S'_def s1_def write_snapshot_def Let_def sn(1))
  moreover have "typed_owner c m b (fst S')" unfolding typed_owner_def calculation(2-5)
    using s since e(2) d(3) n(1) by (auto simp: typed_owner_def)
  ultimately show ?thesis using pub d(2,3) by (metis prod.collapse)
qed

lemma tick_typed:
  assumes s: "typed_owner c m evs s" and b: "b = evs @ tk_events t" and run: "runnable c m b" "fits c b"
    and more: "modest (me_startedAtMs m) b" "2 \<le> ec_maxBucketsUsers c" "strict_cmp lc" "guid runId" "dc_seq (fs_cursor s) + 1 < 2 ^ 53"
  shows "\<exists>s' k' d. owner_tick lc bytes runId t (s, k) = Some (Inr ((s', k'), d)) \<and> LiveDeltaSchema guid d \<and>
    typed_owner c m b s' \<and> dc_seq (fs_cursor s') = dc_seq (fs_cursor s) + 1 \<and>
    (\<forall>sn. rk_snapshot k' = Some sn \<longrightarrow> rk_snapshot k = Some sn \<or> LiveDeltaSchema guid sn)"
proof -
  obtain e0 where e0: "live_rep c m evs e0 (fs_engine s)" using s by (auto simp: typed_owner_def)
  from live_fold [OF e0 _ _ more(3)] run b obtain e0' e where
    e: "engine_fold (tk_events t) (fs_engine s) = Some (Inr e)" "live_rep c m b e0' e" by blast
  have "typed_owner c m b (s\<lparr>fs_engine := e\<rparr>)" using s e(2) by (auto simp: typed_owner_def)
  from publish_typed [where guid = guid and runId = runId and k = k and bytes = bytes and outcome = "tk_outcome t" and setOk = "tk_setOk t",
      OF this run(1) more(1-4)] more(5)
  obtain s' k' d where "publish lc bytes (tk_outcome t) (tk_setOk t) runId (s\<lparr>fs_engine := e\<rparr>, k) = Some (Inr ((s', k'), d))"
    "LiveDeltaSchema guid d" "typed_owner c m b s'" "dc_seq (fs_cursor s') = dc_seq (fs_cursor s) + 1"
    "\<forall>sn. rk_snapshot k' = Some sn \<longrightarrow> rk_snapshot k = Some sn \<or> LiveDeltaSchema guid sn" by auto
  moreover from this(1) have "owner_tick lc bytes runId t (s, k) = Some (Inr ((s', k'), d))" by (simp add: owner_tick_def e(1))
  ultimately show ?thesis by blast
qed

lemma run_typed:
  assumes "typed_owner c m evs s" and "runnable c m (told evs ts)" and "fits c (told evs ts)" and "modest (me_startedAtMs m) (told evs ts)"
    and cap: "2 \<le> ec_maxBucketsUsers c" and lc: "strict_cmp lc" and guid: "guid runId"
    and "dc_seq (fs_cursor s) + int (length ts) < 2 ^ 53"
  shows "\<exists>s' k' sent. owner_run lc bytes runId ts (s, k) = Some (Inr ((s', k'), sent)) \<and> length sent = length ts \<and>
    list_all (\<lambda>(d, outcome). LiveDeltaSchema guid d) sent \<and>
    (\<forall>sn. rk_snapshot k' = Some sn \<longrightarrow> rk_snapshot k = Some sn \<or> LiveDeltaSchema guid sn)"
  using assms(1-4,8)
proof (induction ts arbitrary: evs s k)
  case (Cons t ts)
  let ?b = "evs @ tk_events t"
  have next_: "runnable c m (told ?b ts)" "fits c (told ?b ts)" "modest (me_startedAtMs m) (told ?b ts)" using Cons.prems by simp_all
  have "dc_seq (fs_cursor s) + 1 < 2 ^ 53" using Cons.prems(5) by simp
  from tick_typed [where guid = guid and runId = runId and k = k and bytes = bytes, OF Cons.prems(1) refl runnable_prefix [OF next_(1)]
      fits_prefix [OF next_(2)] modest_prefix [OF next_(3)] cap lc guid this]
  obtain s1 k1 d where t: "owner_tick lc bytes runId t (s, k) = Some (Inr ((s1, k1), d))" "LiveDeltaSchema guid d"
    "typed_owner c m ?b s1" "dc_seq (fs_cursor s1) = dc_seq (fs_cursor s) + 1"
    "\<forall>sn. rk_snapshot k1 = Some sn \<longrightarrow> rk_snapshot k = Some sn \<or> LiveDeltaSchema guid sn" by blast
  have "dc_seq (fs_cursor s1) + int (length ts) < 2 ^ 53" using Cons.prems(5) t(4) by simp
  from Cons.IH [OF t(3) next_ this, of k1] obtain s' k' sent where
    "owner_run lc bytes runId ts (s1, k1) = Some (Inr ((s', k'), sent))" "length sent = length ts"
    "list_all (\<lambda>(d, outcome). LiveDeltaSchema guid d) sent"
    "\<forall>sn. rk_snapshot k' = Some sn \<longrightarrow> rk_snapshot k1 = Some sn \<or> LiveDeltaSchema guid sn" by blast
  then show ?case using t(1,2,5) by auto
qed simp

text \<open>
  C14: every message of a claim, and every snapshot that it leaves, satisfies the schema that
  the browser parses a frame with. So no frame is dropped: counts, offsets and widths are safe integers,
  the error rate is a ratio, widths are positive, and a breach carries a finite value and a rule of a known scope and family.
  No rule names an inherited member of an object as its metric, and the run has fewer than \<open>2 ^ 50\<close> events within \<open>2 ^ 49\<close> milliseconds of its start.
\<close>

theorem frames_are_never_dropped:
  assumes "tk_events t = MetaE m # first" and "runnable (engine_config_of opts) m (told first ts)"
    and "fits (engine_config_of opts) (told first ts)" and "modest (me_startedAtMs m) (told first ts)"
    and "2 \<le> ec_maxBucketsUsers (engine_config_of opts)" and "strict_cmp lc" and "guid runId"
    and "int (length rules) < 2 ^ 53" and "dc_seq (fst (resumeState tip)) + int (length ts) + 1 < 2 ^ 53"
    and "plain_rules rules"
  shows "\<exists>s' k' sent. owner_run lc bytes runId (t # ts) (claimed tip opts rules failed, k) = Some (Inr ((s', k'), sent)) \<and>
    length sent = length (t # ts) \<and> list_all (\<lambda>(d, outcome). LiveDeltaSchema guid d) sent \<and>
    (\<forall>sn. rk_snapshot k' = Some sn \<longrightarrow> rk_snapshot k = Some sn \<or> LiveDeltaSchema guid sn)"
proof -
  let ?s = "(claimed tip opts rules failed)\<lparr>fs_engine := add_meta m (new_engine opts)\<rparr>" and ?c = "engine_config_of opts"
  let ?t = "t\<lparr>tk_events := first\<rparr>"
  have "owner_rep ?c m [] None ?s" by (rule claimed_rep [OF assms(10)])
  then have "typed_owner ?c m [] ?s" using resumed [of tip] assms(8)
    by (auto simp: typed_owner_def owner_rep_def claimed_def split: prod.splits)
  moreover have "dc_seq (fs_cursor ?s) + int (length (?t # ts)) < 2 ^ 53" using assms(9)
    by (cases "resumeState tip") (simp add: claimed_def)
  ultimately show ?thesis unfolding header_tick [OF assms(1)]
    using run_typed [where guid = guid and runId = runId and k = k and bytes = bytes and ts = "?t # ts", OF _ _ _ _ assms(5-7)] assms(2-4)
    by simp
qed

theorem frames_are_never_dropped_witness:
  "\<exists>s' k' sent. owner_run cmp_units (\<lambda>d. 4096) (js ''r'') live_ticks
      (claimed None no_options [] False, \<lparr>rk_stream = [], rk_snapshot = None\<rparr>) = Some (Inr ((s', k'), sent)) \<and>
    length sent = 3 \<and> list_all (\<lambda>(d, outcome). LiveDeltaSchema (\<lambda>s. s = js ''r'') d) sent \<and>
    (\<forall>sn. rk_snapshot k' = Some sn \<longrightarrow> LiveDeltaSchema (\<lambda>s. s = js ''r'') sn)"
proof -
  have "modest (me_startedAtMs (sample_header 1000)) sample_stream"
    using sample_near by (simp add: modest_def sample_header_def sample_stream_def)
  moreover have "2 \<le> ec_maxBucketsUsers (engine_config_of no_options)"
    by (simp add: engine_config_of_def no_options_def or_default_def)
  moreover have "dc_seq (fst (resumeState None)) = 0" by (simp add: resumeState_def INITIAL_CURSOR_def)
  ultimately show ?thesis
    using frames_are_never_dropped [where t = "hd live_ticks" and m = "sample_header 1000" and opts = no_options and
        first = "[RequestE (sample_request (js ''a'') 1000 1200 True)]" and ts = "tl live_ticks" and lc = cmp_units and
        guid = "\<lambda>s. s = js ''r''" and runId = "js ''r''" and rules = "[]" and tip = None and bytes = "\<lambda>d. 4096" and
        failed = False and k = "\<lparr>rk_stream = [], rk_snapshot = None\<rparr>"]
      sample_ok(1) [of "sample_header 1000"] sample_ok(2) strict_units
    by (simp add: live_ticks_def sample_stream_def numeral_3_eq_3 del: owner_run.simps)
qed

end
