(* ===== verification/Spec2Isabelle.thy ===== *)
theory Spec2Isabelle
  imports LiveIngestProperties GatlingPlugin Distribution LiveWarmup LiveTyped
begin

text \<open>
  \<^bold>\<open>Vantrix (PerfPortal)\<close> takes the binary log of a Gatling load test, decodes it to canonical events, folds
  the events into statistics, evaluates the pass/fail rules of a project, shows the run while it is running,
  stores the figures, and re-checks what it stored from the log. This development models that path.

  \<^bold>\<open>The parts and how they interact.\<close> Bytes go through \<open>packages/plugin-gatling\<close> to events
  (\<open>packages/core\<close>); events go through the engine of \<open>packages/statistics\<close> to rows, series, errors and users;
  rows go to \<open>packages/sla\<close>. A finished run is stored by \<open>packages/persistence/src/metrics/write.ts\<close>, and
  \<open>packages/verify\<close> recomputes the same figures and compares. A running one is folded tick by tick
  by \<open>apps/worker/src/live\<close>, published on a channel and a replay stream, handed to a browser by
  \<open>apps/api/src/live/live.gateway.ts\<close> and merged there by \<open>apps/web/src/api/live.ts\<close>.

  \<^bold>\<open>Vocabulary.\<close>
  \<^item> \<open>Prelude\<close>: bytes as 8-bit words, JavaScript strings as lists of 16-bit code units, an insertion-ordered
    \<open>Map\<close> as an association list (\<open>jm_set\<close>, \<open>jm_get\<close>), the stable sort with a comparator (\<open>js_sort\<close>, and
    what it needs of the comparator as the locale \<open>consistent_cmp\<close>), sums of results.
  \<^item> \<open>JsNumber\<close>: doubles as rationals with an explicit rounding \<open>rnd\<close>, written into \<open>fadd\<close>, \<open>fmul\<close>, \<open>fdiv\<close>,
    \<open>fsqrt\<close> wherever the code computes with fractions; \<open>jnum\<close> adds the infinities and \<open>NaN\<close>. Whole numbers
    below \<open>2 ^ 53\<close> are exact and are integers. \<open>JsDecimal\<close>: \<open>String(k)\<close> of a whole number. \<open>FloatError\<close>: how far
    a sum of doubles strays when its order changes.

  \<^bold>\<open>The decoder\<close> (\<open>packages/core\<close>, \<open>packages/plugin-gatling\<close>).
  \<^item> \<open>Events\<close>: the event union and the errors of ingest. \<open>BinaryReader\<close>: \<open>reader.ts\<close>. \<open>GatlingLog\<close>: \<open>header.ts\<close>,
    \<open>record-decoder.ts\<close>, \<open>records.ts\<close>, \<open>assertions.ts\<close>. \<open>GatlingStream\<close>: the push parser \<open>stream.ts\<close> and
    \<open>truncate.ts\<close>. \<open>GatlingPlugin\<close>: detection and \<open>parse\<close> of \<open>plugin.ts\<close>.
  \<^item> \<open>LogFormat\<close> states the format as a relation between bytes and events, independently of the decoders;
    \<open>LogDecode\<close> shows that both decoders read every well-formed log, however it is cut into chunks;
    \<open>DecoderProperties\<close> concludes, and exhibits a record with a negative length on which the decoder does not return
    and a payload for which the push parser waits for ever.
  \<^item> The record loops may not end, so they are \<open>partial_function (option)\<close>: \<open>None\<close> is not returning.

  \<^bold>\<open>The statistics\<close> (\<open>packages/statistics\<close>).
  \<^item> \<open>Rank\<close>: the index of the nearest rank (\<open>rank.ts\<close>, \<open>percentile.ts\<close>) against the ceiling over the rationals. \<open>Histogram\<close>
    and \<open>HistogramCodec\<close>: \<open>histogram.ts\<close>; \<open>hist_rep\<close> ties a histogram to the multiset that it holds, so that recording,
    merging and the percentiles are those of the multiset, and the stored bytes read back. \<open>Rollup\<close>: \<open>rollup.ts\<close>,
    \<open>indicators.ts\<close>, \<open>stored-percentiles.ts\<close>. \<open>Distribution\<close>: \<open>distribution.ts\<close>.
  \<^item> \<open>TimeAxis\<close>: the coalescing of buckets on a time axis, as the locales \<open>coalescing\<close> and \<open>located\<close> (put an
    observation, join two buckets), interpreted for \<open>buckets.ts\<close> (\<open>Buckets\<close>), \<open>errors-series.ts\<close> (\<open>Errors\<close>, with
    \<open>errors-rollup.ts\<close>) and \<open>users.ts\<close> (\<open>Users\<close>). Whatever the order of the observations, the axis is the narrowest
    power of two of seconds that fits the cap. A cap of 1 with times before the start never fits; the loop is
    \<open>partial_function (option)\<close>, and the rooms \<open>edge_room\<close> and \<open>stream_room\<close> say when it returns. \<open>MergeSeries\<close>:
    the series of a group from those of its members (\<open>merge-series.ts\<close>).
  \<^item> \<open>ToolAssertions\<close>: \<open>tool-assertions.ts\<close>. \<open>Keyed\<close> and \<open>Engine\<close>: the class of \<open>engine.ts\<close> as a record of keyed accumulators
    (locale \<open>keyed\<close>), one definition per method. \<open>EngineFold\<close>: what each event contributes, and that the fold collects
    exactly that. \<open>EngineResult\<close>: the result as a function of the contributions (\<open>result_rep\<close>).
    \<open>LiveErrors\<close>, \<open>LiveSnapshots\<close>: a snapshot of a running engine leaves no trace. \<open>EngineProperties\<close> concludes.
  \<^item> \<open>Sla\<close>: \<open>packages/sla\<close>; the evaluation of rules that authoring admits never throws, and a verdict never passes on rules that
    were not checked. A rule may name an inherited member of an object as its metric only by another way into the store;
    \<open>plain_rules\<close> excludes it wherever a theorem rests on the evaluation.

  \<^bold>\<open>The live view\<close>.
  \<^item> \<open>LiveDelta\<close>, \<open>LiveSchema\<close>: the messages (\<open>contracts/src/live-delta.ts\<close>), how a tick builds one (\<open>live/delta.ts\<close>) and how the
    browser merges it. \<open>LiveView\<close>, \<open>LiveTick\<close>: the window that a tick sends reaches every bucket that changed.
    \<open>LiveOwner\<close>: the publication of a tick with every way its three Redis calls can fail (\<open>fold-owner.ts\<close>), and runs of
    ticks; \<open>LiveProperties\<close>: the page ends with the figures of the run. \<open>LiveTyped\<close>: every message satisfies the
    schema that the browser parses it with.
  \<^item> \<open>LiveGateway\<close>, \<open>LiveClient\<close>: seeding, hand-over and back-pressure of a socket, and the browser's end of it.
    \<open>LiveReplay\<close>, \<open>LiveViewers\<close>: a viewer who joins at any moment, from reads taken between any two Redis calls of the owner,
    ends with the figures of the run, provided that the reads see what was published before the viewer was subscribed.
    \<open>LiveFaults\<close>, \<open>LiveWarmup\<close>: four schedules in which a viewer does not.

  \<^bold>\<open>Live ingest\<close>.
  \<^item> \<open>LiveChunks\<close>: the chunks of a run in object storage (\<open>packages/storage/src/live-chunks.ts\<close>, \<open>BlobStore.list\<close>), their
    checked concatenation, and the pass of the fold owner from chunks to decoder (\<open>#fold\<close>). \<open>LiveIngest\<close>: the run row and its
    conditional updates (\<open>repositories/run.ts\<close>), and the handlers \<open>stream\<close> and \<open>close\<close> of \<open>live.service.ts\<close> as step functions
    from one \<open>await\<close> to the next; requests interleave, and every call may fail with or without effect.
  \<^item> \<open>LiveIngestSafety\<close>: the invariant of that system (\<open>system_ok\<close>), kept by every step of every request;
    \<open>LiveIngestProperties\<close>: no accepted byte is lost, a failed close can be retried, and what an owner folds meanwhile is the log;
    and two schedules that break the guarantee, a close that fails after the bundle is written and two pieces of different
    sizes at one offset. \<open>spared\<close> and \<open>arrives\<close> exclude just these.

  \<^bold>\<open>Storing and verifying\<close>.
  \<^item> \<open>Verify\<close>: the recomputation (\<open>packages/verify/src\<close>: \<open>stats.ts\<close>, \<open>rank.ts\<close>, \<open>series.ts\<close>, \<open>errors.ts\<close>, \<open>users.ts\<close>).
    \<open>VerifyCompare\<close>: the ledger and the comparators (\<open>compare.ts\<close>), the stored columns (\<open>MetricWriter.persist\<close>) and the
    way back (\<open>readStoredFigures\<close>, \<open>toStored\<close>).
  \<^item> \<open>VerifyMatch\<close>: pairing rows by key. Then table by table, engine against recomputation: \<open>VerifyStats\<close>, \<open>VerifyErrors\<close>,
    \<open>VerifyWidth\<close>, \<open>VerifySeries\<close>, \<open>VerifyBuckets\<close>, \<open>VerifyTables\<close>, \<open>VerifyFailures\<close>, \<open>VerifyErrorBuckets\<close>,
    \<open>VerifyUsers\<close>, \<open>VerifyUserRows\<close>. \<open>VerifyProperties\<close>: what the engine writes is confirmed. \<open>VerifySilence\<close>: what a comparison
    without mismatches says about the tables.

  \<^bold>\<open>Bounds.\<close> \<open>verifiable\<close>: at most two million events within \<open>2 ^ 49\<close> milliseconds of the start. Within them every offset is
    a safe integer and is printed without an exponent, the numerators of the ranks stay below \<open>2 ^ 53\<close>, and the standard deviation of
    the histogram and that of the sorted list, two orders of the same sum, stay within the verifier's tolerance of
    \<open>10 ^ -9\<close>. Names hold no NUL, with which the verifier separates its keys. \<open>modest\<close>: fewer than \<open>2 ^ 50\<close> events. \<open>orderly\<close>: responses
    arrive in the order in which they ended and none starts inside the warm-up, on which the lookback of a tick relies
    (\<open>LiveWarmup\<close> shows what happens otherwise).

  \<^bold>\<open>Parameters.\<close> \<open>localeCompare\<close> is a comparison \<open>lc\<close>; \<open>consistent_cmp\<close> asks for an order, \<open>strict_cmp\<close> also that it tells
    different strings apart. The length of a serialised message, the bytes that a socket has buffered and the pattern of
    a GUID are parameters. Of the database it is asked that a read returns the rows that were written, in any order
    (\<open>reads_back\<close>); of Redis that \<open>XADD\<close> appends and trims, and that a call is carried out or refused; of the object store that reads and listings are
    consistent and complete (\<open>store_laws\<close>, which an association list satisfies).

  \<^bold>\<open>Not modelled.\<close> The SQL of the other repositories, uploads to object storage, queues, locks and the worker's pipeline around the decoder
    and the engine: calls into services whose code is not here. Controllers, guards and the OpenAPI document: framework glue.
    The pages, tables and charts of the browser: markup and the options of a chart library. The figures of the Gatling agent,
    the telemetry of injectors and Gatling's own t-digest report: second inputs that a run without them never
    reads. Insight and AI texts, the runner, and the clients in Go, Kotlin and Java. Within modelled files: serialisation to JSON and the
    histogram blobs of stored rows, the discovery of runs and the locks of the fold owner, the upgrade handshake
    of the gateway, the React effects of the live hook, and the comparators of the agent tables.
\<close>

end
